(* ===== verification/Prelude.thy ===== *)
theory Prelude
  imports Main "HOL-Library.Word" "HOL-Library.Monad_Syntax"
begin

text \<open>
  Shared vocabulary of the development: the machine types of the i686 target, checked array
  accesses, single-bit masks, and the collections of rewrite rules that the component
  theories extend.

  A C function that changes state is modelled as a function from the state to an optional
  pair of result and new state. The value \<open>None\<close> stands for an execution the C text
  gives no meaning to: a dereference of a null or dangling pointer, an array access out of
  range, a division by zero, or (for a function declared with \<open>partial_function\<close>) a loop
  that does not end. Every error code the source returns is an ordinary result.
\<close>

unbundle bit_operations_syntax

type_synonym u8 = "8 word"
type_synonym u16 = "16 word"
type_synonym u32 = "32 word"
type_synonym u64 = "64 word"

text \<open>Addresses (\<open>uintptr_t\<close> and every pointer type) are 32-bit words; 0 is NULL.\<close>

type_synonym addr = "32 word"

named_theorems opt_simps
  \<open>rules that turn a successful run of option-monad code into its steps\<close>
named_theorems mask_simps
  \<open>rules that read single-bit masks as bit operations\<close>

lemma u32_bound: "unat w < 4294967296" for w :: u32
  using unsigned_less [of w, where 'a = nat] by simp

lemma u16_bound: "unat w < 65536" for w :: u16
  using unsigned_less [of w, where 'a = nat] by simp

lemma u32_inc: "unat w < 4294967295 \<Longrightarrow> unat (w + 1) = Suc (unat w)" for w :: u32
  by (simp add: unat_word_ariths)

lemma u32_dec: "0 < unat w \<Longrightarrow> unat (w - 1) = unat w - 1" for w :: u32
  by (rule unat_minus_one) auto

lemma u32_of_nat: "n < 4294967296 \<Longrightarrow> unat (of_nat n :: u32) = n"
  by (simp add: unsigned_of_nat take_bit_eq_mod)

lemma u32_sint_nonneg: "n < 2147483648 \<Longrightarrow> 0 \<le> sint (of_nat n :: u32)"
  by (simp add: signed_of_nat signed_take_bit_eq_if_positive bit_iff_odd)

subsection \<open>Checked array accesses\<close>

definition nth_opt :: "'a list \<Rightarrow> nat \<Rightarrow> 'a option" where
  "nth_opt xs i = (if i < length xs then Some (xs ! i) else None)"

definition upd_opt :: "'a list \<Rightarrow> nat \<Rightarrow> 'a \<Rightarrow> 'a list option" where
  "upd_opt xs i v = (if i < length xs then Some (xs[i := v]) else None)"

lemma nth_opt_Some [opt_simps]: "nth_opt xs i = Some v \<longleftrightarrow> i < length xs \<and> xs ! i = v"
  by (simp add: nth_opt_def)

lemma nth_opt_None [opt_simps]: "nth_opt xs i = None \<longleftrightarrow> length xs \<le> i"
  by (simp add: nth_opt_def)

lemma nth_opt_in [simp]: "i < length xs \<Longrightarrow> nth_opt xs i = Some (xs ! i)"
  by (simp add: nth_opt_def)

lemma upd_opt_Some [opt_simps]: "upd_opt xs i v = Some ys \<longleftrightarrow> i < length xs \<and> ys = xs[i := v]"
  by (auto simp: upd_opt_def)

lemma upd_opt_None [opt_simps]: "upd_opt xs i v = None \<longleftrightarrow> length xs \<le> i"
  by (simp add: upd_opt_def)

lemma upd_opt_in [simp]: "i < length xs \<Longrightarrow> upd_opt xs i v = Some (xs[i := v])"
  by (simp add: upd_opt_def)

lemmas [opt_simps] = Option.bind_eq_Some_conv Option.bind_eq_None_conv

subsection \<open>Single-bit masks\<close>

text \<open>The C expression \<open>1 << n\<close> at 32 bits, and its use to test, set and clear a bit.\<close>

definition bitmask :: "nat \<Rightarrow> u32" where
  "bitmask n = push_bit n 1"

lemma u32_eq_iff: "v = w \<longleftrightarrow> (\<forall>n < 32. bit v n \<longleftrightarrow> bit w n)" for v w :: u32
  by (auto intro: bit_word_eqI)

lemma bit_bitmask [mask_simps]: "bit (bitmask n) k \<longleftrightarrow> k = n \<and> n < 32"
  by (auto simp: bitmask_def bit_simps simp del: push_bit_of_1)

lemma and_bitmask_zero [mask_simps]:
  "n < 32 \<Longrightarrow> w AND bitmask n = 0 \<longleftrightarrow> \<not> bit w n"
proof -
  assume "n < 32"
  then have "w AND bitmask n = 0 \<longleftrightarrow> (\<forall>k < 32. \<not> (bit w k \<and> k = n))"
    by (simp add: u32_eq_iff bit_and_iff bit_bitmask)
  with \<open>n < 32\<close> show ?thesis by auto
qed

lemma bit_or_bitmask [mask_simps]:
  "n < 32 \<Longrightarrow> bit (w OR bitmask n) k \<longleftrightarrow> bit w k \<or> k = n"
  by (auto simp: bit_or_iff bit_bitmask)

lemma bit_andnot_bitmask [mask_simps]:
  "n < 32 \<Longrightarrow> bit (w AND NOT (bitmask n)) k \<longleftrightarrow> bit w k \<and> k \<noteq> n" for w :: u32
  by (auto simp: bit_and_iff bit_not_iff bit_bitmask dest: bit_imp_le_length)

lemma word_full_iff: "w = 0xFFFFFFFF \<longleftrightarrow> (\<forall>j < 32. bit w j)" for w :: u32
proof -
  have "w = - 1 \<longleftrightarrow> (\<forall>j < 32. bit w j)"
    by (auto simp: u32_eq_iff)
  moreover have "(- 1 :: u32) = 0xFFFFFFFF" by simp
  ultimately show ?thesis by metis
qed

end
