(* ===== verification/Frames.thy ===== *)
theory Frames
  imports Prelude
begin

text \<open>
  The interface of \<^verbatim>\<open>physical_allocator\<close>: the operations the pager calls and the laws it relies
  on, as a locale. \<^verbatim>\<open>Bmpmm\<close> provides it.
\<close>

text \<open>\<open>n\<close> calls of \<^verbatim>\<open>getpg\<close> in a row, with the addresses they return.\<close>

primrec get_pages :: "('s \<Rightarrow> (addr \<times> 's) option) \<Rightarrow> nat \<Rightarrow> 's \<Rightarrow> (addr list \<times> 's) option" where
  "get_pages get 0 s = Some ([], s)"
| "get_pages get (Suc n) s = do {
     (a, s1) \<leftarrow> get s;
     (as, s2) \<leftarrow> get_pages get n s1;
     Some (a # as, s2) }"

subsection \<open>The frame-allocator interface\<close>

text \<open>
  What the clients of \<^verbatim>\<open>physical_allocator\<close> rely on, over an abstraction \<open>frames\<close> to the set
  of frame numbers in use: \<^verbatim>\<open>getpg\<close> hands out a frame that nobody holds, \<^verbatim>\<open>freepg\<close> gives it
  back, and nothing else changes.
\<close>

locale frame_allocator =
  fixes inv :: "'s \<Rightarrow> bool"
    and total :: "'s \<Rightarrow> nat"
    and frames :: "'s \<Rightarrow> nat set"
    and getpg :: "'s \<Rightarrow> (addr \<times> 's) option"
    and freepg :: "addr \<Rightarrow> 's \<Rightarrow> 's option"
  assumes frames_le: "inv s \<Longrightarrow> frames s \<subseteq> {..<total s}"
    and getpg_full: "inv s \<Longrightarrow> frames s = {..<total s} \<Longrightarrow> getpg s = Some (0, s)"
    and getpg_free: "inv s \<Longrightarrow> frames s \<noteq> {..<total s} \<Longrightarrow>
      \<exists>p s'. getpg s = Some (of_nat (p * 4096), s') \<and> p < total s \<and> p \<notin> frames s \<and>
        inv s' \<and> total s' = total s \<and> frames s' = insert p (frames s)"
    and freepg_taken: "inv s \<Longrightarrow> p \<in> frames s \<Longrightarrow>
      \<exists>s'. freepg (of_nat (p * 4096)) s = Some s' \<and>
        inv s' \<and> total s' = total s \<and> frames s' = frames s - {p}"
begin

lemma finite_frames: "inv s \<Longrightarrow> finite (frames s)"
  using frames_le finite_subset by blast

text \<open>A request followed by the release of the frame it returned changes nothing a client can see.\<close>

lemma getpg_freepg:
  assumes "inv s" and "frames s \<noteq> {..<total s}"
  obtains p s' s'' where "getpg s = Some (of_nat (p * 4096), s')"
    and "freepg (of_nat (p * 4096)) s' = Some s''" and "frames s'' = frames s" and "inv s''"
proof -
  obtain p s' where g: "getpg s = Some (of_nat (p * 4096), s')" "p \<notin> frames s" "inv s'"
    "frames s' = insert p (frames s)"
    using getpg_free [OF assms] by blast
  then obtain s'' where "freepg (of_nat (p * 4096)) s' = Some s''" "inv s''" "frames s'' = frames s' - {p}"
    using freepg_taken [of s' p] by auto
  with g that show thesis by simp
qed

text \<open>Successive requests return different frames, as long as free ones are left.\<close>

lemma getpg_sequence:
  assumes "inv s" and "card (frames s) + n \<le> total s"
  shows "\<exists>ps t. get_pages getpg n s = Some (map (\<lambda>p. of_nat (p * 4096)) ps, t) \<and> length ps = n \<and>
    distinct ps \<and> set ps \<inter> frames s = {} \<and> set ps \<subseteq> {..<total s} \<and>
    inv t \<and> total t = total s \<and> frames t = frames s \<union> set ps"
  using assms
proof (induction n arbitrary: s)
  case 0
  then show ?case by simp
next
  case (Suc n)
  then have "frames s \<noteq> {..<total s}" by auto
  then obtain p s' where g: "getpg s = Some (of_nat (p * 4096), s')" "p < total s" "p \<notin> frames s"
    "inv s'" "total s' = total s" "frames s' = insert p (frames s)"
    using getpg_free Suc.prems(1) by blast
  then have "card (frames s') + n \<le> total s'"
    using Suc.prems finite_frames by simp
  then obtain ps t where t: "get_pages getpg n s' = Some (map (\<lambda>p. of_nat (p * 4096)) ps, t)"
    "length ps = n" "distinct ps" "set ps \<inter> frames s' = {}" "set ps \<subseteq> {..<total s'}" "inv t"
    "total t = total s'" "frames t = frames s' \<union> set ps"
    using Suc.IH [OF g(4)] by blast
  with g show ?case by (intro exI [of _ "p # ps"] exI [of _ t]) auto
qed

end

end
