(* ===== verification/Bmpmm.thy ===== *)
theory Bmpmm
  imports Frames
begin

text \<open>
  The physical page allocator of \<^verbatim>\<open>module/bmpmm/main.c\<close>: one bit per 4 KiB frame in an array of
  32-bit words, three counters and a search hint. The state record has the module's static
  variables; \<open>bitmap\<close> is the memory behind the \<^verbatim>\<open>bitmap\<close> pointer, so an access past its end
  (memory the module does not own) is \<open>None\<close>. Log output is left out. The functions are
  installed in \<^verbatim>\<open>physical_allocator\<close> by \<^verbatim>\<open>_pmm_init\<close>; the frame-allocator interface the pager
  relies on is the locale \<open>frame_allocator\<close>, interpreted here on these functions.
\<close>

record pmm =
  bitmap :: "u32 list"
  mapsize :: u32
  pages_free :: u32
  pages_taken :: u32
  pages_total :: u32
  last_free :: u32

subsection \<open>The operations\<close>

definition bm_test :: "pmm \<Rightarrow> u32 \<Rightarrow> bool option" where
  "bm_test s i = do {
     w \<leftarrow> nth_opt (bitmap s) (unat i div 32);
     Some (w AND bitmask (unat i mod 32) \<noteq> 0) }"

definition bm_set :: "pmm \<Rightarrow> u32 \<Rightarrow> pmm option" where
  "bm_set s i = do {
     w \<leftarrow> nth_opt (bitmap s) (unat i div 32);
     b \<leftarrow> upd_opt (bitmap s) (unat i div 32) (w OR bitmask (unat i mod 32));
     Some (s\<lparr>bitmap := b\<rparr>) }"

definition bm_unset :: "pmm \<Rightarrow> u32 \<Rightarrow> pmm option" where
  "bm_unset s i = do {
     w \<leftarrow> nth_opt (bitmap s) (unat i div 32);
     b \<leftarrow> upd_opt (bitmap s) (unat i div 32) (w AND NOT (bitmask (unat i mod 32)));
     Some (s\<lparr>bitmap := b\<rparr>) }"

text \<open>The inner loop of \<^verbatim>\<open>bm_seek_free\<close>: the first clear bit of a word, from bit \<open>j\<close> on.\<close>

function seek_bit :: "u32 \<Rightarrow> nat \<Rightarrow> nat option" where
  "seek_bit w j =
     (if j < 32 then if w AND bitmask j = 0 then Some j else seek_bit w (Suc j) else None)"
  by pat_completeness auto
termination
  by (relation "measure (\<lambda>(w, j). 32 - j)") auto

text \<open>The outer loop: \<open>n\<close> is its bound \<^verbatim>\<open>mapsize / 32\<close>. The result -1 is \<open>0xFFFFFFFF\<close>.\<close>

function seek_words :: "u32 list \<Rightarrow> nat \<Rightarrow> nat \<Rightarrow> u32 option" where
  "seek_words bm n i =
     (if i < n then do {
        w \<leftarrow> nth_opt bm i;
        if w = 0xFFFFFFFF then seek_words bm n (Suc i)
        else (case seek_bit w 0 of
                Some j \<Rightarrow> Some (of_nat (i * 32 + j))
              | None \<Rightarrow> seek_words bm n (Suc i)) }
      else Some (- 1))"
  by pat_completeness auto
termination
  by (relation "measure (\<lambda>(bm, n, i). n - i)") auto

declare seek_bit.simps [simp del] seek_words.simps [simp del]

definition bm_seek_free :: "pmm \<Rightarrow> u32 option" where
  "bm_seek_free s = seek_words (bitmap s) (unat (mapsize s) div 32) 0"

definition bm_get_free :: "pmm \<Rightarrow> (u32 \<times> pmm) option" where
  "bm_get_free s = do {
     t \<leftarrow> bm_test s (last_free s);
     if \<not> t then
       (let s1 = s\<lparr>last_free := last_free s + 1\<rparr> in Some (last_free s1 - 1, s1))
     else do {
       f \<leftarrow> bm_seek_free s;
       let s1 = s\<lparr>last_free := f\<rparr>;
       let s2 = s1\<lparr>last_free := last_free s1 + 1\<rparr>;
       Some (last_free s2 - 1, s2) } }"

text \<open>
  The local variable \<^verbatim>\<open>free\<close> is a C \<^verbatim>\<open>int\<close>: a negative value other than -1 would index the
  bitmap below its start.
\<close>

definition bm_getpg :: "pmm \<Rightarrow> (addr \<times> pmm) option" where
  "bm_getpg s =
     (if pages_total s \<le> pages_taken s then Some (0, s)
      else do {
        (free, s1) \<leftarrow> bm_get_free s;
        if free = - 1 then Some (0, s1)
        else if sint free < 0 then None
        else do {
          s2 \<leftarrow> bm_set s1 free;
          Some (free * 4096,
            s2\<lparr>pages_free := pages_free s2 - 1, pages_taken := pages_taken s2 + 1\<rparr>) } })"

definition bm_resvpg :: "addr \<Rightarrow> pmm \<Rightarrow> pmm option" where
  "bm_resvpg ptr s = (let page = ptr div 4096 in do {
     t \<leftarrow> bm_test s page;
     let s1 = (if \<not> t then s\<lparr>pages_free := pages_free s - 1, pages_taken := pages_taken s + 1\<rparr> else s);
     bm_set s1 page })"

definition bm_freepg :: "addr \<Rightarrow> pmm \<Rightarrow> pmm option" where
  "bm_freepg ptr s = (let page = ptr div 4096 in do {
     s1 \<leftarrow> bm_unset s page;
     Some (s1\<lparr>pages_free := pages_free s1 + 1, pages_taken := pages_taken s1 - 1\<rparr>) })"

text \<open>The page index of \<^verbatim>\<open>bm_addblock\<close> and \<^verbatim>\<open>bm_rmblock\<close> is a 16-bit variable.\<close>

fun addblock_loop :: "nat \<Rightarrow> u16 \<Rightarrow> pmm \<Rightarrow> pmm option" where
  "addblock_loop 0 pindex s = Some s"
| "addblock_loop (Suc n) pindex s = do {
     t \<leftarrow> bm_test s (ucast pindex);
     let s1 = (if \<not> t then s\<lparr>pages_free := pages_free s - 1, pages_taken := pages_taken s + 1\<rparr> else s);
     s2 \<leftarrow> bm_set s1 (ucast pindex);
     addblock_loop n (pindex + 1) s2 }"

definition bm_addblock :: "addr \<Rightarrow> u16 \<Rightarrow> pmm \<Rightarrow> pmm option" where
  "bm_addblock start len s = addblock_loop (unat len) (ucast (start div 4096)) s"

fun rmblock_loop :: "nat \<Rightarrow> u16 \<Rightarrow> pmm \<Rightarrow> pmm option" where
  "rmblock_loop 0 pindex s = Some s"
| "rmblock_loop (Suc n) pindex s = do {
     t \<leftarrow> bm_test s (ucast pindex);
     let s1 = (if t then s\<lparr>pages_free := pages_free s + 1, pages_taken := pages_taken s - 1\<rparr> else s);
     s2 \<leftarrow> bm_unset s1 (ucast pindex);
     rmblock_loop n (pindex + 1) s2 }"

definition bm_rmblock :: "addr \<Rightarrow> u16 \<Rightarrow> pmm \<Rightarrow> pmm option" where
  "bm_rmblock start len s = rmblock_loop (unat len) (ucast (start div 4096)) s"

subsection \<open>Initialisation\<close>

text \<open>
  What \<^verbatim>\<open>_pmm_init\<close> reads from the kernel proper (a submodule that is not part of the
  repository) is a parameter: the multiboot memory sizes and map, the early bitmap with its
  end, \<^verbatim>\<open>krnl_next_free_pg\<close>, and the unknown contents \<open>fresh\<close> of the pages the new bitmap is
  placed in. The calls of \<^verbatim>\<open>virtual_allocator->allocpg\<close> are returned as the list of their
  addresses, in order.
\<close>

record mmap_entry =
  me_addr :: u64
  me_len :: u64
  me_type :: u32

record pmm_boot =
  mem_lower :: u32
  mem_upper :: u32
  mmap_entries :: "mmap_entry list"
  old_bitmap :: "u8 list"
  old_map_end :: u32
  next_free_pg :: addr
  fresh :: "nat \<Rightarrow> u8"

definition memset_range :: "u8 list \<Rightarrow> nat \<Rightarrow> u8 \<Rightarrow> nat \<Rightarrow> u8 list option" where
  "memset_range xs off v n =
     (if off + n \<le> length xs then Some (take off xs @ replicate n v @ drop (off + n) xs) else None)"

definition memcpy_front :: "u8 list \<Rightarrow> u8 list \<Rightarrow> nat \<Rightarrow> u8 list option" where
  "memcpy_front dst src n =
     (if n \<le> length dst \<and> n \<le> length src then Some (take n src @ drop n dst) else None)"

definition word_of_bytes :: "u8 \<Rightarrow> u8 \<Rightarrow> u8 \<Rightarrow> u8 \<Rightarrow> u32" where
  "word_of_bytes b0 b1 b2 b3 =
     ucast b0 OR push_bit 8 (ucast b1) OR push_bit 16 (ucast b2) OR push_bit 24 (ucast b3)"

fun words_of_bytes :: "u8 list \<Rightarrow> u32 list" where
  "words_of_bytes (b0 # b1 # b2 # b3 # bs) = word_of_bytes b0 b1 b2 b3 # words_of_bytes bs"
| "words_of_bytes bs = []"

fun pmm_map_regions :: "u32 \<Rightarrow> mmap_entry list \<Rightarrow> u8 list \<Rightarrow> u8 list option" where
  "pmm_map_regions map_size [] bm = Some bm"
| "pmm_map_regions map_size (e # es) bm =
     (if me_type e \<noteq> 1 then pmm_map_regions map_size es bm
      else let entry_map_index = (ucast (me_addr e div 4096 div 8) :: u32);
               entry_map_len = (ucast (me_len e div 4096 div 8) :: u32);
               bytes = map_size div 4096 div 8 in
        if bytes < entry_map_index then pmm_map_regions map_size es bm
        else let len = (if bytes < entry_map_index + entry_map_len
                        then bytes - entry_map_index else entry_map_len) in do {
          bm1 \<leftarrow> memset_range bm (unat entry_map_index) 0 (unat len);
          pmm_map_regions map_size es bm1 })"

fun pmm_count :: "nat \<Rightarrow> u32 \<Rightarrow> pmm \<Rightarrow> pmm option" where
  "pmm_count 0 i s = Some s"
| "pmm_count (Suc n) i s = do {
     t \<leftarrow> bm_test s i;
     pmm_count n (i + 1)
       (if t then s\<lparr>pages_taken := pages_taken s + 1\<rparr> else s\<lparr>pages_free := pages_free s + 1\<rparr>) }"

definition pmm_init :: "pmm_boot \<Rightarrow> (pmm \<times> addr list \<times> addr) option" where
  "pmm_init b =
     (let map_size = (mem_lower b + mem_upper b) * 1024;
          map_pages = map_size div 4096 div 4096 div 8;
          npages = unat map_pages + 1;
          allocs = map (\<lambda>i. next_free_pg b + of_nat i * 4096) [0..<npages];
          next_free = next_free_pg b + of_nat npages * 4096 + 4096;
          bm0 = map (fresh b) [0..<4096 * npages] in do {
        bm1 \<leftarrow> pmm_map_regions map_size (mmap_entries b) bm0;
        let total = map_size div 4096;
        bm2 \<leftarrow> memcpy_front bm1 (old_bitmap b) (unat (old_map_end b div 4096 div 4));
        s \<leftarrow> pmm_count (unat total) 0
               \<lparr>bitmap = words_of_bytes bm2, mapsize = map_size, pages_free = 0,
                pages_taken = 0, pages_total = total, last_free = 0\<rparr>;
        Some (s, allocs, next_free) })"

subsection \<open>Abstraction: the set of taken frames\<close>

definition bm_bit :: "pmm \<Rightarrow> nat \<Rightarrow> bool" where
  "bm_bit s i \<longleftrightarrow> bit (bitmap s ! (i div 32)) (i mod 32)"

definition taken :: "pmm \<Rightarrow> nat set" where
  "taken s = {i. i < unat (pages_total s) \<and> bm_bit s i}"

text \<open>
  The invariant: the bitmap covers every frame with at least one bit to spare (as the
  allocation of \<open>map_pages + 1\<close> pages in \<^verbatim>\<open>_pmm_init\<close> makes sure), and the counters count.
\<close>

definition pmm_inv :: "pmm \<Rightarrow> bool" where
  "pmm_inv s \<longleftrightarrow>
     unat (pages_total s) = unat (mapsize s) div 4096 \<and>
     unat (pages_total s) < 32 * length (bitmap s) \<and>
     unat (pages_taken s) = card (taken s) \<and>
     unat (pages_free s) + unat (pages_taken s) = unat (pages_total s)"

text \<open>
  What the search hint relies on: it never points past the last frame, and the spare bits
  behind the last frame are set.
\<close>

definition hint_ok :: "pmm \<Rightarrow> bool" where
  "hint_ok s \<longleftrightarrow>
     unat (last_free s) \<le> unat (pages_total s) \<and>
     (\<forall>i. unat (pages_total s) \<le> i \<and> i < 32 * length (bitmap s) \<longrightarrow> bm_bit s i)"

lemma pmm_invD:
  assumes "pmm_inv s"
  shows "unat (pages_total s) = unat (mapsize s) div 4096"
    and "unat (pages_total s) < 32 * length (bitmap s)"
    and "unat (pages_taken s) = card (taken s)"
    and "unat (pages_free s) + unat (pages_taken s) = unat (pages_total s)"
  using assms by (simp_all add: pmm_inv_def)

lemma taken_finite [simp]: "finite (taken s)"
  by (simp add: taken_def)

lemma taken_subset: "taken s \<subseteq> {..<unat (pages_total s)}"
  by (auto simp: taken_def)

lemma card_taken_le: "card (taken s) \<le> unat (pages_total s)"
  using card_mono [OF _ taken_subset] by simp

lemma total_bound: "pmm_inv s \<Longrightarrow> unat (pages_total s) < 2 ^ 20"
  using u32_bound [of "mapsize s"] by (simp add: pmm_invD(1))

lemma bm_test_eq:
  "unat i < 32 * length (bitmap s) \<Longrightarrow> bm_test s i = Some (bm_bit s (unat i))"
  by (simp add: bm_test_def bm_bit_def mask_simps less_mult_imp_div_less mult.commute)

lemma bm_set_eq:
  assumes "unat i < 32 * length (bitmap s)"
  obtains b where "bm_set s i = Some (s\<lparr>bitmap := b\<rparr>)" and "length b = length (bitmap s)"
    and "\<And>k. bm_bit (s\<lparr>bitmap := b\<rparr>) k \<longleftrightarrow> bm_bit s k \<or> k = unat i"
proof -
  have d: "unat i div 32 < length (bitmap s)" using assms by (simp add: less_mult_imp_div_less)
  let ?b = "(bitmap s)[unat i div 32 := bitmap s ! (unat i div 32) OR bitmask (unat i mod 32)]"
  have "bm_bit (s\<lparr>bitmap := ?b\<rparr>) k \<longleftrightarrow> bm_bit s k \<or> k = unat i" for k
  proof (cases "k div 32 = unat i div 32")
    case True
    then have "k = unat i \<longleftrightarrow> k mod 32 = unat i mod 32" by (metis div_mult_mod_eq)
    with True d show ?thesis by (auto simp: bm_bit_def mask_simps)
  next
    case False
    then show ?thesis by (auto simp: bm_bit_def)
  qed
  with d show ?thesis by (intro that [of ?b]) (simp_all add: bm_set_def)
qed

lemma bm_unset_eq:
  assumes "unat i < 32 * length (bitmap s)"
  obtains b where "bm_unset s i = Some (s\<lparr>bitmap := b\<rparr>)" and "length b = length (bitmap s)"
    and "\<And>k. bm_bit (s\<lparr>bitmap := b\<rparr>) k \<longleftrightarrow> bm_bit s k \<and> k \<noteq> unat i"
proof -
  have d: "unat i div 32 < length (bitmap s)" using assms by (simp add: less_mult_imp_div_less)
  let ?b = "(bitmap s)[unat i div 32 := bitmap s ! (unat i div 32) AND NOT (bitmask (unat i mod 32))]"
  have "bm_bit (s\<lparr>bitmap := ?b\<rparr>) k \<longleftrightarrow> bm_bit s k \<and> k \<noteq> unat i" for k
  proof (cases "k div 32 = unat i div 32")
    case True
    then have "k = unat i \<longleftrightarrow> k mod 32 = unat i mod 32" by (metis div_mult_mod_eq)
    with True d show ?thesis by (auto simp: bm_bit_def mask_simps)
  next
    case False
    then show ?thesis by (auto simp: bm_bit_def)
  qed
  with d show ?thesis by (intro that [of ?b]) (simp_all add: bm_unset_def)
qed

subsection \<open>The search\<close>

lemma seek_bit_first:
  assumes "k < 32" and "\<not> bit w k" and "j \<le> k" and "\<And>m. j \<le> m \<Longrightarrow> m < k \<Longrightarrow> bit w m"
  shows "seek_bit w j = Some k"
  using assms
proof (induction w j rule: seek_bit.induct)
  case (1 w j)
  then show ?case
    by (cases "j = k") (auto simp: seek_bit.simps [of w j] seek_bit.simps [of w k] mask_simps)
qed

lemma seek_words_first:
  assumes "q div 32 < n" and "q div 32 < length bm" and "\<not> bit (bm ! (q div 32)) (q mod 32)"
    and "i \<le> q div 32" and "\<And>m. 32 * i \<le> m \<Longrightarrow> m < q \<Longrightarrow> bit (bm ! (m div 32)) (m mod 32)"
  shows "seek_words bm n i = Some (of_nat q)"
  using assms
proof (induction bm n i rule: seek_words.induct)
  case (1 bm n i)
  have i: "i < n" "i < length bm" using 1 by auto
  show ?case
  proof (cases "i = q div 32")
    case True
    have nf: "bm ! i \<noteq> 0xFFFFFFFF" using 1(5) True by (metis word_full_iff mod_less_divisor zero_less_numeral)
    have "seek_bit (bm ! i) 0 = Some (q mod 32)"
    proof (rule seek_bit_first)
      fix m assume "m < q mod 32"
      moreover have "i * 32 + q mod 32 = q" using True by simp
      ultimately have "bit (bm ! ((32 * i + m) div 32)) ((32 * i + m) mod 32)"
        by (intro 1(7)) auto
      moreover have "m < 32" using \<open>m < q mod 32\<close> by (rule less_trans) simp
      ultimately show "bit (bm ! i) m" by simp
    qed (use 1(5) True in auto)
    moreover have "i * 32 + q mod 32 = q" using True by simp
    ultimately show ?thesis using i nf
      by (simp add: seek_words.simps [of bm n i] del: of_nat_add of_nat_mult)
  next
    case False
    with 1(6) have lt: "Suc i \<le> q div 32" by simp
    have "bit (bm ! i) m" if "m < 32" for m
    proof -
      have "32 * i + m < q" using lt that by linarith
      then have "bit (bm ! ((32 * i + m) div 32)) ((32 * i + m) mod 32)" by (intro 1(7)) auto
      with that show ?thesis by simp
    qed
    then have "bm ! i = 0xFFFFFFFF" by (simp add: word_full_iff)
    moreover have "seek_words bm n (Suc i) = Some (of_nat q)"
      using 1(1) [OF i(1), of "bm ! i"] 1(3-7) lt \<open>bm ! i = 0xFFFFFFFF\<close> by simp
    ultimately show ?thesis using i by (simp add: seek_words.simps [of bm n i])
  qed
qed

lemma get_free_ok:
  assumes "pmm_inv s" and "hint_ok s" and "card (taken s) < unat (pages_total s)"
  obtains p where "p < unat (pages_total s)" and "\<not> bm_bit s p"
    and "bm_get_free s = Some (of_nat p, s\<lparr>last_free := of_nat p + 1\<rparr>)"
proof -
  let ?h = "unat (last_free s)"
  have lt: "?h < 32 * length (bitmap s)" using assms by (auto simp: pmm_inv_def hint_ok_def)
  show thesis
  proof (cases "bm_bit s ?h")
    case False
    then have "?h \<noteq> unat (pages_total s)" using assms(2) lt by (auto simp: hint_ok_def)
    with assms(2) False lt show thesis
      by (intro that [of ?h]) (auto simp: hint_ok_def bm_get_free_def bm_test_eq)
  next
    case True
    have "\<exists>q. q < unat (pages_total s) \<and> \<not> bm_bit s q"
    proof (rule ccontr)
      assume "\<not> ?thesis"
      then have "taken s = {..<unat (pages_total s)}" by (auto simp: taken_def)
      with assms(3) show False by simp
    qed
    then obtain r where r: "r < unat (pages_total s)" "\<not> bm_bit s r" by blast
    define q where "q = (LEAST q. \<not> bm_bit s q)"
    have "\<not> bm_bit s q" unfolding q_def using r(2) by (rule LeastI)
    moreover have "q \<le> r" unfolding q_def using r(2) by (rule Least_le)
    ultimately have q: "q < unat (pages_total s)" "\<not> bm_bit s q" using r(1) by simp_all
    have least: "bm_bit s m" if "m < q" for m using that not_less_Least q_def by blast
    have "q div 32 < unat (mapsize s) div 32"
      using q(1) pmm_invD(1) [OF assms(1)] by linarith
    moreover have "q div 32 < length (bitmap s)"
      using q(1) pmm_invD(2) [OF assms(1)] by linarith
    ultimately have "bm_seek_free s = Some (of_nat q)"
      unfolding bm_seek_free_def using q(2) least
      by (intro seek_words_first) (auto simp: bm_bit_def)
    with True lt q show thesis by (intro that [of q]) (auto simp: bm_get_free_def bm_test_eq)
  qed
qed

subsection \<open>Effects on the set of taken frames\<close>

lemma taken_insert:
  assumes "\<And>k. bm_bit s' k \<longleftrightarrow> bm_bit s k \<or> k = i" and "pages_total s' = pages_total s"
    and "i < unat (pages_total s)"
  shows "taken s' = insert i (taken s)"
  using assms by (auto simp: taken_def)

lemma taken_remove:
  assumes "\<And>k. bm_bit s' k \<longleftrightarrow> bm_bit s k \<and> k \<noteq> i" and "pages_total s' = pages_total s"
  shows "taken s' = taken s - {i}"
  using assms by (auto simp: taken_def)

lemma bm_bit_frame [simp]:
  "bm_bit (s\<lparr>pages_free := f\<rparr>) i = bm_bit s i" "bm_bit (s\<lparr>pages_taken := t\<rparr>) i = bm_bit s i"
  "bm_bit (s\<lparr>last_free := h\<rparr>) i = bm_bit s i"
  by (simp_all add: bm_bit_def)

lemma taken_frame [simp]:
  "taken (s\<lparr>pages_free := f\<rparr>) = taken s" "taken (s\<lparr>pages_taken := t\<rparr>) = taken s"
  "taken (s\<lparr>last_free := h\<rparr>) = taken s"
  by (simp_all add: taken_def)

lemma card_insert_taken:
  "i < unat (pages_total s) \<Longrightarrow> i \<notin> taken s \<Longrightarrow> card (taken s) < unat (pages_total s)"
  by (metis (no_types, lifting) card_seteq finite_lessThan card_lessThan lessThan_iff linorder_not_less taken_subset)

lemma inv_mark_taken:
  assumes "pmm_inv s" and "i < unat (pages_total s)" and "i \<notin> taken s"
    and "taken s' = insert i (taken s)" and "length (bitmap s') = length (bitmap s)"
    and "mapsize s' = mapsize s" and "pages_total s' = pages_total s"
    and "pages_free s' = pages_free s - 1" and "pages_taken s' = pages_taken s + 1"
  shows "pmm_inv s'"
proof -
  have "card (taken s) < unat (pages_total s)" using assms(2,3) by (rule card_insert_taken)
  moreover have "unat (pages_total s) < 2 ^ 20" using assms(1) by (rule total_bound)
  moreover note pmm_invD [OF assms(1)]
  ultimately have "unat (pages_taken s') = Suc (card (taken s))"
    and "unat (pages_free s') = unat (pages_free s) - 1" and "0 < unat (pages_free s)"
    using assms(8,9) by (simp_all add: u32_inc u32_dec)
  moreover have "card (taken s') = Suc (card (taken s))" using assms(3,4) by simp
  ultimately show ?thesis
    unfolding pmm_inv_def assms(5-7) using pmm_invD [OF assms(1)] by linarith
qed

lemma inv_mark_free:
  assumes "pmm_inv s" and "i \<in> taken s" and "taken s' = taken s - {i}"
    and "length (bitmap s') = length (bitmap s)"
    and "mapsize s' = mapsize s" and "pages_total s' = pages_total s"
    and "pages_free s' = pages_free s + 1" and "pages_taken s' = pages_taken s - 1"
  shows "pmm_inv s'"
proof -
  have pos: "0 < card (taken s)" using assms(2) by (auto simp: card_gt_0_iff)
  moreover have "unat (pages_total s) < 2 ^ 20" using assms(1) by (rule total_bound)
  moreover note pmm_invD [OF assms(1)]
  ultimately have "unat (pages_taken s') = card (taken s) - 1"
    and "unat (pages_free s') = Suc (unat (pages_free s))"
    using assms(7,8) by (simp_all add: u32_inc u32_dec)
  moreover have "card (taken s') = card (taken s) - 1" using assms(2,3) by simp
  ultimately show ?thesis
    unfolding pmm_inv_def assms(4-6) using pos pmm_invD [OF assms(1)] by linarith
qed

text \<open>\<open>bm_getpg\<close> hands out a frame that was free, and only takes that frame.\<close>

lemma getpg_takes_free_frame:
  assumes "pmm_inv s" and "hint_ok s" and "card (taken s) < unat (pages_total s)"
  obtains p s' where "bm_getpg s = Some (of_nat (p * 4096), s')"
    and "p < unat (pages_total s)" and "p \<notin> taken s" and "taken s' = insert p (taken s)"
    and "pages_total s' = pages_total s" and "pmm_inv s'" and "hint_ok s'"
proof -
  obtain p where p: "p < unat (pages_total s)" "\<not> bm_bit s p"
    and g: "bm_get_free s = Some (of_nat p, s\<lparr>last_free := of_nat p + 1\<rparr>)"
    using assms by (rule get_free_ok)
  have tb: "unat (pages_total s) < 2 ^ 20" using assms(1) by (rule total_bound)
  with p(1) have up: "unat (of_nat p :: u32) = p" by (simp add: u32_of_nat)
  let ?s1 = "s\<lparr>last_free := of_nat p + 1\<rparr>"
  have "unat (of_nat p :: u32) < 32 * length (bitmap ?s1)"
    using up p(1) pmm_invD(2) [OF assms(1)] by simp
  then obtain b where b: "bm_set ?s1 (of_nat p) = Some (?s1\<lparr>bitmap := b\<rparr>)"
    "length b = length (bitmap s)" "\<And>k. bm_bit (?s1\<lparr>bitmap := b\<rparr>) k \<longleftrightarrow> bm_bit s k \<or> k = p"
    using bm_set_eq [of "of_nat p" ?s1 thesis] up by simp
  let ?s' = "?s1\<lparr>bitmap := b, pages_free := pages_free s - 1, pages_taken := pages_taken s + 1\<rparr>"
  have bits: "bm_bit ?s' k \<longleftrightarrow> bm_bit s k \<or> k = p" for k using b(3) by simp
  have t: "taken ?s' = insert p (taken s)"
    by (rule taken_insert [OF bits _ p(1)]) simp
  have notin: "p \<notin> taken s" using p(2) by (simp add: taken_def)
  have inv: "pmm_inv ?s'"
    by (rule inv_mark_taken [OF assms(1) p(1) notin t]) (simp_all add: b(2))
  have "unat (of_nat p + 1 :: u32) = Suc p" using up p(1) tb by (simp add: u32_inc)
  then have hint: "hint_ok ?s'"
    using assms(2) p(1) b(2) bits by (auto simp: hint_ok_def)
  have "0 \<le> sint (of_nat p :: u32)" using p(1) tb by (intro u32_sint_nonneg) simp
  moreover from this have "(of_nat p :: u32) \<noteq> - 1" by auto
  moreover have "\<not> pages_total s \<le> pages_taken s"
    using assms(3) pmm_invD(3) [OF assms(1)] by (simp add: word_le_nat_alt)
  ultimately have "bm_getpg s = Some (of_nat (p * 4096), ?s')"
    using g b(1) by (simp add: bm_getpg_def)
  from that [OF this p(1) notin t _ inv hint] show thesis by simp
qed

subsection \<open>Reserving and releasing frames\<close>

definition pmm_ok :: "pmm \<Rightarrow> bool" where
  "pmm_ok s \<longleftrightarrow> pmm_inv s \<and> hint_ok s"

text \<open>Both states have the same frames and the same bitmap size.\<close>

definition same_shape :: "pmm \<Rightarrow> pmm \<Rightarrow> bool" where
  "same_shape s s' \<longleftrightarrow> pages_total s' = pages_total s \<and> length (bitmap s') = length (bitmap s)"

lemma same_shape_refl [simp]: "same_shape s s"
  by (simp add: same_shape_def)

lemma same_shape_trans: "same_shape s t \<Longrightarrow> same_shape t u \<Longrightarrow> same_shape s u"
  by (simp add: same_shape_def)

lemma pmm_ok_spare: "pmm_ok s \<Longrightarrow> unat (pages_total s) \<le> i \<Longrightarrow> i < 32 * length (bitmap s) \<Longrightarrow> bm_bit s i"
  by (simp add: pmm_ok_def hint_ok_def)

lemma mark_page:
  assumes ok: "pmm_ok s" and i: "unat i < 32 * length (bitmap s)"
  defines "s1 \<equiv> (if \<not> bm_bit s (unat i)
     then s\<lparr>pages_free := pages_free s - 1, pages_taken := pages_taken s + 1\<rparr> else s)"
  obtains s2 where "bm_set s1 i = Some s2" and "pmm_ok s2" and "same_shape s s2"
    and "taken s2 = taken s \<union> ({unat i} \<inter> {..<unat (pages_total s)})"
proof -
  have "unat i < 32 * length (bitmap s1)" using i by (simp add: s1_def)
  then obtain b where b: "bm_set s1 i = Some (s1\<lparr>bitmap := b\<rparr>)" "length b = length (bitmap s)"
    "\<And>k. bm_bit (s1\<lparr>bitmap := b\<rparr>) k \<longleftrightarrow> bm_bit s k \<or> k = unat i"
    using bm_set_eq [of i s1 thesis] by (simp add: s1_def split: if_splits)
  let ?s2 = "s1\<lparr>bitmap := b\<rparr>"
  have tot: "pages_total ?s2 = pages_total s" "last_free ?s2 = last_free s" by (simp_all add: s1_def)
  have t: "taken ?s2 = taken s \<union> ({unat i} \<inter> {..<unat (pages_total s)})"
    using b(3) tot by (auto simp: taken_def)
  have "pmm_inv ?s2"
  proof (cases "bm_bit s (unat i)")
    case True
    then have "taken ?s2 = taken s" using t by (auto simp: taken_def)
    with True ok b(2) show ?thesis by (simp add: pmm_ok_def pmm_inv_def s1_def)
  next
    case False
    then have lt: "unat i < unat (pages_total s)"
      using pmm_ok_spare [OF ok] i not_le by blast
    have ti: "taken ?s2 = insert (unat i) (taken s)" using t lt by auto
    have ni: "unat i \<notin> taken s" using False by (simp add: taken_def)
    have "pmm_inv s" using ok by (simp add: pmm_ok_def)
    from inv_mark_taken [OF this lt ni ti] False show ?thesis by (simp add: s1_def b(2))
  qed
  moreover have "hint_ok ?s2"
    using ok b(2,3) tot by (auto simp: pmm_ok_def hint_ok_def)
  ultimately have "pmm_ok ?s2" unfolding pmm_ok_def by blast
  moreover have "same_shape s ?s2" using tot(1) b(2) by (simp add: same_shape_def)
  ultimately show thesis by (rule that [OF b(1) _ _ t])
qed

lemma clear_page:
  assumes ok: "pmm_ok s" and i: "unat i < unat (pages_total s)"
  defines "s1 \<equiv> (if bm_bit s (unat i)
     then s\<lparr>pages_free := pages_free s + 1, pages_taken := pages_taken s - 1\<rparr> else s)"
  obtains s2 where "bm_unset s1 i = Some s2" and "pmm_ok s2" and "same_shape s s2"
    and "taken s2 = taken s - {unat i}"
proof -
  have il: "unat i < 32 * length (bitmap s)" using i ok pmm_invD(2) [of s] by (simp add: pmm_ok_def)
  then have "unat i < 32 * length (bitmap s1)" by (simp add: s1_def)
  then obtain b where b: "bm_unset s1 i = Some (s1\<lparr>bitmap := b\<rparr>)" "length b = length (bitmap s)"
    "\<And>k. bm_bit (s1\<lparr>bitmap := b\<rparr>) k \<longleftrightarrow> bm_bit s k \<and> k \<noteq> unat i"
    using bm_unset_eq [of i s1 thesis] by (simp add: s1_def split: if_splits)
  let ?s2 = "s1\<lparr>bitmap := b\<rparr>"
  have tot: "pages_total ?s2 = pages_total s" "last_free ?s2 = last_free s" by (simp_all add: s1_def)
  have t: "taken ?s2 = taken s - {unat i}" using b(3) tot(1) by (rule taken_remove)
  have "pmm_inv ?s2"
  proof (cases "bm_bit s (unat i)")
    case False
    then have "taken ?s2 = taken s" using t by (auto simp: taken_def)
    with False ok b(2) show ?thesis by (simp add: pmm_ok_def pmm_inv_def s1_def)
  next
    case True
    with i have ti: "unat i \<in> taken s" by (simp add: taken_def)
    have "pmm_inv s" using ok by (simp add: pmm_ok_def)
    from inv_mark_free [OF this ti t] True show ?thesis by (simp add: s1_def b(2))
  qed
  moreover have "hint_ok ?s2"
    using ok b(2,3) tot i by (auto simp: pmm_ok_def hint_ok_def)
  ultimately have "pmm_ok ?s2" unfolding pmm_ok_def by blast
  moreover have "same_shape s ?s2" using tot(1) b(2) by (simp add: same_shape_def)
  ultimately show thesis by (rule that [OF b(1) _ _ t])
qed

lemma addblock_loop_ok:
  assumes "pmm_ok s" and "p + n \<le> 65536" and "p + n \<le> 32 * length (bitmap s)"
  shows "\<exists>s'. addblock_loop n (of_nat p) s = Some s' \<and> pmm_ok s' \<and> same_shape s s' \<and>
    taken s' = taken s \<union> ({p..<p + n} \<inter> {..<unat (pages_total s)})"
  using assms
proof (induction n arbitrary: p s)
  case 0
  then show ?case by simp
next
  case (Suc n)
  have u: "unat (ucast (of_nat p :: u16) :: u32) = p"
    using Suc.prems(2) by (simp add: unsigned_ucast_eq unsigned_of_nat take_bit_eq_mod)
  then have lt: "unat (ucast (of_nat p :: u16) :: u32) < 32 * length (bitmap s)"
    using Suc.prems(3) by simp
  obtain s2 where s2: "pmm_ok s2" "same_shape s s2"
    "taken s2 = taken s \<union> ({p} \<inter> {..<unat (pages_total s)})"
    "bm_set (if \<not> bm_bit s (unat (ucast (of_nat p :: u16) :: u32))
       then s\<lparr>pages_free := pages_free s - 1, pages_taken := pages_taken s + 1\<rparr> else s)
       (ucast (of_nat p :: u16)) = Some s2"
    using mark_page [OF Suc.prems(1) lt, of thesis] u by simp
  obtain s' where s': "addblock_loop n (of_nat (Suc p)) s2 = Some s'" "pmm_ok s'" "same_shape s2 s'"
    "taken s' = taken s2 \<union> ({Suc p..<Suc p + n} \<inter> {..<unat (pages_total s2)})"
    using Suc.IH [of s2 "Suc p"] Suc.prems s2 by (auto simp: same_shape_def)
  have "addblock_loop (Suc n) (of_nat p) s = Some s'"
    using s2(4) s'(1) lt by (simp add: bm_test_eq add.commute)
  moreover have "taken s' = taken s \<union> ({p..<p + Suc n} \<inter> {..<unat (pages_total s)})"
  proof -
    have "{p..<p + Suc n} = insert p {Suc p..<Suc p + n}" by auto
    moreover have "pages_total s2 = pages_total s" using s2(2) by (simp add: same_shape_def)
    ultimately show ?thesis unfolding s'(4) s2(3) by auto
  qed
  ultimately show ?case using s'(2) same_shape_trans [OF s2(2) s'(3)] by blast
qed

lemma rmblock_loop_ok:
  assumes "pmm_ok s" and "p + n \<le> 65536" and "p + n \<le> unat (pages_total s)"
  shows "\<exists>s'. rmblock_loop n (of_nat p) s = Some s' \<and> pmm_ok s' \<and> same_shape s s' \<and>
    taken s' = taken s - {p..<p + n}"
  using assms
proof (induction n arbitrary: p s)
  case 0
  then show ?case by simp
next
  case (Suc n)
  have u: "unat (ucast (of_nat p :: u16) :: u32) = p"
    using Suc.prems(2) by (simp add: unsigned_ucast_eq unsigned_of_nat take_bit_eq_mod)
  then have lt: "unat (ucast (of_nat p :: u16) :: u32) < unat (pages_total s)"
    using Suc.prems(3) by simp
  obtain s2 where s2: "pmm_ok s2" "same_shape s s2" "taken s2 = taken s - {p}"
    "bm_unset (if bm_bit s (unat (ucast (of_nat p :: u16) :: u32))
       then s\<lparr>pages_free := pages_free s + 1, pages_taken := pages_taken s - 1\<rparr> else s)
       (ucast (of_nat p :: u16)) = Some s2"
    using clear_page [OF Suc.prems(1) lt, of thesis] u by simp
  obtain s' where s': "rmblock_loop n (of_nat (Suc p)) s2 = Some s'" "pmm_ok s'" "same_shape s2 s'"
    "taken s' = taken s2 - {Suc p..<Suc p + n}"
    using Suc.IH [of s2 "Suc p"] Suc.prems s2 by (auto simp: same_shape_def)
  have "unat (ucast (of_nat p :: u16) :: u32) < 32 * length (bitmap s)"
    using lt Suc.prems(1) pmm_invD(2) [of s] by (simp add: pmm_ok_def)
  then have "rmblock_loop (Suc n) (of_nat p) s = Some s'"
    using s2(4) s'(1) by (simp add: bm_test_eq add.commute)
  moreover have "taken s' = taken s - {p..<p + Suc n}"
  proof -
    have "{p..<p + Suc n} = insert p {Suc p..<Suc p + n}" by auto
    then show ?thesis unfolding s'(4) s2(3) by blast
  qed
  ultimately show ?case using s'(2) same_shape_trans [OF s2(2) s'(3)] by blast
qed

subsection \<open>Initialisation establishes the invariant\<close>

lemma length_memset_range [opt_simps]: "memset_range xs off v n = Some ys \<Longrightarrow> length ys = length xs"
  by (auto simp: memset_range_def split: if_splits)

lemma length_memcpy_front [opt_simps]: "memcpy_front dst src n = Some ys \<Longrightarrow> length ys = length dst"
  by (auto simp: memcpy_front_def split: if_splits)

lemma length_words_of_bytes [simp]: "length (words_of_bytes bs) = length bs div 4"
  by (induction bs rule: words_of_bytes.induct) auto

text \<open>A region of the memory map whose index arithmetic stays within 32 bits.\<close>

definition entry_sane :: "mmap_entry \<Rightarrow> bool" where
  "entry_sane e \<longleftrightarrow>
     unat (ucast (me_addr e div 4096 div 8) :: u32) + unat (ucast (me_len e div 4096 div 8) :: u32) < 2 ^ 32"

lemma region_within:
  assumes "unat x + unat l < 2 ^ 32" and "\<not> b < (x :: u32)"
  shows "unat x + unat (if b < x + l then b - x else l) \<le> unat b"
proof (cases "b < x + l")
  case True
  then show ?thesis using assms(2) by (simp add: unat_sub word_le_nat_alt not_less)
next
  case False
  have "unat (x + l) = unat x + unat l" using assms(1) by (simp add: unat_word_ariths)
  with False show ?thesis by (simp add: word_less_nat_alt)
qed

lemma map_regions_total:
  assumes "\<And>e. e \<in> set es \<Longrightarrow> entry_sane e" and "unat (m div 4096 div 8) \<le> length bm"
  shows "\<exists>bm'. pmm_map_regions m es bm = Some bm' \<and> length bm' = length bm"
  using assms
proof (induction es arbitrary: bm)
  case Nil
  then show ?case by simp
next
  case (Cons e es)
  define x where "x = (ucast (me_addr e div 4096 div 8) :: u32)"
  define l where "l = (ucast (me_len e div 4096 div 8) :: u32)"
  define b where "b = m div 4096 div 8"
  note defs = x_def [symmetric] l_def [symmetric] b_def [symmetric]
  have sane: "unat x + unat l < 4294967296"
    using Cons.prems(1) [of e] by (simp add: entry_sane_def defs)
  have IH: "\<exists>bm'. pmm_map_regions m es bm1 = Some bm' \<and> length bm' = length bm"
    if "length bm1 = length bm" for bm1
    using Cons.IH [of bm1] Cons.prems that by simp
  show ?case
  proof (cases "me_type e \<noteq> 1 \<or> b < x")
    case True
    then show ?thesis using IH [of bm] by (auto simp: defs Let_def)
  next
    case False
    define n where "n = (if b < x + l then b - x else l)"
    have "unat x + unat n \<le> unat b" using region_within [of x l b] sane False by (simp add: n_def)
    then have "\<exists>bm1. memset_range bm (unat x) 0 (unat n) = Some bm1 \<and> length bm1 = length bm"
      using Cons.prems(2) by (simp add: memset_range_def defs)
    then show ?thesis using False IH by (auto simp: defs Let_def n_def)
  qed
qed

lemma pmm_count_ok:
  assumes "i + n \<le> unat (pages_total s)" and "unat (pages_total s) < 32 * length (bitmap s)"
    and "unat (pages_taken s) = card {k. k < i \<and> bm_bit s k}"
    and "unat (pages_free s) + unat (pages_taken s) = i" and "unat (pages_total s) < 2 ^ 32 - 1"
  shows "\<exists>s'. pmm_count n (of_nat i) s = Some s' \<and> bitmap s' = bitmap s \<and>
    mapsize s' = mapsize s \<and> pages_total s' = pages_total s \<and> last_free s' = last_free s \<and>
    unat (pages_taken s') = card {k. k < i + n \<and> bm_bit s k} \<and>
    unat (pages_free s') + unat (pages_taken s') = i + n"
  using assms
proof (induction n arbitrary: i s)
  case 0
  then show ?case by simp
next
  case (Suc n)
  have ui: "unat (of_nat i :: u32) = i" using Suc.prems by (intro u32_of_nat) simp
  then have t: "bm_test s (of_nat i) = Some (bm_bit s i)" using Suc.prems by (simp add: bm_test_eq)
  let ?s1 = "if bm_bit s i then s\<lparr>pages_taken := pages_taken s + 1\<rparr>
             else s\<lparr>pages_free := pages_free s + 1\<rparr>"
  have set: "{k. k < Suc i \<and> bm_bit s k} =
      (if bm_bit s i then insert i {k. k < i \<and> bm_bit s k} else {k. k < i \<and> bm_bit s k})"
    by (auto simp: less_Suc_eq)
  have fr: "bm_bit ?s1 = bm_bit s" "bitmap ?s1 = bitmap s" "mapsize ?s1 = mapsize s"
    "pages_total ?s1 = pages_total s" "last_free ?s1 = last_free s"
    by (auto simp: fun_eq_iff)
  have "\<exists>s'. pmm_count n (of_nat (Suc i)) ?s1 = Some s' \<and> bitmap s' = bitmap ?s1 \<and>
    mapsize s' = mapsize ?s1 \<and> pages_total s' = pages_total ?s1 \<and> last_free s' = last_free ?s1 \<and>
    unat (pages_taken s') = card {k. k < Suc i + n \<and> bm_bit ?s1 k} \<and>
    unat (pages_free s') + unat (pages_taken s') = Suc i + n"
  proof (rule Suc.IH)
    show "unat (pages_taken ?s1) = card {k. k < Suc i \<and> bm_bit ?s1 k}"
      unfolding fr(1) set using Suc.prems by (simp add: u32_inc)
    show "unat (pages_free ?s1) + unat (pages_taken ?s1) = Suc i"
      using Suc.prems by (simp add: u32_inc)
  qed (use Suc.prems fr in simp_all)
  then show ?case unfolding fr using t by (simp add: add.commute)
qed

text \<open>The memory size in bytes, and the bytes of the bitmap that \<^verbatim>\<open>_pmm_init\<close> allocates.\<close>

definition boot_size :: "pmm_boot \<Rightarrow> u32" where
  "boot_size b = (mem_lower b + mem_upper b) * 1024"

definition boot_bytes :: "pmm_boot \<Rightarrow> nat" where
  "boot_bytes b = 4096 * (unat (boot_size b div 4096 div 4096 div 8) + 1)"

definition boot_sane :: "pmm_boot \<Rightarrow> bool" where
  "boot_sane b \<longleftrightarrow>
     (\<forall>e \<in> set (mmap_entries b). entry_sane e) \<and>
     unat (old_map_end b div 4096 div 4) \<le> length (old_bitmap b) \<and>
     unat (old_map_end b div 4096 div 4) \<le> boot_bytes b"

lemma boot_bytes_cover: "unat (boot_size b div 4096) < 8 * boot_bytes b"
proof -
  have "n div 4096 < 32768 * (n div 4096 div 4096 div 8 + 1)" for n :: nat
    by (simp flip: div_mult2_eq)
  from this [of "unat (boot_size b)"] show ?thesis by (simp add: boot_bytes_def unat_div)
qed

lemma pmm_init_steps:
  assumes "boot_sane b"
  obtains bm1 bm2 s where
    "pmm_map_regions (boot_size b) (mmap_entries b) (map (fresh b) [0..<boot_bytes b]) = Some bm1"
    and "memcpy_front bm1 (old_bitmap b) (unat (old_map_end b div 4096 div 4)) = Some bm2"
    and "length bm2 = boot_bytes b"
    and "bitmap s = words_of_bytes bm2" and "pages_total s = boot_size b div 4096"
    and "pmm_inv s" and "last_free s = 0"
    and "pmm_init b = Some (s,
           map (\<lambda>i. next_free_pg b + of_nat i * 4096) [0..<boot_bytes b div 4096],
           next_free_pg b + of_nat (boot_bytes b div 4096) * 4096 + 4096)"
proof -
  let ?n = "unat (old_map_end b div 4096 div 4)"
  have "unat (boot_size b div 4096 div 8) \<le> boot_bytes b"
    using boot_bytes_cover [of b] by (simp add: unat_div)
  then obtain bm1 where
    bm1: "pmm_map_regions (boot_size b) (mmap_entries b) (map (fresh b) [0..<boot_bytes b]) = Some bm1"
      "length bm1 = boot_bytes b"
    using map_regions_total [of "mmap_entries b" "boot_size b" "map (fresh b) [0..<boot_bytes b]"]
      assms by (auto simp: boot_sane_def)
  then obtain bm2 where
    bm2: "memcpy_front bm1 (old_bitmap b) ?n = Some bm2" "length bm2 = boot_bytes b"
    using assms by (auto simp: memcpy_front_def boot_sane_def)
  let ?s0 = "\<lparr>bitmap = words_of_bytes bm2, mapsize = boot_size b, pages_free = 0, pages_taken = 0,
    pages_total = boot_size b div 4096, last_free = 0\<rparr>"
  have len: "32 * length (words_of_bytes bm2) = 8 * boot_bytes b"
    using bm2(2) by (simp add: boot_bytes_def)
  have tot: "unat (boot_size b div 4096) < 2 ^ 32 - 1"
    using u32_bound [of "boot_size b"] by (simp add: unat_div)
  have "\<exists>s. pmm_count (unat (pages_total ?s0)) (of_nat 0) ?s0 = Some s \<and> bitmap s = bitmap ?s0 \<and>
    mapsize s = mapsize ?s0 \<and> pages_total s = pages_total ?s0 \<and> last_free s = last_free ?s0 \<and>
    unat (pages_taken s) = card {k. k < 0 + unat (pages_total ?s0) \<and> bm_bit ?s0 k} \<and>
    unat (pages_free s) + unat (pages_taken s) = 0 + unat (pages_total ?s0)"
    using boot_bytes_cover [of b] len tot by (intro pmm_count_ok) simp_all
  then obtain s where s: "pmm_count (unat (boot_size b div 4096)) 0 ?s0 = Some s"
    "bitmap s = words_of_bytes bm2" "mapsize s = boot_size b" "pages_total s = boot_size b div 4096"
    "last_free s = 0" "unat (pages_taken s) = card {k. k < unat (boot_size b div 4096) \<and> bm_bit ?s0 k}"
    "unat (pages_free s) + unat (pages_taken s) = unat (boot_size b div 4096)"
    by auto
  have "pmm_inv s"
    using s boot_bytes_cover [of b] len
    by (simp add: pmm_inv_def taken_def bm_bit_def unat_div)
  moreover have "pmm_init b = Some (s,
           map (\<lambda>i. next_free_pg b + of_nat i * 4096) [0..<boot_bytes b div 4096],
           next_free_pg b + of_nat (boot_bytes b div 4096) * 4096 + 4096)"
    using bm1(1) bm2(1) s(1) by (simp add: pmm_init_def Let_def boot_bytes_def boot_size_def)
  ultimately show thesis using that bm1(1) bm2 s(2,4,5) by blast
qed

text \<open>The bit of a frame, read in the bytes the words are made of.\<close>

lemma byte_index: "(8 * m + j) div 8 = m + j div 8" "(8 * m + j) mod 8 = j mod 8" for m j :: nat
  by simp_all

lemma bit_word_of_bytes:
  "k < 32 \<Longrightarrow> bit (word_of_bytes b0 b1 b2 b3) k \<longleftrightarrow> bit ([b0, b1, b2, b3] ! (k div 8)) (k mod 8)"
proof -
  assume "k < 32"
  then consider "k < 8" | "8 \<le> k" "k < 16" | "16 \<le> k" "k < 24" | "24 \<le> k" "k < 32" by linarith
  then show ?thesis
  proof cases
    case 1
    then show ?thesis by (simp add: word_of_bytes_def bit_simps)
  next
    case 2
    then obtain j where "k = 8 + j" "j < 8" by (auto simp: le_iff_add)
    moreover from this have "k div 8 = 1" "k mod 8 = j" using byte_index [of 1 j] by simp_all
    ultimately show ?thesis by (auto simp: word_of_bytes_def bit_simps dest: bit_imp_le_length)
  next
    case 3
    then obtain j where "k = 16 + j" "j < 8" by (auto simp: le_iff_add)
    moreover from this have "k div 8 = 2" "k mod 8 = j" using byte_index [of 2 j] by simp_all
    ultimately show ?thesis by (auto simp: word_of_bytes_def bit_simps dest: bit_imp_le_length)
  next
    case 4
    then obtain j where "k = 24 + j" "j < 8" by (auto simp: le_iff_add)
    moreover from this have "k div 8 = 3" "k mod 8 = j" using byte_index [of 3 j] by simp_all
    ultimately show ?thesis by (auto simp: word_of_bytes_def bit_simps dest: bit_imp_le_length)
  qed
qed

lemma bit_words_of_bytes:
  "i < 8 * length bs \<Longrightarrow> 4 dvd length bs \<Longrightarrow>
    bit (words_of_bytes bs ! (i div 32)) (i mod 32) \<longleftrightarrow> bit (bs ! (i div 8)) (i mod 8)"
proof (induction bs arbitrary: i rule: words_of_bytes.induct)
  case (1 b0 b1 b2 b3 bs)
  show ?case
  proof (cases "i < 32")
    case True
    then have "i div 8 < 4" by simp
    then have "(b0 # b1 # b2 # b3 # bs) ! (i div 8) = [b0, b1, b2, b3] ! (i div 8)"
      using nth_append [of "[b0, b1, b2, b3]" bs "i div 8"] by simp
    with True show ?thesis by (simp add: bit_word_of_bytes)
  next
    case False
    then obtain j where j: "i = 32 + j" by (metis le_iff_add not_less)
    have "4 dvd length bs" using 1(3) by simp presburger
    moreover have "j < 8 * length bs" using 1(2) j by simp
    ultimately have IH: "bit (words_of_bytes bs ! (j div 32)) (j mod 32) \<longleftrightarrow> bit (bs ! (j div 8)) (j mod 8)"
      by (intro 1(1))
    have "(32 + j) div 32 = Suc (j div 32)" "(32 + j) mod 32 = j mod 32" by simp_all
    moreover have "(32 + j) div 8 = Suc (Suc (Suc (Suc (j div 8))))" "(32 + j) mod 8 = j mod 8"
      using byte_index [of 4 j] by simp_all
    moreover note IH
    ultimately show ?thesis unfolding j by simp
  qed
qed (auto dest!: dvd_imp_le)

subsection \<open>The bitmap allocator provides the interface\<close>

lemma pmm_ok_full: "pmm_ok s \<Longrightarrow> taken s = {..<unat (pages_total s)} \<Longrightarrow> bm_getpg s = Some (0, s)"
  by (simp add: pmm_ok_def pmm_inv_def bm_getpg_def word_le_nat_alt)

lemma pmm_ok_not_full:
  assumes "taken s \<noteq> {..<unat (pages_total s)}"
  shows "card (taken s) < unat (pages_total s)"
  using assms card_seteq [OF _ taken_subset] by (metis card_lessThan finite_lessThan not_le)

lemma getpg_pmm_ok:
  assumes "pmm_ok s" and "taken s \<noteq> {..<unat (pages_total s)}"
  shows "\<exists>p s'. bm_getpg s = Some (of_nat (p * 4096), s') \<and> p < unat (pages_total s) \<and> p \<notin> taken s \<and>
    pmm_ok s' \<and> unat (pages_total s') = unat (pages_total s) \<and> taken s' = insert p (taken s)"
proof -
  have "pmm_inv s" "hint_ok s" using assms(1) by (simp_all add: pmm_ok_def)
  then obtain p s' where "bm_getpg s = Some (of_nat (p * 4096), s')" "p < unat (pages_total s)"
    "p \<notin> taken s" "taken s' = insert p (taken s)" "pages_total s' = pages_total s" "pmm_inv s'" "hint_ok s'"
    using getpg_takes_free_frame pmm_ok_not_full [OF assms(2)] by blast
  then show ?thesis by (auto simp: pmm_ok_def)
qed

lemma page_of_frame: "p < 2 ^ 20 \<Longrightarrow> unat ((of_nat (p * 4096) :: u32) div 4096) = p"
  by (simp add: unat_div u32_of_nat del: of_nat_mult)

lemma freepg_pmm_ok:
  assumes "pmm_ok s" and "p \<in> taken s"
  shows "\<exists>s'. bm_freepg (of_nat (p * 4096)) s = Some s' \<and> pmm_ok s' \<and>
    unat (pages_total s') = unat (pages_total s) \<and> taken s' = taken s - {p}"
proof -
  have p: "p < unat (pages_total s)" "bm_bit s p" using assms(2) by (simp_all add: taken_def)
  have "p < 2 ^ 20" using p(1) total_bound [of s] assms(1) by (simp add: pmm_ok_def)
  then have u: "unat ((of_nat (p * 4096) :: u32) div 4096) = p" by (rule page_of_frame)
  obtain s2 where s2: "pmm_ok s2" "same_shape s s2" "taken s2 = taken s - {p}"
    "bm_unset (s\<lparr>pages_free := pages_free s + 1, pages_taken := pages_taken s - 1\<rparr>)
       (of_nat (p * 4096) div 4096) = Some s2"
    using clear_page [OF assms(1), of "of_nat (p * 4096) div 4096" thesis] u p by simp
  have "bm_freepg (of_nat (p * 4096)) s = Some s2"
    using s2(4) by (auto simp: bm_freepg_def bm_unset_def Let_def opt_simps simp del: of_nat_mult)
  with s2 show ?thesis by (auto simp: same_shape_def)
qed

interpretation pmm: frame_allocator pmm_ok "\<lambda>s. unat (pages_total s)" taken bm_getpg bm_freepg
proof unfold_locales
  show "taken s \<subseteq> {..<unat (pages_total s)}" for s by (rule taken_subset)
qed (erule (1) pmm_ok_full getpg_pmm_ok freepg_pmm_ok)+

subsection \<open>Properties\<close>

text \<open>A machine with two frames, of which frame 0 is taken and frame 1 is free.\<close>

definition demo_pmm :: pmm where
  "demo_pmm = \<lparr>bitmap = [NOT (bitmask 1)], mapsize = 8192, pages_free = 1, pages_taken = 1,
    pages_total = 2, last_free = 0\<rparr>"

lemma demo_pmm_bits: "i < 32 \<Longrightarrow> bm_bit demo_pmm i \<longleftrightarrow> i \<noteq> 1"
  by (auto simp: demo_pmm_def bm_bit_def bit_not_iff mask_simps)

lemma demo_pmm_taken: "taken demo_pmm = {0}"
  using demo_pmm_bits by (auto simp: taken_def demo_pmm_def)

lemma demo_pmm_ok: "pmm_ok demo_pmm"
proof -
  have "pmm_inv demo_pmm" using demo_pmm_taken by (simp add: pmm_inv_def demo_pmm_def)
  moreover have "hint_ok demo_pmm"
    using demo_pmm_bits by (auto simp: hint_ok_def demo_pmm_def)
  ultimately show ?thesis by (simp add: pmm_ok_def)
qed

text \<open>
  C5 (safety): on a consistent allocator with \<open>n\<close> frames to spare, \<open>n\<close> calls of \<open>bm_getpg\<close> in a row
  all succeed and return the page-aligned addresses of \<open>n\<close> different frames that nobody held
  before; the allocator stays consistent and exactly those frames become taken.
\<close>

theorem bm_getpg_distinct:
  assumes "pmm_ok s" and "card (taken s) + n \<le> unat (pages_total s)"
  shows "\<exists>ps t. get_pages bm_getpg n s = Some (map (\<lambda>p. of_nat (p * 4096)) ps, t) \<and> length ps = n \<and>
    distinct ps \<and> set ps \<inter> taken s = {} \<and> set ps \<subseteq> {..<unat (pages_total s)} \<and>
    pmm_ok t \<and> taken t = taken s \<union> set ps"
  using pmm.getpg_sequence [OF assms] by blast

theorem bm_getpg_distinct_witness:
  "\<exists>t. get_pages bm_getpg 1 demo_pmm = Some ([4096], t) \<and> taken t = {0, 1}"
proof -
  have "card (taken demo_pmm) + 1 \<le> unat (pages_total demo_pmm)"
    by (simp add: demo_pmm_taken) (simp add: demo_pmm_def)
  from bm_getpg_distinct [OF demo_pmm_ok this] obtain ps t where
    t: "get_pages bm_getpg 1 demo_pmm = Some (map (\<lambda>p. of_nat (p * 4096)) ps, t)" "length ps = 1"
      "set ps \<inter> {0} = {}" "set ps \<subseteq> {..<2}" "taken t = {0} \<union> set ps"
    unfolding demo_pmm_taken by (auto simp: demo_pmm_def)
  then obtain p where "ps = [p]" "p = 1" by (cases ps) (auto simp: less_2_cases_iff)
  with t show ?thesis by (intro exI [of _ t]) auto
qed

text \<open>
  C35 (roundtrip): for a block that lies within memory and within the first 65536 frames (the page index has 16 bits),
  \<open>bm_addblock\<close> marks exactly the frames of the block, those that were taken already stay so, and \<open>bm_rmblock\<close> of the same block gives
  back all of them, also those that were taken before; no other frame changes and both keep the allocator consistent.
\<close>

theorem bm_block_roundtrip:
  assumes "pmm_ok s" and "unat start = p * 4096" and "p + unat len \<le> 65536"
    and "p + unat len \<le> unat (pages_total s)"
  shows "\<exists>s1 s2. bm_addblock start len s = Some s1 \<and> pmm_ok s1 \<and>
    taken s1 = taken s \<union> {p..<p + unat len} \<and>
    bm_rmblock start len s1 = Some s2 \<and> pmm_ok s2 \<and> taken s2 = taken s - {p..<p + unat len}"
proof -
  have "unat (start div 4096) = p" using assms(2) by (simp add: unat_div)
  then have u: "(ucast (start div 4096) :: u16) = of_nat p" by auto
  have "p + unat len \<le> 32 * length (bitmap s)"
    using assms(1,4) pmm_invD(2) [of s] by (simp add: pmm_ok_def)
  then obtain s1 where s1: "addblock_loop (unat len) (of_nat p) s = Some s1" "pmm_ok s1"
    "same_shape s s1" "taken s1 = taken s \<union> ({p..<p + unat len} \<inter> {..<unat (pages_total s)})"
    using addblock_loop_ok [OF assms(1,3)] by blast
  moreover from this have "p + unat len \<le> unat (pages_total s1)"
    using assms(4) by (simp add: same_shape_def)
  ultimately obtain s2 where s2: "rmblock_loop (unat len) (of_nat p) s1 = Some s2" "pmm_ok s2"
    "taken s2 = taken s1 - {p..<p + unat len}"
    using rmblock_loop_ok assms(3) by blast
  have "{p..<p + unat len} \<subseteq> {..<unat (pages_total s)}" using assms(4) by auto
  then have "taken s1 = taken s \<union> {p..<p + unat len}" unfolding s1(4) by blast
  moreover from this have "taken s2 = taken s - {p..<p + unat len}" using s2(3) by blast
  ultimately show ?thesis using s1 s2 by (auto simp: bm_addblock_def bm_rmblock_def u)
qed

theorem bm_block_roundtrip_witness:
  "\<exists>s1 s2. bm_addblock 0 2 demo_pmm = Some s1 \<and> taken s1 = {0, 1} \<and> bm_rmblock 0 2 s1 = Some s2 \<and> taken s2 = {}"
proof -
  have "\<exists>s1 s2. bm_addblock 0 2 demo_pmm = Some s1 \<and> pmm_ok s1 \<and>
    taken s1 = taken demo_pmm \<union> {0..<0 + unat (2 :: u16)} \<and>
    bm_rmblock 0 2 s1 = Some s2 \<and> pmm_ok s2 \<and> taken s2 = taken demo_pmm - {0..<0 + unat (2 :: u16)}"
    by (rule bm_block_roundtrip [OF demo_pmm_ok]) (simp_all add: demo_pmm_def)
  moreover have "{0 :: nat} \<union> {0..<0 + unat (2 :: u16)} = {0, 1}" "{0 :: nat} - {0..<0 + unat (2 :: u16)} = {}" by auto
  ultimately show ?thesis by (simp only: demo_pmm_taken) blast
qed

lemma page_index_wraps:
  "(a + 268435456) mod 4294967296 div 4096 mod 65536 = a div 4096 mod 65536" for a :: nat
proof -
  have x: "x mod 4294967296 div 4096 = x div 4096 mod 1048576" for x :: nat
    using mod_mult2_eq [of x 4096 1048576] by simp
  have "(a + 268435456) div 4096 = a div 4096 + 65536"
    using div_add [of 4096 268435456 a] by simp
  then show ?thesis unfolding x by (simp add: mod_mod_cancel)
qed

text \<open>
  The page index of \<open>bm_addblock\<close> is 16 bits wide, so a block 256 MiB higher marks
  the same frames: the function cannot tell the two apart.
\<close>

lemma bm_addblock_aliases: "bm_addblock (start + 0x10000000) len s = bm_addblock start len s"
proof -
  have "unat (ucast ((start + 0x10000000) div 4096) :: u16) = unat (ucast (start div 4096) :: u16)"
    using page_index_wraps [of "unat start"]
    by (simp add: unsigned_ucast_eq take_bit_eq_mod unat_div unat_word_ariths)
  then have "(ucast ((start + 0x10000000) div 4096) :: u16) = ucast (start div 4096)"
    by (rule unsigned_word_eqI)
  then show ?thesis by (simp add: bm_addblock_def)
qed

text \<open>
  The search hint may point one past the last frame. If the spare bit there is clear,
  \<open>bm_getpg\<close> hands out the address just past the last frame and marks no frame as taken, although
  free frames are left.
\<close>

lemma bm_getpg_past_end:
  assumes "pmm_inv s" and "last_free s = pages_total s"
    and "\<not> bm_bit s (unat (pages_total s))" and "card (taken s) < unat (pages_total s)"
  shows "\<exists>s'. bm_getpg s = Some (pages_total s * 4096, s') \<and>
    unat (pages_total s * 4096) = 4096 * (unat (mapsize s) div 4096) \<and> taken s' = taken s"
proof -
  let ?t = "pages_total s"
  note D = pmm_invD [OF assms(1)]
  let ?s1 = "s\<lparr>last_free := ?t + 1\<rparr>"
  have "unat ?t < 32 * length (bitmap ?s1)" using D(2) by simp
  then obtain b where b: "bm_set ?s1 ?t = Some (?s1\<lparr>bitmap := b\<rparr>)"
    "\<And>k. bm_bit (?s1\<lparr>bitmap := b\<rparr>) k \<longleftrightarrow> bm_bit s k \<or> k = unat ?t"
    using bm_set_eq [of ?t ?s1 thesis] by simp
  have "0 \<le> sint (of_nat (unat ?t) :: u32)"
    using total_bound [OF assms(1)] by (intro u32_sint_nonneg) simp
  then have "0 \<le> sint ?t" by simp
  moreover from this have "?t \<noteq> - 1" by auto
  moreover have "bm_get_free s = Some (?t, ?s1)"
    using assms(2,3) D(2) by (simp add: bm_get_free_def bm_test_eq)
  moreover have "\<not> ?t \<le> pages_taken s" using assms(4) D(3) by (simp add: word_le_nat_alt)
  ultimately have "bm_getpg s = Some (?t * 4096,
      ?s1\<lparr>bitmap := b, pages_free := pages_free s - 1, pages_taken := pages_taken s + 1\<rparr>)"
    using b(1) by (simp add: bm_getpg_def)
  moreover have "unat (?t * 4096) = 4096 * (unat (mapsize s) div 4096)"
    using D(1) u32_bound [of "mapsize s"] by (simp add: unat_word_ariths)
  moreover have "taken (?s1\<lparr>bitmap := b, pages_free := pages_free s - 1, pages_taken := pages_taken s + 1\<rparr>)
      = taken s"
    using b(2) by (auto simp: taken_def)
  ultimately show ?thesis by blast
qed

lemma bm_getpg_past_end_witness:
  "\<exists>s'. bm_getpg \<lparr>bitmap = [0], mapsize = 8192, pages_free = 2, pages_taken = 0,
     pages_total = 2, last_free = 2\<rparr> = Some (8192, s')"
proof -
  let ?s = "\<lparr>bitmap = [0], mapsize = 8192, pages_free = 2, pages_taken = 0, pages_total = 2,
    last_free = 2\<rparr>"
  have bits: "i < 32 \<Longrightarrow> \<not> bm_bit ?s i" for i by (simp add: bm_bit_def)
  then have t: "taken ?s = {}" by (auto simp: taken_def)
  have "pmm_inv ?s" using t by (simp add: pmm_inv_def)
  from bm_getpg_past_end [OF this] bits [of 2] t show ?thesis by auto
qed

text \<open>
  The bits behind the last frame. Nothing sets them: what the early bitmap does not reach keeps what its page held before.
\<close>

definition spare_byte :: "pmm_boot \<Rightarrow> nat \<Rightarrow> u8" where
  "spare_byte b m = (if m < unat (old_map_end b div 4096 div 4) then old_bitmap b ! m else fresh b m)"

definition spare_set :: "pmm_boot \<Rightarrow> bool" where
  "spare_set b \<longleftrightarrow> (\<forall>i. unat (boot_size b div 4096) \<le> i \<and> i < 8 * boot_bytes b \<longrightarrow> bit (spare_byte b (i div 8)) (i mod 8))"

lemma memset_range_nth: "memset_range xs off v n = Some ys \<Longrightarrow> off + n \<le> m \<Longrightarrow> ys ! m = xs ! m"
proof -
  assume h: "memset_range xs off v n = Some ys" "off + n \<le> m"
  then have "ys = (take off xs @ replicate n v) @ drop (off + n) xs" "length (take off xs @ replicate n v) = off + n" "off + n \<le> length xs"
    by (auto simp: memset_range_def split: if_splits)
  then show ?thesis using h(2) by (simp only: nth_append) simp
qed

lemma map_regions_spare:
  assumes "pmm_map_regions m es bm = Some bm'" and "\<And>e. e \<in> set es \<Longrightarrow> entry_sane e" and "unat (m div 4096 div 8) \<le> k"
  shows "bm' ! k = bm ! k"
  using assms
proof (induction es arbitrary: bm)
  case (Cons e es)
  define x where "x = (ucast (me_addr e div 4096 div 8) :: u32)"
  define l where "l = (ucast (me_len e div 4096 div 8) :: u32)"
  define b where "b = m div 4096 div 8"
  note defs = x_def [symmetric] l_def [symmetric] b_def [symmetric]
  have sane: "unat x + unat l < 4294967296" using Cons.prems(2) [of e] by (simp add: entry_sane_def defs)
  show ?case
  proof (cases "me_type e \<noteq> 1 \<or> b < x")
    case True
    then have "pmm_map_regions m (e # es) bm = pmm_map_regions m es bm" by (auto simp: x_def b_def Let_def)
    then have "pmm_map_regions m es bm = Some bm'" using Cons.prems(1) by simp
    then show ?thesis using Cons.IH Cons.prems(2,3) by simp
  next
    case False
    define n where "n = (if b < x + l then b - x else l)"
    obtain bm1 where bm1: "memset_range bm (unat x) 0 (unat n) = Some bm1" "pmm_map_regions m es bm1 = Some bm'"
      using Cons.prems(1) False by (auto simp: defs Let_def n_def opt_simps)
    have "unat x + unat n \<le> k"
      using region_within [of x l b] sane False Cons.prems(3) by (simp add: n_def b_def)
    then have "bm1 ! k = bm ! k" by (rule memset_range_nth [OF bm1(1)])
    then show ?thesis using Cons.IH [OF bm1(2)] Cons.prems(2,3) by simp
  qed
qed simp

text \<open>
  C22 (invariant): \<open>pmm_init\<close> succeeds for a memory map whose regions stay within 32 bits and an
  early bitmap that fits, and leaves counters that agree with the bitmap (\<open>pmm_inv\<close>). The invariant \<open>pmm_ok\<close> that the
  operations rely on and keep holds afterwards just when the spare bits behind the last frame happen to be set in the memory
  that the bitmap was placed in, for the routine does not set them.
\<close>

theorem pmm_init_inv:
  assumes "boot_sane b"
  shows "\<exists>s allocs next. pmm_init b = Some (s, allocs, next) \<and> pmm_inv s \<and> last_free s = 0 \<and> (pmm_ok s \<longleftrightarrow> spare_set b) \<and>
    unat (pages_total s) = unat (boot_size b) div 4096 \<and>
    32 * length (bitmap s) = 8 * 4096 * length allocs"
proof -
  let ?n = "unat (old_map_end b div 4096 div 4)"
  obtain bm1 bm2 s where
    bm: "pmm_map_regions (boot_size b) (mmap_entries b) (map (fresh b) [0..<boot_bytes b]) = Some bm1"
      "memcpy_front bm1 (old_bitmap b) ?n = Some bm2"
    and s: "length bm2 = boot_bytes b" "bitmap s = words_of_bytes bm2"
    "pages_total s = boot_size b div 4096" "pmm_inv s" "last_free s = 0"
    and i: "pmm_init b = Some (s,
           map (\<lambda>i. next_free_pg b + of_nat i * 4096) [0..<boot_bytes b div 4096],
           next_free_pg b + of_nat (boot_bytes b div 4096) * 4096 + 4096)"
    using pmm_init_steps [OF assms] by metis
  have cp: "bm2 = take ?n (old_bitmap b) @ drop ?n bm1" "?n \<le> length bm1" "?n \<le> length (old_bitmap b)"
    using bm(2) by (auto simp: memcpy_front_def split: if_splits)
  have len: "length bm1 = boot_bytes b" using cp s(1) by simp
  have byte: "bm2 ! m = spare_byte b m" if m: "unat (boot_size b div 4096 div 8) \<le> m" "m < boot_bytes b" for m
  proof (cases "m < ?n")
    case True
    then show ?thesis using cp by (simp add: spare_byte_def nth_append)
  next
    case False
    then have "bm2 ! m = bm1 ! m" using cp len m(2) by (simp add: nth_append)
    also have "\<dots> = map (fresh b) [0..<boot_bytes b] ! m" using map_regions_spare [OF bm(1) _ m(1)] assms by (simp add: boot_sane_def)
    finally show ?thesis using m(2) False by (simp add: spare_byte_def)
  qed
  have d4: "4 dvd length bm2" using s(1) by (simp add: boot_bytes_def)
  have bits: "bm_bit s i \<longleftrightarrow> bit (spare_byte b (i div 8)) (i mod 8)" if h: "unat (boot_size b div 4096) \<le> i" "i < 8 * boot_bytes b" for i
  proof -
    have "unat (boot_size b div 4096 div 8) \<le> i div 8" using h(1) by (simp add: unat_div div_le_mono)
    then have "bm2 ! (i div 8) = spare_byte b (i div 8)" using h(2) by (intro byte) (simp_all add: less_mult_imp_div_less mult.commute)
    then show ?thesis using bit_words_of_bytes [OF _ d4, of i] h(2) s(1,2) by (simp add: bm_bit_def)
  qed
  have l: "32 * length (bitmap s) = 8 * boot_bytes b" using s(1,2) by (simp add: boot_bytes_def)
  have "hint_ok s \<longleftrightarrow> spare_set b" unfolding hint_ok_def spare_set_def l s(3,5) using bits by auto
  then have "pmm_ok s \<longleftrightarrow> spare_set b" using s(4) by (simp add: pmm_ok_def)
  then show ?thesis unfolding i using s by (simp add: unat_div boot_bytes_def)
qed

definition demo_boot :: pmm_boot where
  "demo_boot = \<lparr>mem_lower = 0, mem_upper = 8,
     mmap_entries = [\<lparr>me_addr = 0, me_len = 4096, me_type = 1\<rparr>],
     old_bitmap = [], old_map_end = 0, next_free_pg = 0, fresh = (\<lambda>_. 0)\<rparr>"

lemma demo_boot_sane: "boot_sane demo_boot"
  by (simp add: boot_sane_def demo_boot_def entry_sane_def)

lemma demo_boot_spare: "\<not> spare_set demo_boot"
  by (auto simp: spare_set_def spare_byte_def demo_boot_def boot_size_def boot_bytes_def intro: exI [of _ 8])

lemma demo_boot_ones: "boot_sane (demo_boot\<lparr>fresh := (\<lambda>i. 0xFF)\<rparr>)" "spare_set (demo_boot\<lparr>fresh := (\<lambda>i. 0xFF)\<rparr>)"
proof -
  show "boot_sane (demo_boot\<lparr>fresh := (\<lambda>i. 0xFF)\<rparr>)" using demo_boot_sane by (simp add: boot_sane_def boot_bytes_def boot_size_def)
  have "(0xFF :: u8) = mask 8" by (simp add: mask_eq_exp_minus_1)
  then have "bit (0xFF :: u8) (i mod 8)" for i by (simp only: bit_mask_iff) simp
  then show "spare_set (demo_boot\<lparr>fresh := (\<lambda>i. 0xFF)\<rparr>)" by (simp add: spare_set_def spare_byte_def demo_boot_def)
qed

text \<open>Two frames, once in memory that held zeros and once in memory that held ones.\<close>

theorem pmm_init_inv_witness:
  "(\<exists>s allocs next. pmm_init demo_boot = Some (s, allocs, next) \<and> unat (pages_total s) = 2 \<and> \<not> pmm_ok s) \<and>
   (\<exists>s allocs next. pmm_init (demo_boot\<lparr>fresh := (\<lambda>i. 0xFF)\<rparr>) = Some (s, allocs, next) \<and> pmm_ok s)"
  using pmm_init_inv [OF demo_boot_sane] pmm_init_inv [OF demo_boot_ones(1)] demo_boot_spare demo_boot_ones(2)
  by (auto simp: boot_size_def demo_boot_def)

lemma memset_zero:
  "memset_range bm off 0 n = Some ys \<Longrightarrow> set bm \<subseteq> {0} \<Longrightarrow> set ys \<subseteq> {0}"
  by (auto simp: memset_range_def split: if_splits dest!: in_set_takeD in_set_dropD)

lemma map_regions_zero:
  "pmm_map_regions m es bm = Some bm' \<Longrightarrow> set bm \<subseteq> {0} \<Longrightarrow> set bm' \<subseteq> {0}"
proof (induction es arbitrary: bm)
  case (Cons e es)
  from Cons.prems(1) consider "pmm_map_regions m es bm = Some bm'"
    | off n bm1 where "memset_range bm off 0 n = Some bm1" "pmm_map_regions m es bm1 = Some bm'"
    by (auto simp: Let_def opt_simps split: if_splits)
  then show ?case
    by cases (use Cons memset_zero in blast)+
qed simp

text \<open>
  Nothing marks the frames outside the available regions as taken. If the pages of
  the new bitmap start out as zeros, every frame past the part copied from the early bitmap is
  free after \<open>pmm_init\<close>, whatever regions the memory map declares.
\<close>

lemma pmm_init_ignores_map:
  assumes "boot_sane b" and "\<And>i. fresh b i = 0"
  shows "\<exists>s allocs next. pmm_init b = Some (s, allocs, next) \<and>
    taken s \<subseteq> {..<8 * unat (old_map_end b div 4096 div 4)}"
proof -
  let ?n = "unat (old_map_end b div 4096 div 4)"
  obtain bm1 bm2 s where
    bm1: "pmm_map_regions (boot_size b) (mmap_entries b) (map (fresh b) [0..<boot_bytes b]) = Some bm1"
    and bm2: "memcpy_front bm1 (old_bitmap b) ?n = Some bm2" "length bm2 = boot_bytes b"
    and s: "bitmap s = words_of_bytes bm2" "pages_total s = boot_size b div 4096"
    and i: "pmm_init b = Some (s,
           map (\<lambda>i. next_free_pg b + of_nat i * 4096) [0..<boot_bytes b div 4096],
           next_free_pg b + of_nat (boot_bytes b div 4096) * 4096 + 4096)"
    using pmm_init_steps [OF assms(1)] by metis
  have z: "set bm1 \<subseteq> {0}"
    by (rule map_regions_zero [OF bm1]) (use assms(2) in auto)
  have eq: "bm2 = take ?n (old_bitmap b) @ drop ?n bm1" "?n \<le> length bm1" "?n \<le> length (old_bitmap b)"
    using bm2(1) by (auto simp: memcpy_front_def split: if_splits)
  have len: "length bm1 = boot_bytes b" using eq bm2(2) by simp
  have "k < 8 * ?n" if "k \<in> taken s" for k
  proof (rule ccontr)
    assume "\<not> k < 8 * ?n"
    then have ge: "?n \<le> k div 8" by (simp add: less_eq_div_iff_mult_less_eq mult.commute)
    have k: "k < 8 * length bm2" using that boot_bytes_cover [of b] s(2) bm2(2) by (simp add: taken_def)
    then have k8: "k div 8 < length bm1" using len bm2(2) by (simp add: less_mult_imp_div_less mult.commute)
    then have "bm2 ! (k div 8) = bm1 ! (k div 8)" using ge eq by (simp add: nth_append)
    also have "\<dots> = 0" using z nth_mem [OF k8] by blast
    finally have "\<not> bit (bm2 ! (k div 8)) (k mod 8)" by simp
    moreover have "4 dvd length bm2" using bm2(2) by (simp add: boot_bytes_def)
    ultimately have "\<not> bm_bit s k"
      using bit_words_of_bytes [OF k] s(1) by (simp add: bm_bit_def)
    with that show False by (simp add: taken_def)
  qed
  with i show ?thesis by auto
qed

lemma pmm_init_ignores_map_witness:
  "\<exists>s allocs next. pmm_init demo_boot = Some (s, allocs, next) \<and> taken s = {}"
  using pmm_init_ignores_map [OF demo_boot_sane] by (auto simp: demo_boot_def)

end
