(* ===== verification/Fifo.thy ===== *)
theory Fifo
  imports Prelude
begin

text \<open>
  The interface of a bounded message queue, as its clients use it, and runs of send and receive
  requests over it. \<^verbatim>\<open>Message\<close> provides it.
\<close>

datatype 'a fifo_op = Push 'a | Pop

text \<open>A run on an implementation: the values the receives return, in order, and the last state.\<close>

fun run_ops :: "('s \<Rightarrow> 'a \<Rightarrow> 's option) \<Rightarrow> ('s \<Rightarrow> ('a \<times> 's) option) \<Rightarrow> 'a fifo_op list \<Rightarrow> 's
    \<Rightarrow> ('a list \<times> 's) option" where
  "run_ops push pop [] s = Some ([], s)"
| "run_ops push pop (Push x # ops) s = do { s1 \<leftarrow> push s x; run_ops push pop ops s1 }"
| "run_ops push pop (Pop # ops) s = do {
     (x, s1) \<leftarrow> pop s;
     (xs, s2) \<leftarrow> run_ops push pop ops s1;
     Some (x # xs, s2) }"

text \<open>
  The same run on the queue it stands for: a list of at most \<open>cap\<close> elements, the oldest first;
  a receive from the empty queue returns \<open>null\<close>.
\<close>

fun spec_ops :: "nat \<Rightarrow> 'a \<Rightarrow> 'a fifo_op list \<Rightarrow> 'a list \<Rightarrow> ('a list \<times> 'a list) option" where
  "spec_ops cap null [] q = Some ([], q)"
| "spec_ops cap null (Push x # ops) q =
     (if length q < cap then spec_ops cap null ops (q @ [x]) else None)"
| "spec_ops cap null (Pop # ops) q =
     (case q of
        [] \<Rightarrow> map_option (apfst ((#) null)) (spec_ops cap null ops [])
      | x # q' \<Rightarrow> map_option (apfst ((#) x)) (spec_ops cap null ops q'))"

definition pops :: "'a fifo_op list \<Rightarrow> nat" where
  "pops ops = length (filter (\<lambda>c. c = Pop) ops)"

lemma pops_simps [simp]: "pops [] = 0" "pops (Push x # ops) = pops ops" "pops (Pop # ops) = Suc (pops ops)"
  by (simp_all add: pops_def)

text \<open>
  \<open>fuel s\<close> bounds the receives the implementation still stands: a ring whose read index is never
  wrapped has such a bound.
\<close>

locale fifo =
  fixes inv :: "'s \<Rightarrow> bool"
    and items :: "'s \<Rightarrow> 'a list"
    and fuel :: "'s \<Rightarrow> nat"
    and cap :: nat
    and null :: 'a
    and push :: "'s \<Rightarrow> 'a \<Rightarrow> 's option"
    and pop :: "'s \<Rightarrow> ('a \<times> 's) option"
  assumes push_room: "inv s \<Longrightarrow> length (items s) < cap \<Longrightarrow>
      \<exists>s'. push s x = Some s' \<and> inv s' \<and> items s' = items s @ [x] \<and> fuel s' = fuel s"
    and pop_item: "inv s \<Longrightarrow> items s = x # q \<Longrightarrow> 0 < fuel s \<Longrightarrow>
      \<exists>s'. pop s = Some (x, s') \<and> inv s' \<and> items s' = q \<and> fuel s' = fuel s - 1"
    and pop_empty: "inv s \<Longrightarrow> items s = [] \<Longrightarrow> pop s = Some (null, s)"
begin

lemma run_refines:
  assumes "inv s" and "pops ops \<le> fuel s" and "spec_ops cap null ops (items s) = Some (outs, q)"
  shows "\<exists>s'. run_ops push pop ops s = Some (outs, s') \<and> inv s' \<and> items s' = q"
  using assms
proof (induction ops arbitrary: s outs)
  case Nil
  then show ?case by simp
next
  case (Cons c ops)
  show ?case
  proof (cases c)
    case (Push x)
    then have "length (items s) < cap" using Cons.prems(3) by (auto split: if_splits)
    then obtain s1 where "push s x = Some s1" "inv s1" "items s1 = items s @ [x]" "fuel s1 = fuel s"
      using push_room Cons.prems(1) by blast
    with Push Cons.prems Cons.IH [of s1 outs] show ?thesis by (auto split: if_splits)
  next
    case Pop
    show ?thesis
    proof (cases "items s")
      case Nil
      with Pop Cons.prems obtain outs' where
        "spec_ops cap null ops (items s) = Some (outs', q)" "outs = null # outs'" by auto
      with Pop Nil Cons.prems Cons.IH [of s outs'] pop_empty show ?thesis by auto
    next
      case (Cons x q')
      with Pop Cons.prems have "0 < fuel s" by simp
      with Cons obtain s1 where s1: "pop s = Some (x, s1)" "inv s1" "items s1 = q'" "fuel s1 = fuel s - 1"
        using pop_item Cons.prems(1) by blast
      from Pop Cons Cons.prems obtain outs' where
        outs: "spec_ops cap null ops q' = Some (outs', q)" "outs = x # outs'" by auto
      have "pops ops \<le> fuel s1" using Pop Cons.prems(2) s1(4) by simp
      then obtain s2 where "run_ops push pop ops s1 = Some (outs', s2)" "inv s2" "items s2 = q"
        using Cons.IH [OF s1(2)] outs(1) s1(3) by blast
      with outs(2) Pop s1(1) show ?thesis by auto
    qed
  qed
qed

end

end
