(* ===== verification/Message.thy ===== *)
theory Message
  imports Fifo
begin

text \<open>
  The message queue of a process: \<^verbatim>\<open>module/message/main.c\<close> (\<open>message_push\<close>, \<open>message_pop\<close>,
  \<open>message_peep\<close>) over the types of \<^verbatim>\<open>api/message.h\<close>. The ring holds pointers to messages; its
  read and write indices are signed 16-bit integers, as in the source. An access outside the
  array of \<open>MSG_MAXCOUNT\<close> pointers is \<open>None\<close>.
\<close>

record message =
  dst :: u32
  src :: u32
  msgsz :: u32
  dat :: addr
  kdat :: addr

record message_buffer =
  mb_head :: u16
  mb_tail :: u16
  mb_count :: u16
  mb_buffer :: "addr list"

definition MSG_MAXCOUNT :: nat where
  "MSG_MAXCOUNT = 128"

definition MSG_MAXSZ :: u32 where
  "MSG_MAXSZ = 0xFF000"

text \<open>\<^verbatim>\<open>head\<close> and \<^verbatim>\<open>tail\<close> are \<^verbatim>\<open>int16_t\<close>: a negative index is below the array.\<close>

definition mb_read :: "addr list \<Rightarrow> u16 \<Rightarrow> addr option" where
  "mb_read xs i = (if sint i < 0 then None else nth_opt xs (nat (sint i)))"

definition mb_write :: "addr list \<Rightarrow> u16 \<Rightarrow> addr \<Rightarrow> addr list option" where
  "mb_write xs i v = (if sint i < 0 then None else upd_opt xs (nat (sint i)) v)"

definition message_push :: "message_buffer \<Rightarrow> addr \<Rightarrow> (int \<times> message_buffer) option" where
  "message_push buf msg = do {
     b \<leftarrow> mb_write (mb_buffer buf) (mb_tail buf) msg;
     let buf1 = buf\<lparr>mb_buffer := b\<rparr>;
     let buf2 = buf1\<lparr>mb_tail := mb_tail buf1 + 1\<rparr>;
     let buf3 = (if sint (mb_tail buf2) \<ge> int MSG_MAXCOUNT then buf2\<lparr>mb_tail := 0\<rparr> else buf2);
     let buf4 = (if unat (mb_count buf3) < MSG_MAXCOUNT then buf3\<lparr>mb_count := mb_count buf3 + 1\<rparr> else buf3);
     Some (0, buf4) }"

definition message_pop :: "message_buffer \<Rightarrow> (addr \<times> message_buffer) option" where
  "message_pop buf =
     (if mb_count buf = 0 then Some (0, buf)
      else do {
        r \<leftarrow> mb_read (mb_buffer buf) (mb_head buf);
        let buf1 = buf\<lparr>mb_head := mb_head buf + 1\<rparr>;
        let buf2 = (if sint (mb_head buf1) < 0 then buf1\<lparr>mb_head := of_nat (MSG_MAXCOUNT - 1)\<rparr> else buf1);
        let buf3 = buf2\<lparr>mb_count := mb_count buf2 - 1\<rparr>;
        Some (r, buf3) })"

definition message_peep :: "message_buffer \<Rightarrow> addr option" where
  "message_peep buf =
     (if mb_count buf = 0 then Some 0 else mb_read (mb_buffer buf) (mb_head buf))"

text \<open>A queue in a zero-filled \<^verbatim>\<open>user_task_t\<close>.\<close>

definition mb_empty :: message_buffer where
  "mb_empty = \<lparr>mb_head = 0, mb_tail = 0, mb_count = 0, mb_buffer = replicate MSG_MAXCOUNT 0\<rparr>"

subsection \<open>Abstraction to a list of messages\<close>

abbreviation (input) hd_ix :: "message_buffer \<Rightarrow> nat" where
  "hd_ix b \<equiv> unat (mb_head b)"

definition mb_items :: "message_buffer \<Rightarrow> addr list" where
  "mb_items b = map (\<lambda>i. mb_buffer b ! ((hd_ix b + i) mod MSG_MAXCOUNT)) [0..<unat (mb_count b)]"

definition mb_ok :: "message_buffer \<Rightarrow> bool" where
  "mb_ok b \<longleftrightarrow> length (mb_buffer b) = MSG_MAXCOUNT \<and> hd_ix b \<le> MSG_MAXCOUNT \<and>
     unat (mb_count b) \<le> MSG_MAXCOUNT \<and>
     unat (mb_tail b) = (hd_ix b + unat (mb_count b)) mod MSG_MAXCOUNT"

text \<open>How many more messages can be read before the read index leaves the array.\<close>

definition mb_reads_left :: "message_buffer \<Rightarrow> nat" where
  "mb_reads_left b = MSG_MAXCOUNT - hd_ix b"

lemma sint_small: "unat w < 32768 \<Longrightarrow> sint w = int (unat w)" for w :: u16
proof -
  have "sint (of_nat n :: u16) = int n" if "n < 32768" for n
    using that by (simp add: signed_of_nat signed_take_bit_int_eq_self)
  from this [of "unat w"] show "unat w < 32768 \<Longrightarrow> ?thesis" by simp
qed

lemma u16_inc: "unat w < 65535 \<Longrightarrow> unat (w + 1) = Suc (unat w)" for w :: u16
  by (simp add: unat_word_ariths)

lemma u16_dec: "0 < unat w \<Longrightarrow> unat (w - 1) = unat w - 1" for w :: u16
  by (rule unat_minus_one) auto

lemma mb_read_in: "unat i < length xs \<Longrightarrow> unat i < 32768 \<Longrightarrow> mb_read xs i = Some (xs ! unat i)"
  by (simp add: mb_read_def sint_small)

lemma mb_write_in: "unat i < length xs \<Longrightarrow> unat i < 32768 \<Longrightarrow> mb_write xs i v = Some (xs[unat i := v])"
  by (simp add: mb_write_def sint_small)

lemma mb_tail_lt: "mb_ok b \<Longrightarrow> unat (mb_tail b) < MSG_MAXCOUNT"
  by (simp add: mb_ok_def MSG_MAXCOUNT_def)

text \<open>The effect of a push: the slot at the tail is written and the tail moves on, wrapping.\<close>

lemma message_push_eq:
  assumes "mb_ok b"
  shows "\<exists>b'. message_push b m = Some (0, b') \<and> mb_head b' = mb_head b \<and>
    mb_buffer b' = (mb_buffer b)[unat (mb_tail b) := m] \<and>
    unat (mb_tail b') = Suc (unat (mb_tail b)) mod MSG_MAXCOUNT \<and>
    unat (mb_count b') = min MSG_MAXCOUNT (Suc (unat (mb_count b)))"
proof -
  note [simp] = MSG_MAXCOUNT_def
  have t: "unat (mb_tail b) < 128" using mb_tail_lt [OF assms] by simp
  then have w: "mb_write (mb_buffer b) (mb_tail b) m = Some ((mb_buffer b)[unat (mb_tail b) := m])"
    using assms by (intro mb_write_in) (simp_all add: mb_ok_def)
  have t1: "unat (mb_tail b + 1) = Suc (unat (mb_tail b))" using t by (simp add: u16_inc)
  then have s1: "sint (mb_tail b + 1) = int (Suc (unat (mb_tail b)))" using t by (simp add: sint_small)
  have c: "unat (mb_count b) \<le> 128" using assms by (simp add: mb_ok_def)
  then have c1: "unat (mb_count b + 1) = Suc (unat (mb_count b))" by (simp add: u16_inc)
  have wrap: "int MSG_MAXCOUNT \<le> sint (mb_tail b + 1) \<longleftrightarrow> unat (mb_tail b) = 127"
    unfolding s1 of_nat_le_iff using t by auto
  have md: "Suc (unat (mb_tail b)) mod 128 = (if unat (mb_tail b) = 127 then 0 else Suc (unat (mb_tail b)))"
    using t by (simp add: mod_Suc)
  show ?thesis
    using w t1 c c1 wrap by (simp add: message_push_def Let_def md)
qed

lemma mb_items_nth: "i < unat (mb_count b) \<Longrightarrow>
  mb_items b ! i = mb_buffer b ! ((hd_ix b + i) mod MSG_MAXCOUNT)"
  by (simp add: mb_items_def)

lemma mb_items_length [simp]: "length (mb_items b) = unat (mb_count b)"
  by (simp add: mb_items_def)

lemma message_push_room:
  assumes "mb_ok b" and "unat (mb_count b) < MSG_MAXCOUNT"
  shows "\<exists>b'. message_push b m = Some (0, b') \<and> mb_ok b' \<and> mb_items b' = mb_items b @ [m] \<and>
    mb_reads_left b' = mb_reads_left b"
proof -
  obtain b' where b': "message_push b m = Some (0, b')" "mb_head b' = mb_head b"
    "mb_buffer b' = (mb_buffer b)[unat (mb_tail b) := m]"
    "unat (mb_tail b') = Suc (unat (mb_tail b)) mod MSG_MAXCOUNT"
    "unat (mb_count b') = Suc (unat (mb_count b))"
    using message_push_eq [OF assms(1)] assms(2) by (metis Suc_leI min_absorb2)
  have ok: "mb_ok b'" using assms b' by (simp add: mb_ok_def mod_Suc_eq)
  have t: "unat (mb_tail b) = (hd_ix b + unat (mb_count b)) mod MSG_MAXCOUNT"
    and l: "length (mb_buffer b) = MSG_MAXCOUNT" using assms(1) by (simp_all add: mb_ok_def)
  have ne: "unat (mb_tail b) \<noteq> (hd_ix b + i) mod MSG_MAXCOUNT" if "i < unat (mb_count b)" for i
  proof
    assume "unat (mb_tail b) = (hd_ix b + i) mod MSG_MAXCOUNT"
    then have "MSG_MAXCOUNT dvd (hd_ix b + unat (mb_count b)) - (hd_ix b + i)"
      using t that mod_eq_dvd_iff_nat [of "hd_ix b + i" "hd_ix b + unat (mb_count b)" MSG_MAXCOUNT]
      by simp
    then show False using that assms(2) by (auto dest: dvd_imp_le)
  qed
  have "mb_items b' = mb_items b @ [m]"
  proof (rule nth_equalityI)
    show "length (mb_items b') = length (mb_items b @ [m])" using b'(5) by simp
  next
    fix i assume "i < length (mb_items b')"
    then have "i < unat (mb_count b) \<or> i = unat (mb_count b)" using b'(5) by auto
    then show "mb_items b' ! i = (mb_items b @ [m]) ! i"
      using b' ne t l mb_tail_lt [OF assms(1)] by (auto simp: mb_items_nth nth_append)
  qed
  with b' ok show ?thesis by (auto simp: mb_reads_left_def)
qed

lemma message_pop_item:
  assumes "mb_ok b" and "mb_items b = x # q" and "0 < mb_reads_left b"
  shows "\<exists>b'. message_pop b = Some (x, b') \<and> mb_ok b' \<and> mb_items b' = q \<and>
    mb_reads_left b' = mb_reads_left b - 1"
proof -
  have c: "0 < unat (mb_count b)" using assms(2) mb_items_length [of b] by simp
  have h: "hd_ix b < 128" using assms(3) by (simp add: mb_reads_left_def MSG_MAXCOUNT_def)
  let ?b' = "b\<lparr>mb_head := mb_head b + 1, mb_count := mb_count b - 1\<rparr>"
  have h1: "unat (mb_head b + 1) = Suc (hd_ix b)" using h by (simp add: u16_inc)
  have "x = mb_items b ! 0" using assms(2) by simp
  also have "\<dots> = mb_buffer b ! hd_ix b" using c h by (simp add: mb_items_nth MSG_MAXCOUNT_def)
  finally have x: "x = mb_buffer b ! hd_ix b" .
  have "mb_read (mb_buffer b) (mb_head b) = Some x"
    using x h assms(1) by (simp add: mb_read_in mb_ok_def MSG_MAXCOUNT_def)
  moreover have "0 \<le> sint (mb_head b + 1)" using h1 h by (simp add: sint_small)
  moreover have "mb_count b \<noteq> 0" using c by auto
  ultimately have p: "message_pop b = Some (x, ?b')" by (simp add: message_pop_def Let_def)
  have ok: "mb_ok ?b'" using assms(1) h h1 c by (auto simp: mb_ok_def u16_dec MSG_MAXCOUNT_def)
  have "mb_items ?b' = tl (mb_items b)"
    by (rule nth_equalityI) (use c h1 in \<open>simp_all add: mb_items_nth nth_tl u16_dec\<close>)
  then show ?thesis using p ok assms(2) h1 by (simp add: mb_reads_left_def)
qed

lemma message_pop_empty: "mb_items b = [] \<Longrightarrow> message_pop b = Some (0, b)"
  by (simp add: mb_items_def message_pop_def unat_eq_zero)

interpretation mq: fifo mb_ok mb_items mb_reads_left MSG_MAXCOUNT 0
  "\<lambda>b m. map_option snd (message_push b m)" message_pop
proof unfold_locales
  show "\<exists>s'. map_option snd (message_push s x) = Some s' \<and> mb_ok s' \<and> mb_items s' = mb_items s @ [x] \<and>
      mb_reads_left s' = mb_reads_left s"
    if "mb_ok s" "length (mb_items s) < MSG_MAXCOUNT" for s x
    using message_push_room [OF that(1)] that(2) by fastforce
qed (blast intro: message_pop_item message_pop_empty)+

subsection \<open>Properties\<close>

lemma mb_empty_ok: "mb_ok mb_empty" "mb_items mb_empty = []" "mb_reads_left mb_empty = MSG_MAXCOUNT"
  by (simp_all add: mb_ok_def mb_empty_def mb_items_def mb_reads_left_def)

text \<open>One message sent and received, the shape of the code's use between two processes.\<close>

fun ping :: "addr \<Rightarrow> nat \<Rightarrow> message_buffer \<Rightarrow> message_buffer option" where
  "ping m 0 b = Some b"
| "ping m (Suc n) b = do {
     (r, b1) \<leftarrow> message_push b m;
     (x, b2) \<leftarrow> message_pop b1;
     ping m n b2 }"

lemma ping_drains:
  "mb_ok b \<Longrightarrow> mb_items b = [] \<Longrightarrow> n \<le> mb_reads_left b \<Longrightarrow>
    \<exists>b'. ping m n b = Some b' \<and> mb_ok b' \<and> mb_items b' = [] \<and> mb_reads_left b' = mb_reads_left b - n"
proof (induction n arbitrary: b)
  case 0
  then show ?case by simp
next
  case (Suc n)
  have "unat (mb_count b) < MSG_MAXCOUNT"
    using Suc.prems(2) mb_items_length [of b] by (simp add: MSG_MAXCOUNT_def)
  then obtain b1 where b1: "message_push b m = Some (0, b1)" "mb_ok b1" "mb_items b1 = [m]"
    "mb_reads_left b1 = mb_reads_left b"
    using message_push_room [OF Suc.prems(1)] Suc.prems(2) by fastforce
  then obtain b2 where b2: "message_pop b1 = Some (m, b2)" "mb_ok b2" "mb_items b2 = []"
    "mb_reads_left b2 = mb_reads_left b - 1"
    using message_pop_item [OF b1(2,3)] Suc.prems(3) by auto
  from Suc.IH [OF b2(2,3)] Suc.prems(3) b1 b2 show ?case by fastforce
qed

lemma message_pop_past_array:
  assumes "mb_ok b" and "mb_reads_left b = 0" and "0 < mb_count b"
  shows "message_pop b = None"
proof -
  have h: "hd_ix b = 128" using assms(1,2) by (simp add: mb_ok_def mb_reads_left_def MSG_MAXCOUNT_def)
  then have "mb_read (mb_buffer b) (mb_head b) = None"
    using assms(1) by (simp add: mb_read_def sint_small mb_ok_def MSG_MAXCOUNT_def nth_opt_def)
  with assms(3) show ?thesis by (simp add: message_pop_def)
qed

text \<open>
  C17 (message_fifo): a run of sends and receives on a fresh message queue that never sends to a
  full queue and receives at most \<open>MSG_MAXCOUNT\<close> times gives the results of the same run on a
  list used first in, first out, and leaves the queue holding that list.
\<close>

theorem message_fifo:
  assumes "pops ops \<le> MSG_MAXCOUNT" and "spec_ops MSG_MAXCOUNT 0 ops [] = Some (outs, q)"
  shows "\<exists>b. run_ops (\<lambda>b m. map_option snd (message_push b m)) message_pop ops mb_empty = Some (outs, b) \<and>
    mb_ok b \<and> mb_items b = q"
  using mq.run_refines [of mb_empty ops outs q] assms by (simp add: mb_empty_ok)

theorem message_fifo_witness:
  "\<exists>b. run_ops (\<lambda>b m. map_option snd (message_push b m)) message_pop
      [Pop, Push 7, Push 8, Pop, Push 9] mb_empty = Some ([0, 7], b) \<and> mb_ok b \<and> mb_items b = [8, 9]"
  by (rule message_fifo) (simp_all add: MSG_MAXCOUNT_def)

text \<open>
  The read index is never wrapped (\<open>message_pop\<close> compares it with 0,
  not with the capacity), so after 128 messages sent and received one by one the next message
  received is read from beyond the array.
\<close>

lemma message_pop_out_of_range:
  assumes "n = MSG_MAXCOUNT"
  shows "\<exists>b b'. ping m n mb_empty = Some b \<and> message_push b m' = Some (0, b') \<and> message_pop b' = None"
proof -
  obtain b where b: "ping m n mb_empty = Some b" "mb_ok b" "mb_items b = []" "mb_reads_left b = 0"
    using ping_drains [of mb_empty n m] by (auto simp: mb_empty_ok assms)
  have "unat (mb_count b) < MSG_MAXCOUNT"
    using b(3) mb_items_length [of b] by (simp add: MSG_MAXCOUNT_def)
  then obtain b' where b': "message_push b m' = Some (0, b')" "mb_ok b'" "mb_items b' = [m']"
    "mb_reads_left b' = 0"
    using message_push_room [OF b(2)] b by fastforce
  have "0 < mb_count b'" using b'(3) mb_items_length [of b'] by (auto simp: word_gt_0)
  with b b' show ?thesis using message_pop_past_array by blast
qed

lemma message_pop_out_of_range_witness:
  "\<exists>b b'. ping 7 128 mb_empty = Some b \<and> message_push b 8 = Some (0, b') \<and> message_pop b' = None"
  by (rule message_pop_out_of_range) (simp add: MSG_MAXCOUNT_def)

text \<open>
  A push to a full queue is not refused. It returns 0 like any other, keeps
  the count, and puts the new message into the slot of the oldest one, which is then received first.
\<close>

lemma message_push_full:
  assumes "mb_ok b" and "unat (mb_count b) = MSG_MAXCOUNT"
  shows "\<exists>b'. message_push b m = Some (0, b') \<and> mb_items b' = m # tl (mb_items b)"
proof -
  obtain b' where b': "message_push b m = Some (0, b')" "mb_head b' = mb_head b"
    "mb_buffer b' = (mb_buffer b)[unat (mb_tail b) := m]" "unat (mb_count b') = MSG_MAXCOUNT"
    using message_push_eq [OF assms(1)] assms(2) by fastforce
  have t: "unat (mb_tail b) = hd_ix b mod MSG_MAXCOUNT" and l: "length (mb_buffer b) = MSG_MAXCOUNT"
    using assms by (simp_all add: mb_ok_def)
  have "mb_items b' = m # tl (mb_items b)"
  proof (rule nth_equalityI)
    show "length (mb_items b') = length (m # tl (mb_items b))"
      using b'(4) assms(2) by (simp add: MSG_MAXCOUNT_def)
  next
    fix i assume i: "i < length (mb_items b')"
    then have i128: "i < MSG_MAXCOUNT" using b'(4) by simp
    have ne: "hd_ix b mod MSG_MAXCOUNT \<noteq> (hd_ix b + i) mod MSG_MAXCOUNT" if "0 < i"
    proof
      assume "hd_ix b mod MSG_MAXCOUNT = (hd_ix b + i) mod MSG_MAXCOUNT"
      then have "MSG_MAXCOUNT dvd (hd_ix b + i) - hd_ix b"
        using mod_eq_dvd_iff_nat [of "hd_ix b" "hd_ix b + i" MSG_MAXCOUNT] by simp
      then show False using that i128 by (auto dest: dvd_imp_le)
    qed
    show "mb_items b' ! i = (m # tl (mb_items b)) ! i"
      using i i128 ne b' t l mb_tail_lt [OF assms(1)] assms(2)
      by (cases i) (simp_all add: mb_items_nth nth_tl)
  qed
  with b'(1) show ?thesis by blast
qed

definition mb_full_demo :: message_buffer where
  "mb_full_demo = \<lparr>mb_head = 0, mb_tail = 0, mb_count = 128, mb_buffer = 1 # replicate 127 2\<rparr>"

lemma message_push_full_witness:
  "\<exists>b'. message_push mb_full_demo 7 = Some (0, b') \<and> mb_items b' = 7 # tl (mb_items mb_full_demo)"
  by (rule message_push_full) (simp_all add: mb_ok_def mb_full_demo_def MSG_MAXCOUNT_def)

end
