(* ===== verification/Links.thy ===== *)
theory Links
  imports Prelude
begin

text \<open>
  Linked structures in an explicit store, shared by the kernel heap (\<^verbatim>\<open>module/heap/main.c\<close>), the
  user heap (\<^verbatim>\<open>lib/libc/stdlib/heap.c\<close>) and the lists of \<^verbatim>\<open>module/dthelper/list.c\<close>: a store maps
  addresses to nodes, and a chain of nodes linked both ways is described by the list of its
  addresses. The locale \<open>linked\<close> states what a node type offers (a next and a previous field that
  can be read and written independently); its lemmas say what inserting a node after another and
  taking a node out do to a chain.
\<close>

type_synonym 'n store = "addr \<Rightarrow> 'n option"

text \<open>A read or write through a pointer: NULL and addresses without a node fault.\<close>

definition load :: "'n store \<Rightarrow> addr \<Rightarrow> 'n option" where
  "load m p = (if p = 0 then None else m p)"

definition modify :: "'n store \<Rightarrow> addr \<Rightarrow> ('n \<Rightarrow> 'n) \<Rightarrow> 'n store option" where
  "modify m p f = do { n \<leftarrow> load m p; Some (m(p \<mapsto> f n)) }"

lemma load_Some [opt_simps]: "load m p = Some n \<longleftrightarrow> p \<noteq> 0 \<and> m p = Some n"
  by (simp add: load_def)

lemma load_null [simp]: "load m 0 = None"
  by (simp add: load_def)

lemma load_upd [simp]: "p \<noteq> 0 \<Longrightarrow> load (m(q \<mapsto> n)) p = (if p = q then Some n else load m p)"
  by (simp add: load_def)

lemma modify_Some [opt_simps]:
  "modify m p f = Some m' \<longleftrightarrow> (\<exists>n. load m p = Some n \<and> m' = m(p \<mapsto> f n))"
  by (auto simp: modify_def opt_simps)

lemma modify_in [simp]: "load m p = Some n \<Longrightarrow> modify m p f = Some (m(p \<mapsto> f n))"
  by (simp add: modify_def)

subsection \<open>Chains\<close>

text \<open>\<open>chain nx m p xs z\<close>: from \<open>p\<close>, the next fields visit \<open>xs\<close> and then reach \<open>z\<close>.\<close>

fun chain :: "('n \<Rightarrow> addr) \<Rightarrow> 'n store \<Rightarrow> addr \<Rightarrow> addr list \<Rightarrow> addr \<Rightarrow> bool" where
  "chain nx m p [] z \<longleftrightarrow> p = z"
| "chain nx m p (x # xs) z \<longleftrightarrow> p = x \<and> (\<exists>n. load m x = Some n \<and> chain nx m (nx n) xs z)"

text \<open>
  \<open>dll nx pv m a xs z\<close>: the nodes \<open>xs\<close> are linked in order, both ways; the previous field of the
  first is \<open>a\<close> and the next field of the last is \<open>z\<close>.
\<close>

fun dll :: "('n \<Rightarrow> addr) \<Rightarrow> ('n \<Rightarrow> addr) \<Rightarrow> 'n store \<Rightarrow> addr \<Rightarrow> addr list \<Rightarrow> addr \<Rightarrow> bool" where
  "dll nx pv m a [] z \<longleftrightarrow> True"
| "dll nx pv m a (x # xs) z \<longleftrightarrow>
     (\<exists>n. load m x = Some n \<and> pv n = a \<and> nx n = hd (xs @ [z]) \<and> dll nx pv m x xs z)"

lemma chain_append: "chain nx m p (xs @ ys) z \<longleftrightarrow> (\<exists>q. chain nx m p xs q \<and> chain nx m q ys z)"
  by (induction xs arbitrary: p) auto

lemma chain_cong:
  "chain nx m p xs z \<Longrightarrow> (\<And>x n. x \<in> set xs \<Longrightarrow> load m x = Some n \<Longrightarrow> \<exists>n'. load m' x = Some n' \<and> nx n' = nx n)
    \<Longrightarrow> chain nx m' p xs z"
  by (induction xs arbitrary: p) fastforce+

lemma chain_start: "chain nx m p xs z \<Longrightarrow> p = hd (xs @ [z])"
  by (cases xs) auto

lemma dll_chain: "dll nx pv m a xs z \<Longrightarrow> chain nx m (hd (xs @ [z])) xs z"
  by (induction xs arbitrary: a) auto

lemma dll_nodes: "dll nx pv m a xs z \<Longrightarrow> x \<in> set xs \<Longrightarrow> \<exists>n. load m x = Some n"
  by (induction xs arbitrary: a) auto

lemma dll_append: "dll nx pv m a (xs @ ys) z \<longleftrightarrow>
    dll nx pv m a xs (hd (ys @ [z])) \<and> dll nx pv m (last (a # xs)) ys z"
proof (induction xs arbitrary: a)
  case Nil
  then show ?case by simp
next
  case (Cons x xs)
  have "hd ((xs @ ys) @ [z]) = hd (xs @ [hd (ys @ [z])])" by (cases xs) auto
  with Cons show ?case by auto
qed

lemma dll_cong:
  "dll nx pv m a xs z \<Longrightarrow> (\<And>x n. x \<in> set xs \<Longrightarrow> load m x = Some n \<Longrightarrow>
      \<exists>n'. load m' x = Some n' \<and> nx n' = nx n \<and> pv n' = pv n) \<Longrightarrow> dll nx pv m' a xs z"
  by (induction xs arbitrary: a) fastforce+

lemma dll_eq: "dll nx pv m a xs z \<Longrightarrow> (\<And>x. x \<in> set xs \<Longrightarrow> m' x = m x) \<Longrightarrow> dll nx pv m' a xs z"
  by (induction xs arbitrary: a) (auto simp: load_def)

lemma dll_frame: "dll nx pv m a xs z \<Longrightarrow> y \<notin> set xs \<Longrightarrow> dll nx pv (m(y \<mapsto> n)) a xs z"
  by (erule dll_cong) (auto simp: load_def)

lemma chain_frame: "chain nx m p xs z \<Longrightarrow> y \<notin> set xs \<Longrightarrow> chain nx (m(y \<mapsto> n)) p xs z"
  by (erule chain_cong) (auto simp: load_def)

lemma dll_nonnull: "dll nx pv m a xs z \<Longrightarrow> 0 \<notin> set xs"
  by (induction xs arbitrary: a) (auto simp: opt_simps)

lemma dll_split: "dll nx pv m a (xs @ x # ys) z \<Longrightarrow> \<exists>n. load m x = Some n \<and>
    pv n = last (a # xs) \<and> nx n = hd (ys @ [z])"
  by (auto simp: dll_append)

text \<open>A chain cannot pass a node twice, if it ends outside of the store's nodes.\<close>

lemma chain_unique:
  "chain nx m p xs 0 \<Longrightarrow> chain nx m p ys 0 \<Longrightarrow> xs = ys"
proof (induction xs arbitrary: p ys)
  case Nil
  then show ?case by (cases ys) auto
next
  case (Cons x xs)
  then show ?case by (cases ys) auto
qed

subsection \<open>Node types with two links\<close>

locale linked =
  fixes nx pv :: "'n \<Rightarrow> addr" and set_nx set_pv :: "addr \<Rightarrow> 'n \<Rightarrow> 'n"
  assumes nx_set_nx [simp]: "nx (set_nx v n) = v" and pv_set_nx [simp]: "pv (set_nx v n) = pv n"
    and pv_set_pv [simp]: "pv (set_pv v n) = v" and nx_set_pv [simp]: "nx (set_pv v n) = nx n"
begin

lemma set_last_next:
  assumes "dll nx pv m a (xs @ [x]) z" and "distinct (xs @ [x])" and "load m x = Some n"
  shows "dll nx pv (m(x \<mapsto> set_nx z' n)) a (xs @ [x]) z'"
proof -
  have "dll nx pv m a xs x" using assms by (auto simp: dll_append)
  then have "dll nx pv (m(x \<mapsto> set_nx z' n)) a xs x" by (rule dll_frame) (use assms in auto)
  with assms show ?thesis by (auto simp: dll_append opt_simps)
qed

lemma set_first_prev:
  assumes "dll nx pv m a (x # xs) z" and "distinct (x # xs)" and "load m x = Some n"
  shows "dll nx pv (m(x \<mapsto> set_pv a' n)) a' (x # xs) z"
proof -
  have "dll nx pv (m(x \<mapsto> set_pv a' n)) x xs z" by (rule dll_frame) (use assms in auto)
  with assms show ?thesis by (auto simp: opt_simps)
qed

text \<open>Node \<open>q\<close>, already linked to its neighbours, is put between \<open>p\<close> and the node after it.\<close>

lemma insert_after:
  assumes "dll nx pv m a (xs @ p # ys) z" and "distinct (xs @ p # q # ys)" and "q \<noteq> 0"
    and "m' q = Some nq" "nx nq = hd (ys @ [z])" "pv nq = p"
    and "load m p = Some np" "load m' p = Some np'" "nx np' = q" "pv np' = pv np"
    and "\<And>y. y \<noteq> p \<Longrightarrow> y \<noteq> q \<Longrightarrow> y \<notin> set (take 1 ys) \<Longrightarrow> m' y = m y"
    and "\<And>y ys'. ys = y # ys' \<Longrightarrow> \<exists>n n'. m y = Some n \<and> m' y = Some n' \<and> nx n' = nx n \<and> pv n' = q"
  shows "dll nx pv m' a (xs @ p # q # ys) z"
proof -
  have pre: "dll nx pv m a xs p" and post: "dll nx pv m p ys z" and pvp: "pv np = last (a # xs)"
    using assms(1,7) by (auto simp: dll_append)
  have "dll nx pv m' a xs p"
    using pre
  proof (rule dll_eq)
    fix x assume "x \<in> set xs"
    with assms(2) show "m' x = m x" by (intro assms(11)) (auto dest: in_set_takeD)
  qed
  moreover have "dll nx pv m' q ys z"
  proof (cases ys)
    case (Cons y ys')
    have "dll nx pv m y ys' z" using post Cons by auto
    then have "dll nx pv m' y ys' z"
    proof (rule dll_eq)
      fix w assume "w \<in> set ys'"
      with assms(2) Cons show "m' w = m w" by (intro assms(11)) auto
    qed
    with assms(12) [OF Cons] post Cons show ?thesis by (auto simp: opt_simps)
  qed simp
  ultimately show ?thesis
    using assms(3-10) pvp by (auto simp: dll_append opt_simps load_def)
qed

text \<open>Node \<open>q\<close> is taken out: its neighbours are linked to each other.\<close>

lemma take_out:
  assumes "dll nx pv m a (xs @ q # ys) z" and "distinct (xs @ q # ys)"
    and "\<And>y. y \<noteq> q \<Longrightarrow> y \<notin> set (take 1 ys) \<Longrightarrow> (xs = [] \<or> y \<noteq> last xs) \<Longrightarrow> m' y = m y"
    and "\<And>y ys'. ys = y # ys' \<Longrightarrow>
      \<exists>n n'. m y = Some n \<and> m' y = Some n' \<and> nx n' = nx n \<and> pv n' = last (a # xs)"
    and "xs \<noteq> [] \<Longrightarrow> \<exists>n n'. m (last xs) = Some n \<and> m' (last xs) = Some n' \<and> pv n' = pv n \<and> nx n' = hd (ys @ [z])"
  shows "dll nx pv m' a (xs @ ys) z"
proof -
  have pre: "dll nx pv m a xs q" and post: "dll nx pv m q ys z"
    using assms(1) by (auto simp: dll_append)
  have "dll nx pv m' a xs (hd (ys @ [z]))"
  proof (cases xs rule: rev_cases)
    case (snoc xs' x)
    have "dll nx pv m a xs' x" using pre snoc by (auto simp: dll_append)
    then have "dll nx pv m' a xs' x"
    proof (rule dll_eq)
      fix w assume "w \<in> set xs'"
      with assms(2) snoc show "m' w = m w" by (intro assms(3)) (auto dest: in_set_takeD)
    qed
    with assms(5) pre snoc show ?thesis by (auto simp: dll_append opt_simps load_def)
  qed simp
  moreover have "dll nx pv m' (last (a # xs)) ys z"
  proof (cases ys)
    case (Cons y ys')
    have "dll nx pv m y ys' z" using post Cons by auto
    then have "dll nx pv m' y ys' z"
    proof (rule dll_eq)
      fix w assume "w \<in> set ys'"
      with assms(2) Cons show "m' w = m w" by (intro assms(3)) (auto dest: last_in_set)
    qed
    with assms(4) [OF Cons] post Cons show ?thesis by (auto simp: opt_simps)
  qed simp
  ultimately show ?thesis by (simp add: dll_append)
qed

end

end
