(* ===== verification/Heaps.thy ===== *)
theory Heaps
  imports Prelude
begin

text \<open>
  The interface of a heap, as its clients see it: \<open>allocator\<close> promises that an allocation returns a
  block that overlaps none of those in use, \<open>heap_allocator\<close> also that freeing a block ends the use
  of that block and of no other. \<open>Kheap\<close> provides both with \<^verbatim>\<open>kalloc\<close> and \<^verbatim>\<open>kfree\<close>;
  \<open>LibcHeap\<close> provides the first with \<^verbatim>\<open>malloc\<close>.

  A block in use is a pair of its first address and its size. \<open>bytes_left\<close> and \<open>allocs_left\<close> bound
  what can still be asked for, \<open>cost\<close> is what a request takes of it.
\<close>

definition apart :: "nat \<times> nat \<Rightarrow> nat \<times> nat \<Rightarrow> bool" where
  "apart x y \<longleftrightarrow> fst x + snd x \<le> fst y \<or> fst y + snd y \<le> fst x"

lemma apart_sym: "apart x y \<Longrightarrow> apart y x"
  by (auto simp: apart_def)

lemma apart_shrink: "apart (p, m) (q, k) \<Longrightarrow> n \<le> m \<Longrightarrow> j \<le> k \<Longrightarrow> apart (p, n) (q, j)"
  by (auto simp: apart_def)

text \<open>
  A client's requests: \<open>Get n\<close> asks for \<open>n\<close> bytes, \<open>Put i\<close> gives back the \<open>i\<close>-th of the blocks it
  holds. A run returns the blocks held at the end, each with the size that was asked for.
\<close>

datatype heap_req = Get u32 | Put nat

fun heap_run :: "(u32 \<Rightarrow> 's \<Rightarrow> (addr \<times> 's) option) \<Rightarrow> (addr \<Rightarrow> 's \<Rightarrow> 's option) \<Rightarrow>
    heap_req list \<Rightarrow> (addr \<times> u32) list \<Rightarrow> 's \<Rightarrow> ((addr \<times> u32) list \<times> 's) option" where
  "heap_run alloc free [] held s = Some (held, s)"
| "heap_run alloc free (Get n # rs) held s = do {
     (p, s1) \<leftarrow> alloc n s;
     heap_run alloc free rs (held @ [(p, n)]) s1 }"
| "heap_run alloc free (Put i # rs) held s = do {
     (p, n) \<leftarrow> nth_opt held i;
     s1 \<leftarrow> free p s;
     heap_run alloc free rs (take i held @ drop (Suc i) held) s1 }"

text \<open>Requests a client may make: nonzero sizes, and indices of blocks it holds.\<close>

fun sane_reqs :: "nat \<Rightarrow> heap_req list \<Rightarrow> bool" where
  "sane_reqs k [] \<longleftrightarrow> True"
| "sane_reqs k (Get n # rs) \<longleftrightarrow> n \<noteq> 0 \<and> sane_reqs (Suc k) rs"
| "sane_reqs k (Put i # rs) \<longleftrightarrow> i < k \<and> sane_reqs (k - 1) rs"

fun req_bytes :: "(nat \<Rightarrow> nat) \<Rightarrow> heap_req list \<Rightarrow> nat" where
  "req_bytes cost [] = 0"
| "req_bytes cost (Get n # rs) = cost (unat n) + req_bytes cost rs"
| "req_bytes cost (Put i # rs) = req_bytes cost rs"

fun req_allocs :: "heap_req list \<Rightarrow> nat" where
  "req_allocs [] = 0"
| "req_allocs (Get n # rs) = Suc (req_allocs rs)"
| "req_allocs (Put i # rs) = req_allocs rs"

definition span :: "addr \<times> u32 \<Rightarrow> nat \<times> nat" where
  "span b = (unat (fst b), unat (snd b))"

definition disjoint_blocks :: "(addr \<times> u32) list \<Rightarrow> bool" where
  "disjoint_blocks held \<longleftrightarrow>
     (\<forall>i < length held. \<forall>j < length held. i \<noteq> j \<longrightarrow> apart (span (held ! i)) (span (held ! j)))"

locale allocator =
  fixes inv :: "'s \<Rightarrow> bool"
    and used :: "'s \<Rightarrow> (nat \<times> nat) set"
    and bytes_left allocs_left :: "'s \<Rightarrow> nat"
    and cost :: "nat \<Rightarrow> nat"
    and alloc :: "u32 \<Rightarrow> 's \<Rightarrow> (addr \<times> 's) option"
  assumes used_apart: "inv s \<Longrightarrow> x \<in> used s \<Longrightarrow> y \<in> used s \<Longrightarrow> x \<noteq> y \<Longrightarrow> apart x y"
    and used_pos: "inv s \<Longrightarrow> (p, m) \<in> used s \<Longrightarrow> 0 < p \<and> 0 < m"
    and alloc_ok: "inv s \<Longrightarrow> n \<noteq> 0 \<Longrightarrow> cost (unat n) \<le> bytes_left s \<Longrightarrow> 0 < allocs_left s \<Longrightarrow>
      \<exists>p s' m. alloc n s = Some (p, s') \<and> inv s' \<and> unat n \<le> m \<and> (unat p, m) \<notin> used s \<and>
        used s' = insert (unat p, m) (used s) \<and>
        bytes_left s - cost (unat n) \<le> bytes_left s' \<and> allocs_left s - 1 \<le> allocs_left s'"
begin

text \<open>The blocks a client holds: each lies in a block in use, a different one for each.\<close>

definition holds :: "'s \<Rightarrow> (addr \<times> u32) list \<Rightarrow> bool" where
  "holds s held \<longleftrightarrow> distinct (map fst held) \<and>
     (\<forall>(p, n) \<in> set held. \<exists>m. unat n \<le> m \<and> (unat p, m) \<in> used s)"

lemma same_start: "inv s \<Longrightarrow> (p, m) \<in> used s \<Longrightarrow> (p, k) \<in> used s \<Longrightarrow> m = k"
  using used_apart [of s "(p, m)" "(p, k)"] used_pos [of s p] by (auto simp: apart_def)

lemma holds_disjoint:
  assumes "inv s" and "holds s held"
  shows "disjoint_blocks held"
  unfolding disjoint_blocks_def
proof (intro allI impI)
  fix i j assume ij: "i < length held" "j < length held" "i \<noteq> j"
  obtain p n q k where h: "held ! i = (p, n)" "held ! j = (q, k)"
    by (cases "held ! i"; cases "held ! j") simp
  have "map fst held ! i \<noteq> map fst held ! j"
    using assms(2) ij nth_eq_iff_index_eq [of "map fst held"] by (auto simp: holds_def)
  then have "p \<noteq> q" using ij h by simp
  moreover obtain m where m: "unat n \<le> m" "(unat p, m) \<in> used s"
    using assms(2) ij(1) h(1) nth_mem [OF ij(1)] by (auto simp: holds_def)
  moreover obtain l where l: "unat k \<le> l" "(unat q, l) \<in> used s"
    using assms(2) ij(2) h(2) nth_mem [OF ij(2)] by (auto simp: holds_def)
  ultimately have "apart (unat p, m) (unat q, l)"
    using used_apart [OF assms(1) m(2) l(2)] by (simp add: word_unat_eq_iff)
  then show "apart (span (held ! i)) (span (held ! j))"
    using m(1) l(1) h by (auto simp: span_def intro: apart_shrink)
qed

lemma holds_alloc:
  assumes "inv s" and "inv s'" and "holds s held" and "unat n \<le> m" and "(unat p, m) \<notin> used s"
    and "used s' = insert (unat p, m) (used s)"
  shows "holds s' (held @ [(p, n)])"
proof -
  have "(p, k) \<notin> set held" for k
  proof
    assume "(p, k) \<in> set held"
    then obtain l where "(unat p, l) \<in> used s" using assms(3) by (auto simp: holds_def)
    then have "(unat p, l) \<in> used s'" "(unat p, m) \<in> used s'" "l \<noteq> m" using assms(5,6) by auto
    then show False using same_start [OF assms(2)] by blast
  qed
  then have "p \<notin> fst ` set held" by force
  then show ?thesis using assms(3,4,6) by (fastforce simp: holds_def)
qed

text \<open>A run of allocations only.\<close>

lemma gets_ok:
  assumes "inv s" and "holds s held" and "\<forall>n \<in> set ns. n \<noteq> 0"
    and "req_bytes cost (map Get ns) \<le> bytes_left s" and "length ns \<le> allocs_left s"
  shows "\<exists>held' s'. heap_run alloc free (map Get ns) held s = Some (held', s') \<and> inv s' \<and> holds s' held' \<and>
    map snd held' = map snd held @ ns"
  using assms
proof (induction ns arbitrary: held s)
  case Nil
  then show ?case by simp
next
  case (Cons n ns)
  then obtain p s1 m where a: "alloc n s = Some (p, s1)" "inv s1" "unat n \<le> m" "(unat p, m) \<notin> used s"
    "used s1 = insert (unat p, m) (used s)" "bytes_left s - cost (unat n) \<le> bytes_left s1"
    "allocs_left s - 1 \<le> allocs_left s1"
    using alloc_ok [OF Cons.prems(1), of n] by auto
  have "holds s1 (held @ [(p, n)])"
    using holds_alloc [OF Cons.prems(1) a(2) Cons.prems(2) a(3-5)] .
  moreover have "req_bytes cost (map Get ns) \<le> bytes_left s1" "length ns \<le> allocs_left s1"
    using Cons.prems(4,5) a(6,7) by simp_all
  ultimately show ?case using Cons.IH [OF a(2), of "held @ [(p, n)]"] Cons.prems(3) a(1) by simp
qed

lemma gets_disjoint:
  assumes "inv s" and "\<forall>n \<in> set ns. n \<noteq> 0" and "req_bytes cost (map Get ns) \<le> bytes_left s" and "length ns \<le> allocs_left s"
  shows "\<exists>held s'. heap_run alloc free (map Get ns) [] s = Some (held, s') \<and> inv s' \<and> map snd held = ns \<and> disjoint_blocks held"
  using gets_ok [of s "[]" ns free] assms holds_disjoint by (auto simp: holds_def)

end

locale heap_allocator = allocator inv used bytes_left allocs_left cost alloc
  for inv :: "'s \<Rightarrow> bool" and used bytes_left allocs_left cost alloc +
  fixes free :: "addr \<Rightarrow> 's \<Rightarrow> 's option"
  assumes free_ok: "inv s \<Longrightarrow> (unat p, m) \<in> used s \<Longrightarrow>
      \<exists>s'. free p s = Some s' \<and> inv s' \<and> used s' = used s - {(unat p, m)} \<and>
        bytes_left s \<le> bytes_left s' \<and> allocs_left s \<le> allocs_left s'"
begin

lemma holds_free:
  assumes "inv s" and "holds s held" and "i < length held" and "held ! i = (p, n)"
    and "used s' = used s - {(unat p, m)}"
  shows "holds s' (take i held @ drop (Suc i) held)"
proof -
  have split: "held = take i held @ (p, n) # drop (Suc i) held"
    using id_take_nth_drop [OF assms(3)] assms(4) by simp
  define ys zs where "ys = take i held" and "zs = drop (Suc i) held"
  have "distinct (map fst (ys @ (p, n) # zs))"
    using assms(2) split by (simp add: holds_def ys_def zs_def)
  then have "distinct (map fst (ys @ zs))" and np: "p \<notin> fst ` set (ys @ zs)" by auto
  then have d: "distinct (map fst (take i held @ drop (Suc i) held))" by (simp add: ys_def zs_def)
  have ne: "q \<noteq> p" if "(q, k) \<in> set (take i held @ drop (Suc i) held)" for q k
  proof
    assume "q = p"
    with that have "(p, k) \<in> set (ys @ zs)" by (simp add: ys_def zs_def)
    then have "fst (p, k) \<in> fst ` set (ys @ zs)" by (rule imageI)
    then show False using np by simp
  qed
  have "\<forall>(q, k) \<in> set (take i held @ drop (Suc i) held). \<exists>l. unat k \<le> l \<and> (unat q, l) \<in> used s'"
  proof
    fix x assume x: "x \<in> set (take i held @ drop (Suc i) held)"
    obtain q k where q: "x = (q, k)" by (cases x)
    have "x \<in> set held" using x split by (metis Un_iff list.set_intros(2) set_append)
    then obtain l where "unat k \<le> l" "(unat q, l) \<in> used s" using assms(2) q by (auto simp: holds_def)
    moreover have "q \<noteq> p" using ne x q by blast
    then have "unat q \<noteq> unat p" by (simp add: word_unat_eq_iff)
    ultimately show "case x of (q, k) \<Rightarrow> \<exists>l. unat k \<le> l \<and> (unat q, l) \<in> used s'"
      using assms(5) q by auto
  qed
  with d show ?thesis by (simp add: holds_def)
qed

text \<open>Every sane run within the limits succeeds, and the blocks held never overlap.\<close>

lemma run_ok:
  assumes "inv s" and "holds s held" and "sane_reqs (length held) rs"
    and "req_bytes cost rs \<le> bytes_left s" and "req_allocs rs \<le> allocs_left s"
  shows "\<exists>held' s'. heap_run alloc free rs held s = Some (held', s') \<and> inv s' \<and> holds s' held'"
  using assms
proof (induction rs arbitrary: held s)
  case Nil
  then show ?case by simp
next
  case (Cons r rs)
  show ?case
  proof (cases r)
    case (Get n)
    then obtain p s1 m where a: "alloc n s = Some (p, s1)" "inv s1" "unat n \<le> m" "(unat p, m) \<notin> used s"
      "used s1 = insert (unat p, m) (used s)" "bytes_left s - cost (unat n) \<le> bytes_left s1"
      "allocs_left s - 1 \<le> allocs_left s1"
      using alloc_ok [OF Cons.prems(1), of n] Cons.prems by auto
    have "holds s1 (held @ [(p, n)])"
      using holds_alloc [OF Cons.prems(1) a(2) Cons.prems(2) a(3-5)] .
    moreover have "sane_reqs (length (held @ [(p, n)])) rs" using Cons.prems(3) Get by simp
    moreover have "req_bytes cost rs \<le> bytes_left s1" "req_allocs rs \<le> allocs_left s1"
      using Cons.prems(4,5) a(6,7) Get by simp_all
    ultimately show ?thesis using Cons.IH [OF a(2)] a(1) Get by auto
  next
    case (Put i)
    then have i: "i < length held" using Cons.prems(3) by simp
    obtain p n where h: "held ! i = (p, n)" by (cases "held ! i")
    then obtain m where "(unat p, m) \<in> used s"
      using Cons.prems(2) nth_mem [OF i] by (auto simp: holds_def)
    then obtain s1 where f: "free p s = Some s1" "inv s1" "used s1 = used s - {(unat p, m)}"
      "bytes_left s \<le> bytes_left s1" "allocs_left s \<le> allocs_left s1"
      using free_ok [OF Cons.prems(1)] by blast
    let ?held = "take i held @ drop (Suc i) held"
    have "holds s1 ?held" by (rule holds_free [OF Cons.prems(1,2) i h f(3)])
    moreover have "length ?held = length held - 1" using i by simp
    then have "sane_reqs (length ?held) rs" using Cons.prems(3) Put by simp
    moreover have "req_bytes cost rs \<le> bytes_left s1" "req_allocs rs \<le> allocs_left s1"
      using Cons.prems(4,5) f(4,5) Put by simp_all
    ultimately show ?thesis using Cons.IH [OF f(2)] f(1) Put i h by auto
  qed
qed

lemma run_disjoint:
  assumes "inv s" and "sane_reqs 0 rs" and "req_bytes cost rs \<le> bytes_left s" and "req_allocs rs \<le> allocs_left s"
  shows "\<exists>held s'. heap_run alloc free rs [] s = Some (held, s') \<and> inv s' \<and> disjoint_blocks held"
  using run_ok [of s "[]" rs] assms holds_disjoint by (auto simp: holds_def)

end

end
