(* ===== verification/KList.thy ===== *)
theory KList
  imports Links Heaps
begin

text \<open>
  The linked lists of \<^verbatim>\<open>module/dthelper/list.c\<close>, plain and round (a round list's last node leads back
  to its first). Every function takes the allocator it calls as an argument; \<open>ls_heap\<close> is the state
  of that allocator. Memory that was given back holds no node any more, so that a read through a
  pointer to it is \<open>None\<close>.
\<close>

record list_node =
  n_prev :: addr
  n_next :: addr
  n_data :: addr

record list_t =
  l_rnd :: bool
  l_head :: addr
  l_tail :: addr
  l_elements :: u32

record 'h lstate =
  ls_nodes :: "list_node store"
  ls_lists :: "list_t store"
  ls_heap :: 'h

type_synonym 'h alloc_fn = "u32 \<Rightarrow> 'h \<Rightarrow> (addr \<times> 'h) option"
type_synonym 'h free_fn = "addr \<Rightarrow> 'h \<Rightarrow> 'h option"

definition on_node :: "addr \<Rightarrow> (list_node \<Rightarrow> list_node) \<Rightarrow> 'h lstate \<Rightarrow> 'h lstate option" where
  "on_node p f s = do { m \<leftarrow> modify (ls_nodes s) p f; Some (s\<lparr>ls_nodes := m\<rparr>) }"

definition on_list :: "addr \<Rightarrow> (list_t \<Rightarrow> list_t) \<Rightarrow> 'h lstate \<Rightarrow> 'h lstate option" where
  "on_list p f s = do { m \<leftarrow> modify (ls_lists s) p f; Some (s\<lparr>ls_lists := m\<rparr>) }"

definition list_allocator :: "'h alloc_fn \<Rightarrow> bool \<Rightarrow> 'h lstate \<Rightarrow> (addr \<times> 'h lstate) option" where
  "list_allocator alloc r s = do {
     (l, h) \<leftarrow> alloc 16 (ls_heap s);
     let s1 = s\<lparr>ls_heap := h\<rparr>;
     if l = 0 then Some (0, s1)
     else
       Some (l, s1\<lparr>ls_lists := (ls_lists s1)(l \<mapsto> \<lparr>l_rnd = r, l_head = 0, l_tail = 0, l_elements = 0\<rparr>)\<rparr>) }"

definition new_list :: "'h alloc_fn \<Rightarrow> 'h lstate \<Rightarrow> (addr \<times> 'h lstate) option" where
  "new_list alloc s = list_allocator alloc False s"

definition new_round_list :: "'h alloc_fn \<Rightarrow> 'h lstate \<Rightarrow> (addr \<times> 'h lstate) option" where
  "new_round_list alloc s = list_allocator alloc True s"

text \<open>\<^verbatim>\<open>kalloc(sizeof(list_node_t))\<close> and the \<^verbatim>\<open>memset\<close> after it; the result 0 is a failed allocation.\<close>

definition new_node :: "'h alloc_fn \<Rightarrow> 'h lstate \<Rightarrow> (addr \<times> 'h lstate) option" where
  "new_node alloc s = do {
     (n, h) \<leftarrow> alloc 12 (ls_heap s);
     let s1 = s\<lparr>ls_heap := h\<rparr>;
     if n = 0 then Some (0, s1)
     else Some (n, s1\<lparr>ls_nodes := (ls_nodes s1)(n \<mapsto> \<lparr>n_prev = 0, n_next = 0, n_data = 0\<rparr>)\<rparr>) }"

definition free_node :: "'h free_fn \<Rightarrow> addr \<Rightarrow> 'h lstate \<Rightarrow> 'h lstate option" where
  "free_node free n s = do {
     h \<leftarrow> free n (ls_heap s);
     Some (s\<lparr>ls_heap := h, ls_nodes := (ls_nodes s)(n := None)\<rparr>) }"

definition free_list :: "'h free_fn \<Rightarrow> addr \<Rightarrow> 'h lstate \<Rightarrow> 'h lstate option" where
  "free_list free l s = do {
     h \<leftarrow> free l (ls_heap s);
     Some (s\<lparr>ls_heap := h, ls_lists := (ls_lists s)(l := None)\<rparr>) }"

partial_function (option) delete_loop :: "'h free_fn \<Rightarrow> addr \<Rightarrow> addr \<Rightarrow> 'h lstate \<Rightarrow> 'h lstate option" where
  "delete_loop free l node s =
     (if node = 0 then Some s
      else do {
        s1 \<leftarrow> free_node free node s;
        L \<leftarrow> load (ls_lists s1) l;
        if node = l_tail L then Some s1
        else do { n \<leftarrow> load (ls_nodes s1) node; delete_loop free l (n_next n) s1 } })"

definition delete_list :: "'h free_fn \<Rightarrow> addr \<Rightarrow> 'h lstate \<Rightarrow> 'h lstate option" where
  "delete_list free l s =
     (if l = 0 then Some s
      else do {
        L \<leftarrow> load (ls_lists s) l;
        if l_head L = l_tail L \<and> l_head L = 0 then free_list free l s
        else do {
          s1 \<leftarrow> delete_loop free l (l_head L) s;
          free_list free l s1 } })"

definition list_push :: "'h alloc_fn \<Rightarrow> addr \<Rightarrow> addr \<Rightarrow> 'h lstate \<Rightarrow> (int \<times> 'h lstate) option" where
  "list_push alloc l d s =
     (if l = 0 then Some (-1, s)
      else do {
        (node, s1) \<leftarrow> new_node alloc s;
        if node = 0 then Some (-2, s1)
        else do {
          L \<leftarrow> load (ls_lists s1) l;
          if l_elements L = 0 then do {
            s2 \<leftarrow> on_list l (\<lambda>L. L\<lparr>l_head := node, l_tail := node\<rparr>) s1;
            s3 \<leftarrow> (if l_rnd L then on_node node (\<lambda>n. n\<lparr>n_next := node, n_prev := node\<rparr>) s2 else Some s2);
            s4 \<leftarrow> on_node node (\<lambda>n. n\<lparr>n_data := d\<rparr>) s3;
            s5 \<leftarrow> on_list l (\<lambda>L. L\<lparr>l_elements := l_elements L + 1\<rparr>) s4;
            Some (0, s5) }
          else do {
            s2 \<leftarrow> on_node node (\<lambda>n. n\<lparr>n_prev := l_tail L\<rparr>) s1;
            s3 \<leftarrow> on_node (l_tail L) (\<lambda>n. n\<lparr>n_next := node\<rparr>) s2;
            s4 \<leftarrow> on_list l (\<lambda>L. L\<lparr>l_tail := node\<rparr>) s3;
            s5 \<leftarrow> (if l_rnd L then on_node node (\<lambda>n. n\<lparr>n_next := l_head L\<rparr>) s4 else Some s4);
            s6 \<leftarrow> on_node node (\<lambda>n. n\<lparr>n_data := d\<rparr>) s5;
            s7 \<leftarrow> on_list l (\<lambda>L. L\<lparr>l_elements := l_elements L + 1\<rparr>) s6;
            Some (sint (l_elements L), s7) } } })"

fun seek_loop :: "list_node store \<Rightarrow> nat \<Rightarrow> addr \<Rightarrow> addr option" where
  "seek_loop m 0 node = Some node"
| "seek_loop m (Suc i) node =
     (if node = 0 then Some 0 else do { n \<leftarrow> load m node; seek_loop m i (n_next n) })"

text \<open>\<^verbatim>\<open>_seek_node\<close>; the remainder by an element count of 0 traps.\<close>

definition seek_node :: "addr \<Rightarrow> u32 \<Rightarrow> 'h lstate \<Rightarrow> addr option" where
  "seek_node l i s = do {
     L \<leftarrow> load (ls_lists s) l;
     i1 \<leftarrow> (if l_elements L < i \<and> l_rnd L
            then if l_elements L = 0 then None else Some (i mod l_elements L)
            else Some i);
     if l_elements L < i1 then Some 0 else seek_loop (ls_nodes s) (unat i1) (l_head L) }"

definition list_insert :: "'h alloc_fn \<Rightarrow> addr \<Rightarrow> addr \<Rightarrow> u32 \<Rightarrow> 'h lstate \<Rightarrow> (int \<times> 'h lstate) option" where
  "list_insert alloc l d i s =
     (if l = 0 then Some (-1, s)
      else do {
        (node, s1) \<leftarrow> new_node alloc s;
        if node = 0 then Some (-2, s1)
        else do {
          dp \<leftarrow> seek_node l i s1;
          if dp = 0 then list_push alloc l d s1
          else do {
            dn \<leftarrow> load (ls_nodes s1) dp;
            s2 \<leftarrow> on_node node (\<lambda>n. n\<lparr>n_next := dp, n_prev := n_prev dn\<rparr>) s1;
            s3 \<leftarrow> on_node dp (\<lambda>n. n\<lparr>n_prev := node\<rparr>) s2;
            nn \<leftarrow> load (ls_nodes s3) node;
            s4 \<leftarrow> (if n_prev nn \<noteq> 0 then on_node (n_prev nn) (\<lambda>n. n\<lparr>n_next := node\<rparr>) s3 else Some s3);
            s5 \<leftarrow> on_list l (\<lambda>L. if l_head L = dp then L\<lparr>l_head := node\<rparr> else L) s4;
            s6 \<leftarrow> on_node node (\<lambda>n. n\<lparr>n_data := d\<rparr>) s5;
            L \<leftarrow> load (ls_lists s6) l;
            s7 \<leftarrow> on_list l (\<lambda>L. L\<lparr>l_elements := l_elements L + 1\<rparr>) s6;
            Some (sint (l_elements L), s7) } } })"

definition list_at :: "addr \<Rightarrow> u32 \<Rightarrow> 'h lstate \<Rightarrow> addr option" where
  "list_at l i s =
     (if l = 0 then Some 0
      else do {
        node \<leftarrow> seek_node l i s;
        if node = 0 then Some 0 else do { n \<leftarrow> load (ls_nodes s) node; Some (n_data n) } })"

definition list_get :: "addr \<Rightarrow> u32 \<Rightarrow> 'h lstate \<Rightarrow> addr option" where
  "list_get l i s = (if l = 0 then Some 0 else seek_node l i s)"

partial_function (option) find_loop :: "list_node store \<Rightarrow> addr \<Rightarrow> addr \<Rightarrow> int \<Rightarrow> int option" where
  "find_loop m d node i =
     (if node = 0 then Some (-1)
      else do {
        n \<leftarrow> load m node;
        if n_data n = d then Some i else find_loop m d (n_next n) (i + 1) })"

definition list_find :: "addr \<Rightarrow> addr \<Rightarrow> 'h lstate \<Rightarrow> int option" where
  "list_find l d s =
     (if l = 0 then Some 0
      else do { L \<leftarrow> load (ls_lists s) l; find_loop (ls_nodes s) d (l_head L) 0 })"

definition list_delete :: "'h free_fn \<Rightarrow> addr \<Rightarrow> u32 \<Rightarrow> 'h lstate \<Rightarrow> 'h lstate option" where
  "list_delete free l i s =
     (if l = 0 then Some s
      else if sint i = -1 then Some s
      else do {
        L \<leftarrow> load (ls_lists s) l;
        node \<leftarrow> seek_loop (ls_nodes s) (unat i) (l_head L);
        if node = 0 then Some s
        else do {
          n \<leftarrow> load (ls_nodes s) node;
          s1 \<leftarrow> (if n_prev n \<noteq> 0 then on_node (n_prev n) (\<lambda>m. m\<lparr>n_next := n_next n\<rparr>) s else Some s);
          n1 \<leftarrow> load (ls_nodes s1) node;
          s2 \<leftarrow> (if n_next n1 \<noteq> 0 then on_node (n_next n1) (\<lambda>m. m\<lparr>n_prev := n_prev n1\<rparr>) s1 else Some s1);
          free_node free node s2 } })"

definition list_remove :: "'h free_fn \<Rightarrow> addr \<Rightarrow> addr \<Rightarrow> 'h lstate \<Rightarrow> 'h lstate option" where
  "list_remove free l d s =
     (if l = 0 then Some s
      else do { i \<leftarrow> list_find l d s; list_delete free l (word_of_int i) s })"

end
