(* ===== verification/Kheap.thy ===== *)
theory Kheap
  imports Links
begin

text \<open>
  The kernel heap, \<^verbatim>\<open>module/heap/main.c\<close>: a doubly linked list of bin headers, kept in pages of
  their own, that describes the blocks of the area from \<open>BIN_START\<close> up; a second, singly linked
  list holds the headers no longer in use. The calls of \<^verbatim>\<open>virtual_allocator\<close> are recorded in
  \<open>vreqs\<close>, in order. \<^verbatim>\<open>heap_lock\<close> makes each operation atomic, so an operation is one function of
  the heap's state.

  First the code, then its meaning: \<open>heap_links\<close> describes the two lists, \<open>heap_rep\<close> the blocks a
  heap stands for, and \<open>alloc_step\<close> what an allocation may do to them.
\<close>

datatype vm_req = Allocpg addr u32 | Allocpgs addr u32 u32

record bin =
  b_addr :: addr
  b_taken :: bool
  b_size :: "31 word"
  b_prev :: addr
  b_next :: addr

record kheap =
  bins :: "bin store"
  bin_tail :: addr
  bin_head :: addr
  bin_hiaddr :: addr
  empty_head :: addr
  vreqs :: "vm_req list"

definition BIN_START :: addr where
  "BIN_START = 0xE1000000"

definition zero_bin :: bin where
  "zero_bin = \<lparr>b_addr = 0, b_taken = False, b_size = 0, b_prev = 0, b_next = 0\<rparr>"

abbreviation bin_at :: "kheap \<Rightarrow> addr \<Rightarrow> bin option" where
  "bin_at s p \<equiv> load (bins s) p"

definition on_bin :: "addr \<Rightarrow> (bin \<Rightarrow> bin) \<Rightarrow> kheap \<Rightarrow> kheap option" where
  "on_bin p f s = do { m \<leftarrow> modify (bins s) p f; Some (s\<lparr>bins := m\<rparr>) }"

definition vrequest :: "vm_req \<Rightarrow> kheap \<Rightarrow> kheap" where
  "vrequest r s = s\<lparr>vreqs := vreqs s @ [r]\<rparr>"

text \<open>The size of a header is 16 bytes, so \<^verbatim>\<open>bin_hiaddr + 1\<close> is 16 bytes further.\<close>

definition find_free_bin :: "kheap \<Rightarrow> (addr \<times> kheap) option" where
  "find_free_bin s =
     (if empty_head s \<noteq> 0 then do {
        let bin = empty_head s;
        b \<leftarrow> bin_at s bin;
        Some (bin, s\<lparr>empty_head := b_next b\<rparr>) }
      else
        let s1 = s\<lparr>bin_hiaddr := bin_hiaddr s + 16\<rparr>;
            s2 = vrequest (Allocpgs (bin_hiaddr s1) 0x2000 3) s1
        in Some (bin_hiaddr s2, s2\<lparr>bins := (bins s2)(bin_hiaddr s2 \<mapsto> zero_bin)\<rparr>))"

definition add_bin :: "addr \<Rightarrow> addr \<Rightarrow> u32 \<Rightarrow> kheap \<Rightarrow> (addr \<times> kheap) option" where
  "add_bin parent a sz s =
     (if parent = 0 then Some (0, s)
      else if a < BIN_START then Some (0, s)
      else if sz = 0 then Some (0, s)
      else do {
        (newbin, s1) \<leftarrow> find_free_bin s;
        s2 \<leftarrow> on_bin newbin (\<lambda>b. zero_bin) s1;
        pb \<leftarrow> bin_at s2 parent;
        s3 \<leftarrow> on_bin newbin (\<lambda>b. b\<lparr>b_next := b_next pb, b_prev := parent\<rparr>) s2;
        nb \<leftarrow> bin_at s3 newbin;
        s4 \<leftarrow> (if b_next nb \<noteq> 0 then on_bin (b_next nb) (\<lambda>b. b\<lparr>b_prev := newbin\<rparr>) s3 else Some s3);
        s5 \<leftarrow> on_bin parent (\<lambda>b. b\<lparr>b_next := newbin\<rparr>) s4;
        let s6 = (if parent = bin_tail s5 then s5\<lparr>bin_tail := newbin\<rparr> else s5);
        s7 \<leftarrow> on_bin newbin (\<lambda>b. b\<lparr>b_size := ucast sz, b_addr := a\<rparr>) s6;
        Some (newbin, vrequest (Allocpgs a (sz + 0x1000) 3) s7) })"

partial_function (option) last_empty :: "bin store \<Rightarrow> addr \<Rightarrow> addr option" where
  "last_empty m e = do {
     b \<leftarrow> load m e;
     if b_next b \<noteq> 0 then last_empty m (b_next b) else Some e }"

definition remove_bin :: "addr \<Rightarrow> kheap \<Rightarrow> kheap option" where
  "remove_bin bin s = do {
     b \<leftarrow> bin_at s bin;
     s1 \<leftarrow> (if b_next b \<noteq> 0 then on_bin (b_next b) (\<lambda>n. n\<lparr>b_prev := b_prev b\<rparr>) s else Some s);
     b1 \<leftarrow> bin_at s1 bin;
     s2 \<leftarrow> (if b_prev b1 \<noteq> 0 then on_bin (b_prev b1) (\<lambda>n. n\<lparr>b_next := b_next b1\<rparr>) s1 else Some s1);
     if bin_head s2 = bin_tail s2 \<and> bin_head s2 = bin then Some s2
     else do {
       b2 \<leftarrow> bin_at s2 bin;
       let s3 = (if bin_head s2 = bin then s2\<lparr>bin_head := b_next b2\<rparr> else s2);
       let s4 = (if bin_tail s3 = bin then s3\<lparr>bin_tail := b_prev b2\<rparr> else s3);
       s5 \<leftarrow> on_bin bin (\<lambda>n. n\<lparr>b_next := 0, b_prev := 0\<rparr>) s4;
       if empty_head s5 \<noteq> 0 then do {
         e \<leftarrow> last_empty (bins s5) (empty_head s5);
         s6 \<leftarrow> on_bin e (\<lambda>n. n\<lparr>b_next := bin\<rparr>) s5;
         on_bin bin (\<lambda>n. n\<lparr>b_prev := e\<rparr>) s6 }
       else Some (s5\<lparr>empty_head := bin\<rparr>) } }"

definition append_bin :: "u32 \<Rightarrow> kheap \<Rightarrow> (addr \<times> kheap) option" where
  "append_bin sz s = do {
     t \<leftarrow> bin_at s (bin_tail s);
     add_bin (bin_tail s) (b_addr t + ucast (b_size t)) sz s }"

text \<open>The two halves of the body of the loop of \<^verbatim>\<open>merge_bin\<close>; the flag is \<^verbatim>\<open>merged\<close>.\<close>

definition merge_next :: "addr \<Rightarrow> kheap \<Rightarrow> (bool \<times> kheap) option" where
  "merge_next mergee s = do {
     b \<leftarrow> bin_at s mergee;
     if b_next b \<noteq> 0 then do {
       n \<leftarrow> bin_at s (b_next b);
       if \<not> b_taken b \<and> \<not> b_taken n then do {
         s1 \<leftarrow> on_bin mergee (\<lambda>c. c\<lparr>b_size := b_size c + b_size n\<rparr>) s;
         s2 \<leftarrow> remove_bin (b_next b) s1;
         Some (True, s2) }
       else Some (False, s) }
     else Some (False, s) }"

definition merge_prev :: "addr \<Rightarrow> kheap \<Rightarrow> (bool \<times> kheap) option" where
  "merge_prev mergee s = do {
     b \<leftarrow> bin_at s mergee;
     if b_prev b \<noteq> 0 then do {
       n \<leftarrow> bin_at s (b_prev b);
       if \<not> b_taken b \<and> \<not> b_taken n then do {
         s1 \<leftarrow> on_bin mergee (\<lambda>c. c\<lparr>b_size := b_size c + b_size n, b_addr := b_addr n\<rparr>) s;
         s2 \<leftarrow> remove_bin (b_prev b) s1;
         Some (True, s2) }
       else Some (False, s) }
     else Some (False, s) }"

partial_function (option) merge_bin :: "addr \<Rightarrow> kheap \<Rightarrow> (addr \<times> kheap) option" where
  "merge_bin mergee s = do {
     (m1, s1) \<leftarrow> merge_next mergee s;
     (m2, s2) \<leftarrow> merge_prev mergee s1;
     if m1 \<or> m2 then merge_bin mergee s2 else Some (mergee, s2) }"

definition split_bin :: "addr \<Rightarrow> u32 \<Rightarrow> kheap \<Rightarrow> kheap option" where
  "split_bin bin sz s = do {
     b \<leftarrow> bin_at s bin;
     if ucast (b_size b) = sz then Some s
     else do {
       let sdif = ucast (b_size b) - sz;
       let naddr = b_addr b + sz;
       (q, s1) \<leftarrow> add_bin bin naddr sdif s;
       on_bin bin (\<lambda>c. c\<lparr>b_size := ucast sz\<rparr>) s1 } }"

partial_function (option) best_fit_loop :: "bin store \<Rightarrow> u32 \<Rightarrow> addr \<Rightarrow> addr \<Rightarrow> addr option" where
  "best_fit_loop m sz bin best =
     (if bin = 0 then Some best
      else do {
        b \<leftarrow> load m bin;
        if b_taken b then best_fit_loop m sz (b_next b) best
        else if (ucast (b_size b) :: u32) < sz then best_fit_loop m sz (b_next b) best
        else if best = 0 then best_fit_loop m sz (b_next b) bin
        else do {
          let sdif = ucast (b_size b) - sz;
          bb \<leftarrow> load m best;
          if sdif < ucast (b_size bb) - sz then best_fit_loop m sz (b_next b) bin
          else best_fit_loop m sz (b_next b) best } })"

definition find_best_fit :: "u32 \<Rightarrow> kheap \<Rightarrow> addr option" where
  "find_best_fit sz s = best_fit_loop (bins s) sz (bin_head s) 0"

text \<open>The search of \<^verbatim>\<open>kalloc_a\<close>; a remainder by an alignment of 0 traps.\<close>

partial_function (option) aligned_fit_loop ::
    "bin store \<Rightarrow> u32 \<Rightarrow> u32 \<Rightarrow> u32 \<Rightarrow> addr \<Rightarrow> addr \<Rightarrow> addr option" where
  "aligned_fit_loop m sz rsize a bin best =
     (if bin = 0 then Some best
      else do {
        b \<leftarrow> load m bin;
        if b_taken b then aligned_fit_loop m sz rsize a (b_next b) best
        else if a = 0 then None
        else if best = 0 \<and> b_addr b mod a = 0 \<and> rsize \<le> ucast (b_size b)
        then aligned_fit_loop m sz rsize a (b_next b) bin
        else if b_addr b mod a = 0 \<and> rsize \<le> ucast (b_size b) then do {
          let sdif = (ucast (b_size b) - sz :: u32);
          bb \<leftarrow> load m best;
          if sint (ucast (b_size bb) - sz :: u32) > sint sdif
          then aligned_fit_loop m sz rsize a (b_next b) bin
          else aligned_fit_loop m sz rsize a (b_next b) best }
        else aligned_fit_loop m sz rsize a (b_next b) best })"

definition kalloc_a :: "u32 \<Rightarrow> u32 \<Rightarrow> kheap \<Rightarrow> (addr \<times> kheap) option" where
  "kalloc_a sz a s =
     (if sz = 0 then Some (0, s)
      else if a mod 16 \<noteq> 0 then Some (0, s)
      else do {
        let rsize = (sz + 15) div 16 * 16;
        best \<leftarrow> aligned_fit_loop (bins s) sz rsize a (bin_head s) 0;
        (bestbin, s1) \<leftarrow>
          (if best = 0 then do {
             t \<leftarrow> bin_at s (bin_tail s);
             (alidif, s2) \<leftarrow>
               (if a = 0 then None
                else if b_taken t then
                  (let r = (b_addr t + ucast (b_size t)) mod a in Some (if a - r \<noteq> a then a - r else 0, s))
                else do {
                  s3 \<leftarrow> on_bin (bin_tail s) (\<lambda>c. c\<lparr>b_size := ucast (a - b_addr c mod a)\<rparr>) s;
                  t3 \<leftarrow> bin_at s3 (bin_tail s3);
                  Some (0, vrequest (Allocpgs (b_addr t3) (ucast (b_size t3)) 3) s3) });
             (q, s4) \<leftarrow> append_bin alidif s2;
             append_bin rsize s4 }
           else Some (best, s));
        s5 \<leftarrow> split_bin bestbin rsize s1;
        s6 \<leftarrow> on_bin bestbin (\<lambda>c. c\<lparr>b_taken := True\<rparr>) s5;
        b \<leftarrow> bin_at s6 bestbin;
        Some (b_addr b, s6) })"

definition kalloc :: "u32 \<Rightarrow> kheap \<Rightarrow> (addr \<times> kheap) option" where
  "kalloc sz s =
     (if sz = 0 then Some (0, s)
      else do {
        let rsize = (sz + 15) div 16 * 16;
        best \<leftarrow> find_best_fit rsize s;
        (bestbin, s1) \<leftarrow>
          (if best = 0 then do {
             t \<leftarrow> bin_at s (bin_tail s);
             if b_taken t then append_bin rsize s
             else do {
               s2 \<leftarrow> on_bin (bin_tail s) (\<lambda>c. c\<lparr>b_size := ucast rsize\<rparr>) s;
               Some (bin_tail s, vrequest (Allocpgs (b_addr t) (rsize + 1) 3) s2) } }
           else Some (best, s));
        s3 \<leftarrow> split_bin bestbin rsize s1;
        s4 \<leftarrow> on_bin bestbin (\<lambda>c. c\<lparr>b_taken := True\<rparr>) s3;
        b \<leftarrow> bin_at s4 bestbin;
        Some (b_addr b, s4) })"

partial_function (option) kfree_loop :: "addr \<Rightarrow> addr \<Rightarrow> kheap \<Rightarrow> kheap option" where
  "kfree_loop p bin s =
     (if bin = 0 then Some s
      else do {
        b \<leftarrow> bin_at s bin;
        if b_addr b = p then do {
          s1 \<leftarrow> on_bin bin (\<lambda>c. c\<lparr>b_taken := False\<rparr>) s;
          (m, s2) \<leftarrow> merge_bin bin s1;
          Some s2 }
        else kfree_loop p (b_next b) s })"

definition kfree :: "addr \<Rightarrow> kheap \<Rightarrow> kheap option" where
  "kfree p s = kfree_loop p (bin_head s) s"

text \<open>\<open>next_pg\<close> is \<^verbatim>\<open>krnl_next_free_pg\<close>, a variable of the kernel proper.\<close>

definition heap_init :: "addr \<Rightarrow> kheap" where
  "heap_init next_pg =
     \<lparr>bins = [next_pg \<mapsto> zero_bin\<lparr>b_addr := BIN_START, b_size := 0x1000\<rparr>],
      bin_tail = next_pg, bin_head = next_pg, bin_hiaddr = next_pg, empty_head = 0,
      vreqs = [Allocpg next_pg 3, Allocpg BIN_START 3]\<rparr>"

end
