(* ===== verification/Kheap_Links.thy ===== *)
theory Kheap_Links
  imports Kheap
begin

text \<open>
  The two lists of the kernel heap. \<open>heap_links s xs es\<close> says that \<open>xs\<close> are the headers in use, linked both
  ways from \<^verbatim>\<open>bin_head\<close> to \<^verbatim>\<open>bin_tail\<close>, and \<open>es\<close> the unused ones, linked from \<^verbatim>\<open>empty_head\<close>. Adding a
  header after another (\<open>add_bin_links\<close>) and taking one out (\<open>remove_bin_links\<close>) keep it so, and change
  no other header's block (\<open>blk\<close>).
\<close>

interpretation bl: linked b_next b_prev "\<lambda>v b. b\<lparr>b_next := v\<rparr>" "\<lambda>v b. b\<lparr>b_prev := v\<rparr>"
  by unfold_locales simp_all

type_synonym block = "nat \<times> nat \<times> bool"

definition blk :: "kheap \<Rightarrow> addr \<Rightarrow> block" where
  "blk s x = (case bins s x of None \<Rightarrow> (0, 0, False)
     | Some b \<Rightarrow> (unat (b_addr b), unat (b_size b), b_taken b))"

definition heap_links :: "kheap \<Rightarrow> addr list \<Rightarrow> addr list \<Rightarrow> bool" where
  "heap_links s xs es \<longleftrightarrow>
     xs \<noteq> [] \<and> distinct (xs @ es) \<and>
     dll b_next b_prev (bins s) 0 xs 0 \<and> chain b_next (bins s) (empty_head s) es 0 \<and>
     bin_head s = hd xs \<and> bin_tail s = last xs \<and> (\<forall>x \<in> set (xs @ es). x \<le> bin_hiaddr s)"

lemma on_bin_Some [opt_simps]:
  "on_bin p f s = Some s' \<longleftrightarrow> (\<exists>b. bin_at s p = Some b \<and> s' = s\<lparr>bins := (bins s)(p \<mapsto> f b)\<rparr>)"
  by (auto simp: on_bin_def opt_simps)

lemma on_bin_in [simp]: "bin_at s p = Some b \<Longrightarrow> on_bin p f s = Some (s\<lparr>bins := (bins s)(p \<mapsto> f b)\<rparr>)"
  by (simp add: on_bin_def)

lemma chain_nonnull: "chain nx m p xs z \<Longrightarrow> 0 \<notin> set xs"
  by (induction xs arbitrary: p) (auto simp: opt_simps)

lemma heap_links_node: "heap_links s xs es \<Longrightarrow> x \<in> set xs \<Longrightarrow> \<exists>b. bin_at s x = Some b"
  by (auto simp: heap_links_def dest: dll_nodes)

lemma vrequest_sel [simp]:
  "bins (vrequest r s) = bins s" "bin_head (vrequest r s) = bin_head s" "bin_tail (vrequest r s) = bin_tail s"
  "empty_head (vrequest r s) = empty_head s" "bin_hiaddr (vrequest r s) = bin_hiaddr s"
  "blk (vrequest r s) = blk s"
  by (simp_all add: vrequest_def blk_def fun_eq_iff)

lemma heap_links_vrequest [simp]: "heap_links (vrequest r s) xs es = heap_links s xs es"
  by (simp add: heap_links_def)

text \<open>Changing the block a header describes leaves the lists as they are.\<close>

lemma heap_links_on_bin:
  assumes "heap_links s xs es" and "x \<in> set xs" and "bin_at s x = Some b"
    and "b_next b' = b_next b" "b_prev b' = b_prev b"
  shows "heap_links (s\<lparr>bins := (bins s)(x \<mapsto> b')\<rparr>) xs es"
proof -
  have x0: "x \<noteq> 0" and xe: "x \<notin> set es" using assms by (auto simp: opt_simps heap_links_def)
  have "dll b_next b_prev ((bins s)(x \<mapsto> b')) 0 xs 0"
    by (rule dll_cong [where m = "bins s"]) (use assms x0 in \<open>auto simp: heap_links_def opt_simps\<close>)
  with assms xe show ?thesis by (auto simp: heap_links_def intro: chain_frame)
qed

text \<open>A header for a new block: one from the list of unused ones, or the next one above all others.\<close>

lemma find_free_bin_links:
  assumes "heap_links s xs es" and "unat (bin_hiaddr s) + 16 < 2 ^ 32"
  shows "\<exists>q s1 es1 bq. find_free_bin s = Some (q, s1) \<and> q \<noteq> 0 \<and> q \<notin> set (xs @ es1) \<and> heap_links s1 xs es1 \<and>
    bins s1 q = Some bq \<and> q \<le> bin_hiaddr s1 \<and>
    (\<forall>x \<in> set xs. bins s1 x = bins s x) \<and> unat (bin_hiaddr s1) \<le> unat (bin_hiaddr s) + 16 \<and>
    bin_tail s1 = bin_tail s"
proof (cases es)
  case Nil
  then have e0: "empty_head s = 0" using assms by (simp add: heap_links_def)
  let ?q = "bin_hiaddr s + 16"
  have hi: "unat ?q = unat (bin_hiaddr s) + 16" using assms(2) by (simp add: unat_word_ariths)
  have fresh: "?q \<notin> set xs"
  proof
    assume "?q \<in> set xs"
    then have "?q \<le> bin_hiaddr s" using assms(1) by (auto simp: heap_links_def)
    then show False using hi by (simp add: word_le_nat_alt)
  qed
  have le: "x \<le> ?q" if "x \<in> set xs" for x
    using assms(1) that hi by (force simp: heap_links_def word_le_nat_alt)
  have q0: "?q \<noteq> 0" using hi by auto
  let ?s1 = "(vrequest (Allocpgs ?q 0x2000 3) (s\<lparr>bin_hiaddr := ?q\<rparr>))\<lparr>bins := (bins s)(?q \<mapsto> zero_bin)\<rparr>"
  have f: "find_free_bin s = Some (?q, ?s1)" using e0 by (simp add: find_free_bin_def Let_def vrequest_def)
  have "dll b_next b_prev ((bins s)(?q \<mapsto> zero_bin)) 0 xs 0"
    using assms(1) fresh by (auto simp: heap_links_def intro: dll_frame)
  then have "heap_links ?s1 xs []"
    using assms(1) e0 le by (simp add: heap_links_def)
  moreover have "\<forall>x \<in> set xs. bins ?s1 x = bins s x" using fresh by auto
  ultimately show ?thesis using f q0 fresh hi
    by (intro exI [of _ ?q] exI [of _ ?s1] exI [of _ "[]"] exI [of _ zero_bin]) simp
next
  case (Cons e es1)
  then obtain b where b: "empty_head s = e" "bin_at s e = Some b" "chain b_next (bins s) (b_next b) es1 0"
    using assms by (auto simp: heap_links_def)
  then have "e \<noteq> 0" by (simp add: opt_simps)
  with b Cons assms show ?thesis
    by (intro exI [of _ e] exI [of _ "s\<lparr>empty_head := b_next b\<rparr>"] exI [of _ es1] exI [of _ b])
      (auto simp: find_free_bin_def heap_links_def opt_simps)
qed

lemma blk_eq: "bins s' x = bins s x \<Longrightarrow> blk s' x = blk s x"
  by (simp add: blk_def)

lemma blk_bin: "bins s x = Some b \<Longrightarrow> blk s x = (unat (b_addr b), unat (b_size b), b_taken b)"
  by (simp add: blk_def)

lemma add_bin_links:
  assumes "heap_links s (us @ p # vs) es" and "unat (bin_hiaddr s) + 16 < 2 ^ 32"
    and "BIN_START \<le> a" and "sz \<noteq> 0"
  shows "\<exists>q s' es'. add_bin p a sz s = Some (q, s') \<and> heap_links s' (us @ p # q # vs) es' \<and>
    blk s' q = (unat a, unat (ucast sz :: 31 word), False) \<and>
    (\<forall>x \<in> set (us @ p # vs). blk s' x = blk s x) \<and> unat (bin_hiaddr s') \<le> unat (bin_hiaddr s) + 16"
proof -
  obtain q s1 es1 bq where f: "find_free_bin s = Some (q, s1)" "q \<noteq> 0" "q \<notin> set ((us @ p # vs) @ es1)"
    "heap_links s1 (us @ p # vs) es1" "bins s1 q = Some bq" "q \<le> bin_hiaddr s1"
    "\<forall>x \<in> set (us @ p # vs). bins s1 x = bins s x"
    "unat (bin_hiaddr s1) \<le> unat (bin_hiaddr s) + 16" "bin_tail s1 = bin_tail s"
    using find_free_bin_links [OF assms(1,2)] by blast
  have d: "distinct (us @ p # q # vs)" and dl: "dll b_next b_prev (bins s1) 0 (us @ p # vs) 0"
    and ds: "distinct (us @ p # vs)" and ch: "chain b_next (bins s1) (empty_head s1) es1 0"
    using f(3,4) by (auto simp: heap_links_def)
  then have p0: "p \<noteq> 0" and pq: "p \<noteq> q" by (auto dest: dll_nonnull)
  obtain pb where pb: "bins s1 p = Some pb" "b_next pb = hd (vs @ [0])"
    using dl by (auto simp: dll_append opt_simps)
  define bn where "bn = zero_bin\<lparr>b_next := b_next pb, b_prev := p, b_size := ucast sz, b_addr := a\<rparr>"
  define vfix where "vfix m = (case vs of [] \<Rightarrow> m | v # vs' \<Rightarrow> m(v \<mapsto> (the (m v))\<lparr>b_prev := q\<rparr>))" for m :: "bin store"
  define m' where "m' = (vfix (bins s1))(p \<mapsto> pb\<lparr>b_next := q\<rparr>, q \<mapsto> bn)"
  define s' where "s' = vrequest (Allocpgs a (sz + 0x1000) 3)
    (if p = bin_tail s1 then s1\<lparr>bin_tail := q, bins := m'\<rparr> else s1\<lparr>bins := m'\<rparr>)"
  have vn: "\<exists>vb. bins s1 v = Some vb \<and> b_prev vb = p \<and> v \<noteq> 0 \<and> v \<noteq> p \<and> v \<noteq> q \<and> m' v = Some (vb\<lparr>b_prev := q\<rparr>)"
    if "vs = v # vs'" for v vs'
    using dl d that by (auto simp: dll_append opt_simps m'_def vfix_def)
  have run: "add_bin p a sz s = Some (q, s')"
  proof (cases vs)
    case Nil
    with pb f(1,2,5) p0 pq assms(3,4) show ?thesis
      by (auto simp: add_bin_def load_def m'_def s'_def bn_def vfix_def zero_bin_def fun_upd_twist)
  next
    case (Cons v vs')
    with vn [OF Cons] pb f(1,2,5) p0 pq assms(3,4) show ?thesis
      by (auto simp: add_bin_def load_def m'_def s'_def bn_def vfix_def zero_bin_def fun_upd_twist)
  qed
  have dl': "dll b_next b_prev m' 0 (us @ p # q # vs) 0"
  proof (rule bl.insert_after [OF dl d f(2)])
    show "m' q = Some bn" "b_next bn = hd (vs @ [0])" "b_prev bn = p"
      using pb by (simp_all add: m'_def bn_def)
    show "load (bins s1) p = Some pb" "load m' p = Some (pb\<lparr>b_next := q\<rparr>)"
      "b_next (pb\<lparr>b_next := q\<rparr>) = q" "b_prev (pb\<lparr>b_next := q\<rparr>) = b_prev pb"
      using pb pq p0 by (simp_all add: load_def m'_def)
    show "m' y = bins s1 y" if "y \<noteq> p" "y \<noteq> q" "y \<notin> set (take 1 vs)" for y
      using that by (auto simp: m'_def vfix_def split: list.split)
    show "\<exists>n n'. bins s1 y = Some n \<and> m' y = Some n' \<and> b_next n' = b_next n \<and> b_prev n' = q"
      if "vs = y # ys'" for y ys' using vn [OF that] by auto
  qed
  have other: "m' x = bins s1 x" if "x \<in> set es1" for x
    using that f(3,4) by (auto simp: m'_def vfix_def heap_links_def split: list.split)
  have "chain b_next m' (empty_head s1) es1 0"
    using ch by (rule chain_cong) (auto simp: load_def other split: if_splits)
  then have hl: "heap_links s' (us @ p # q # vs) es1"
    using dl' f(3,4,6) d by (auto simp: heap_links_def s'_def hd_append)
  have bq: "blk s' q = (unat a, unat (ucast sz :: 31 word), False)"
    by (simp add: s'_def blk_def m'_def bn_def zero_bin_def)
  have same: "blk s' x = blk s x" if "x \<in> set (us @ p # vs)" for x
  proof -
    have xq: "x \<noteq> q" using that f(3) by auto
    have "blk s1 x = blk s x" using f(7) that by (auto intro: blk_eq)
    moreover have "blk s' x = blk s1 x"
    proof (cases "x = p \<or> (\<exists>vs'. vs = x # vs')")
      case True
      then show ?thesis
      proof
        assume "x = p"
        then show ?thesis using pb pq by (simp add: s'_def blk_def m'_def)
      next
        assume "\<exists>vs'. vs = x # vs'"
        then obtain vs' where "vs = x # vs'" by blast
        from vn [OF this] show ?thesis by (auto simp: s'_def blk_def)
      qed
    next
      case False
      with xq have "m' x = bins s1 x" by (auto simp: m'_def vfix_def split: list.split)
      then show ?thesis by (auto simp: s'_def intro: blk_eq)
    qed
    ultimately show ?thesis by simp
  qed
  have "bin_hiaddr s' = bin_hiaddr s1" by (simp add: s'_def)
  with run hl bq same f(8) show ?thesis
    by (intro exI [of _ q] exI [of _ s'] exI [of _ es1]) simp
qed

lemma last_empty_chain: "chain b_next m e (es @ [l]) 0 \<Longrightarrow> last_empty m e = Some l"
proof (induction es arbitrary: e)
  case Nil
  then show ?case by (subst last_empty.simps) (auto simp: opt_simps)
next
  case (Cons x es)
  then obtain b where b: "e = x" "load m x = Some b" "chain b_next m (b_next b) (es @ [l]) 0" by auto
  from chain_start [OF b(3)] chain_nonnull [OF b(3)] have "b_next b \<noteq> 0" by (cases es) auto
  with b Cons.IH [OF b(3)] show ?case by (subst last_empty.simps) simp
qed

text \<open>The store after header \<open>q\<close>, with contents \<open>b\<close>, is unlinked from its neighbours.\<close>

definition unlinked :: "bin store \<Rightarrow> addr list \<Rightarrow> addr \<Rightarrow> bin \<Rightarrow> addr list \<Rightarrow> bin store" where
  "unlinked m us q b vs = (\<lambda>x.
     if x = q then Some (b\<lparr>b_next := 0, b_prev := 0\<rparr>)
     else if us \<noteq> [] \<and> x = last us then Some ((the (m x))\<lparr>b_next := b_next b\<rparr>)
     else if vs \<noteq> [] \<and> x = hd vs then Some ((the (m x))\<lparr>b_prev := b_prev b\<rparr>)
     else m x)"

lemma unlinked_dll:
  assumes dl: "dll b_next b_prev m 0 (us @ q # vs) 0" and d: "distinct (us @ q # vs)"
    and b: "b_prev b = last (0 # us)" "b_next b = hd (vs @ [0])"
  shows "dll b_next b_prev (unlinked m us q b vs) 0 (us @ vs) 0"
proof (rule bl.take_out [OF dl d])
  show "unlinked m us q b vs y = m y" if "y \<noteq> q" "y \<notin> set (take 1 vs)" "us = [] \<or> y \<noteq> last us" for y
    using that by (cases vs) (auto simp: unlinked_def)
  have lv: "last us \<notin> set vs" "last us \<noteq> q" if ne: "us \<noteq> []"
  proof -
    obtain us' u where "us = us' @ [u]" using ne by (cases us rule: rev_cases) auto
    with d show "last us \<notin> set vs" "last us \<noteq> q" by auto
  qed
  show "\<exists>n n'. m y = Some n \<and> unlinked m us q b vs y = Some n' \<and> b_next n' = b_next n \<and> b_prev n' = last (0 # us)"
    if "vs = y # ys'" for y ys'
  proof -
    have "\<exists>n. load m y = Some n" using dll_nodes [OF dl] that by simp
    then obtain n where "m y = Some n" by (auto simp: opt_simps)
    moreover have "us \<noteq> [] \<Longrightarrow> y \<noteq> last us" "y \<noteq> q" using lv that d by auto
    ultimately show ?thesis using that b(1) by (auto simp: unlinked_def)
  qed
  show "\<exists>n n'. m (last us) = Some n \<and> unlinked m us q b vs (last us) = Some n' \<and> b_prev n' = b_prev n \<and>
      b_next n' = hd (vs @ [0])" if ne: "us \<noteq> []"
  proof -
    have "\<exists>n. load m (last us) = Some n" using dll_nodes [OF dl] ne by simp
    then show ?thesis using ne lv b(2) by (auto simp: unlinked_def opt_simps)
  qed
qed

lemma unlinked_other: "x \<noteq> q \<Longrightarrow> x \<notin> set us \<Longrightarrow> x \<notin> set vs \<Longrightarrow> unlinked m us q b vs x = m x"
  by (auto simp: unlinked_def dest: last_in_set)

lemma unlinked_payload:
  assumes "m x = Some n" and "x \<noteq> q"
  shows "\<exists>n'. unlinked m us q b vs x = Some n' \<and> b_addr n' = b_addr n \<and> b_size n' = b_size n \<and> b_taken n' = b_taken n"
  using assms by (auto simp: unlinked_def)

lemma remove_bin_links:
  assumes "heap_links s (us @ q # vs) es" and "us @ vs \<noteq> []"
  shows "\<exists>s'. remove_bin q s = Some s' \<and> heap_links s' (us @ vs) (es @ [q]) \<and>
    (\<forall>x \<in> set (us @ vs). blk s' x = blk s x) \<and> bin_hiaddr s' = bin_hiaddr s"
proof -
  have d: "distinct (us @ q # vs)" and dl: "dll b_next b_prev (bins s) 0 (us @ q # vs) 0"
    and ch: "chain b_next (bins s) (empty_head s) es 0" and qe: "q \<notin> set es"
    and hdt: "bin_head s = hd (us @ q # vs)" "bin_tail s = last (us @ q # vs)"
    and ed: "distinct es" "set (us @ q # vs) \<inter> set es = {}"
    using assms by (auto simp: heap_links_def)
  obtain b where b: "bin_at s q = Some b" "b_prev b = last (0 # us)" "b_next b = hd (vs @ [0])"
    using dll_split [OF dl] by blast
  have q0: "q \<noteq> 0" "bins s q = Some b" using b(1) by (simp_all add: opt_simps)
  define m3 where "m3 = unlinked (bins s) us q b vs"
  let ?h = "if us = [] then hd vs else bin_head s" and ?t = "if vs = [] then last us else bin_tail s"
  define s5 where "s5 = s\<lparr>bins := m3, bin_head := ?h, bin_tail := ?t\<rparr>"
  define r where "r = (if empty_head s \<noteq> 0 then do {
         e \<leftarrow> last_empty (bins s5) (empty_head s);
         s6 \<leftarrow> on_bin e (\<lambda>n. n\<lparr>b_next := q\<rparr>) s5;
         on_bin q (\<lambda>n. n\<lparr>b_prev := e\<rparr>) s6 }
       else Some (s5\<lparr>empty_head := q\<rparr>))"
  have notlone: "\<not> (bin_head s = bin_tail s \<and> bin_head s = q)"
    using d assms(2) hdt by (cases us; cases vs rule: rev_cases) auto
  have "remove_bin q s = r"
  proof (cases "us = []"; cases "vs = []")
    assume c: "us = []" "vs = []"
    then show ?thesis using assms(2) by simp
  next
    assume c: "us = []" "vs \<noteq> []"
    then obtain v vs' where v: "vs = v # vs'" by (cases vs) auto
    obtain n where n: "bin_at s v = Some n" using dll_nodes [OF dl] v by fastforce
    have nq: "v \<noteq> q" "v \<noteq> 0" "q \<noteq> bin_tail s" using d v n hdt c by (auto simp: opt_simps)
    have m3e: "m3 = (bins s)(v \<mapsto> n\<lparr>b_prev := 0\<rparr>, q \<mapsto> b\<lparr>b_next := 0, b_prev := 0\<rparr>)"
      using nq n c v b by (auto simp: m3_def unlinked_def opt_simps fun_eq_iff)
    have s5e: "s5 = s\<lparr>bin_head := v, bins := m3\<rparr>"
      unfolding s5_def by (rule kheap.equality) (use c hdt v in simp_all)
    show ?thesis using m3e s5e c v n nq b q0(1) hdt notlone
      by (simp add: remove_bin_def r_def Let_def)
  next
    assume c: "us \<noteq> []" "vs = []"
    then obtain u us' where u: "us = us' @ [u]" by (cases us rule: rev_cases) auto
    obtain n where n: "bin_at s u = Some n" using dll_nodes [OF dl] u by fastforce
    have nq: "u \<noteq> q" "u \<noteq> 0" "q \<noteq> bin_head s" using d u n hdt c by (auto simp: opt_simps hd_append)
    have m3e: "m3 = (bins s)(u \<mapsto> n\<lparr>b_next := 0\<rparr>, q \<mapsto> b\<lparr>b_next := 0, b_prev := 0\<rparr>)"
      using nq n c u b by (auto simp: m3_def unlinked_def opt_simps fun_eq_iff)
    have s5e: "s5 = s\<lparr>bin_tail := u, bins := m3\<rparr>"
      unfolding s5_def by (rule kheap.equality) (use c hdt u in simp_all)
    show ?thesis using m3e s5e c u n nq b q0(1) hdt notlone
      by (simp add: remove_bin_def r_def Let_def)
  next
    assume c: "us \<noteq> []" "vs \<noteq> []"
    then obtain u us' v vs' where uv: "us = us' @ [u]" "vs = v # vs'"
      by (cases us rule: rev_cases; cases vs) auto
    obtain n where n: "bin_at s u = Some n" using dll_nodes [OF dl] uv by fastforce
    obtain nv where nv: "bin_at s v = Some nv" using dll_nodes [OF dl] uv by fastforce
    have nq: "u \<noteq> q" "u \<noteq> 0" "v \<noteq> q" "v \<noteq> 0" "u \<noteq> v" "q \<noteq> bin_head s" "q \<noteq> bin_tail s"
      using d uv n nv hdt c by (auto simp: opt_simps hd_append)
    have m3e: "m3 = (bins s)(v \<mapsto> nv\<lparr>b_prev := u\<rparr>, u \<mapsto> n\<lparr>b_next := v\<rparr>, q \<mapsto> b\<lparr>b_next := 0, b_prev := 0\<rparr>)"
      using nq n nv c uv b by (auto simp: m3_def unlinked_def opt_simps fun_eq_iff)
    have s5e: "s5 = s\<lparr>bins := m3\<rparr>"
      unfolding s5_def by (rule kheap.equality) (use c hdt uv in simp_all)
    show ?thesis using m3e s5e c uv n nv nq b q0(1) hdt notlone
      by (simp add: remove_bin_def r_def Let_def)
  qed
  then have rem: "remove_bin q s = r" .
  have dl3: "dll b_next b_prev m3 0 (us @ vs) 0" unfolding m3_def by (rule unlinked_dll) (fact dl d b)+
  have m3e: "m3 x = bins s x" if "x \<in> set es" for x
    unfolding m3_def by (rule unlinked_other) (use that ed qe in auto)
  have pay: "blk s' x = blk s x" if "x \<in> set (us @ vs)" "bins s' x = m3 x" for x s'
  proof -
    have "\<exists>n. bins s x = Some n" using dll_nodes [OF dl] that(1) by (fastforce simp: opt_simps)
    then obtain n where "bins s x = Some n" by blast
    moreover from this have "\<exists>n'. m3 x = Some n' \<and> b_addr n' = b_addr n \<and> b_size n' = b_size n \<and> b_taken n' = b_taken n"
      unfolding m3_def by (rule unlinked_payload) (use that d in auto)
    ultimately show ?thesis using that(2) by (auto simp: blk_def)
  qed
  have hl: "heap_links s' (us @ vs) (es @ [q])"
    if "dll b_next b_prev (bins s') 0 (us @ vs) 0" "chain b_next (bins s') (empty_head s') (es @ [q]) 0"
      "bin_head s' = ?h" "bin_tail s' = ?t" "bin_hiaddr s' = bin_hiaddr s" for s'
    using that assms(1,2) by (auto simp: heap_links_def hd_append)
  have m3q: "m3 q = Some (b\<lparr>b_next := 0, b_prev := 0\<rparr>)" by (simp add: m3_def unlinked_def)
  show ?thesis
  proof (cases es rule: rev_cases)
    case Nil
    let ?s' = "s5\<lparr>empty_head := q\<rparr>"
    have "empty_head s = 0" using ch Nil by simp
    then have run: "remove_bin q s = Some ?s'" using rem by (simp add: r_def)
    have bs: "bins ?s' = m3" "bin_hiaddr ?s' = bin_hiaddr s" by (simp_all add: s5_def)
    have "heap_links ?s' (us @ vs) (es @ [q])"
      by (rule hl) (use dl3 m3q q0 Nil in \<open>simp_all add: s5_def load_def\<close>)
    moreover have "\<forall>x \<in> set (us @ vs). blk ?s' x = blk s x" using pay bs by simp
    ultimately show ?thesis using run bs by blast
  next
    case (snoc es' l)
    obtain nl where nl: "load (bins s) l = Some nl" "b_next nl = 0"
      using ch snoc by (auto simp: chain_append)
    have l: "l \<noteq> q" "l \<notin> set (us @ vs)" "l \<notin> set es'" "l \<noteq> 0" "m3 l = Some nl"
      using snoc qe ed nl m3e by (auto simp: opt_simps)
    have ch3: "chain b_next m3 (empty_head s) es 0"
      using ch by (rule chain_cong) (auto simp: load_def m3e split: if_splits)
    have e0: "empty_head s \<noteq> 0" using chain_start [OF ch] chain_nonnull [OF ch] snoc
      by (cases es') auto
    let ?m5 = "m3(l \<mapsto> nl\<lparr>b_next := q\<rparr>, q \<mapsto> b\<lparr>b_next := 0, b_prev := l\<rparr>)"
    let ?s' = "s5\<lparr>bins := ?m5\<rparr>"
    have "last_empty (bins s5) (empty_head s) = Some l"
      using last_empty_chain ch3 snoc by (simp add: s5_def)
    then have run: "remove_bin q s = Some ?s'"
      using rem e0 l m3q q0 by (simp add: r_def s5_def load_def)
    have bs: "bins ?s' = ?m5" "bin_hiaddr ?s' = bin_hiaddr s" by (simp_all add: s5_def)
    have "dll b_next b_prev ?m5 0 (us @ vs) 0"
      using dl3 l d by (intro dll_frame) auto
    moreover have "chain b_next ?m5 (empty_head s) es' l"
    proof (rule chain_frame [OF chain_frame])
      show "chain b_next m3 (empty_head s) es' l" using ch3 snoc by (auto simp: chain_append)
      show "l \<notin> set es'" "q \<notin> set es'" using l qe snoc by auto
    qed
    ultimately have "heap_links ?s' (us @ vs) (es @ [q])"
      using l q0 snoc by (intro hl) (auto simp: s5_def chain_append opt_simps)
    moreover have "\<forall>x \<in> set (us @ vs). blk ?s' x = blk s x"
    proof
      fix x assume x: "x \<in> set (us @ vs)"
      then have "x \<noteq> q" "x \<noteq> l" using d l by auto
      then show "blk ?s' x = blk s x" using pay [OF x] bs by simp
    qed
    ultimately show ?thesis using run bs by blast
  qed
qed

end
