(* ===== verification/Kheap_Blocks.thy ===== *)
theory Kheap_Blocks
  imports Kheap_Links
begin

text \<open>
  The kernel heap as a list of blocks. \<open>heap_rep s bs\<close>: the blocks \<open>bs\<close> of the heap tile the area from
  \<open>BIN_START\<close> on without gaps. The lemmas say what the search, a split, an append and the merge loop do
  to the blocks; \<open>kalloc_blocks\<close> that \<open>kalloc\<close> takes one of the steps of \<open>alloc_step\<close>, the best-fit
  strategy on blocks.
\<close>

subsection \<open>Blocks\<close>

fun tiled :: "nat \<Rightarrow> block list \<Rightarrow> bool" where
  "tiled a [] \<longleftrightarrow> True"
| "tiled a ((p, n, t) # bs) \<longleftrightarrow> p = a \<and> 0 < n \<and> tiled (a + n) bs"

definition bl_size :: "block list \<Rightarrow> nat" where
  "bl_size bs = sum_list (map (\<lambda>(p, n, t). n) bs)"

definition heap_end :: "block list \<Rightarrow> nat" where
  "heap_end bs = unat BIN_START + bl_size bs"

definition live :: "block list \<Rightarrow> (nat \<times> nat) set" where
  "live bs = {(a, n). (a, n, True) \<in> set bs}"

definition heap_rep :: "kheap \<Rightarrow> block list \<Rightarrow> bool" where
  "heap_rep s bs \<longleftrightarrow> (\<exists>xs es. heap_links s xs es \<and> map (blk s) xs = bs) \<and>
     tiled (unat BIN_START) bs \<and> heap_end bs < 2 ^ 32"

definition fitting :: "nat \<Rightarrow> block list \<Rightarrow> nat set" where
  "fitting n bs = {k. \<exists>a. (a, k, False) \<in> set bs \<and> n \<le> k}"

inductive alloc_step :: "nat \<Rightarrow> block list \<Rightarrow> nat \<Rightarrow> block list \<Rightarrow> bool" for n where
  exact: "alloc_step n (us @ (a, n, False) # vs) a (us @ (a, n, True) # vs)"
| split: "bs = us @ (a, k, False) # vs \<Longrightarrow> n < k \<Longrightarrow> \<forall>j \<in> fitting n bs. k \<le> j \<Longrightarrow>
    alloc_step n bs a (us @ (a, n, True) # (a + n, k - n, False) # vs)"
| extend: "bs = us @ [(b, k, True)] \<Longrightarrow> fitting n bs = {} \<Longrightarrow> a = b + k \<Longrightarrow>
    alloc_step n bs a (bs @ [(a, n, True)])"
| grow: "bs = us @ [(a, k, False)] \<Longrightarrow> fitting n bs = {} \<Longrightarrow>
    alloc_step n bs a (us @ [(a, n, True)])"

lemma bl_size_simps [simp]: "bl_size [] = 0" "bl_size ((p, n, t) # bs) = n + bl_size bs"
  "bl_size (us @ vs) = bl_size us + bl_size vs"
  by (simp_all add: bl_size_def)

lemma tiled_append: "tiled a (us @ vs) \<longleftrightarrow> tiled a us \<and> tiled (a + bl_size us) vs"
  by (induction a us rule: tiled.induct) (auto simp: add.assoc)

lemma alloc_step_tiled:
  assumes "alloc_step n bs a bs'" and "0 < n" and "tiled e bs"
  shows "tiled e bs' \<and> bl_size bs' \<le> bl_size bs + n"
  using assms by cases (auto simp: tiled_append add.assoc)

lemma live_simps [simp]: "live [] = {}" "live (us @ vs) = live us \<union> live vs"
  "live ((a, n, True) # bs) = insert (a, n) (live bs)" "live ((a, n, False) # bs) = live bs"
  by (auto simp: live_def)

lemma alloc_step_live: "alloc_step n bs a bs' \<Longrightarrow> live bs' = insert (a, n) (live bs)"
  by (induction rule: alloc_step.induct) auto

lemma tiled_bounds: "tiled e bs \<Longrightarrow> (a, n, t) \<in> set bs \<Longrightarrow> e \<le> a \<and> 0 < n \<and> a + n \<le> e + bl_size bs"
  by (induction e bs rule: tiled.induct) fastforce+

text \<open>Blocks do not overlap.\<close>

lemma tiled_disjoint:
  "tiled e bs \<Longrightarrow> (a, n, t) \<in> set bs \<Longrightarrow> (b, m, u) \<in> set bs \<Longrightarrow>
    (a = b \<and> n = m \<and> t = u) \<or> a + n \<le> b \<or> b + m \<le> a"
proof (induction e bs rule: tiled.induct)
  case (2 e p k v bs)
  then show ?case using tiled_bounds [of "e + k" bs] by fastforce
qed simp

subsection \<open>The search\<close>

definition fits :: "bin store \<Rightarrow> nat \<Rightarrow> addr list \<Rightarrow> addr set" where
  "fits m n ys = {x \<in> set ys. \<exists>b. m x = Some b \<and> \<not> b_taken b \<and> n \<le> unat (b_size b)}"

abbreviation bsz :: "bin store \<Rightarrow> addr \<Rightarrow> nat" where
  "bsz m x \<equiv> unat (b_size (the (m x)))"

lemma u31_up [simp]: "unat (ucast v :: u32) = unat v" for v :: "31 word"
  by (simp add: unsigned_ucast_eq take_bit_nat_eq_self_iff) (use unsigned_less [of v, where 'a = nat] in simp)

lemma ucast_less_iff: "(ucast v :: u32) < w \<longleftrightarrow> unat v < unat w" for v :: "31 word"
  by (simp add: word_less_nat_alt)

lemma size_diff_less:
  "unat w \<le> unat v \<Longrightarrow> unat w \<le> unat v' \<Longrightarrow>
    (ucast v - w :: u32) < ucast v' - w \<longleftrightarrow> unat v < unat v'" for v v' :: "31 word"
  by (simp add: word_less_nat_alt unat_sub_if') arith

lemma fits_Cons: "fits m n (x # ys) =
    (if \<exists>b. m x = Some b \<and> \<not> b_taken b \<and> n \<le> unat (b_size b) then insert x (fits m n ys) else fits m n ys)"
  by (auto simp: fits_def)

lemma best_fit_loop_spec:
  assumes "chain b_next m bin ys 0" and "best = 0 \<or> (\<exists>bb. load m best = Some bb \<and> unat sz \<le> unat (b_size bb))"
  shows "\<exists>r. best_fit_loop m sz bin best = Some r \<and>
    (r = 0 \<longleftrightarrow> best = 0 \<and> fits m (unat sz) ys = {}) \<and>
    (r \<noteq> 0 \<longrightarrow> r \<in> insert best (fits m (unat sz) ys) \<and> (\<forall>c \<in> fits m (unat sz) ys. bsz m r \<le> bsz m c) \<and>
      (best \<noteq> 0 \<longrightarrow> bsz m r \<le> bsz m best))"
  using assms
proof (induction ys arbitrary: bin best)
  case Nil
  then show ?case by (subst best_fit_loop.simps) (auto simp: fits_def)
next
  case (Cons x ys)
  then obtain b where b: "bin = x" "load m x = Some b" "chain b_next m (b_next b) ys 0" by auto
  then have x0: "x \<noteq> 0" "m x = Some b" by (simp_all add: opt_simps)
  let ?n = "unat sz"
  show ?case
  proof (cases "b_taken b \<or> unat (b_size b) < ?n")
    case True
    then have "best_fit_loop m sz bin best = best_fit_loop m sz (b_next b) best"
      using b x0 by (subst best_fit_loop.simps) (auto simp: ucast_less_iff)
    moreover have "fits m ?n (x # ys) = fits m ?n ys" using True x0 by (auto simp: fits_Cons)
    ultimately show ?thesis using Cons.IH [OF b(3) Cons.prems(2)] by simp
  next
    case False
    then have f: "fits m ?n (x # ys) = insert x (fits m ?n ys)" using x0 by (simp add: fits_Cons)
    have ok: "\<exists>bb. load m x = Some bb \<and> unat sz \<le> unat (b_size bb)" using b False by simp
    show ?thesis
    proof (cases "best \<noteq> 0 \<and> bsz m best \<le> bsz m x")
      case True
      then obtain bb where bb: "load m best = Some bb" "?n \<le> unat (b_size bb)" using Cons.prems(2) by auto
      then have bm: "m best = Some bb" by (simp add: opt_simps)
      have "best_fit_loop m sz bin best = best_fit_loop m sz (b_next b) best"
        using b x0 False True bb bm
        by (subst best_fit_loop.simps) (simp add: ucast_less_iff size_diff_less)
      moreover obtain r where r: "best_fit_loop m sz (b_next b) best = Some r"
        "r \<noteq> 0" "r \<in> insert best (fits m ?n ys)" "\<forall>c \<in> fits m ?n ys. bsz m r \<le> bsz m c"
        "bsz m r \<le> bsz m best"
        using Cons.IH [OF b(3) Cons.prems(2)] True by auto
      ultimately show ?thesis using f True by (intro exI [of _ r]) auto
    next
      case skip: False
      have "best_fit_loop m sz bin best = best_fit_loop m sz (b_next b) x"
      proof (cases "best = 0")
        case True
        then show ?thesis using b x0 False by (subst best_fit_loop.simps) (auto simp: ucast_less_iff)
      next
        case nz: False
        then obtain bb where bb: "load m best = Some bb" "?n \<le> unat (b_size bb)" using Cons.prems(2) by auto
        then have "m best = Some bb" by (simp add: opt_simps)
        with b x0 False skip nz bb show ?thesis
          by (subst best_fit_loop.simps) (simp add: ucast_less_iff size_diff_less)
      qed
      moreover obtain r where r: "best_fit_loop m sz (b_next b) x = Some r"
        "r \<noteq> 0" "r \<in> insert x (fits m ?n ys)" "\<forall>c \<in> fits m ?n ys. bsz m r \<le> bsz m c" "bsz m r \<le> bsz m x"
        using Cons.IH [OF b(3) disjI2 [OF ok]] x0 by auto
      moreover have "best \<noteq> 0 \<Longrightarrow> bsz m r \<le> bsz m best" using skip r(5) by auto
      ultimately show ?thesis using f by (intro exI [of _ r]) auto
    qed
  qed
qed

lemma blk_upd [simp]: "blk (s\<lparr>bins := (bins s)(x \<mapsto> b)\<rparr>) =
    (blk s)(x := (unat (b_addr b), unat (b_size b), b_taken b))"
  by (auto simp: blk_def fun_eq_iff)

lemma blk_node: "heap_links s xs es \<Longrightarrow> x \<in> set xs \<Longrightarrow> blk s x = (a, k, t) \<Longrightarrow>
    \<exists>b. bin_at s x = Some b \<and> bins s x = Some b \<and> unat (b_addr b) = a \<and> unat (b_size b) = k \<and> b_taken b = t"
  using heap_links_node [of s xs es x] by (auto simp: blk_def opt_simps)

lemma fits_blocks:
  assumes "heap_links s xs es"
  shows "fits (bins s) n xs = {x \<in> set xs. \<exists>a k. blk s x = (a, k, False) \<and> n \<le> k}"
proof -
  have "(\<exists>b. bins s x = Some b \<and> \<not> b_taken b \<and> n \<le> unat (b_size b)) \<longleftrightarrow>
      (\<exists>a k. blk s x = (a, k, False) \<and> n \<le> k)" if "x \<in> set xs" for x
    using heap_links_node [OF assms that] by (auto simp: blk_def opt_simps)
  then show ?thesis by (auto simp: fits_def)
qed

lemma heap_links_chain: "heap_links s xs es \<Longrightarrow> chain b_next (bins s) (bin_head s) xs 0"
  using dll_chain [of b_next b_prev "bins s" 0 xs 0] by (simp add: heap_links_def)

lemma find_best_fit_blocks:
  assumes "heap_links s xs es"
  shows "\<exists>r. find_best_fit sz s = Some r \<and> (r = 0 \<longrightarrow> fitting (unat sz) (map (blk s) xs) = {}) \<and>
    (r \<noteq> 0 \<longrightarrow> (\<exists>us vs a k. xs = us @ r # vs \<and> blk s r = (a, k, False) \<and> unat sz \<le> k \<and>
      (\<forall>j \<in> fitting (unat sz) (map (blk s) xs). k \<le> j)))"
proof -
  let ?F = "fits (bins s) (unat sz) xs"
  from best_fit_loop_spec [OF heap_links_chain [OF assms] disjI1, of 0 sz] obtain r where
    r: "find_best_fit sz s = Some r" "r = 0 \<longleftrightarrow> ?F = {}"
      "r \<noteq> 0 \<longrightarrow> r \<in> insert 0 ?F \<and> (\<forall>c \<in> ?F. bsz (bins s) r \<le> bsz (bins s) c)"
    by (auto simp: find_best_fit_def)
  have mem: "j \<in> fitting (unat sz) (map (blk s) xs) \<longleftrightarrow> (\<exists>c \<in> ?F. bsz (bins s) c = j)" for j
  proof
    assume "j \<in> fitting (unat sz) (map (blk s) xs)"
    then obtain a where "(a, j, False) \<in> blk s ` set xs" "unat sz \<le> j" by (auto simp: fitting_def)
    then obtain c where c: "c \<in> set xs" "blk s c = (a, j, False)" "unat sz \<le> j" by (metis imageE)
    then have "c \<in> ?F" using assms by (auto simp: fits_blocks)
    moreover have "bsz (bins s) c = j" using blk_node [OF assms c(1,2)] by auto
    ultimately show "\<exists>c \<in> ?F. bsz (bins s) c = j" by blast
  next
    assume "\<exists>c \<in> ?F. bsz (bins s) c = j"
    then obtain c b where c: "c \<in> set xs" "bins s c = Some b" "\<not> b_taken b" "unat sz \<le> j" "unat (b_size b) = j"
      by (auto simp: fits_def)
    then have "blk s c = (unat (b_addr b), j, False)" by (simp add: blk_bin)
    then show "j \<in> fitting (unat sz) (map (blk s) xs)"
      using c(1,4) by (auto simp: fitting_def intro!: image_eqI [where x = c])
  qed
  show ?thesis
  proof (cases "r = 0")
    case True
    then have "fitting (unat sz) (map (blk s) xs) = {}" using r(2) mem by auto
    with True r(1) show ?thesis by auto
  next
    case False
    then have rF: "r \<in> ?F" using r(3) by (auto simp: fits_def opt_simps dest: heap_links_node [OF assms])
    then obtain a k where ak: "r \<in> set xs" "blk s r = (a, k, False)" "unat sz \<le> k"
      using assms by (auto simp: fits_blocks)
    have "bsz (bins s) r = k" using blk_node [OF assms ak(1,2)] by auto
    then have "\<forall>j \<in> fitting (unat sz) (map (blk s) xs). k \<le> j" using r(3) False mem by auto
    with ak False r(1) show ?thesis by (metis split_list)
  qed
qed

text \<open>Cutting a block: the header keeps the first part, a new one after it gets the rest.\<close>

lemma split_bin_blocks:
  assumes "heap_links s (us @ r # vs) es" and "blk s r = (a, k, t)" and "unat sz \<le> k"
    and "unat BIN_START \<le> a" "a + k < 2 ^ 32" and "k \<noteq> unat sz \<Longrightarrow> unat (bin_hiaddr s) + 16 < 2 ^ 32"
  shows "\<exists>s' ws es'. split_bin r sz s = Some s' \<and> heap_links s' (us @ r # ws @ vs) es' \<and>
    map (blk s') ws = (if k = unat sz then [] else [(a + unat sz, k - unat sz, False)]) \<and>
    blk s' r = (a, unat sz, t) \<and> (\<forall>x \<in> set (us @ vs). blk s' x = blk s x) \<and>
    unat (bin_hiaddr s') \<le> unat (bin_hiaddr s) + (if k = unat sz then 0 else 16)"
proof -
  obtain b where b: "bin_at s r = Some b" "bins s r = Some b" "unat (b_addr b) = a" "unat (b_size b) = k" "b_taken b = t"
    using blk_node [OF assms(1) _ assms(2)] by auto
  have eq: "ucast (b_size b) = sz \<longleftrightarrow> k = unat sz" using b(4) by (simp add: word_unat_eq_iff)
  show ?thesis
  proof (cases "k = unat sz")
    case True
    with assms b eq show ?thesis
      by (intro exI [of _ s] exI [of _ "[]"] exI [of _ es]) (simp add: split_bin_def)
  next
    case False
    let ?d = "ucast (b_size b) - sz" and ?na = "b_addr b + sz"
    have d: "unat ?d = k - unat sz" using b(4) assms(3) by (simp add: unat_sub_if')
    have k31: "k < 2147483648" using b(4) unsigned_less [of "b_size b", where 'a = nat] by simp
    have d31: "unat (ucast ?d :: 31 word) = k - unat sz"
      using d k31 by (simp add: unsigned_ucast_eq take_bit_nat_eq_self_iff)
    have na: "unat ?na = a + unat sz" using b(3) assms(3,5) by (simp add: unat_word_ariths)
    have "BIN_START \<le> ?na" using na assms(4) by (simp add: word_le_nat_alt)
    moreover have "?d \<noteq> 0" using d False assms(3) by auto
    ultimately obtain q s1 es1 where q: "add_bin r ?na ?d s = Some (q, s1)" "heap_links s1 (us @ r # q # vs) es1"
      "blk s1 q = (unat ?na, unat (ucast ?d :: 31 word), False)"
      "\<forall>x \<in> set (us @ r # vs). blk s1 x = blk s x" "unat (bin_hiaddr s1) \<le> unat (bin_hiaddr s) + 16"
      using add_bin_links [OF assms(1) assms(6) [OF False]] by blast
    obtain b1 where b1: "bin_at s1 r = Some b1" "unat (b_addr b1) = a" "b_taken b1 = t"
      using blk_node [OF q(2), of r a k t] q(4) assms(2) by auto
    let ?s' = "s1\<lparr>bins := (bins s1)(r \<mapsto> b1\<lparr>b_size := ucast sz\<rparr>)\<rparr>"
    have run: "split_bin r sz s = Some ?s'"
      using b(1) q(1) b1(1) eq False by (simp add: split_bin_def)
    have "heap_links ?s' (us @ r # q # vs) es1"
      by (rule heap_links_on_bin [OF q(2) _ b1(1)]) simp_all
    moreover have "unat (ucast sz :: 31 word) = unat sz"
      using assms(3) k31 by (simp add: unsigned_ucast_eq take_bit_nat_eq_self_iff)
    moreover have "distinct (us @ r # q # vs)" using q(2) by (auto simp: heap_links_def)
    ultimately show ?thesis using run q na d31 False b1
      by (intro exI [of _ ?s'] exI [of _ "[q]"] exI [of _ es1]) auto
  qed
qed


definition roundup16 :: "nat \<Rightarrow> nat" where
  "roundup16 n = (n + 15) div 16 * 16"

lemma roundup16_word: "unat sz + 15 < 2 ^ 32 \<Longrightarrow> unat ((sz + 15) div 16 * 16) = roundup16 (unat sz)" for sz :: u32
proof -
  assume a: "unat sz + 15 < 2 ^ 32"
  then have 1: "unat ((sz + 15) div 16) = (unat sz + 15) div 16"
    by (simp add: unat_div unat_word_ariths)
  have "(unat sz + 15) div 16 * 16 < 2 ^ 32" using a by linarith
  with 1 show ?thesis by (simp add: roundup16_def unat_word_ariths)
qed

lemma roundup16_pos: "0 < n \<Longrightarrow> 0 < roundup16 n" and roundup16_le: "n \<le> roundup16 n"
  by (auto simp: roundup16_def)

lemma append_bin_blocks:
  assumes "heap_links s (us @ [t]) es" and "blk s t = (b, k, u)" and "b + k < 2 ^ 32" and "unat BIN_START \<le> b"
    and "0 < unat sz" "unat sz < 2 ^ 31" and "unat (bin_hiaddr s) + 16 < 2 ^ 32"
  shows "\<exists>q s' es'. append_bin sz s = Some (q, s') \<and> heap_links s' (us @ [t, q]) es' \<and>
    blk s' q = (b + k, unat sz, False) \<and> (\<forall>x \<in> set (us @ [t]). blk s' x = blk s x) \<and>
    unat (bin_hiaddr s') \<le> unat (bin_hiaddr s) + 16"
proof -
  obtain tb where tb: "bin_at s t = Some tb" "unat (b_addr tb) = b" "unat (b_size tb) = k"
    using blk_node [OF assms(1) _ assms(2)] by auto
  have tl: "bin_tail s = t" using assms(1) by (simp add: heap_links_def)
  let ?na = "b_addr tb + ucast (b_size tb)"
  have na: "unat ?na = b + k" using tb assms(3) by (simp add: unat_word_ariths)
  then have "BIN_START \<le> ?na" using assms(4) by (simp add: word_le_nat_alt)
  moreover have "sz \<noteq> 0" using assms(5) by auto
  moreover have "unat (ucast sz :: 31 word) = unat sz"
    using assms(6) by (simp add: unsigned_ucast_eq take_bit_nat_eq_self_iff)
  ultimately show ?thesis
    using add_bin_links [OF assms(1,7), of ?na sz] tb tl na by (simp add: append_bin_def)
qed

text \<open>The end of an allocation: cut the block that was found, mark it, return its address.\<close>

lemma finish_alloc:
  assumes "heap_links s (us @ r # vs) es" and "blk s r = (a, k, t)" and "unat sz \<le> k"
    and "unat BIN_START \<le> a" "a + k < 2 ^ 32" and "k \<noteq> unat sz \<Longrightarrow> unat (bin_hiaddr s) + 16 < 2 ^ 32"
  shows "\<exists>p s3 s4 xs' es'. split_bin r sz s = Some s3 \<and> on_bin r (\<lambda>c. c\<lparr>b_taken := True\<rparr>) s3 = Some s4 \<and>
    (do { b \<leftarrow> bin_at s4 r; Some (b_addr b, s4) }) = Some (p, s4) \<and> unat p = a \<and>
    heap_links s4 xs' es' \<and> map (blk s4) xs' = map (blk s) us @ (a, unat sz, True) #
      (if k = unat sz then [] else [(a + unat sz, k - unat sz, False)]) @ map (blk s) vs \<and>
    unat (bin_hiaddr s4) \<le> unat (bin_hiaddr s) + (if k = unat sz then 0 else 16)"
proof -
  obtain s3 ws es' where s3: "split_bin r sz s = Some s3" "heap_links s3 (us @ r # ws @ vs) es'"
    "map (blk s3) ws = (if k = unat sz then [] else [(a + unat sz, k - unat sz, False)])"
    "blk s3 r = (a, unat sz, t)" "\<forall>x \<in> set (us @ vs). blk s3 x = blk s x"
    "unat (bin_hiaddr s3) \<le> unat (bin_hiaddr s) + (if k = unat sz then 0 else 16)"
    using split_bin_blocks [OF assms(1-5)] assms(6) by blast
  obtain b where b: "bin_at s3 r = Some b" "unat (b_addr b) = a" "unat (b_size b) = unat sz"
    using blk_node [OF s3(2) _ s3(4)] by auto
  let ?s4 = "s3\<lparr>bins := (bins s3)(r \<mapsto> b\<lparr>b_taken := True\<rparr>)\<rparr>"
  have hl: "heap_links ?s4 (us @ r # ws @ vs) es'"
    by (rule heap_links_on_bin [OF s3(2) _ b(1)]) simp_all
  have r: "r \<noteq> 0" "r \<notin> set us" "r \<notin> set ws" "r \<notin> set vs"
    using s3(2) b(1) by (auto simp: heap_links_def opt_simps)
  have "map (blk ?s4) ws = map (blk s3) ws" using r by (intro map_cong) auto
  moreover have "map (blk ?s4) us = map (blk s) us" "map (blk ?s4) vs = map (blk s) vs"
    using r s3(5) by (auto intro!: map_cong)
  ultimately have bl: "map (blk ?s4) (us @ r # ws @ vs) = map (blk s) us @ (a, unat sz, True) #
      (if k = unat sz then [] else [(a + unat sz, k - unat sz, False)]) @ map (blk s) vs"
    using s3(3) b by simp
  show ?thesis
    by (intro exI [of _ "b_addr b"] exI [of _ s3] exI [of _ ?s4] exI [of _ "us @ r # ws @ vs"]
        exI [of _ es'] conjI) (use s3 b hl bl r in simp_all)
qed


lemma kalloc_blocks:
  assumes rep: "heap_rep s bs" and sz: "0 < unat sz" and room: "heap_end bs + roundup16 (unat sz) < 2 ^ 32"
    and hdr: "unat (bin_hiaddr s) + 16 < 2 ^ 32"
  shows "\<exists>p s' bs'. kalloc sz s = Some (p, s') \<and> heap_rep s' bs' \<and>
    alloc_step (roundup16 (unat sz)) bs (unat p) bs' \<and> unat (bin_hiaddr s') \<le> unat (bin_hiaddr s) + 16"
proof -
  obtain xs es where hl: "heap_links s xs es" and bs: "map (blk s) xs = bs"
    and til: "tiled (unat BIN_START) bs"
    using rep by (auto simp: heap_rep_def)
  let ?n = "roundup16 (unat sz)" and ?r = "(sz + 15) div 16 * 16"
  have he: "heap_end bs = 3774873600 + bl_size bs" by (simp add: heap_end_def BIN_START_def)
  have n: "?n < 2 ^ 31" "unat sz \<le> ?n" "0 < ?n"
    using room sz he by (simp_all add: roundup16_pos roundup16_le)
  then have r: "unat ?r = ?n" using roundup16_word [of sz] by simp
  have n0: "0 < unat ?r" using r n by simp
  have bounds: "unat BIN_START \<le> a \<and> a + k \<le> heap_end bs" if "(a, k, t) \<in> set bs" for a k t
    using tiled_bounds [OF til that] by (simp add: heap_end_def)
  have concl: ?thesis
    if "kalloc sz s = Some (p, s')" "heap_links s' xs' es'" "map (blk s') xs' = bs'"
      "alloc_step ?n bs (unat p) bs'" "unat (bin_hiaddr s') \<le> unat (bin_hiaddr s) + 16" for p s' xs' es' bs'
  proof -
    have "tiled (unat BIN_START) bs' \<and> bl_size bs' \<le> bl_size bs + ?n"
      using alloc_step_tiled [OF that(4) n(3) til] .
    then have "heap_rep s' bs'" using room that(2,3) by (auto simp: heap_rep_def heap_end_def)
    with that(1,4,5) show ?thesis by blast
  qed
  obtain best where best: "find_best_fit ?r s = Some best" "best = 0 \<longrightarrow> fitting ?n bs = {}"
    "best \<noteq> 0 \<longrightarrow> (\<exists>us vs a k. xs = us @ best # vs \<and> blk s best = (a, k, False) \<and> ?n \<le> k \<and>
      (\<forall>j \<in> fitting ?n bs. k \<le> j))"
    using find_best_fit_blocks [OF hl, of ?r] r bs by auto
  show ?thesis
  proof (cases "best = 0")
    case False
    then obtain us vs a k where x: "xs = us @ best # vs" "blk s best = (a, k, False)" "?n \<le> k"
      "\<forall>j \<in> fitting ?n bs. k \<le> j" using best(3) by auto
    then have bse: "bs = map (blk s) us @ (a, k, False) # map (blk s) vs" using bs by auto
    then have ak: "unat BIN_START \<le> a" "a + k < 2 ^ 32" using bounds [of a k False] room by auto
    obtain p s3 s4 xs' es' where f: "split_bin best ?r s = Some s3"
      "on_bin best (\<lambda>c. c\<lparr>b_taken := True\<rparr>) s3 = Some s4"
      "(do { b \<leftarrow> bin_at s4 best; Some (b_addr b, s4) }) = Some (p, s4)" "unat p = a"
      "heap_links s4 xs' es'" "map (blk s4) xs' = map (blk s) us @ (a, unat ?r, True) #
        (if k = unat ?r then [] else [(a + unat ?r, k - unat ?r, False)]) @ map (blk s) vs"
      "unat (bin_hiaddr s4) \<le> unat (bin_hiaddr s) + (if k = unat ?r then 0 else 16)"
      using finish_alloc [OF hl [unfolded x(1)] x(2) _ ak hdr, of ?r] x(3) r by auto
    have "kalloc sz s = Some (p, s4)" using f(1-3) best(1) False sz by (auto simp: kalloc_def)
    moreover have "alloc_step ?n bs (unat p) (map (blk s4) xs')"
    proof (cases "k = ?n")
      case True
      then show ?thesis unfolding f(4,6) bse using r exact by simp
    next
      case neq: False
      then show ?thesis unfolding f(4,6) using split [OF bse _ x(4)] x(3) r by simp
    qed
    moreover have "unat (bin_hiaddr s4) \<le> unat (bin_hiaddr s) + 16" using f(7) by (simp split: if_splits)
    ultimately show ?thesis using concl f(5) by blast
  next
    case True
    then have nofit: "fitting ?n bs = {}" using best(2) by simp
    obtain us t where x: "xs = us @ [t]" using hl by (cases xs rule: rev_cases) (auto simp: heap_links_def)
    obtain a k u where t: "blk s t = (a, k, u)" by (cases "blk s t")
    then have bse: "bs = map (blk s) us @ [(a, k, u)]" using bs x by auto
    then have ak: "unat BIN_START \<le> a" "a + k \<le> heap_end bs" using bounds [of a k u] by auto
    have tl: "bin_tail s = t" using hl x by (simp add: heap_links_def)
    obtain tb where tb: "bin_at s t = Some tb" "bins s t = Some tb" "unat (b_addr tb) = a" "b_taken tb = u"
      using blk_node [OF hl _ t] x by auto
    show ?thesis
    proof (cases u)
      case True
      obtain q s1 es1 where q: "append_bin ?r s = Some (q, s1)" "heap_links s1 ((us @ [t]) @ q # []) es1"
        "blk s1 q = (a + k, unat ?r, False)" "\<forall>x \<in> set (us @ [t]). blk s1 x = blk s x"
        "unat (bin_hiaddr s1) \<le> unat (bin_hiaddr s) + 16"
        using append_bin_blocks [OF hl [unfolded x] t _ ak(1) n0 _ hdr] ak(2) room r n(1) by auto
      have ak2: "unat BIN_START \<le> a + k" "a + k + unat ?r < 2 ^ 32" using ak room r by simp_all
      obtain p s3 s4 xs' es' where f: "split_bin q ?r s1 = Some s3"
        "on_bin q (\<lambda>c. c\<lparr>b_taken := True\<rparr>) s3 = Some s4"
        "(do { b \<leftarrow> bin_at s4 q; Some (b_addr b, s4) }) = Some (p, s4)" "unat p = a + k"
        "heap_links s4 xs' es'" "map (blk s4) xs' = map (blk s1) (us @ [t]) @ [(a + k, unat ?r, True)]"
        "unat (bin_hiaddr s4) \<le> unat (bin_hiaddr s1)"
        using finish_alloc [OF q(2,3) order_refl ak2] by auto
      have "map (blk s1) (us @ [t]) = bs" unfolding bs [symmetric] x using q(4) by (intro map_cong) auto
      then have m4: "map (blk s4) xs' = bs @ [(a + k, ?n, True)]" unfolding f(6) r by (simp only:)
      have "bs = map (blk s) us @ [(a, k, True)]" using bse True by simp
      then have "alloc_step ?n bs (unat p) (map (blk s4) xs')"
        unfolding m4 f(4) by (rule extend) (use nofit in simp_all)
      moreover have "kalloc sz s = Some (p, s4)"
        using f(1-3) best(1) \<open>best = 0\<close> sz q(1) tl tb True by (auto simp: kalloc_def)
      moreover have "unat (bin_hiaddr s4) \<le> unat (bin_hiaddr s) + 16" using f(7) q(5) by simp
      ultimately show ?thesis using concl f(5) by blast
    next
      case False
      let ?s2 = "vrequest (Allocpgs (b_addr tb) (?r + 1) 3) (s\<lparr>bins := (bins s)(t \<mapsto> tb\<lparr>b_size := ucast ?r\<rparr>)\<rparr>)"
      have "heap_links (s\<lparr>bins := (bins s)(t \<mapsto> tb\<lparr>b_size := ucast ?r\<rparr>)\<rparr>) xs es"
        by (rule heap_links_on_bin [OF hl _ tb(1)]) (simp_all add: x)
      then have hl2: "heap_links ?s2 (us @ t # []) es" using x by simp
      have "unat (ucast ?r :: 31 word) = unat ?r"
        using n(1) r by (simp add: unsigned_ucast_eq take_bit_nat_eq_self_iff)
      then have t2: "blk ?s2 t = (a, unat ?r, False)" using tb False by simp
      have ak2: "a + unat ?r < 2 ^ 32" using ak room r by simp
      obtain p s3 s4 xs' es' where f: "split_bin t ?r ?s2 = Some s3"
        "on_bin t (\<lambda>c. c\<lparr>b_taken := True\<rparr>) s3 = Some s4"
        "(do { b \<leftarrow> bin_at s4 t; Some (b_addr b, s4) }) = Some (p, s4)" "unat p = a"
        "heap_links s4 xs' es'" "map (blk s4) xs' = map (blk ?s2) us @ [(a, unat ?r, True)]"
        "unat (bin_hiaddr s4) \<le> unat (bin_hiaddr s)"
        using finish_alloc [OF hl2 t2 order_refl ak(1) ak2] by auto
      have "t \<notin> set us" using hl x by (auto simp: heap_links_def)
      then have "map (blk ?s2) us = map (blk s) us" by (intro map_cong) auto
      then have m4: "map (blk s4) xs' = map (blk s) us @ [(a, ?n, True)]" unfolding f(6) r by (simp only:)
      have "bs = map (blk s) us @ [(a, k, False)]" using bse False by simp
      then have "alloc_step ?n bs (unat p) (map (blk s4) xs')"
        unfolding m4 f(4) by (rule grow) (rule nofit)
      moreover have "kalloc sz s = Some (p, s4)"
        using f(1-3) best(1) \<open>best = 0\<close> sz tl tb False by (auto simp: kalloc_def)
      ultimately show ?thesis using concl f(5,7) by fastforce
    qed
  qed
qed

subsection \<open>Freeing\<close>

text \<open>Headers of free blocks, and where a run of them that ends before address \<open>a\<close> starts.\<close>

definition frees :: "kheap \<Rightarrow> addr list \<Rightarrow> bool" where
  "frees s ys \<longleftrightarrow> (\<forall>y \<in> set ys. \<not> snd (snd (blk s y)))"

definition start :: "kheap \<Rightarrow> addr list \<Rightarrow> nat \<Rightarrow> nat" where
  "start s ys a = (case ys of [] \<Rightarrow> a | y # _ \<Rightarrow> fst (blk s y))"

abbreviation total :: "kheap \<Rightarrow> addr list \<Rightarrow> nat" where
  "total s ys \<equiv> bl_size (map (blk s) ys)"

lemma frees_simps [simp]: "frees s []" "frees s (x # ys) \<longleftrightarrow> \<not> snd (snd (blk s x)) \<and> frees s ys"
  "frees s (xs @ ys) \<longleftrightarrow> frees s xs \<and> frees s ys"
  by (auto simp: frees_def)

lemma start_simps [simp]: "start s [] a = a" "start s (x # ys) a = fst (blk s x)"
  "start s (xs @ ys) a = start s xs (start s ys a)"
  by (auto simp: start_def split: list.split)

lemma blk_cong: "\<forall>x \<in> set ys. blk s' x = blk s x \<Longrightarrow>
    total s' ys = total s ys \<and> frees s' ys = frees s ys \<and> start s' ys a = start s ys a"
  by (auto simp: frees_def start_def split: list.split intro!: arg_cong [where f = bl_size])

text \<open>One round of the loop of \<^verbatim>\<open>merge_bin\<close>: each half absorbs the neighbour on its side, if it is free.\<close>

lemma grow_bin:
  assumes "heap_links s xs es" and "q \<in> set xs" and "blk s q = (a, k, False)" and "k + j < 2 ^ 31"
    and "bin_at s q = Some b" and "b_addr b' = a'" "unat a' = c" "b_next b' = b_next b" "b_prev b' = b_prev b"
    and "b_size b' = b_size b + w" "unat w = j" "\<not> b_taken b'"
  shows "heap_links (s\<lparr>bins := (bins s)(q \<mapsto> b')\<rparr>) xs es"
    and "blk (s\<lparr>bins := (bins s)(q \<mapsto> b')\<rparr>) = (blk s)(q := (c, k + j, False))"
proof -
  show "heap_links (s\<lparr>bins := (bins s)(q \<mapsto> b')\<rparr>) xs es"
    by (rule heap_links_on_bin [OF assms(1,2,5)]) (use assms in simp_all)
  have "unat (b_size b) = k" using blk_node [OF assms(1-3)] assms(5) by auto
  then have "unat (b_size b + w) = k + j" using assms(4,11) by (simp add: unat_word_ariths)
  then show "blk (s\<lparr>bins := (bins s)(q \<mapsto> b')\<rparr>) = (blk s)(q := (c, k + j, False))"
    using assms by simp
qed

lemma merge_next_blocks:
  assumes hl: "heap_links s (us @ q # vs) es" and q: "blk s q = (a, k, False)"
    and lim: "total s (us @ q # vs) < 2 ^ 31"
  shows "\<exists>m s1 vs1 vs2 es1. merge_next q s = Some (m, s1) \<and> vs = vs1 @ vs2 \<and> (m \<longleftrightarrow> vs1 \<noteq> []) \<and>
    frees s vs1 \<and> heap_links s1 (us @ q # vs2) es1 \<and> blk s1 q = (a, k + total s vs1, False) \<and>
    (\<forall>x \<in> set (us @ vs2). blk s1 x = blk s x) \<and> bin_hiaddr s1 = bin_hiaddr s \<and>
    (\<not> m \<longrightarrow> s1 = s \<and> (vs = [] \<or> snd (snd (blk s (hd vs)))))"
proof -
  have dl: "dll b_next b_prev (bins s) 0 (us @ q # vs) 0" and d: "distinct (us @ q # vs)"
    using hl by (auto simp: heap_links_def)
  obtain b where b: "bin_at s q = Some b" "\<not> b_taken b" "unat (b_addr b) = a"
    using blk_node [OF hl _ q] by auto
  have nb: "b_next b = hd (vs @ [0])" using dll_split [OF dl] b(1) by auto
  have stop: ?thesis if "merge_next q s = Some (False, s)" "vs = [] \<or> snd (snd (blk s (hd vs)))"
    using that hl q by (intro exI [of _ False] exI [of _ s] exI [of _ "[]"] exI [of _ vs] exI [of _ es]) simp
  show ?thesis
  proof (cases vs)
    case Nil
    then show ?thesis using b nb by (intro stop) (simp_all add: merge_next_def)
  next
    case (Cons v vs')
    obtain c j t where v: "blk s v = (c, j, t)" by (cases "blk s v")
    obtain n where n: "bin_at s v = Some n" "unat (b_size n) = j" "b_taken n = t"
      using blk_node [OF hl _ v] Cons by auto
    have v0: "b_next b = v" "v \<noteq> 0" using nb Cons n by (auto simp: opt_simps)
    show ?thesis
    proof (cases t)
      case True
      then show ?thesis using b n v v0 Cons by (intro stop) (simp_all add: merge_next_def)
    next
      case False
      let ?b = "b\<lparr>b_size := b_size b + b_size n\<rparr>"
      let ?s1 = "s\<lparr>bins := (bins s)(q \<mapsto> ?b)\<rparr>"
      have "k + j < 2 ^ 31" using lim q v Cons by simp
      note g = grow_bin [OF hl _ q this b(1), of ?b "b_addr b" a "b_size n"]
      have hl1: "heap_links ?s1 ((us @ [q]) @ v # vs') es" using g(1) b n Cons by simp
      have bl1: "blk ?s1 = (blk s)(q := (a, k + j, False))" using g(2) b n by simp
      obtain s2 where s2: "remove_bin v ?s1 = Some s2" "heap_links s2 ((us @ [q]) @ vs') (es @ [v])"
        "\<forall>x \<in> set ((us @ [q]) @ vs'). blk s2 x = blk ?s1 x" "bin_hiaddr s2 = bin_hiaddr ?s1"
        using remove_bin_links [OF hl1] by auto
      have run: "merge_next q s = Some (True, s2)"
        using b n v0 False s2(1) by (simp add: merge_next_def)
      have "\<forall>x \<in> set (us @ vs'). blk s2 x = blk s x" using s2(3) bl1 d Cons by auto
      moreover have "blk s2 q = blk ?s1 q" using s2(3) by (rule bspec) simp
      then have "blk s2 q = (a, k + j, False)" by (simp only: bl1 fun_upd_same)
      ultimately show ?thesis using run s2(2,4) v False Cons
        by (intro exI [of _ True] exI [of _ s2] exI [of _ "[v]"] exI [of _ vs'] exI [of _ "es @ [v]"]) simp
    qed
  qed
qed

lemma merge_prev_blocks:
  assumes hl: "heap_links s (us @ q # vs) es" and q: "blk s q = (a, k, False)"
    and lim: "total s (us @ q # vs) < 2 ^ 31"
  shows "\<exists>m s1 us1 us2 es1. merge_prev q s = Some (m, s1) \<and> us = us1 @ us2 \<and> (m \<longleftrightarrow> us2 \<noteq> []) \<and>
    frees s us2 \<and> heap_links s1 (us1 @ q # vs) es1 \<and> blk s1 q = (start s us2 a, k + total s us2, False) \<and>
    (\<forall>x \<in> set (us1 @ vs). blk s1 x = blk s x) \<and> bin_hiaddr s1 = bin_hiaddr s \<and>
    (\<not> m \<longrightarrow> s1 = s \<and> (us = [] \<or> snd (snd (blk s (last us)))))"
proof -
  have dl: "dll b_next b_prev (bins s) 0 (us @ q # vs) 0" and d: "distinct (us @ q # vs)"
    using hl by (auto simp: heap_links_def)
  obtain b where b: "bin_at s q = Some b" "\<not> b_taken b" "unat (b_addr b) = a"
    using blk_node [OF hl _ q] by auto
  have pb: "b_prev b = last (0 # us)" using dll_split [OF dl] b(1) by auto
  have stop: ?thesis if "merge_prev q s = Some (False, s)" "us = [] \<or> snd (snd (blk s (last us)))"
    using that hl q by (intro exI [of _ False] exI [of _ s] exI [of _ us] exI [of _ "[]"] exI [of _ es]) simp
  show ?thesis
  proof (cases us rule: rev_cases)
    case Nil
    then show ?thesis using b pb by (intro stop) (simp_all add: merge_prev_def)
  next
    case (snoc us' u)
    obtain c j t where u: "blk s u = (c, j, t)" by (cases "blk s u")
    obtain n where n: "bin_at s u = Some n" "unat (b_size n) = j" "b_taken n = t" "unat (b_addr n) = c"
      using blk_node [OF hl _ u] snoc by auto
    have u0: "b_prev b = u" "u \<noteq> 0" using pb snoc n by (auto simp: opt_simps)
    show ?thesis
    proof (cases t)
      case True
      then show ?thesis using b n u u0 snoc by (intro stop) (simp_all add: merge_prev_def)
    next
      case False
      let ?b = "b\<lparr>b_size := b_size b + b_size n, b_addr := b_addr n\<rparr>"
      let ?s1 = "s\<lparr>bins := (bins s)(q \<mapsto> ?b)\<rparr>"
      have "k + j < 2 ^ 31" using lim q u snoc by simp
      note g = grow_bin [OF hl _ q this b(1), of ?b "b_addr n" c "b_size n"]
      have hl1: "heap_links ?s1 (us' @ u # q # vs) es" using g(1) b n snoc by simp
      have bl1: "blk ?s1 = (blk s)(q := (c, k + j, False))" using g(2) b n by simp
      obtain s2 where s2: "remove_bin u ?s1 = Some s2" "heap_links s2 (us' @ q # vs) (es @ [u])"
        "\<forall>x \<in> set (us' @ q # vs). blk s2 x = blk ?s1 x" "bin_hiaddr s2 = bin_hiaddr ?s1"
        using remove_bin_links [OF hl1] by auto
      have run: "merge_prev q s = Some (True, s2)"
        using b n u0 False s2(1) by (simp add: merge_prev_def)
      have "\<forall>x \<in> set (us' @ vs). blk s2 x = blk s x" using s2(3) bl1 d snoc by auto
      moreover have "blk s2 q = blk ?s1 q" using s2(3) by (rule bspec) simp
      then have "blk s2 q = (c, k + j, False)" by (simp only: bl1 fun_upd_same)
      ultimately show ?thesis using run s2(2,4) u False snoc
        by (intro exI [of _ True] exI [of _ s2] exI [of _ us'] exI [of _ "[u]"] exI [of _ "es @ [u]"]) simp
    qed
  qed
qed


text \<open>The whole loop: all free neighbours, on both sides, are absorbed.\<close>

lemma merge_bin_blocks:
  assumes "heap_links s (us @ q # vs) es" and "blk s q = (a, k, False)" and "total s (us @ q # vs) < 2 ^ 31"
  shows "\<exists>s' us1 us2 vs1 vs2 es'. merge_bin q s = Some (q, s') \<and> us = us1 @ us2 \<and> vs = vs1 @ vs2 \<and>
    frees s us2 \<and> frees s vs1 \<and> heap_links s' (us1 @ q # vs2) es' \<and>
    blk s' q = (start s us2 a, k + total s us2 + total s vs1, False) \<and>
    (\<forall>x \<in> set (us1 @ vs2). blk s' x = blk s x) \<and> bin_hiaddr s' = bin_hiaddr s \<and>
    (us1 = [] \<or> snd (snd (blk s (last us1)))) \<and> (vs2 = [] \<or> snd (snd (blk s (hd vs2))))"
  using assms
proof (induction "length us + length vs" arbitrary: s us vs es a k rule: less_induct)
  case less
  obtain m1 s1 vs1 vs2 es1 where n: "merge_next q s = Some (m1, s1)" "vs = vs1 @ vs2" "m1 \<longleftrightarrow> vs1 \<noteq> []"
    "frees s vs1" "heap_links s1 (us @ q # vs2) es1" "blk s1 q = (a, k + total s vs1, False)"
    "\<forall>x \<in> set (us @ vs2). blk s1 x = blk s x" "bin_hiaddr s1 = bin_hiaddr s"
    "\<not> m1 \<longrightarrow> s1 = s \<and> (vs = [] \<or> snd (snd (blk s (hd vs))))"
    using merge_next_blocks [OF less.prems] by blast
  have "map (blk s1) us = map (blk s) us" "map (blk s1) vs2 = map (blk s) vs2"
    using n(7) by simp_all
  then have same1: "total s1 us = total s us" "total s1 vs2 = total s vs2" by (simp_all only:)
  have tot1: "total s1 (us @ q # vs2) = total s (us @ q # vs)"
    using n(2,6) same1 less.prems(2) by simp
  have lim1: "total s1 (us @ q # vs2) < 2 ^ 31" using tot1 less.prems(3) by (simp only:)
  obtain m2 s2 us1 us2 es2 where p: "merge_prev q s1 = Some (m2, s2)" "us = us1 @ us2" "m2 \<longleftrightarrow> us2 \<noteq> []"
    "frees s1 us2" "heap_links s2 (us1 @ q # vs2) es2" "blk s2 q = (start s1 us2 a, k + total s vs1 + total s1 us2, False)"
    "\<forall>x \<in> set (us1 @ vs2). blk s2 x = blk s1 x" "bin_hiaddr s2 = bin_hiaddr s1"
    "\<not> m2 \<longrightarrow> s2 = s1 \<and> (us = [] \<or> snd (snd (blk s1 (last us))))"
    using merge_prev_blocks [OF n(5,6) lim1] by blast
  have "map (blk s2) us1 = map (blk s1) us1" "map (blk s2) vs2 = map (blk s1) vs2"
    using p(7) by simp_all
  then have same12: "total s2 us1 = total s1 us1" "total s2 vs2 = total s1 vs2" by (simp_all only:)
  have same2: "\<forall>x \<in> set (us1 @ vs2). blk s2 x = blk s x" using p(2,7) n(7) by auto
  have c2: "total s1 us2 = total s us2 \<and> frees s1 us2 = frees s us2 \<and> start s1 us2 a = start s us2 a"
    using n(7) p(2) by (intro blk_cong) auto
  show ?case
  proof (cases "m1 \<or> m2")
    case False
    then have e: "s1 = s" "s2 = s" "us2 = []" "vs1 = []" using n(3,9) p(3,9) by auto
    have "merge_bin q s = Some (q, s)" using n(1) p(1) e False by (subst merge_bin.simps) simp
    moreover have "us = [] \<or> snd (snd (blk s (last us)))" "vs = [] \<or> snd (snd (blk s (hd vs)))"
      using False n(9) p(9) e(1) by simp_all
    ultimately show ?thesis
      by (intro exI [of _ s] exI [of _ us] exI [of _ "[]"] exI [of _ "[]"] exI [of _ vs] exI [of _ es] conjI)
        (use less.prems(1,2) in simp_all)
  next
    case True
    then have run: "merge_bin q s = merge_bin q s2" using n(1) p(1) by (subst merge_bin.simps) simp
    have shorter: "length us1 + length vs2 < length us + length vs"
      using True n(2,3) p(2,3) by auto
    have "total s2 (us1 @ q # vs2) = total s (us @ q # vs)"
      using tot1 same12 p(2,6) n(6) by simp
    then have lim2: "total s2 (us1 @ q # vs2) < 2 ^ 31" using less.prems(3) by simp
    from less.hyps [OF shorter p(5,6) lim2] obtain s' us3 us4 vs3 vs4 es' where r:
      "merge_bin q s2 = Some (q, s')" "us1 = us3 @ us4" "vs2 = vs3 @ vs4" "frees s2 us4" "frees s2 vs3"
      "heap_links s' (us3 @ q # vs4) es'"
      "blk s' q = (start s2 us4 (start s1 us2 a), k + total s vs1 + total s1 us2 + total s2 us4 + total s2 vs3, False)"
      "\<forall>x \<in> set (us3 @ vs4). blk s' x = blk s2 x" "bin_hiaddr s' = bin_hiaddr s2"
      "us3 = [] \<or> snd (snd (blk s2 (last us3)))" "vs4 = [] \<or> snd (snd (blk s2 (hd vs4)))"
      by blast
    have c4: "total s2 us4 = total s us4 \<and> frees s2 us4 = frees s us4 \<and>
        start s2 us4 (start s us2 a) = start s us4 (start s us2 a)"
      using same2 r(2) by (intro blk_cong) auto
    have c3: "total s2 vs3 = total s vs3 \<and> frees s2 vs3 = frees s vs3 \<and> start s2 vs3 0 = start s vs3 0"
      using same2 r(3) by (intro blk_cong) auto
    have "us3 = [] \<or> blk s2 (last us3) = blk s (last us3)" "vs4 = [] \<or> blk s2 (hd vs4) = blk s (hd vs4)"
      using same2 r(2,3) by auto
    moreover have "\<forall>x \<in> set (us3 @ vs4). blk s' x = blk s x" using r(2,3,8) same2 by auto
    moreover have "blk s' q = (start s (us4 @ us2) a, k + total s (us4 @ us2) + total s (vs1 @ vs3), False)"
      using r(7) c2 c3 c4 by (simp add: ac_simps)
    moreover have "us3 = [] \<or> snd (snd (blk s (last us3)))" "vs4 = [] \<or> snd (snd (blk s (hd vs4)))"
      using calculation(1,2) r(10,11) by auto
    moreover have "frees s (us4 @ us2)" "frees s (vs1 @ vs3)" using r(4,5) c2 c3 c4 n(4) p(4) by simp_all
    moreover have "us = us3 @ us4 @ us2" "vs = (vs1 @ vs3) @ vs4" using n(2) p(2) r(2,3) by simp_all
    moreover have "merge_bin q s = Some (q, s')" "bin_hiaddr s' = bin_hiaddr s"
      using run r(1,9) n(8) p(8) by simp_all
    ultimately show ?thesis using r(6) by blast
  qed
qed

end
