(* ===== verification/Kheap_Safe.thy ===== *)
theory Kheap_Safe
  imports Kheap_Blocks Heaps
begin

text \<open>
  What the kernel heap promises: \<open>kfree\<close> as a step on blocks, the interpretation of the interface of
  \<open>Heaps\<close> by \<open>kalloc\<close> and \<open>kfree\<close>, aligned allocation, and the properties of the component, with the two
  faults found in it.
\<close>

text \<open>
  What freeing the block at \<open>a\<close> does: the block becomes free and takes in all free blocks that
  touch it, on both sides.
\<close>

definition all_free :: "block list \<Rightarrow> bool" where
  "all_free bs \<longleftrightarrow> (\<forall>(a, k, t) \<in> set bs. \<not> t)"

definition coalesced :: "block list \<Rightarrow> bool" where
  "coalesced bs \<longleftrightarrow> successively (\<lambda>x y. snd (snd x) \<or> snd (snd y)) bs"

inductive free_step :: "block list \<Rightarrow> nat \<Rightarrow> block list \<Rightarrow> bool" where
  "all_free us2 \<Longrightarrow> all_free vs1 \<Longrightarrow> us1 = [] \<or> snd (snd (last us1)) \<Longrightarrow> vs2 = [] \<or> snd (snd (hd vs2)) \<Longrightarrow>
    free_step (us1 @ us2 @ (a, k, t) # vs1 @ vs2) a
      (us1 @ (fst (hd (us2 @ [(a, k, t)])), bl_size us2 + k + bl_size vs1, False) # vs2)"

inductive_cases free_stepE: "free_step bs a bs'"

lemma live_all_free: "all_free bs \<Longrightarrow> live bs = {}"
  by (auto simp: all_free_def live_def)

lemma free_step_tiled: "free_step bs a bs' \<Longrightarrow> tiled e bs \<Longrightarrow> tiled e bs' \<and> bl_size bs' = bl_size bs"
proof (erule free_stepE, goal_cases)
  case (1 us2 vs1 us1 vs2 k t)
  have "fst (hd (us2 @ [(a, k, t)])) = e + bl_size us1"
    using 1 by (cases us2) (auto simp: tiled_append)
  with 1 show ?case by (auto simp: tiled_append add.assoc)
qed

lemma live_starts: "tiled e bs \<Longrightarrow> (a, n) \<in> live bs \<Longrightarrow> e \<le> a \<and> a < e + bl_size bs"
  using tiled_bounds [of e bs a n True] by (auto simp: live_def)

lemma free_step_live: "free_step bs a bs' \<Longrightarrow> tiled e bs \<Longrightarrow> live bs' = {x \<in> live bs. fst x \<noteq> a}"
proof (erule free_stepE, goal_cases)
  case (1 us2 vs1 us1 vs2 k t)
  then have tl: "tiled e us1" "tiled (e + bl_size us1) us2" "a = e + bl_size us1 + bl_size us2" "0 < k"
    "tiled (a + k + bl_size vs1) vs2" by (auto simp: tiled_append)
  have "fst x \<noteq> a" if "x \<in> live us1 \<union> live vs2" for x
    using that live_starts [OF tl(1), of "fst x" "snd x"] live_starts [OF tl(5), of "fst x" "snd x"] tl(3,4) by auto
  moreover have "live bs = live us1 \<union> live vs2 \<union> (if t then {(a, k)} else {})"
    using 1 by (cases t) (auto simp: live_all_free)
  ultimately show ?case using 1 by (auto split: if_splits)
qed

lemma free_step_coalesced: "free_step bs a bs' \<Longrightarrow> coalesced bs \<Longrightarrow> coalesced bs'"
  by (erule free_stepE) (auto simp: coalesced_def successively_append_iff successively_Cons)

lemma alloc_step_coalesced: "alloc_step n bs a bs' \<Longrightarrow> coalesced bs \<Longrightarrow> coalesced bs'"
  by (erule alloc_step.cases)
    (auto simp: coalesced_def successively_append_iff successively_Cons)

lemma frees_blocks: "frees s ys \<longleftrightarrow> all_free (map (blk s) ys)"
  by (auto simp: frees_def all_free_def split_beta)

lemma start_blocks: "start s ys a = fst (hd (map (blk s) ys @ [(a, k, t)]))"
  by (cases ys) auto

lemma kfree_loop_skip:
  "chain b_next (bins s) p (us @ q # vs) 0 \<Longrightarrow> (\<forall>x \<in> set us. fst (blk s x) \<noteq> unat a) \<Longrightarrow>
    kfree_loop a p s = kfree_loop a q s"
proof (induction us arbitrary: p)
  case (Cons x us)
  then obtain b where b: "p = x" "bin_at s x = Some b" "chain b_next (bins s) (b_next b) (us @ q # vs) 0" by auto
  then have "x \<noteq> 0" "bins s x = Some b" by (simp_all add: opt_simps)
  moreover from this have "b_addr b \<noteq> a" using Cons.prems(2) by (auto simp: blk_bin)
  ultimately show ?case using b Cons.IH [OF b(3)] Cons.prems(2) by (subst kfree_loop.simps) simp
qed simp

lemma kfree_loop_none:
  "chain b_next (bins s) p xs 0 \<Longrightarrow> (\<forall>x \<in> set xs. fst (blk s x) \<noteq> unat a) \<Longrightarrow> kfree_loop a p s = Some s"
proof (induction xs arbitrary: p)
  case Nil
  then show ?case by (subst kfree_loop.simps) simp
next
  case (Cons x xs)
  then obtain b where b: "p = x" "bin_at s x = Some b" "chain b_next (bins s) (b_next b) xs 0" by auto
  then have "x \<noteq> 0" "bins s x = Some b" by (simp_all add: opt_simps)
  moreover from this have "b_addr b \<noteq> a" using Cons.prems(2) by (auto simp: blk_bin)
  ultimately show ?case using b Cons.IH [OF b(3)] Cons.prems(2) by (subst kfree_loop.simps) simp
qed

lemma kfree_blocks:
  assumes rep: "heap_rep s bs" and mem: "(unat p, k, t) \<in> set bs"
  shows "\<exists>s' bs'. kfree p s = Some s' \<and> heap_rep s' bs' \<and> free_step bs (unat p) bs' \<and>
    bin_hiaddr s' = bin_hiaddr s"
proof -
  obtain xs es where hl: "heap_links s xs es" and bs: "map (blk s) xs = bs"
    and til: "tiled (unat BIN_START) bs" and he: "heap_end bs < 2 ^ 32"
    using rep by (auto simp: heap_rep_def)
  obtain q where "q \<in> set xs" "blk s q = (unat p, k, t)" using mem bs by force
  then obtain us vs where x: "xs = us @ q # vs" "blk s q = (unat p, k, t)" by (meson split_list)
  have other: "fst (blk s y) \<noteq> unat p" if "y \<in> set us" for y
  proof -
    have "tiled (unat BIN_START) (map (blk s) us @ (unat p, k, t) # map (blk s) vs)"
      using til bs x by auto
    then have "tiled (unat BIN_START) (map (blk s) us)" "unat p = unat BIN_START + bl_size (map (blk s) us)"
      by (auto simp: tiled_append)
    moreover obtain c n u where y: "blk s y = (c, n, u)" by (cases "blk s y")
    moreover have "(c, n, u) \<in> set (map (blk s) us)" using that y by (metis image_eqI set_map)
    ultimately show ?thesis using tiled_bounds [of "unat BIN_START" "map (blk s) us" c n u] by simp
  qed
  obtain b where b: "bin_at s q = Some b" "b_addr b = p" "unat (b_size b) = k"
    using blk_node [OF hl _ x(2)] x(1) by (auto simp: word_unat_eq_iff)
  let ?s1 = "s\<lparr>bins := (bins s)(q \<mapsto> b\<lparr>b_taken := False\<rparr>)\<rparr>"
  have hl1: "heap_links ?s1 (us @ q # vs) es"
    using heap_links_on_bin [OF hl _ b(1), of "b\<lparr>b_taken := False\<rparr>"] x by simp
  have q1: "blk ?s1 q = (unat p, k, False)" using b by simp
  have qn: "q \<notin> set us" "q \<notin> set vs" using hl x by (auto simp: heap_links_def)
  have same: "blk ?s1 y = blk s y" if "y \<in> set (us @ vs)" for y using that qn by auto
  have tot: "bl_size (map (blk ?s1) (us @ q # vs)) = bl_size bs"
  proof -
    have "map (blk ?s1) us = map (blk s) us" "map (blk ?s1) vs = map (blk s) vs" using same by auto
    then have "bl_size (map (blk ?s1) us) = bl_size (map (blk s) us)"
      "bl_size (map (blk ?s1) vs) = bl_size (map (blk s) vs)" by (simp_all only: not_False_eq_True)
    then show ?thesis using bs x q1 by auto
  qed
  have "bl_size bs < 2 ^ 31" using he by (simp add: heap_end_def BIN_START_def)
  with tot have lim: "total ?s1 (us @ q # vs) < 2 ^ 31" by (simp only:)
  obtain s' us1 us2 vs1 vs2 es' where m: "merge_bin q ?s1 = Some (q, s')" "us = us1 @ us2" "vs = vs1 @ vs2"
    "frees ?s1 us2" "frees ?s1 vs1" "heap_links s' (us1 @ q # vs2) es'"
    "blk s' q = (start ?s1 us2 (unat p), k + total ?s1 us2 + total ?s1 vs1, False)"
    "\<forall>x \<in> set (us1 @ vs2). blk s' x = blk ?s1 x" "bin_hiaddr s' = bin_hiaddr ?s1"
    "us1 = [] \<or> snd (snd (blk ?s1 (last us1)))" "vs2 = [] \<or> snd (snd (blk ?s1 (hd vs2)))"
    using merge_bin_blocks [OF hl1 q1 lim] by blast
  have run: "kfree p s = Some s'"
  proof -
    have "kfree p s = kfree_loop p q s"
      unfolding kfree_def using kfree_loop_skip heap_links_chain [OF hl] x(1) other by blast
    also have "\<dots> = Some s'" using b m(1) by (subst kfree_loop.simps) auto
    finally show ?thesis .
  qed
  have c: "map (blk ?s1) us2 = map (blk s) us2" "map (blk ?s1) vs1 = map (blk s) vs1"
    "map (blk s') us1 = map (blk s) us1" "map (blk s') vs2 = map (blk s) vs2"
    "us1 \<noteq> [] \<Longrightarrow> blk ?s1 (last us1) = blk s (last us1)" "vs2 \<noteq> [] \<Longrightarrow> blk ?s1 (hd vs2) = blk s (hd vs2)"
    using m(2,3,8) same by auto
  let ?U = "map (blk s) us2" and ?V = "map (blk s) vs1"
  have "free_step (map (blk s) us1 @ ?U @ (unat p, k, t) # ?V @ map (blk s) vs2) (unat p)
      (map (blk s) us1 @ (fst (hd (?U @ [(unat p, k, t)])), bl_size ?U + k + bl_size ?V, False) # map (blk s) vs2)"
  proof (rule free_step.intros)
    show "all_free ?U" "all_free ?V" using m(4,5) unfolding frees_blocks c(1,2) by -
    show "map (blk s) us1 = [] \<or> snd (snd (last (map (blk s) us1)))"
      using m(10) c(5) by (metis last_map list.map_disc_iff)
    show "map (blk s) vs2 = [] \<or> snd (snd (hd (map (blk s) vs2)))"
      using m(11) c(6) by (metis list.map_sel(1) list.map_disc_iff)
  qed
  moreover have "bs = map (blk s) us1 @ ?U @ (unat p, k, t) # ?V @ map (blk s) vs2"
    using bs x m(2,3) by simp
  moreover have "map (blk s') (us1 @ q # vs2) =
      map (blk s) us1 @ (fst (hd (?U @ [(unat p, k, t)])), bl_size ?U + k + bl_size ?V, False) # map (blk s) vs2"
    using m(7) unfolding c(1,2) start_blocks [of ?s1 us2 "unat p" k t] map_append list.map c(3,4)
    by (simp only: add.commute)
  ultimately have fs: "free_step bs (unat p) (map (blk s') (us1 @ q # vs2))" by (simp only:)
  then have "tiled (unat BIN_START) (map (blk s') (us1 @ q # vs2)) \<and>
      bl_size (map (blk s') (us1 @ q # vs2)) = bl_size bs"
    using til by (rule free_step_tiled)
  then have "heap_rep s' (map (blk s') (us1 @ q # vs2))"
    using m(6) he unfolding heap_rep_def heap_end_def by metis
  then show ?thesis using run fs m(9) by auto
qed

text \<open>The blocks of a heap are a function of its state: they are found by following the next fields.\<close>

partial_function (option) bin_list :: "bin store \<Rightarrow> addr \<Rightarrow> addr list option" where
  "bin_list m p = (if p = 0 then Some []
     else do { b \<leftarrow> load m p; r \<leftarrow> bin_list m (b_next b); Some (p # r) })"

definition heap_blocks :: "kheap \<Rightarrow> block list" where
  "heap_blocks s = map (blk s) (the (bin_list (bins s) (bin_head s)))"

lemma bin_list_chain: "chain b_next m p xs 0 \<Longrightarrow> bin_list m p = Some xs"
proof (induction xs arbitrary: p)
  case Nil
  then show ?case by (subst bin_list.simps) simp
next
  case (Cons x xs)
  then show ?case by (subst bin_list.simps) (auto simp: opt_simps)
qed

lemma heap_rep_blocks: "heap_rep s bs \<Longrightarrow> heap_blocks s = bs"
  by (auto simp: heap_rep_def heap_blocks_def bin_list_chain [OF heap_links_chain])

definition kheap_inv :: "kheap \<Rightarrow> bool" where
  "kheap_inv s \<longleftrightarrow> heap_rep s (heap_blocks s) \<and> coalesced (heap_blocks s)"

definition kheap_used :: "kheap \<Rightarrow> (nat \<times> nat) set" where
  "kheap_used s = live (heap_blocks s)"

definition kheap_bytes_left :: "kheap \<Rightarrow> nat" where
  "kheap_bytes_left s = 2 ^ 32 - 1 - heap_end (heap_blocks s)"

definition kheap_allocs_left :: "kheap \<Rightarrow> nat" where
  "kheap_allocs_left s = (2 ^ 32 - 1 - unat (bin_hiaddr s)) div 16"

lemma alloc_step_fresh:
  assumes "alloc_step n bs a bs'" and "tiled e bs" and "0 < n"
  shows "(a, n) \<notin> live bs"
proof -
  have t: "tiled e bs'" using alloc_step_tiled [OF assms(1,3,2)] by simp
  have "(a, k) \<notin> live bs" for k
    using assms(1)
  proof cases
    case (exact us vs)
    with assms(2) show ?thesis using live_starts [of e us a k] live_starts [of "a + n" vs a k] assms(3)
      by (auto simp: tiled_append)
  next
    case (split us m vs)
    with assms(2) show ?thesis using live_starts [of e us a k] live_starts [of "a + m" vs a k] assms(3)
      by (auto simp: tiled_append)
  next
    case (extend us b m)
    with assms(2) show ?thesis using live_starts [of e bs a k] by (auto simp: tiled_append)
  next
    case (grow us m)
    with assms(2) show ?thesis using live_starts [of e us a k] by (auto simp: tiled_append)
  qed
  then show ?thesis .
qed

interpretation kh: heap_allocator kheap_inv kheap_used kheap_bytes_left kheap_allocs_left roundup16 kalloc kfree
proof unfold_locales
  fix s x y assume i: "kheap_inv s" and "x \<in> kheap_used s" "y \<in> kheap_used s" "x \<noteq> y"
  then have "tiled (unat BIN_START) (heap_blocks s)" by (simp add: kheap_inv_def heap_rep_def)
  then show "apart x y"
    using tiled_disjoint [of _ "heap_blocks s" "fst x" "snd x" True "fst y" "snd y"] \<open>x \<in> _\<close> \<open>y \<in> _\<close> \<open>x \<noteq> y\<close>
    by (auto simp: kheap_used_def live_def apart_def prod_eq_iff)
next
  fix s p m assume i: "kheap_inv s" and u: "(p, m) \<in> kheap_used s"
  then have "tiled (unat BIN_START) (heap_blocks s)" by (simp add: kheap_inv_def heap_rep_def)
  then show "0 < p \<and> 0 < m" using tiled_bounds [of _ "heap_blocks s" p m True] u
    by (fastforce simp: kheap_used_def live_def BIN_START_def)
next
  fix s and n :: u32 assume i: "kheap_inv s" and n: "n \<noteq> 0" and c: "roundup16 (unat n) \<le> kheap_bytes_left s"
    and l: "0 < kheap_allocs_left s"
  let ?bs = "heap_blocks s"
  have rep: "heap_rep s ?bs" "coalesced ?bs" using i by (simp_all add: kheap_inv_def)
  then have til: "tiled (unat BIN_START) ?bs" and he: "heap_end ?bs < 2 ^ 32" by (simp_all add: heap_rep_def)
  have n0: "0 < unat n" using n by (simp add: unat_gt_0)
  have "heap_end ?bs + roundup16 (unat n) < 2 ^ 32" using c he by (simp add: kheap_bytes_left_def)
  moreover have "unat (bin_hiaddr s) + 16 < 2 ^ 32" using l by (simp add: kheap_allocs_left_def)
  ultimately obtain p s' bs' where k: "kalloc n s = Some (p, s')" "heap_rep s' bs'"
    "alloc_step (roundup16 (unat n)) ?bs (unat p) bs'" "unat (bin_hiaddr s') \<le> unat (bin_hiaddr s) + 16"
    using kalloc_blocks [OF rep(1) n0] by blast
  have bs': "heap_blocks s' = bs'" using heap_rep_blocks [OF k(2)] .
  have "bl_size bs' \<le> bl_size ?bs + roundup16 (unat n)"
    using alloc_step_tiled [OF k(3) roundup16_pos [OF n0] til] by simp
  then have "kheap_bytes_left s - roundup16 (unat n) \<le> kheap_bytes_left s'"
    using bs' by (simp add: kheap_bytes_left_def heap_end_def)
  moreover have "kheap_allocs_left s - 1 \<le> kheap_allocs_left s'"
    using k(4) by (simp add: kheap_allocs_left_def)
  moreover have "kheap_inv s'" using k(2) bs' alloc_step_coalesced [OF k(3) rep(2)] by (simp add: kheap_inv_def)
  moreover have "kheap_used s' = insert (unat p, roundup16 (unat n)) (kheap_used s)"
    using alloc_step_live [OF k(3)] bs' by (simp add: kheap_used_def)
  moreover have "(unat p, roundup16 (unat n)) \<notin> kheap_used s"
    using alloc_step_fresh [OF k(3) til roundup16_pos [OF n0]] by (simp add: kheap_used_def)
  ultimately show "\<exists>p s' m. kalloc n s = Some (p, s') \<and> kheap_inv s' \<and> unat n \<le> m \<and> (unat p, m) \<notin> kheap_used s \<and>
      kheap_used s' = insert (unat p, m) (kheap_used s) \<and>
      kheap_bytes_left s - roundup16 (unat n) \<le> kheap_bytes_left s' \<and> kheap_allocs_left s - 1 \<le> kheap_allocs_left s'"
    using k(1) roundup16_le by blast
next
  fix s and p :: addr and m assume i: "kheap_inv s" and u: "(unat p, m) \<in> kheap_used s"
  let ?bs = "heap_blocks s"
  have rep: "heap_rep s ?bs" "coalesced ?bs" using i by (simp_all add: kheap_inv_def)
  then have til: "tiled (unat BIN_START) ?bs" by (simp add: heap_rep_def)
  have mem: "(unat p, m, True) \<in> set ?bs" using u by (simp add: kheap_used_def live_def)
  obtain s' bs' where k: "kfree p s = Some s'" "heap_rep s' bs'" "free_step ?bs (unat p) bs'"
    "bin_hiaddr s' = bin_hiaddr s" using kfree_blocks [OF rep(1) mem] by blast
  have bs': "heap_blocks s' = bs'" using heap_rep_blocks [OF k(2)] .
  have "fst x \<noteq> unat p \<longleftrightarrow> x \<noteq> (unat p, m)" if "x \<in> live ?bs" for x
    using that mem tiled_disjoint [OF til, of "fst x" "snd x" True "unat p" m True]
      tiled_bounds [OF til mem] tiled_bounds [OF til, of "fst x" "snd x" True] by (cases x) (auto simp: live_def)
  then have "kheap_used s' = kheap_used s - {(unat p, m)}"
    using free_step_live [OF k(3) til] bs' by (auto simp: kheap_used_def)
  moreover have "kheap_inv s'" using k(2) bs' free_step_coalesced [OF k(3) rep(2)] by (simp add: kheap_inv_def)
  moreover have "kheap_bytes_left s \<le> kheap_bytes_left s'"
    using free_step_tiled [OF k(3) til] bs' by (simp add: kheap_bytes_left_def heap_end_def)
  ultimately show "\<exists>s'. kfree p s = Some s' \<and> kheap_inv s' \<and> kheap_used s' = kheap_used s - {(unat p, m)} \<and>
      kheap_bytes_left s \<le> kheap_bytes_left s' \<and> kheap_allocs_left s \<le> kheap_allocs_left s'"
    using k(1,4) by (simp add: kheap_allocs_left_def)
qed

text \<open>Blocks lie in the area of the heap.\<close>

lemma kheap_block_bounds:
  assumes "kheap_inv h" and "(p, m) \<in> kheap_used h"
  shows "0xE1000000 \<le> p" "p + m < 2 ^ 32"
proof -
  have r: "heap_rep h (heap_blocks h)" using assms(1) by (simp add: kheap_inv_def)
  then have t: "tiled (unat BIN_START) (heap_blocks h)" "heap_end (heap_blocks h) < 2 ^ 32" by (simp_all add: heap_rep_def)
  have "(p, m, True) \<in> set (heap_blocks h)" using assms(2) by (auto simp: kheap_used_def live_def)
  from tiled_bounds [OF t(1) this] t(2) show "0xE1000000 \<le> p" "p + m < 2 ^ 32" by (simp_all add: heap_end_def BIN_START_def)
qed

text \<open>Freeing an address: what starts there is free afterwards, and without a block there nothing happens.\<close>

lemma kfree_any:
  assumes "kheap_inv s"
  shows "\<exists>s'. kfree p s = Some s' \<and> kheap_inv s' \<and> kheap_used s' = {x \<in> kheap_used s. fst x \<noteq> unat p}"
proof -
  let ?bs = "heap_blocks s"
  have rep: "heap_rep s ?bs" "coalesced ?bs" using assms by (simp_all add: kheap_inv_def)
  then obtain xs es where hl: "heap_links s xs es" and bs: "map (blk s) xs = ?bs" and til: "tiled (unat BIN_START) ?bs"
    by (auto simp: heap_rep_def)
  show ?thesis
  proof (cases "unat p \<in> fst ` set ?bs")
    case True
    then obtain k t where "(unat p, k, t) \<in> set ?bs" by force
    then obtain s' bs' where k: "kfree p s = Some s'" "heap_rep s' bs'" "free_step ?bs (unat p) bs'"
      using kfree_blocks [OF rep(1)] by blast
    have "heap_blocks s' = bs'" using heap_rep_blocks [OF k(2)] .
    then show ?thesis using k free_step_live [OF k(3) til] free_step_coalesced [OF k(3) rep(2)]
      by (simp add: kheap_inv_def kheap_used_def)
  next
    case False
    then have "fst (blk s x) \<noteq> unat p" if "x \<in> set xs" for x using that unfolding bs [symmetric] by (force simp: image_iff)
    then have "kfree p s = Some s" unfolding kfree_def using kfree_loop_none [OF heap_links_chain [OF hl]] by blast
    moreover have "kheap_used s = {x \<in> kheap_used s. fst x \<noteq> unat p}"
      using False by (force simp: kheap_used_def live_def)
    ultimately show ?thesis using assms by auto
  qed
qed

lemma heap_init_rep: "np \<noteq> 0 \<Longrightarrow> heap_rep (heap_init np) [(unat BIN_START, 4096, False)]"
proof -
  assume np: "np \<noteq> 0"
  then have "heap_links (heap_init np) [np] []"
    by (simp add: heap_links_def heap_init_def zero_bin_def load_def)
  moreover have "map (blk (heap_init np)) [np] = [(unat BIN_START, 4096, False)]"
    by (simp add: heap_init_def zero_bin_def blk_def)
  ultimately show ?thesis unfolding heap_rep_def by (auto simp: heap_end_def BIN_START_def)
qed

lemma heap_init_inv: "np \<noteq> 0 \<Longrightarrow> kheap_inv (heap_init np)"
  using heap_init_rep [of np] heap_rep_blocks [OF heap_init_rep, of np]
  by (simp add: kheap_inv_def coalesced_def)

subsection \<open>Aligned allocation\<close>

definition aligned_fit :: "bin store \<Rightarrow> u32 \<Rightarrow> u32 \<Rightarrow> addr \<Rightarrow> bool" where
  "aligned_fit m rsize a x \<longleftrightarrow>
     (\<exists>b. load m x = Some b \<and> \<not> b_taken b \<and> b_addr b mod a = 0 \<and> rsize \<le> ucast (b_size b))"

lemma aligned_fit_loop_spec:
  "chain b_next m bin ys 0 \<Longrightarrow> a \<noteq> 0 \<Longrightarrow> best = 0 \<or> aligned_fit m rsize a best \<Longrightarrow>
    \<exists>r. aligned_fit_loop m sz rsize a bin best = Some r \<and>
      (r = best \<or> r \<in> set ys \<and> aligned_fit m rsize a r)"
proof (induction ys arbitrary: bin best)
  case Nil
  then show ?case by (subst aligned_fit_loop.simps) simp
next
  case (Cons x ys)
  then obtain b where b: "bin = x" "load m x = Some b" "chain b_next m (b_next b) ys 0" by auto
  have x0: "x \<noteq> 0" using b(2) by (simp add: opt_simps)
  have step: ?case if "aligned_fit_loop m sz rsize a bin best = aligned_fit_loop m sz rsize a (b_next b) best'"
    "best' = best \<or> best' = x \<and> aligned_fit m rsize a x" for best'
  proof -
    have "best' = 0 \<or> aligned_fit m rsize a best'" using that(2) Cons.prems(3) by auto
    then show ?thesis using Cons.IH [OF b(3) Cons.prems(2), of best'] that by auto
  qed
  show ?case
  proof (cases "\<not> b_taken b \<and> b_addr b mod a = 0 \<and> rsize \<le> ucast (b_size b)")
    case False
    then have "aligned_fit_loop m sz rsize a bin best = aligned_fit_loop m sz rsize a (b_next b) best"
      using b x0 Cons.prems(2) by (subst aligned_fit_loop.simps) auto
    then show ?thesis by (rule step) simp
  next
    case True
    then have fit: "aligned_fit m rsize a x" using b by (simp add: aligned_fit_def)
    show ?thesis
    proof (cases "best = 0")
      case z: True
      then have "aligned_fit_loop m sz rsize a bin best = aligned_fit_loop m sz rsize a (b_next b) x"
        using b x0 Cons.prems(2) True by (subst aligned_fit_loop.simps) simp
      then show ?thesis by (rule step) (simp add: fit)
    next
      case nz: False
      then obtain bb where bb: "load m best = Some bb" using Cons.prems(3) by (auto simp: aligned_fit_def)
      show ?thesis
      proof (cases "sint (ucast (b_size bb) - sz :: u32) > sint (ucast (b_size b) - sz :: u32)")
        case better: True
        then have "aligned_fit_loop m sz rsize a bin best = aligned_fit_loop m sz rsize a (b_next b) x"
          using b x0 Cons.prems(2) True nz bb by (subst aligned_fit_loop.simps) simp
        then show ?thesis by (rule step) (simp add: fit)
      next
        case worse: False
        then have "aligned_fit_loop m sz rsize a bin best = aligned_fit_loop m sz rsize a (b_next b) best"
          using b x0 Cons.prems(2) True nz bb by (subst aligned_fit_loop.simps) simp
        then show ?thesis by (rule step) simp
      qed
    qed
  qed
qed

lemma append_bin_zero: "bin_at s (bin_tail s) = Some t \<Longrightarrow> append_bin 0 s = Some (0, s)"
  by (simp add: append_bin_def add_bin_def)

text \<open>The distance from \<open>x\<close> up to the next multiple of \<open>a\<close>, computed with words.\<close>

definition up_to :: "u32 \<Rightarrow> u32 \<Rightarrow> u32" where
  "up_to a x = a - x mod a"

lemma up_to_nat: "a \<noteq> 0 \<Longrightarrow> unat (up_to a x) = unat a - unat x mod unat a"
proof -
  assume "a \<noteq> 0"
  then have "unat (x mod a) \<le> unat a" by (simp add: unat_mod less_imp_le unat_gt_0)
  then show ?thesis by (simp add: up_to_def unat_sub_if' unat_mod)
qed

lemma up_to_bounds: "a \<noteq> 0 \<Longrightarrow> 0 < unat (up_to a x) \<and> unat (up_to a x) \<le> unat a"
  by (simp add: up_to_nat unat_gt_0)

lemma up_to_aligned: "a \<noteq> 0 \<Longrightarrow> (unat x + unat (up_to a x)) mod unat a = 0"
proof -
  assume a: "a \<noteq> 0"
  then have "unat x mod unat a \<le> unat a" by (simp add: less_imp_le unat_gt_0)
  then have "unat x + (unat a - unat x mod unat a) = unat x div unat a * unat a + unat a"
    using div_mult_mod_eq [of "unat x" "unat a"] by arith
  then show ?thesis using a by (simp add: up_to_nat)
qed

text \<open>Appending a block that is used at once: the common end of the two ways to grow the heap.\<close>

lemma append_used:
  assumes hl: "heap_links s xs es" and last: "blk s (last xs) = (b, k, u)" and r: "unat sz < 2 ^ 31" "0 < unat sz"
    and lo: "unat BIN_START \<le> b" and hi: "b + k + unat sz < 2 ^ 32" and hdr: "unat (bin_hiaddr s) + 16 < 2 ^ 32"
  shows "\<exists>q p s1 s3 s4 xs' es'. append_bin sz s = Some (q, s1) \<and> split_bin q sz s1 = Some s3 \<and>
    on_bin q (\<lambda>c. c\<lparr>b_taken := True\<rparr>) s3 = Some s4 \<and>
    (do { b \<leftarrow> bin_at s4 q; Some (b_addr b, s4) }) = Some (p, s4) \<and> unat p = b + k \<and>
    heap_links s4 xs' es' \<and> map (blk s4) xs' = map (blk s) xs @ [(b + k, unat sz, True)] \<and>
    unat (bin_hiaddr s4) \<le> unat (bin_hiaddr s) + 16"
proof -
  obtain us t where x: "xs = us @ [t]" using hl by (cases xs rule: rev_cases) (auto simp: heap_links_def)
  then have t: "blk s t = (b, k, u)" using last by simp
  have bk: "b + k < 2 ^ 32" using hi by simp
  obtain q s1 es1 where q: "append_bin sz s = Some (q, s1)" "heap_links s1 ((us @ [t]) @ q # []) es1"
    "blk s1 q = (b + k, unat sz, False)" "\<forall>x \<in> set (us @ [t]). blk s1 x = blk s x"
    "unat (bin_hiaddr s1) \<le> unat (bin_hiaddr s) + 16"
    using append_bin_blocks [OF hl [unfolded x] t bk lo r(2,1) hdr] by auto
  have ak2: "unat BIN_START \<le> b + k" using lo by simp
  obtain p s3 s4 xs' es' where f: "split_bin q sz s1 = Some s3"
    "on_bin q (\<lambda>c. c\<lparr>b_taken := True\<rparr>) s3 = Some s4"
    "(do { b \<leftarrow> bin_at s4 q; Some (b_addr b, s4) }) = Some (p, s4)" "unat p = b + k"
    "heap_links s4 xs' es'" "map (blk s4) xs' = map (blk s1) (us @ [t]) @ [(b + k, unat sz, True)]"
    "unat (bin_hiaddr s4) \<le> unat (bin_hiaddr s1)"
    using finish_alloc [OF q(2,3) order_refl ak2 hi] by auto
  have "map (blk s1) (us @ [t]) = map (blk s) xs" unfolding x using q(4) by (intro map_cong) auto
  then have "map (blk s4) xs' = map (blk s) xs @ [(b + k, unat sz, True)]" unfolding f(6) by (simp only:)
  with q(1) f(1-5) le_trans [OF f(7) q(5)] show ?thesis by blast
qed


lemma u31_down: "n < 2 ^ 31 \<Longrightarrow> unat w = n \<Longrightarrow> unat (ucast w :: 31 word) = n" for w :: u32
  by (simp add: unsigned_ucast_eq take_bit_nat_eq_self_iff)

lemma block_fresh:
  assumes "tiled e bs"
  shows "(c, k, u) \<in> set bs \<Longrightarrow> \<not> u \<Longrightarrow> c \<le> p \<Longrightarrow> p < c + k \<Longrightarrow> 0 < n \<Longrightarrow> (p, n, True) \<notin> set bs"
    "e + bl_size bs \<le> p \<Longrightarrow> 0 < n \<Longrightarrow> (p, n, v) \<notin> set bs"
proof -
  show "(p, n, True) \<notin> set bs" if h: "(c, k, u) \<in> set bs" "\<not> u" "c \<le> p" "p < c + k" "0 < n"
    using tiled_disjoint [OF assms h(1), of p n True] h by auto
  show "(p, n, v) \<notin> set bs" if "e + bl_size bs \<le> p" "0 < n"
    using tiled_bounds [OF assms, of p n v] that by auto
qed

lemma kalloc_a_blocks:
  assumes rep: "heap_rep s bs" and sz: "0 < unat sz" and al: "a \<noteq> 0" "a mod 16 = 0"
    and room: "heap_end bs + unat a + roundup16 (unat sz) < 2 ^ 32"
    and hdr: "unat (bin_hiaddr s) + 32 < 2 ^ 32"
  shows "\<exists>p s' bs'. kalloc_a sz a s = Some (p, s') \<and> heap_rep s' bs' \<and> unat p mod unat a = 0 \<and>
    live bs' = insert (unat p, roundup16 (unat sz)) (live bs) \<and> (coalesced bs \<longrightarrow> coalesced bs') \<and>
    (unat p, roundup16 (unat sz)) \<notin> live bs \<and>
    heap_end bs' \<le> heap_end bs + unat a + roundup16 (unat sz) \<and> unat (bin_hiaddr s') \<le> unat (bin_hiaddr s) + 32"
proof -
  obtain xs es where hl: "heap_links s xs es" and bs: "map (blk s) xs = bs"
    and til: "tiled (unat BIN_START) bs"
    using rep by (auto simp: heap_rep_def)
  let ?n = "roundup16 (unat sz)" and ?r = "(sz + 15) div 16 * 16"
  have he: "heap_end bs = 3774873600 + bl_size bs" by (simp add: heap_end_def BIN_START_def)
  have n: "?n < 2 ^ 31" "unat sz \<le> ?n" "0 < ?n" and a31: "unat a < 2 ^ 31"
    using room sz he by (simp_all add: roundup16_pos roundup16_le)
  then have r: "unat ?r = ?n" using roundup16_word [of sz] by simp
  have n0: "0 < unat ?r" "unat ?r < 2 ^ 31" using r n by simp_all
  have bounds: "unat BIN_START \<le> c \<and> c + k \<le> heap_end bs" if "(c, k, t) \<in> set bs" for c k t
    using tiled_bounds [OF til that] by (simp add: heap_end_def)
  have rep': "heap_rep s' bs' \<and> heap_end bs' \<le> heap_end bs + unat a + ?n"
    if "heap_links s' xs' es'" "map (blk s') xs' = bs'" "tiled (unat BIN_START) bs'"
      "heap_end bs' \<le> heap_end bs + unat a + ?n" for s' xs' es' bs'
    using that room unfolding heap_rep_def by auto
  obtain best where best: "aligned_fit_loop (bins s) sz ?r a (bin_head s) 0 = Some best"
    "best = 0 \<or> best \<in> set xs \<and> aligned_fit (bins s) ?r a best"
    using aligned_fit_loop_spec [OF heap_links_chain [OF hl] al(1), of 0] by auto
  obtain us t where x: "xs = us @ [t]" using hl by (cases xs rule: rev_cases) (auto simp: heap_links_def)
  obtain c k u where t: "blk s t = (c, k, u)" by (cases "blk s t")
  then have bse: "bs = map (blk s) us @ [(c, k, u)]" using bs x by auto
  then have ck: "unat BIN_START \<le> c" "c + k = heap_end bs"
    using bounds [of c k u] til by (auto simp: tiled_append heap_end_def)
  have tl: "bin_tail s = t" using hl x by (simp add: heap_links_def)
  obtain tb where tb: "bin_at s t = Some tb" "bins s t = Some tb" "unat (b_addr tb) = c" "unat (b_size tb) = k"
    "b_taken tb = u" using blk_node [OF hl _ t] x by auto
  show ?thesis
  proof (cases "best = 0")
    case False
    then have "best \<in> set xs" "aligned_fit (bins s) ?r a best" using best(2) by auto
    then obtain vs ws b where v: "xs = vs @ best # ws" "bin_at s best = Some b" "\<not> b_taken b"
      "b_addr b mod a = 0" "?r \<le> ucast (b_size b)"
      unfolding aligned_fit_def by (meson split_list)
    then have bb: "bins s best = Some b" by (simp add: opt_simps)
    let ?c = "unat (b_addr b)" and ?k = "unat (b_size b)"
    have bk: "blk s best = (?c, ?k, False)" "?n \<le> ?k" using bb v(3,5) r by (simp_all add: blk_bin word_le_nat_alt)
    have bse': "bs = map (blk s) vs @ (?c, ?k, False) # map (blk s) ws" using bs v(1) bk(1) by auto
    then have lo: "unat BIN_START \<le> ?c" "?c + ?k < 2 ^ 32" using bounds [of ?c ?k False] room by auto
    have rk: "unat ?r \<le> ?k" using bk(2) r by simp
    obtain p s3 s4 xs' es' where f: "split_bin best ?r s = Some s3"
      "on_bin best (\<lambda>c. c\<lparr>b_taken := True\<rparr>) s3 = Some s4"
      "(do { b \<leftarrow> bin_at s4 best; Some (b_addr b, s4) }) = Some (p, s4)" "unat p = ?c"
      "heap_links s4 xs' es'" "map (blk s4) xs' = map (blk s) vs @ (?c, unat ?r, True) #
        (if ?k = unat ?r then [] else [(?c + unat ?r, ?k - unat ?r, False)]) @ map (blk s) ws"
      "unat (bin_hiaddr s4) \<le> unat (bin_hiaddr s) + (if ?k = unat ?r then 0 else 16)"
      using finish_alloc [OF hl [unfolded v(1)] bk(1) rk lo] hdr by auto
    have "kalloc_a sz a s = Some (p, s4)" using f(1-3) best(1) False sz al by (auto simp: kalloc_a_def)
    moreover have "heap_rep s4 (map (blk s4) xs') \<and> heap_end (map (blk s4) xs') \<le> heap_end bs + unat a + ?n"
      by (rule rep' [OF f(5) refl]) (use til n bk(2) r in \<open>auto simp: f(6) bse' tiled_append add.assoc heap_end_def\<close>)
    moreover have "unat (b_addr b mod a) = 0" using v(4) by simp
    then have "unat p mod unat a = 0" using f(4) by (simp add: unat_mod)
    moreover have "live (map (blk s4) xs') = insert (unat p, ?n) (live bs)"
      unfolding f(4,6) bse' r by simp
    moreover have "coalesced bs \<longrightarrow> coalesced (map (blk s4) xs')"
      unfolding f(6) bse' by (auto simp: coalesced_def successively_append_iff successively_Cons)
    moreover have "(?c, ?k, False) \<in> set bs" "0 < ?k" using bse' bk(2) n(3) by simp_all
    then have "(?c, ?n, True) \<notin> set bs" using block_fresh(1) [OF til, of ?c ?k False ?c ?n] n(3) by simp
    then have "(unat p, ?n) \<notin> live bs" using f(4) by (auto simp: live_def)
    moreover have "unat (bin_hiaddr s4) \<le> unat (bin_hiaddr s) + 32" using f(7) by (simp split: if_splits)
    ultimately show ?thesis by (intro exI [of _ p] exI [of _ s4] exI [of _ "map (blk s4) xs'"] conjI) (simp_all only: not_False_eq_True)
  next
    case nofit: True
    show ?thesis
    proof (cases u)
      case True
      let ?e = "b_addr tb + ucast (b_size tb)"
      have e: "unat ?e = c + k" using tb ck(2) room by (simp add: unat_word_ariths)
      show ?thesis
      proof (cases "up_to a ?e = a")
        case aligned: True
        have hi: "c + k + unat ?r < 2 ^ 32" using ck room r by simp
        have hdr': "unat (bin_hiaddr s) + 16 < 2 ^ 32" using hdr by simp
        have lt: "blk s (last xs) = (c, k, u)" using t x by simp
        obtain q p s1 s3 s4 xs' es' where f: "append_bin ?r s = Some (q, s1)" "split_bin q ?r s1 = Some s3"
          "on_bin q (\<lambda>c. c\<lparr>b_taken := True\<rparr>) s3 = Some s4"
          "(do { b \<leftarrow> bin_at s4 q; Some (b_addr b, s4) }) = Some (p, s4)" "unat p = c + k"
          "heap_links s4 xs' es'" "map (blk s4) xs' = map (blk s) xs @ [(c + k, unat ?r, True)]"
          "unat (bin_hiaddr s4) \<le> unat (bin_hiaddr s) + 16"
          using append_used [OF hl lt n0(2,1) ck(1) hi hdr'] by blast
        have "kalloc_a sz a s = Some (p, s4)"
          using f(1-4) best(1) nofit sz al aligned tl tb True append_bin_zero [of s tb]
          by (auto simp: kalloc_a_def up_to_def Let_def)
        moreover have "heap_rep s4 (map (blk s4) xs') \<and> heap_end (map (blk s4) xs') \<le> heap_end bs + unat a + ?n"
          by (rule rep' [OF f(6) refl])
            (use til n ck r in \<open>auto simp: f(7) bs tiled_append heap_end_def\<close>)
        moreover have "(c + k) mod unat a = 0"
          using up_to_aligned [OF al(1), of ?e] aligned e by simp
        moreover have "live (map (blk s4) xs') = insert (unat p, ?n) (live bs)"
          unfolding f(5,7) bs r by simp
        moreover have "coalesced bs \<longrightarrow> coalesced (map (blk s4) xs')"
          unfolding f(7) bs using True bse by (auto simp: coalesced_def successively_append_iff successively_Cons)
        moreover have "(unat p, ?n) \<notin> live bs" using block_fresh(2) [OF til, of "unat p" ?n True] f(5) ck(2) n(3) by (auto simp: live_def heap_end_def)
        moreover have "unat (bin_hiaddr s4) \<le> unat (bin_hiaddr s) + 32" using f(8) by simp
        ultimately show ?thesis unfolding f(5) [symmetric] by (intro exI [of _ p] exI [of _ s4] exI [of _ "map (blk s4) xs'"] conjI) (simp_all only: not_False_eq_True)
      next
        case skewed: False
        let ?d = "up_to a ?e"
        have d: "0 < unat ?d" "unat ?d \<le> unat a" using up_to_bounds [OF al(1), of ?e] by auto
        have ckd: "c + k < 2 ^ 32" "unat ?d < 2 ^ 31" using ck room d a31 by simp_all
        have hdr': "unat (bin_hiaddr s) + 16 < 2 ^ 32" using hdr by simp
        obtain q0 s0 es0 where q0: "append_bin ?d s = Some (q0, s0)" "heap_links s0 (us @ [t, q0]) es0"
          "blk s0 q0 = (c + k, unat ?d, False)" "\<forall>x \<in> set (us @ [t]). blk s0 x = blk s x"
          "unat (bin_hiaddr s0) \<le> unat (bin_hiaddr s) + 16"
          using append_bin_blocks [OF hl [unfolded x] t ckd(1) ck(1) d(1) ckd(2) hdr'] by auto
        have m0: "map (blk s0) (us @ [t, q0]) = bs @ [(c + k, unat ?d, False)]"
          using q0(3,4) bse t by auto
        have l0: "blk s0 (last (us @ [t, q0])) = (c + k, unat ?d, False)" using q0(3) by simp
        have lo0: "unat BIN_START \<le> c + k" using ck by simp
        have hi0: "c + k + unat ?d + unat ?r < 2 ^ 32" using ck room r d by simp
        have hdr0: "unat (bin_hiaddr s0) + 16 < 2 ^ 32" using q0(5) hdr by simp
        obtain q p s1 s3 s4 xs' es' where f: "append_bin ?r s0 = Some (q, s1)" "split_bin q ?r s1 = Some s3"
          "on_bin q (\<lambda>c. c\<lparr>b_taken := True\<rparr>) s3 = Some s4"
          "(do { b \<leftarrow> bin_at s4 q; Some (b_addr b, s4) }) = Some (p, s4)" "unat p = c + k + unat ?d"
          "heap_links s4 xs' es'"
          "map (blk s4) xs' = map (blk s0) (us @ [t, q0]) @ [(c + k + unat ?d, unat ?r, True)]"
          "unat (bin_hiaddr s4) \<le> unat (bin_hiaddr s0) + 16"
          using append_used [OF q0(2) l0 n0(2,1) lo0 hi0 hdr0] by blast
        have "kalloc_a sz a s = Some (p, s4)"
          using f(1-4) q0(1) best(1) nofit sz al skewed tl tb True
          by (auto simp: kalloc_a_def up_to_def Let_def)
        moreover have m4: "map (blk s4) xs' = bs @ [(c + k, unat ?d, False), (c + k + unat ?d, unat ?r, True)]"
          unfolding f(7) m0 by simp
        have "heap_rep s4 (map (blk s4) xs') \<and> heap_end (map (blk s4) xs') \<le> heap_end bs + unat a + ?n" unfolding m4
          by (rule rep' [OF f(6) m4])
            (use til n ck r d in \<open>auto simp: tiled_append heap_end_def\<close>)
        moreover have "(c + k + unat ?d) mod unat a = 0"
          using up_to_aligned [OF al(1), of ?e] e by simp
        moreover have "live (map (blk s4) xs') = insert (unat p, ?n) (live bs)"
          unfolding f(5) m4 r by simp
        moreover have "coalesced bs \<longrightarrow> coalesced (map (blk s4) xs')"
          unfolding m4 using True bse by (auto simp: coalesced_def successively_append_iff successively_Cons)
        moreover have "(unat p, ?n) \<notin> live bs" using block_fresh(2) [OF til, of "unat p" ?n True] f(5) ck(2) n(3) by (auto simp: live_def heap_end_def)
        moreover have "unat (bin_hiaddr s4) \<le> unat (bin_hiaddr s) + 32" using f(8) q0(5) by simp
        ultimately show ?thesis unfolding f(5) [symmetric] by (intro exI [of _ p] exI [of _ s4] exI [of _ "map (blk s4) xs'"] conjI) (simp_all only: not_False_eq_True)
      qed
    next
      case False
      let ?d = "up_to a (b_addr tb)"
      have d: "0 < unat ?d" "unat ?d \<le> unat a" using up_to_bounds [OF al(1), of "b_addr tb"] by auto
      let ?s2 = "s\<lparr>bins := (bins s)(t \<mapsto> tb\<lparr>b_size := ucast ?d\<rparr>)\<rparr>"
      let ?s3 = "vrequest (Allocpgs (b_addr tb) (ucast (ucast ?d :: 31 word)) 3) ?s2"
      have d31: "unat (ucast ?d :: 31 word) = unat ?d" using d a31 by (intro u31_down) auto
      have "heap_links ?s2 xs es" by (rule heap_links_on_bin [OF hl _ tb(1)]) (simp_all add: x)
      then have hl2: "heap_links ?s3 xs es" by simp
      have l2: "blk ?s3 (last xs) = (c, unat ?d, False)" using x tb False d31 by simp
      have tn: "t \<notin> set us" using hl x by (auto simp: heap_links_def)
      then have "map (blk ?s3) us = map (blk s) us" by (intro map_cong) auto
      then have m2: "map (blk ?s3) xs = map (blk s) us @ [(c, unat ?d, False)]"
        using l2 unfolding x by (simp only: map_append list.map last_snoc)
      have hi2: "c + unat ?d + unat ?r < 2 ^ 32" using ck room r d by simp
      have hdr2: "unat (bin_hiaddr ?s3) + 16 < 2 ^ 32" using hdr by simp
      obtain q p s1 s5 s4 xs' es' where f: "append_bin ?r ?s3 = Some (q, s1)" "split_bin q ?r s1 = Some s5"
        "on_bin q (\<lambda>c. c\<lparr>b_taken := True\<rparr>) s5 = Some s4"
        "(do { b \<leftarrow> bin_at s4 q; Some (b_addr b, s4) }) = Some (p, s4)" "unat p = c + unat ?d"
        "heap_links s4 xs' es'" "map (blk s4) xs' = map (blk ?s3) xs @ [(c + unat ?d, unat ?r, True)]"
        "unat (bin_hiaddr s4) \<le> unat (bin_hiaddr ?s3) + 16"
        using append_used [OF hl2 l2 n0(2,1) ck(1) hi2 hdr2] by blast
      have t3: "bin_at ?s3 (bin_tail ?s3) = Some (tb\<lparr>b_size := ucast ?d\<rparr>)"
        using tl tb by (simp add: load_def) (auto simp: opt_simps)
      have "kalloc_a sz a s = Some (p, s4)"
        using f(1-4) best(1) nofit sz al tl tb False append_bin_zero [OF t3] t3
        by (auto simp: kalloc_a_def up_to_def Let_def)
      moreover have m4: "map (blk s4) xs' = map (blk s) us @ [(c, unat ?d, False), (c + unat ?d, unat ?r, True)]"
        unfolding f(7) m2 by simp
      have "heap_rep s4 (map (blk s4) xs') \<and> heap_end (map (blk s4) xs') \<le> heap_end bs + unat a + ?n" unfolding m4
        by (rule rep' [OF f(6) m4])
          (use til n ck r d in \<open>auto simp: bse tiled_append heap_end_def\<close>)
      moreover have "(c + unat ?d) mod unat a = 0"
        using up_to_aligned [OF al(1), of "b_addr tb"] tb by simp
      moreover have "live (map (blk s4) xs') = insert (unat p, ?n) (live bs)"
        unfolding f(5) m4 r bse using False by simp
      moreover have "coalesced bs \<longrightarrow> coalesced (map (blk s4) xs')"
        unfolding m4 bse using False by (auto simp: coalesced_def successively_append_iff successively_Cons)
      moreover have "(c, k, False) \<in> set bs" using bse False by simp
      then have "(unat p, ?n) \<notin> live bs"
        using block_fresh(1) [OF til, of c k False "unat p" ?n] block_fresh(2) [OF til, of "unat p" ?n True] f(5) ck(2) n(3)
        by (cases "c + unat ?d < c + k") (auto simp: live_def heap_end_def)
      moreover have "unat (bin_hiaddr s4) \<le> unat (bin_hiaddr s) + 32" using f(8) by simp
      ultimately show ?thesis unfolding f(5) [symmetric] by (intro exI [of _ p] exI [of _ s4] exI [of _ "map (blk s4) xs'"] conjI) (simp_all only: not_False_eq_True)
    qed
  qed
qed

lemma kalloc_a_inv:
  assumes "kheap_inv s" and "sz \<noteq> 0" and "a \<noteq> 0" "a mod 16 = 0"
    and "unat a + roundup16 (unat sz) \<le> kheap_bytes_left s" and "2 \<le> kheap_allocs_left s"
  shows "\<exists>p s'. kalloc_a sz a s = Some (p, s') \<and> kheap_inv s' \<and> unat p mod unat a = 0 \<and>
    kheap_used s' = insert (unat p, roundup16 (unat sz)) (kheap_used s) \<and>
    (unat p, roundup16 (unat sz)) \<notin> kheap_used s \<and>
    kheap_bytes_left s - (unat a + roundup16 (unat sz)) \<le> kheap_bytes_left s' \<and> kheap_allocs_left s - 2 \<le> kheap_allocs_left s'"
proof -
  have rep: "heap_rep s (heap_blocks s)" "coalesced (heap_blocks s)" using assms(1) by (simp_all add: kheap_inv_def)
  have "heap_end (heap_blocks s) < 2 ^ 32" using rep(1) by (simp add: heap_rep_def)
  then have "heap_end (heap_blocks s) + unat a + roundup16 (unat sz) < 2 ^ 32" using assms(5) by (simp add: kheap_bytes_left_def)
  moreover have "unat (bin_hiaddr s) + 32 < 2 ^ 32" using assms(6) by (simp add: kheap_allocs_left_def)
  ultimately obtain p s' bs' where k: "kalloc_a sz a s = Some (p, s')" "heap_rep s' bs'" "unat p mod unat a = 0"
    "live bs' = insert (unat p, roundup16 (unat sz)) (live (heap_blocks s))" "coalesced (heap_blocks s) \<longrightarrow> coalesced bs'"
    "(unat p, roundup16 (unat sz)) \<notin> live (heap_blocks s)" "heap_end bs' \<le> heap_end (heap_blocks s) + unat a + roundup16 (unat sz)"
    "unat (bin_hiaddr s') \<le> unat (bin_hiaddr s) + 32"
    using kalloc_a_blocks [OF rep(1)] assms(2-4) by (metis unat_gt_0)
  have "kheap_allocs_left s - 2 \<le> kheap_allocs_left s'" using k(8) by (simp add: kheap_allocs_left_def)
  then show ?thesis using k heap_rep_blocks [OF k(2)] rep(2) by (simp add: kheap_inv_def kheap_used_def kheap_bytes_left_def)
qed

lemma kalloc_zero_block:
  assumes rep: "heap_rep s bs" and free: "(a, k, False) \<in> set bs" and big: "0xFFFFFFF0 < unat sz"
    and hdr: "unat (bin_hiaddr s) + 16 < 2 ^ 32"
  shows "\<exists>p s' xs es. kalloc sz s = Some (p, s') \<and> p \<noteq> 0 \<and> heap_links s' xs es \<and>
    (unat p, 0, True) \<in> set (map (blk s') xs)"
proof -
  obtain xs es where hl: "heap_links s xs es" and bs: "map (blk s) xs = bs"
    and til: "tiled (unat BIN_START) bs" and he: "heap_end bs < 2 ^ 32"
    using rep by (auto simp: heap_rep_def)
  have "unat sz < 4294967296" by (rule u32_bound)
  then have s15: "unat (sz + 15) < 16" using big by (simp add: unat_word_ariths le_mod_geq)
  then have "unat ((sz + 15) div 16) = 0" by (simp add: unat_div)
  then have r: "(sz + 15) div 16 * 16 = 0" by (simp add: unat_eq_zero)
  have "k \<in> fitting 0 bs" using free by (auto simp: fitting_def)
  then have "fitting 0 bs \<noteq> {}" by blast
  then obtain best us vs c j where b: "find_best_fit 0 s = Some best" "best \<noteq> 0" "xs = us @ best # vs"
    "blk s best = (c, j, False)"
    using find_best_fit_blocks [OF hl, of 0] unfolding bs by (metis unsigned_0)
  then have bse: "(c, j, False) \<in> set bs" using bs by (auto simp: image_iff intro: exI [of _ best])
  then have cj: "unat BIN_START \<le> c" "c + j < 2 ^ 32" "0 < c"
    using tiled_bounds [OF til] he by (fastforce simp: heap_end_def BIN_START_def)+
  obtain p s3 s4 xs' es' where f: "split_bin best 0 s = Some s3"
    "on_bin best (\<lambda>c. c\<lparr>b_taken := True\<rparr>) s3 = Some s4"
    "(do { b \<leftarrow> bin_at s4 best; Some (b_addr b, s4) }) = Some (p, s4)" "unat p = c"
    "heap_links s4 xs' es'" "map (blk s4) xs' = map (blk s) us @ (c, unat (0 :: u32), True) #
      (if j = unat (0 :: u32) then [] else [(c + unat (0 :: u32), j - unat (0 :: u32), False)]) @ map (blk s) vs"
    using finish_alloc [OF hl [unfolded b(3)] b(4) _ cj(1,2) hdr, of 0] by auto
  have "(c, 0, True) \<in> set (map (blk s4) xs')" unfolding f(6) by simp
  have "0 < unat sz" using big by simp
  then have "kalloc sz s = Some (p, s4)" using f(1-3) b(1,2) r by (auto simp: kalloc_def)
  moreover have "p \<noteq> 0" using f(4) cj(3) by auto
  ultimately show ?thesis using f(4,5) \<open>(c, 0, True) \<in> _\<close> by blast
qed

definition req_pages :: "vm_req \<Rightarrow> nat list" where
  "req_pages r = (case r of
     Allocpg a f \<Rightarrow> [unat a div 4096]
   | Allocpgs a n f \<Rightarrow> map (\<lambda>i. unat (a + of_nat i * 4096) div 4096) [0..<unat ((n + 0xFFF) div 0x1000)])"

lemmas kheap_run_simps = kalloc_def heap_init_def find_best_fit_def split_bin_def add_bin_def find_free_bin_def
  append_bin_def vrequest_def zero_bin_def BIN_START_def on_bin_def modify_def load_def


text \<open>The heap after a first allocation of 0xFF0 bytes, and after a second one of 0x1020 bytes.\<close>

definition demo_heap1 :: kheap where
  "demo_heap1 = \<lparr>bins = [
      0xD0000010 \<mapsto> \<lparr>b_addr = 0xE1000FF0, b_taken = False, b_size = 0x10, b_prev = 0xD0000000, b_next = 0\<rparr>,
      0xD0000000 \<mapsto> \<lparr>b_addr = 0xE1000000, b_taken = True, b_size = 0xFF0, b_prev = 0, b_next = 0xD0000010\<rparr>],
    bin_tail = 0xD0000010, bin_head = 0xD0000000, bin_hiaddr = 0xD0000010, empty_head = 0,
    vreqs = [Allocpg 0xD0000000 3, Allocpg 0xE1000000 3, Allocpgs 0xD0000010 0x2000 3, Allocpgs 0xE1000FF0 0x1010 3]\<rparr>"

definition demo_heap2 :: kheap where
  "demo_heap2 = \<lparr>bins = [
      0xD0000000 \<mapsto> \<lparr>b_addr = 0xE1000000, b_taken = True, b_size = 0xFF0, b_prev = 0, b_next = 0xD0000010\<rparr>,
      0xD0000010 \<mapsto> \<lparr>b_addr = 0xE1000FF0, b_taken = True, b_size = 0x1020, b_prev = 0xD0000000, b_next = 0\<rparr>],
    bin_tail = 0xD0000010, bin_head = 0xD0000000, bin_hiaddr = 0xD0000010, empty_head = 0,
    vreqs = [Allocpg 0xD0000000 3, Allocpg 0xE1000000 3, Allocpgs 0xD0000010 0x2000 3, Allocpgs 0xE1000FF0 0x1010 3,
      Allocpgs 0xE1000FF0 0x1021 3]\<rparr>"

lemma demo_run1: "kalloc 0xFF0 (heap_init 0xD0000000) = Some (0xE1000000, demo_heap1)"
  apply (simp add: kheap_run_simps demo_heap1_def)
  apply (subst best_fit_loop.simps, simp add: kheap_run_simps)
  apply (subst best_fit_loop.simps, simp add: kheap_run_simps)
  done

lemma demo_run2: "kalloc 0x1020 demo_heap1 = Some (0xE1000FF0, demo_heap2)"
  apply (simp add: kheap_run_simps demo_heap1_def demo_heap2_def)
  apply (subst best_fit_loop.simps, simp add: kheap_run_simps)
  apply (subst best_fit_loop.simps, simp add: kheap_run_simps)
  apply (subst best_fit_loop.simps, simp add: kheap_run_simps)
  done

text \<open>
  Growing the last free block asks for pages from the block's own address, which need
  not be page-aligned. After allocations of 0xFF0 and 0x1020 bytes on a fresh heap, the last byte
  of the second block lies in a page that was never asked for.
\<close>

lemma kalloc_unmapped_page:
  "\<exists>p1 s1 p2 s2. kalloc 0xFF0 (heap_init 0xD0000000) = Some (p1, s1) \<and> kalloc 0x1020 s1 = Some (p2, s2) \<and>
    unat (p2 + 0x1020 - 1) div 4096 \<notin> set (concat (map req_pages (vreqs s2)))"
proof -
  have "unat (0xE1000FF0 + 0x1020 - 1 :: addr) div 4096 \<notin> set (concat (map req_pages (vreqs demo_heap2)))"
    by (simp add: demo_heap2_def req_pages_def upt_rec)
  with demo_run1 demo_run2 show ?thesis by blast
qed


text \<open>
  C1 (safety): on a fresh heap, any sequence of allocations of nonzero size and of releases of
  blocks held, as long as the address space and the space for headers last, succeeds at every
  step, and the blocks held at the end are pairwise disjoint.
\<close>

theorem kheap_run_disjoint:
  assumes "next_pg \<noteq> 0" and "sane_reqs 0 rs" and "req_bytes roundup16 rs \<le> 0x1EFFEFFF"
    and "req_allocs rs \<le> (2 ^ 32 - 1 - unat next_pg) div 16"
  shows "\<exists>held s. heap_run kalloc kfree rs [] (heap_init next_pg) = Some (held, s) \<and> disjoint_blocks held"
proof -
  have bl: "heap_blocks (heap_init next_pg) = [(unat BIN_START, 4096, False)]"
    using heap_rep_blocks [OF heap_init_rep [OF assms(1)]] .
  have "kheap_bytes_left (heap_init next_pg) = 0x1EFFEFFF"
    by (simp add: kheap_bytes_left_def bl heap_end_def BIN_START_def)
  moreover have "kheap_allocs_left (heap_init next_pg) = (2 ^ 32 - 1 - unat next_pg) div 16"
    by (simp add: kheap_allocs_left_def heap_init_def)
  ultimately show ?thesis
    using kh.run_disjoint [OF heap_init_inv [OF assms(1)] assms(2)] assms(3,4) by auto
qed

theorem kheap_run_disjoint_witness:
  "\<exists>held s. heap_run kalloc kfree [Get 24, Get 100, Put 0, Get 5000] [] (heap_init 0xD0000000) = Some (held, s) \<and>
    disjoint_blocks held"
  by (rule kheap_run_disjoint) (simp_all add: roundup16_def)

text \<open>
  C3 (functional): an allocation takes the smallest free block that is large enough and splits off
  what is left of it; if there is none, it adds a block behind a used last one, or grows a free
  last one. The block returned has the size asked for, rounded up to a multiple of 16.
\<close>

theorem kalloc_best_fit:
  assumes "heap_rep s bs" and "0 < unat sz" and "heap_end bs + roundup16 (unat sz) < 2 ^ 32"
    and "unat (bin_hiaddr s) + 16 < 2 ^ 32"
  shows "\<exists>p s' bs'. kalloc sz s = Some (p, s') \<and> heap_rep s' bs' \<and>
    alloc_step (roundup16 (unat sz)) bs (unat p) bs' \<and> live bs' = insert (unat p, roundup16 (unat sz)) (live bs)"
  using kalloc_blocks [OF assms] alloc_step_live by blast

theorem kalloc_best_fit_witness:
  "\<exists>p s' bs'. kalloc 20 (heap_init 0xD0000000) = Some (p, s') \<and> heap_rep s' bs' \<and>
    alloc_step 32 [(0xE1000000, 4096, False)] (unat p) bs' \<and> live bs' = {(unat p, 32)}"
  using kalloc_best_fit [of "heap_init 0xD0000000" "[(0xE1000000, 4096, False)]" 20]
    heap_init_rep [of "0xD0000000"]
  by (simp add: BIN_START_def heap_end_def roundup16_def heap_init_def)

text \<open>
  C7 (functional): freeing a block merges it with every free block that touches it on either side,
  leaves every other block in use as it was, and keeps the heap without two neighbouring free blocks.
\<close>

theorem kfree_coalesces:
  assumes "heap_rep s bs" and "coalesced bs" and "(unat p, k, t) \<in> set bs"
  shows "\<exists>s' bs'. kfree p s = Some s' \<and> heap_rep s' bs' \<and> coalesced bs' \<and> free_step bs (unat p) bs' \<and>
    live bs' = {x \<in> live bs. fst x \<noteq> unat p}"
proof -
  have "tiled (unat BIN_START) bs" using assms(1) by (simp add: heap_rep_def)
  then show ?thesis
    using kfree_blocks [OF assms(1,3)] free_step_live free_step_coalesced [OF _ assms(2)] by blast
qed

lemma demo_heap2_rep: "heap_rep demo_heap2 [(0xE1000000, 0xFF0, True), (0xE1000FF0, 0x1020, True)]"
proof -
  have "heap_links demo_heap2 [0xD0000000, 0xD0000010] []"
    by (simp add: heap_links_def demo_heap2_def load_def)
  moreover have "map (blk demo_heap2) [0xD0000000, 0xD0000010] = [(0xE1000000, 0xFF0, True), (0xE1000FF0, 0x1020, True)]"
    by (simp add: demo_heap2_def blk_def)
  ultimately show ?thesis unfolding heap_rep_def by (auto simp: heap_end_def BIN_START_def)
qed

theorem kfree_coalesces_witness:
  "\<exists>s' bs'. kfree 0xE1000000 demo_heap2 = Some s' \<and> heap_rep s' bs' \<and> live bs' = {(0xE1000FF0, 0x1020)}"
proof -
  let ?bs = "[(0xE1000000, 0xFF0, True), (0xE1000FF0, 0x1020, True)]"
  have co: "coalesced ?bs" by (simp add: coalesced_def)
  have mem: "(unat (0xE1000000 :: addr), 0xFF0, True) \<in> set ?bs" by simp
  have l: "{x \<in> live ?bs. fst x \<noteq> unat (0xE1000000 :: addr)} = {(0xE1000FF0, 0x1020)}"
    by (rule set_eqI) (simp, fastforce)
  show ?thesis using kfree_coalesces [OF demo_heap2_rep co mem] unfolding l by blast
qed



text \<open>
  The rounding of the size wraps around. A request within 15 bytes of the whole address
  space is rounded to 0 bytes and succeeds whenever there is a free block: the block returned, which
  the caller takes for nearly 4 GiB, has size 0.
\<close>

lemma kalloc_size_wraps:
  assumes "heap_rep s bs" and "(a, k, False) \<in> set bs" and "0xFFFFFFF0 < unat sz"
    and "unat (bin_hiaddr s) + 16 < 2 ^ 32"
  shows "\<exists>p s'. kalloc sz s = Some (p, s') \<and> p \<noteq> 0 \<and> (unat p, 0, True) \<in> set (heap_blocks s')"
proof -
  obtain p s' xs es where k: "kalloc sz s = Some (p, s')" "p \<noteq> 0" "heap_links s' xs es"
    "(unat p, 0, True) \<in> set (map (blk s') xs)"
    using kalloc_zero_block [OF assms] by blast
  moreover have "heap_blocks s' = map (blk s') xs"
    using bin_list_chain [OF heap_links_chain [OF k(3)]] by (simp add: heap_blocks_def)
  ultimately show ?thesis by auto
qed

lemma kalloc_size_wraps_witness:
  "\<exists>p s'. kalloc 0xFFFFFFFE (heap_init 0xD0000000) = Some (p, s') \<and> p \<noteq> 0 \<and> (unat p, 0, True) \<in> set (heap_blocks s')"
  by (rule kalloc_size_wraps [OF heap_init_rep]) (auto simp: heap_init_def)

end
