(* ===== verification/KList_Props.thy ===== *)
theory KList_Props
  imports KList Kheap_Safe
begin

text \<open>
  The lists of \<open>KList\<close> as lists of data. \<open>list_rep s l r xs ds\<close>: the list record at \<open>l\<close> leads through the
  nodes \<open>xs\<close> to the data \<open>ds\<close>. The lemmas say what each operation does to \<open>ds\<close>; those about allocation are
  proved once for any allocator that meets the interface of \<open>Heaps\<close>, and used for the kernel heap.
\<close>

interpretation nl: linked n_next n_prev "\<lambda>v n. n\<lparr>n_next := v\<rparr>" "\<lambda>v n. n\<lparr>n_prev := v\<rparr>"
  by unfold_locales simp_all

lemma on_node_Some [opt_simps]:
  "on_node p f s = Some s' \<longleftrightarrow> (\<exists>n. load (ls_nodes s) p = Some n \<and> s' = s\<lparr>ls_nodes := (ls_nodes s)(p \<mapsto> f n)\<rparr>)"
  by (auto simp: on_node_def opt_simps)

lemma on_node_in [simp]: "load (ls_nodes s) p = Some n \<Longrightarrow>
    on_node p f s = Some (s\<lparr>ls_nodes := (ls_nodes s)(p \<mapsto> f n)\<rparr>)"
  by (simp add: on_node_def)

lemma on_list_in [simp]: "load (ls_lists s) p = Some n \<Longrightarrow>
    on_list p f s = Some (s\<lparr>ls_lists := (ls_lists s)(p \<mapsto> f n)\<rparr>)"
  by (simp add: on_list_def)

definition data_of :: "list_node store \<Rightarrow> addr \<Rightarrow> addr" where
  "data_of m x = (case m x of Some n \<Rightarrow> n_data n | None \<Rightarrow> 0)"

text \<open>
  \<open>list_rep s l r xs ds\<close>: the list at \<open>l\<close>, round if \<open>r\<close>, has the nodes \<open>xs\<close> and holds the data \<open>ds\<close>.
  In a round list both ends lead to the first node, also the first node's previous field.
\<close>

definition ends :: "bool \<Rightarrow> addr list \<Rightarrow> addr" where
  "ends r xs = (if r then hd (xs @ [0]) else 0)"

definition list_rep :: "'h lstate \<Rightarrow> addr \<Rightarrow> bool \<Rightarrow> addr list \<Rightarrow> addr list \<Rightarrow> bool" where
  "list_rep s l r xs ds \<longleftrightarrow>
     (\<exists>L. load (ls_lists s) l = Some L \<and> l_rnd L = r \<and> unat (l_elements L) = length xs \<and>
        l_head L = hd (xs @ [0]) \<and> l_tail L = last (0 # xs)) \<and>
     distinct xs \<and> dll n_next n_prev (ls_nodes s) (ends r xs) xs (ends r xs) \<and>
     map (data_of (ls_nodes s)) xs = ds"

lemma sint_of_unat: "unat w < 2 ^ 31 \<Longrightarrow> sint w = int (unat w)" for w :: u32
proof -
  have "sint (of_nat n :: u32) = int n" if "n < 2 ^ 31" for n
    using that by (simp add: signed_of_nat signed_take_bit_int_eq_self)
  from this [of "unat w"] show "unat w < 2 ^ 31 \<Longrightarrow> ?thesis" by simp
qed

text \<open>Appending a node that is not part of the list yet.\<close>

lemma list_push_new:
  assumes rep: "list_rep s l r xs ds" and new: "new_node alloc s = Some (p, s1)" "p \<noteq> 0" "p \<notin> set xs"
    and len: "length xs < 2 ^ 31"
  shows "\<exists>s'. list_push alloc l d s = Some (int (length xs), s') \<and> list_rep s' l r (xs @ [p]) (ds @ [d]) \<and>
    ls_heap s' = ls_heap s1 \<and> dom (ls_nodes s') = insert p (dom (ls_nodes s)) \<and>
    (\<forall>x. x \<noteq> p \<longrightarrow> x \<notin> set xs \<longrightarrow> ls_nodes s' x = ls_nodes s x) \<and>
    (\<forall>k. k \<noteq> l \<longrightarrow> ls_lists s' k = ls_lists s k) \<and> dom (ls_lists s') = dom (ls_lists s)"
proof -
  define z where "z = \<lparr>n_prev = 0, n_next = 0, n_data = 0 :: addr\<rparr>"
  have s1: "ls_nodes s1 = (ls_nodes s)(p \<mapsto> z)" "ls_lists s1 = ls_lists s"
    using new(1,2) by (auto simp: new_node_def opt_simps z_def Let_def split: if_splits)
  obtain L where L: "load (ls_lists s) l = Some L" "l_rnd L = r" "unat (l_elements L) = length xs"
    "l_head L = hd (xs @ [0])" "l_tail L = last (0 # xs)" using rep by (auto simp: list_rep_def)
  have l0: "l \<noteq> 0" "l \<in> dom (ls_lists s)" using L(1) by (auto simp: opt_simps)
  have dl: "dll n_next n_prev (ls_nodes s) (ends r xs) xs (ends r xs)" and dx: "distinct xs"
    and ds: "map (data_of (ls_nodes s)) xs = ds" using rep by (auto simp: list_rep_def)
  have inc: "unat (l_elements L + 1) = Suc (length xs)" using L(3) len by (simp add: u32_inc)
  show ?thesis
  proof (cases xs rule: rev_cases)
    case Nil
    then have e0: "l_elements L = 0" using L(3) by (simp add: unat_eq_zero)
    let ?n = "if r then \<lparr>n_prev = p, n_next = p, n_data = d\<rparr> else \<lparr>n_prev = 0, n_next = 0, n_data = d\<rparr>"
    let ?s' = "s1\<lparr>ls_lists := (ls_lists s)(l \<mapsto> L\<lparr>l_head := p, l_tail := p, l_elements := 1\<rparr>),
      ls_nodes := (ls_nodes s)(p \<mapsto> ?n)\<rparr>"
    have "list_push alloc l d s = Some (0, ?s')"
      using l0 new(1,2) s1 L(1,2) e0 by (simp add: list_push_def z_def)
    moreover have "list_rep ?s' l r [p] [d]"
      using l0 new(2) L(2) Nil ds by (auto simp: list_rep_def ends_def data_of_def load_def)
    ultimately show ?thesis using Nil ds l0 by (intro exI [of _ ?s']) auto
  next
    case (snoc ys t)
    then have e0: "l_elements L \<noteq> 0" and tl: "l_tail L = t" using L(3,5) by auto
    obtain nt where nt: "load (ls_nodes s) t = Some nt" using dll_nodes [OF dl] snoc by auto
    have tp: "t \<noteq> p" "t \<noteq> 0" using new(3) snoc nt by (auto simp: opt_simps)
    have en: "ends r (xs @ [p]) = ends r xs" using snoc by (auto simp: ends_def hd_append)
    let ?n = "\<lparr>n_prev = t, n_next = ends r xs, n_data = d\<rparr>"
    let ?m = "(ls_nodes s)(t \<mapsto> nt\<lparr>n_next := p\<rparr>, p \<mapsto> ?n)"
    let ?s' = "s1\<lparr>ls_lists := (ls_lists s)(l \<mapsto> L\<lparr>l_tail := p, l_elements := l_elements L + 1\<rparr>), ls_nodes := ?m\<rparr>"
    have hd: "l_head L = ends r xs" if r using L(4) that by (simp add: ends_def)
    have "list_push alloc l d s = Some (sint (l_elements L), ?s')"
      using l0 new(1,2) s1 L(1,2) e0 tl nt tp hd
      by (cases r) (simp_all add: list_push_def z_def fun_upd_twist ends_def)
    moreover have "sint (l_elements L) = int (length xs)" using L(3) len by (simp add: sint_of_unat)
    moreover have "list_rep ?s' l r (xs @ [p]) (ds @ [d])"
    proof -
      have "dll n_next n_prev ?m (ends r xs) (ys @ t # p # []) (ends r xs)"
        by (rule nl.insert_after [where m = "ls_nodes s" and np = nt and nq = ?n and np' = "nt\<lparr>n_next := p\<rparr>"])
          (use dl dx snoc new nt tp in \<open>auto simp: load_def\<close>)
      moreover have "map (data_of ?m) xs = ds"
        unfolding ds [symmetric] using nt new(3) by (intro map_cong) (auto simp: data_of_def opt_simps)
      moreover have "data_of ?m p = d" by (simp add: data_of_def)
      ultimately show ?thesis
        using l0 L inc dx new(3) snoc en by (auto simp: list_rep_def load_def hd_append)
    qed
    moreover have "dom ?m = insert p (dom (ls_nodes s))" using nt by (auto simp: opt_simps)
    ultimately show ?thesis using snoc l0 by (intro exI [of _ ?s']) auto
  qed
qed

lemma seek_loop_chain:
  "chain n_next m p xs z \<Longrightarrow> i \<le> length xs \<Longrightarrow> seek_loop m i p = Some ((xs @ [z]) ! i)"
proof (induction xs arbitrary: p i)
  case Nil
  then show ?case by simp
next
  case (Cons x xs)
  then obtain n where n: "p = x" "load m x = Some n" "chain n_next m (n_next n) xs z" by auto
  then have "x \<noteq> 0" by (simp add: opt_simps)
  with n Cons.IH [OF n(3)] Cons.prems(2) show ?case by (cases i) auto
qed

lemma list_rep_chain: "list_rep s l r xs ds \<Longrightarrow> chain n_next (ls_nodes s) (hd (xs @ [0])) xs (ends r xs)"
  using dll_chain [of n_next n_prev "ls_nodes s" "ends r xs" xs "ends r xs"]
  by (cases xs) (auto simp: list_rep_def ends_def)

lemma list_rep_node: "list_rep s l r xs ds \<Longrightarrow> i < length xs \<Longrightarrow>
    \<exists>n. load (ls_nodes s) (xs ! i) = Some n \<and> n_data n = ds ! i \<and> xs ! i \<noteq> 0"
  using dll_nodes [of n_next n_prev "ls_nodes s" "ends r xs" xs "ends r xs" "xs ! i"]
  by (auto simp: list_rep_def data_of_def opt_simps)

lemma list_rep_length: "list_rep s l r xs ds \<Longrightarrow> length ds = length xs"
  by (auto simp: list_rep_def)

lemma seek_node_in:
  assumes "list_rep s l r xs ds" and "unat i < length xs"
  shows "seek_node l i s = Some (xs ! unat i)"
proof -
  obtain L where L: "load (ls_lists s) l = Some L" "unat (l_elements L) = length xs" "l_head L = hd (xs @ [0])"
    using assms by (auto simp: list_rep_def)
  have "\<not> l_elements L < i" using assms(2) L(2) by (simp add: word_less_nat_alt)
  then show ?thesis using L seek_loop_chain [OF list_rep_chain [OF assms(1)], of "unat i"] assms(2)
    by (simp add: seek_node_def nth_append)
qed

lemma seek_node_plain_past:
  assumes "list_rep s l False xs ds" and "length xs \<le> unat i"
  shows "seek_node l i s = Some 0"
proof -
  obtain L where L: "load (ls_lists s) l = Some L" "unat (l_elements L) = length xs" "l_head L = hd (xs @ [0])"
    "\<not> l_rnd L" using assms by (auto simp: list_rep_def)
  show ?thesis
  proof (cases "unat i = length xs")
    case True
    then have "\<not> l_elements L < i" using L(2) by (simp add: word_less_nat_alt)
    then show ?thesis using L seek_loop_chain [OF list_rep_chain [OF assms(1)], of "unat i"] True
      by (simp add: seek_node_def ends_def)
  next
    case False
    then have "l_elements L < i" using L(2) assms(2) by (simp add: word_less_nat_alt)
    then show ?thesis using L by (simp add: seek_node_def)
  qed
qed

lemma seek_node_round:
  assumes rep: "list_rep s l True xs ds" and ne: "xs \<noteq> []"
  shows "seek_node l i s = Some (xs ! (unat i mod length xs))"
proof (cases "unat i < length xs")
  case True
  then show ?thesis using seek_node_in [OF rep] by simp
next
  case False
  obtain L where L: "load (ls_lists s) l = Some L" "unat (l_elements L) = length xs" "l_head L = hd (xs @ [0])"
    "l_rnd L" using rep by (auto simp: list_rep_def)
  have n0: "0 < length xs" using ne by simp
  then have e0: "l_elements L \<noteq> 0" using L(2) by auto
  show ?thesis
  proof (cases "unat i = length xs")
    case True
    then have "\<not> l_elements L < i" using L(2) by (simp add: word_less_nat_alt)
    then show ?thesis using L seek_loop_chain [OF list_rep_chain [OF rep], of "unat i"] True ne
      by (cases xs) (simp_all add: seek_node_def ends_def)
  next
    case neq: False
    with False have gt: "l_elements L < i" using L(2) by (simp add: word_less_nat_alt)
    have m: "unat (i mod l_elements L) = unat i mod length xs" using L(2) by (simp add: unat_mod)
    then have lt: "unat (i mod l_elements L) < length xs" using n0 by simp
    then have "\<not> l_elements L < i mod l_elements L" using L(2) by (simp add: word_less_nat_alt)
    then show ?thesis
      using L gt e0 m lt seek_loop_chain [OF list_rep_chain [OF rep], of "unat (i mod l_elements L)"]
      by (simp add: seek_node_def nth_append)
  qed
qed

lemma list_at_in: "list_rep s l r xs ds \<Longrightarrow> unat i < length ds \<Longrightarrow> list_at l i s = Some (ds ! unat i)"
  using seek_node_in [of s l r xs ds i] list_rep_node [of s l r xs ds "unat i"] list_rep_length [of s l r xs ds]
  by (auto simp: list_at_def list_rep_def opt_simps)

lemma list_at_past: "list_rep s l False xs ds \<Longrightarrow> length ds \<le> unat i \<Longrightarrow> list_at l i s = Some 0"
  using seek_node_plain_past [of s l xs ds i] list_rep_length [of s l False xs ds] by (simp add: list_at_def)

lemma list_at_round: "list_rep s l True xs ds \<Longrightarrow> ds \<noteq> [] \<Longrightarrow> list_at l i s = Some (ds ! (unat i mod length ds))"
proof -
  assume rep: "list_rep s l True xs ds" and ne: "ds \<noteq> []"
  have len: "length ds = length xs" using list_rep_length [OF rep] .
  then have "xs \<noteq> []" using ne by auto
  then have "xs \<noteq> []" "unat i mod length xs < length xs" by simp_all
  then show ?thesis
    using seek_node_round [OF rep] list_rep_node [OF rep, of "unat i mod length xs"] rep len
    by (auto simp: list_at_def list_rep_def opt_simps)
qed

subsection \<open>Searching\<close>

definition index_of :: "'a \<Rightarrow> 'a list \<Rightarrow> nat" where
  "index_of d ds = length (takeWhile (\<lambda>x. x \<noteq> d) ds)"

lemma find_loop_chain:
  "chain n_next m p xs z \<Longrightarrow> map (data_of m) xs = ds \<Longrightarrow>
    find_loop m d p k = (if d \<in> set ds then Some (k + int (index_of d ds)) else find_loop m d z (k + int (length ds)))"
proof (induction xs arbitrary: p k ds)
  case Nil
  then show ?case by simp
next
  case (Cons x xs)
  then obtain n where n: "p = x" "load m x = Some n" "chain n_next m (n_next n) xs z" by auto
  then have x: "x \<noteq> 0" "data_of m x = n_data n" by (auto simp: opt_simps data_of_def)
  have "find_loop m d p k = (if n_data n = d then Some k else find_loop m d (n_next n) (k + 1))"
    using n x by (subst find_loop.simps) simp
  with Cons.IH [OF n(3) refl] Cons.prems(2) x show ?case by (auto simp: index_of_def ac_simps)
qed

lemma list_find_plain:
  "list_rep s l False xs ds \<Longrightarrow> list_find l d s = Some (if d \<in> set ds then int (index_of d ds) else -1)"
proof -
  assume rep: "list_rep s l False xs ds"
  obtain L where L: "load (ls_lists s) l = Some L" "l_head L = hd (xs @ [0])" "l \<noteq> 0"
    using rep by (auto simp: list_rep_def opt_simps)
  have "find_loop (ls_nodes s) d 0 k = Some (-1)" for k by (subst find_loop.simps) simp
  then show ?thesis
    using find_loop_chain [OF list_rep_chain [OF rep], of ds d 0] L rep
    by (simp add: list_find_def list_rep_def ends_def)
qed

text \<open>On a cycle of nodes without the data, the loop does not end.\<close>

lemma find_loop_cycle:
  assumes "\<forall>x \<in> A. \<exists>n. x \<noteq> 0 \<and> m x = Some n \<and> n_data n \<noteq> d \<and> n_next n \<in> A"
  shows "p \<in> A \<Longrightarrow> find_loop m d p k = None"
proof (rule ccontr)
  assume p: "p \<in> A" and "find_loop m d p k \<noteq> None"
  then obtain r where "find_loop m d p k = Some r" by auto
  then have "p \<in> A \<longrightarrow> False" using assms
  proof (induction rule: find_loop.raw_induct [rotated, consumes 1])
    case (1 loop m d p k r)
    show ?case
    proof
      assume "p \<in> A"
      then obtain n where "p \<noteq> 0" "m p = Some n" "n_data n \<noteq> d" "n_next n \<in> A" using 1(3) by blast
      then show False using 1 by (auto simp: load_def)
    qed
  qed
  with p show False by simp
qed

lemma list_find_round_absent:
  assumes rep: "list_rep s l True xs ds" and "d \<notin> set ds" and "ds \<noteq> []"
  shows "list_find l d s = None"
proof -
  obtain L where L: "load (ls_lists s) l = Some L" "l_head L = hd (xs @ [0])" "l \<noteq> 0"
    using rep by (auto simp: list_rep_def opt_simps)
  have dl: "dll n_next n_prev (ls_nodes s) (ends True xs) xs (ends True xs)" and ds: "map (data_of (ls_nodes s)) xs = ds"
    using rep by (auto simp: list_rep_def)
  have ne: "xs \<noteq> []" using ds assms(3) by auto
  have "\<forall>x \<in> set xs. \<exists>n. x \<noteq> 0 \<and> ls_nodes s x = Some n \<and> n_data n \<noteq> d \<and> n_next n \<in> set xs"
  proof
    fix x assume x: "x \<in> set xs"
    then obtain us vs where us: "xs = us @ x # vs" by (meson split_list)
    obtain n where n: "load (ls_nodes s) x = Some n" "n_next n = hd (vs @ [ends True xs])"
      using dll_split [OF dl [unfolded us]] us by auto
    have "n_data n \<in> set ds" using n(1) x ds by (auto simp: data_of_def opt_simps image_iff split: option.splits intro!: bexI [of _ x])
    moreover have "n_next n \<in> set xs" using n(2) us ne by (cases vs; cases us) (auto simp: ends_def)
    ultimately show "\<exists>n. x \<noteq> 0 \<and> ls_nodes s x = Some n \<and> n_data n \<noteq> d \<and> n_next n \<in> set xs"
      using n(1) assms(2) by (auto simp: opt_simps)
  qed
  then have "find_loop (ls_nodes s) d (hd xs) 0 = None" by (rule find_loop_cycle) (use ne in simp)
  then show ?thesis using L ne by (simp add: list_find_def)
qed

subsection \<open>Inserting and deleting\<close>

lemma new_node_fresh: "new_node alloc s = Some (p, s1) \<Longrightarrow> p \<noteq> 0 \<Longrightarrow>
    ls_nodes s1 = (ls_nodes s)(p \<mapsto> \<lparr>n_prev = 0, n_next = 0, n_data = 0\<rparr>) \<and> ls_lists s1 = ls_lists s"
  by (auto simp: new_node_def opt_simps Let_def split: if_splits)

lemma list_rep_new_node:
  assumes "list_rep s l r xs ds" and "new_node alloc s = Some (p, s1)" "p \<noteq> 0" "p \<notin> set xs"
  shows "list_rep s1 l r xs ds"
proof -
  have s1: "ls_nodes s1 = (ls_nodes s)(p \<mapsto> \<lparr>n_prev = 0, n_next = 0, n_data = 0\<rparr>)" "ls_lists s1 = ls_lists s"
    using new_node_fresh [OF assms(2,3)] by simp_all
  have "dll n_next n_prev (ls_nodes s1) (ends r xs) xs (ends r xs)"
    unfolding s1 by (rule dll_frame) (use assms in \<open>auto simp: list_rep_def\<close>)
  moreover have "map (data_of (ls_nodes s1)) xs = map (data_of (ls_nodes s)) xs"
    unfolding s1 using assms(4) by (intro map_cong) (auto simp: data_of_def)
  ultimately show ?thesis using assms(1) s1(2) by (auto simp: list_rep_def)
qed

lemma list_insert_in:
  assumes rep: "list_rep s l False xs ds" and new: "new_node alloc s = Some (p, s1)" "p \<noteq> 0" "p \<notin> set xs"
    and i: "unat i < length xs" and len: "length xs < 2 ^ 31"
  shows "\<exists>s'. list_insert alloc l d i s = Some (int (length xs), s') \<and>
    list_rep s' l False (take (unat i) xs @ p # drop (unat i) xs) (take (unat i) ds @ d # drop (unat i) ds)"
proof -
  define z where "z = \<lparr>n_prev = 0, n_next = 0, n_data = 0 :: addr\<rparr>"
  have s1: "ls_nodes s1 = (ls_nodes s)(p \<mapsto> z)" "ls_lists s1 = ls_lists s"
    using new_node_fresh [OF new(1,2)] by (simp_all add: z_def)
  have rep1: "list_rep s1 l False xs ds" by (rule list_rep_new_node [OF rep new])
  define us q vs where "us = take (unat i) xs" and "q = xs ! unat i" and "vs = drop (Suc (unat i)) xs"
  have xs: "xs = us @ q # vs" using id_take_nth_drop [OF i] by (simp add: us_def q_def vs_def)
  obtain L where L: "load (ls_lists s) l = Some L" "\<not> l_rnd L" "unat (l_elements L) = length xs"
    "l_head L = hd (xs @ [0])" "l_tail L = last (0 # xs)" using rep by (auto simp: list_rep_def)
  have l0: "l \<noteq> 0" using L(1) by (auto simp: opt_simps)
  have dl: "dll n_next n_prev (ls_nodes s) 0 (us @ q # vs) 0" and dx: "distinct xs"
    and ds: "map (data_of (ls_nodes s)) xs = ds" using rep xs by (auto simp: list_rep_def ends_def)
  obtain nq where nq: "load (ls_nodes s) q = Some nq" "n_prev nq = last (0 # us)" "n_next nq = hd (vs @ [0])"
    using dll_split [OF dl] by blast
  have qp: "q \<noteq> p" "q \<noteq> 0" using new(3) xs nq by (auto simp: opt_simps)
  have sk: "seek_node l i s1 = Some q" using seek_node_in [OF rep1 i] by (simp add: q_def)
  have inc: "unat (l_elements L + 1) = Suc (length xs)" "sint (l_elements L) = int (length xs)"
    using L(3) len by (simp_all add: u32_inc sint_of_unat)
  let ?n = "\<lparr>n_prev = last (0 # us), n_next = q, n_data = d\<rparr>"
  have data: "map (data_of m) (us @ p # q # vs) = take (unat i) ds @ d # drop (unat i) ds"
    if "m p = Some ?n" "\<And>x. x \<in> set xs \<Longrightarrow> data_of m x = data_of (ls_nodes s) x" for m
  proof -
    have "map (data_of m) us = map (data_of (ls_nodes s)) us" "map (data_of m) (q # vs) = map (data_of (ls_nodes s)) (q # vs)"
      using that(2) xs by auto
    moreover have "us = take (unat i) xs" "q # vs = drop (unat i) xs" using Cons_nth_drop_Suc [OF i]
      by (simp_all add: us_def q_def vs_def)
    ultimately show ?thesis using that(1) ds by (auto simp: data_of_def take_map drop_map)
  qed
  have tgt: "us @ p # q # vs = take (unat i) xs @ p # drop (unat i) xs"
    using Cons_nth_drop_Suc [OF i] by (simp add: us_def q_def vs_def)
  show ?thesis
  proof (cases us rule: rev_cases)
    case Nil
    let ?m = "(ls_nodes s)(q \<mapsto> nq\<lparr>n_prev := p\<rparr>, p \<mapsto> ?n)"
    let ?s' = "s1\<lparr>ls_nodes := ?m, ls_lists := (ls_lists s)(l \<mapsto> L\<lparr>l_head := p, l_elements := l_elements L + 1\<rparr>)\<rparr>"
    have "list_insert alloc l d i s = Some (sint (l_elements L), ?s')"
      using l0 new(1,2) s1 L(1,4) sk nq qp Nil xs
      by (simp add: list_insert_def z_def fun_upd_twist)
    moreover have "dll n_next n_prev ?m p (q # vs) 0"
    proof -
      have "dll n_next n_prev (ls_nodes s) q vs 0" using dl Nil by auto
      then have "dll n_next n_prev ?m q vs 0"
        by (rule dll_eq) (use dx xs new(3) in auto)
      then show ?thesis using nq qp by (auto simp: load_def)
    qed
    then have "dll n_next n_prev ?m 0 (us @ p # q # vs) 0" using Nil new(2) by (auto simp: load_def)
    moreover have "data_of ?m x = data_of (ls_nodes s) x" if "x \<in> set xs" for x
      using that nq new(3) by (auto simp: data_of_def opt_simps)
    ultimately show ?thesis
      using data [of ?m] l0 L inc dx new(3) xs tgt [symmetric] Nil
      by (intro exI [of _ ?s']) (auto simp: list_rep_def load_def ends_def)
  next
    case (snoc us' u)
    obtain nu where nu: "load (ls_nodes s) u = Some nu" "n_next nu = q" using dl snoc by (auto simp: dll_append)
    have up: "u \<noteq> p" "u \<noteq> 0" "u \<noteq> q" using new(3) xs nu dx snoc by (auto simp: opt_simps)
    let ?m = "(ls_nodes s)(q \<mapsto> nq\<lparr>n_prev := p\<rparr>, u \<mapsto> nu\<lparr>n_next := p\<rparr>, p \<mapsto> ?n)"
    let ?s' = "s1\<lparr>ls_nodes := ?m, ls_lists := (ls_lists s)(l \<mapsto> L\<lparr>l_elements := l_elements L + 1\<rparr>)\<rparr>"
    have "l_head L \<noteq> q" using L(4) dx xs snoc by (cases us') auto
    then have "list_insert alloc l d i s = Some (sint (l_elements L), ?s')"
      using l0 new(1,2) s1 L(1) sk nq qp snoc nu up
      by (simp add: list_insert_def z_def fun_upd_twist)
    moreover have "dll n_next n_prev ?m 0 (us' @ u # p # q # vs) 0"
      by (rule nl.insert_after [where m = "ls_nodes s" and np = nu and nq = ?n and np' = "nu\<lparr>n_next := p\<rparr>"])
        (use dl dx xs snoc new nu nq up qp in \<open>auto simp: load_def\<close>)
    moreover have "data_of ?m x = data_of (ls_nodes s) x" if "x \<in> set xs" for x
      using that nq nu new(3) by (auto simp: data_of_def opt_simps)
    ultimately show ?thesis
      using data [of ?m] l0 L inc dx new(3) xs tgt [symmetric] snoc
      by (intro exI [of _ ?s']) (auto simp: list_rep_def load_def ends_def hd_append)
  qed
qed

text \<open>Deleting gives the node's memory back and leaves the list's own record as it was.\<close>

lemma list_delete_in:
  assumes rep: "list_rep s l False xs ds" and i: "unat i < length xs" "unat i < 2 ^ 31"
    and free: "free (xs ! unat i) (ls_heap s) = Some h"
  shows "\<exists>s'. list_delete free l i s = Some s' \<and> ls_lists s' = ls_lists s \<and> ls_nodes s' (xs ! unat i) = None"
proof -
  define us q vs where "us = take (unat i) xs" and "q = xs ! unat i" and "vs = drop (Suc (unat i)) xs"
  have xs: "xs = us @ q # vs" using id_take_nth_drop [OF i(1)] by (simp add: us_def q_def vs_def)
  obtain L where L: "load (ls_lists s) l = Some L" "l_head L = hd (xs @ [0])" "l \<noteq> 0"
    using rep by (auto simp: list_rep_def opt_simps)
  have dl: "dll n_next n_prev (ls_nodes s) 0 (us @ q # vs) 0" and dx: "distinct xs"
    using rep xs by (auto simp: list_rep_def ends_def)
  obtain nq where nq: "load (ls_nodes s) q = Some nq" "n_prev nq = last (0 # us)" "n_next nq = hd (vs @ [0])"
    using dll_split [OF dl] by blast
  have q0: "q \<noteq> 0" using nq by (simp add: opt_simps)
  have sk: "seek_loop (ls_nodes s) (unat i) (l_head L) = Some q"
    using seek_loop_chain [OF list_rep_chain [OF rep], of "unat i"] i L(2) by (simp add: q_def nth_append)
  have "0 \<le> sint i" unfolding sint_of_unat [OF i(2)] by simp
  then have si: "sint i \<noteq> -1" by auto
  have pn: "n_prev nq \<noteq> 0 \<Longrightarrow> \<exists>n. load (ls_nodes s) (n_prev nq) = Some n \<and> n_prev nq \<noteq> q"
    using dll_nodes [OF dl, of "n_prev nq"] nq(2) dx xs by (cases us rule: rev_cases) auto
  have nn: "n_next nq \<noteq> 0 \<Longrightarrow> \<exists>n. load (ls_nodes s) (n_next nq) = Some n \<and> n_next nq \<noteq> q \<and> n_next nq \<noteq> n_prev nq"
    using dll_nodes [OF dl, of "n_next nq"] nq dx xs by (cases vs; cases us rule: rev_cases) auto
  show ?thesis
  proof (cases "n_prev nq = 0"; cases "n_next nq = 0")
    show ?thesis if "n_prev nq = 0" "n_next nq = 0"
      using that L si sk q0 nq free by (simp add: list_delete_def free_node_def q_def [symmetric])
    show ?thesis if c: "n_prev nq = 0" "n_next nq \<noteq> 0"
    proof -
      obtain n where "load (ls_nodes s) (n_next nq) = Some n" "n_next nq \<noteq> q" using nn c by blast
      then show ?thesis using c L si sk q0 nq(1) free
        by (simp add: list_delete_def free_node_def q_def [symmetric])
    qed
    show ?thesis if c: "n_prev nq \<noteq> 0" "n_next nq = 0"
    proof -
      obtain n where "load (ls_nodes s) (n_prev nq) = Some n" "n_prev nq \<noteq> q" using pn c by blast
      then show ?thesis using c L si sk q0 nq(1) free
        by (simp add: list_delete_def free_node_def q_def [symmetric])
    qed
    show ?thesis if c: "n_prev nq \<noteq> 0" "n_next nq \<noteq> 0"
    proof -
      obtain n n' where "load (ls_nodes s) (n_prev nq) = Some n" "n_prev nq \<noteq> q"
        "load (ls_nodes s) (n_next nq) = Some n'" "n_next nq \<noteq> q" "n_next nq \<noteq> n_prev nq" using pn nn c by blast
      then show ?thesis using c L si sk q0 nq(1) free
        by (simp add: list_delete_def free_node_def q_def [symmetric])
    qed
  qed
qed

subsection \<open>Lists on a heap\<close>

fun list_push_all :: "'h alloc_fn \<Rightarrow> addr \<Rightarrow> addr list \<Rightarrow> 'h lstate \<Rightarrow> 'h lstate option" where
  "list_push_all alloc l [] s = Some s"
| "list_push_all alloc l (d # ds) s = do { (r, s1) \<leftarrow> list_push alloc l d s; list_push_all alloc l ds s1 }"

definition no_lists :: "'h \<Rightarrow> 'h lstate" where
  "no_lists h = \<lparr>ls_nodes = (\<lambda>x. None), ls_lists = (\<lambda>x. None), ls_heap = h\<rparr>"

context heap_allocator
begin

text \<open>Every node and every list record lies at the start of a block in use, and no two share one.\<close>

definition lists_ok :: "'s lstate \<Rightarrow> bool" where
  "lists_ok s \<longleftrightarrow> inv (ls_heap s) \<and> dom (ls_nodes s) \<inter> dom (ls_lists s) = {} \<and>
     (\<forall>x \<in> dom (ls_nodes s) \<union> dom (ls_lists s). \<exists>m. (unat x, m) \<in> used (ls_heap s))"

lemma alloc_fresh:
  assumes ok: "lists_ok s" and n: "n \<noteq> 0" and room: "cost (unat n) \<le> bytes_left (ls_heap s)" "0 < allocs_left (ls_heap s)"
  shows "\<exists>p h. alloc n (ls_heap s) = Some (p, h) \<and> p \<noteq> 0 \<and> p \<notin> dom (ls_nodes s) \<and> p \<notin> dom (ls_lists s) \<and> inv h \<and>
    (\<exists>m. (unat p, m) \<in> used h) \<and> used (ls_heap s) \<subseteq> used h \<and>
    bytes_left (ls_heap s) - cost (unat n) \<le> bytes_left h \<and> allocs_left (ls_heap s) - 1 \<le> allocs_left h"
proof -
  have i: "inv (ls_heap s)" using ok by (simp add: lists_ok_def)
  obtain p h m where a: "alloc n (ls_heap s) = Some (p, h)" "inv h" "(unat p, m) \<notin> used (ls_heap s)"
    "used h = insert (unat p, m) (used (ls_heap s))"
    "bytes_left (ls_heap s) - cost (unat n) \<le> bytes_left h" "allocs_left (ls_heap s) - 1 \<le> allocs_left h"
    using alloc_ok [OF i n room] by blast
  have "p \<notin> dom (ls_nodes s) \<union> dom (ls_lists s)"
  proof
    assume "p \<in> dom (ls_nodes s) \<union> dom (ls_lists s)"
    then obtain k where k: "(unat p, k) \<in> used (ls_heap s)" using ok unfolding lists_ok_def by blast
    then have "(unat p, k) \<in> used h" "(unat p, m) \<in> used h" using a(4) by auto
    then have "k = m" using same_start [OF a(2)] by blast
    then show False using k a(3) by simp
  qed
  moreover have "p \<noteq> 0" using used_pos [OF a(2), of "unat p" m] a(4) by auto
  ultimately show ?thesis using a by (intro exI [of _ p] exI [of _ h]) auto
qed

lemma new_node_ok:
  assumes ok: "lists_ok s" and room: "cost 12 \<le> bytes_left (ls_heap s)" "0 < allocs_left (ls_heap s)"
  shows "\<exists>p s1. new_node alloc s = Some (p, s1) \<and> p \<noteq> 0 \<and> p \<notin> dom (ls_nodes s) \<and> lists_ok s1 \<and>
    bytes_left (ls_heap s) - cost 12 \<le> bytes_left (ls_heap s1) \<and> allocs_left (ls_heap s) - 1 \<le> allocs_left (ls_heap s1) \<and>
    used (ls_heap s) \<subseteq> used (ls_heap s1)"
proof -
  obtain p h where p: "alloc 12 (ls_heap s) = Some (p, h)" "p \<noteq> 0" "p \<notin> dom (ls_nodes s)" "p \<notin> dom (ls_lists s)" "inv h"
    "\<exists>m. (unat p, m) \<in> used h" "used (ls_heap s) \<subseteq> used h"
    "bytes_left (ls_heap s) - cost 12 \<le> bytes_left h" "allocs_left (ls_heap s) - 1 \<le> allocs_left h"
    using alloc_fresh [OF ok, of 12] room by auto
  let ?s1 = "s\<lparr>ls_heap := h, ls_nodes := (ls_nodes s)(p \<mapsto> \<lparr>n_prev = 0, n_next = 0, n_data = 0\<rparr>)\<rparr>"
  have "new_node alloc s = Some (p, ?s1)" using p(1,2) by (simp add: new_node_def)
  moreover have "lists_ok ?s1"
    using ok p(4,5,6,7) unfolding lists_ok_def by (auto; blast)
  ultimately show ?thesis using p by (intro exI [of _ p] exI [of _ ?s1]) simp
qed

lemma list_allocator_ok:
  assumes ok: "lists_ok s" and room: "cost 16 \<le> bytes_left (ls_heap s)" "0 < allocs_left (ls_heap s)"
  shows "\<exists>l s1. list_allocator alloc r s = Some (l, s1) \<and> list_rep s1 l r [] [] \<and> lists_ok s1 \<and>
    bytes_left (ls_heap s) - cost 16 \<le> bytes_left (ls_heap s1) \<and> allocs_left (ls_heap s) - 1 \<le> allocs_left (ls_heap s1)"
proof -
  obtain p h where p: "alloc 16 (ls_heap s) = Some (p, h)" "p \<noteq> 0" "p \<notin> dom (ls_nodes s)" "p \<notin> dom (ls_lists s)" "inv h"
    "\<exists>m. (unat p, m) \<in> used h" "used (ls_heap s) \<subseteq> used h"
    "bytes_left (ls_heap s) - cost 16 \<le> bytes_left h" "allocs_left (ls_heap s) - 1 \<le> allocs_left h"
    using alloc_fresh [OF ok, of 16] room by auto
  let ?s1 = "s\<lparr>ls_heap := h, ls_lists := (ls_lists s)(p \<mapsto> \<lparr>l_rnd = r, l_head = 0, l_tail = 0, l_elements = 0\<rparr>)\<rparr>"
  have "list_allocator alloc r s = Some (p, ?s1)" using p(1,2) by (simp add: list_allocator_def)
  moreover have "lists_ok ?s1"
    using ok p(3,5,6,7) unfolding lists_ok_def by (auto; blast)
  moreover have "list_rep ?s1 p r [] []" using p(2) by (simp add: list_rep_def load_def)
  ultimately show ?thesis using p by (intro exI [of _ p] exI [of _ ?s1]) simp
qed

lemma list_push_ok:
  assumes ok: "lists_ok s" and rep: "list_rep s l r xs ds" and len: "length ds < 2 ^ 31"
    and room: "cost 12 \<le> bytes_left (ls_heap s)" "0 < allocs_left (ls_heap s)"
  shows "\<exists>s' p. list_push alloc l d s = Some (int (length ds), s') \<and> list_rep s' l r (xs @ [p]) (ds @ [d]) \<and> lists_ok s' \<and>
    bytes_left (ls_heap s) - cost 12 \<le> bytes_left (ls_heap s') \<and> allocs_left (ls_heap s) - 1 \<le> allocs_left (ls_heap s') \<and>
    used (ls_heap s) \<subseteq> used (ls_heap s')"
proof -
  obtain p s1 where n: "new_node alloc s = Some (p, s1)" "p \<noteq> 0" "p \<notin> dom (ls_nodes s)" "lists_ok s1"
    "bytes_left (ls_heap s) - cost 12 \<le> bytes_left (ls_heap s1)" "allocs_left (ls_heap s) - 1 \<le> allocs_left (ls_heap s1)"
    "used (ls_heap s) \<subseteq> used (ls_heap s1)"
    using new_node_ok [OF ok room] by blast
  have "p \<notin> set xs"
  proof
    assume "p \<in> set xs"
    then have "\<exists>m. load (ls_nodes s) p = Some m" using rep by (auto simp: list_rep_def dest: dll_nodes)
    then show False using n(3) by (auto simp: opt_simps)
  qed
  moreover have len': "length xs < 2 ^ 31" using len list_rep_length [OF rep] by simp
  ultimately obtain s' where s': "list_push alloc l d s = Some (int (length xs), s')" "list_rep s' l r (xs @ [p]) (ds @ [d])"
    "ls_heap s' = ls_heap s1" "dom (ls_nodes s') = insert p (dom (ls_nodes s))" "dom (ls_lists s') = dom (ls_lists s)"
    using list_push_new [OF rep n(1,2) _ len', of d] by blast
  have "ls_nodes s1 = (ls_nodes s)(p \<mapsto> \<lparr>n_prev = 0, n_next = 0, n_data = 0\<rparr>)" "ls_lists s1 = ls_lists s"
    using new_node_fresh [OF n(1,2)] by simp_all
  then have "dom (ls_nodes s') = dom (ls_nodes s1)" "dom (ls_lists s') = dom (ls_lists s1)" using s'(4,5) by simp_all
  then have "lists_ok s'" using n(4) s'(3) unfolding lists_ok_def by simp
  then show ?thesis using s' n(5-7) list_rep_length [OF rep] by (intro exI [of _ s'] exI [of _ p]) simp
qed

lemma list_push_all_ok:
  assumes "lists_ok s" and "list_rep s l r xs ds" and "length ds + length es < 2 ^ 31"
    and "length es * cost 12 \<le> bytes_left (ls_heap s)" and "length es \<le> allocs_left (ls_heap s)"
  shows "\<exists>s' xs'. list_push_all alloc l es s = Some s' \<and> list_rep s' l r xs' (ds @ es) \<and> lists_ok s'"
  using assms
proof (induction es arbitrary: s xs ds)
  case Nil
  then show ?case by auto
next
  case (Cons e es)
  have room: "cost 12 \<le> bytes_left (ls_heap s)" "0 < allocs_left (ls_heap s)" "length ds < 2 ^ 31"
    using Cons.prems by simp_all
  obtain s1 p where s1: "list_push alloc l e s = Some (int (length ds), s1)" "list_rep s1 l r (xs @ [p]) (ds @ [e])" "lists_ok s1"
    "bytes_left (ls_heap s) - cost 12 \<le> bytes_left (ls_heap s1)" "allocs_left (ls_heap s) - 1 \<le> allocs_left (ls_heap s1)"
    using list_push_ok [OF Cons.prems(1,2) room(3,1,2)] by blast
  have "length (ds @ [e]) + length es < 2 ^ 31" "length es * cost 12 \<le> bytes_left (ls_heap s1)"
    "length es \<le> allocs_left (ls_heap s1)" using Cons.prems(3-5) s1(4,5) by simp_all
  from Cons.IH [OF s1(3,2) this] s1(1) show ?case by auto
qed

lemma list_build:
  assumes "inv h" and "length es < 2 ^ 31"
    and "cost 16 + length es * cost 12 \<le> bytes_left h" and "length es < allocs_left h"
  shows "\<exists>l s1 s2 xs. list_allocator alloc r (no_lists h) = Some (l, s1) \<and> list_push_all alloc l es s1 = Some s2 \<and>
    list_rep s2 l r xs es"
proof -
  have ok: "lists_ok (no_lists h)" using assms(1) by (simp add: lists_ok_def no_lists_def)
  have room: "cost 16 \<le> bytes_left (ls_heap (no_lists h))" "0 < allocs_left (ls_heap (no_lists h))"
    using assms(3,4) by (simp_all add: no_lists_def)
  obtain l s1 where s1: "list_allocator alloc r (no_lists h) = Some (l, s1)" "list_rep s1 l r [] []" "lists_ok s1"
    "bytes_left h - cost 16 \<le> bytes_left (ls_heap s1)" "allocs_left h - 1 \<le> allocs_left (ls_heap s1)"
    using list_allocator_ok [OF ok room, of r] by (auto simp: no_lists_def)
  have "length es * cost 12 \<le> bytes_left (ls_heap s1)" "length es \<le> allocs_left (ls_heap s1)"
    using s1(4,5) assms(3,4) by linarith+
  then show ?thesis using list_push_all_ok [OF s1(3,2), of es] assms(2) s1(1) by auto
qed

end

text \<open>
  C34 (functional): on the kernel heap, a plain or round list built by pushing the data \<open>es\<close> one by one
  holds them in this order: \<open>list_at\<close> returns each by its index, on a plain list it returns 0 past the
  end, and on a round list any index counts round and round.
\<close>

theorem list_built_on_kheap:
  assumes "next_pg \<noteq> 0" and "16 * (length es + 1) \<le> 0x1EFFEFFF"
    and "length es < (2 ^ 32 - 1 - unat next_pg) div 16"
  shows "\<exists>l s1 s2. list_allocator kalloc r (no_lists (heap_init next_pg)) = Some (l, s1) \<and>
    list_push_all kalloc l es s1 = Some s2 \<and>
    (\<forall>i. unat i < length es \<longrightarrow> list_at l i s2 = Some (es ! unat i)) \<and>
    (\<not> r \<longrightarrow> (\<forall>i. length es \<le> unat i \<longrightarrow> list_at l i s2 = Some 0)) \<and>
    (r \<and> es \<noteq> [] \<longrightarrow> (\<forall>i. list_at l i s2 = Some (es ! (unat i mod length es))))"
proof -
  let ?h = "heap_init next_pg"
  have "kheap_bytes_left ?h = 0x1EFFEFFF"
    using heap_rep_blocks [OF heap_init_rep [OF assms(1)]]
    by (simp add: kheap_bytes_left_def heap_end_def BIN_START_def)
  then have "roundup16 16 + length es * roundup16 12 \<le> kheap_bytes_left ?h"
    using assms(2) by (simp add: roundup16_def)
  moreover have "length es < kheap_allocs_left ?h"
    using assms(3) by (simp add: kheap_allocs_left_def heap_init_def)
  moreover have "length es < 2 ^ 31" using assms(2) by simp
  ultimately obtain l s1 s2 xs where b: "list_allocator kalloc r (no_lists ?h) = Some (l, s1)"
    "list_push_all kalloc l es s1 = Some s2" "list_rep s2 l r xs es"
    using kh.list_build [OF heap_init_inv [OF assms(1)], of es r] by blast
  moreover have "\<not> r \<longrightarrow> (\<forall>i. length es \<le> unat i \<longrightarrow> list_at l i s2 = Some 0)"
    using b(3) list_at_past by (cases r) auto
  moreover have "r \<and> es \<noteq> [] \<longrightarrow> (\<forall>i. list_at l i s2 = Some (es ! (unat i mod length es)))"
    using b(3) list_at_round by (cases r) auto
  ultimately show ?thesis using list_at_in [OF b(3)] by (intro exI [of _ l] exI [of _ s1] exI [of _ s2]) simp
qed

theorem list_built_on_kheap_witness:
  "\<exists>l s1 s2. list_allocator kalloc True (no_lists (heap_init 0xD0000000)) = Some (l, s1) \<and>
    list_push_all kalloc l [5, 6, 7] s1 = Some s2 \<and> list_at l 1 s2 = Some 6 \<and> list_at l 5 s2 = Some 7"
proof -
  obtain l s1 s2 where b: "list_allocator kalloc True (no_lists (heap_init 0xD0000000)) = Some (l, s1)"
    "list_push_all kalloc l [5, 6, 7] s1 = Some s2" "\<forall>i. list_at l i s2 = Some ([5, 6, 7] ! (unat i mod 3))"
    using list_built_on_kheap [of "0xD0000000" "[5, 6, 7]" True] by auto
  then show ?thesis by (intro exI [of _ l] exI [of _ s1] exI [of _ s2]) simp
qed

definition demo_list :: "bool \<Rightarrow> kheap \<Rightarrow> kheap lstate" where
  "demo_list r h = \<lparr>ls_nodes = [
      0xE1000000 \<mapsto> \<lparr>n_prev = (if r then 0xE1000000 else 0), n_next = 0x200, n_data = 5\<rparr>,
      0x200 \<mapsto> \<lparr>n_prev = 0xE1000000, n_next = (if r then 0xE1000000 else 0), n_data = 6\<rparr>],
    ls_lists = [0x300 \<mapsto> \<lparr>l_rnd = r, l_head = 0xE1000000, l_tail = 0x200, l_elements = 2\<rparr>], ls_heap = h\<rparr>"

lemma demo_list_rep: "list_rep (demo_list r h) 0x300 r [0xE1000000, 0x200] [5, 6]"
  by (simp add: list_rep_def demo_list_def load_def ends_def data_of_def)

lemma demo_kalloc_node: "\<exists>h. kalloc 12 demo_heap2 = Some (0xE1002010, h)"
  apply (simp add: kheap_run_simps demo_heap2_def)
  apply (subst best_fit_loop.simps, simp add: kheap_run_simps)
  apply (subst best_fit_loop.simps, simp add: kheap_run_simps)
  apply (subst best_fit_loop.simps, simp add: kheap_run_simps)
  done

text \<open>
  Inserting into a plain list at an index within it, with a node \<open>p\<close> from the
  allocator that is not one of the list's, puts the data before the element of that index, keeps the
  others in order, and returns the old number of elements.
\<close>

lemma list_insert_inserts:
  assumes "list_rep s l False xs ds" and "new_node alloc s = Some (p, s1)" and "p \<noteq> 0" and "p \<notin> set xs"
    and "unat i < length xs" and "length xs < 2 ^ 31"
  shows "\<exists>s'. list_insert alloc l d i s = Some (int (length xs), s') \<and>
    list_rep s' l False (take (unat i) xs @ p # drop (unat i) xs) (take (unat i) ds @ d # drop (unat i) ds)"
  by (rule list_insert_in [OF assms])

lemma list_insert_inserts_witness:
  "\<exists>s'. list_insert kalloc 0x300 7 1 (demo_list False demo_heap2) = Some (2, s') \<and>
    list_rep s' 0x300 False [0xE1000000, 0xE1002010, 0x200] [5, 7, 6]"
proof -
  obtain h where h: "kalloc 12 demo_heap2 = Some (0xE1002010, h)" using demo_kalloc_node by blast
  have "\<exists>s1. new_node kalloc (demo_list False demo_heap2) = Some (0xE1002010, s1)"
    using h by (simp add: new_node_def demo_list_def)
  then obtain s1 where s1: "new_node kalloc (demo_list False demo_heap2) = Some (0xE1002010, s1)" by blast
  show ?thesis using list_insert_inserts [OF demo_list_rep s1, of 1 7] by simp
qed

text \<open>
  \<open>list_find\<close> on a plain list returns the index of the first element equal to the
  data, and -1 if there is none.
\<close>

lemma list_find_first:
  assumes "list_rep s l False xs ds"
  shows "list_find l d s = Some (if d \<in> set ds then int (index_of d ds) else -1)"
  by (rule list_find_plain [OF assms])

lemma list_find_first_witness:
  "list_find 0x300 6 (demo_list False demo_heap2) = Some 1 \<and> list_find 0x300 9 (demo_list False demo_heap2) = Some (-1)"
  using list_find_first [OF demo_list_rep, of 6] list_find_first [OF demo_list_rep, of 9] by (simp add: index_of_def)

text \<open>
  On a round list that is not empty, \<open>list_find\<close> of data that it does not hold
  does not return: the loop only stops at a null pointer, which a round list never reaches.
\<close>

lemma list_find_round_diverges:
  assumes "list_rep s l True xs ds" and "d \<notin> set ds" and "ds \<noteq> []"
  shows "list_find l d s = None"
  by (rule list_find_round_absent [OF assms])

lemma list_find_round_diverges_witness: "list_find 0x300 9 (demo_list True demo_heap2) = None"
  by (rule list_find_round_diverges [OF demo_list_rep]) simp_all

text \<open>
  \<open>list_delete\<close> changes neither the head, the tail nor the element count of the list: it
  frees the node and unlinks it from its neighbours only. After deleting the first element, the list
  still starts at the freed node, and the next access to it reads freed memory.
\<close>

lemma list_delete_leaves_head:
  assumes "list_rep s l False xs ds" and "xs \<noteq> []" and "free (hd xs) (ls_heap s) = Some h"
  shows "\<exists>s'. list_delete free l 0 s = Some s' \<and> ls_lists s' = ls_lists s \<and> list_at l 0 s' = None"
proof -
  have hd: "xs ! 0 = hd xs" using assms(2) by (simp add: hd_conv_nth)
  obtain s' where s': "list_delete free l 0 s = Some s'" "ls_lists s' = ls_lists s" "ls_nodes s' (hd xs) = None"
    using list_delete_in [OF assms(1), of 0 free h] assms(2,3) hd by auto
  obtain L where L: "load (ls_lists s) l = Some L" "l_head L = hd xs" "l \<noteq> 0"
    using assms(1,2) by (auto simp: list_rep_def opt_simps)
  have "hd xs \<noteq> 0" using list_rep_node [OF assms(1), of 0] assms(2) hd by auto
  then have "list_at l 0 s' = None" using L s' by (simp add: list_at_def seek_node_def load_def)
  with s' show ?thesis by blast
qed

lemma list_delete_leaves_head_witness:
  "\<exists>s'. list_delete kfree 0x300 0 (demo_list False demo_heap2) = Some s' \<and> list_at 0x300 0 s' = None"
proof -
  obtain h where "kfree 0xE1000000 demo_heap2 = Some h"
    using kfree_blocks [OF demo_heap2_rep, of "0xE1000000" "0xFF0" True] by auto
  then have "kfree (hd [0xE1000000, 0x200]) (ls_heap (demo_list False demo_heap2)) = Some h"
    by (simp add: demo_list_def)
  then show ?thesis using list_delete_leaves_head [OF demo_list_rep, of kfree] by blast
qed

end
