(* ===== verification/Paging.thy ===== *)
theory Paging
  imports Frames Links
begin

text \<open>
  The second-stage pager, \<^verbatim>\<open>module/paging/main.c\<close>.

  The types \<^verbatim>\<open>page_t\<close> and \<^verbatim>\<open>page_directory_t\<close> belong to the kernel submodule, which is not part of
  the repository. What the code uses of an entry besides its 32 bits, the \<^verbatim>\<open>present\<close> and \<^verbatim>\<open>addr\<close>
  fields, is the parameter \<open>pg_layout\<close>. A directory has 1024 entries (\<^verbatim>\<open>tablesPhys\<close>), 1024 pointers to
  the tables (\<^verbatim>\<open>tables\<close>) and its physical address. The pager reads and writes a table through the
  recursive mapping \<^verbatim>\<open>0xFFC00000 + 0x1000 * index\<close>; so the table seen there is the one whose frame
  stands in the directory's entry: \<open>vm_tabs\<close> maps frames to tables, and an access through an entry
  that is not present is a page fault, \<open>None\<close>. \<open>vm_data\<close> is the contents of the other frames. The
  flushes \<^verbatim>\<open>invlpg\<close> and \<^verbatim>\<open>invldir\<close> have no counterpart (there is no TLB in the model), nor has
  \<^verbatim>\<open>page_lock\<close>. The functions of \<^verbatim>\<open>physical_allocator\<close>, \<^verbatim>\<open>kalloc_a\<close> and \<^verbatim>\<open>getphys\<close> are arguments.
\<close>

record pg_layout =
  pg_present :: "u32 \<Rightarrow> bool"
  pg_addr :: "u32 \<Rightarrow> u32"

record page_dir =
  pd_tables :: "addr list"
  pd_entries :: "u32 list"
  pd_phys :: u32

record 'f vmm =
  vm_dirs :: "addr \<Rightarrow> page_dir option"
  vm_cur :: addr
  vm_tabs :: "u32 \<Rightarrow> u32 list option"
  vm_data :: "u32 \<Rightarrow> u8 list option"
  vm_frames :: 'f

text \<open>A table through its directory entry.\<close>

definition tab_frame :: "pg_layout \<Rightarrow> u32 \<Rightarrow> u32 option" where
  "tab_frame P e = (if pg_present P e then Some (e AND 0xFFFFF000) else None)"

definition dindex :: "addr \<Rightarrow> nat" where
  "dindex virt = unat (virt div 0x400000)"

definition tindex :: "addr \<Rightarrow> nat" where
  "tindex virt = unat (virt div 0x1000 AND 0x3FF)"

definition cur_entry :: "'f vmm \<Rightarrow> nat \<Rightarrow> u32 option" where
  "cur_entry s i = do { D \<leftarrow> vm_dirs s (vm_cur s); nth_opt (pd_entries D) i }"

definition read_tab :: "pg_layout \<Rightarrow> 'f vmm \<Rightarrow> nat \<Rightarrow> u32 list option" where
  "read_tab P s i = do { e \<leftarrow> cur_entry s i; fr \<leftarrow> tab_frame P e; vm_tabs s fr }"

definition write_tab :: "pg_layout \<Rightarrow> nat \<Rightarrow> u32 list \<Rightarrow> 'f vmm \<Rightarrow> 'f vmm option" where
  "write_tab P i t s = do {
     e \<leftarrow> cur_entry s i;
     fr \<leftarrow> tab_frame P e;
     Some (s\<lparr>vm_tabs := (vm_tabs s)(fr \<mapsto> t)\<rparr>) }"

text \<open>The part of \<^verbatim>\<open>remappg\<close> that makes a missing table.\<close>

definition new_table :: "pg_layout \<Rightarrow> ('f \<Rightarrow> (addr \<times> 'f) option) \<Rightarrow> nat \<Rightarrow> u32 \<Rightarrow> 'f vmm \<Rightarrow> 'f vmm option" where
  "new_table P getpg i flags s = do {
     D \<leftarrow> vm_dirs s (vm_cur s);
     (tbl_phys, f) \<leftarrow> getpg (vm_frames s);
     es \<leftarrow> upd_opt (pd_entries D) i (tbl_phys OR flags);
     ts \<leftarrow> upd_opt (pd_tables D) i (of_nat i * 0x1000 + 0xFFC00000);
     let s1 = s\<lparr>vm_frames := f, vm_dirs := (vm_dirs s)(vm_cur s \<mapsto> D\<lparr>pd_entries := es, pd_tables := ts\<rparr>)\<rparr>;
     write_tab P i (replicate 1024 0) s1 }"

definition remappg :: "pg_layout \<Rightarrow> ('f \<Rightarrow> (addr \<times> 'f) option) \<Rightarrow> addr \<Rightarrow> addr \<Rightarrow> u32 \<Rightarrow> 'f vmm
    \<Rightarrow> (u32 \<times> 'f vmm) option" where
  "remappg P getpg phys virt flags s = do {
     e \<leftarrow> cur_entry s (dindex virt);
     s1 \<leftarrow> (if \<not> pg_present P e then new_table P getpg (dindex virt) flags s else Some s);
     t \<leftarrow> read_tab P s1 (dindex virt);
     ret \<leftarrow> nth_opt t (tindex virt);
     t' \<leftarrow> upd_opt t (tindex virt) (phys OR (flags AND 0xFFF));
     s2 \<leftarrow> write_tab P (dindex virt) t' s1;
     Some (ret, s2) }"

definition mappg :: "pg_layout \<Rightarrow> ('f \<Rightarrow> (addr \<times> 'f) option) \<Rightarrow> addr \<Rightarrow> addr \<Rightarrow> u32 \<Rightarrow> 'f vmm
    \<Rightarrow> (u32 \<times> 'f vmm) option" where
  "mappg P getpg phys virt flags s = do {
     e \<leftarrow> cur_entry s (dindex virt);
     if \<not> pg_present P e then remappg P getpg phys virt flags s
     else do {
       t \<leftarrow> read_tab P s (dindex virt);
       x \<leftarrow> nth_opt t (tindex virt);
       if x = 0 then remappg P getpg phys virt flags s else Some (x, s) } }"

definition allocpg :: "pg_layout \<Rightarrow> ('f \<Rightarrow> (addr \<times> 'f) option) \<Rightarrow> (addr \<Rightarrow> 'f \<Rightarrow> 'f option) \<Rightarrow> addr \<Rightarrow> u32 \<Rightarrow>
    'f vmm \<Rightarrow> (addr \<times> 'f vmm) option" where
  "allocpg P getpg freefr req flags s = do {
     (block, f) \<leftarrow> getpg (vm_frames s);
     let s1 = s\<lparr>vm_frames := f\<rparr>;
     if block = 0 then Some (0, s1)
     else do {
       (prev, s2) \<leftarrow> mappg P getpg block req flags s1;
       s3 \<leftarrow> (if prev \<noteq> 0 then do { f' \<leftarrow> freefr block (vm_frames s2); Some (s2\<lparr>vm_frames := f'\<rparr>) } else Some s2);
       Some (req, s3) } }"

definition pages_of :: "u32 \<Rightarrow> nat" where
  "pages_of sz = unat ((sz + 0xFFF) div 0x1000)"

fun allocpgs_loop :: "pg_layout \<Rightarrow> ('f \<Rightarrow> (addr \<times> 'f) option) \<Rightarrow> (addr \<Rightarrow> 'f \<Rightarrow> 'f option) \<Rightarrow> addr \<Rightarrow> nat \<Rightarrow>
    addr \<Rightarrow> u32 \<Rightarrow> 'f vmm \<Rightarrow> (addr \<times> 'f vmm) option" where
  "allocpgs_loop P getpg freefr oreq 0 req flags s = Some (oreq, s)"
| "allocpgs_loop P getpg freefr oreq (Suc n) req flags s = do {
     (ret, s1) \<leftarrow> allocpg P getpg freefr req flags s;
     if ret \<noteq> req then Some (0, s1)
     else allocpgs_loop P getpg freefr oreq n (req + 0x1000) flags s1 }"

definition allocpgs :: "pg_layout \<Rightarrow> ('f \<Rightarrow> (addr \<times> 'f) option) \<Rightarrow> (addr \<Rightarrow> 'f \<Rightarrow> 'f option) \<Rightarrow> addr \<Rightarrow> u32 \<Rightarrow>
    u32 \<Rightarrow> 'f vmm \<Rightarrow> (addr \<times> 'f vmm) option" where
  "allocpgs P getpg freefr req sz flags s = allocpgs_loop P getpg freefr req (pages_of sz) req flags s"

definition freepg :: "pg_layout \<Rightarrow> ('f \<Rightarrow> (addr \<times> 'f) option) \<Rightarrow> (addr \<Rightarrow> 'f \<Rightarrow> 'f option) \<Rightarrow> addr \<Rightarrow>
    'f vmm \<Rightarrow> 'f vmm option" where
  "freepg P getpg freefr req s = do {
     (ret, s1) \<leftarrow> remappg P getpg 0 req 0 s;
     if ret = 0 then do {
       f \<leftarrow> freefr (pg_addr P ret * 0x1000) (vm_frames s1);
       Some (s1\<lparr>vm_frames := f\<rparr>) }
     else Some s1 }"

fun freepgs_loop :: "pg_layout \<Rightarrow> ('f \<Rightarrow> (addr \<times> 'f) option) \<Rightarrow> (addr \<Rightarrow> 'f \<Rightarrow> 'f option) \<Rightarrow> nat \<Rightarrow> addr \<Rightarrow>
    'f vmm \<Rightarrow> 'f vmm option" where
  "freepgs_loop P getpg freefr 0 req s = Some s"
| "freepgs_loop P getpg freefr (Suc n) req s = do {
     s1 \<leftarrow> freepg P getpg freefr req s;
     freepgs_loop P getpg freefr n (req + 0x1000) s1 }"

definition freepgs :: "pg_layout \<Rightarrow> ('f \<Rightarrow> (addr \<times> 'f) option) \<Rightarrow> (addr \<Rightarrow> 'f \<Rightarrow> 'f option) \<Rightarrow> addr \<Rightarrow> u32 \<Rightarrow>
    'f vmm \<Rightarrow> 'f vmm option" where
  "freepgs P getpg freefr req sz s = freepgs_loop P getpg freefr (pages_of sz) req s"

definition swpdir :: "addr \<Rightarrow> 'f vmm \<Rightarrow> addr \<times> 'f vmm" where
  "swpdir dir s = (vm_cur s, s\<lparr>vm_cur := dir\<rparr>)"

subsection \<open>Cloning an address space\<close>

text \<open>The frame behind a virtual address in the current directory.\<close>

definition frame_of :: "pg_layout \<Rightarrow> 'f vmm \<Rightarrow> addr \<Rightarrow> u32 option" where
  "frame_of P s virt = do {
     t \<leftarrow> read_tab P s (dindex virt);
     e \<leftarrow> nth_opt t (tindex virt);
     tab_frame P e }"

definition copy_page :: "pg_layout \<Rightarrow> addr \<Rightarrow> addr \<Rightarrow> 'f vmm \<Rightarrow> 'f vmm option" where
  "copy_page P dst src s = do {
     d \<leftarrow> frame_of P s dst;
     f \<leftarrow> frame_of P s src;
     b \<leftarrow> vm_data s f;
     Some (s\<lparr>vm_data := (vm_data s)(d \<mapsto> b)\<rparr>) }"

text \<open>
  The loop of \<^verbatim>\<open>clonetbl\<close>. The new table is written through the page \<^verbatim>\<open>newtbl\<close>, which is mapped to
  the table's frame \<open>paddr\<close>.
\<close>

fun clonetbl_loop :: "pg_layout \<Rightarrow> ('f \<Rightarrow> (addr \<times> 'f) option) \<Rightarrow> nat \<Rightarrow> addr \<Rightarrow> u32 \<Rightarrow> nat list \<Rightarrow>
    'f vmm \<Rightarrow> 'f vmm option" where
  "clonetbl_loop P getpg ix pgbuffer paddr [] s = Some s"
| "clonetbl_loop P getpg ix pgbuffer paddr (i # is) s = do {
     t \<leftarrow> read_tab P s ix;
     e \<leftarrow> nth_opt t i;
     if e = 0 then clonetbl_loop P getpg ix pgbuffer paddr is s
     else do {
       (block, f) \<leftarrow> getpg (vm_frames s);
       (old, s1) \<leftarrow> remappg P getpg block pgbuffer (e AND 0xFFF) (s\<lparr>vm_frames := f\<rparr>);
       s2 \<leftarrow> copy_page P pgbuffer (of_nat ix * 0x400000 + of_nat i * 0x1000) s1;
       (new, s3) \<leftarrow> remappg P getpg (old AND 0xFFFFF000) pgbuffer (old AND 0xFFF) s2;
       nt \<leftarrow> vm_tabs s3 paddr;
       nt' \<leftarrow> upd_opt nt i new;
       clonetbl_loop P getpg ix pgbuffer paddr is (s3\<lparr>vm_tabs := (vm_tabs s3)(paddr \<mapsto> nt')\<rparr>) } }"

definition clonetbl :: "pg_layout \<Rightarrow> ('f \<Rightarrow> (addr \<times> 'f) option) \<Rightarrow>
    (u32 \<Rightarrow> u32 \<Rightarrow> 'f vmm \<Rightarrow> (addr \<times> 'f vmm) option) \<Rightarrow> (addr \<Rightarrow> 'f vmm \<Rightarrow> 'f vmm option) \<Rightarrow>
    addr \<Rightarrow> nat \<Rightarrow> 'f vmm \<Rightarrow> 'f vmm option" where
  "clonetbl P getpg kal kfr parent ix s = do {
     D \<leftarrow> vm_dirs s parent;
     pe \<leftarrow> nth_opt (pd_entries D) ix;
     let paddr = pe AND 0xFFFFF000;
     (newtbl, s1) \<leftarrow> kal 0x1000 0x1000 s;
     (pgbuffer, s2) \<leftarrow> kal 0x1000 0x1000 s1;
     (old, s3) \<leftarrow> remappg P getpg paddr newtbl 3 s2;
     s4 \<leftarrow> clonetbl_loop P getpg ix pgbuffer paddr [0..<1024] s3;
     (x, s5) \<leftarrow> remappg P getpg (old AND 0xFFFFF000) newtbl (old AND 0xFFF) s4;
     s6 \<leftarrow> kfr newtbl s5;
     kfr pgbuffer s6 }"

definition put_dir :: "addr \<Rightarrow> nat \<Rightarrow> addr \<Rightarrow> u32 \<Rightarrow> 'f vmm \<Rightarrow> 'f vmm option" where
  "put_dir dir i t e s = do {
     D \<leftarrow> vm_dirs s dir;
     ts \<leftarrow> upd_opt (pd_tables D) i t;
     es \<leftarrow> upd_opt (pd_entries D) i e;
     Some (s\<lparr>vm_dirs := (vm_dirs s)(dir \<mapsto> D\<lparr>pd_tables := ts, pd_entries := es\<rparr>)\<rparr>) }"

fun share_kernel :: "addr \<Rightarrow> addr \<Rightarrow> nat list \<Rightarrow> 'f vmm \<Rightarrow> 'f vmm option" where
  "share_kernel dir new [] s = Some s"
| "share_kernel dir new (i # is) s = do {
     D \<leftarrow> vm_dirs s dir;
     t \<leftarrow> nth_opt (pd_tables D) i;
     e \<leftarrow> nth_opt (pd_entries D) i;
     s1 \<leftarrow> put_dir new i t e s;
     share_kernel dir new is s1 }"

fun clone_user :: "pg_layout \<Rightarrow> ('f \<Rightarrow> (addr \<times> 'f) option) \<Rightarrow>
    (u32 \<Rightarrow> u32 \<Rightarrow> 'f vmm \<Rightarrow> (addr \<times> 'f vmm) option) \<Rightarrow> (addr \<Rightarrow> 'f vmm \<Rightarrow> 'f vmm option) \<Rightarrow>
    addr \<Rightarrow> addr \<Rightarrow> nat list \<Rightarrow> 'f vmm \<Rightarrow> 'f vmm option" where
  "clone_user P getpg kal kfr dir new [] s = Some s"
| "clone_user P getpg kal kfr dir new (i # is) s = do {
     D \<leftarrow> vm_dirs s dir;
     t \<leftarrow> nth_opt (pd_tables D) i;
     if t = 0 then clone_user P getpg kal kfr dir new is s
     else do {
       (tp, f) \<leftarrow> getpg (vm_frames s);
       e \<leftarrow> nth_opt (pd_entries D) i;
       s1 \<leftarrow> put_dir new i (of_nat i * 0x1000 + 0xFFC00000) (tp OR (e AND 0xFFF)) (s\<lparr>vm_frames := f\<rparr>);
       s2 \<leftarrow> clonetbl P getpg kal kfr new i s1;
       clone_user P getpg kal kfr dir new is s2 } }"

definition clonedir :: "pg_layout \<Rightarrow> ('f \<Rightarrow> (addr \<times> 'f) option) \<Rightarrow>
    (u32 \<Rightarrow> u32 \<Rightarrow> 'f vmm \<Rightarrow> (addr \<times> 'f vmm) option) \<Rightarrow> (addr \<Rightarrow> 'f vmm \<Rightarrow> 'f vmm option) \<Rightarrow>
    (addr \<Rightarrow> 'f vmm \<Rightarrow> u32) \<Rightarrow> u32 \<Rightarrow> addr \<Rightarrow> 'f vmm \<Rightarrow> (addr \<times> 'f vmm) option" where
  "clonedir P getpg kal kfr getphys dirsize dir s = do {
     (new, s1) \<leftarrow> kal dirsize 0x1000 s;
     let s2 = s1\<lparr>vm_dirs := (vm_dirs s1)(new \<mapsto>
       \<lparr>pd_tables = replicate 1024 0, pd_entries = replicate 1024 0, pd_phys = 0\<rparr>)\<rparr>;
     s3 \<leftarrow> share_kernel dir new [864..<1023] s2;
     s4 \<leftarrow> clone_user P getpg kal kfr dir new [0..<864] s3;
     s5 \<leftarrow> put_dir new 1023 new (getphys new s4 OR 3) s4;
     D \<leftarrow> vm_dirs s5 new;
     Some (new, s5\<lparr>vm_dirs := (vm_dirs s5)(new \<mapsto> D\<lparr>pd_phys := getphys new s5\<rparr>)\<rparr>) }"

subsection \<open>Page faults and set-up\<close>

definition fault_possibles :: "string list" where
  "fault_possibles = [''non-present'', ''present'', ''read from'', ''wrote to'', ''kernel'', ''user'']"

text \<open>The three words of the message with which \<^verbatim>\<open>pfHandler\<close> panics, and the faulting address.\<close>

definition pfHandler :: "u32 \<Rightarrow> addr \<Rightarrow> (string \<times> string \<times> string \<times> addr) option" where
  "pfHandler err faddr = do {
     a \<leftarrow> nth_opt fault_possibles (unat (drop_bit 2 (err AND 0x4) + 4));
     b \<leftarrow> nth_opt fault_possibles (unat (drop_bit 1 (err AND 0x2) + 2));
     c \<leftarrow> nth_opt fault_possibles (unat (drop_bit 0 (err AND 0x1) + 0));
     Some (a, b, c, faddr) }"

text \<open>
  \<open>add_handler\<close> stands for \<^verbatim>\<open>isr_addHandler\<close>; the function pointers \<^verbatim>\<open>paging_init\<close> installs are the
  definitions above, which the rest of the kernel takes as arguments.
\<close>

definition paging_init :: "(u8 \<Rightarrow> 'k \<Rightarrow> 'k option) \<Rightarrow> 'f vmm \<Rightarrow> 'k \<Rightarrow> ('f vmm \<times> 'k) option" where
  "paging_init add_handler s k = do {
     k1 \<leftarrow> add_handler 14 k;
     D \<leftarrow> vm_dirs s (vm_cur s);
     ts \<leftarrow> upd_opt (pd_tables D) 0 0;
     es \<leftarrow> upd_opt (pd_entries D) 0 0;
     Some (s\<lparr>vm_dirs := (vm_dirs s)(vm_cur s \<mapsto> D\<lparr>pd_tables := ts, pd_entries := es\<rparr>)\<rparr>, k1) }"

end
