(* ===== verification/Paging_Props.thy ===== *)
theory Paging_Props
  imports Paging
begin

text \<open>
  The pager as a map from virtual pages to entries: \<open>walk\<close> is what the processor finds, \<open>vm_ok\<close> says that the
  tables of the current directory are distinct. The lemmas say what \<open>remappg\<close>, \<open>mappg\<close> and the functions
  built on them do to every page.
\<close>

lemma dindex_nat: "dindex v = unat v div 0x400000"
  by (simp add: dindex_def unat_div)

lemma tindex_nat: "tindex v = unat v div 0x1000 mod 1024"
proof -
  have "v div 0x1000 AND 0x3FF = take_bit 10 (v div 0x1000)" for v :: u32
    by (simp add: take_bit_eq_mask mask_eq_exp_minus_1)
  then show ?thesis by (simp add: tindex_def unsigned_take_bit_eq unat_div unat_mod take_bit_eq_mod)
qed

lemma dindex_less: "dindex v < 1024"
  using u32_bound [of v] by (simp add: dindex_nat)

lemma tindex_less: "tindex v < 1024"
  by (simp add: tindex_nat)

lemma page_index: "unat v div 0x1000 = dindex v * 1024 + tindex v"
proof -
  have "unat v div 0x400000 = unat v div 0x1000 div 1024" using div_mult2_eq [of "unat v" "0x1000" 1024] by simp
  then show ?thesis unfolding dindex_nat tindex_nat by (simp only: div_mult_mod_eq)
qed

text \<open>The hardware format of an entry: bit 0 is the present bit, the upper 20 bits are the frame number.\<close>

definition layout_ok :: "pg_layout \<Rightarrow> bool" where
  "layout_ok P \<longleftrightarrow> (\<forall>e. pg_present P e \<longleftrightarrow> bit e 0) \<and> (\<forall>e. pg_addr P e = e div 0x1000)"

definition i386_layout :: pg_layout where
  "i386_layout = \<lparr>pg_present = (\<lambda>e. bit e 0), pg_addr = (\<lambda>e. e div 0x1000)\<rparr>"

text \<open>The entry a walk of the current directory finds for a virtual address, 0 if there is no table.\<close>

definition walk :: "pg_layout \<Rightarrow> 'f vmm \<Rightarrow> addr \<Rightarrow> u32 option" where
  "walk P s virt = do {
     e \<leftarrow> cur_entry s (dindex virt);
     if \<not> pg_present P e then Some 0
     else do { t \<leftarrow> read_tab P s (dindex virt); nth_opt t (tindex virt) } }"

text \<open>A well-formed current directory: every entry that is present leads to a table of its own.\<close>

definition table_at :: "pg_layout \<Rightarrow> page_dir \<Rightarrow> nat \<Rightarrow> u32 \<Rightarrow> bool" where
  "table_at P D i fr \<longleftrightarrow> i < 1024 \<and> pg_present P (pd_entries D ! i) \<and> fr = pd_entries D ! i AND 0xFFFFF000"

definition vm_ok :: "pg_layout \<Rightarrow> 'f vmm \<Rightarrow> page_dir \<Rightarrow> bool" where
  "vm_ok P s D \<longleftrightarrow> vm_dirs s (vm_cur s) = Some D \<and> length (pd_entries D) = 1024 \<and> length (pd_tables D) = 1024 \<and>
     (\<forall>i fr. table_at P D i fr \<longrightarrow> (\<exists>t. vm_tabs s fr = Some t \<and> length t = 1024)) \<and>
     (\<forall>i j fr. table_at P D i fr \<longrightarrow> table_at P D j fr \<longrightarrow> i = j)"

lemma cur_entry_ok: "vm_ok P s D \<Longrightarrow> i < 1024 \<Longrightarrow> cur_entry s i = Some (pd_entries D ! i)"
  by (simp add: vm_ok_def cur_entry_def)

lemma read_tab_ok: "vm_ok P s D \<Longrightarrow> table_at P D i fr \<Longrightarrow> read_tab P s i = vm_tabs s fr"
  by (simp add: read_tab_def tab_frame_def cur_entry_ok table_at_def)

lemma write_tab_ok: "vm_ok P s D \<Longrightarrow> table_at P D i fr \<Longrightarrow>
    write_tab P i t s = Some (s\<lparr>vm_tabs := (vm_tabs s)(fr \<mapsto> t)\<rparr>)"
  by (simp add: write_tab_def tab_frame_def cur_entry_ok table_at_def)

lemma walk_present: "vm_ok P s D \<Longrightarrow> table_at P D (dindex v) fr \<Longrightarrow> vm_tabs s fr = Some t \<Longrightarrow> length t = 1024 \<Longrightarrow>
    walk P s v = Some (t ! tindex v)"
  by (simp add: walk_def cur_entry_ok read_tab_ok tindex_less dindex_less) (simp add: table_at_def)

lemma walk_absent: "vm_ok P s D \<Longrightarrow> \<not> pg_present P (pd_entries D ! dindex v) \<Longrightarrow> walk P s v = Some 0"
  by (simp add: walk_def cur_entry_ok dindex_less)

lemma walk_defined:
  assumes "vm_ok P s D"
  shows "\<exists>x. walk P s v = Some x"
proof (cases "pg_present P (pd_entries D ! dindex v)")
  case True
  then have t: "table_at P D (dindex v) (pd_entries D ! dindex v AND 0xFFFFF000)"
    by (simp add: table_at_def dindex_less)
  then obtain t where "vm_tabs s (pd_entries D ! dindex v AND 0xFFFFF000) = Some t" "length t = 1024"
    using assms unfolding vm_ok_def by blast
  with walk_present [OF assms t] show ?thesis by blast
next
  case False
  then show ?thesis using walk_absent [OF assms] by blast
qed

text \<open>Writing an entry of a table that is there.\<close>

lemma remappg_present:
  assumes ok: "vm_ok P s D" and tb: "table_at P D (dindex v) fr"
  shows "\<exists>old s'. remappg P getpg phys v flags s = Some (old, s') \<and> walk P s v = Some old \<and> vm_ok P s' D \<and>
    walk P s' v = Some (phys OR (flags AND 0xFFF)) \<and>
    (\<forall>v'. unat v' div 0x1000 \<noteq> unat v div 0x1000 \<longrightarrow> walk P s' v' = walk P s v') \<and> vm_frames s' = vm_frames s"
proof -
  obtain t where t: "vm_tabs s fr = Some t" "length t = 1024" using ok tb unfolding vm_ok_def by blast
  let ?t = "t[tindex v := phys OR (flags AND 0xFFF)]"
  let ?s' = "s\<lparr>vm_tabs := (vm_tabs s)(fr \<mapsto> ?t)\<rparr>"
  have pr: "pg_present P (pd_entries D ! dindex v)" using tb by (simp add: table_at_def)
  have run: "remappg P getpg phys v flags s = Some (t ! tindex v, ?s')"
    using pr t by (simp add: remappg_def cur_entry_ok [OF ok] dindex_less read_tab_ok [OF ok tb]
        write_tab_ok [OF ok tb] tindex_less)
  have ok': "vm_ok P ?s' D" using ok t(2) by (auto simp: vm_ok_def)
  have other: "walk P ?s' v' = walk P s v'" if ne: "unat v' div 0x1000 \<noteq> unat v div 0x1000" for v'
  proof (cases "pg_present P (pd_entries D ! dindex v')")
    case False
    then show ?thesis using walk_absent [OF ok] walk_absent [OF ok'] by simp
  next
    case True
    then have tb': "table_at P D (dindex v') (pd_entries D ! dindex v' AND 0xFFFFF000)" (is "table_at P D _ ?fr")
      by (simp add: table_at_def dindex_less)
    then obtain u where u: "vm_tabs s ?fr = Some u" "length u = 1024" using ok unfolding vm_ok_def by blast
    show ?thesis
    proof (cases "?fr = fr")
      case True
      then have "dindex v' = dindex v" using ok tb tb' unfolding vm_ok_def by metis
      then have "tindex v' \<noteq> tindex v" using ne page_index by metis
      moreover have "u = t" using u t True by simp
      ultimately show ?thesis
        using walk_present [OF ok tb' u] walk_present [OF ok' tb', of ?t] True u by simp
    next
      case False
      then show ?thesis using walk_present [OF ok tb' u] walk_present [OF ok' tb', of u] u by simp
    qed
  qed
  have "walk P ?s' v = Some (phys OR (flags AND 0xFFF))"
    using walk_present [OF ok' tb, of ?t] t by (simp add: tindex_less)
  moreover have "walk P s v = Some (t ! tindex v)" using walk_present [OF ok tb t] .
  ultimately show ?thesis using run ok' other by (intro exI [of _ "t ! tindex v"] exI [of _ ?s']) simp
qed


text \<open>A frame that can serve as a new table: page-aligned, and not the frame of a table in use.\<close>

definition fresh_frame :: "pg_layout \<Rightarrow> page_dir \<Rightarrow> addr \<Rightarrow> bool" where
  "fresh_frame P D tp \<longleftrightarrow> tp AND 0xFFF = 0 \<and> (\<forall>j. \<not> table_at P D j tp)"

lemma and_not_disjoint: "a AND b = 0 \<Longrightarrow> a AND NOT b = a" for a b :: u32
  by (rule bit_word_eqI) (auto simp: bit_simps bit_eq_iff)

lemma frame_or_flags:
  fixes tp flags :: u32
  assumes "tp AND 0xFFF = 0" and "flags AND 0xFFFFF000 = 0"
  shows "(tp OR flags) AND 0xFFFFF000 = tp"
proof -
  have m: "(0xFFFFF000 :: u32) = NOT 0xFFF" by simp
  have "tp AND 0xFFFFF000 = tp" unfolding m using assms(1) by (rule and_not_disjoint)
  with assms(2) show ?thesis by (simp add: bit.conj_disj_distrib2)
qed

lemma new_table_ok:
  assumes L: "layout_ok P" and ok: "vm_ok P s D" and i: "i < 1024" and abs: "\<not> pg_present P (pd_entries D ! i)"
    and get: "getpg (vm_frames s) = Some (tp, f)" and fresh: "fresh_frame P D tp"
    and fl: "bit flags 0" "flags AND 0xFFFFF000 = 0"
  shows "\<exists>s1 D1. new_table P getpg i flags s = Some s1 \<and> vm_ok P s1 D1 \<and> vm_frames s1 = f \<and>
    pg_present P (pd_entries D1 ! i) \<and> (\<forall>v. walk P s1 v = walk P s v)"
proof -
  let ?e = "tp OR flags"
  let ?D = "D\<lparr>pd_entries := (pd_entries D)[i := ?e], pd_tables := (pd_tables D)[i := of_nat i * 0x1000 + 0xFFC00000]\<rparr>"
  let ?s0 = "s\<lparr>vm_frames := f, vm_dirs := (vm_dirs s)(vm_cur s \<mapsto> ?D)\<rparr>"
  let ?s1 = "?s0\<lparr>vm_tabs := (vm_tabs s)(tp \<mapsto> replicate 1024 0)\<rparr>"
  have len: "length (pd_entries D) = 1024" "length (pd_tables D) = 1024" "vm_dirs s (vm_cur s) = Some D"
    using ok by (simp_all add: vm_ok_def)
  have fr: "?e AND 0xFFFFF000 = tp" using frame_or_flags fresh fl(2) by (simp add: fresh_frame_def)
  have pr: "pg_present P ?e" using L fl(1) by (simp add: layout_ok_def bit_or_iff)
  have "new_table P getpg i flags s = Some ?s1"
    using len get i pr fr by (simp add: new_table_def write_tab_def cur_entry_def tab_frame_def)
  moreover have tb: "table_at P ?D j x \<longleftrightarrow> (if j = i then x = tp else table_at P D j x)" for j x
    using len i pr fr by (auto simp: table_at_def)
  have "vm_ok P ?s1 ?D"
    unfolding vm_ok_def tb using ok fresh len(1,2) by (auto simp: vm_ok_def fresh_frame_def)
  moreover have "walk P ?s1 v = walk P s v" for v
  proof (cases "dindex v = i")
    case True
    have "table_at P ?D (dindex v) tp" using tb True by simp
    then have "walk P ?s1 v = Some 0"
      using walk_present [OF \<open>vm_ok P ?s1 ?D\<close>, of v tp "replicate 1024 0"] by (simp add: tindex_less)
    moreover have "walk P s v = Some 0" using walk_absent [OF ok] abs True by simp
    ultimately show ?thesis by simp
  next
    case False
    then have e: "pd_entries ?D ! dindex v = pd_entries D ! dindex v" by simp
    show ?thesis
    proof (cases "pg_present P (pd_entries D ! dindex v)")
      case pres: True
      then have t: "table_at P D (dindex v) (pd_entries D ! dindex v AND 0xFFFFF000)" (is "table_at P D _ ?fr")
        by (simp add: table_at_def dindex_less)
      then obtain u where u: "vm_tabs s ?fr = Some u" "length u = 1024" using ok unfolding vm_ok_def by blast
      have "?fr \<noteq> tp" using t fresh unfolding fresh_frame_def by metis
      then have "vm_tabs ?s1 ?fr = Some u" using u by simp
      moreover have "table_at P ?D (dindex v) ?fr" using t tb False by simp
      ultimately show ?thesis
        using walk_present [OF ok t u] walk_present [OF \<open>vm_ok P ?s1 ?D\<close> _ _ u(2)] by metis
    next
      case abs: False
      then have "walk P s v = Some 0" by (rule walk_absent [OF ok])
      moreover have "walk P ?s1 v = Some 0"
        by (rule walk_absent [OF \<open>vm_ok P ?s1 ?D\<close>]) (simp only: e abs not_False_eq_True)
      ultimately show ?thesis by simp
    qed
  qed
  ultimately show ?thesis using pr len i by (intro exI [of _ ?s1] exI [of _ ?D]) simp
qed

lemma remappg_maps_page:
  assumes L: "layout_ok P" and ok: "vm_ok P s D"
    and new: "\<not> pg_present P (pd_entries D ! dindex v) \<longrightarrow>
      (\<exists>tp f. getpg (vm_frames s) = Some (tp, f) \<and> fresh_frame P D tp) \<and> bit flags 0 \<and> flags AND 0xFFFFF000 = 0"
  shows "\<exists>old s' D'. remappg P getpg phys v flags s = Some (old, s') \<and> walk P s v = Some old \<and> vm_ok P s' D' \<and>
    walk P s' v = Some (phys OR (flags AND 0xFFF)) \<and>
    (\<forall>v'. unat v' div 0x1000 \<noteq> unat v div 0x1000 \<longrightarrow> walk P s' v' = walk P s v')"
proof (cases "pg_present P (pd_entries D ! dindex v)")
  case True
  then have "table_at P D (dindex v) (pd_entries D ! dindex v AND 0xFFFFF000)" by (simp add: table_at_def dindex_less)
  from remappg_present [OF ok this, of getpg phys flags] show ?thesis by blast
next
  case False
  then obtain tp f where g: "getpg (vm_frames s) = Some (tp, f)" "fresh_frame P D tp" "bit flags 0" "flags AND 0xFFFFF000 = 0"
    using new by blast
  obtain s1 D1 where s1: "new_table P getpg (dindex v) flags s = Some s1" "vm_ok P s1 D1"
    "pg_present P (pd_entries D1 ! dindex v)" "\<forall>v. walk P s1 v = walk P s v"
    using new_table_ok [where getpg = getpg and s = s and tp = tp and f = f, OF L ok dindex_less [of v] False g] by blast
  have e: "cur_entry s (dindex v) = Some (pd_entries D ! dindex v)" "cur_entry s1 (dindex v) = Some (pd_entries D1 ! dindex v)"
    using cur_entry_ok [OF ok dindex_less [of v]] cur_entry_ok [OF s1(2) dindex_less [of v]] by simp_all
  have "remappg P getpg phys v flags s = remappg P getpg phys v flags s1"
    using e False s1(1,3) unfolding remappg_def by simp
  moreover have "table_at P D1 (dindex v) (pd_entries D1 ! dindex v AND 0xFFFFF000)"
    using s1(3) by (simp add: table_at_def dindex_less)
  from remappg_present [OF s1(2) this, of getpg phys flags]
  obtain old s' where "remappg P getpg phys v flags s1 = Some (old, s')" "walk P s1 v = Some old" "vm_ok P s' D1"
    "walk P s' v = Some (phys OR (flags AND 0xFFF))"
    "\<forall>v'. unat v' div 0x1000 \<noteq> unat v div 0x1000 \<longrightarrow> walk P s' v' = walk P s1 v'" by blast
  ultimately show ?thesis using s1(4) by (intro exI [of _ old] exI [of _ s'] exI [of _ D1]) simp
qed


lemma mappg_cases:
  assumes "vm_ok P s D" and "walk P s v = Some x"
  shows "mappg P getpg phys v flags s = (if x = 0 then remappg P getpg phys v flags s else Some (x, s))"
proof (cases "pg_present P (pd_entries D ! dindex v)")
  case True
  then have t: "table_at P D (dindex v) (pd_entries D ! dindex v AND 0xFFFFF000)" (is "table_at P D _ ?fr")
    by (simp add: table_at_def dindex_less)
  then obtain u where u: "vm_tabs s ?fr = Some u" "length u = 1024" using assms(1) unfolding vm_ok_def by blast
  then have "u ! tindex v = x" using walk_present [OF assms(1) t u] assms(2) by simp
  with u True show ?thesis
    by (simp add: mappg_def cur_entry_ok [OF assms(1)] dindex_less read_tab_ok [OF assms(1) t] tindex_less)
next
  case False
  then show ?thesis using walk_absent [OF assms(1) False] assms(2)
    by (simp add: mappg_def cur_entry_ok [OF assms(1)] dindex_less)
qed

subsection \<open>Properties\<close>


text \<open>
  C18 (functional): \<open>allocpg\<close> leaves a page that is mapped as it is and gives the frame it took back;
  an unmapped page gets the new frame.
\<close>

theorem allocpg_maps_or_gives_back:
  assumes "layout_ok P" and "vm_ok P s D" and "getpg (vm_frames s) = Some (block, f)" and "block \<noteq> 0"
    and "walk P s v = Some x" and "x \<noteq> 0 \<Longrightarrow> freefr block f = Some f'"
    and "\<not> pg_present P (pd_entries D ! dindex v) \<Longrightarrow>
      (\<exists>tp f1. getpg f = Some (tp, f1) \<and> fresh_frame P D tp) \<and> bit flags 0 \<and> flags AND 0xFFFFF000 = 0"
  shows "\<exists>s'. allocpg P getpg freefr v flags s = Some (v, s') \<and>
    walk P s' v = Some (if x = 0 then block OR (flags AND 0xFFF) else x) \<and>
    (\<forall>v'. unat v' div 0x1000 \<noteq> unat v div 0x1000 \<longrightarrow> walk P s' v' = walk P s v') \<and>
    (x \<noteq> 0 \<longrightarrow> s' = s\<lparr>vm_frames := f'\<rparr>)"
proof -
  let ?s1 = "s\<lparr>vm_frames := f\<rparr>"
  have ok1: "vm_ok P ?s1 D" using assms(2) by (simp add: vm_ok_def)
  have w: "walk P (s\<lparr>vm_frames := g\<rparr>) v' = walk P s v'" for g v'
    unfolding walk_def read_tab_def cur_entry_def by (simp cong: if_cong)
  show ?thesis
  proof (cases "x = 0")
    case False
    have "mappg P getpg block v flags ?s1 = Some (x, ?s1)"
      using mappg_cases [OF ok1] w assms(5) False by simp
    then have "allocpg P getpg freefr v flags s = Some (v, s\<lparr>vm_frames := f'\<rparr>)"
      using assms(3,4,6) False by (simp add: allocpg_def)
    then show ?thesis using w assms(5) False by simp
  next
    case True
    have "\<not> pg_present P (pd_entries D ! dindex v) \<longrightarrow>
        (\<exists>tp f1. getpg (vm_frames ?s1) = Some (tp, f1) \<and> fresh_frame P D tp) \<and> bit flags 0 \<and> flags AND 0xFFFFF000 = 0"
      using assms(7) by simp
    from remappg_maps_page [where getpg = getpg and s = ?s1, OF assms(1) ok1 this, of block] obtain old s' where
      r: "remappg P getpg block v flags ?s1 = Some (old, s')" "walk P ?s1 v = Some old"
        "walk P s' v = Some (block OR (flags AND 0xFFF))"
        "\<forall>v'. unat v' div 0x1000 \<noteq> unat v div 0x1000 \<longrightarrow> walk P s' v' = walk P ?s1 v'" by blast
    have "old = 0" using r(2) w assms(5) True by simp
    then have "mappg P getpg block v flags ?s1 = Some (0, s')"
      using mappg_cases [OF ok1] w assms(5) True r(1) by simp
    then have "allocpg P getpg freefr v flags s = Some (v, s')" using assms(3,4) by (simp add: allocpg_def)
    then show ?thesis using r(3,4) w True by simp
  qed
qed

text \<open>
  \<open>freepg\<close> gives the frame back in the wrong case. Freeing a mapped page clears the mapping
  and never returns its frame to the allocator.
\<close>

lemma freepg_leaks:
  assumes "vm_ok P s D" and "pg_present P (pd_entries D ! dindex v)" and "walk P s v = Some e" and "e \<noteq> 0"
  shows "\<exists>s'. freepg P getpg freefr v s = Some s' \<and> walk P s' v = Some 0 \<and> vm_frames s' = vm_frames s"
proof -
  have "table_at P D (dindex v) (pd_entries D ! dindex v AND 0xFFFFF000)"
    using assms(2) by (simp add: table_at_def dindex_less)
  from remappg_present [OF assms(1) this, of getpg 0 0] obtain old s' where
    "remappg P getpg 0 v 0 s = Some (old, s')" "walk P s v = Some old" "walk P s' v = Some 0" "vm_frames s' = vm_frames s"
    by auto
  then show ?thesis using assms(3,4) by (auto simp: freepg_def)
qed

text \<open>
  Freeing an address that has no table yet makes a table without the present bit (the
  flags are 0) and writes through it: a page fault.
\<close>

lemma freepg_absent_faults:
  assumes "layout_ok P" and "vm_ok P s D" and "\<not> pg_present P (pd_entries D ! dindex v)"
    and "getpg (vm_frames s) = Some (tp, f)" and "tp AND 0xFFF = 0"
  shows "freepg P getpg freefr v s = None"
proof -
  have "bit (tp AND 0xFFF) 0 = bit tp 0" by (simp add: bit_and_iff)
  then have "\<not> bit tp 0" using assms(5) by simp
  then have np: "\<not> pg_present P tp" using assms(1) by (simp add: layout_ok_def)
  have len: "length (pd_entries D) = 1024" "length (pd_tables D) = 1024" "vm_dirs s (vm_cur s) = Some D"
    using assms(2) by (simp_all add: vm_ok_def)
  have "new_table P getpg (dindex v) 0 s = None"
    using len assms(4) np dindex_less [of v]
    by (simp add: new_table_def write_tab_def cur_entry_def tab_frame_def)
  then show ?thesis
    using assms(3) cur_entry_ok [OF assms(2) dindex_less [of v]] by (simp add: freepg_def remappg_def)
qed

text \<open>A small address space for the witnesses: one table, at frame 0x5000, for the addresses below 4 MiB.\<close>

definition demo_dir :: page_dir where
  "demo_dir = \<lparr>pd_tables = 0xFFC00000 # replicate 1023 0, pd_entries = 0x5003 # replicate 1023 0, pd_phys = 0x4000\<rparr>"

definition demo_vmm :: "addr list vmm" where
  "demo_vmm = \<lparr>vm_dirs = [0x100 \<mapsto> demo_dir], vm_cur = 0x100,
    vm_tabs = [0x5000 \<mapsto> 0x7003 # replicate 1023 0], vm_data = (\<lambda>x. None), vm_frames = [0x9000, 0xA000]\<rparr>"

definition pop_frame :: "addr list \<Rightarrow> (addr \<times> addr list) option" where
  "pop_frame fs = (case fs of [] \<Rightarrow> Some (0, []) | x # r \<Rightarrow> Some (x, r))"

lemma i386_layout_ok: "layout_ok i386_layout"
  by (simp add: layout_ok_def i386_layout_def)

lemma demo_table_at: "table_at i386_layout demo_dir i fr \<longleftrightarrow> i = 0 \<and> fr = 0x5000"
proof (cases i)
  case 0
  then show ?thesis by (auto simp: table_at_def i386_layout_def demo_dir_def)
next
  case (Suc j)
  then show ?thesis by (auto simp: table_at_def i386_layout_def demo_dir_def)
qed

lemma demo_vm_ok: "vm_ok i386_layout demo_vmm demo_dir"
  unfolding vm_ok_def demo_table_at by (auto simp: demo_vmm_def demo_dir_def)


lemma demo_walk0: "walk i386_layout demo_vmm 0 = Some 0x7003"
  by (simp add: walk_def cur_entry_def read_tab_def tab_frame_def demo_vmm_def demo_dir_def i386_layout_def
      dindex_nat tindex_nat)

theorem allocpg_maps_or_gives_back_witness:
  "\<exists>s'. allocpg i386_layout pop_frame (\<lambda>b fs. Some (b # fs)) 0 3 demo_vmm = Some (0, s') \<and>
    walk i386_layout s' 0 = Some 0x7003 \<and> vm_frames s' = [0x9000, 0xA000]"
proof -
  have p: "pg_present i386_layout (pd_entries demo_dir ! dindex 0)"
    by (simp add: i386_layout_def demo_dir_def dindex_nat)
  have "pop_frame (vm_frames demo_vmm) = Some (0x9000, [0xA000])" by (simp add: pop_frame_def demo_vmm_def)
  from allocpg_maps_or_gives_back [where getpg = pop_frame and s = demo_vmm and v = 0 and block = "0x9000" and
      f = "[0xA000]" and freefr = "\<lambda>b fs. Some (b # fs)" and f' = "[0x9000, 0xA000]" and flags = 3,
      OF i386_layout_ok demo_vm_ok this _ demo_walk0] p
  show ?thesis by auto
qed

lemma freepg_leaks_witness:
  "\<exists>s'. freepg i386_layout pop_frame (\<lambda>b fs. Some (b # fs)) 0 demo_vmm = Some s' \<and>
    walk i386_layout s' 0 = Some 0 \<and> vm_frames s' = vm_frames demo_vmm"
  by (rule freepg_leaks [OF demo_vm_ok _ demo_walk0]) (simp_all add: i386_layout_def demo_dir_def dindex_nat)

lemma freepg_absent_faults_witness:
  "freepg i386_layout pop_frame (\<lambda>b fs. Some (b # fs)) 0x400000 demo_vmm = None"
  by (rule freepg_absent_faults [OF i386_layout_ok demo_vm_ok, of _ _ "0x9000" "[0xA000]"])
    (simp_all add: i386_layout_def demo_dir_def dindex_nat pop_frame_def demo_vmm_def)

end
