(* ===== verification/Descriptors.thy ===== *)
theory Descriptors
  imports Prelude
begin

text \<open>
  Segment and interrupt descriptors and the dispatch of interrupts: \<^verbatim>\<open>module/gdt/main.c\<close>,
  \<^verbatim>\<open>module/idt/main.c\<close>, \<^verbatim>\<open>module/isr/main.c\<close> and \<^verbatim>\<open>module/irq/main.c\<close>. The instructions that load
  the tables are not modelled; writes to I/O ports are lists of port and value. The entry stubs
  \<^verbatim>\<open>_isr0\<close>, \<^verbatim>\<open>_irq0\<close> and so on are assembly code: their addresses are a parameter.
\<close>

subsection \<open>The GDT\<close>

record gdt_entry =
  limit_low :: u16
  base_low :: u16
  base_mid :: u8
  access :: u8
  gflags :: u8
  base_high :: u8

record gdt_descriptor =
  gd_size :: u16
  gd_addr :: u32

definition zero_gdt :: gdt_entry where
  "zero_gdt = \<lparr>limit_low = 0, base_low = 0, base_mid = 0, access = 0, gflags = 0, base_high = 0\<rparr>"

text \<open>\<^verbatim>\<open>limit_high\<close> is the lower half of the byte \<^verbatim>\<open>flags\<close>.\<close>

definition set_limit_high :: "u32 \<Rightarrow> gdt_entry \<Rightarrow> gdt_entry" where
  "set_limit_high v e = e\<lparr>gflags := (gflags e AND 0xF0) OR (ucast v AND 0xF)\<rparr>"

definition add_gdt :: "nat \<Rightarrow> u32 \<Rightarrow> u32 \<Rightarrow> u8 \<Rightarrow> u8 \<Rightarrow> gdt_entry list \<Rightarrow> gdt_entry list option" where
  "add_gdt i base limit acc flags g = do {
     e \<leftarrow> nth_opt g i;
     let e1 = e\<lparr>base_low := ucast (base AND 0xFFFF)\<rparr>;
     let e2 = e1\<lparr>base_mid := ucast (drop_bit 16 base AND 0xFF)\<rparr>;
     let e3 = e2\<lparr>base_high := ucast (drop_bit 24 base AND 0xFF)\<rparr>;
     let e4 = e3\<lparr>limit_low := ucast (limit AND 0xFFFF)\<rparr>;
     let e5 = set_limit_high (drop_bit 16 limit AND 0xF) e4;
     let e6 = e5\<lparr>access := acc\<rparr>;
     let e7 = e6\<lparr>gflags := ucast (drop_bit 16 limit AND 0xF)\<rparr>;
     let e8 = e7\<lparr>gflags := gflags e7 OR (flags AND 0xF0)\<rparr>;
     upd_opt g i e8 }"

record tss =
  tss_esp0 :: u32
  tss_ss0 :: u32
  tss_segs :: "u32 list"
  tss_iopb :: u16
  tss_iobm :: "u8 list"

text \<open>The sizes of \<^verbatim>\<open>struct tss_entry_base\<close> and \<^verbatim>\<open>tss_entry_t\<close>, in bytes.\<close>

definition tss_base_size :: u32 where "tss_base_size = 104"
definition tss_size :: u32 where "tss_size = 104 + 8192"

text \<open>
  \<open>tss_addr\<close> is the address of \<^verbatim>\<open>tss_entry\<close>. The fields of the structure that stay 0 are left out;
  \<open>tss_segs\<close> holds \<^verbatim>\<open>es\<close>, \<^verbatim>\<open>cs\<close>, \<^verbatim>\<open>ss\<close>, \<^verbatim>\<open>ds\<close>, \<^verbatim>\<open>fs\<close>, \<^verbatim>\<open>gs\<close>.
\<close>

definition add_tss :: "u32 \<Rightarrow> nat \<Rightarrow> gdt_entry list \<Rightarrow> (tss \<times> gdt_entry list) option" where
  "add_tss tss_addr i g = (let limit = tss_addr + tss_size in do {
     g1 \<leftarrow> add_gdt i tss_addr limit 0xE9 0 g;
     Some (\<lparr>tss_esp0 = 0, tss_ss0 = 0x10, tss_segs = [0x13, 0x0b, 0x13, 0x13, 0x13, 0x13],
       tss_iopb = ucast tss_base_size, tss_iobm = replicate 8192 0xFF\<rparr>, g1) })"

definition update_iobm :: "u8 list \<Rightarrow> tss \<Rightarrow> tss option" where
  "update_iobm bm t = (if length bm < 8192 then None else Some (t\<lparr>tss_iobm := take 8192 bm\<rparr>))"

definition update_kstack :: "u32 \<Rightarrow> tss \<Rightarrow> tss" where
  "update_kstack esp t = t\<lparr>tss_esp0 := esp\<rparr>"

definition gdt_init :: "u32 \<Rightarrow> u32 \<Rightarrow> (gdt_descriptor \<times> tss \<times> gdt_entry list) option" where
  "gdt_init gdt_addr tss_addr = do {
     let d = \<lparr>gd_size = 8 * 6 - 1, gd_addr = gdt_addr\<rparr>;
     let g = replicate 6 zero_gdt;
     g1 \<leftarrow> add_gdt 1 0 0xFFFFFFFF 0x9A 0xCF g;
     g2 \<leftarrow> add_gdt 2 0 0xFFFFFFFF 0x92 0xCF g1;
     g3 \<leftarrow> add_gdt 3 0 0xFFFFFFFF 0xFA 0xCF g2;
     g4 \<leftarrow> add_gdt 4 0 0xFFFFFFFF 0xF2 0xCF g3;
     (t, g5) \<leftarrow> add_tss tss_addr 5 g4;
     Some (d, t, g5) }"

text \<open>What the processor reads from a descriptor.\<close>

definition gdt_base :: "gdt_entry \<Rightarrow> u32" where
  "gdt_base e = ucast (base_low e) OR push_bit 16 (ucast (base_mid e)) OR push_bit 24 (ucast (base_high e))"

definition gdt_limit :: "gdt_entry \<Rightarrow> u32" where
  "gdt_limit e = ucast (limit_low e) OR push_bit 16 (ucast (gflags e AND 0xF))"

subsection \<open>The IDT\<close>

record idt_entry =
  offset_low :: u16
  selector :: u16
  izero :: u8
  iflags :: u8
  offset_high :: u16

definition idt_createEntry :: "nat \<Rightarrow> addr \<Rightarrow> u16 \<Rightarrow> u8 \<Rightarrow> idt_entry list \<Rightarrow> idt_entry list option" where
  "idt_createEntry i func sel flags t = do {
     e \<leftarrow> nth_opt t i;
     upd_opt t i (e\<lparr>offset_low := ucast (func AND 0xFFFF),
       offset_high := ucast (drop_bit 16 func AND 0xFFFF), selector := sel, iflags := flags\<rparr>) }"

definition idt_init :: "idt_entry list" where
  "idt_init = replicate 256 \<lparr>offset_low = 0, selector = 0, izero = 0, iflags = 0, offset_high = 0\<rparr>"

text \<open>\<^verbatim>\<open>setup_idt\<close>: the descriptor loaded with \<^verbatim>\<open>idt_flush\<close>, for a table at an address.\<close>

record idt_ptr =
  ip_size :: u16
  ip_addr :: addr

definition setup_idt :: "addr \<Rightarrow> idt_ptr" where
  "setup_idt entries = \<lparr>ip_size = 8 * 256 - 1, ip_addr = entries\<rparr>"

lemma setup_idt_size: "unat (ip_size (setup_idt a)) + 1 = 8 * length idt_init"
  by (simp add: setup_idt_def idt_init_def)

definition idt_offset :: "idt_entry \<Rightarrow> addr" where
  "idt_offset e = ucast (offset_low e) OR push_bit 16 (ucast (offset_high e))"

text \<open>The gates the two modules create: gate number and stub number.\<close>

fun create_gates :: "(nat \<Rightarrow> addr) \<Rightarrow> nat list \<Rightarrow> idt_entry list \<Rightarrow> idt_entry list option" where
  "create_gates stub [] t = Some t"
| "create_gates stub (i # is) t = do { t1 \<leftarrow> idt_createEntry i (stub i) 0x08 0x8E t; create_gates stub is t1 }"

definition isr_gates :: "nat list" where
  "isr_gates = [0..<32]"

definition irq_gates_low :: "nat list" where
  "irq_gates_low = [32..<144]"

definition irq_gates_high :: "nat list" where
  "irq_gates_high = [144..<256]"

definition isr_init :: "(nat \<Rightarrow> addr) \<Rightarrow> idt_entry list \<Rightarrow> idt_entry list option" where
  "isr_init stub t = create_gates stub isr_gates t"

subsection \<open>Exceptions\<close>

type_synonym handlers = "addr list"

datatype isr_result = Call addr | Panic string

definition nl :: string where
  "nl = [CHR 0x0A]"

definition isr_addHandler :: "u8 \<Rightarrow> addr \<Rightarrow> handlers \<Rightarrow> handlers option" where
  "isr_addHandler i h hs = (if 32 \<le> i then Some hs else upd_opt hs (unat i) h)"

definition unhandled_exception :: "u32 \<Rightarrow> string" where
  "unhandled_exception num =
     (if num = 0 then ''Unhandled Divide by Zero Error @ %p'' @ nl
      else if num = 2 then ''Unhandled NMI'' @ nl
      else if num = 4 then ''Unhandled Overflow exception @ %p'' @ nl
      else if num = 5 then ''Unhandled Bound Range Exceeded exception @ %p'' @ nl
      else if num = 6 then ''Unhandled Invalid Opcode exception @ %p'' @ nl
      else if num = 7 then ''Unhandled DNA @ %p'' @ nl
      else if num = 8 then ''Unhandled Double Fault exception''
      else if num = 10 then ''Unhandled Invalid TSS exception (%i)'' @ nl
      else if num = 11 then ''Unhandled Segment Not Present exception (%i)'' @ nl
      else if num = 12 then ''Unhandled Stack Segment Fault (%i)'' @ nl
      else if num = 13 then ''Unhandled General Protection Fault (%i)'' @ nl
      else if num = 14 then ''Unhandled Page Fault @ %p (err %i)'' @ nl
      else ''Unhandled Unknown exception @ %p (err %i)'' @ nl)"

definition isr_handler :: "handlers \<Rightarrow> u32 \<Rightarrow> isr_result option" where
  "isr_handler hs num = do {
     h \<leftarrow> nth_opt hs (unat num);
     Some (if h \<noteq> 0 then Call h else Panic (unhandled_exception num)) }"

subsection \<open>Interrupt requests\<close>

datatype irq_result = CallIrq addr | Outs "(u16 \<times> u8) list"

text \<open>The index is a byte and the table has 224 entries.\<close>

definition irq_addHandler :: "u8 \<Rightarrow> addr \<Rightarrow> handlers \<Rightarrow> handlers option" where
  "irq_addHandler i h hs = upd_opt hs (unat i) h"

definition irq_handler :: "handlers \<Rightarrow> u32 \<Rightarrow> irq_result option" where
  "irq_handler hs num = (let k = num - 32 in do {
     h \<leftarrow> nth_opt hs (unat k);
     if h \<noteq> 0 then Some (CallIrq h)
     else if 16 \<le> k then Some (Outs [])
     else Some (Outs ((if 8 \<le> k then [(0xA0, 0x20)] else []) @ [(0x20, 0x20)])) })"

record intr =
  i_depth :: int
  i_flag :: bool

definition disable_interrupts :: "intr \<Rightarrow> intr" where
  "disable_interrupts s =
     (let s1 = (if i_depth s < 1 then s\<lparr>i_flag := False\<rparr> else s) in s1\<lparr>i_depth := i_depth s1 + 1\<rparr>)"

definition enable_interrupts :: "intr \<Rightarrow> intr" where
  "enable_interrupts s =
     (let s1 = s\<lparr>i_depth := i_depth s - 1\<rparr>;
          s2 = (if i_depth s1 < 1 then s1\<lparr>i_flag := True\<rparr> else s1)
      in if i_depth s2 < 0 then s2\<lparr>i_depth := 0\<rparr> else s2)"

definition pic_program :: "(u16 \<times> u8) list" where
  "pic_program = [(0x20, 0x11), (0xA0, 0x11), (0x21, 0x20), (0xA1, 0x28),
     (0x21, 0x04), (0xA1, 0x02), (0x21, 0x01), (0xA1, 0x01), (0x21, 0x0), (0xA1, 0x0)]"

definition irq_init :: "(nat \<Rightarrow> addr) \<Rightarrow> idt_entry list \<Rightarrow> intr \<Rightarrow> (idt_entry list \<times> (u16 \<times> u8) list \<times> intr) option" where
  "irq_init stub t s = do {
     t1 \<leftarrow> create_gates stub (irq_gates_low @ irq_gates_high) t;
     Some (t1, pic_program, enable_interrupts s) }"

end
