(* ===== verification/Descriptors_Props.thy ===== *)
theory Descriptors_Props
  imports Descriptors
begin

text \<open>
  What the descriptor and interrupt code guarantees: fields written are the fields the processor reads,
  every interrupt gate is installed, and nested sections with interrupts disabled stay balanced.
\<close>

subsection \<open>Encoding and decoding\<close>

lemma masks: "(0xFFFF :: u32) = mask 16" "(0xFF :: u32) = mask 8" "(0xF :: u32) = mask 4" "(0xF :: u8) = mask 4"
  "(0xF0 :: u8) = NOT (mask 4)"
  by (simp_all add: mask_eq_exp_minus_1)

lemma word32_halves:
  "ucast (ucast (w AND 0xFFFF) :: u16) OR push_bit 16 (ucast (ucast (drop_bit 16 w AND 0xFFFF) :: u16)) = w"
  for w :: u32
  unfolding masks by (rule bit_word_eqI) (auto simp: bit_simps)

lemma word32_parts:
  "ucast (ucast (w AND 0xFFFF) :: u16) OR push_bit 16 (ucast (ucast (drop_bit 16 w AND 0xFF) :: u8)) OR
    push_bit 24 (ucast (ucast (drop_bit 24 w AND 0xFF) :: u8)) = w"
  (is "?l = w") for w :: u32
proof (rule bit_word_eqI)
  fix n assume "n < LENGTH(32)"
  then show "bit ?l n \<longleftrightarrow> bit w n"
    unfolding masks by (cases "n < 24") (auto simp: bit_simps)
qed

lemma limit_parts:
  "ucast (ucast (w AND 0xFFFF) :: u16) OR
    push_bit 16 (ucast ((ucast (drop_bit 16 w AND 0xF) OR (fl AND 0xF0)) AND 0xF :: u8)) = take_bit 20 w"
  for w :: u32
  unfolding masks by (rule bit_word_eqI) (auto simp: bit_simps)

lemma flags_high: "(ucast (drop_bit 16 w AND 0xF) OR (fl AND 0xF0)) AND 0xF0 = fl AND 0xF0" for w :: u32 and fl :: u8
  unfolding masks by (rule bit_word_eqI) (auto simp: bit_simps)

lemma add_gdt_entry:
  assumes "i < length g"
  shows "\<exists>g'. add_gdt i base limit acc fl g = Some g' \<and> length g' = length g \<and>
    gdt_base (g' ! i) = base \<and> gdt_limit (g' ! i) = take_bit 20 limit \<and> access (g' ! i) = acc \<and>
    gflags (g' ! i) AND 0xF0 = fl AND 0xF0 \<and> (\<forall>j. j \<noteq> i \<longrightarrow> g' ! j = g ! j)"
  using assms
  by (simp add: add_gdt_def set_limit_high_def gdt_base_def gdt_limit_def word32_parts limit_parts flags_high)

text \<open>
  \<open>add_tss\<close> passes the end address of the task state as the limit, where the descriptor
  keeps its lower 20 bits. For a task state at 0xC00FDF98 the segment's limit is 0, so that neither
  the kernel stack pointer nor the I/O map lies within it.
\<close>

lemma add_tss_limit:
  "\<exists>t g'. add_tss a 5 (replicate 6 zero_gdt) = Some (t, g') \<and> gdt_base (g' ! 5) = a \<and>
    gdt_limit (g' ! 5) = take_bit 20 (a + 8296) \<and> (a = 0xC00FDF98 \<longrightarrow> gdt_limit (g' ! 5) = 0)"
proof -
  obtain g' where g': "add_gdt 5 a (a + 8296) 0xE9 0 (replicate 6 zero_gdt) = Some g'"
    "gdt_base (g' ! 5) = a" "gdt_limit (g' ! 5) = take_bit 20 (a + 8296)"
    using add_gdt_entry [of 5 "replicate 6 zero_gdt" a "a + 8296" "0xE9" 0] by auto
  moreover have "take_bit 20 (0xC00FDF98 + 8296 :: u32) = 0" by simp
  ultimately show ?thesis by (auto simp: add_tss_def tss_size_def Let_def)
qed

lemma add_tss_limit_witness:
  "\<exists>t g'. add_tss 0xC00FDF98 5 (replicate 6 zero_gdt) = Some (t, g') \<and> gdt_limit (g' ! 5) = 0"
  using add_tss_limit [of "0xC00FDF98"] by auto

lemma idt_createEntry_entry:
  assumes "i < length t"
  shows "\<exists>e. idt_createEntry i func sel fl t = Some (t[i := e]) \<and> idt_offset e = func \<and> selector e = sel \<and>
    iflags e = fl \<and> izero e = izero (t ! i)"
  using assms
  by (intro exI [of _ "(t ! i)\<lparr>offset_low := ucast (func AND 0xFFFF),
      offset_high := ucast (drop_bit 16 func AND 0xFFFF), selector := sel, iflags := fl\<rparr>"])
    (simp add: idt_createEntry_def idt_offset_def word32_halves)

lemma create_gates_spec:
  "distinct is \<Longrightarrow> \<forall>i \<in> set is. i < length t \<Longrightarrow>
    \<exists>t'. create_gates stub is t = Some t' \<and> length t' = length t \<and>
      (\<forall>i \<in> set is. idt_offset (t' ! i) = stub i \<and> selector (t' ! i) = 8 \<and> iflags (t' ! i) = 0x8E \<and> izero (t' ! i) = izero (t ! i)) \<and>
      (\<forall>j. j \<notin> set is \<longrightarrow> t' ! j = t ! j)"
proof (induction "is" arbitrary: t)
  case Nil
  then show ?case by simp
next
  case (Cons i "is")
  obtain e where e: "idt_createEntry i (stub i) 8 0x8E t = Some (t[i := e])" "idt_offset e = stub i" "selector e = 8"
    "iflags e = 0x8E" "izero e = izero (t ! i)"
    using idt_createEntry_entry [of i t "stub i" 8 "0x8E"] Cons.prems(2) by auto
  obtain t' where t': "create_gates stub is (t[i := e]) = Some t'" "length t' = length t"
    "\<forall>k \<in> set is. idt_offset (t' ! k) = stub k \<and> selector (t' ! k) = 8 \<and> iflags (t' ! k) = 0x8E \<and>
      izero (t' ! k) = izero (t[i := e] ! k)" "\<forall>j. j \<notin> set is \<longrightarrow> t' ! j = t[i := e] ! j"
    using Cons.IH [of "t[i := e]"] Cons.prems by auto
  have ne: "t[i := e] ! k = t ! k" if "k \<in> set is" for k
    using that Cons.prems(1) by (auto intro: nth_list_update_neq)
  have "t' ! i = e" using t'(4) Cons.prems by auto
  moreover have "t' ! j = t ! j" if "j \<notin> set (i # is)" for j using t'(4) that by auto
  ultimately show ?case using e t'(1-3) ne by (intro exI [of _ t']) auto
qed

text \<open>
  After \<open>isr_init\<close> and \<open>irq_init\<close>, every one of the 256 interrupt gates leads to its
  own stub, in the kernel's code segment, as a present interrupt gate of privilege level 0.
\<close>

lemma all_gates_installed:
  "\<exists>t t'. isr_init stub idt_init = Some t \<and>
    irq_init stub t s = Some (t', pic_program, enable_interrupts s) \<and> length t' = 256 \<and>
    (\<forall>i < 256. idt_offset (t' ! i) = stub i \<and> selector (t' ! i) = 8 \<and> iflags (t' ! i) = 0x8E \<and> izero (t' ! i) = 0)"
proof -
  have len: "length idt_init = 256" by (simp add: idt_init_def)
  have num32: "(32::nat) < 256" by simp
  have b1: "\<forall>i \<in> set [0..<32]. i < length idt_init" unfolding len set_upt by (meson atLeastLessThan_iff less_trans num32)
  obtain t where t: "create_gates stub [0..<32] idt_init = Some t" "length t = length idt_init"
    and ti: "\<forall>i \<in> set [0..<32]. idt_offset (t ! i) = stub i \<and> selector (t ! i) = 8 \<and> iflags (t ! i) = 0x8E \<and> izero (t ! i) = izero (idt_init ! i)"
    and to: "\<forall>j. j \<notin> set [0..<32] \<longrightarrow> t ! j = idt_init ! j"
    using create_gates_spec [OF distinct_upt b1] by blast
  have all: "irq_gates_low @ irq_gates_high = [32..<256]"
  proof -
    have le: "(32::nat) \<le> 144" and e: "(144::nat) + 112 = 256" by simp_all
    show ?thesis unfolding irq_gates_low_def irq_gates_high_def
      by (rule upt_add_eq_append [OF le, of 112, unfolded e, symmetric])
  qed
  have b2: "\<forall>i \<in> set [32..<256]. i < length t" unfolding t(2) len set_upt by (meson atLeastLessThan_iff)
  obtain t' where t': "create_gates stub [32..<256] t = Some t'" "length t' = length t"
    and ti': "\<forall>i \<in> set [32..<256]. idt_offset (t' ! i) = stub i \<and> selector (t' ! i) = 8 \<and> iflags (t' ! i) = 0x8E \<and> izero (t' ! i) = izero (t ! i)"
    and to': "\<forall>j. j \<notin> set [32..<256] \<longrightarrow> t' ! j = t ! j"
    using create_gates_spec [OF distinct_upt b2] by blast
  have z: "izero (idt_init ! i) = 0" if "i < 256" for i using that by (simp add: idt_init_def)
  have m: "(i \<in> set [a..<b]) = (a \<le> i \<and> i < b)" for i a b :: nat by auto
  have "idt_offset (t' ! i) = stub i \<and> selector (t' ! i) = 8 \<and> iflags (t' ! i) = 0x8E \<and> izero (t' ! i) = 0"
    if i: "i < 256" for i
  proof (cases "i < 32")
    case True
    then have "i \<notin> set [32..<256]" and l: "i \<in> set [0..<32]" unfolding m by linarith+
    then have "t' ! i = t ! i" using to' by blast
    then show ?thesis using bspec [OF ti l] z [OF i] by (simp only:)
  next
    case False
    then have n: "i \<notin> set [0..<32]" and l: "i \<in> set [32..<256]" using i unfolding m by linarith+
    have "t ! i = idt_init ! i" using to n by blast
    then show ?thesis using bspec [OF ti' l] z [OF i] by (simp only:)
  qed
  then have "\<forall>i < 256. idt_offset (t' ! i) = stub i \<and> selector (t' ! i) = 8 \<and> iflags (t' ! i) = 0x8E \<and> izero (t' ! i) = 0"
    by blast
  moreover have "isr_init stub idt_init = Some t" unfolding isr_init_def isr_gates_def by (rule t(1))
  moreover have "irq_init stub t s = Some (t', pic_program, enable_interrupts s)"
    unfolding irq_init_def all t'(1) by simp
  moreover have "length t' = 256" using t'(2) t(2) len by (simp only:)
  ultimately show ?thesis by blast
qed

lemma all_gates_installed_witness:
  "\<exists>t t' o1 s1. isr_init (\<lambda>i. 0xC0100000 + of_nat i) idt_init = Some t \<and>
    irq_init (\<lambda>i. 0xC0100000 + of_nat i) t \<lparr>i_depth = 1, i_flag = False\<rparr> = Some (t', o1, s1) \<and>
    idt_offset (t' ! 33) = 0xC0100021 \<and> selector (t' ! 33) = 8"
proof -
  let ?f = "\<lambda>i. 0xC0100000 + of_nat i :: u32" and ?s = "\<lparr>i_depth = 1, i_flag = False\<rparr>"
  obtain t t' where t: "isr_init ?f idt_init = Some t"
    "irq_init ?f t ?s = Some (t', pic_program, enable_interrupts ?s)"
    "\<forall>i < 256. idt_offset (t' ! i) = ?f i \<and> selector (t' ! i) = 8 \<and> iflags (t' ! i) = 0x8E \<and> izero (t' ! i) = 0"
    using all_gates_installed [of ?f ?s] by blast
  have "(33::nat) < 256" by simp
  then have "idt_offset (t' ! 33) = ?f 33" "selector (t' ! 33) = 8" using t(3) by blast+
  then show ?thesis using t(1,2) by (intro exI conjI) (assumption | simp)+
qed

text \<open>
  The handler table of \<^verbatim>\<open>irq\<close> has 224 entries and \<open>irq_addHandler\<close> does not check its
  byte index: an index from 224 on writes past the table. \<open>isr_addHandler\<close> ignores such an index.
\<close>

lemma irq_addHandler_unchecked:
  "length hs = 224 \<Longrightarrow> irq_addHandler i h hs = (if unat i < 224 then Some (hs[unat i := h]) else None)"
  by (simp add: irq_addHandler_def upd_opt_def)

text \<open>Nesting of disabled sections.\<close>

datatype intr_op = Disable | Enable

fun intr_run :: "intr_op list \<Rightarrow> intr \<Rightarrow> intr" where
  "intr_run [] s = s"
| "intr_run (Disable # ops) s = intr_run ops (disable_interrupts s)"
| "intr_run (Enable # ops) s = intr_run ops (enable_interrupts s)"

lemma intr_step:
  "0 \<le> i_depth s \<Longrightarrow> i_flag s = (i_depth s = 0) \<Longrightarrow>
    0 \<le> i_depth (disable_interrupts s) \<and> i_flag (disable_interrupts s) = (i_depth (disable_interrupts s) = 0) \<and>
    0 \<le> i_depth (enable_interrupts s) \<and> i_flag (enable_interrupts s) = (i_depth (enable_interrupts s) = 0)"
  by (auto simp: disable_interrupts_def enable_interrupts_def Let_def)

text \<open>
  From a state where interrupts are on exactly if no disabled section is open, this
  stays so after any sequence of \<open>disable_interrupts\<close> and \<open>enable_interrupts\<close>, and the depth never
  gets negative.
\<close>

lemma intr_nesting:
  assumes "0 \<le> i_depth s" and "i_flag s = (i_depth s = 0)"
  shows "0 \<le> i_depth (intr_run ops s) \<and> i_flag (intr_run ops s) = (i_depth (intr_run ops s) = 0)"
  using assms
proof (induction ops arbitrary: s)
  case Nil
  then show ?case by simp
next
  case (Cons c ops)
  from Cons.IH intr_step [OF Cons.prems] show ?case by (cases c) simp_all
qed

lemma intr_nesting_witness:
  "\<not> i_flag (intr_run [Disable, Disable, Enable] \<lparr>i_depth = 0, i_flag = True\<rparr>)"
  using intr_nesting [of "\<lparr>i_depth = 0, i_flag = True\<rparr>" "[Disable, Disable, Enable]"]
  by (simp add: disable_interrupts_def enable_interrupts_def)

end
