(* ===== verification/Tasking.thy ===== *)
theory Tasking
  imports KList Message Descriptors
begin

text \<open>
  The state of the process-related modules and the scheduler, \<^verbatim>\<open>module/tasking/main.c\<close>.

  One record, \<open>kern\<close>, holds what \<^verbatim>\<open>tasking\<close>, \<^verbatim>\<open>user\<close>, \<^verbatim>\<open>message\<close> and \<^verbatim>\<open>syscall\<close> share: the lists with
  their allocator (\<open>k_ls\<close>), the objects by address, the global variables, and \<open>k_vm\<close>, the memory as the
  processor sees it in the current address space. What these modules call is the record \<open>services\<close>:
  the allocator, the functions behind \<^verbatim>\<open>virtual_allocator\<close> and \<^verbatim>\<open>physical_allocator\<close>, reading and writing
  bytes (which may fault), and the initial ramdisk of the kernel submodule. The locks have no
  counterpart.
\<close>

subsection \<open>State\<close>

record task =
  t_tslice :: u32
  t_priority :: u8
  t_blocked :: bool
  t_ksp :: addr
  t_kbp :: addr
  t_ip :: addr
  t_kstack_top :: addr
  t_dir :: addr
  t_iobm :: addr
  t_parent :: addr

record syscall_state =
  r_num :: u32
  r_arg1 :: u32
  r_arg2 :: u32
  r_arg3 :: u32
  r_arg4 :: u32
  r_arg5 :: u32
  r_ebp :: u32
  r_ds :: u32
  r_es :: u32
  r_fs :: u32
  r_gs :: u32
  r_eip :: u32
  r_cs :: u32
  r_eflags :: u32
  r_usresp :: u32
  r_ss :: u32

record user_task =
  ut_task :: addr
  ut_perms :: u32
  ut_state :: syscall_state
  ut_pid :: u32
  ut_recvbuf :: message_buffer
  ut_sendbuf :: addr
  ut_msg_ack :: bool

text \<open>The fields of \<^verbatim>\<open>initrd_file_t\<close> (kernel submodule) that are used.\<close>

record initrd_file =
  f_name :: string
  f_data_start :: addr
  f_size :: u32

record ('h, 'v) kern =
  k_ls :: "'h lstate"
  k_tasks :: "task store"
  k_utasks :: "user_task store"
  k_msgs :: "message store"
  k_files :: "initrd_file store"
  k_iobms :: "u8 list store"
  k_vm :: 'v
  k_task_order :: addr
  k_current :: addr
  k_enabled :: bool
  k_utsk_list :: addr
  k_next_pid :: u32
  k_tss :: tss
  k_intr :: intr
  k_out :: "string list"

record ('h, 'v) services =
  sv_alloc :: "'h alloc_fn"
  sv_alloc_a :: "u32 \<Rightarrow> 'h alloc_fn"
  sv_free :: "'h free_fn"
  sv_curdir :: "'v \<Rightarrow> addr"
  sv_swpdir :: "addr \<Rightarrow> 'v \<Rightarrow> 'v option"
  sv_clonedir :: "addr \<Rightarrow> 'v \<Rightarrow> (addr \<times> 'v) option"
  sv_remappg :: "addr \<Rightarrow> addr \<Rightarrow> u32 \<Rightarrow> 'v \<Rightarrow> (u32 \<times> 'v) option"
  sv_mappg :: "addr \<Rightarrow> addr \<Rightarrow> u32 \<Rightarrow> 'v \<Rightarrow> (u32 \<times> 'v) option"
  sv_allocpgs :: "addr \<Rightarrow> u32 \<Rightarrow> u32 \<Rightarrow> 'v \<Rightarrow> (addr \<times> 'v) option"
  sv_freepgs :: "addr \<Rightarrow> u32 \<Rightarrow> 'v \<Rightarrow> 'v option"
  sv_getphys :: "addr \<Rightarrow> 'v \<Rightarrow> u32"
  sv_resvpg :: "addr \<Rightarrow> 'v \<Rightarrow> 'v option"
  sv_peek :: "addr \<Rightarrow> nat \<Rightarrow> 'v \<Rightarrow> u8 list option"
  sv_poke :: "addr \<Rightarrow> u8 list \<Rightarrow> 'v \<Rightarrow> 'v option"
  sv_str :: "addr \<Rightarrow> 'v \<Rightarrow> string option"
  sv_initrd :: "initrd_file list"

subsection \<open>Access\<close>

definition zero_task :: task where
  "zero_task = \<lparr>t_tslice = 0, t_priority = 0, t_blocked = False, t_ksp = 0, t_kbp = 0, t_ip = 0,
     t_kstack_top = 0, t_dir = 0, t_iobm = 0, t_parent = 0\<rparr>"

definition zero_state :: syscall_state where
  "zero_state = \<lparr>r_num = 0, r_arg1 = 0, r_arg2 = 0, r_arg3 = 0, r_arg4 = 0, r_arg5 = 0, r_ebp = 0, r_ds = 0,
     r_es = 0, r_fs = 0, r_gs = 0, r_eip = 0, r_cs = 0, r_eflags = 0, r_usresp = 0, r_ss = 0\<rparr>"

definition zero_utask :: user_task where
  "zero_utask = \<lparr>ut_task = 0, ut_perms = 0, ut_state = zero_state, ut_pid = 0, ut_recvbuf = mb_empty,
     ut_sendbuf = 0, ut_msg_ack = False\<rparr>"

definition on_task :: "addr \<Rightarrow> (task \<Rightarrow> task) \<Rightarrow> ('h, 'v) kern \<Rightarrow> ('h, 'v) kern option" where
  "on_task p f s = do { m \<leftarrow> modify (k_tasks s) p f; Some (s\<lparr>k_tasks := m\<rparr>) }"

definition on_utask :: "addr \<Rightarrow> (user_task \<Rightarrow> user_task) \<Rightarrow> ('h, 'v) kern \<Rightarrow> ('h, 'v) kern option" where
  "on_utask p f s = do { m \<leftarrow> modify (k_utasks s) p f; Some (s\<lparr>k_utasks := m\<rparr>) }"

definition k_alloc :: "('h, 'v) services \<Rightarrow> u32 \<Rightarrow> ('h, 'v) kern \<Rightarrow> (addr \<times> ('h, 'v) kern) option" where
  "k_alloc sv n s = do {
     (p, h) \<leftarrow> sv_alloc sv n (ls_heap (k_ls s));
     Some (p, s\<lparr>k_ls := (k_ls s)\<lparr>ls_heap := h\<rparr>\<rparr>) }"

definition k_push :: "('h, 'v) services \<Rightarrow> addr \<Rightarrow> addr \<Rightarrow> ('h, 'v) kern \<Rightarrow> (int \<times> ('h, 'v) kern) option" where
  "k_push sv l d s = do {
     (r, ls) \<leftarrow> list_push (sv_alloc sv) l d (k_ls s);
     Some (r, s\<lparr>k_ls := ls\<rparr>) }"

text \<open>\<^verbatim>\<open>kalloc(sizeof(task_t))\<close> with the \<^verbatim>\<open>memset\<close> after it, which faults when the allocation failed.\<close>

definition new_task :: "('h, 'v) services \<Rightarrow> ('h, 'v) kern \<Rightarrow> (addr \<times> ('h, 'v) kern) option" where
  "new_task sv s = do {
     (p, s1) \<leftarrow> k_alloc sv 36 s;
     if p = 0 then None else Some (p, s1\<lparr>k_tasks := (k_tasks s1)(p \<mapsto> zero_task)\<rparr>) }"

text \<open>The pointers \<^verbatim>\<open>current_task->data\<close> and \<^verbatim>\<open>ctsk->parent_struct\<close>.\<close>

definition cur_task :: "('h, 'v) kern \<Rightarrow> addr option" where
  "cur_task s = do { n \<leftarrow> load (ls_nodes (k_ls s)) (k_current s); Some (n_data n) }"

definition cur_utask :: "('h, 'v) kern \<Rightarrow> addr option" where
  "cur_utask s = do { c \<leftarrow> cur_task s; t \<leftarrow> load (k_tasks s) c; Some (t_parent t) }"

subsection \<open>The scheduler\<close>

definition TIME_SLICE_MAX :: u32 where
  "TIME_SLICE_MAX = 5"

definition tasking_disable :: "('h, 'v) kern \<Rightarrow> ('h, 'v) kern" where
  "tasking_disable s = s\<lparr>k_enabled := False\<rparr>"

definition tasking_enable :: "('h, 'v) kern \<Rightarrow> ('h, 'v) kern" where
  "tasking_enable s = s\<lparr>k_enabled := True\<rparr>"

text \<open>Where the processor goes on: the registers \<^verbatim>\<open>eip\<close>, \<^verbatim>\<open>esp\<close> and \<^verbatim>\<open>ebp\<close>.\<close>

record regs =
  rg_eip :: addr
  rg_esp :: addr
  rg_ebp :: addr

text \<open>The part of \<^verbatim>\<open>task_switch\<close> after the task is chosen.\<close>

definition enter_task :: "('h, 'v) services \<Rightarrow> addr \<Rightarrow> ('h, 'v) kern \<Rightarrow> (regs \<times> ('h, 'v) kern) option" where
  "enter_task sv p s = do {
     curr \<leftarrow> load (k_tasks s) p;
     let rg = \<lparr>rg_eip = t_ip curr, rg_esp = t_ksp curr, rg_ebp = t_kbp curr\<rparr>;
     v \<leftarrow> sv_swpdir sv (t_dir curr) (k_vm s);
     let s1 = s\<lparr>k_vm := v, k_tss := update_kstack (t_kstack_top curr) (k_tss s)\<rparr>;
     s2 \<leftarrow> (if t_iobm curr = 0
       then do {
         (b, s2) \<leftarrow> k_alloc sv 8192 s1;
         s3 \<leftarrow> on_task p (\<lambda>t. t\<lparr>t_iobm := b\<rparr>) s2;
         if b = 0 then None else Some (s3\<lparr>k_iobms := (k_iobms s3)(b \<mapsto> replicate 8192 0xFF)\<rparr>) }
       else Some s1);
     curr2 \<leftarrow> load (k_tasks s2) p;
     bm \<leftarrow> load (k_iobms s2) (t_iobm curr2);
     t \<leftarrow> update_iobm bm (k_tss s2);
     Some (rg, s2\<lparr>k_tss := t\<rparr>) }"

text \<open>
  The inner call of \<^verbatim>\<open>task_switch\<close> does not return: it ends in a jump. If every task of the round
  is blocked, none of the calls ends.
\<close>

partial_function (option) task_switch :: "('h, 'v) services \<Rightarrow> ('h, 'v) kern \<Rightarrow> (regs \<times> ('h, 'v) kern) option" where
  "task_switch sv s = do {
     n \<leftarrow> load (ls_nodes (k_ls s)) (k_current s);
     let s1 = s\<lparr>k_current := n_next n\<rparr>;
     n1 \<leftarrow> load (ls_nodes (k_ls s1)) (k_current s1);
     curr \<leftarrow> load (k_tasks s1) (n_data n1);
     if t_blocked curr then task_switch sv s1 else enter_task sv (n_data n1) s1 }"

text \<open>
  \<open>rg\<close> are the registers that \<^verbatim>\<open>tasking_tick\<close> reads: \<open>rg_eip\<close> is the value of \<^verbatim>\<open>read_eip\<close>, 0 when a
  switch has just come back. A call that switches away returns to its caller only when the task is
  resumed, at the same place with \<^verbatim>\<open>eax\<close> 0: \<open>env\<close> is the run of the machine from the jump until then.
\<close>

type_synonym ('h, 'v) env = "regs \<Rightarrow> ('h, 'v) kern \<Rightarrow> ('h, 'v) kern option"

definition tasking_tick :: "('h, 'v) services \<Rightarrow> regs \<Rightarrow> ('h, 'v) env \<Rightarrow> ('h, 'v) kern \<Rightarrow> ('h, 'v) kern option" where
  "tasking_tick sv rg env s = do {
     L \<leftarrow> load (ls_lists (k_ls s)) (k_task_order s);
     if l_head L = 0 then Some s
     else do {
       n \<leftarrow> load (ls_nodes (k_ls s)) (k_current s);
       if n_next n = k_current s then Some s
       else if n_next n = 0 then Some s
       else if \<not> k_enabled s then Some s
       else if rg_eip rg = 0 then Some s
       else do {
         s1 \<leftarrow> on_task (n_data n) (\<lambda>t. t\<lparr>t_ksp := rg_esp rg, t_kbp := rg_ebp rg, t_ip := rg_eip rg\<rparr>) s;
         (j, s2) \<leftarrow> task_switch sv s1;
         env j s2 } } }"

definition task_newtask :: "('h, 'v) services \<Rightarrow> addr \<Rightarrow> addr \<Rightarrow> ('h, 'v) kern \<Rightarrow> (addr \<times> ('h, 'v) kern) option" where
  "task_newtask sv func stk s = do {
     let s1 = s\<lparr>k_intr := disable_interrupts (k_intr s)\<rparr>;
     (task, s2) \<leftarrow> new_task sv s1;
     s3 \<leftarrow> on_task task (\<lambda>t. t\<lparr>t_tslice := TIME_SLICE_MAX, t_ksp := stk, t_kbp := stk\<rparr>) s2;
     s4 \<leftarrow> on_task task (\<lambda>t. t\<lparr>t_kstack_top := t_ksp t, t_ip := func\<rparr>) s3;
     (dir, v) \<leftarrow> sv_clonedir sv (sv_curdir sv (k_vm s4)) (k_vm s4);
     s5 \<leftarrow> on_task task (\<lambda>t. t\<lparr>t_dir := dir\<rparr>) (s4\<lparr>k_vm := v\<rparr>);
     (r, s6) \<leftarrow> k_push sv (k_task_order s5) task s5;
     Some (task, s6\<lparr>k_intr := enable_interrupts (k_intr s6)\<rparr>) }"

text \<open>\<open>add_clock\<close> is \<^verbatim>\<open>timer_add_clock(tasking_tick, TIME_SLICE_MAX)\<close>.\<close>

definition tasking_init :: "('h, 'v) services \<Rightarrow> (('h, 'v) kern \<Rightarrow> ('h, 'v) kern option) \<Rightarrow> addr \<Rightarrow>
    ('h, 'v) kern \<Rightarrow> ('h, 'v) kern option" where
  "tasking_init sv add_clock stack_top s = do {
     (l, ls) \<leftarrow> new_round_list (sv_alloc sv) (k_ls s);
     let s1 = s\<lparr>k_ls := ls, k_task_order := l\<rparr>;
     (bstask, s2) \<leftarrow> new_task sv s1;
     s3 \<leftarrow> on_task bstask (\<lambda>t. t\<lparr>t_tslice := TIME_SLICE_MAX, t_ksp := stack_top,
       t_dir := sv_curdir sv (k_vm s2)\<rparr>) s2;
     (r, s4) \<leftarrow> k_push sv (k_task_order s3) bstask s3;
     L \<leftarrow> load (ls_lists (k_ls s4)) (k_task_order s4);
     s5 \<leftarrow> add_clock (s4\<lparr>k_current := l_head L\<rparr>);
     Some (tasking_disable s5) }"

end
