(* ===== verification/Elf.thy ===== *)
theory Elf
  imports Tasking
begin

text \<open>
  Loading an ELF image into the current address space, \<^verbatim>\<open>module/user/elf.c\<close>. The header
  \<^verbatim>\<open>kernel/elf.h\<close> of the kernel submodule is taken to be the one in \<^verbatim>\<open>root/usr/include/elf.h\<close>.
  Structures are read from the bytes in memory, in the little-endian layout of i686.
\<close>

subsection \<open>Little-endian fields\<close>

definition le16 :: "u8 list \<Rightarrow> nat \<Rightarrow> u16" where
  "le16 bs i = ucast (bs ! i) OR push_bit 8 (ucast (bs ! (i + 1)))"

definition le32 :: "u8 list \<Rightarrow> nat \<Rightarrow> u32" where
  "le32 bs i = ucast (bs ! i) OR push_bit 8 (ucast (bs ! (i + 1))) OR push_bit 16 (ucast (bs ! (i + 2))) OR
     push_bit 24 (ucast (bs ! (i + 3)))"

definition put32 :: "u32 \<Rightarrow> u8 list" where
  "put32 w = [ucast w, ucast (drop_bit 8 w), ucast (drop_bit 16 w), ucast (drop_bit 24 w)]"

subsection \<open>Headers\<close>

record elf_ehdr =
  e_ident :: "u8 list"
  e_type :: u16
  e_machine :: u16
  e_version :: u32
  e_entry :: addr
  e_phoff :: u32
  e_phnum :: u16

record elf_phdr =
  p_type :: u32
  p_offset :: u32
  p_vaddr :: u32
  p_paddr :: u32
  p_filesz :: u32
  p_memsz :: u32
  p_flags :: u32
  p_align :: u32

definition ehdr_of :: "u8 list \<Rightarrow> elf_ehdr" where
  "ehdr_of bs = \<lparr>e_ident = take 16 bs, e_type = le16 bs 16, e_machine = le16 bs 18, e_version = le32 bs 20,
     e_entry = le32 bs 24, e_phoff = le32 bs 28, e_phnum = le16 bs 44\<rparr>"

definition phdr_of :: "u8 list \<Rightarrow> elf_phdr" where
  "phdr_of bs = \<lparr>p_type = le32 bs 0, p_offset = le32 bs 4, p_vaddr = le32 bs 8, p_paddr = le32 bs 12,
     p_filesz = le32 bs 16, p_memsz = le32 bs 20, p_flags = le32 bs 24, p_align = le32 bs 28\<rparr>"

definition ET_EXEC :: u16 where "ET_EXEC = 2"
definition EM_386 :: u16 where "EM_386 = 3"
definition EV_NONE :: u32 where "EV_NONE = 0"
definition ELFCLASS32 :: u8 where "ELFCLASS32 = 1"
definition PT_LOAD :: u32 where "PT_LOAD = 1"

definition ELF_CHKHDR :: "elf_ehdr \<Rightarrow> bool" where
  "ELF_CHKHDR h \<longleftrightarrow> e_ident h ! 0 = 0x7F \<and> e_ident h ! 1 = 0x45 \<and> e_ident h ! 2 = 0x4C \<and> e_ident h ! 3 = 0x46"

subsection \<open>Loading\<close>

text \<open>\<^verbatim>\<open>memcpy\<close> through the memory of the current address space.\<close>

definition k_copy :: "('h, 'v) services \<Rightarrow> addr \<Rightarrow> addr \<Rightarrow> u32 \<Rightarrow> 'v \<Rightarrow> 'v option" where
  "k_copy sv tgt frm n v = do {
     bs \<leftarrow> sv_peek sv frm (unat n) v;
     sv_poke sv tgt bs v }"

text \<open>The loop over the program headers; it reads the number of headers anew each time.\<close>

partial_function (option) elf_segments :: "('h, 'v) services \<Rightarrow> addr \<Rightarrow> addr \<Rightarrow> u16 \<Rightarrow> 'v \<Rightarrow> 'v option" where
  "elf_segments sv raw phdrs i v = do {
     hs \<leftarrow> sv_peek sv raw 52 v;
     if e_phnum (ehdr_of hs) \<le> i then Some v
     else do {
       bs \<leftarrow> sv_peek sv (phdrs + 32 * ucast i) 32 v;
       let ph = phdr_of bs;
       v2 \<leftarrow> (if p_type ph = PT_LOAD then do {
           (r, v1) \<leftarrow> sv_allocpgs sv (p_vaddr ph) (p_memsz ph) 7 v;
           k_copy sv (p_vaddr ph) (raw + p_offset ph) (p_memsz ph) v1 }
         else Some v);
       elf_segments sv raw phdrs (i + 1) v2 } }"

definition modit_elf_load :: "('h, 'v) services \<Rightarrow> initrd_file \<Rightarrow> 'v \<Rightarrow> (addr \<times> 'v) option" where
  "modit_elf_load sv file v =
     (let file_raw = f_data_start file in
      if f_size file = 0 then Some (0, v)
      else if file_raw = 0 then Some (0, v)
      else do {
        bs \<leftarrow> sv_peek sv file_raw 52 v;
        let header = ehdr_of bs;
        if \<not> ELF_CHKHDR header then Some (0, v)
        else if e_type header \<noteq> ET_EXEC then Some (0, v)
        else if e_machine header \<noteq> EM_386 then Some (0, v)
        else if e_version header = EV_NONE then Some (0, v)
        else if e_ident header ! 4 \<noteq> ELFCLASS32 then Some (0, v)
        else do {
          v1 \<leftarrow> elf_segments sv file_raw (file_raw + e_phoff header) 0 v;
          bs1 \<leftarrow> sv_peek sv file_raw 52 v1;
          Some (e_entry (ehdr_of bs1), v1) } })"

end
