(* ===== verification/User.thy ===== *)
theory User
  imports Elf
begin

text \<open>
  User processes: \<^verbatim>\<open>module/user/main.c\<close>. A process is a \<open>user_task\<close> with its \<open>task\<close>; \<open>k_utsk_list\<close> lists the
  processes. \<^verbatim>\<open>_user_second_half\<close>, which nothing calls, is left out.
\<close>

type_synonym ('h, 'v) kres = "('h, 'v) kern option"

definition new_utask :: "('h, 'v) services \<Rightarrow> ('h, 'v) kern \<Rightarrow> (addr \<times> ('h, 'v) kern) option" where
  "new_utask sv s = do {
     (p, s1) \<leftarrow> k_alloc sv 604 s;
     if p = 0 then None else Some (p, s1\<lparr>k_utasks := (k_utasks s1)(p \<mapsto> zero_utask)\<rparr>) }"

definition k_new_list :: "('h, 'v) services \<Rightarrow> ('h, 'v) kern \<Rightarrow> (addr \<times> ('h, 'v) kern) option" where
  "k_new_list sv s = do {
     (l, ls) \<leftarrow> new_list (sv_alloc sv) (k_ls s);
     Some (l, s\<lparr>k_ls := ls\<rparr>) }"

definition k_store :: "('h, 'v) services \<Rightarrow> addr \<Rightarrow> u8 list \<Rightarrow> ('h, 'v) kern \<Rightarrow> ('h, 'v) kern option" where
  "k_store sv a bs s = do { v \<leftarrow> sv_poke sv a bs (k_vm s); Some (s\<lparr>k_vm := v\<rparr>) }"

definition k_memcpy :: "('h, 'v) services \<Rightarrow> addr \<Rightarrow> addr \<Rightarrow> u32 \<Rightarrow> ('h, 'v) kern \<Rightarrow> ('h, 'v) kern option" where
  "k_memcpy sv tgt frm n s = do { v \<leftarrow> k_copy sv tgt frm n (k_vm s); Some (s\<lparr>k_vm := v\<rparr>) }"

text \<open>Whether \<^verbatim>\<open>perms\<close> has a permission that \<^verbatim>\<open>old\<close> lacks.\<close>

definition adds_perms :: "u32 \<Rightarrow> u32 \<Rightarrow> bool" where
  "adds_perms perms old \<longleftrightarrow> ((perms XOR old) AND perms) \<noteq> 0"

text \<open>
  The permission check of \<^verbatim>\<open>user_spawn\<close>: it is skipped if there is no current task or the current task
  is no process.
\<close>

definition spawn_refused :: "u32 \<Rightarrow> ('h, 'v) kern \<Rightarrow> bool option" where
  "spawn_refused perms s = do {
     ctsk \<leftarrow> cur_task s;
     if ctsk = 0 then Some False
     else do {
       t \<leftarrow> load (k_tasks s) ctsk;
       if t_parent t = 0 then Some False
       else do {
         u \<leftarrow> load (k_utasks s) (t_parent t);
         Some (adds_perms perms (ut_perms u)) } } }"

text \<open>
  The part that \<^verbatim>\<open>user_spawn\<close> and \<^verbatim>\<open>user_fork\<close> share: a new \<^verbatim>\<open>user_task_t\<close> with the next number, the
  permissions that \<open>perms\<close> finds, and a list for messages waiting to be sent.
\<close>

definition new_process :: "('h, 'v) services \<Rightarrow> (('h, 'v) kern \<Rightarrow> u32 option) \<Rightarrow> ('h, 'v) kern \<Rightarrow>
    (addr \<times> ('h, 'v) kern) option" where
  "new_process sv perms s = do {
     (utsk, s1) \<leftarrow> new_utask sv s;
     let pid = k_next_pid s1;
     let s2 = s1\<lparr>k_next_pid := pid + 1\<rparr>;
     pm \<leftarrow> perms s2;
     s3 \<leftarrow> on_utask utsk (\<lambda>u. u\<lparr>ut_pid := pid, ut_perms := pm\<rparr>) s2;
     (l, s4) \<leftarrow> k_new_list sv s3;
     s5 \<leftarrow> on_utask utsk (\<lambda>u. u\<lparr>ut_sendbuf := l\<rparr>) s4;
     Some (utsk, s5) }"

text \<open>The task of a process: also common to both.\<close>

definition attach_task :: "('h, 'v) services \<Rightarrow> addr \<Rightarrow> addr \<Rightarrow> addr \<Rightarrow> ('h, 'v) kern \<Rightarrow>
    (addr \<times> ('h, 'v) kern) option" where
  "attach_task sv utsk func stk s = do {
     (task, s1) \<leftarrow> task_newtask sv func stk s;
     s2 \<leftarrow> on_utask utsk (\<lambda>u. u\<lparr>ut_task := task\<rparr>) s1;
     s3 \<leftarrow> on_task task (\<lambda>t. t\<lparr>t_parent := utsk\<rparr>) s2;
     Some (task, s3) }"

text \<open>The kernel stack of a new process, with the arguments of its first code on top.\<close>

definition spawn_stack :: "('h, 'v) services \<Rightarrow> addr \<Rightarrow> addr \<Rightarrow> u32 \<Rightarrow> ('h, 'v) kern \<Rightarrow>
    (addr \<times> ('h, 'v) kern) option" where
  "spawn_stack sv file usrstkdata usrstksize s = do {
     (kstack, s1) \<leftarrow> k_alloc sv 0x2000 s;
     s2 \<leftarrow> k_store sv kstack (replicate 0x2000 0) s1;
     (newstkdat, s3) \<leftarrow> k_alloc sv usrstksize s2;
     s4 \<leftarrow> k_memcpy sv newstkdat usrstkdata usrstksize s3;
     let kstk_top = kstack + 0x2000;
     s5 \<leftarrow> k_store sv (kstk_top - 12) (put32 file) s4;
     s6 \<leftarrow> k_store sv (kstk_top - 8) (put32 newstkdat) s5;
     s7 \<leftarrow> k_store sv (kstk_top - 4) (put32 usrstksize) s6;
     Some (kstk_top - 12, s7) }"

text \<open>\<open>half\<close> is the address of \<^verbatim>\<open>_user_spawn_second_half\<close>.\<close>

definition user_spawn :: "('h, 'v) services \<Rightarrow> addr \<Rightarrow> addr \<Rightarrow> addr \<Rightarrow> u32 \<Rightarrow> u32 \<Rightarrow> ('h, 'v) kern \<Rightarrow>
    (addr \<times> ('h, 'v) kern) option" where
  "user_spawn sv half file usrstkdata usrstksize perms s = do {
     refused \<leftarrow> spawn_refused perms s;
     if refused then Some (0, s)
     else do {
       let s1 = tasking_disable s;
       (kstk_top, s2) \<leftarrow> spawn_stack sv file usrstkdata usrstksize s1;
       (utsk, s3) \<leftarrow> new_process sv (\<lambda>s. Some perms) s2;
       (task, s4) \<leftarrow> attach_task sv utsk half kstk_top s3;
       (r, s5) \<leftarrow> k_push sv (k_utsk_list s4) utsk s4;
       Some (utsk, tasking_enable s5) } }"

text \<open>
  \<^verbatim>\<open>_user_spawn_second_half\<close>, the first code of a new process: the result is the entry point and the
  stack with which it enters user mode.
\<close>

definition user_spawn_second_half :: "('h, 'v) services \<Rightarrow> addr \<Rightarrow> addr \<Rightarrow> u32 \<Rightarrow> ('h, 'v) kern \<Rightarrow>
    ((addr \<times> addr) \<times> ('h, 'v) kern) option" where
  "user_spawn_second_half sv file usrstkdata usrstksize s = do {
     f \<leftarrow> load (k_files s) file;
     (uentry, v1) \<leftarrow> modit_elf_load sv f (k_vm s);
     (a, v2) \<leftarrow> sv_allocpgs sv 0xCFFFC000 0x4000 7 v1;
     let ustk = a + 0x4000;
     (ustk1, v3) \<leftarrow> (if usrstkdata \<noteq> 0 \<and> usrstksize \<noteq> 0
       then do {
         v3 \<leftarrow> k_copy sv (ustk - usrstksize) usrstkdata usrstksize v2;
         Some (ustk - usrstksize, v3) }
       else Some (ustk, v2));
     Some ((uentry, ustk1), s\<lparr>k_vm := v3\<rparr>) }"

text \<open>
  \<^verbatim>\<open>_user_second_half\<close>, which nothing calls: an older version for a program that is loaded already, with the test the wrong way round.
\<close>

definition user_second_half :: "('h, 'v) services \<Rightarrow> addr \<Rightarrow> addr \<Rightarrow> u32 \<Rightarrow> ('h, 'v) kern \<Rightarrow>
    ((addr \<times> addr) \<times> ('h, 'v) kern) option" where
  "user_second_half sv uentry usrstkdata usrstksize s = do {
     (a, v1) \<leftarrow> sv_allocpgs sv 0xCFFFC000 0x4000 7 (k_vm s);
     let ustk = a + 0x4000;
     (ustk1, v2) \<leftarrow> (if usrstkdata = 0 \<or> usrstksize = 0
       then do {
         v2 \<leftarrow> k_copy sv (ustk - usrstksize) usrstkdata usrstksize v1;
         Some (ustk - usrstksize, v2) }
       else Some (ustk, v1));
     Some ((uentry, ustk1), s\<lparr>k_vm := v2\<rparr>) }"

text \<open>The 16 words of a \<^verbatim>\<open>syscall_state_t\<close>, in memory order.\<close>

definition state_bytes :: "syscall_state \<Rightarrow> u8 list" where
  "state_bytes r = concat (map put32 [r_num r, r_arg1 r, r_arg2 r, r_arg3 r, r_arg4 r, r_arg5 r, r_ebp r,
     r_ds r, r_es r, r_fs r, r_gs r, r_eip r, r_cs r, r_eflags r, r_usresp r, r_ss r])"

text \<open>\<open>usr_ret\<close> is the address of the assembly routine that returns to user mode.\<close>

definition user_fork :: "('h, 'v) services \<Rightarrow> addr \<Rightarrow> ('h, 'v) kern \<Rightarrow> (u32 \<times> ('h, 'v) kern) option" where
  "user_fork sv usr_ret s = do {
     putsk \<leftarrow> cur_utask s;
     let s1 = tasking_disable s;
     (utsk, s2) \<leftarrow> new_process sv (\<lambda>s. do { pu \<leftarrow> load (k_utasks s) putsk; Some (ut_perms pu) }) s1;
     (kstack, s3) \<leftarrow> k_alloc sv 0x2000 s2;
     (task, s4) \<leftarrow> attach_task sv utsk usr_ret (kstack + 0x2000) s3;
     pu \<leftarrow> load (k_utasks s4) putsk;
     s5 \<leftarrow> on_utask utsk (\<lambda>u. u\<lparr>ut_state := (ut_state pu)\<lparr>r_num := 0\<rparr>\<rparr>) s4;
     s6 \<leftarrow> on_task task (\<lambda>t. t\<lparr>t_ksp := t_ksp t - 64\<rparr>) s5;
     t \<leftarrow> load (k_tasks s6) task;
     u \<leftarrow> load (k_utasks s6) utsk;
     s7 \<leftarrow> k_store sv (t_ksp t) (state_bytes (ut_state u)) s6;
     (r, s8) \<leftarrow> k_push sv (k_utsk_list s7) utsk s7;
     u1 \<leftarrow> load (k_utasks s8) utsk;
     Some (ut_pid u1, tasking_enable s8) }"

text \<open>\<^verbatim>\<open>user_exec\<close> returns or enters user mode.\<close>

datatype exec_result = Returned | Usr_switch addr addr

definition user_exec :: "('h, 'v) services \<Rightarrow> addr \<Rightarrow> addr \<Rightarrow> u32 \<Rightarrow> u32 \<Rightarrow> ('h, 'v) kern \<Rightarrow>
    (exec_result \<times> ('h, 'v) kern) option" where
  "user_exec sv file ustkdata ustksize perms s = do {
     utsk \<leftarrow> cur_utask s;
     f \<leftarrow> load (k_files s) file;
     (elf_entry, v) \<leftarrow> modit_elf_load sv f (k_vm s);
     let s1 = s\<lparr>k_vm := v\<rparr>;
     let ustk = 0xD0000000;
     u \<leftarrow> load (k_utasks s1) utsk;
     if adds_perms perms (ut_perms u) then Some (Returned, s1)
     else do {
       let s2 = tasking_disable s1;
       (ustk1, s3) \<leftarrow> (if ustkdata \<noteq> 0 \<and> ustksize \<noteq> 0
         then do {
           s3 \<leftarrow> k_memcpy sv (ustk - ustksize) ustkdata ustksize s2;
           Some (ustk - ustksize, s3) }
         else Some (ustk, s2));
       Some (Usr_switch elf_entry ustk1, tasking_enable s3) } }"

subsection \<open>Processes by number\<close>

text \<open>
  The loop that \<^verbatim>\<open>user_find\<close>, \<^verbatim>\<open>user_block\<close>, \<^verbatim>\<open>user_awake\<close> and \<^verbatim>\<open>user_isblocked\<close> share: the first process
  of the list with the number sought, or 0.
\<close>

partial_function (option) utsk_loop :: "list_node store \<Rightarrow> user_task store \<Rightarrow> u32 \<Rightarrow> addr \<Rightarrow> addr option" where
  "utsk_loop m us pid node =
     (if node = 0 then Some 0
      else do {
        n \<leftarrow> load m node;
        u \<leftarrow> load us (n_data n);
        if ut_pid u = pid then Some (n_data n) else utsk_loop m us pid (n_next n) })"

definition user_find :: "u32 \<Rightarrow> ('h, 'v) kern \<Rightarrow> addr option" where
  "user_find pid s = do {
     L \<leftarrow> load (ls_lists (k_ls s)) (k_utsk_list s);
     utsk_loop (ls_nodes (k_ls s)) (k_utasks s) pid (l_head L) }"

definition set_blocked :: "bool \<Rightarrow> u32 \<Rightarrow> ('h, 'v) kern \<Rightarrow> ('h, 'v) kern option" where
  "set_blocked b pid s = do {
     p \<leftarrow> user_find pid s;
     if p = 0 then Some s
     else do { u \<leftarrow> load (k_utasks s) p; on_task (ut_task u) (\<lambda>t. t\<lparr>t_blocked := b\<rparr>) s } }"

definition user_block :: "u32 \<Rightarrow> ('h, 'v) kern \<Rightarrow> ('h, 'v) kern option" where
  "user_block pid s = set_blocked True pid s"

definition user_awake :: "u32 \<Rightarrow> ('h, 'v) kern \<Rightarrow> ('h, 'v) kern option" where
  "user_awake pid s = set_blocked False pid s"

definition user_isblocked :: "u32 \<Rightarrow> ('h, 'v) kern \<Rightarrow> bool option" where
  "user_isblocked pid s = do {
     p \<leftarrow> user_find pid s;
     if p = 0 then Some False
     else do {
       u \<leftarrow> load (k_utasks s) p;
       t \<leftarrow> load (k_tasks s) (ut_task u);
       Some (t_blocked t) } }"

text \<open>What \<^verbatim>\<open>panic_hook\<close> prints: the number of the current process, or none for the kernel.\<close>

definition panic_hook :: "('h, 'v) kern \<Rightarrow> u32 option option" where
  "panic_hook s = do {
     utsk \<leftarrow> cur_utask s;
     if utsk = 0 then Some None
     else do { u \<leftarrow> load (k_utasks s) utsk; Some (Some (ut_pid u)) } }"

text \<open>\<open>add_hook\<close> is \<^verbatim>\<open>panic_add_hook(panic_hook)\<close>.\<close>

definition user_init :: "('h, 'v) services \<Rightarrow> (('h, 'v) kern \<Rightarrow> ('h, 'v) kern option) \<Rightarrow> ('h, 'v) kern \<Rightarrow>
    ('h, 'v) kern option" where
  "user_init sv add_hook s = do {
     (l, s1) \<leftarrow> k_new_list sv s;
     add_hook (s1\<lparr>k_utsk_list := l\<rparr>) }"

end
