(* ===== verification/Tasking_Props.thy ===== *)
theory Tasking_Props
  imports Tasking KList_Props
begin

text \<open>
  The scheduler on the round list of tasks: which task a tick enters, that a task continues where it was
  interrupted, and that a round of blocked tasks is never left. At the end stands a small machine on which
  the witnesses of the process modules run.
\<close>

subsection \<open>The round of tasks\<close>

text \<open>\<open>round s xs ts\<close>: the tasks \<open>ts\<close> stand in the round list \<^verbatim>\<open>task_order\<close>, whose nodes are \<open>xs\<close>.\<close>

definition round :: "('h, 'v) kern \<Rightarrow> addr list \<Rightarrow> addr list \<Rightarrow> bool" where
  "round s xs ts \<longleftrightarrow> list_rep (k_ls s) (k_task_order s) True xs ts \<and> (\<forall>t \<in> set ts. \<exists>v. load (k_tasks s) t = Some v)"

definition blocked_at :: "('h, 'v) kern \<Rightarrow> addr \<Rightarrow> bool" where
  "blocked_at s t = (case k_tasks s t of Some v \<Rightarrow> t_blocked v | None \<Rightarrow> False)"

lemma list_rep_next:
  assumes "list_rep s l True xs ds" and "i < length xs"
  shows "\<exists>n. load (ls_nodes s) (xs ! i) = Some n \<and> n_data n = ds ! i \<and> n_next n = xs ! (Suc i mod length xs)"
proof -
  obtain n where n: "load (ls_nodes s) (xs ! i) = Some n" "n_data n = ds ! i"
    using list_rep_node [OF assms] by blast
  have xs: "xs = take i xs @ xs ! i # drop (Suc i) xs" using assms(2) by (rule id_take_nth_drop)
  have "dll n_next n_prev (ls_nodes s) (ends True xs) (take i xs @ xs ! i # drop (Suc i) xs) (ends True xs)"
    using assms(1) xs by (simp add: list_rep_def)
  then obtain m where "load (ls_nodes s) (xs ! i) = Some m" "n_next m = hd (drop (Suc i) xs @ [ends True xs])"
    using dll_split by blast
  moreover have "hd (drop (Suc i) xs @ [ends True xs]) = xs ! (Suc i mod length xs)"
  proof (cases "Suc i < length xs")
    case True
    then show ?thesis by (simp add: hd_append hd_drop_conv_nth)
  next
    case False
    then have "Suc i = length xs" using assms(2) by simp
    then show ?thesis using assms(2) by (cases xs) (auto simp: ends_def)
  qed
  ultimately show ?thesis using n by auto
qed

lemma task_switch_step:
  assumes "round s xs ts" and "i < length xs" and "k_current s = xs ! i"
  shows "task_switch sv s = (let j = Suc i mod length xs; s1 = s\<lparr>k_current := xs ! j\<rparr> in
    if blocked_at s (ts ! j) then task_switch sv s1 else enter_task sv (ts ! j) s1)"
proof -
  let ?j = "Suc i mod length xs"
  have rep: "list_rep (k_ls s) (k_task_order s) True xs ts" using assms(1) by (simp add: round_def)
  have j: "?j < length xs" using assms(2) by (intro mod_less_divisor) linarith
  obtain n where n: "load (ls_nodes (k_ls s)) (xs ! i) = Some n" "n_next n = xs ! ?j"
    using list_rep_next [OF rep assms(2)] by blast
  obtain n1 where n1: "load (ls_nodes (k_ls s)) (xs ! ?j) = Some n1" "n_data n1 = ts ! ?j"
    using list_rep_node [OF rep j] by blast
  have "ts ! ?j \<in> set ts" using j list_rep_length [OF rep] by simp
  then obtain t where t: "load (k_tasks s) (ts ! ?j) = Some t" using assms(1) by (auto simp: round_def)
  have bl: "blocked_at s (ts ! ?j) = t_blocked t" using t by (simp add: blocked_at_def opt_simps)
  show ?thesis by (subst task_switch.simps) (simp add: assms(3) n n1 t bl Let_def)
qed

lemma task_switch_next:
  assumes "round s xs ts" and "i < length xs" and "k_current s = xs ! i" and "0 < d"
    and "\<forall>j. 0 < j \<longrightarrow> j < d \<longrightarrow> blocked_at s (ts ! ((i + j) mod length xs))"
    and "\<not> blocked_at s (ts ! ((i + d) mod length xs))"
  shows "task_switch sv s = enter_task sv (ts ! ((i + d) mod length xs)) (s\<lparr>k_current := xs ! ((i + d) mod length xs)\<rparr>)"
  using assms
proof (induction d arbitrary: i s)
  case 0
  then show ?case by simp
next
  case (Suc d)
  let ?j = "Suc i mod length xs" and ?s1 = "s\<lparr>k_current := xs ! (Suc i mod length xs)\<rparr>"
  have j: "?j < length xs" using Suc.prems(2) by (intro mod_less_divisor) linarith
  have sh: "(?j + k) mod length xs = (i + Suc k) mod length xs" for k by (simp add: mod_add_left_eq)
  show ?case
  proof (cases "d = 0")
    case True
    then show ?thesis using Suc.prems(6) task_switch_step [OF Suc.prems(1-3), of sv] by (simp add: Let_def)
  next
    case False
    have "blocked_at s (ts ! ?j)" using Suc.prems(5) False by (auto dest: spec [of _ 1])
    then have st: "task_switch sv s = task_switch sv ?s1"
      using task_switch_step [OF Suc.prems(1-3), of sv] by (simp add: Let_def)
    have b1: "blocked_at ?s1 t = blocked_at s t" for t by (simp add: blocked_at_def)
    have "task_switch sv ?s1 = enter_task sv (ts ! ((?j + d) mod length xs)) (?s1\<lparr>k_current := xs ! ((?j + d) mod length xs)\<rparr>)"
    proof (rule Suc.IH)
      show "round ?s1 xs ts" using Suc.prems(1) by (simp add: round_def)
      show "\<forall>k. 0 < k \<longrightarrow> k < d \<longrightarrow> blocked_at ?s1 (ts ! ((?j + k) mod length xs))"
        using Suc.prems(5) unfolding b1 sh by auto
      show "\<not> blocked_at ?s1 (ts ! ((?j + d) mod length xs))" using Suc.prems(6) unfolding b1 sh by simp
    qed (use j False in simp_all)
    then show ?thesis using st unfolding sh by simp
  qed
qed

text \<open>If every task of a closed round is blocked, no call ends.\<close>

lemma task_switch_cycle:
  assumes "\<forall>x \<in> A. \<exists>n n1 t. load m x = Some n \<and> n_next n \<in> A \<and> load m (n_next n) = Some n1 \<and>
    load tk (n_data n1) = Some t \<and> t_blocked t"
  shows "k_current s \<in> A \<Longrightarrow> ls_nodes (k_ls s) = m \<Longrightarrow> k_tasks s = tk \<Longrightarrow> task_switch sv s = None"
proof (rule ccontr)
  assume p: "k_current s \<in> A" "ls_nodes (k_ls s) = m" "k_tasks s = tk" and "task_switch sv s \<noteq> None"
  then obtain r where "task_switch sv s = Some r" by auto
  then have "k_current s \<in> A \<and> ls_nodes (k_ls s) = m \<and> k_tasks s = tk \<longrightarrow> False"
  proof (induction rule: task_switch.raw_induct [rotated, consumes 1])
    case (1 loop sv s r)
    show ?case
    proof
      assume h: "k_current s \<in> A \<and> ls_nodes (k_ls s) = m \<and> k_tasks s = tk"
      then obtain n n1 t where n: "load m (k_current s) = Some n" "n_next n \<in> A" "load m (n_next n) = Some n1"
        "load tk (n_data n1) = Some t" "t_blocked t" using assms by blast
      then have "loop sv (s\<lparr>k_current := n_next n\<rparr>) = Some r" using 1(2) h by (simp add: Let_def)
      from 1(1) [OF this] show False using h n(2) by simp
    qed
  qed
  with p show False by simp
qed

subsection \<open>The tick\<close>

text \<open>The state in which the registers of the current task are saved.\<close>

definition saved :: "regs \<Rightarrow> addr \<Rightarrow> ('h, 'v) kern \<Rightarrow> ('h, 'v) kern" where
  "saved rg t s = s\<lparr>k_tasks := (k_tasks s)(t := map_option
     (\<lambda>v. v\<lparr>t_ksp := rg_esp rg, t_kbp := rg_ebp rg, t_ip := rg_eip rg\<rparr>) (k_tasks s t))\<rparr>"

lemma blocked_at_saved [simp]: "blocked_at (saved rg t s) x = blocked_at s x"
  by (simp add: blocked_at_def saved_def split: option.split)

lemma saved_round: "round s xs ts \<Longrightarrow> round (saved rg t s) xs ts"
  by (auto simp: round_def saved_def load_def split: if_splits)

lemma saved_sel [simp]: "k_ls (saved rg t s) = k_ls s" "k_current (saved rg t s) = k_current s"
  "k_task_order (saved rg t s) = k_task_order s"
  by (simp_all add: saved_def)

lemma on_task_in [simp]: "load (k_tasks s) p = Some t \<Longrightarrow> on_task p f s = Some (s\<lparr>k_tasks := (k_tasks s)(p \<mapsto> f t)\<rparr>)"
  by (simp add: on_task_def)

lemma tasking_tick_round:
  assumes "round s xs ts" and "i < length xs" and "k_current s = xs ! i" and "k_enabled s" and "rg_eip rg \<noteq> 0"
    and "1 < length xs"
  shows "tasking_tick sv rg env s = do { (j, s2) \<leftarrow> task_switch sv (saved rg (ts ! i) s); env j s2 }"
proof -
  have rep: "list_rep (k_ls s) (k_task_order s) True xs ts" using assms(1) by (simp add: round_def)
  obtain L where L: "load (ls_lists (k_ls s)) (k_task_order s) = Some L" "l_head L = hd (xs @ [0])"
    using rep by (auto simp: list_rep_def)
  have hd: "l_head L \<noteq> 0" using L(2) list_rep_node [OF rep, of 0] assms(6) by (cases xs) auto
  obtain n where n: "load (ls_nodes (k_ls s)) (xs ! i) = Some n" "n_data n = ts ! i" "n_next n = xs ! (Suc i mod length xs)"
    using list_rep_next [OF rep assms(2)] by blast
  have j: "Suc i mod length xs < length xs" "Suc i mod length xs \<noteq> i"
    using assms(2,6) by (auto simp: mod_Suc)
  have nz: "n_next n \<noteq> 0" using list_rep_node [OF rep j(1)] n(3) by auto
  have ne: "n_next n \<noteq> xs ! i"
    using rep j assms(2) n(3) by (auto simp: list_rep_def nth_eq_iff_index_eq)
  have "ts ! i \<in> set ts" using assms(2) list_rep_length [OF rep] by simp
  then obtain t where t: "load (k_tasks s) (ts ! i) = Some t" using assms(1) by (auto simp: round_def)
  then have "k_tasks s (ts ! i) = Some t" by (simp add: opt_simps)
  then show ?thesis using L hd n ne nz t assms(3-5) by (simp add: tasking_tick_def saved_def)
qed

lemma enter_task_regs: "enter_task sv p s = Some (j, s') \<Longrightarrow> load (k_tasks s) p = Some t \<Longrightarrow>
    j = \<lparr>rg_eip = t_ip t, rg_esp = t_ksp t, rg_ebp = t_kbp t\<rparr>"
  by (auto simp: enter_task_def opt_simps Let_def)

text \<open>
  C23 (functional): a tick with tasking enabled and more than one task saves the registers of the current
  task and enters the first task after it in the round that is not blocked; the tick comes back when
  that task and those after it have run.
\<close>

theorem tasking_tick_switches:
  assumes "round s xs ts" and "i < length xs" and "k_current s = xs ! i" and "k_enabled s" and "rg_eip rg \<noteq> 0"
    and "1 < length xs" and "0 < d"
    and "\<forall>j. 0 < j \<longrightarrow> j < d \<longrightarrow> blocked_at s (ts ! ((i + j) mod length xs))"
    and "\<not> blocked_at s (ts ! ((i + d) mod length xs))"
  shows "tasking_tick sv rg env s =
    do { (j, s2) \<leftarrow> enter_task sv (ts ! ((i + d) mod length xs))
           ((saved rg (ts ! i) s)\<lparr>k_current := xs ! ((i + d) mod length xs)\<rparr>);
         env j s2 }"
  using tasking_tick_round [OF assms(1-6), of sv env]
    task_switch_next [OF saved_round [OF assms(1)] assms(2), of rg "ts ! i" d sv] assms(3,7-9) by simp

text \<open>
  A task whose registers a tick saved continues exactly there: entering it later gives back
  these registers, whatever else changed meanwhile.
\<close>

lemma saved_task_resumes:
  assumes "load (k_tasks s) p = Some v" and "load (k_tasks s') p = load (k_tasks (saved rg p s)) p"
    and "enter_task sv p s' = Some (j, s'')"
  shows "j = rg"
  using enter_task_regs [OF assms(3)] assms(1,2) by (auto simp: saved_def opt_simps load_def split: if_splits)

text \<open>
  If all tasks of the round are blocked, \<open>task_switch\<close> does not end. There is no idle
  task, and with interrupts off nothing can wake a task.
\<close>

lemma task_switch_all_blocked:
  assumes "round s xs ts" and "k_current s \<in> set xs" and "\<forall>t \<in> set ts. blocked_at s t"
  shows "task_switch sv s = None"
proof (rule task_switch_cycle [OF _ assms(2) refl refl])
  have rep: "list_rep (k_ls s) (k_task_order s) True xs ts" using assms(1) by (simp add: round_def)
  show "\<forall>x \<in> set xs. \<exists>n n1 t. load (ls_nodes (k_ls s)) x = Some n \<and> n_next n \<in> set xs \<and>
      load (ls_nodes (k_ls s)) (n_next n) = Some n1 \<and> load (k_tasks s) (n_data n1) = Some t \<and> t_blocked t"
  proof
    fix x assume "x \<in> set xs"
    then obtain i where i: "i < length xs" "x = xs ! i" by (auto simp: in_set_conv_nth)
    let ?j = "Suc i mod length xs"
    have j: "?j < length xs" using i(1) by (intro mod_less_divisor) linarith
    obtain n where n: "load (ls_nodes (k_ls s)) x = Some n" "n_next n = xs ! ?j"
      using list_rep_next [OF rep i(1)] i(2) by blast
    obtain n1 where n1: "load (ls_nodes (k_ls s)) (xs ! ?j) = Some n1" "n_data n1 = ts ! ?j"
      using list_rep_node [OF rep j] by blast
    have "ts ! ?j \<in> set ts" using j list_rep_length [OF rep] by simp
    moreover from this obtain t where t: "load (k_tasks s) (ts ! ?j) = Some t" using assms(1) by (auto simp: round_def)
    ultimately have "t_blocked t" using assms(3) by (auto simp: blocked_at_def opt_simps)
    then show "\<exists>n n1 t. load (ls_nodes (k_ls s)) x = Some n \<and> n_next n \<in> set xs \<and>
        load (ls_nodes (k_ls s)) (n_next n) = Some n1 \<and> load (k_tasks s) (n_data n1) = Some t \<and> t_blocked t"
      using n n1 t j by auto
  qed
qed

subsection \<open>A machine to try it on\<close>

text \<open>Byte memory that is all mapped, and a kernel with two tasks at the addresses 5 and 6.\<close>

definition demo_sv :: "(kheap, addr \<Rightarrow> u8) services" where
  "demo_sv = \<lparr>sv_alloc = kalloc, sv_alloc_a = kalloc_a, sv_free = kfree,
     sv_curdir = \<lambda>v. 0x400000, sv_swpdir = \<lambda>d v. Some v, sv_clonedir = \<lambda>d v. Some (0x500000, v),
     sv_remappg = \<lambda>p a f v. Some (0, v), sv_mappg = \<lambda>p a f v. Some (0, v), sv_allocpgs = \<lambda>a n f v. Some (a, v),
     sv_freepgs = \<lambda>a n v. Some v, sv_getphys = \<lambda>a v. a, sv_resvpg = \<lambda>a v. Some v,
     sv_peek = \<lambda>a n v. Some (map (\<lambda>i. v (a + of_nat i)) [0..<n]),
     sv_poke = \<lambda>a bs v. Some (\<lambda>x. if unat (x - a) < length bs then bs ! unat (x - a) else v x),
     sv_str = \<lambda>a v. Some ''init'', sv_initrd = [\<lparr>f_name = ''init'', f_data_start = 0x1000, f_size = 100\<rparr>]\<rparr>"

definition demo_tss :: tss where
  "demo_tss = \<lparr>tss_esp0 = 0, tss_ss0 = 0x10, tss_segs = [], tss_iopb = 104, tss_iobm = []\<rparr>"

definition demo_task :: "bool \<Rightarrow> addr \<Rightarrow> task" where
  "demo_task b p = zero_task\<lparr>t_blocked := b, t_ip := 0x100, t_ksp := 0x200, t_kbp := 0x200, t_iobm := 0x700, t_parent := p\<rparr>"

definition demo_kern :: "bool \<Rightarrow> bool \<Rightarrow> (kheap, addr \<Rightarrow> u8) kern" where
  "demo_kern b c = \<lparr>k_ls = demo_list True demo_heap2, k_tasks = [5 \<mapsto> demo_task b 0x50, 6 \<mapsto> demo_task c 0x60],
     k_utasks = [0x50 \<mapsto> zero_utask\<lparr>ut_task := 5, ut_perms := 3, ut_pid := 1\<rparr>,
       0x60 \<mapsto> zero_utask\<lparr>ut_task := 6, ut_perms := 4, ut_pid := 2\<rparr>],
     k_msgs = Map.empty, k_files = Map.empty, k_iobms = [0x700 \<mapsto> replicate 8192 0xFF], k_vm = \<lambda>a. ucast a,
     k_task_order = 0x300, k_current = 0xE1000000, k_enabled = True, k_utsk_list = 0x300, k_next_pid = 3,
     k_tss = demo_tss, k_intr = \<lparr>i_depth = 0, i_flag = True\<rparr>, k_out = []\<rparr>"

lemma demo_round: "round (demo_kern b c) [0xE1000000, 0x200] [5, 6]"
  by (simp add: round_def demo_kern_def demo_list_rep load_def)

lemma demo_blocked: "blocked_at (demo_kern b c) 5 = b" "blocked_at (demo_kern b c) 6 = c"
  by (simp_all add: blocked_at_def demo_kern_def demo_task_def)

theorem tasking_tick_switches_witness:
  "\<exists>s. tasking_tick demo_sv \<lparr>rg_eip = 9, rg_esp = 8, rg_ebp = 7\<rparr> (\<lambda>j s. if rg_eip j = 0x100 then Some s else None)
     (demo_kern False False) = Some s \<and> k_current s = 0x200"
proof -
  have "\<forall>j::nat. 0 < j \<longrightarrow> j < 1 \<longrightarrow> P j" for P by simp
  from tasking_tick_switches [OF demo_round, where i = 0 and d = 1 and b1 = False and c1 = False
      and rg = "\<lparr>rg_eip = 9, rg_esp = 8, rg_ebp = 7\<rparr>" and sv = demo_sv and
      env = "\<lambda>j s. if rg_eip j = 0x100 then Some s else None"] this
  show ?thesis by (simp add: demo_blocked)
      (simp add: enter_task_def demo_kern_def saved_def demo_task_def demo_sv_def zero_task_def load_def
        update_iobm_def Let_def)
qed

lemma saved_task_resumes_witness:
  "\<exists>s. enter_task demo_sv 5 (saved \<lparr>rg_eip = 9, rg_esp = 8, rg_ebp = 7\<rparr> 5 (demo_kern False False)) =
     Some (\<lparr>rg_eip = 9, rg_esp = 8, rg_ebp = 7\<rparr>, s)"
proof -
  let ?r = "\<lparr>rg_eip = 9, rg_esp = 8, rg_ebp = 7\<rparr>" and ?s = "demo_kern False False"
  obtain j s where e: "enter_task demo_sv 5 (saved ?r 5 ?s) = Some (j, s)"
    by (simp add: enter_task_def demo_kern_def saved_def demo_task_def demo_sv_def zero_task_def load_def update_iobm_def Let_def)
  have "load (k_tasks ?s) 5 = Some (demo_task False 0x50)" by (simp add: demo_kern_def load_def)
  from saved_task_resumes [OF this refl e] e show ?thesis by blast
qed

lemma task_switch_all_blocked_witness: "task_switch demo_sv (demo_kern True True) = None"
  by (rule task_switch_all_blocked [OF demo_round]) (simp_all add: demo_blocked, simp add: demo_kern_def)

end
