(* ===== verification/User_Props.thy ===== *)
theory User_Props
  imports User Tasking_Props
begin

text \<open>
  The list of processes: finding, blocking and waking a process by its number, and what the permission check
  of the process calls means bit by bit.
\<close>

subsection \<open>The list of processes\<close>

text \<open>\<open>procs s ys us\<close>: the processes \<open>us\<close> stand in the list \<^verbatim>\<open>utsk_list\<close>, whose nodes are \<open>ys\<close>.\<close>

definition procs :: "('h, 'v) kern \<Rightarrow> addr list \<Rightarrow> addr list \<Rightarrow> bool" where
  "procs s ys us \<longleftrightarrow> list_rep (k_ls s) (k_utsk_list s) False ys us \<and> (\<forall>u \<in> set us. \<exists>v. load (k_utasks s) u = Some v)"

definition pid_of :: "('h, 'v) kern \<Rightarrow> addr \<Rightarrow> u32" where
  "pid_of s u = (case k_utasks s u of Some v \<Rightarrow> ut_pid v | None \<Rightarrow> 0)"

definition the_proc :: "('h, 'v) kern \<Rightarrow> addr list \<Rightarrow> u32 \<Rightarrow> addr" where
  "the_proc s us pid = (case find (\<lambda>u. pid_of s u = pid) us of Some u \<Rightarrow> u | None \<Rightarrow> 0)"

lemma utsk_loop_chain:
  assumes "chain n_next m p xs 0" and "\<forall>x \<in> set xs. data_of m x \<in> U"
    and "\<forall>u \<in> U. \<exists>v. load tk u = Some v"
  shows "utsk_loop m tk pid p =
    Some (case find (\<lambda>u. (case tk u of Some v \<Rightarrow> ut_pid v | None \<Rightarrow> 0) = pid) (map (data_of m) xs) of Some u \<Rightarrow> u | None \<Rightarrow> 0)"
  using assms(1,2)
proof (induction xs arbitrary: p)
  case Nil
  then show ?case by (simp add: utsk_loop.simps)
next
  case (Cons x xs)
  then obtain n where n: "p = x" "load m x = Some n" "chain n_next m (n_next n) xs 0" by auto
  have d: "data_of m x = n_data n" using n(2) by (simp add: data_of_def opt_simps)
  then obtain v where v: "load tk (n_data n) = Some v" using assms(3) Cons.prems(2) by auto
  moreover have "x \<noteq> 0" "tk (n_data n) = Some v" using n(2) v by (simp_all add: opt_simps)
  ultimately show ?case using Cons.IH [OF n(3)] Cons.prems(2) n(1,2) d
    by (subst utsk_loop.simps) simp
qed

lemma user_find_procs:
  assumes "procs s ys us"
  shows "user_find pid s = Some (the_proc s us pid)"
proof -
  have rep: "list_rep (k_ls s) (k_utsk_list s) False ys us" using assms by (simp add: procs_def)
  obtain L where L: "load (ls_lists (k_ls s)) (k_utsk_list s) = Some L" "l_head L = hd (ys @ [0])"
    and ds: "map (data_of (ls_nodes (k_ls s))) ys = us"
    using rep by (auto simp: list_rep_def)
  have "chain n_next (ls_nodes (k_ls s)) (hd (ys @ [0])) ys 0"
    using list_rep_chain [OF rep] by (simp add: ends_def)
  from utsk_loop_chain [OF this, of "set us" "k_utasks s" pid] assms ds L show ?thesis
    by (auto simp: user_find_def the_proc_def pid_of_def procs_def)
qed

text \<open>Finding depends on the processes and their numbers only.\<close>

lemma user_find_cong:
  "k_ls s' = k_ls s \<Longrightarrow> k_utasks s' = k_utasks s \<Longrightarrow> k_utsk_list s' = k_utsk_list s \<Longrightarrow> user_find pid s' = user_find pid s"
  by (simp add: user_find_def)

text \<open>
  \<open>user_find\<close> returns the first process with the number, 0 if there is none. Blocking
  changes the blocked flag of that process's task and nothing else, is seen by \<open>user_isblocked\<close>, and is
  undone by \<open>user_awake\<close>; for a number that no process has, blocking does nothing.
\<close>

lemma block_and_awake:
  assumes "procs s ys us" and "the_proc s us pid = p"
    and "p \<noteq> 0 \<Longrightarrow> load (k_utasks s) p = Some u" and "p \<noteq> 0 \<Longrightarrow> load (k_tasks s) (ut_task u) = Some t"
  shows "user_find pid s = Some p \<and>
    (p = 0 \<longrightarrow> user_block pid s = Some s \<and> user_awake pid s = Some s \<and> user_isblocked pid s = Some False) \<and>
    (p \<noteq> 0 \<longrightarrow> (\<exists>s1. user_block pid s = Some s1 \<and> s1 = s\<lparr>k_tasks := (k_tasks s)(ut_task u \<mapsto> t\<lparr>t_blocked := True\<rparr>)\<rparr> \<and>
       user_isblocked pid s1 = Some True \<and>
       user_awake pid s1 = Some (s\<lparr>k_tasks := (k_tasks s)(ut_task u \<mapsto> t\<lparr>t_blocked := False\<rparr>)\<rparr>)))"
proof -
  have f: "user_find pid s = Some p" using user_find_procs [OF assms(1)] assms(2) by simp
  have f1: "user_find pid (s\<lparr>k_tasks := m\<rparr>) = Some p" for m
    using f user_find_cong [of "s\<lparr>k_tasks := m\<rparr>" s pid] by simp
  show ?thesis
  proof (cases "p = 0")
    case True
    then show ?thesis using f by (simp add: user_block_def user_awake_def user_isblocked_def set_blocked_def)
  next
    case False
    then have t: "load (k_utasks s) p = Some u" "load (k_tasks s) (ut_task u) = Some t" "ut_task u \<noteq> 0"
      using assms(3,4) by (auto simp: opt_simps)
    then show ?thesis using False f f1
      by (simp add: user_block_def user_awake_def user_isblocked_def set_blocked_def)
  qed
qed

definition demo_procs :: "(kheap, addr \<Rightarrow> u8) kern" where
  "demo_procs = (demo_kern False False)\<lparr>k_ls := demo_list False demo_heap2,
     k_utasks := [5 \<mapsto> zero_utask\<lparr>ut_task := 5, ut_pid := 1\<rparr>, 6 \<mapsto> zero_utask\<lparr>ut_task := 6, ut_pid := 2\<rparr>]\<rparr>"

lemma demo_procs: "procs demo_procs [0xE1000000, 0x200] [5, 6]" "the_proc demo_procs [5, 6] 2 = 6"
  by (simp_all add: procs_def demo_procs_def demo_kern_def demo_list_rep load_def the_proc_def pid_of_def)

lemma block_and_awake_witness:
  "\<exists>s. user_block 2 demo_procs = Some s \<and> user_isblocked 2 s = Some True \<and> \<not> blocked_at s 5"
proof -
  let ?u = "zero_utask\<lparr>ut_task := 6, ut_pid := 2\<rparr>" and ?t = "demo_task False 0x60"
  have u: "load (k_utasks demo_procs) 6 = Some ?u" "load (k_tasks demo_procs) (ut_task ?u) = Some ?t"
    by (simp_all add: demo_procs_def demo_kern_def load_def)
  obtain s where s: "user_block 2 demo_procs = Some s" "user_isblocked 2 s = Some True"
    "s = demo_procs\<lparr>k_tasks := (k_tasks demo_procs)(ut_task ?u \<mapsto> ?t\<lparr>t_blocked := True\<rparr>)\<rparr>"
    using block_and_awake [OF demo_procs u] by auto
  have "\<not> blocked_at s 5" unfolding s(3) by (simp add: blocked_at_def demo_procs_def demo_kern_def demo_task_def)
  with s show ?thesis by blast
qed

subsection \<open>Permissions\<close>

lemma adds_perms_iff: "adds_perms perms old \<longleftrightarrow> (\<exists>k < 32. bit perms k \<and> \<not> bit old k)"
  unfolding adds_perms_def u32_eq_iff by (auto simp: bit_simps)

end
