(* ===== verification/Processes.thy ===== *)
theory Processes
  imports User_Props Kheap_Safe
begin

text \<open>
  The objects of the kernel in its heap. \<open>objs_ok\<close> says that every list, node, task, process and
  descriptor lies in a block of the heap of its own, that is large enough; \<open>kern_rep\<close> that the round
  of tasks and the list of processes are intact on top of it, that each process has a task that leads
  back to it, and that the processes are numbered in the order of the list. The lemmas are about
  allocating an object, pushing on a list and making a task, for every allocator that keeps the laws of
  \<open>heap_allocator\<close>.
\<close>

subsection \<open>Objects and blocks\<close>

text \<open>
  \<open>objs_ok inv used s\<close>: every node, list, task, process, I/O bitmap and queued message of the kernel lies at the
  start of a block in use, no two objects of different kinds share one, and no message is queued twice. As blocks
  in use do not overlap, objects do not.
\<close>

definition queue_of :: "user_task store \<Rightarrow> addr \<Rightarrow> addr list" where
  "queue_of us u = (case us u of None \<Rightarrow> [] | Some U \<Rightarrow> mb_items (ut_recvbuf U))"

definition queued :: "user_task store \<Rightarrow> addr set" where
  "queued us = (\<Union>u. set (queue_of us u))"

definition queues_ok :: "user_task store \<Rightarrow> bool" where
  "queues_ok us \<longleftrightarrow> (\<forall>u U. us u = Some U \<longrightarrow> mb_ok (ut_recvbuf U)) \<and> (\<forall>u. distinct (queue_of us u)) \<and>
     (\<forall>u v. u \<noteq> v \<longrightarrow> set (queue_of us u) \<inter> set (queue_of us v) = {})"

lemma queue_of_upd: "queue_of (us(u \<mapsto> U)) v = (if v = u then mb_items (ut_recvbuf U) else queue_of us v)"
  by (simp add: queue_of_def)

lemma queues_new:
  assumes "us u = None" and "ut_recvbuf U = mb_empty"
  shows "queued (us(u \<mapsto> U)) = queued us" "queues_ok us \<Longrightarrow> queues_ok (us(u \<mapsto> U))"
proof -
  have q: "queue_of (us(u \<mapsto> U)) = queue_of us" using assms mb_empty_ok by (auto simp: queue_of_def fun_eq_iff)
  show "queued (us(u \<mapsto> U)) = queued us" by (simp add: queued_def q)
  show "queues_ok us \<Longrightarrow> queues_ok (us(u \<mapsto> U))"
    using q assms(2) mb_empty_ok unfolding queues_ok_def by simp
qed

lemma queues_upd:
  assumes "us u = Some V" and "ut_recvbuf U = ut_recvbuf V"
  shows "queued (us(u \<mapsto> U)) = queued us" "queues_ok us \<Longrightarrow> queues_ok (us(u \<mapsto> U))"
proof -
  have q: "queue_of (us(u \<mapsto> U)) = queue_of us" using assms by (auto simp: queue_of_def fun_eq_iff)
  show "queued (us(u \<mapsto> U)) = queued us" by (simp add: queued_def q)
  show "queues_ok us \<Longrightarrow> queues_ok (us(u \<mapsto> U))" using assms unfolding queues_ok_def q by simp
qed

lemma queues_same:
  assumes "ut_recvbuf U = ut_recvbuf V"
  shows "queued (us(u \<mapsto> U)) = queued (us(u \<mapsto> V))" "queues_ok (us(u \<mapsto> V)) \<Longrightarrow> queues_ok (us(u \<mapsto> U))"
  using queues_upd [of "us(u \<mapsto> V)" u V U] assms by simp_all

lemma queues_none [simp]: "queued (\<lambda>x. None) = {}" "queues_ok (\<lambda>x. None)"
  by (simp_all add: queued_def queues_ok_def queue_of_def)

definition kinds :: "('h, 'v) kern \<Rightarrow> addr set list" where
  "kinds s = [dom (ls_nodes (k_ls s)), dom (ls_lists (k_ls s)), dom (k_tasks s), dom (k_utasks s), dom (k_iobms s),
     queued (k_utasks s)]"

fun separate :: "'a set list \<Rightarrow> bool" where
  "separate [] \<longleftrightarrow> True"
| "separate (A # As) \<longleftrightarrow> (\<forall>B \<in> set As. A \<inter> B = {}) \<and> separate As"

definition objs :: "('h, 'v) kern \<Rightarrow> addr set" where
  "objs s = \<Union> (set (kinds s))"

definition objs_ok :: "('h \<Rightarrow> bool) \<Rightarrow> ('h \<Rightarrow> (nat \<times> nat) set) \<Rightarrow> ('h, 'v) kern \<Rightarrow> bool" where
  "objs_ok I U s \<longleftrightarrow> I (ls_heap (k_ls s)) \<and> separate (kinds s) \<and> queues_ok (k_utasks s) \<and>
     (\<forall>x \<in> objs s. \<exists>m. (unat x, m) \<in> U (ls_heap (k_ls s)))"

text \<open>What the calls below leave as it is.\<close>

definition rest_same :: "('h, 'v) kern \<Rightarrow> ('h, 'v) kern \<Rightarrow> bool" where
  "rest_same s s' \<longleftrightarrow> k_msgs s' = k_msgs s \<and> k_files s' = k_files s \<and> k_iobms s' = k_iobms s \<and>
     k_task_order s' = k_task_order s \<and> k_current s' = k_current s \<and> k_utsk_list s' = k_utsk_list s \<and>
     k_tss s' = k_tss s \<and> k_out s' = k_out s"

lemma rest_same_trans: "rest_same s s1 \<Longrightarrow> rest_same s1 s2 \<Longrightarrow> rest_same s s2"
  by (simp add: rest_same_def)

lemma list_rep_frame:
  assumes "list_rep s l r xs ds" and "\<And>x. x \<in> set xs \<Longrightarrow> ls_nodes s' x = ls_nodes s x" and "ls_lists s' l = ls_lists s l"
  shows "list_rep s' l r xs ds"
proof -
  have "dll n_next n_prev (ls_nodes s') (ends r xs) xs (ends r xs)"
    using assms(1,2) dll_eq [of n_next n_prev "ls_nodes s" _ xs _ "ls_nodes s'"] by (auto simp: list_rep_def)
  moreover have "map (data_of (ls_nodes s')) xs = map (data_of (ls_nodes s)) xs"
    using assms(2) by (simp add: data_of_def)
  moreover have "load (ls_lists s') l = load (ls_lists s) l" using assms(3) by (simp add: load_def)
  ultimately show ?thesis using assms(1) unfolding list_rep_def by auto
qed

lemma list_rep_nodes: "list_rep s l r xs ds \<Longrightarrow> set xs \<subseteq> dom (ls_nodes s)"
  by (auto simp: list_rep_def opt_simps dest!: dll_nodes)

lemma on_utask_in [simp]: "load (k_utasks s) p = Some t \<Longrightarrow>
    on_utask p f s = Some (s\<lparr>k_utasks := (k_utasks s)(p \<mapsto> f t)\<rparr>)"
  by (simp add: on_utask_def)

text \<open>Memory that never faults: the kernel's address space is mapped.\<close>

definition mem_total :: "('h, 'v) services \<Rightarrow> bool" where
  "mem_total sv \<longleftrightarrow> (\<forall>a bs v. \<exists>v'. sv_poke sv a bs v = Some v') \<and> (\<forall>a n v. \<exists>bs. sv_peek sv a n v = Some bs) \<and>
     (\<forall>d v. \<exists>d' v'. sv_clonedir sv d v = Some (d', v'))"

lemma k_store_total: "mem_total sv \<Longrightarrow> \<exists>v. k_store sv a bs s = Some (s\<lparr>k_vm := v\<rparr>)"
  unfolding mem_total_def k_store_def by (metis bind.bind_lunit)

lemma k_memcpy_total: "mem_total sv \<Longrightarrow> \<exists>v. k_memcpy sv a b n s = Some (s\<lparr>k_vm := v\<rparr>)"
  unfolding mem_total_def k_memcpy_def k_copy_def by (metis bind.bind_lunit)

context heap_allocator
begin

lemma k_alloc_ok:
  assumes ok: "objs_ok inv used s" and sv: "sv_alloc sv = alloc" and n: "n \<noteq> 0"
    and room: "cost (unat n) \<le> bytes_left (ls_heap (k_ls s))" "0 < allocs_left (ls_heap (k_ls s))"
  shows "\<exists>p h. k_alloc sv n s = Some (p, s\<lparr>k_ls := (k_ls s)\<lparr>ls_heap := h\<rparr>\<rparr>) \<and> p \<noteq> 0 \<and> p \<notin> objs s \<and>
    objs_ok inv used (s\<lparr>k_ls := (k_ls s)\<lparr>ls_heap := h\<rparr>\<rparr>) \<and> (\<exists>m. (unat p, m) \<in> used h) \<and>
    bytes_left (ls_heap (k_ls s)) - cost (unat n) \<le> bytes_left h \<and> allocs_left (ls_heap (k_ls s)) - 1 \<le> allocs_left h"
proof -
  let ?h = "ls_heap (k_ls s)"
  have i: "inv ?h" using ok by (simp add: objs_ok_def)
  obtain p h m where a: "alloc n ?h = Some (p, h)" "inv h" "(unat p, m) \<notin> used ?h" "used h = insert (unat p, m) (used ?h)"
    "bytes_left ?h - cost (unat n) \<le> bytes_left h" "allocs_left ?h - 1 \<le> allocs_left h"
    using alloc_ok [OF i n room] by blast
  have "p \<notin> objs s"
  proof
    assume "p \<in> objs s"
    then obtain k where k: "(unat p, k) \<in> used ?h" using ok unfolding objs_ok_def by blast
    then have "k = m" using same_start [OF a(2), of "unat p" k m] a(4) by simp
    then show False using k a(3) by simp
  qed
  moreover have "p \<noteq> 0" using used_pos [OF a(2), of "unat p" m] a(4) by auto
  moreover have "objs_ok inv used (s\<lparr>k_ls := (k_ls s)\<lparr>ls_heap := h\<rparr>\<rparr>)"
    using ok a(2,4) unfolding objs_ok_def objs_def kinds_def by auto
  ultimately show ?thesis using a sv by (intro exI [of _ p] exI [of _ h]) (auto simp: k_alloc_def)
qed

end

lemma objs_ok_cong:
  "objs_ok I U s \<Longrightarrow> kinds s' = kinds s \<Longrightarrow> (queues_ok (k_utasks s) \<Longrightarrow> queues_ok (k_utasks s')) \<Longrightarrow> ls_heap (k_ls s') = ls_heap (k_ls s) \<Longrightarrow> objs_ok I U s'"
  by (simp add: objs_ok_def objs_def)

lemma objs_ok_task:
  "objs_ok I U s \<Longrightarrow> p \<notin> objs s \<Longrightarrow> \<exists>m. (unat p, m) \<in> U (ls_heap (k_ls s)) \<Longrightarrow>
    objs_ok I U (s\<lparr>k_tasks := (k_tasks s)(p \<mapsto> t)\<rparr>)"
  by (auto simp: objs_ok_def objs_def kinds_def)

lemma objs_ok_utask:
  assumes "objs_ok I U s" and "p \<notin> objs s" and "\<exists>m. (unat p, m) \<in> U (ls_heap (k_ls s))" and "ut_recvbuf t = mb_empty"
  shows "objs_ok I U (s\<lparr>k_utasks := (k_utasks s)(p \<mapsto> t)\<rparr>)"
proof -
  have "k_utasks s p = None" using assms(2) by (auto simp: objs_def kinds_def)
  then show ?thesis using assms queues_new [of "k_utasks s" p t] by (auto simp: objs_ok_def objs_def kinds_def)
qed

lemma objs_ok_list:
  "objs_ok I U s \<Longrightarrow> p \<notin> objs s \<Longrightarrow> \<exists>m. (unat p, m) \<in> U (ls_heap (k_ls s)) \<Longrightarrow>
    objs_ok I U (s\<lparr>k_ls := (k_ls s)\<lparr>ls_lists := (ls_lists (k_ls s))(p \<mapsto> t)\<rparr>\<rparr>)"
  by (auto simp: objs_ok_def objs_def kinds_def)

lemma objs_ok_node:
  assumes "objs_ok I U s" "p \<notin> objs s" "\<exists>m. (unat p, m) \<in> U (ls_heap ls)" "ls_heap ls = ls_heap (k_ls s)"
    "dom (ls_nodes ls) = insert p (dom (ls_nodes (k_ls s)))" "dom (ls_lists ls) = dom (ls_lists (k_ls s))"
  shows "objs_ok I U (s\<lparr>k_ls := ls\<rparr>)"
  using assms unfolding objs_ok_def objs_def kinds_def by auto

lemma kinds_task_upd: "p \<in> dom (k_tasks s) \<Longrightarrow> kinds (s\<lparr>k_tasks := (k_tasks s)(p \<mapsto> t)\<rparr>) = kinds s"
  by (auto simp: kinds_def)

text \<open>The lists of \<open>s\<close> that do not share nodes with \<open>xs\<close> are lists of \<open>s'\<close>.\<close>

definition lists_keep :: "addr \<Rightarrow> addr list \<Rightarrow> ('h, 'v) kern \<Rightarrow> ('h, 'v) kern \<Rightarrow> bool" where
  "lists_keep l xs s s' \<longleftrightarrow> (\<forall>k r ys ds. k \<noteq> l \<longrightarrow> set ys \<inter> set xs = {} \<longrightarrow> list_rep (k_ls s) k r ys ds \<longrightarrow> list_rep (k_ls s') k r ys ds)"

context heap_allocator
begin

lemma k_new_list_ok:
  fixes sv :: "('s, 'v) services" and s :: "('s, 'v) kern"
  assumes ok: "objs_ok inv used s" and sv: "sv_alloc sv = alloc"
    and room: "cost 16 \<le> bytes_left (ls_heap (k_ls s))" "0 < allocs_left (ls_heap (k_ls s))"
  shows "\<exists>l h. let s' = s\<lparr>k_ls := (k_ls s)\<lparr>ls_heap := h, ls_lists := (ls_lists (k_ls s))
        (l \<mapsto> \<lparr>l_rnd = r, l_head = 0, l_tail = 0, l_elements = 0\<rparr>)\<rparr>\<rparr> in
    list_allocator (sv_alloc sv) r (k_ls s) = Some (l, k_ls s') \<and> l \<noteq> 0 \<and> l \<notin> objs s \<and> objs_ok inv used s' \<and>
    bytes_left (ls_heap (k_ls s)) - cost 16 \<le> bytes_left h \<and> allocs_left (ls_heap (k_ls s)) - 1 \<le> allocs_left h"
proof -
  have room': "cost (unat (16 :: u32)) \<le> bytes_left (ls_heap (k_ls s))" using room(1) by simp
  obtain l h where a: "k_alloc sv 16 s = Some (l, s\<lparr>k_ls := (k_ls s)\<lparr>ls_heap := h\<rparr>\<rparr>)" "l \<noteq> 0" "l \<notin> objs s"
    "objs_ok inv used (s\<lparr>k_ls := (k_ls s)\<lparr>ls_heap := h\<rparr>\<rparr>)" "\<exists>m. (unat l, m) \<in> used h"
    "bytes_left (ls_heap (k_ls s)) - cost (unat (16 :: u32)) \<le> bytes_left h" "allocs_left (ls_heap (k_ls s)) - 1 \<le> allocs_left h"
    using k_alloc_ok [OF ok sv _ room' room(2)] by auto
  have al: "sv_alloc sv 16 (ls_heap (k_ls s)) = Some (l, h)" using a(1) by (auto simp: k_alloc_def opt_simps dest: arg_cong [of _ _ "\<lambda>s. ls_heap (k_ls s)"])
  have l: "l \<notin> objs (s\<lparr>k_ls := (k_ls s)\<lparr>ls_heap := h\<rparr>\<rparr>)" using a(3) by (simp add: objs_def kinds_def)
  from objs_ok_list [OF a(4) l, of "\<lparr>l_rnd = r, l_head = 0, l_tail = 0, l_elements = 0\<rparr>"] a(5)
  have "objs_ok inv used (s\<lparr>k_ls := (k_ls s)\<lparr>ls_heap := h, ls_lists := (ls_lists (k_ls s))
        (l \<mapsto> \<lparr>l_rnd = r, l_head = 0, l_tail = 0, l_elements = 0\<rparr>)\<rparr>\<rparr>)" by simp
  then show ?thesis using al a by (intro exI [of _ l] exI [of _ h]) (simp add: list_allocator_def Let_def)
qed

lemma k_push_ok:
  assumes ok: "objs_ok inv used s" and sv: "sv_alloc sv = alloc" and rep: "list_rep (k_ls s) l r xs ds"
    and len: "length xs < 2 ^ 31"
    and room: "cost 12 \<le> bytes_left (ls_heap (k_ls s))" "0 < allocs_left (ls_heap (k_ls s))"
  shows "\<exists>ls p. k_push sv l d s = Some (int (length xs), s\<lparr>k_ls := ls\<rparr>) \<and> list_rep ls l r (xs @ [p]) (ds @ [d]) \<and>
    p \<notin> objs s \<and> objs_ok inv used (s\<lparr>k_ls := ls\<rparr>) \<and> lists_keep l xs s (s\<lparr>k_ls := ls\<rparr>) \<and>
    dom (ls_nodes ls) = insert p (dom (ls_nodes (k_ls s))) \<and> dom (ls_lists ls) = dom (ls_lists (k_ls s)) \<and>
    bytes_left (ls_heap (k_ls s)) - cost 12 \<le> bytes_left (ls_heap ls) \<and> allocs_left (ls_heap (k_ls s)) - 1 \<le> allocs_left (ls_heap ls)"
proof -
  have room': "cost (unat (12 :: u32)) \<le> bytes_left (ls_heap (k_ls s))" using room(1) by simp
  obtain p h where a: "k_alloc sv 12 s = Some (p, s\<lparr>k_ls := (k_ls s)\<lparr>ls_heap := h\<rparr>\<rparr>)" "p \<noteq> 0" "p \<notin> objs s"
    "objs_ok inv used (s\<lparr>k_ls := (k_ls s)\<lparr>ls_heap := h\<rparr>\<rparr>)" "\<exists>m. (unat p, m) \<in> used h"
    "bytes_left (ls_heap (k_ls s)) - cost (unat (12 :: u32)) \<le> bytes_left h" "allocs_left (ls_heap (k_ls s)) - 1 \<le> allocs_left h"
    using k_alloc_ok [OF ok sv _ room' room(2)] by auto
  have al: "sv_alloc sv 12 (ls_heap (k_ls s)) = Some (p, h)"
    using a(1) by (auto simp: k_alloc_def opt_simps dest: arg_cong [of _ _ "\<lambda>s. ls_heap (k_ls s)"])
  then obtain s1 where n: "new_node (sv_alloc sv) (k_ls s) = Some (p, s1)" "ls_heap s1 = h"
    using a(2) by (auto simp: new_node_def Let_def)
  have px: "p \<notin> set xs" using a(3) list_rep_nodes [OF rep] by (auto simp: objs_def kinds_def)
  obtain ls where ls: "list_push (sv_alloc sv) l d (k_ls s) = Some (int (length xs), ls)" "list_rep ls l r (xs @ [p]) (ds @ [d])"
    "ls_heap ls = ls_heap s1" "dom (ls_nodes ls) = insert p (dom (ls_nodes (k_ls s)))"
    "\<forall>x. x \<noteq> p \<longrightarrow> x \<notin> set xs \<longrightarrow> ls_nodes ls x = ls_nodes (k_ls s) x"
    "\<forall>k. k \<noteq> l \<longrightarrow> ls_lists ls k = ls_lists (k_ls s) k" "dom (ls_lists ls) = dom (ls_lists (k_ls s))"
    using list_push_new [OF rep n(1) a(2) px len, of d] by blast
  have "p \<notin> objs (s\<lparr>k_ls := (k_ls s)\<lparr>ls_heap := h\<rparr>\<rparr>)" using a(3) by (simp add: objs_def kinds_def)
  then have "objs_ok inv used (s\<lparr>k_ls := (k_ls s)\<lparr>ls_heap := h\<rparr>, k_ls := ls\<rparr>)"
    using objs_ok_node [OF a(4), of p ls] a(5) ls(3,4,7) n(2) by simp
  then have "objs_ok inv used (s\<lparr>k_ls := ls\<rparr>)" by simp
  moreover have "lists_keep l xs s (s\<lparr>k_ls := ls\<rparr>)"
    unfolding lists_keep_def
  proof (intro allI impI)
    fix k r' ys es assume k: "k \<noteq> l" "set ys \<inter> set xs = {}" "list_rep (k_ls s) k r' ys es"
    have "p \<notin> set ys" using a(3) list_rep_nodes [OF k(3)] by (auto simp: objs_def kinds_def)
    then have "\<And>x. x \<in> set ys \<Longrightarrow> ls_nodes ls x = ls_nodes (k_ls s) x" using ls(5) k(2) by (metis disjoint_iff)
    then show "list_rep (k_ls (s\<lparr>k_ls := ls\<rparr>)) k r' ys es"
      using list_rep_frame [OF k(3), of ls] ls(6) k(1) by simp
  qed
  ultimately show ?thesis using ls n a by (intro exI [of _ ls] exI [of _ p]) (simp add: k_push_def)
qed

end

text \<open>A task made by \<open>task_newtask\<close>.\<close>

definition fresh_task :: "addr \<Rightarrow> addr \<Rightarrow> addr \<Rightarrow> task" where
  "fresh_task func stk d = zero_task\<lparr>t_tslice := TIME_SLICE_MAX, t_ksp := stk, t_kbp := stk, t_kstack_top := stk,
     t_ip := func, t_dir := d\<rparr>"

lemma list_rep_heap [simp]: "list_rep (s\<lparr>ls_heap := h\<rparr>) l r xs ds = list_rep s l r xs ds"
  by (simp add: list_rep_def)

context heap_allocator
begin

lemma task_newtask_ok:
  fixes sv :: "('s, 'v) services" and s :: "('s, 'v) kern"
  assumes ok: "objs_ok inv used s" and sv: "sv_alloc sv = alloc" "mem_total sv" and rd: "round s xs ts"
    and len: "length xs < 2 ^ 31"
    and room: "cost 36 + cost 12 \<le> bytes_left (ls_heap (k_ls s))" "1 < allocs_left (ls_heap (k_ls s))"
  shows "\<exists>t p d s'. task_newtask sv func stk s = Some (t, s') \<and> objs_ok inv used s' \<and> t \<noteq> 0 \<and> t \<notin> objs s \<and> p \<notin> objs s \<and>
    k_tasks s' = (k_tasks s)(t \<mapsto> fresh_task func stk d) \<and> k_utasks s' = k_utasks s \<and>
    list_rep (k_ls s') (k_task_order s) True (xs @ [p]) (ts @ [t]) \<and> lists_keep (k_task_order s) xs s s' \<and>
    dom (ls_nodes (k_ls s')) = insert p (dom (ls_nodes (k_ls s))) \<and> dom (ls_lists (k_ls s')) = dom (ls_lists (k_ls s)) \<and>
    rest_same s s' \<and> k_next_pid s' = k_next_pid s \<and> k_enabled s' = k_enabled s \<and>
    bytes_left (ls_heap (k_ls s)) - (cost 36 + cost 12) \<le> bytes_left (ls_heap (k_ls s')) \<and>
    allocs_left (ls_heap (k_ls s)) - 2 \<le> allocs_left (ls_heap (k_ls s'))"
proof -
  let ?s1 = "s\<lparr>k_intr := disable_interrupts (k_intr s)\<rparr>"
  have ok1: "objs_ok inv used ?s1" using objs_ok_cong [OF ok, of ?s1] by (simp add: kinds_def)
  have room1: "cost (unat (36 :: u32)) \<le> bytes_left (ls_heap (k_ls ?s1))" "0 < allocs_left (ls_heap (k_ls ?s1))"
    using room by simp_all
  obtain t h where a: "k_alloc sv 36 ?s1 = Some (t, ?s1\<lparr>k_ls := (k_ls ?s1)\<lparr>ls_heap := h\<rparr>\<rparr>)" "t \<noteq> 0" "t \<notin> objs ?s1"
    "objs_ok inv used (?s1\<lparr>k_ls := (k_ls ?s1)\<lparr>ls_heap := h\<rparr>\<rparr>)" "\<exists>m. (unat t, m) \<in> used h"
    "bytes_left (ls_heap (k_ls ?s1)) - cost (unat (36 :: u32)) \<le> bytes_left h" "allocs_left (ls_heap (k_ls ?s1)) - 1 \<le> allocs_left h"
    using k_alloc_ok [OF ok1 sv(1) _ room1] by auto
  let ?ls1 = "(k_ls s)\<lparr>ls_heap := h\<rparr>"
  let ?v0 = "k_vm s"
  obtain d v where cd: "sv_clonedir sv (sv_curdir sv ?v0) ?v0 = Some (d, v)" using sv(2) unfolding mem_total_def by blast
  let ?T = "fresh_task func stk d"
  let ?s5 = "s\<lparr>k_intr := disable_interrupts (k_intr s), k_ls := ?ls1, k_vm := v, k_tasks := (k_tasks s)(t \<mapsto> ?T)\<rparr>"
  have ts: "t \<notin> objs (?s1\<lparr>k_ls := ?ls1\<rparr>)" and tn: "t \<notin> objs s" using a(3) by (simp_all add: objs_def kinds_def)
  have "objs_ok inv used (?s1\<lparr>k_ls := ?ls1, k_tasks := (k_tasks s)(t \<mapsto> ?T)\<rparr>)"
    using objs_ok_task [OF a(4), of t ?T] ts a(5) by simp
  then have ok5: "objs_ok inv used ?s5" by (rule objs_ok_cong) (simp_all add: kinds_def)
  have rep5: "list_rep (k_ls ?s5) (k_task_order ?s5) True xs ts" using rd by (simp add: round_def)
  have room5: "cost 12 \<le> bytes_left (ls_heap (k_ls ?s5))" "0 < allocs_left (ls_heap (k_ls ?s5))"
    using a(6,7) room by simp_all
  obtain ls p where p: "k_push sv (k_task_order ?s5) t ?s5 = Some (int (length xs), ?s5\<lparr>k_ls := ls\<rparr>)"
    "list_rep ls (k_task_order ?s5) True (xs @ [p]) (ts @ [t])" "p \<notin> objs ?s5" "objs_ok inv used (?s5\<lparr>k_ls := ls\<rparr>)"
    "lists_keep (k_task_order ?s5) xs ?s5 (?s5\<lparr>k_ls := ls\<rparr>)" "dom (ls_nodes ls) = insert p (dom (ls_nodes (k_ls ?s5)))"
    "dom (ls_lists ls) = dom (ls_lists (k_ls ?s5))" "bytes_left (ls_heap (k_ls ?s5)) - cost 12 \<le> bytes_left (ls_heap ls)"
    "allocs_left (ls_heap (k_ls ?s5)) - 1 \<le> allocs_left (ls_heap ls)"
    using k_push_ok [OF ok5 sv(1) rep5 len room5, of t] by blast
  let ?s' = "?s5\<lparr>k_ls := ls, k_intr := enable_interrupts (k_intr ?s5)\<rparr>"
  have "task_newtask sv func stk s = Some (t, ?s')"
    using a(1,2) cd p(1) by (simp add: task_newtask_def new_task_def Let_def fresh_task_def load_def)
  moreover have "objs_ok inv used ?s'" using p(4) by (rule objs_ok_cong) (simp_all add: kinds_def)
  moreover have "p \<notin> objs s" using p(3) by (auto simp: objs_def kinds_def)
  moreover have "lists_keep (k_task_order s) xs s ?s'" using p(5) by (simp add: lists_keep_def)
  moreover have "bytes_left (ls_heap (k_ls s)) - (cost 36 + cost 12) \<le> bytes_left (ls_heap ls)"
    "allocs_left (ls_heap (k_ls s)) - 2 \<le> allocs_left (ls_heap ls)" using a(6,7) p(8,9) by simp_all
  ultimately show ?thesis using p(2,6,7) a(2) tn
    by - (rule exI [of _ t], rule exI [of _ p], rule exI [of _ d], rule exI [of _ ?s'], simp add: rest_same_def)
qed

end

subsection \<open>The process table\<close>

text \<open>
  \<open>kern_rep I U s xs ts ys us\<close>: the tasks \<open>ts\<close> stand in the round of tasks (nodes \<open>xs\<close>) and the processes
  \<open>us\<close> in the list of processes (nodes \<open>ys\<close>); each process has a task of its own that leads back to it;
  a task has no I/O bitmap yet or a whole one, and belongs to the kernel or to a process of the list; and the processes are
  numbered 0, 1, 2 and so on, in order.
\<close>

definition proc_ok :: "('h, 'v) kern \<Rightarrow> addr list \<Rightarrow> addr \<Rightarrow> bool" where
  "proc_ok s ts u \<longleftrightarrow> (\<exists>U T. k_utasks s u = Some U \<and> k_tasks s (ut_task U) = Some T \<and> ut_task U \<in> set ts \<and>
     t_parent T = u \<and> u \<noteq> 0)"

definition iobm_ok :: "('h, 'v) kern \<Rightarrow> addr \<Rightarrow> bool" where
  "iobm_ok s t \<longleftrightarrow> (\<exists>T. k_tasks s t = Some T \<and> t \<noteq> 0 \<and>
     (t_iobm T = 0 \<or> (\<exists>bm. k_iobms s (t_iobm T) = Some bm \<and> length bm = 8192)))"

definition parent_ok :: "('h, 'v) kern \<Rightarrow> addr list \<Rightarrow> addr \<Rightarrow> bool" where
  "parent_ok s us t \<longleftrightarrow> (\<forall>T. k_tasks s t = Some T \<longrightarrow> t_parent T \<noteq> 0 \<longrightarrow> t_parent T \<in> set us)"

definition kern_rep :: "('h \<Rightarrow> bool) \<Rightarrow> ('h \<Rightarrow> (nat \<times> nat) set) \<Rightarrow> ('h, 'v) kern \<Rightarrow> addr list \<Rightarrow> addr list \<Rightarrow>
    addr list \<Rightarrow> addr list \<Rightarrow> bool" where
  "kern_rep I U s xs ts ys us \<longleftrightarrow> objs_ok I U s \<and>
     list_rep (k_ls s) (k_task_order s) True xs ts \<and> list_rep (k_ls s) (k_utsk_list s) False ys us \<and>
     set xs \<inter> set ys = {} \<and> k_current s \<in> set xs \<and> distinct ts \<and>
     dom (k_tasks s) = set ts \<and> dom (k_utasks s) = set us \<and>
     (\<forall>u \<in> set us. proc_ok s ts u) \<and> (\<forall>t \<in> set ts. iobm_ok s t \<and> parent_ok s us t) \<and>
     map (pid_of s) us = map of_nat [0..<length us] \<and> k_next_pid s = of_nat (length us)"

lemma kern_rep_task: "kern_rep I U s xs ts ys us \<Longrightarrow> t \<in> set ts \<Longrightarrow> \<exists>T. k_tasks s t = Some T \<and> t \<noteq> 0 \<and>
    (t_iobm T = 0 \<or> (\<exists>bm. k_iobms s (t_iobm T) = Some bm \<and> length bm = 8192)) \<and> (t_parent T \<noteq> 0 \<longrightarrow> t_parent T \<in> set us)"
proof -
  assume "kern_rep I U s xs ts ys us" and t: "t \<in> set ts"
  then have "\<forall>t \<in> set ts. iobm_ok s t \<and> parent_ok s us t" unfolding kern_rep_def by (elim conjE) assumption
  then show ?thesis using t unfolding iobm_ok_def parent_ok_def by blast
qed

lemma kern_rep_proc: "kern_rep I U s xs ts ys us \<Longrightarrow> u \<in> set us \<Longrightarrow> \<exists>V T. k_utasks s u = Some V \<and> u \<noteq> 0 \<and>
    k_tasks s (ut_task V) = Some T \<and> ut_task V \<in> set ts \<and> ut_task V \<noteq> 0 \<and> t_parent T = u"
proof -
  assume r: "kern_rep I U s xs ts ys us" and u: "u \<in> set us"
  then have "\<forall>u \<in> set us. proc_ok s ts u" unfolding kern_rep_def by (elim conjE) assumption
  then obtain V T where V: "k_utasks s u = Some V" "k_tasks s (ut_task V) = Some T" "ut_task V \<in> set ts" "t_parent T = u" "u \<noteq> 0"
    using u unfolding proc_ok_def by blast
  then show ?thesis using kern_rep_task [OF r V(3)] by blast
qed

lemma kern_rep_round: "kern_rep I U s xs ts ys us \<Longrightarrow> round s xs ts"
proof -
  assume r: "kern_rep I U s xs ts ys us"
  have "\<exists>v. load (k_tasks s) t = Some v" if "t \<in> set ts" for t
    using kern_rep_task [OF r that] by (auto simp: load_def)
  then show ?thesis using r by (simp add: round_def kern_rep_def)
qed

lemma kern_rep_procs: "kern_rep I U s xs ts ys us \<Longrightarrow> procs s ys us"
proof -
  assume r: "kern_rep I U s xs ts ys us"
  have "\<exists>v. load (k_utasks s) u = Some v" if "u \<in> set us" for u
    using kern_rep_proc [OF r that] by (auto simp: load_def)
  then show ?thesis using r by (simp add: procs_def kern_rep_def)
qed

lemma list_rep_distinct_kinds: "list_rep s l True xs ts \<Longrightarrow> list_rep s k False ys us \<Longrightarrow> l \<noteq> k"
  by (auto simp: list_rep_def)

text \<open>A new process with its task joins both lists.\<close>

lemma kern_rep_join:
  assumes rep: "kern_rep I U s xs ts ys us"
    and ok: "objs_ok I U s'" and rs: "rest_same s s'" "k_next_pid s' = k_next_pid s + 1"
    and tk: "k_tasks s' = (k_tasks s)(t \<mapsto> T)" "t \<notin> objs s" "t \<noteq> 0" "t_parent T = u" "t_iobm T = 0"
    and ut: "k_utasks s' = (k_utasks s)(u \<mapsto> V)" "u \<notin> objs s" "u \<noteq> 0" "ut_task V = t" "ut_pid V = k_next_pid s"
    and ls: "list_rep (k_ls s') (k_task_order s) True (xs @ [p]) (ts @ [t])"
      "list_rep (k_ls s') (k_utsk_list s) False (ys @ [q]) (us @ [u])" "p \<notin> set ys" "q \<notin> set xs" "p \<noteq> q"
  shows "kern_rep I U s' (xs @ [p]) (ts @ [t]) (ys @ [q]) (us @ [u])"
proof -
  have dt: "set ts \<subseteq> dom (k_tasks s)" and du: "set us \<subseteq> dom (k_utasks s)"
    using rep by (fastforce simp: kern_rep_def iobm_ok_def proc_ok_def)+
  have t: "t \<notin> set ts" "k_tasks s t = None" and u: "u \<notin> set us" "k_utasks s u = None"
    using dt du tk(2) ut(2) by (auto simp: objs_def kinds_def)
  have "\<forall>x \<in> set (us @ [u]). proc_ok s' (ts @ [t]) x"
  proof
    fix x assume "x \<in> set (us @ [u])"
    then consider "x = u" | "x \<in> set us" by auto
    then show "proc_ok s' (ts @ [t]) x"
    proof cases
      case 1
      then show ?thesis using tk ut by (simp add: proc_ok_def)
    next
      case 2
      then have "proc_ok s ts x" "x \<noteq> u" using rep u by (auto simp: kern_rep_def)
      moreover have "ut_task W \<noteq> t" if "ut_task W \<in> set ts" for W using that t by auto
      ultimately show ?thesis using tk ut by (auto simp: proc_ok_def)
    qed
  qed
  moreover have "\<forall>x \<in> set (ts @ [t]). iobm_ok s' x \<and> parent_ok s' (us @ [u]) x"
    using rep t tk rs by (auto simp: kern_rep_def iobm_ok_def parent_ok_def rest_same_def)
  moreover have "map (pid_of s') (us @ [u]) = map of_nat [0..<length (us @ [u])]"
  proof -
    have "map (pid_of s') us = map (pid_of s) us" using u ut by (auto simp: pid_of_def)
    moreover have "pid_of s' u = of_nat (length us)" using ut rep by (simp add: pid_of_def kern_rep_def)
    moreover have "map (pid_of s) us = map of_nat [0..<length us]" using rep by (simp add: kern_rep_def)
    ultimately show ?thesis by (simp del: map_eq_conv)
  qed
  moreover have "distinct (ts @ [t])" using t rep by (simp add: kern_rep_def)
  moreover have "dom (k_tasks s') = set (ts @ [t])" "dom (k_utasks s') = set (us @ [u])"
    using tk(1) ut(1) rep by (auto simp: kern_rep_def)
  moreover have "k_next_pid s' = of_nat (length (us @ [u]))" using rs(2) rep by (simp add: kern_rep_def)
  ultimately show ?thesis using ok ls rs(1) rep unfolding kern_rep_def rest_same_def by simp
qed

text \<open>The processes by number.\<close>

lemma kern_rep_find:
  assumes "kern_rep I U s xs ts ys us" and "length us \<le> 2 ^ 32"
  shows "user_find pid s = Some (if unat pid < length us then us ! unat pid else 0)"
proof -
  have pids: "pid_of s (us ! i) = of_nat i" if "i < length us" for i
  proof -
    have "map (pid_of s) us = map of_nat [0..<length us]" using assms(1) by (simp add: kern_rep_def)
    then have "map (pid_of s) us ! i = map of_nat [0..<length us] ! i" by (simp only:)
    then show ?thesis using that by simp
  qed
  have un: "unat (of_nat i :: u32) = i" if "i < length us" for i using that assms(2) by (intro u32_of_nat) simp
  have "find (\<lambda>u. pid_of s u = pid) us = (if unat pid < length us then Some (us ! unat pid) else None)"
  proof (cases "unat pid < length us")
    case True
    have "pid_of s (us ! j) \<noteq> pid" if "j < unat pid" for j using that pids [of j] un [of j] True by auto
    then show ?thesis using True pids [OF True] by (auto simp: find_Some_iff)
  next
    case False
    have "pid_of s x \<noteq> pid" if x: "x \<in> set us" for x
    proof -
      obtain j where "j < length us" "x = us ! j" using x by (auto simp: in_set_conv_nth)
      then show ?thesis using pids [of j] un [of j] False by auto
    qed
    then show ?thesis using False by (simp add: find_None_iff)
  qed
  then show ?thesis using user_find_procs [OF kern_rep_procs [OF assms(1)], of pid] by (simp add: the_proc_def)
qed

end
