(* ===== verification/Processes_Ops.thy ===== *)
theory Processes_Ops
  imports Processes
begin

text \<open>
  What \<open>user_spawn\<close>, \<open>user_fork\<close>, the boot sequence, blocking and a tick do to \<open>kern_rep\<close>, for every
  allocator that keeps the laws of \<open>heap_allocator\<close>.
\<close>

text \<open>What joins no list and makes no task: \<open>extends s s'\<close>.\<close>

definition extends :: "('h, 'v) kern \<Rightarrow> ('h, 'v) kern \<Rightarrow> bool" where
  "extends s s' \<longleftrightarrow> rest_same s s' \<and> k_tasks s' = k_tasks s \<and> objs s \<subseteq> objs s' \<and>
     ls_nodes (k_ls s') = ls_nodes (k_ls s) \<and>
     (\<forall>k r ys ds. list_rep (k_ls s) k r ys ds \<longrightarrow> list_rep (k_ls s') k r ys ds)"

lemma extends_trans: "extends s s1 \<Longrightarrow> extends s1 s2 \<Longrightarrow> extends s s2"
  unfolding extends_def using rest_same_trans by (metis subset_trans)

lemma extends_heap: "k_tasks s' = k_tasks s \<Longrightarrow> rest_same s s' \<Longrightarrow> objs s' = objs s \<Longrightarrow>
    ls_nodes (k_ls s') = ls_nodes (k_ls s) \<Longrightarrow> ls_lists (k_ls s') = ls_lists (k_ls s) \<Longrightarrow> extends s s'"
  unfolding extends_def by (auto intro: list_rep_frame)

context heap_allocator
begin

definition room :: "nat \<Rightarrow> nat \<Rightarrow> ('s, 'v) kern \<Rightarrow> bool" where
  "room b n s \<longleftrightarrow> b \<le> bytes_left (ls_heap (k_ls s)) \<and> n \<le> allocs_left (ls_heap (k_ls s))"

lemma k_alloc_room:
  assumes "objs_ok inv used s" and "sv_alloc sv = alloc" and "n \<noteq> 0" and "room (cost (unat n) + b) (Suc k) s"
  shows "\<exists>p h. k_alloc sv n s = Some (p, s\<lparr>k_ls := (k_ls s)\<lparr>ls_heap := h\<rparr>\<rparr>) \<and> p \<noteq> 0 \<and> p \<notin> objs s \<and>
    objs_ok inv used (s\<lparr>k_ls := (k_ls s)\<lparr>ls_heap := h\<rparr>\<rparr>) \<and> (\<exists>m. (unat p, m) \<in> used h) \<and>
    room b k (s\<lparr>k_ls := (k_ls s)\<lparr>ls_heap := h\<rparr>\<rparr>)"
proof -
  have "cost (unat n) \<le> bytes_left (ls_heap (k_ls s))" "0 < allocs_left (ls_heap (k_ls s))"
    using assms(4) by (simp_all add: room_def)
  from k_alloc_ok [OF assms(1-3) this] obtain p h where a: "k_alloc sv n s = Some (p, s\<lparr>k_ls := (k_ls s)\<lparr>ls_heap := h\<rparr>\<rparr>)"
    "p \<noteq> 0" "p \<notin> objs s" "objs_ok inv used (s\<lparr>k_ls := (k_ls s)\<lparr>ls_heap := h\<rparr>\<rparr>)" "\<exists>m. (unat p, m) \<in> used h"
    "bytes_left (ls_heap (k_ls s)) - cost (unat n) \<le> bytes_left h" "allocs_left (ls_heap (k_ls s)) - 1 \<le> allocs_left h"
    by blast
  have "room b k (s\<lparr>k_ls := (k_ls s)\<lparr>ls_heap := h\<rparr>\<rparr>)" using a(6,7) assms(4) unfolding room_def by (simp, linarith)
  then show ?thesis using a by blast
qed

lemma spawn_stack_ok:
  fixes sv :: "('s, 'v) services" and s :: "('s, 'v) kern"
  assumes ok: "objs_ok inv used s" and sv: "sv_alloc sv = alloc" "mem_total sv" and n: "n \<noteq> 0"
    and room: "room (cost 0x2000 + (cost (unat n) + b)) (Suc (Suc k)) s"
  shows "\<exists>top s'. spawn_stack sv file d n s = Some (top, s') \<and> objs_ok inv used s' \<and> extends s s' \<and> room b k s' \<and>
    k_utasks s' = k_utasks s \<and> k_next_pid s' = k_next_pid s"
proof -
  have r1: "room (cost (unat (0x2000 :: u32)) + (cost (unat n) + b)) (Suc (Suc k)) s" using room by simp
  obtain st h1 where a1: "k_alloc sv 0x2000 s = Some (st, s\<lparr>k_ls := (k_ls s)\<lparr>ls_heap := h1\<rparr>\<rparr>)"
    "objs_ok inv used (s\<lparr>k_ls := (k_ls s)\<lparr>ls_heap := h1\<rparr>\<rparr>)" "room (cost (unat n) + b) (Suc k) (s\<lparr>k_ls := (k_ls s)\<lparr>ls_heap := h1\<rparr>\<rparr>)"
    using k_alloc_room [OF ok sv(1) _ r1] by auto
  let ?s1 = "s\<lparr>k_ls := (k_ls s)\<lparr>ls_heap := h1\<rparr>\<rparr>"
  obtain v1 where v1: "k_store sv st (replicate 0x2000 0) ?s1 = Some (?s1\<lparr>k_vm := v1\<rparr>)" using k_store_total [OF sv(2)] by blast
  have ok2: "objs_ok inv used (?s1\<lparr>k_vm := v1\<rparr>)" using a1(2) by (rule objs_ok_cong) (simp_all add: kinds_def)
  have r2: "room (cost (unat n) + b) (Suc k) (?s1\<lparr>k_vm := v1\<rparr>)" using a1(3) by (simp add: room_def)
  obtain nd h2 where a2: "k_alloc sv n (?s1\<lparr>k_vm := v1\<rparr>) = Some (nd, ?s1\<lparr>k_vm := v1, k_ls := (k_ls ?s1)\<lparr>ls_heap := h2\<rparr>\<rparr>)"
    "objs_ok inv used (?s1\<lparr>k_vm := v1, k_ls := (k_ls ?s1)\<lparr>ls_heap := h2\<rparr>\<rparr>)"
    "room b k (?s1\<lparr>k_vm := v1, k_ls := (k_ls ?s1)\<lparr>ls_heap := h2\<rparr>\<rparr>)"
    using k_alloc_room [OF ok2 sv(1) n r2] by auto
  let ?s3 = "?s1\<lparr>k_vm := v1, k_ls := (k_ls ?s1)\<lparr>ls_heap := h2\<rparr>\<rparr>"
  obtain v2 where v2: "k_memcpy sv nd d n ?s3 = Some (?s3\<lparr>k_vm := v2\<rparr>)" using k_memcpy_total [OF sv(2)] by blast
  obtain v3 where v3: "k_store sv (st + 0x2000 - 12) (put32 file) (?s3\<lparr>k_vm := v2\<rparr>) = Some (?s3\<lparr>k_vm := v2, k_vm := v3\<rparr>)"
    using k_store_total [OF sv(2)] by blast
  obtain v4 where v4: "k_store sv (st + 0x2000 - 8) (put32 nd) (?s3\<lparr>k_vm := v3\<rparr>) = Some (?s3\<lparr>k_vm := v3, k_vm := v4\<rparr>)"
    using k_store_total [OF sv(2)] by blast
  obtain v5 where v5: "k_store sv (st + 0x2000 - 4) (put32 n) (?s3\<lparr>k_vm := v4\<rparr>) = Some (?s3\<lparr>k_vm := v4, k_vm := v5\<rparr>)"
    using k_store_total [OF sv(2)] by blast
  let ?s' = "?s3\<lparr>k_vm := v5\<rparr>"
  have "spawn_stack sv file d n s = Some (st + 0x2000 - 12, ?s')"
    using a1(1) v1 a2(1) v2 v3 v4 v5 by (simp add: spawn_stack_def Let_def)
  moreover have "objs_ok inv used ?s'" using a2(2) by (rule objs_ok_cong) (simp_all add: kinds_def)
  moreover have "extends s ?s'" by (rule extends_heap) (simp_all add: rest_same_def objs_def kinds_def)
  moreover have "room b k ?s'" using a2(3) by (simp add: room_def)
  ultimately show ?thesis by - (rule exI, rule exI [of _ ?s'], simp)
qed

lemma new_process_ok:
  fixes sv :: "('s, 'v) services" and s :: "('s, 'v) kern"
  assumes ok: "objs_ok inv used s" and sv: "sv_alloc sv = alloc"
    and pm: "\<And>s2 :: ('s, 'v) kern. (\<forall>x \<in> dom (k_utasks s). k_utasks s2 x = k_utasks s x) \<Longrightarrow> perms s2 = Some pm"
    and room: "room (cost 604 + (cost 16 + b)) (Suc (Suc k)) s"
  shows "\<exists>u l s'. new_process sv perms s = Some (u, s') \<and> objs_ok inv used s' \<and> extends s s' \<and> room b k s' \<and>
    u \<noteq> 0 \<and> u \<notin> objs s \<and> u \<in> objs s' \<and> k_next_pid s' = k_next_pid s + 1 \<and>
    k_utasks s' = (k_utasks s)(u \<mapsto> zero_utask\<lparr>ut_pid := k_next_pid s, ut_perms := pm, ut_sendbuf := l\<rparr>)"
proof -
  have r1: "room (cost (unat (604 :: u32)) + (cost 16 + b)) (Suc (Suc k)) s" using room by simp
  obtain u h where a: "k_alloc sv 604 s = Some (u, s\<lparr>k_ls := (k_ls s)\<lparr>ls_heap := h\<rparr>\<rparr>)" "u \<noteq> 0" "u \<notin> objs s"
    "objs_ok inv used (s\<lparr>k_ls := (k_ls s)\<lparr>ls_heap := h\<rparr>\<rparr>)" "\<exists>m. (unat u, m) \<in> used h"
    "room (cost 16 + b) (Suc k) (s\<lparr>k_ls := (k_ls s)\<lparr>ls_heap := h\<rparr>\<rparr>)"
    using k_alloc_room [OF ok sv _ r1] by auto
  let ?U = "zero_utask\<lparr>ut_pid := k_next_pid s, ut_perms := pm\<rparr>"
  let ?s3 = "s\<lparr>k_ls := (k_ls s)\<lparr>ls_heap := h\<rparr>, k_next_pid := k_next_pid s + 1, k_utasks := (k_utasks s)(u \<mapsto> ?U)\<rparr>"
  have un: "u \<notin> dom (k_utasks s)" "u \<notin> objs (s\<lparr>k_ls := (k_ls s)\<lparr>ls_heap := h\<rparr>\<rparr>)" using a(3) by (simp_all add: objs_def kinds_def)
  have "objs_ok inv used (s\<lparr>k_ls := (k_ls s)\<lparr>ls_heap := h\<rparr>, k_utasks := (k_utasks s)(u \<mapsto> ?U)\<rparr>)"
    using objs_ok_utask [OF a(4) un(2), of ?U] a(5) by (simp add: zero_utask_def)
  then have ok3: "objs_ok inv used ?s3" by (rule objs_ok_cong) (simp_all add: kinds_def)
  have r3: "cost 16 \<le> bytes_left (ls_heap (k_ls ?s3))" "0 < allocs_left (ls_heap (k_ls ?s3))" using a(6) by (simp_all add: room_def)
  obtain l h4 where l: "list_allocator (sv_alloc sv) False (k_ls ?s3) = Some (l, (k_ls ?s3)\<lparr>ls_heap := h4, ls_lists := (ls_lists (k_ls ?s3))
      (l \<mapsto> \<lparr>l_rnd = False, l_head = 0, l_tail = 0, l_elements = 0\<rparr>)\<rparr>)" "l \<noteq> 0" "l \<notin> objs ?s3"
    "objs_ok inv used (?s3\<lparr>k_ls := (k_ls ?s3)\<lparr>ls_heap := h4, ls_lists := (ls_lists (k_ls ?s3))
      (l \<mapsto> \<lparr>l_rnd = False, l_head = 0, l_tail = 0, l_elements = 0\<rparr>)\<rparr>\<rparr>)"
    "bytes_left (ls_heap (k_ls ?s3)) - cost 16 \<le> bytes_left h4" "allocs_left (ls_heap (k_ls ?s3)) - 1 \<le> allocs_left h4"
    using k_new_list_ok [OF ok3 sv r3, of False] by (auto simp: Let_def)
  let ?ls = "(k_ls ?s3)\<lparr>ls_heap := h4, ls_lists := (ls_lists (k_ls ?s3)) (l \<mapsto> \<lparr>l_rnd = False, l_head = 0, l_tail = 0, l_elements = 0\<rparr>)\<rparr>"
  let ?s' = "?s3\<lparr>k_ls := ?ls, k_utasks := (k_utasks s)(u \<mapsto> ?U\<lparr>ut_sendbuf := l\<rparr>)\<rparr>"
  have pmU: "perms (s\<lparr>k_ls := (k_ls s)\<lparr>ls_heap := h\<rparr>, k_utasks := (k_utasks s)(u \<mapsto> zero_utask), k_next_pid := k_next_pid s + 1\<rparr>) = Some pm"
    using un(1) by (intro pm) auto
  have "new_process sv perms s = Some (u, ?s')"
    using a(1,2) l(1) pmU by (simp add: new_process_def new_utask_def k_new_list_def new_list_def load_def Let_def)
  moreover have "objs_ok inv used ?s'" using l(4)
    by (rule objs_ok_cong) (use queues_same [of "?U\<lparr>ut_sendbuf := l\<rparr>" ?U "k_utasks s"] in \<open>auto simp: kinds_def\<close>)
  moreover have "list_rep (k_ls ?s') k' r ys ds" if "list_rep (k_ls s) k' r ys ds" for k' r ys ds
  proof (rule list_rep_frame [OF that])
    have "k' \<in> objs ?s3" using that by (auto simp: list_rep_def opt_simps objs_def kinds_def)
    then show "ls_lists (k_ls ?s') k' = ls_lists (k_ls s) k'" using l(3) by auto
  qed simp
  moreover have "queued ((k_utasks s)(u \<mapsto> ?U\<lparr>ut_sendbuf := l\<rparr>)) = queued (k_utasks s)"
    by (rule queues_new) (use un(1) in \<open>auto simp: zero_utask_def\<close>)
  then have "objs s \<subseteq> objs ?s'" by (auto simp: objs_def kinds_def)
  moreover have "room b k ?s'" using a(6) l(5,6) unfolding room_def by (simp, linarith)
  moreover have "u \<in> objs ?s'" by (simp add: objs_def kinds_def)
  ultimately show ?thesis using a(2,3)
    by - (rule exI [of _ u], rule exI [of _ l], rule exI [of _ ?s'], simp add: extends_def rest_same_def)
qed

end

lemma kern_rep_enabled [simp]: "kern_rep I U (s\<lparr>k_enabled := b\<rparr>) xs ts ys us = kern_rep I U s xs ts ys us"
proof -
  have "objs_ok I U (s\<lparr>k_enabled := b\<rparr>) = objs_ok I U s" by (simp add: objs_ok_def objs_def kinds_def)
  moreover have "pid_of (s\<lparr>k_enabled := b\<rparr>) = pid_of s" by (simp add: pid_of_def fun_eq_iff)
  moreover have "proc_ok (s\<lparr>k_enabled := b\<rparr>) ts = proc_ok s ts" "iobm_ok (s\<lparr>k_enabled := b\<rparr>) = iobm_ok s"
    "parent_ok (s\<lparr>k_enabled := b\<rparr>) us = parent_ok s us"
    by (simp_all add: proc_ok_def iobm_ok_def parent_ok_def fun_eq_iff)
  ultimately show ?thesis by (simp add: kern_rep_def)
qed

context heap_allocator
begin

lemma attach_task_ok:
  fixes sv :: "('s, 'v) services" and s :: "('s, 'v) kern"
  assumes ok: "objs_ok inv used s" and sv: "sv_alloc sv = alloc" "mem_total sv" and rd: "round s xs ts"
    and len: "length xs < 2 ^ 31" and u: "k_utasks s u = Some V" "u \<noteq> 0"
    and room: "room (cost 36 + cost 12 + b) (Suc (Suc k)) s"
  shows "\<exists>t p d s'. attach_task sv u func stk s = Some (t, s') \<and> objs_ok inv used s' \<and> t \<noteq> 0 \<and> t \<notin> objs s \<and> p \<notin> objs s \<and>
    k_tasks s' = (k_tasks s)(t \<mapsto> (fresh_task func stk d)\<lparr>t_parent := u\<rparr>) \<and> k_utasks s' = (k_utasks s)(u \<mapsto> V\<lparr>ut_task := t\<rparr>) \<and>
    list_rep (k_ls s') (k_task_order s) True (xs @ [p]) (ts @ [t]) \<and> lists_keep (k_task_order s) xs s s' \<and>
    rest_same s s' \<and> k_next_pid s' = k_next_pid s \<and> room b k s'"
proof -
  have r: "cost 36 + cost 12 \<le> bytes_left (ls_heap (k_ls s))" "1 < allocs_left (ls_heap (k_ls s))"
    using room by (simp_all add: room_def)
  obtain t p d s1 where n: "task_newtask sv func stk s = Some (t, s1)" "objs_ok inv used s1" "t \<noteq> 0" "t \<notin> objs s" "p \<notin> objs s"
    "k_tasks s1 = (k_tasks s)(t \<mapsto> fresh_task func stk d)" "k_utasks s1 = k_utasks s"
    "list_rep (k_ls s1) (k_task_order s) True (xs @ [p]) (ts @ [t])" "lists_keep (k_task_order s) xs s s1"
    "rest_same s s1" "k_next_pid s1 = k_next_pid s"
    "bytes_left (ls_heap (k_ls s)) - (cost 36 + cost 12) \<le> bytes_left (ls_heap (k_ls s1))"
    "allocs_left (ls_heap (k_ls s)) - 2 \<le> allocs_left (ls_heap (k_ls s1))"
    using task_newtask_ok [OF ok sv rd len r, of func stk] by blast
  let ?s' = "s1\<lparr>k_utasks := (k_utasks s1)(u \<mapsto> V\<lparr>ut_task := t\<rparr>),
    k_tasks := (k_tasks s1)(t \<mapsto> (fresh_task func stk d)\<lparr>t_parent := u\<rparr>)\<rparr>"
  have "attach_task sv u func stk s = Some (t, ?s')"
    using n(1,3,6,7) u by (simp add: attach_task_def load_def)
  moreover have "objs_ok inv used ?s'" using n(2) by (rule objs_ok_cong) (use n(6,7) u in \<open>simp_all add: kinds_def queues_upd insert_dom dom_def, auto\<close>)
  moreover have "room b k ?s'" using n(12,13) room unfolding room_def by (simp, linarith)
  moreover have "lists_keep (k_task_order s) xs s ?s'" using n(9) by (simp add: lists_keep_def)
  moreover have "rest_same s ?s'" using n(10) by (simp add: rest_same_def)
  ultimately show ?thesis using n(3-8,11)
    by - (rule exI [of _ t], rule exI [of _ p], rule exI [of _ d], rule exI [of _ ?s'], simp)
qed

lemma publish_ok:
  fixes sv :: "('s, 'v) services" and s s4 :: "('s, 'v) kern"
  assumes rep: "kern_rep inv used s xs ts ys us" and ok: "objs_ok inv used s4" and sv: "sv_alloc sv = alloc"
    and rs: "rest_same s s4" "k_next_pid s4 = k_next_pid s + 1"
    and tk: "k_tasks s4 = (k_tasks s)(t \<mapsto> T)" "t \<notin> objs s" "t \<noteq> 0" "t_parent T = u" "t_iobm T = 0"
    and ut: "k_utasks s4 = (k_utasks s)(u \<mapsto> V)" "u \<notin> objs s" "u \<noteq> 0" "ut_task V = t" "ut_pid V = k_next_pid s"
    and ls: "list_rep (k_ls s4) (k_task_order s) True (xs @ [p]) (ts @ [t])"
      "list_rep (k_ls s4) (k_utsk_list s) False ys us" "p \<notin> objs s"
    and len: "length ys < 2 ^ 31" and room: "room (cost 12 + b) (Suc k) s4"
  shows "\<exists>r q l. k_push sv (k_utsk_list s4) u s4 = Some (r, s4\<lparr>k_ls := l\<rparr>) \<and> room b k (s4\<lparr>k_ls := l\<rparr>) \<and>
    kern_rep inv used (s4\<lparr>k_ls := l\<rparr>) (xs @ [p]) (ts @ [t]) (ys @ [q]) (us @ [u])"
proof -
  have ul: "k_utsk_list s4 = k_utsk_list s" using rs(1) by (simp add: rest_same_def)
  have l: "list_rep (k_ls s4) (k_utsk_list s4) False ys us" using ls(2) ul by simp
  have ne: "k_task_order s \<noteq> k_utsk_list s4" using list_rep_distinct_kinds [OF ls(1) l] .
  have r: "cost 12 \<le> bytes_left (ls_heap (k_ls s4))" "0 < allocs_left (ls_heap (k_ls s4))" using room by (simp_all add: room_def)
  obtain l q where q: "k_push sv (k_utsk_list s4) u s4 = Some (int (length ys), s4\<lparr>k_ls := l\<rparr>)"
    "list_rep l (k_utsk_list s4) False (ys @ [q]) (us @ [u])" "q \<notin> objs s4" "objs_ok inv used (s4\<lparr>k_ls := l\<rparr>)"
    "lists_keep (k_utsk_list s4) ys s4 (s4\<lparr>k_ls := l\<rparr>)"
    "bytes_left (ls_heap (k_ls s4)) - cost 12 \<le> bytes_left (ls_heap l)" "allocs_left (ls_heap (k_ls s4)) - 1 \<le> allocs_left (ls_heap l)"
    using k_push_ok [OF ok sv l len r, of u] by blast
  have "set ys \<subseteq> objs s" using rep list_rep_nodes [of "k_ls s" _ False ys us] by (auto simp: kern_rep_def objs_def kinds_def)
  then have p: "p \<notin> set ys" using ls(3) by auto
  have "set (xs @ [p]) \<subseteq> objs s4" using list_rep_nodes [OF ls(1)] by (auto simp: objs_def kinds_def)
  then have q': "q \<notin> set xs" "p \<noteq> q" using q(3) by auto
  have "set (xs @ [p]) \<inter> set ys = {}" using p rep by (auto simp: kern_rep_def)
  then have lo: "list_rep l (k_task_order s) True (xs @ [p]) (ts @ [t])"
    using q(5) ls(1) ne unfolding lists_keep_def by (metis kern.select_convs(1) kern.surjective kern.update_convs(1))
  have "kern_rep inv used (s4\<lparr>k_ls := l\<rparr>) (xs @ [p]) (ts @ [t]) (ys @ [q]) (us @ [u])"
    by (rule kern_rep_join [OF rep q(4), where t = t and T = T and u = u and V = V])
      (use rs tk ut ls lo q ul p q' in \<open>auto simp: rest_same_def\<close>)
  moreover have "room b k (s4\<lparr>k_ls := l\<rparr>)" using q(6,7) room unfolding room_def by (simp, linarith)
  ultimately show ?thesis using q(1) by blast
qed

end

definition perms_of :: "('h, 'v) kern \<Rightarrow> addr \<Rightarrow> u32" where
  "perms_of s u = (case k_utasks s u of Some U \<Rightarrow> ut_perms U | None \<Rightarrow> 0)"

text \<open>What a call that makes a process leaves behind.\<close>

definition made_process :: "('h, 'v) kern \<Rightarrow> ('h, 'v) kern \<Rightarrow> addr \<Rightarrow> u32 \<Rightarrow> addr \<Rightarrow> bool" where
  "made_process s s' u pm func \<longleftrightarrow> (\<exists>U T. k_utasks s' = (k_utasks s)(u \<mapsto> U) \<and> u \<notin> dom (k_utasks s) \<and> ut_perms U = pm \<and>
     ut_pid U = k_next_pid s \<and> ut_recvbuf U = mb_empty \<and>
     k_tasks s' = (k_tasks s)(ut_task U \<mapsto> T) \<and> ut_task U \<notin> dom (k_tasks s) \<and> t_ip T = func \<and> \<not> t_blocked T \<and> t_parent T = u)"

lemma made_processI:
  assumes "k_utasks s' = (k_utasks s)(u \<mapsto> U)" and "k_tasks s' = (k_tasks s)(t \<mapsto> T)" and "u \<notin> objs s" and "t \<notin> objs s"
    and "ut_task U = t" and "ut_perms U = pm" and "ut_pid U = k_next_pid s" and "ut_recvbuf U = mb_empty"
    and "t_ip T = func" and "\<not> t_blocked T" and "t_parent T = u"
  shows "made_process s s' u pm func"
  unfolding made_process_def
  by (rule exI [of _ U], rule exI [of _ T]) (use assms in \<open>auto simp: objs_def kinds_def\<close>)

context heap_allocator
begin

text \<open>The bytes and blocks that making a process takes: the process, its list, its task and two nodes.\<close>

definition proc_cost :: nat where
  "proc_cost = cost 604 + cost 16 + cost 36 + cost 12 + cost 12"

text \<open>Attaching a task to a process that is not listed yet.\<close>

lemma join_task_ok:
  fixes sv :: "('s, 'v) services" and s s3 :: "('s, 'v) kern"
  assumes rep: "kern_rep inv used s xs ts ys us" and sv: "sv_alloc sv = alloc" "mem_total sv"
    and ok: "objs_ok inv used s3" and e3: "extends s s3" and len: "length xs < 2 ^ 31"
    and u: "k_utasks s3 = (k_utasks s)(u \<mapsto> V)" "u \<noteq> 0" and room: "room (cost 36 + cost 12 + b) (Suc (Suc k)) s3"
  shows "\<exists>t p d s4. attach_task sv u func stk s3 = Some (t, s4) \<and> objs_ok inv used s4 \<and> t \<noteq> 0 \<and> t \<notin> objs s \<and> p \<notin> objs s \<and>
    k_tasks s4 = (k_tasks s)(t \<mapsto> (fresh_task func stk d)\<lparr>t_parent := u\<rparr>) \<and> k_utasks s4 = (k_utasks s)(u \<mapsto> V\<lparr>ut_task := t\<rparr>) \<and>
    list_rep (k_ls s4) (k_task_order s) True (xs @ [p]) (ts @ [t]) \<and> list_rep (k_ls s4) (k_utsk_list s) False ys us \<and>
    rest_same s s4 \<and> k_next_pid s4 = k_next_pid s3 \<and> room b k s4"
proof -
  have rd: "round s3 xs ts" using e3 kern_rep_round [OF rep] by (auto simp: extends_def round_def rest_same_def)
  have u3: "k_utasks s3 u = Some V" using u by simp
  obtain t p d s4 where s4: "attach_task sv u func stk s3 = Some (t, s4)" "objs_ok inv used s4" "t \<noteq> 0" "t \<notin> objs s3" "p \<notin> objs s3"
    "k_tasks s4 = (k_tasks s3)(t \<mapsto> (fresh_task func stk d)\<lparr>t_parent := u\<rparr>)" "k_utasks s4 = (k_utasks s3)(u \<mapsto> V\<lparr>ut_task := t\<rparr>)"
    "list_rep (k_ls s4) (k_task_order s3) True (xs @ [p]) (ts @ [t])" "lists_keep (k_task_order s3) xs s3 s4"
    "rest_same s3 s4" "k_next_pid s4 = k_next_pid s3" "room b k s4"
    using attach_task_ok [OF ok sv rd len u3 u(2) room, of func stk] by blast
  have rs: "rest_same s s3" and to: "k_task_order s3 = k_task_order s" using e3 by (simp_all add: extends_def rest_same_def)
  have "list_rep (k_ls s3) (k_utsk_list s) False ys us" using e3 rep by (simp add: extends_def kern_rep_def)
  moreover from this have "k_utsk_list s \<noteq> k_task_order s3" using list_rep_distinct_kinds rd unfolding round_def by metis
  moreover have "set ys \<inter> set xs = {}" using rep by (auto simp: kern_rep_def)
  ultimately have "list_rep (k_ls s4) (k_utsk_list s) False ys us" using s4(9) unfolding lists_keep_def by blast
  moreover have "k_utasks s4 = (k_utasks s)(u \<mapsto> V\<lparr>ut_task := t\<rparr>)" "k_tasks s3 = k_tasks s" "objs s \<subseteq> objs s3"
    using s4(7) u(1) e3 by (simp_all add: extends_def)
  ultimately show ?thesis using s4 to rest_same_trans [OF rs s4(10)]
    by - (rule exI [of _ t], rule exI [of _ p], rule exI [of _ d], rule exI [of _ s4], auto)
qed

lemma user_spawn_ok:
  fixes sv :: "('s, 'v) services" and s :: "('s, 'v) kern"
  assumes rep: "kern_rep inv used s xs ts ys us" and sv: "sv_alloc sv = alloc" "mem_total sv"
    and perm: "spawn_refused perms s = Some False" and n: "n \<noteq> 0"
    and len: "length xs < 2 ^ 31" "length ys < 2 ^ 31"
    and room: "room (cost 0x2000 + cost (unat n) + proc_cost + b) (7 + k) s"
  shows "\<exists>u t p q s'. user_spawn sv half file d n perms s = Some (u, s') \<and> room b k s' \<and> made_process s s' u perms half \<and>
    kern_rep inv used s' (xs @ [p]) (ts @ [t]) (ys @ [q]) (us @ [u])"
proof -
  let ?s1 = "tasking_disable s"
  have ok: "objs_ok inv used s" using rep by (simp add: kern_rep_def)
  then have ok1: "objs_ok inv used ?s1" by (rule objs_ok_cong) (simp_all add: kinds_def tasking_disable_def)
  have e1: "extends s ?s1" by (rule extends_heap) (simp_all add: rest_same_def tasking_disable_def objs_def kinds_def)
  have r1: "room (cost 0x2000 + (cost (unat n) + (proc_cost + b))) (Suc (Suc (5 + k))) ?s1"
    using room by (simp add: room_def tasking_disable_def)
  obtain top s2 where s2: "spawn_stack sv file d n ?s1 = Some (top, s2)" "objs_ok inv used s2" "extends ?s1 s2" "room (proc_cost + b) (5 + k) s2"
    "k_utasks s2 = k_utasks ?s1" "k_next_pid s2 = k_next_pid ?s1" using spawn_stack_ok [OF ok1 sv n r1, of "file" d] by blast
  have r2: "room (cost 604 + (cost 16 + (cost 36 + cost 12 + (cost 12 + b)))) (Suc (Suc (3 + k))) s2"
    using s2(4) by (simp add: room_def proc_cost_def)
  have pm: "Some perms = Some perms" by simp
  obtain u l s3 where s3: "new_process sv (\<lambda>s. Some perms) s2 = Some (u, s3)" "objs_ok inv used s3" "extends s2 s3"
    "room (cost 36 + cost 12 + (cost 12 + b)) (3 + k) s3" "u \<noteq> 0" "u \<notin> objs s2" "k_next_pid s3 = k_next_pid s2 + 1"
    "k_utasks s3 = (k_utasks s2)(u \<mapsto> zero_utask\<lparr>ut_pid := k_next_pid s2, ut_perms := perms, ut_sendbuf := l\<rparr>)"
    using new_process_ok [OF s2(2) sv(1) pm r2] by blast
  have e3: "extends s s3" using extends_trans [OF e1 extends_trans [OF s2(3) s3(3)]] .
  let ?V = "zero_utask\<lparr>ut_pid := k_next_pid s, ut_perms := perms, ut_sendbuf := l\<rparr>"
  have u3: "k_utasks s3 = (k_utasks s)(u \<mapsto> ?V)" "k_next_pid s3 = k_next_pid s + 1" "u \<notin> objs s"
    using s3(6,7,8) s2(5,6) e1 s2(3) by (auto simp: tasking_disable_def extends_def)
  have r3: "room (cost 36 + cost 12 + (cost 12 + b)) (Suc (Suc (Suc k))) s3" using s3(4) by (simp add: numeral_3_eq_3)
  obtain t p d' s4 where s4: "attach_task sv u half top s3 = Some (t, s4)" "objs_ok inv used s4" "t \<noteq> 0" "t \<notin> objs s" "p \<notin> objs s"
    "k_tasks s4 = (k_tasks s)(t \<mapsto> (fresh_task half top d')\<lparr>t_parent := u\<rparr>)" "k_utasks s4 = (k_utasks s)(u \<mapsto> ?V\<lparr>ut_task := t\<rparr>)"
    "list_rep (k_ls s4) (k_task_order s) True (xs @ [p]) (ts @ [t])" "list_rep (k_ls s4) (k_utsk_list s) False ys us"
    "rest_same s s4" "k_next_pid s4 = k_next_pid s3" "room (cost 12 + b) (Suc k) s4"
    using join_task_ok [OF rep sv s3(2) e3 len(1) u3(1) s3(5) r3, of half top] by blast
  obtain r q l' where q: "k_push sv (k_utsk_list s4) u s4 = Some (r, s4\<lparr>k_ls := l'\<rparr>)" "room b k (s4\<lparr>k_ls := l'\<rparr>)"
    "kern_rep inv used (s4\<lparr>k_ls := l'\<rparr>) (xs @ [p]) (ts @ [t]) (ys @ [q]) (us @ [u])"
    using publish_ok [OF rep s4(2) sv(1) s4(10) _ s4(6,4,3) _ _ s4(7) u3(3) s3(5) _ _ s4(8,9,5) len(2) s4(12)] s4(11) u3(2)
    by (auto simp: fresh_task_def zero_task_def)
  let ?s' = "s4\<lparr>k_ls := l', k_enabled := True\<rparr>"
  have "user_spawn sv half file d n perms s = Some (u, ?s')"
    using perm s2(1) s3(1) s4(1) q(1) by (simp add: user_spawn_def tasking_enable_def)
  moreover have "made_process s ?s' u perms half"
    by (rule made_processI [where U = "?V\<lparr>ut_task := t\<rparr>" and T = "(fresh_task half top d')\<lparr>t_parent := u\<rparr>" and t = t])
      (use s4(4,6,7) u3(3) in \<open>simp_all add: fresh_task_def zero_task_def zero_utask_def\<close>)
  ultimately show ?thesis using q(2,3)
    by - (rule exI [of _ u], rule exI [of _ t], rule exI [of _ p], rule exI [of _ q], rule exI [of _ ?s'], simp add: room_def)
qed

end

context heap_allocator
begin

lemma user_fork_ok:
  fixes sv :: "('s, 'v) services" and s :: "('s, 'v) kern"
  assumes rep: "kern_rep inv used s xs ts ys us" and sv: "sv_alloc sv = alloc" "mem_total sv"
    and par: "cur_utask s = Some par" "load (k_utasks s) par = Some P"
    and len: "length xs < 2 ^ 31" "length ys < 2 ^ 31"
    and room: "room (cost 0x2000 + proc_cost + b) (6 + k) s"
  shows "\<exists>u t p q s' U. user_fork sv usr_ret s = Some (k_next_pid s, s') \<and> room b k s' \<and>
    made_process s s' u (ut_perms P) usr_ret \<and> k_utasks s' u = Some U \<and> ut_state U = (ut_state P)\<lparr>r_num := 0\<rparr> \<and>
    kern_rep inv used s' (xs @ [p]) (ts @ [t]) (ys @ [q]) (us @ [u])"
proof -
  let ?s1 = "tasking_disable s" and ?pf = "\<lambda>s. do { pu \<leftarrow> load (k_utasks s) par; Some (ut_perms pu) }"
  have ok: "objs_ok inv used s" using rep by (simp add: kern_rep_def)
  then have ok1: "objs_ok inv used ?s1" by (rule objs_ok_cong) (simp_all add: kinds_def tasking_disable_def)
  have e1: "extends s ?s1" by (rule extends_heap) (simp_all add: rest_same_def tasking_disable_def objs_def kinds_def)
  have par1: "par \<noteq> 0" "k_utasks s par = Some P" using par(2) by (simp_all add: opt_simps)
  have r1: "room (cost 604 + (cost 16 + (cost 0x2000 + (cost 36 + cost 12 + (cost 12 + b))))) (Suc (Suc (4 + k))) ?s1"
    using room by (simp add: room_def proc_cost_def tasking_disable_def)
  have pm: "?pf s2 = Some (ut_perms P)" if "\<forall>x \<in> dom (k_utasks ?s1). k_utasks s2 x = k_utasks ?s1 x" for s2 :: "('s, 'v) kern"
  proof -
    have "k_utasks s2 par = Some P" using that par1 by (simp add: tasking_disable_def domI)
    then show ?thesis using par1(1) by (simp add: load_def)
  qed
  obtain u l s2 where s2: "new_process sv ?pf ?s1 = Some (u, s2)" "objs_ok inv used s2" "extends ?s1 s2"
    "room (cost 0x2000 + (cost 36 + cost 12 + (cost 12 + b))) (4 + k) s2" "u \<noteq> 0" "u \<notin> objs ?s1" "k_next_pid s2 = k_next_pid ?s1 + 1"
    "k_utasks s2 = (k_utasks ?s1)(u \<mapsto> zero_utask\<lparr>ut_pid := k_next_pid ?s1, ut_perms := ut_perms P, ut_sendbuf := l\<rparr>)"
    using new_process_ok [where perms = ?pf and pm = "ut_perms P", OF ok1 sv(1) pm r1] by blast
  have r2: "room (cost (unat (0x2000 :: u32)) + (cost 36 + cost 12 + (cost 12 + b))) (Suc (3 + k)) s2" using s2(4) by simp
  obtain ks h where ks: "k_alloc sv 0x2000 s2 = Some (ks, s2\<lparr>k_ls := (k_ls s2)\<lparr>ls_heap := h\<rparr>\<rparr>)"
    "objs_ok inv used (s2\<lparr>k_ls := (k_ls s2)\<lparr>ls_heap := h\<rparr>\<rparr>)"
    "room (cost 36 + cost 12 + (cost 12 + b)) (3 + k) (s2\<lparr>k_ls := (k_ls s2)\<lparr>ls_heap := h\<rparr>\<rparr>)"
    using k_alloc_room [OF s2(2) sv(1) _ r2] by auto
  let ?s3 = "s2\<lparr>k_ls := (k_ls s2)\<lparr>ls_heap := h\<rparr>\<rparr>"
  have e23: "extends s2 ?s3" by (rule extends_heap) (simp_all add: rest_same_def objs_def kinds_def)
  have e3: "extends s ?s3" using extends_trans [OF e1 extends_trans [OF s2(3) e23]] .
  let ?V = "zero_utask\<lparr>ut_pid := k_next_pid s, ut_perms := ut_perms P, ut_sendbuf := l\<rparr>"
  have u3: "k_utasks ?s3 = (k_utasks s)(u \<mapsto> ?V)" "k_next_pid ?s3 = k_next_pid s + 1" "u \<notin> objs s"
    using s2(6,7,8) by (simp_all add: tasking_disable_def objs_def kinds_def)
  have r3: "room (cost 36 + cost 12 + (cost 12 + b)) (Suc (Suc (Suc k))) ?s3" using ks(3) by (simp add: numeral_3_eq_3)
  obtain t p d' s4 where s4: "attach_task sv u usr_ret (ks + 0x2000) ?s3 = Some (t, s4)" "objs_ok inv used s4" "t \<noteq> 0" "t \<notin> objs s" "p \<notin> objs s"
    "k_tasks s4 = (k_tasks s)(t \<mapsto> (fresh_task usr_ret (ks + 0x2000) d')\<lparr>t_parent := u\<rparr>)" "k_utasks s4 = (k_utasks s)(u \<mapsto> ?V\<lparr>ut_task := t\<rparr>)"
    "list_rep (k_ls s4) (k_task_order s) True (xs @ [p]) (ts @ [t])" "list_rep (k_ls s4) (k_utsk_list s) False ys us"
    "rest_same s s4" "k_next_pid s4 = k_next_pid ?s3" "room (cost 12 + b) (Suc k) s4"
    using join_task_ok [OF rep sv ks(2) e3 len(1) u3(1) s2(5) r3, of usr_ret "ks + 0x2000"] by blast
  have pn: "par \<noteq> u" using par1 u3(3) by (auto simp: objs_def kinds_def)
  let ?U = "?V\<lparr>ut_task := t, ut_state := (ut_state P)\<lparr>r_num := 0\<rparr>\<rparr>"
  let ?T = "(fresh_task usr_ret (ks + 0x2000) d')\<lparr>t_parent := u, t_ksp := ks + 0x2000 - 64\<rparr>"
  let ?s6 = "s4\<lparr>k_utasks := (k_utasks s)(u \<mapsto> ?U), k_tasks := (k_tasks s)(t \<mapsto> ?T)\<rparr>"
  obtain v where v: "k_store sv (ks + 0x2000 - 64) (state_bytes ((ut_state P)\<lparr>r_num := 0\<rparr>)) ?s6 = Some (?s6\<lparr>k_vm := v\<rparr>)"
    using k_store_total [OF sv(2)] by blast
  let ?s7 = "?s6\<lparr>k_vm := v\<rparr>"
  have ok7: "objs_ok inv used ?s7" using s4(2)
    by (rule objs_ok_cong) (use queues_same [of ?U "?V\<lparr>ut_task := t\<rparr>" "k_utasks s"] in \<open>simp_all add: kinds_def s4(6,7)\<close>)
  have rs7: "rest_same s ?s7" using s4(10) by (simp add: rest_same_def)
  obtain r q l' where q: "k_push sv (k_utsk_list ?s7) u ?s7 = Some (r, ?s7\<lparr>k_ls := l'\<rparr>)" "room b k (?s7\<lparr>k_ls := l'\<rparr>)"
    "kern_rep inv used (?s7\<lparr>k_ls := l'\<rparr>) (xs @ [p]) (ts @ [t]) (ys @ [q]) (us @ [u])"
    using publish_ok [OF rep ok7 sv(1) rs7 _ _ s4(4,3) _ _ _ u3(3) s2(5) _ _ _ _ s4(5) len(2), of ?T ?U b k] s4(8,9,11,12) u3(2)
    by (auto simp: fresh_task_def zero_task_def room_def)
  let ?s' = "?s7\<lparr>k_ls := l', k_enabled := True\<rparr>"
  have "user_fork sv usr_ret s = Some (k_next_pid s, ?s')"
    using par(1) par1 s2(1) ks(1) s4(1,3,6,7) s2(5) pn v q(1)
    by (simp add: user_fork_def tasking_enable_def load_def fresh_task_def Let_def)
  moreover have "made_process s ?s' u (ut_perms P) usr_ret"
    by (rule made_processI [where U = ?U and T = ?T and t = t])
      (use s4(4) u3(3) in \<open>simp_all add: fresh_task_def zero_task_def zero_utask_def\<close>)
  ultimately show ?thesis using q(2,3)
    by - (rule exI [of _ u], rule exI [of _ t], rule exI [of _ p], rule exI [of _ q], rule exI [of _ ?s'], rule exI [of _ ?U], simp add: room_def)
qed

end

subsection \<open>Booting\<close>

text \<open>The two modules are loaded in this order (\<^verbatim>\<open>module_depends\<close>).\<close>

definition kernel_boot :: "('h, 'v) services \<Rightarrow> (('h, 'v) kern \<Rightarrow> ('h, 'v) kern option) \<Rightarrow>
    (('h, 'v) kern \<Rightarrow> ('h, 'v) kern option) \<Rightarrow> addr \<Rightarrow> ('h, 'v) kern \<Rightarrow> ('h, 'v) kern option" where
  "kernel_boot sv add_clock add_hook stack_top s = do {
     s1 \<leftarrow> tasking_init sv add_clock stack_top s;
     user_init sv add_hook s1 }"

definition fresh_kern :: "'h \<Rightarrow> ('h, 'v) kern \<Rightarrow> bool" where
  "fresh_kern h s \<longleftrightarrow> k_ls s = no_lists h \<and> k_tasks s = Map.empty \<and> k_utasks s = Map.empty \<and> k_iobms s = Map.empty \<and>
     k_next_pid s = 0"

context heap_allocator
begin

text \<open>What the boot code needs from \<^verbatim>\<open>timer_add_clock\<close> and \<^verbatim>\<open>panic_add_hook\<close>: they may allocate.\<close>

definition hook_ok :: "nat \<Rightarrow> nat \<Rightarrow> (('s, 'v) kern \<Rightarrow> ('s, 'v) kern option) \<Rightarrow> bool" where
  "hook_ok b n f \<longleftrightarrow> (\<forall>s c k. objs_ok inv used s \<longrightarrow> room (b + c) (n + k) s \<longrightarrow> (\<exists>s'. f s = Some s' \<and> extends s s' \<and>
     objs_ok inv used s' \<and> room c k s' \<and> k_utasks s' = k_utasks s \<and> k_next_pid s' = k_next_pid s))"

lemma tasking_init_ok:
  fixes sv :: "('s, 'v) services" and s :: "('s, 'v) kern"
  assumes sv: "sv_alloc sv = alloc" and fr: "fresh_kern h s" "inv h" and ac: "hook_ok cb cn add_clock"
    and room: "room (cost 16 + cost 36 + cost 12 + cb + b) (3 + cn + k) s"
  shows "\<exists>s' p t. tasking_init sv add_clock stack_top s = Some s' \<and> objs_ok inv used s' \<and> room b k s' \<and>
    list_rep (k_ls s') (k_task_order s') True [p] [t] \<and> k_current s' = p \<and> iobm_ok s' t \<and>
    (\<forall>T. k_tasks s' t = Some T \<longrightarrow> t_parent T = 0) \<and> dom (k_tasks s') = {t} \<and> k_utasks s' = Map.empty \<and> k_next_pid s' = 0"
proof -
  have ok: "objs_ok inv used s" using fr by (simp add: fresh_kern_def objs_ok_def objs_def kinds_def no_lists_def)
  have r1: "cost 16 \<le> bytes_left (ls_heap (k_ls s))" "0 < allocs_left (ls_heap (k_ls s))" using room by (simp_all add: room_def)
  obtain l h1 where l: "list_allocator (sv_alloc sv) True (k_ls s) = Some (l, (k_ls s)\<lparr>ls_heap := h1, ls_lists := (ls_lists (k_ls s))
      (l \<mapsto> \<lparr>l_rnd = True, l_head = 0, l_tail = 0, l_elements = 0\<rparr>)\<rparr>)" "l \<noteq> 0"
    "objs_ok inv used (s\<lparr>k_ls := (k_ls s)\<lparr>ls_heap := h1, ls_lists := (ls_lists (k_ls s))
      (l \<mapsto> \<lparr>l_rnd = True, l_head = 0, l_tail = 0, l_elements = 0\<rparr>)\<rparr>\<rparr>)"
    "bytes_left (ls_heap (k_ls s)) - cost 16 \<le> bytes_left h1" "allocs_left (ls_heap (k_ls s)) - 1 \<le> allocs_left h1"
    using k_new_list_ok [OF ok sv r1, of True] by (auto simp: Let_def)
  let ?ls1 = "(k_ls s)\<lparr>ls_heap := h1, ls_lists := (ls_lists (k_ls s)) (l \<mapsto> \<lparr>l_rnd = True, l_head = 0, l_tail = 0, l_elements = 0\<rparr>)\<rparr>"
  let ?s1 = "s\<lparr>k_ls := ?ls1, k_task_order := l\<rparr>"
  have ok1: "objs_ok inv used ?s1" using l(3) by (rule objs_ok_cong) (simp_all add: kinds_def)
  have r2: "room (cost (unat (36 :: u32)) + (cost 12 + cb + b)) (Suc (1 + cn + k)) ?s1"
    using l(4,5) room unfolding room_def by (simp, linarith)
  obtain t h2 where t: "k_alloc sv 36 ?s1 = Some (t, ?s1\<lparr>k_ls := ?ls1\<lparr>ls_heap := h2\<rparr>\<rparr>)" "t \<noteq> 0" "t \<notin> objs ?s1"
    "objs_ok inv used (?s1\<lparr>k_ls := ?ls1\<lparr>ls_heap := h2\<rparr>\<rparr>)" "\<exists>m. (unat t, m) \<in> used h2"
    "room (cost 12 + cb + b) (1 + cn + k) (?s1\<lparr>k_ls := ?ls1\<lparr>ls_heap := h2\<rparr>\<rparr>)"
    using k_alloc_room [OF ok1 sv _ r2] by auto
  let ?T = "zero_task\<lparr>t_tslice := TIME_SLICE_MAX, t_ksp := stack_top, t_dir := sv_curdir sv (k_vm s)\<rparr>"
  let ?s3 = "?s1\<lparr>k_ls := ?ls1\<lparr>ls_heap := h2\<rparr>, k_tasks := [t \<mapsto> ?T]\<rparr>"
  have t': "t \<notin> objs (?s1\<lparr>k_ls := ?ls1\<lparr>ls_heap := h2\<rparr>\<rparr>)" using t(3) by (simp add: objs_def kinds_def)
  have ok3: "objs_ok inv used ?s3" using objs_ok_task [OF t(4) t', of ?T] t(5) fr by (simp add: fresh_kern_def)
  have rep3: "list_rep (k_ls ?s3) l True [] []" using l(2) by (simp add: list_rep_def load_def)
  have r3: "cost 12 \<le> bytes_left (ls_heap (k_ls ?s3))" "0 < allocs_left (ls_heap (k_ls ?s3))" using t(6) by (simp_all add: room_def)
  have len: "length ([] :: addr list) < 2 ^ 31" by simp
  obtain ls4 p where p: "k_push sv l t ?s3 = Some (0, ?s3\<lparr>k_ls := ls4\<rparr>)" "list_rep ls4 l True [p] [t]"
    "objs_ok inv used (?s3\<lparr>k_ls := ls4\<rparr>)" "bytes_left (ls_heap (k_ls ?s3)) - cost 12 \<le> bytes_left (ls_heap ls4)"
    "allocs_left (ls_heap (k_ls ?s3)) - 1 \<le> allocs_left (ls_heap ls4)"
    using k_push_ok [OF ok3 sv rep3 len r3, of t] by auto
  obtain L where L: "load (ls_lists ls4) l = Some L" "l_head L = p" using p(2) by (auto simp: list_rep_def)
  let ?s4 = "?s3\<lparr>k_ls := ls4, k_current := p\<rparr>"
  have ok4: "objs_ok inv used ?s4" using p(3) by (rule objs_ok_cong) (simp_all add: kinds_def)
  have r4: "room (cb + b) (cn + k) ?s4" using p(4,5) t(6) unfolding room_def by (simp, linarith)
  obtain s5 where s5: "add_clock ?s4 = Some s5" "extends ?s4 s5" "objs_ok inv used s5" "room b k s5"
    "k_utasks s5 = k_utasks ?s4" "k_next_pid s5 = k_next_pid ?s4" using ac ok4 r4 unfolding hook_ok_def by blast
  have "tasking_init sv add_clock stack_top s = Some (tasking_disable s5)"
    using l(1,2) t(1,2) p(1) L s5(1) fr
    by (simp add: tasking_init_def new_round_list_def new_task_def load_def Let_def fresh_kern_def)
  moreover have "objs_ok inv used (tasking_disable s5)" using s5(3) by (rule objs_ok_cong) (simp_all add: kinds_def tasking_disable_def)
  moreover have "k_tasks s5 = [t \<mapsto> ?T]" "list_rep (k_ls s5) l True [p] [t]" "k_task_order s5 = l" "k_current s5 = p"
    using s5(2) p(2) by (simp_all add: extends_def rest_same_def)
  ultimately show ?thesis using s5 fr t(2)
    by - (rule exI [of _ "tasking_disable s5"], rule exI [of _ p], rule exI [of _ t],
      simp add: tasking_disable_def room_def fresh_kern_def iobm_ok_def zero_task_def)
qed

lemma kernel_boot_ok:
  fixes sv :: "('s, 'v) services" and s :: "('s, 'v) kern"
  assumes sv: "sv_alloc sv = alloc" and fr: "fresh_kern h s" "inv h" and ac: "hook_ok cb cn add_clock" and ah: "hook_ok hb hn add_hook"
    and room: "room (cost 16 + cost 36 + cost 12 + cb + (cost 16 + (hb + b))) (3 + cn + Suc (hn + k)) s"
  shows "\<exists>s' p t. kernel_boot sv add_clock add_hook stack_top s = Some s' \<and> room b k s' \<and> kern_rep inv used s' [p] [t] [] []"
proof -
  obtain s1 p t where s1: "tasking_init sv add_clock stack_top s = Some s1" "objs_ok inv used s1" "room (cost 16 + (hb + b)) (Suc (hn + k)) s1"
    "list_rep (k_ls s1) (k_task_order s1) True [p] [t]" "k_current s1 = p" "iobm_ok s1 t"
    "\<forall>T. k_tasks s1 t = Some T \<longrightarrow> t_parent T = 0" "dom (k_tasks s1) = {t}" "k_utasks s1 = Map.empty" "k_next_pid s1 = 0"
    using tasking_init_ok [OF sv fr ac room] by blast
  have r: "cost 16 \<le> bytes_left (ls_heap (k_ls s1))" "0 < allocs_left (ls_heap (k_ls s1))" using s1(3) by (simp_all add: room_def)
  obtain l h1 where l: "list_allocator (sv_alloc sv) False (k_ls s1) = Some (l, (k_ls s1)\<lparr>ls_heap := h1, ls_lists := (ls_lists (k_ls s1))
      (l \<mapsto> \<lparr>l_rnd = False, l_head = 0, l_tail = 0, l_elements = 0\<rparr>)\<rparr>)" "l \<noteq> 0" "l \<notin> objs s1"
    "objs_ok inv used (s1\<lparr>k_ls := (k_ls s1)\<lparr>ls_heap := h1, ls_lists := (ls_lists (k_ls s1))
      (l \<mapsto> \<lparr>l_rnd = False, l_head = 0, l_tail = 0, l_elements = 0\<rparr>)\<rparr>\<rparr>)"
    "bytes_left (ls_heap (k_ls s1)) - cost 16 \<le> bytes_left h1" "allocs_left (ls_heap (k_ls s1)) - 1 \<le> allocs_left h1"
    using k_new_list_ok [OF s1(2) sv r, of False] by (auto simp: Let_def)
  let ?ls2 = "(k_ls s1)\<lparr>ls_heap := h1, ls_lists := (ls_lists (k_ls s1)) (l \<mapsto> \<lparr>l_rnd = False, l_head = 0, l_tail = 0, l_elements = 0\<rparr>)\<rparr>"
  let ?s2 = "s1\<lparr>k_ls := ?ls2, k_utsk_list := l\<rparr>"
  have ok2: "objs_ok inv used ?s2" using l(4) by (rule objs_ok_cong) (simp_all add: kinds_def)
  have r2: "room (hb + b) (hn + k) ?s2" using l(5,6) s1(3) unfolding room_def by (simp, linarith)
  obtain s' where s': "add_hook ?s2 = Some s'" "extends ?s2 s'" "objs_ok inv used s'" "room b k s'"
    "k_utasks s' = k_utasks ?s2" "k_next_pid s' = k_next_pid ?s2" using ah ok2 r2 unfolding hook_ok_def by blast
  have lo: "k_task_order s1 \<noteq> l" using s1(4) l(3) by (auto simp: list_rep_def opt_simps objs_def kinds_def)
  have "list_rep ?ls2 (k_task_order s1) True [p] [t]" by (rule list_rep_frame [OF s1(4)]) (use lo in simp_all)
  moreover have "list_rep ?ls2 l False [] []" using l(2) by (simp add: list_rep_def load_def)
  ultimately have "list_rep (k_ls s') (k_task_order s') True [p] [t]" "list_rep (k_ls s') (k_utsk_list s') False [] []"
    using s'(2) by (simp_all add: extends_def rest_same_def)
  moreover have "kernel_boot sv add_clock add_hook stack_top s = Some s'"
    using s1(1) l(1) s'(1) by (simp add: kernel_boot_def user_init_def k_new_list_def new_list_def)
  moreover have "iobm_ok s' t" "parent_ok s' [] t" "k_current s' = p" "k_next_pid s' = 0" "dom (k_tasks s') = {t}" "dom (k_utasks s') = {}"
    using s1(5-10) s'(2,5,6) by (auto simp: extends_def rest_same_def iobm_ok_def parent_ok_def)
  ultimately show ?thesis using s'(3,4) by - (rule exI [of _ s'], rule exI [of _ p], rule exI [of _ t], simp add: kern_rep_def)
qed

end

subsection \<open>Steps that add no process\<close>

lemma kern_rep_update:
  assumes rep: "kern_rep I U s xs ts ys us" and ok: "objs_ok I U s'"
    and ls: "list_rep (k_ls s') (k_task_order s') True xs ts" "list_rep (k_ls s') (k_utsk_list s') False ys us"
    and cur: "k_current s' \<in> set xs" "k_next_pid s' = k_next_pid s"
    and doms: "dom (k_tasks s') = dom (k_tasks s)" "dom (k_utasks s') = dom (k_utasks s)"
    and tk: "\<And>t T. k_tasks s t = Some T \<Longrightarrow> \<exists>T'. k_tasks s' t = Some T' \<and> t_parent T' = t_parent T \<and> (iobm_ok s t \<longrightarrow> iobm_ok s' t)"
    and ut: "\<And>u V. k_utasks s u = Some V \<Longrightarrow> \<exists>V'. k_utasks s' u = Some V' \<and> ut_task V' = ut_task V \<and> ut_pid V' = ut_pid V"
  shows "kern_rep I U s' xs ts ys us"
proof -
  have "proc_ok s' ts u" if pu: "proc_ok s ts u" for u
  proof -
    obtain V T where V: "k_utasks s u = Some V" "k_tasks s (ut_task V) = Some T" "ut_task V \<in> set ts" "t_parent T = u" "u \<noteq> 0"
      using pu by (auto simp: proc_ok_def)
    obtain V' where V': "k_utasks s' u = Some V'" "ut_task V' = ut_task V" using ut [OF V(1)] by auto
    obtain T' where "k_tasks s' (ut_task V) = Some T'" "t_parent T' = t_parent T" using tk [OF V(2)] by auto
    then show ?thesis using V V' by (simp add: proc_ok_def)
  qed
  moreover have "iobm_ok s' t \<and> parent_ok s' us t" if h: "iobm_ok s t" "parent_ok s us t" for t
  proof -
    obtain T where T: "k_tasks s t = Some T" using h(1) by (auto simp: iobm_ok_def)
    show ?thesis using tk [OF T] h T by (auto simp: parent_ok_def)
  qed
  moreover have "map (pid_of s') us = map (pid_of s) us"
  proof (rule map_cong [OF refl])
    fix u assume "u \<in> set us"
    then obtain V where V: "k_utasks s u = Some V" using rep by (auto simp: kern_rep_def proc_ok_def)
    then show "pid_of s' u = pid_of s u" using ut [OF V] by (auto simp: pid_of_def)
  qed
  ultimately show ?thesis using rep ok ls cur doms unfolding kern_rep_def by (metis (no_types, lifting))
qed

lemma objs_ok_iobm:
  "objs_ok I U s \<Longrightarrow> p \<notin> objs s \<Longrightarrow> \<exists>m. (unat p, m) \<in> U (ls_heap (k_ls s)) \<Longrightarrow>
    objs_ok I U (s\<lparr>k_iobms := (k_iobms s)(p \<mapsto> t)\<rparr>)"
  by (auto simp: objs_ok_def objs_def kinds_def)

text \<open>Saving registers and changing the blocked flag.\<close>

lemma kern_rep_task_upd:
  assumes rep: "kern_rep I U s xs ts ys us" and t: "k_tasks s t = Some T" "t_parent T' = t_parent T" "t_iobm T' = t_iobm T"
  shows "kern_rep I U (s\<lparr>k_tasks := (k_tasks s)(t \<mapsto> T')\<rparr>) xs ts ys us"
proof (rule kern_rep_update [OF rep])
  have "objs_ok I U s" using rep by (simp add: kern_rep_def)
  then show "objs_ok I U (s\<lparr>k_tasks := (k_tasks s)(t \<mapsto> T')\<rparr>)"
    by (rule objs_ok_cong) (use t(1) in \<open>auto simp: kinds_def\<close>)
qed (use rep t in \<open>auto simp: kern_rep_def iobm_ok_def\<close>)

lemma kern_rep_saved: "kern_rep I U s xs ts ys us \<Longrightarrow> k_tasks s t = Some T \<Longrightarrow> kern_rep I U (saved rg t s) xs ts ys us"
  unfolding saved_def using kern_rep_task_upd [of I U s xs ts ys us t T] by simp

lemma kern_rep_set_blocked:
  assumes "kern_rep I U s xs ts ys us" and "length us \<le> 2 ^ 32"
  shows "\<exists>s'. set_blocked b pid s = Some s' \<and> kern_rep I U s' xs ts ys us \<and> k_ls s' = k_ls s"
proof (cases "unat pid < length us")
  case False
  then show ?thesis using kern_rep_find [OF assms, of pid] assms(1) by (simp add: set_blocked_def)
next
  case True
  let ?u = "us ! unat pid"
  have "?u \<in> set us" using True by simp
  then obtain V T where V: "k_utasks s ?u = Some V" "k_tasks s (ut_task V) = Some T" "?u \<noteq> 0" and nz: "ut_task V \<noteq> 0"
    using kern_rep_proc [OF assms(1)] by blast
  have "set_blocked b pid s = Some (s\<lparr>k_tasks := (k_tasks s)(ut_task V \<mapsto> T\<lparr>t_blocked := b\<rparr>)\<rparr>)"
    using kern_rep_find [OF assms, of pid] True V nz by (simp add: set_blocked_def load_def)
  moreover have "kern_rep I U (s\<lparr>k_tasks := (k_tasks s)(ut_task V \<mapsto> T\<lparr>t_blocked := b\<rparr>)\<rparr>) xs ts ys us"
    by (rule kern_rep_task_upd [OF assms(1) V(2)]) simp_all
  ultimately show ?thesis by simp
qed

definition switch_total :: "('h, 'v) services \<Rightarrow> bool" where
  "switch_total sv \<longleftrightarrow> (\<forall>d v. \<exists>v'. sv_swpdir sv d v = Some v')"

context heap_allocator
begin

lemma enter_task_ok:
  fixes sv :: "('s, 'v) services" and s :: "('s, 'v) kern"
  assumes rep: "kern_rep inv used s xs ts ys us" and sv: "sv_alloc sv = alloc" "switch_total sv" and t: "t \<in> set ts"
    and room: "room (cost 8192 + b) (Suc k) s"
  shows "\<exists>j s'. enter_task sv t s = Some (j, s') \<and> kern_rep inv used s' xs ts ys us \<and> room b k s' \<and> k_current s' = k_current s"
proof -
  obtain T where T: "k_tasks s t = Some T" "t \<noteq> 0" "t_iobm T = 0 \<or> (\<exists>bm. k_iobms s (t_iobm T) = Some bm \<and> length bm = 8192)"
    using kern_rep_task [OF rep t] by blast
  have dt: "insert t (dom (k_tasks s)) = dom (k_tasks s)" using T(1) by (simp add: insert_absorb domI)
  obtain v where v: "sv_swpdir sv (t_dir T) (k_vm s) = Some v" using sv(2) by (auto simp: switch_total_def)
  have ok: "objs_ok inv used s" using rep by (simp add: kern_rep_def)
  let ?s1 = "s\<lparr>k_vm := v, k_tss := update_kstack (t_kstack_top T) (k_tss s)\<rparr>"
  have ok1: "objs_ok inv used ?s1" using ok by (rule objs_ok_cong) (simp_all add: kinds_def)
  have room1: "room (cost (unat (8192 :: u32)) + b) (Suc k) ?s1" using room by (simp add: room_def)
  show ?thesis
  proof (cases "t_iobm T = 0")
    case False
    then obtain bm where bm: "k_iobms s (t_iobm T) = Some bm" "length bm = 8192" using T(3) by auto
    let ?s' = "s\<lparr>k_vm := v, k_tss := (update_kstack (t_kstack_top T) (k_tss s))\<lparr>tss_iobm := bm\<rparr>\<rparr>"
    have "\<exists>j. enter_task sv t s = Some (j, ?s')"
      using T v bm False by (simp add: enter_task_def load_def update_iobm_def)
    moreover have "kern_rep inv used ?s' xs ts ys us"
      by (rule kern_rep_update [OF rep]) (use rep ok in \<open>auto simp: kern_rep_def iobm_ok_def objs_ok_def objs_def kinds_def\<close>)
    moreover have "room b k ?s'" using room by (simp add: room_def)
    ultimately show ?thesis by auto
  next
    case True
    obtain p h where p: "k_alloc sv 8192 ?s1 = Some (p, ?s1\<lparr>k_ls := (k_ls s)\<lparr>ls_heap := h\<rparr>\<rparr>)" "p \<noteq> 0" "p \<notin> objs ?s1"
      "objs_ok inv used (?s1\<lparr>k_ls := (k_ls s)\<lparr>ls_heap := h\<rparr>\<rparr>)" "\<exists>m. (unat p, m) \<in> used h"
      "room b k (?s1\<lparr>k_ls := (k_ls s)\<lparr>ls_heap := h\<rparr>\<rparr>)"
      using k_alloc_room [OF ok1 sv(1) _ room1] by auto
    let ?bm = "replicate 8192 (0xFF :: u8)"
    let ?s2 = "?s1\<lparr>k_ls := (k_ls s)\<lparr>ls_heap := h\<rparr>, k_tasks := (k_tasks s)(t \<mapsto> T\<lparr>t_iobm := p\<rparr>), k_iobms := (k_iobms s)(p \<mapsto> ?bm)\<rparr>"
    let ?s' = "?s2\<lparr>k_tss := (k_tss ?s2)\<lparr>tss_iobm := ?bm\<rparr>\<rparr>"
    have "\<exists>j. enter_task sv t s = Some (j, ?s')"
      using T v p(1,2) True by (simp add: enter_task_def load_def update_iobm_def)
    moreover have "p \<notin> objs (?s1\<lparr>k_ls := (k_ls s)\<lparr>ls_heap := h\<rparr>\<rparr>)" using p(3) by (simp add: objs_def kinds_def)
    then have "objs_ok inv used (?s1\<lparr>k_ls := (k_ls s)\<lparr>ls_heap := h\<rparr>, k_iobms := (k_iobms s)(p \<mapsto> ?bm)\<rparr>)"
      using objs_ok_iobm [OF p(4), of p ?bm] p(5) by simp
    then have ok': "objs_ok inv used ?s'" by (rule objs_ok_cong) (use T in \<open>auto simp: kinds_def\<close>)
    have new: "p \<notin> dom (k_iobms s)" using p(3) by (simp add: objs_def kinds_def)
    have "kern_rep inv used ?s' xs ts ys us"
    proof (rule kern_rep_update [OF rep ok'])
      fix t0 T0 assume "k_tasks s t0 = Some T0"
      then show "\<exists>T'. k_tasks ?s' t0 = Some T' \<and> t_parent T' = t_parent T0 \<and> (iobm_ok s t0 \<longrightarrow> iobm_ok ?s' t0)"
        using new T by (auto simp: iobm_ok_def)
    qed (use rep dt in \<open>simp_all add: kern_rep_def\<close>)
    moreover have "room b k ?s'" using p(6) by (simp add: room_def)
    ultimately show ?thesis by auto
  qed
qed

text \<open>The distance to the next task that is not blocked.\<close>

lemma next_ready:
  fixes m n i :: nat
  assumes "m < n" and "i < n" and "\<not> P m"
  shows "\<exists>d. 0 < d \<and> (\<forall>j. 0 < j \<longrightarrow> j < d \<longrightarrow> P ((i + j) mod n)) \<and> \<not> P ((i + d) mod n)"
proof -
  let ?Q = "\<lambda>d. 0 < d \<and> \<not> P ((i + d) mod n)"
  have "(i + (m + n - i)) mod n = m" using assms(1,2) by simp
  then have "?Q (m + n - i)" using assms by simp
  then have "?Q (LEAST d. ?Q d)" by (rule LeastI)
  moreover have "P ((i + j) mod n)" if "0 < j" "j < (LEAST d. ?Q d)" for j using not_less_Least [OF that(2)] that(1) by blast
  ultimately show ?thesis by blast
qed

lemma task_switch_ok:
  fixes sv :: "('s, 'v) services" and s :: "('s, 'v) kern"
  assumes rep: "kern_rep inv used s xs ts ys us" and sv: "sv_alloc sv = alloc" "switch_total sv"
    and ready: "\<exists>t \<in> set ts. \<not> blocked_at s t" and room: "room (cost 8192 + b) (Suc k) s"
  shows "\<exists>j s' i. task_switch sv s = Some (j, s') \<and> kern_rep inv used s' xs ts ys us \<and> room b k s' \<and>
    i < length ts \<and> k_current s' = xs ! i \<and> \<not> blocked_at s (ts ! i)"
proof -
  have rd: "round s xs ts" using kern_rep_round [OF rep] .
  have len: "length ts = length xs" using rep by (auto simp: kern_rep_def dest: list_rep_length)
  obtain m where m: "m < length xs" "\<not> blocked_at s (ts ! m)" using ready len by (auto simp: in_set_conv_nth)
  obtain i where i: "i < length xs" "k_current s = xs ! i" using rep by (auto simp: kern_rep_def in_set_conv_nth)
  obtain d where d: "0 < d" "\<forall>j. 0 < j \<longrightarrow> j < d \<longrightarrow> blocked_at s (ts ! ((i + j) mod length xs))"
    "\<not> blocked_at s (ts ! ((i + d) mod length xs))" using next_ready [OF m(1) i(1), of "\<lambda>j. blocked_at s (ts ! j)"] m(2) by blast
  let ?e = "(i + d) mod length xs" and ?s1 = "s\<lparr>k_current := xs ! ((i + d) mod length xs)\<rparr>"
  have e: "?e < length xs" using i(1) by (intro mod_less_divisor) linarith
  have ok: "objs_ok inv used s" using rep by (simp add: kern_rep_def)
  have "objs_ok inv used ?s1" using ok by (rule objs_ok_cong) (simp_all add: kinds_def)
  then have rep1: "kern_rep inv used ?s1 xs ts ys us"
    by (rule kern_rep_update [OF rep]) (use rep e in \<open>auto simp: kern_rep_def iobm_ok_def\<close>)
  have r1: "room (cost 8192 + b) (Suc k) ?s1" using room by (simp add: room_def)
  have "ts ! ?e \<in> set ts" using e len by simp
  then obtain j s' where s': "enter_task sv (ts ! ?e) ?s1 = Some (j, s')" "kern_rep inv used s' xs ts ys us" "room b k s'"
    "k_current s' = k_current ?s1" using enter_task_ok [OF rep1 sv _ r1] by blast
  then show ?thesis using task_switch_next [OF rd i d, of sv] d(3) e len by auto
qed

end

end
