(* ===== verification/MsgAsync.thy ===== *)
theory MsgAsync
  imports User
begin

text \<open>
  Sending and receiving between processes: \<^verbatim>\<open>message_async_send\<close>, \<^verbatim>\<open>message_async_recv\<close> and
  \<^verbatim>\<open>message_async_recv_poll\<close> of \<^verbatim>\<open>module/message/main.c\<close>. Both that may wait call \<^verbatim>\<open>tasking_tick\<close>; \<open>rg\<close> and
  \<open>env\<close> are its registers and the run of the other tasks until the caller is resumed.
\<close>

text \<open>A queue operation on the receive buffer of a process.\<close>

definition recv_push :: "addr \<Rightarrow> addr \<Rightarrow> ('h, 'v) kern \<Rightarrow> ('h, 'v) kern option" where
  "recv_push p msg s = do {
     u \<leftarrow> load (k_utasks s) p;
     (r, b) \<leftarrow> message_push (ut_recvbuf u) msg;
     on_utask p (\<lambda>u. u\<lparr>ut_recvbuf := b\<rparr>) s }"

definition recv_pop :: "addr \<Rightarrow> ('h, 'v) kern \<Rightarrow> (addr \<times> ('h, 'v) kern) option" where
  "recv_pop p s = do {
     u \<leftarrow> load (k_utasks s) p;
     (m, b) \<leftarrow> message_pop (ut_recvbuf u);
     s1 \<leftarrow> on_utask p (\<lambda>u. u\<lparr>ut_recvbuf := b\<rparr>) s;
     Some (m, s1) }"

definition message_async_send :: "('h, 'v) services \<Rightarrow> regs \<Rightarrow> ('h, 'v) env \<Rightarrow> addr \<Rightarrow> ('h, 'v) kern \<Rightarrow>
    (int \<times> ('h, 'v) kern) option" where
  "message_async_send sv rg env msg s = do {
     m \<leftarrow> load (k_msgs s) msg;
     stsk \<leftarrow> user_find (src m) s;
     dtsk \<leftarrow> user_find (dst m) s;
     if dtsk = 0 then Some (-1, s)
     else do {
       us \<leftarrow> load (k_utasks s) stsk;
       if ut_msg_ack us then Some (-2, s)
       else do {
         let s1 = tasking_disable s;
         ud \<leftarrow> load (k_utasks s1) dtsk;
         s2 \<leftarrow> (if MSG_MAXCOUNT \<le> unat (mb_count (ut_recvbuf ud))
           then do {
             (r, s2) \<leftarrow> k_push sv (ut_sendbuf ud) msg s1;
             s3 \<leftarrow> user_block (src m) s2;
             tasking_tick sv rg env (tasking_enable s3) }
           else Some s1);
         s3 \<leftarrow> recv_push dtsk msg s2;
         m1 \<leftarrow> load (k_msgs s3) msg;
         b \<leftarrow> user_isblocked (dst m1) s3;
         s4 \<leftarrow> (if b then user_awake (dst m1) s3 else Some s3);
         Some (0, tasking_enable s4) } } }"

definition message_async_recv :: "('h, 'v) services \<Rightarrow> regs \<Rightarrow> ('h, 'v) env \<Rightarrow> ('h, 'v) kern \<Rightarrow>
    (addr \<times> ('h, 'v) kern) option" where
  "message_async_recv sv rg env s = do {
     let s1 = tasking_disable s;
     utsk \<leftarrow> cur_utask s1;
     u \<leftarrow> load (k_utasks s1) utsk;
     s2 \<leftarrow> (if mb_count (ut_recvbuf u) = 0
       then do {
         s2 \<leftarrow> user_block (ut_pid u) s1;
         tasking_tick sv rg env (tasking_enable s2) }
       else Some s1);
     (msg, s3) \<leftarrow> recv_pop utsk s2;
     Some (msg, tasking_enable s3) }"

definition message_async_recv_poll :: "('h, 'v) kern \<Rightarrow> (addr \<times> ('h, 'v) kern) option" where
  "message_async_recv_poll s = do {
     let s1 = tasking_disable s;
     utsk \<leftarrow> cur_utask s1;
     (msg, s2) \<leftarrow> recv_pop utsk s1;
     Some (msg, tasking_enable s2) }"

end
