(* ===== verification/Syscall.thy ===== *)
theory Syscall
  imports MsgAsync
begin

text \<open>
  The system calls, \<^verbatim>\<open>module/syscall/main.c\<close>. A call returns the 32 bits that become the caller's
  \<^verbatim>\<open>eax\<close>; a pointer the caller passes is read and written in its address space, where it may fault.
  What \<^verbatim>\<open>vga_printf\<close> prints for \<^verbatim>\<open>syscall_print\<close> goes to \<open>k_out\<close>; the other messages are left out.
\<close>

definition USER_PERM_IO :: u32 where "USER_PERM_IO = 1"
definition USER_PERM_IRD :: u32 where "USER_PERM_IRD = 2"
definition USER_PERM_MEM :: u32 where "USER_PERM_MEM = 4"
definition SYSCALLS_NUM :: nat where "SYSCALLS_NUM = 20"

type_synonym ('h, 'v) sysret = "(u32 \<times> ('h, 'v) kern) option"

text \<open>The process that calls, and whether it has a permission.\<close>

definition caller :: "('h, 'v) kern \<Rightarrow> user_task option" where
  "caller s = do { p \<leftarrow> cur_utask s; load (k_utasks s) p }"

definition has_perm :: "u32 \<Rightarrow> ('h, 'v) kern \<Rightarrow> bool option" where
  "has_perm pm s = do { u \<leftarrow> caller s; Some (ut_perms u AND pm \<noteq> 0) }"

subsection \<open>Information and I/O ports\<close>

definition syscall_print :: "('h, 'v) services \<Rightarrow> addr \<Rightarrow> ('h, 'v) kern \<Rightarrow> ('h, 'v) sysret" where
  "syscall_print sv msg s = do {
     t \<leftarrow> sv_str sv msg (k_vm s);
     Some (0, s\<lparr>k_out := k_out s @ [t]\<rparr>) }"

definition syscall_getperms :: "('h, 'v) kern \<Rightarrow> ('h, 'v) sysret" where
  "syscall_getperms s = do { u \<leftarrow> caller s; Some (ut_perms u, s) }"

definition syscall_getpid :: "('h, 'v) kern \<Rightarrow> ('h, 'v) sysret" where
  "syscall_getpid s = do { u \<leftarrow> caller s; Some (ut_pid u, s) }"

text \<open>The bit of a port in the I/O bitmap, 1 for a port that is blocked.\<close>

definition set_port :: "bool \<Rightarrow> nat \<Rightarrow> u8 list \<Rightarrow> u8 list option" where
  "set_port v i bm = do {
     b \<leftarrow> nth_opt bm (i div 8);
     upd_opt bm (i div 8) (if v then b OR push_bit (i mod 8) 1 else b AND NOT (push_bit (i mod 8) 1)) }"

fun port_loop :: "bool \<Rightarrow> nat list \<Rightarrow> u8 list \<Rightarrow> u8 list option" where
  "port_loop v [] bm = Some bm"
| "port_loop v (i # is) bm = do { bm1 \<leftarrow> set_port v i bm; port_loop v is bm1 }"

text \<open>The common shape of \<^verbatim>\<open>syscall_reqio\<close> and \<^verbatim>\<open>syscall_blkio\<close>; the loop reads \<^verbatim>\<open>iobm\<close> only if it runs.\<close>

definition io_ports :: "bool \<Rightarrow> u16 \<Rightarrow> u16 \<Rightarrow> ('h, 'v) kern \<Rightarrow> ('h, 'v) sysret" where
  "io_ports v base len s = do {
     ctsk \<leftarrow> cur_task s;
     t \<leftarrow> load (k_tasks s) ctsk;
     if unat base + unat len > 0xFF then Some (-2, s)
     else do {
       u \<leftarrow> load (k_utasks s) (t_parent t);
       if ut_perms u AND USER_PERM_IO = 0 then Some (-1, s)
       else if len = 0 then Some (0, s)
       else do {
         bm \<leftarrow> load (k_iobms s) (t_iobm t);
         bm1 \<leftarrow> port_loop v [unat base..<unat base + unat len] bm;
         Some (0, s\<lparr>k_iobms := (k_iobms s)(t_iobm t \<mapsto> bm1)\<rparr>) } } }"

definition syscall_reqio :: "u16 \<Rightarrow> u16 \<Rightarrow> ('h, 'v) kern \<Rightarrow> ('h, 'v) sysret" where
  "syscall_reqio base len s = io_ports False base len s"

definition syscall_blkio :: "u16 \<Rightarrow> u16 \<Rightarrow> ('h, 'v) kern \<Rightarrow> ('h, 'v) sysret" where
  "syscall_blkio base len s = io_ports True base len s"

subsection \<open>Messages\<close>

text \<open>The loop over the pages of \<open>n\<close> bytes, at a step of one page; it may not end when \<open>i\<close> wraps.\<close>

partial_function (option) page_loop :: "(u32 \<Rightarrow> 'v \<Rightarrow> (u32 \<times> 'v) option) \<Rightarrow> u32 \<Rightarrow> u32 \<Rightarrow> 'v \<Rightarrow> 'v option" where
  "page_loop f i n v =
     (if i < n then do { (old, v1) \<leftarrow> f i v; page_loop f (i + 0x1000) n v1 } else Some v)"

text \<open>Mapping the kernel's buffer at \<open>kd\<close> to the address \<open>d\<close> of the process.\<close>

definition map_buffer :: "('h, 'v) services \<Rightarrow> addr \<Rightarrow> addr \<Rightarrow> u32 \<Rightarrow> u32 \<Rightarrow> 'v \<Rightarrow> 'v option" where
  "map_buffer sv kd d flags n v =
     page_loop (\<lambda>i v. sv_remappg sv (sv_getphys sv (kd + i) v) (i + d) flags v) 0 n v"

definition syscall_msg_req :: "('h, 'v) services \<Rightarrow> u32 \<Rightarrow> addr \<Rightarrow> ('h, 'v) kern \<Rightarrow> ('h, 'v) sysret" where
  "syscall_msg_req sv bufsz msgbuf s = do {
     utsk \<leftarrow> cur_utask s;
     if msgbuf = 0 then Some (-1, s)
     else if bufsz > 0xFF000 then Some (-2, s)
     else do {
       let sz = ((bufsz + 0xFFF) div 0x1000) * 0x1000;
       u \<leftarrow> load (k_utasks s) utsk;
       m \<leftarrow> load (k_msgs s) msgbuf;
       (kd, h) \<leftarrow> sv_alloc_a sv sz 0x1000 (ls_heap (k_ls s));
       let s1 = s\<lparr>k_ls := (k_ls s)\<lparr>ls_heap := h\<rparr>,
         k_msgs := (k_msgs s)(msgbuf \<mapsto> m\<lparr>src := ut_pid u, dat := 0x1000, kdat := kd\<rparr>)\<rparr>;
       v \<leftarrow> map_buffer sv kd 0x1000 7 sz (k_vm s1);
       Some (0, s1\<lparr>k_vm := v\<rparr>) } }"

definition k_free :: "('h, 'v) services \<Rightarrow> addr \<Rightarrow> ('h, 'v) kern \<Rightarrow> ('h, 'v) kern option" where
  "k_free sv p s = do {
     h \<leftarrow> sv_free sv p (ls_heap (k_ls s));
     Some (s\<lparr>k_ls := (k_ls s)\<lparr>ls_heap := h\<rparr>\<rparr>) }"

definition syscall_msg_free :: "('h, 'v) services \<Rightarrow> addr \<Rightarrow> ('h, 'v) kern \<Rightarrow> ('h, 'v) sysret" where
  "syscall_msg_free sv msg s =
     (if msg = 0 then Some (-1, s)
      else do {
        m \<leftarrow> load (k_msgs s) msg;
        if kdat m = 0 then Some (-1, s)
        else do { s1 \<leftarrow> k_free sv (kdat m) s; Some (0, s1) } })"

definition syscall_msg_send :: "('h, 'v) services \<Rightarrow> regs \<Rightarrow> ('h, 'v) env \<Rightarrow> addr \<Rightarrow> u32 \<Rightarrow> ('h, 'v) kern \<Rightarrow>
    ('h, 'v) sysret" where
  "syscall_msg_send sv rg env msg pid s = do {
     utsk \<leftarrow> cur_utask s;
     if msg = 0 then Some (-1, s)
     else do {
       m \<leftarrow> load (k_msgs s) msg;
       if 0xFF000 \<le> msgsz m then Some (-2, s)
       else do {
         u \<leftarrow> load (k_utasks s) utsk;
         let m1 = m\<lparr>src := ut_pid u, dst := pid\<rparr>;
         let s1 = s\<lparr>k_msgs := (k_msgs s)(msg \<mapsto> m1)\<rparr>;
         (kmsg, s2) \<leftarrow> k_alloc sv 20 s1;
         if kmsg = 0 then None
         else do {
           let s3 = s2\<lparr>k_msgs := (k_msgs s2)(kmsg \<mapsto> m1)\<rparr>;
           v \<leftarrow> page_loop (\<lambda>i v. sv_remappg sv 0 (i + dat m1) 0 v) 0 (msgsz m1) (k_vm s3);
           (r, s4) \<leftarrow> message_async_send sv rg env kmsg (s3\<lparr>k_vm := v\<rparr>);
           Some (0, s4) } } } }"

text \<open>The end of \<^verbatim>\<open>syscall_msg_recv\<close> and \<^verbatim>\<open>syscall_msg_poll\<close>: mapping, copying out, freeing.\<close>

definition msg_deliver :: "('h, 'v) services \<Rightarrow> u32 \<Rightarrow> addr \<Rightarrow> addr \<Rightarrow> ('h, 'v) kern \<Rightarrow> ('h, 'v) sysret" where
  "msg_deliver sv flags kmsg msg s = do {
     km \<leftarrow> load (k_msgs s) kmsg;
     v \<leftarrow> map_buffer sv (kdat km) (dat km) flags (msgsz km) (k_vm s);
     um \<leftarrow> load (k_msgs s) msg;
     let s1 = s\<lparr>k_vm := v, k_msgs := (k_msgs s)(msg \<mapsto> km)\<rparr>;
     s2 \<leftarrow> k_free sv kmsg s1;
     Some (0, s2\<lparr>k_msgs := (k_msgs s2)(kmsg := None)\<rparr>) }"

definition syscall_msg_recv :: "('h, 'v) services \<Rightarrow> regs \<Rightarrow> ('h, 'v) env \<Rightarrow> addr \<Rightarrow> ('h, 'v) kern \<Rightarrow>
    ('h, 'v) sysret" where
  "syscall_msg_recv sv rg env msg s =
     (if msg = 0 then Some (-1, s)
      else do {
        (kmsg, s1) \<leftarrow> message_async_recv sv rg env s;
        msg_deliver sv 7 kmsg msg s1 })"

definition syscall_msg_poll :: "('h, 'v) services \<Rightarrow> addr \<Rightarrow> ('h, 'v) kern \<Rightarrow> ('h, 'v) sysret" where
  "syscall_msg_poll sv msg s =
     (if msg = 0 then Some (-1, s)
      else do {
        (kmsg, s1) \<leftarrow> message_async_recv_poll s;
        if kmsg = 0 then Some (-2, s1) else msg_deliver sv 5 kmsg msg s1 })"

subsection \<open>Processes\<close>

text \<open>\<open>half\<close> and \<open>usr_ret\<close> are the addresses of the code where a new process starts.\<close>

definition syscall_spawn :: "('h, 'v) services \<Rightarrow> addr \<Rightarrow> addr \<Rightarrow> addr \<Rightarrow> u32 \<Rightarrow> ('h, 'v) kern \<Rightarrow>
    ('h, 'v) sysret" where
  "syscall_spawn sv half file stk stksz s = do {
     u \<leftarrow> caller s;
     (ntsk, s1) \<leftarrow> user_spawn sv half file stk stksz (ut_perms u) s;
     if ntsk \<noteq> 0 then do { n \<leftarrow> load (k_utasks s1) ntsk; Some (ut_pid n, s1) } else Some (-1, s1) }"

definition syscall_fork :: "('h, 'v) services \<Rightarrow> addr \<Rightarrow> ('h, 'v) kern \<Rightarrow> ('h, 'v) sysret" where
  "syscall_fork sv usr_ret s = user_fork sv usr_ret s"

definition syscall_exec :: "('h, 'v) services \<Rightarrow> addr \<Rightarrow> addr \<Rightarrow> addr \<Rightarrow> u32 \<Rightarrow> ('h, 'v) kern \<Rightarrow>
    ('h, 'v) sysret" where
  "syscall_exec sv half file stk stksz s = do {
     utsk \<leftarrow> cur_utask s;
     if file = 0 then Some (-1, s)
     else do {
       u \<leftarrow> load (k_utasks s) utsk;
       (ntsk, s1) \<leftarrow> user_spawn sv half file stk stksz (ut_perms u) s;
       Some (if ntsk \<noteq> 0 then 1 else 0, s1) } }"

subsection \<open>The initial ramdisk\<close>

definition syscall_initrd_getfc :: "('h, 'v) services \<Rightarrow> ('h, 'v) kern \<Rightarrow> ('h, 'v) sysret" where
  "syscall_initrd_getfc sv s = do {
     ok \<leftarrow> has_perm USER_PERM_IRD s;
     if \<not> ok then Some (-1, s) else Some (of_nat (length (sv_initrd sv)), s) }"

text \<open>The position of the first file with a name, or the number of files.\<close>

fun find_file :: "initrd_file list \<Rightarrow> string \<Rightarrow> nat" where
  "find_file [] name = 0"
| "find_file (f # fs) name = (if f_name f = name then 0 else Suc (find_file fs name))"

definition syscall_initrd_getf :: "('h, 'v) services \<Rightarrow> addr \<Rightarrow> addr \<Rightarrow> ('h, 'v) kern \<Rightarrow> ('h, 'v) sysret" where
  "syscall_initrd_getf sv buf name s = do {
     ok \<leftarrow> has_perm USER_PERM_IRD s;
     if \<not> ok then Some (-1, s)
     else do {
       fi \<leftarrow> (if sv_initrd sv = [] then Some 0
         else do { nm \<leftarrow> sv_str sv name (k_vm s); Some (find_file (sv_initrd sv) nm) });
       if length (sv_initrd sv) \<le> fi then Some (-2, s)
       else if buf = 0 then Some (-3, s)
       else do {
         b \<leftarrow> load (k_files s) buf;
         Some (of_nat fi, s\<lparr>k_files := (k_files s)(buf \<mapsto> sv_initrd sv ! fi)\<rparr>) } } }"

definition syscall_initrd_read :: "('h, 'v) services \<Rightarrow> addr \<Rightarrow> u32 \<Rightarrow> u32 \<Rightarrow> u32 \<Rightarrow> ('h, 'v) kern \<Rightarrow>
    ('h, 'v) sysret" where
  "syscall_initrd_read sv buf i base len s = do {
     ok \<leftarrow> has_perm USER_PERM_IRD s;
     if \<not> ok then Some (-1, s)
     else if length (sv_initrd sv) \<le> unat i then Some (-2, s)
     else do {
       let f = sv_initrd sv ! unat i;
       if f_size f \<le> base then Some (0, s)
       else do {
         let len1 = (if f_size f \<le> base + len then f_size f - base else len);
         s1 \<leftarrow> k_memcpy sv buf (f_data_start f + base) len1 s;
         Some (len1, s1) } } }"

subsection \<open>Memory\<close>

definition syscall_resvpg :: "('h, 'v) services \<Rightarrow> addr \<Rightarrow> ('h, 'v) kern \<Rightarrow> ('h, 'v) sysret" where
  "syscall_resvpg sv phys s = do {
     ok \<leftarrow> has_perm USER_PERM_MEM s;
     if \<not> ok then Some (-1, s)
     else do { v \<leftarrow> sv_resvpg sv phys (k_vm s); Some (0, s\<lparr>k_vm := v\<rparr>) } }"

text \<open>\<^verbatim>\<open>mappg\<close> takes the physical address first.\<close>

definition syscall_mappg :: "('h, 'v) services \<Rightarrow> addr \<Rightarrow> addr \<Rightarrow> u32 \<Rightarrow> ('h, 'v) kern \<Rightarrow> ('h, 'v) sysret" where
  "syscall_mappg sv virt phys flgs s = do {
     ok \<leftarrow> has_perm USER_PERM_MEM s;
     if \<not> ok then Some (-1, s)
     else if 0xD8000000 \<le> virt then Some (-2, s)
     else do { (e, v) \<leftarrow> sv_mappg sv virt phys flgs (k_vm s); Some (e, s\<lparr>k_vm := v\<rparr>) } }"

definition syscall_allocpgs :: "('h, 'v) services \<Rightarrow> addr \<Rightarrow> u32 \<Rightarrow> u32 \<Rightarrow> ('h, 'v) kern \<Rightarrow> ('h, 'v) sysret" where
  "syscall_allocpgs sv virt cnt flgs s = do {
     ok \<leftarrow> has_perm USER_PERM_MEM s;
     if \<not> ok then Some (-1, s)
     else if 0xD8000000 \<le> virt then Some (-2, s)
     else do { (a, v) \<leftarrow> sv_allocpgs sv virt cnt flgs (k_vm s); Some (a, s\<lparr>k_vm := v\<rparr>) } }"

definition syscall_freepgs :: "('h, 'v) services \<Rightarrow> addr \<Rightarrow> u32 \<Rightarrow> ('h, 'v) kern \<Rightarrow> ('h, 'v) sysret" where
  "syscall_freepgs sv virt cnt s = do {
     ok \<leftarrow> has_perm USER_PERM_MEM s;
     if \<not> ok then Some (-1, s)
     else if 0xD8000000 \<le> virt then Some (-2, s)
     else do { v \<leftarrow> sv_freepgs sv virt cnt (k_vm s); Some (0, s\<lparr>k_vm := v\<rparr>) } }"

subsection \<open>Dispatch\<close>

text \<open>The addresses of code that the calls need.\<close>

record code_addrs =
  ca_half :: addr
  ca_usr_ret :: addr

definition scalls :: "('h, 'v) services \<Rightarrow> code_addrs \<Rightarrow> regs \<Rightarrow> ('h, 'v) env \<Rightarrow>
    (u32 \<Rightarrow> u32 \<Rightarrow> u32 \<Rightarrow> u32 \<Rightarrow> ('h, 'v) kern \<Rightarrow> ('h, 'v) sysret) list" where
  "scalls sv ca rg env =
    [\<lambda>a b c d s. syscall_print sv a s,
     \<lambda>a b c d s. syscall_getperms s,
     \<lambda>a b c d s. syscall_getpid s,
     \<lambda>a b c d s. syscall_reqio (ucast a) (ucast b) s,
     \<lambda>a b c d s. syscall_blkio (ucast a) (ucast b) s,
     \<lambda>a b c d s. syscall_msg_req sv a b s,
     \<lambda>a b c d s. syscall_msg_free sv a s,
     \<lambda>a b c d s. syscall_msg_send sv rg env a b s,
     \<lambda>a b c d s. syscall_msg_recv sv rg env a s,
     \<lambda>a b c d s. syscall_msg_poll sv a s,
     \<lambda>a b c d s. syscall_spawn sv (ca_half ca) a b c s,
     \<lambda>a b c d s. syscall_fork sv (ca_usr_ret ca) s,
     \<lambda>a b c d s. syscall_exec sv (ca_half ca) a b c s,
     \<lambda>a b c d s. syscall_initrd_getfc sv s,
     \<lambda>a b c d s. syscall_initrd_getf sv a b s,
     \<lambda>a b c d s. syscall_initrd_read sv a b c d s,
     \<lambda>a b c d s. syscall_resvpg sv a s,
     \<lambda>a b c d s. syscall_mappg sv a b c s,
     \<lambda>a b c d s. syscall_allocpgs sv a b c s,
     \<lambda>a b c d s. syscall_freepgs sv a b s]"

text \<open>
  \<open>r\<close> is the frame of saved registers; the result is the frame afterwards. The table has no empty
  entry, so that the branch for a missing call is left out.
\<close>

definition syscall_handler :: "('h, 'v) services \<Rightarrow> code_addrs \<Rightarrow> regs \<Rightarrow> ('h, 'v) env \<Rightarrow> syscall_state \<Rightarrow>
    ('h, 'v) kern \<Rightarrow> (syscall_state \<times> ('h, 'v) kern) option" where
  "syscall_handler sv ca rg env r s =
     (if SYSCALLS_NUM \<le> unat (r_num r) then Some (r, s)
      else do {
        utsk \<leftarrow> cur_utask s;
        s1 \<leftarrow> on_utask utsk (\<lambda>u. u\<lparr>ut_state := r\<rparr>) s;
        sc \<leftarrow> nth_opt (scalls sv ca rg env) (unat (r_num r));
        (ret, s2) \<leftarrow> sc (r_arg1 r) (r_arg2 r) (r_arg3 r) (r_arg4 r) s1;
        Some (r\<lparr>r_num := ret\<rparr>, s2) })"

text \<open>The gate of the system call interrupt, which user mode may use.\<close>

definition syscall_init :: "addr \<Rightarrow> idt_entry list \<Rightarrow> idt_entry list option" where
  "syscall_init isr_77_syscall t = idt_createEntry 0x4D isr_77_syscall 0x08 (0x8E OR 0x60) t"

end
