(* ===== verification/Kernel_Inv.thy ===== *)
theory Kernel_Inv
  imports Processes_Ops Syscall
begin

text \<open>
  The invariant \<open>kern_inv\<close> of the kernel with its own heap: \<open>kern_rep\<close> for the heap of \<open>Kheap_Safe\<close>. The
  lemmas of \<open>Processes_Ops\<close> are used through the interpretation \<open>kh\<close>: starting and forking a process,
  blocking and a tick succeed and keep it.
\<close>

subsection \<open>The invariant on the kernel\<close>

type_synonym 'v ksys = "(kheap, 'v) kern"
type_synonym 'v ksvc = "(kheap, 'v) services"

text \<open>The services on which the kernel runs: its own heap, and memory that does not fault.\<close>

definition sound_svc :: "'v ksvc \<Rightarrow> bool" where
  "sound_svc sv \<longleftrightarrow> sv_alloc sv = kalloc \<and> sv_alloc_a sv = kalloc_a \<and> sv_free sv = kfree \<and> mem_total sv \<and> switch_total sv"

definition kroom :: "nat \<Rightarrow> nat \<Rightarrow> 'v ksys \<Rightarrow> bool" where
  "kroom b n s \<longleftrightarrow> b \<le> kheap_bytes_left (ls_heap (k_ls s)) \<and> n \<le> kheap_allocs_left (ls_heap (k_ls s))"

definition kern_inv :: "'v ksys \<Rightarrow> bool" where
  "kern_inv s \<longleftrightarrow> (\<exists>xs ts ys us. kern_rep kheap_inv kheap_used s xs ts ys us \<and> length us < 2 ^ 31 \<and> length xs = Suc (length us))"

definition ready :: "'v ksys \<Rightarrow> bool" where
  "ready s \<longleftrightarrow> (\<exists>t T. k_tasks s t = Some T \<and> \<not> t_blocked T)"

text \<open>Room for a process with a kernel stack and \<open>n\<close> bytes of arguments, and for its number.\<close>

definition spawn_room :: "nat \<Rightarrow> 'v ksys \<Rightarrow> bool" where
  "spawn_room n s \<longleftrightarrow> kroom (8192 + roundup16 n + 704) 7 s \<and> unat (k_next_pid s) < 2 ^ 31 - 2"

text \<open>A tick up to the jump into the task it enters.\<close>

definition tick :: "'v ksvc \<Rightarrow> regs \<Rightarrow> 'v ksys \<Rightarrow> 'v ksys option" where
  "tick sv rg s = tasking_tick sv rg (\<lambda>j s. Some s) s"

lemma kh_room: "kh.room b n s = kroom b n s"
  by (simp add: kh.room_def kroom_def)

lemma kh_proc_cost: "kh.proc_cost = 704"
  by (simp add: kh.proc_cost_def roundup16_def)

lemma roundup16_small: "roundup16 8192 = 8192" "roundup16 0 = 0"
  by (simp_all add: roundup16_def)

lemma kern_rep_pid: "kern_rep I U s xs ts ys us \<Longrightarrow> length us < 2 ^ 31 \<Longrightarrow> unat (k_next_pid s) = length us"
  by (simp add: kern_rep_def u32_of_nat)

text \<open>The current task, and the process it belongs to.\<close>

lemma cur_task_ok:
  assumes "kern_rep I U s xs ts ys us"
  shows "\<exists>t T. cur_task s = Some t \<and> t \<in> set ts \<and> k_tasks s t = Some T \<and> t \<noteq> 0 \<and> cur_utask s = Some (t_parent T) \<and>
    (t_parent T \<noteq> 0 \<longrightarrow> (\<exists>V. load (k_utasks s) (t_parent T) = Some V \<and> t_parent T \<in> set us))"
proof -
  obtain i where i: "i < length xs" "k_current s = xs ! i" using assms by (auto simp: kern_rep_def in_set_conv_nth)
  have rep: "list_rep (k_ls s) (k_task_order s) True xs ts" using assms by (simp add: kern_rep_def)
  obtain n where n: "load (ls_nodes (k_ls s)) (xs ! i) = Some n" "n_data n = ts ! i" using list_rep_node [OF rep i(1)] by blast
  have t: "ts ! i \<in> set ts" using i(1) list_rep_length [OF rep] by simp
  then obtain T where T: "k_tasks s (ts ! i) = Some T" "ts ! i \<noteq> 0" "t_parent T \<noteq> 0 \<longrightarrow> t_parent T \<in> set us"
    using kern_rep_task [OF assms] by blast
  have "\<exists>V. load (k_utasks s) (t_parent T) = Some V" if "t_parent T \<noteq> 0"
    using that T(3) kern_rep_proc [OF assms, of "t_parent T"] by (auto simp: load_def)
  then show ?thesis using n i(2) t T by (intro exI [of _ "ts ! i"] exI [of _ T]) (auto simp: cur_task_def cur_utask_def load_def)
qed

lemma spawn_refused_ok:
  assumes "kern_rep I U s xs ts ys us"
  shows "\<exists>r. spawn_refused perms s = Some r"
proof -
  obtain t T where t: "cur_task s = Some t" "k_tasks s t = Some T" "t \<noteq> 0"
    "t_parent T \<noteq> 0 \<longrightarrow> (\<exists>V. load (k_utasks s) (t_parent T) = Some V)" using cur_task_ok [OF assms] by blast
  then show ?thesis by (cases "t_parent T = 0") (auto simp: spawn_refused_def load_def [of "k_tasks s"])
qed

lemma kern_inv_spawn_room:
  assumes inv: "kern_inv s" and sv: "sound_svc sv" and n: "n \<noteq> 0"
    and room: "kroom (8192 + roundup16 (unat n) + 704 + b) (7 + k) s" "unat (k_next_pid s) < 2 ^ 31 - 2"
  shows "\<exists>u s'. user_spawn sv half f d n perms s = Some (u, s') \<and> kern_inv s' \<and> kroom b k s' \<and>
    (spawn_refused perms s = Some True \<longrightarrow> u = 0 \<and> s' = s) \<and> (spawn_refused perms s = Some False \<longrightarrow> made_process s s' u perms half \<and> k_next_pid s' = k_next_pid s + 1)"
proof -
  obtain xs ts ys us where rep: "kern_rep kheap_inv kheap_used s xs ts ys us" "length us < 2 ^ 31" "length xs = Suc (length us)"
    using inv by (auto simp: kern_inv_def)
  have ly: "length ys = length us" using rep(1) by (auto simp: kern_rep_def dest: list_rep_length)
  have lu: "length us < 2 ^ 31 - 2" using room(2) kern_rep_pid [OF rep(1,2)] by simp
  have r: "kh.room (roundup16 0x2000 + roundup16 (unat n) + kh.proc_cost + b) (7 + k) s"
    using room(1) by (simp add: kh_room kh_proc_cost roundup16_small)
  obtain ref where b: "spawn_refused perms s = Some ref" using spawn_refused_ok [OF rep(1)] by blast
  show ?thesis
  proof (cases ref)
    case True
    then show ?thesis using b inv room(1) by (simp add: user_spawn_def kroom_def)
  next
    case False
    have l: "length xs < 2 ^ 31" "length ys < 2 ^ 31" using lu ly rep(3) by simp_all
    have al: "sv_alloc sv = kalloc" "mem_total sv" using sv by (simp_all add: sound_svc_def)
    have b': "spawn_refused perms s = Some False" using b False by simp
    obtain u t p q s' where s': "user_spawn sv half f d n perms s = Some (u, s')" "made_process s s' u perms half" "kh.room b k s'"
      "kern_rep kheap_inv kheap_used s' (xs @ [p]) (ts @ [t]) (ys @ [q]) (us @ [u])"
      using kh.user_spawn_ok [OF rep(1) al b' n l r] by blast
    have "kern_inv s'" unfolding kern_inv_def
      by (rule exI [of _ "xs @ [p]"], rule exI [of _ "ts @ [t]"], rule exI [of _ "ys @ [q]"], rule exI [of _ "us @ [u]"])
        (use s'(4) lu rep(3) in simp)
    moreover have "k_next_pid s' = k_next_pid s + 1" using s'(4) rep(1) by (simp add: kern_rep_def)
    ultimately show ?thesis using s' b False by (auto simp: kh_room)
  qed
qed

lemma kern_inv_spawn:
  assumes "kern_inv s" and "sound_svc sv" and "n \<noteq> 0" and "spawn_room (unat n) s"
  shows "\<exists>u s'. user_spawn sv half f d n perms s = Some (u, s') \<and> kern_inv s' \<and>
    (spawn_refused perms s = Some True \<longrightarrow> u = 0 \<and> s' = s) \<and> (spawn_refused perms s = Some False \<longrightarrow> made_process s s' u perms half \<and> k_next_pid s' = k_next_pid s + 1)"
  using kern_inv_spawn_room [OF assms(1-3), of 0 0] assms(4) by (simp add: spawn_room_def) blast

lemma kern_inv_fork:
  assumes inv: "kern_inv s" and sv: "sound_svc sv" and par: "cur_utask s = Some par" "par \<noteq> 0" and room: "spawn_room 0 s"
  shows "\<exists>P u s' V. load (k_utasks s) par = Some P \<and> user_fork sv ret s = Some (k_next_pid s, s') \<and> kern_inv s' \<and>
    made_process s s' u (ut_perms P) ret \<and> k_utasks s' u = Some V \<and> ut_state V = (ut_state P)\<lparr>r_num := 0\<rparr>"
proof -
  obtain xs ts ys us where rep: "kern_rep kheap_inv kheap_used s xs ts ys us" "length us < 2 ^ 31" "length xs = Suc (length us)"
    using inv by (auto simp: kern_inv_def)
  have ly: "length ys = length us" using rep(1) by (auto simp: kern_rep_def dest: list_rep_length)
  have lu: "length us < 2 ^ 31 - 2" using room kern_rep_pid [OF rep(1,2)] by (simp add: spawn_room_def)
  have l: "length xs < 2 ^ 31" "length ys < 2 ^ 31" using lu ly rep(3) by simp_all
  have r: "kh.room (roundup16 0x2000 + kh.proc_cost + 0) (6 + 0) s"
    using room by (simp add: kh_room kh_proc_cost roundup16_small spawn_room_def kroom_def)
  have al: "sv_alloc sv = kalloc" "mem_total sv" using sv by (simp_all add: sound_svc_def)
  obtain P where P: "load (k_utasks s) par = Some P" using cur_task_ok [OF rep(1)] par by auto
  obtain u t p q s' V where s': "user_fork sv ret s = Some (k_next_pid s, s')" "made_process s s' u (ut_perms P) ret"
    "k_utasks s' u = Some V" "ut_state V = (ut_state P)\<lparr>r_num := 0\<rparr>"
    "kern_rep kheap_inv kheap_used s' (xs @ [p]) (ts @ [t]) (ys @ [q]) (us @ [u])"
    using kh.user_fork_ok [OF rep(1) al par(1) P l r, of ret] by blast
  have "kern_inv s'" unfolding kern_inv_def
    by (rule exI [of _ "xs @ [p]"], rule exI [of _ "ts @ [t]"], rule exI [of _ "ys @ [q]"], rule exI [of _ "us @ [u]"])
      (use s'(5) lu rep(3) in simp)
  then show ?thesis using s' P by blast
qed

lemma kern_inv_set_blocked:
  assumes "kern_inv s"
  shows "\<exists>s'. set_blocked b pid s = Some s' \<and> kern_inv s'"
proof -
  obtain xs ts ys us where rep: "kern_rep kheap_inv kheap_used s xs ts ys us" "length us < 2 ^ 31" "length xs = Suc (length us)"
    using assms by (auto simp: kern_inv_def)
  have "length us \<le> 2 ^ 32" using rep(2) by simp
  from kern_rep_set_blocked [OF rep(1) this, of b pid] rep show ?thesis unfolding kern_inv_def by blast
qed

lemma ready_rep: "kern_rep I U s xs ts ys us \<Longrightarrow> ready s \<Longrightarrow> \<exists>t \<in> set ts. \<not> blocked_at s t"
  by (force simp: ready_def kern_rep_def blocked_at_def)

lemma kern_inv_tick:
  assumes inv: "kern_inv s" and sv: "sound_svc sv" and room: "kroom 8192 1 s" and rdy: "ready s"
  shows "\<exists>s'. tick sv rg s = Some s' \<and> kern_inv s'"
proof -
  obtain xs ts ys us where rep: "kern_rep kheap_inv kheap_used s xs ts ys us" "length us < 2 ^ 31" "length xs = Suc (length us)"
    using inv by (auto simp: kern_inv_def)
  have l: "list_rep (k_ls s) (k_task_order s) True xs ts" and cur: "k_current s \<in> set xs" using rep(1) by (simp_all add: kern_rep_def)
  then obtain i where i: "i < length xs" "k_current s = xs ! i" by (auto simp: in_set_conv_nth)
  obtain n where n: "load (ls_nodes (k_ls s)) (xs ! i) = Some n" "n_data n = ts ! i" "n_next n = xs ! (Suc i mod length xs)"
    using list_rep_next [OF l i(1)] by blast
  obtain L where L: "load (ls_lists (k_ls s)) (k_task_order s) = Some L" using l by (auto simp: list_rep_def)
  show ?thesis
  proof (cases "1 < length xs \<and> k_enabled s \<and> rg_eip rg \<noteq> 0")
    case False
    have "tick sv rg s = Some s"
    proof (cases "1 < length xs")
      case True
      then show ?thesis using False L n(1) i(2) by (simp add: tick_def tasking_tick_def)
    next
      case one: False
      then have "length xs = 1" using i(1) by simp
      then show ?thesis using L n(1,3) i by (auto simp: tick_def tasking_tick_def)
    qed
    then show ?thesis using inv by blast
  next
    case True
    let ?s1 = "saved rg (ts ! i) s"
    have "ts ! i \<in> set ts" using i(1) list_rep_length [OF l] by simp
    then obtain T where "k_tasks s (ts ! i) = Some T" using kern_rep_task [OF rep(1)] by blast
    then have rep1: "kern_rep kheap_inv kheap_used ?s1 xs ts ys us" by (rule kern_rep_saved [OF rep(1)])
    have "\<exists>t \<in> set ts. \<not> blocked_at ?s1 t" using ready_rep [OF rep(1) rdy] by simp
    moreover have "kh.room (roundup16 8192 + 0) (Suc 0) ?s1" using room by (simp add: kh_room kroom_def saved_def roundup16_small)
    moreover have "sv_alloc sv = kalloc" "switch_total sv" using sv by (simp_all add: sound_svc_def)
    ultimately obtain j s' where "task_switch sv ?s1 = Some (j, s')" "kern_rep kheap_inv kheap_used s' xs ts ys us"
      using kh.task_switch_ok [OF rep1] by blast
    then show ?thesis using tasking_tick_round [OF kern_rep_round [OF rep(1)] i, of rg sv "\<lambda>j s. Some s"] True rep(2,3)
      by (auto simp: tick_def kern_inv_def)
  qed
qed

end
