(* ===== verification/Kernel_Frame.thy ===== *)
theory Kernel_Frame
  imports Kernel_Inv
begin

text \<open>
  Changes of the state that keep the invariant of the kernel: fields that it does not speak of, and blocks of
  the heap that no object of the kernel lies in.
\<close>

subsection \<open>Fields\<close>

text \<open>Changes of the state that leave the lists and the links between tasks and processes alone.\<close>

lemma kern_inv_objs:
  assumes "kern_inv s" and ok: "objs_ok kheap_inv kheap_used s'"
    and ls: "ls_nodes (k_ls s') = ls_nodes (k_ls s)" "ls_lists (k_ls s') = ls_lists (k_ls s)"
    and "k_tasks s' = k_tasks s" "k_task_order s' = k_task_order s"
    "k_utsk_list s' = k_utsk_list s" "k_current s' = k_current s" "k_next_pid s' = k_next_pid s"
    and ut: "dom (k_utasks s') = dom (k_utasks s)"
      "\<And>u V. k_utasks s u = Some V \<Longrightarrow> \<exists>V'. k_utasks s' u = Some V' \<and> ut_task V' = ut_task V \<and> ut_pid V' = ut_pid V"
    and bm: "\<And>p bm. k_iobms s p = Some bm \<Longrightarrow> \<exists>bm'. k_iobms s' p = Some bm' \<and> length bm' = length bm"
  shows "kern_inv s'"
proof -
  obtain xs ts ys us where rep: "kern_rep kheap_inv kheap_used s xs ts ys us" "length us < 2 ^ 31" "length xs = Suc (length us)"
    using assms(1) by (auto simp: kern_inv_def)
  have io: "iobm_ok s' t" if h: "iobm_ok s t" for t
  proof -
    obtain T where T: "k_tasks s t = Some T" "t \<noteq> 0" "t_iobm T = 0 \<or> (\<exists>bm. k_iobms s (t_iobm T) = Some bm \<and> length bm = 8192)"
      using h unfolding iobm_ok_def by blast
    from T(3) have "t_iobm T = 0 \<or> (\<exists>bm. k_iobms s' (t_iobm T) = Some bm \<and> length bm = 8192)"
      using bm by fastforce
    then show ?thesis using T(1,2) assms(5) by (simp add: iobm_ok_def)
  qed
  have l: "list_rep (k_ls s') l r zs ds" if "list_rep (k_ls s) l r zs ds" for l r zs ds
    using list_rep_frame [OF that, of "k_ls s'"] ls by simp
  have "kern_rep kheap_inv kheap_used s' xs ts ys us"
    by (rule kern_rep_update [OF rep(1) ok])
      (use rep(1) assms(5-9) io ut l in \<open>simp_all add: kern_rep_def\<close>)
  then show ?thesis using rep(2,3) unfolding kern_inv_def by blast
qed

lemma kern_inv_ok: "kern_inv s \<Longrightarrow> objs_ok kheap_inv kheap_used s"
  by (auto simp: kern_inv_def kern_rep_def)

lemma kern_inv_same:
  assumes "kern_inv s" and "k_ls s' = k_ls s" "k_tasks s' = k_tasks s" "k_task_order s' = k_task_order s"
    "k_utsk_list s' = k_utsk_list s" "k_current s' = k_current s" "k_next_pid s' = k_next_pid s"
    and ut: "dom (k_utasks s') = dom (k_utasks s)"
      "\<And>u V. k_utasks s u = Some V \<Longrightarrow> \<exists>V'. k_utasks s' u = Some V' \<and> ut_task V' = ut_task V \<and> ut_pid V' = ut_pid V \<and>
        ut_recvbuf V' = ut_recvbuf V"
    and bm: "dom (k_iobms s') = dom (k_iobms s)"
      "\<And>p bm. k_iobms s p = Some bm \<Longrightarrow> \<exists>bm'. k_iobms s' p = Some bm' \<and> length bm' = length bm"
  shows "kern_inv s'"
proof -
  have q: "queue_of (k_utasks s') u = queue_of (k_utasks s) u" for u
  proof (cases "k_utasks s u")
    case None
    then have "k_utasks s' u = None" using ut(1) by blast
    then show ?thesis using None by (simp add: queue_of_def)
  next
    case (Some V)
    then show ?thesis using ut(2) [OF Some] by (auto simp: queue_of_def)
  qed
  then have qd: "queued (k_utasks s') = queued (k_utasks s)" by (simp add: queued_def)
  have mb: "mb_ok (ut_recvbuf V')" if h: "queues_ok (k_utasks s)" "k_utasks s' u = Some V'" for u V'
  proof -
    obtain V where V: "k_utasks s u = Some V" using h(2) ut(1) by blast
    then have "ut_recvbuf V' = ut_recvbuf V" using ut(2) [OF V] h(2) by auto
    then show ?thesis using h(1) V unfolding queues_ok_def by simp
  qed
  have qk: "queues_ok (k_utasks s')" if h: "queues_ok (k_utasks s)"
    using h mb [OF h] unfolding queues_ok_def q by blast
  have "objs_ok kheap_inv kheap_used s'"
    using kern_inv_ok [OF assms(1)] by (rule objs_ok_cong) (use assms(2-7) ut(1) bm(1) qd qk in \<open>simp_all add: kinds_def\<close>)
  then show ?thesis by (rule kern_inv_objs [OF assms(1)]) (use assms(2-7) ut bm(2) in \<open>simp_all, blast?\<close>)
qed

lemma kern_inv_plain [simp]:
  "kern_inv (s\<lparr>k_vm := v\<rparr>) \<longleftrightarrow> kern_inv s" "kern_inv (s\<lparr>k_out := o'\<rparr>) \<longleftrightarrow> kern_inv s" "kern_inv (s\<lparr>k_files := fs\<rparr>) \<longleftrightarrow> kern_inv s"
  by (auto elim: kern_inv_same)

lemma kern_inv_state:
  assumes "kern_inv s" and "on_utask p (\<lambda>u. u\<lparr>ut_state := r\<rparr>) s = Some s'"
  shows "kern_inv s'" "\<And>n. spawn_room n s' \<longleftrightarrow> spawn_room n s"
proof -
  obtain u where u: "k_utasks s p = Some u" "s' = s\<lparr>k_utasks := (k_utasks s)(p \<mapsto> u\<lparr>ut_state := r\<rparr>)\<rparr>"
    using assms(2) by (auto simp: on_utask_def opt_simps load_def split: if_splits)
  show "kern_inv s'" by (rule kern_inv_same [OF assms(1)]) (use u in auto)
  show "spawn_room n s' \<longleftrightarrow> spawn_room n s" for n using u by (simp add: spawn_room_def kroom_def)
qed

text \<open>The process table: the numbers given out so far find one process each.\<close>

lemma kern_inv_table:
  assumes "kern_inv s"
  shows "if unat pid < unat (k_next_pid s)
    then \<exists>u U T. user_find pid s = Some u \<and> u \<noteq> 0 \<and> k_utasks s u = Some U \<and> ut_pid U = pid \<and>
      ut_task U \<noteq> 0 \<and> k_tasks s (ut_task U) = Some T \<and> t_parent T = u
    else user_find pid s = Some 0"
proof -
  obtain xs ts ys us where rep: "kern_rep kheap_inv kheap_used s xs ts ys us" "length us < 2 ^ 31"
    using assms by (auto simp: kern_inv_def)
  have n: "unat (k_next_pid s) = length us" using kern_rep_pid [OF rep] .
  have f: "user_find pid s = Some (if unat pid < length us then us ! unat pid else 0)"
    using kern_rep_find [OF rep(1)] rep(2) by simp
  show ?thesis
  proof (cases "unat pid < length us")
    case True
    have pids: "map (pid_of s) us = map of_nat [0..<length us]" using rep(1) by (simp add: kern_rep_def)
    then have "map (pid_of s) us ! unat pid = map of_nat [0..<length us] ! unat pid" by (simp only:)
    then have p: "pid_of s (us ! unat pid) = pid" using True by simp
    have "us ! unat pid \<in> set us" using True by simp
    then obtain U T where "k_utasks s (us ! unat pid) = Some U" "us ! unat pid \<noteq> 0" "ut_task U \<noteq> 0" "k_tasks s (ut_task U) = Some T" "t_parent T = us ! unat pid"
      using kern_rep_proc [OF rep(1)] by blast
    then show ?thesis using f True n p by (auto simp: pid_of_def)
  qed (use f n in simp)
qed

text \<open>Finding a process depends on the numbers only.\<close>

lemma user_find_pid:
  assumes "kern_inv s" and "k_utasks s u = Some U" and "ut_pid U' = ut_pid U"
  shows "user_find pid (s\<lparr>k_utasks := (k_utasks s)(u \<mapsto> U')\<rparr>) = user_find pid s"
proof -
  let ?s = "s\<lparr>k_utasks := (k_utasks s)(u \<mapsto> U')\<rparr>"
  obtain xs ts ys us where rep: "kern_rep kheap_inv kheap_used s xs ts ys us" using assms(1) by (auto simp: kern_inv_def)
  note p = kern_rep_procs [OF rep]
  then have "procs ?s ys us" by (auto simp: procs_def load_def)
  moreover have "pid_of ?s = pid_of s" using assms(2,3) by (auto simp: pid_of_def)
  ultimately show ?thesis using user_find_procs [OF p, of pid] user_find_procs [of ?s ys us pid] by (simp add: the_proc_def)
qed

end
