(* ===== verification/Msg_Inv.thy ===== *)
theory Msg_Inv
  imports Kernel_Frame
begin

text \<open>
  Messages in the invariant of the kernel: a message between its sending and its receipt is an object of the
  kernel, in a block of the heap of its own. Sending, receiving, requesting and freeing buffers keep the
  invariant as long as they do not run into the defects of \<open>Syscall_Props\<close> and \<open>Message\<close>: the queue of the
  receiver has room, the read index of the own queue is within the ring and there is a message to receive, and
  the address freed is not that of an object of the kernel.
\<close>

subsection \<open>Blocks of the heap\<close>

lemma kern_inv_heap:
  assumes "kern_inv s" and "kheap_inv h" and "\<forall>x \<in> objs s. \<exists>m. (unat x, m) \<in> kheap_used h"
  shows "kern_inv (s\<lparr>k_ls := (k_ls s)\<lparr>ls_heap := h\<rparr>\<rparr>)"
proof (rule kern_inv_objs [OF assms(1)])
  have "objs (s\<lparr>k_ls := (k_ls s)\<lparr>ls_heap := h\<rparr>\<rparr>) = objs s" by (simp add: objs_def kinds_def)
  then show "objs_ok kheap_inv kheap_used (s\<lparr>k_ls := (k_ls s)\<lparr>ls_heap := h\<rparr>\<rparr>)"
    using kern_inv_ok [OF assms(1)] assms(2,3) by (simp add: objs_ok_def kinds_def)
qed auto

lemma kern_inv_used: "kern_inv s \<Longrightarrow> x \<in> objs s \<Longrightarrow> \<exists>m. (unat x, m) \<in> kheap_used (ls_heap (k_ls s))"
  using kern_inv_ok by (auto simp: objs_ok_def)

lemma kern_inv_alloc:
  assumes "kern_inv s" and "sv_alloc sv = kalloc" and "n \<noteq> 0" and "kroom (roundup16 (unat n)) 1 s"
  shows "\<exists>p h. k_alloc sv n s = Some (p, s\<lparr>k_ls := (k_ls s)\<lparr>ls_heap := h\<rparr>\<rparr>) \<and> p \<noteq> 0 \<and> p \<notin> objs s \<and>
    kern_inv (s\<lparr>k_ls := (k_ls s)\<lparr>ls_heap := h\<rparr>\<rparr>) \<and> (\<exists>m. (unat p, m) \<in> kheap_used h)"
proof -
  have r: "roundup16 (unat n) \<le> kheap_bytes_left (ls_heap (k_ls s))" "0 < kheap_allocs_left (ls_heap (k_ls s))"
    using assms(4) by (simp_all add: kroom_def)
  obtain p h where p: "k_alloc sv n s = Some (p, s\<lparr>k_ls := (k_ls s)\<lparr>ls_heap := h\<rparr>\<rparr>)" "p \<noteq> 0" "p \<notin> objs s"
    "objs_ok kheap_inv kheap_used (s\<lparr>k_ls := (k_ls s)\<lparr>ls_heap := h\<rparr>\<rparr>)" "\<exists>m. (unat p, m) \<in> kheap_used h"
    using kh.k_alloc_ok [OF kern_inv_ok [OF assms(1)] assms(2,3) r] by blast
  have "kern_inv (s\<lparr>k_ls := (k_ls s)\<lparr>ls_heap := h\<rparr>\<rparr>)" by (rule kern_inv_objs [OF assms(1) p(4)]) auto
  then show ?thesis using p by blast
qed

lemma kern_inv_free:
  assumes "kern_inv s" and "sv_free sv = kfree" and "p \<notin> objs s" and "k_free sv p s = Some s'"
  shows "kern_inv s'"
proof -
  let ?h = "ls_heap (k_ls s)"
  have i: "kheap_inv ?h" using kern_inv_ok [OF assms(1)] by (simp add: objs_ok_def)
  obtain h where h: "kfree p ?h = Some h" "kheap_inv h" "kheap_used h = {x \<in> kheap_used ?h. fst x \<noteq> unat p}"
    using kfree_any [OF i] by blast
  have "\<forall>x \<in> objs s. \<exists>m. (unat x, m) \<in> kheap_used h"
  proof
    fix x assume x: "x \<in> objs s"
    then obtain m where "(unat x, m) \<in> kheap_used ?h" using kern_inv_used [OF assms(1)] by blast
    moreover have "unat x \<noteq> unat p" using word_unat_eq_iff [of x p] x assms(3) by auto
    ultimately show "\<exists>m. (unat x, m) \<in> kheap_used h" using h(3) by auto
  qed
  then show ?thesis using kern_inv_heap [OF assms(1) h(2)] assms(2,4) h(1) by (auto simp: k_free_def)
qed

text \<open>The store of messages is shared with the memory of the processes: what it holds does not matter.\<close>

lemma kern_inv_msgs [simp]: "kern_inv (s\<lparr>k_msgs := ms\<rparr>) \<longleftrightarrow> kern_inv s"
  by (auto elim: kern_inv_same)

lemma objs_msgs [simp]: "objs (s\<lparr>k_msgs := ms\<rparr>) = objs s" "objs (s\<lparr>k_vm := v\<rparr>) = objs s" "objs (s\<lparr>k_enabled := b\<rparr>) = objs s"
  by (simp_all add: objs_def kinds_def)

lemma kern_inv_enabled [simp]: "kern_inv (s\<lparr>k_enabled := e\<rparr>) \<longleftrightarrow> kern_inv s"
  by (auto elim: kern_inv_same)

subsection \<open>Queues\<close>

lemma queues_push:
  assumes "queues_ok us" and "us u = Some U" and "m \<notin> queued us" and "mb_ok b" and "mb_items b = mb_items (ut_recvbuf U) @ [m]"
  shows "queues_ok (us(u \<mapsto> U\<lparr>ut_recvbuf := b\<rparr>))" "queued (us(u \<mapsto> U\<lparr>ut_recvbuf := b\<rparr>)) = insert m (queued us)"
proof -
  let ?us = "us(u \<mapsto> U\<lparr>ut_recvbuf := b\<rparr>)"
  have q: "queue_of ?us v = queue_of us v @ (if v = u then [m] else [])" for v
    using assms(2,5) by (simp add: queue_of_def)
  have m: "m \<notin> set (queue_of us v)" for v using assms(3) by (auto simp: queued_def)
  show "queued ?us = insert m (queued us)" unfolding queued_def q by (auto split: if_splits)
  have "mb_ok (ut_recvbuf V)" if "?us v = Some V" for v V
    using that assms(1,4) by (auto simp: queues_ok_def split: if_splits)
  moreover have "distinct (queue_of ?us v)" for v using assms(1) m unfolding q by (simp add: queues_ok_def)
  moreover have "set (queue_of ?us v) \<inter> set (queue_of ?us w) = {}" if "v \<noteq> w" for v w
  proof -
    have "set (queue_of us v) \<inter> set (queue_of us w) = {}" using assms(1) that by (simp add: queues_ok_def)
    then show ?thesis using m that unfolding q by auto
  qed
  ultimately show "queues_ok ?us" unfolding queues_ok_def by blast
qed

lemma queues_pop:
  assumes "queues_ok us" and "us u = Some U" and "mb_items (ut_recvbuf U) = m # q" and "mb_ok b" and "mb_items b = q"
  shows "queues_ok (us(u \<mapsto> U\<lparr>ut_recvbuf := b\<rparr>))" "queued (us(u \<mapsto> U\<lparr>ut_recvbuf := b\<rparr>)) = queued us - {m}"
proof -
  let ?us = "us(u \<mapsto> U\<lparr>ut_recvbuf := b\<rparr>)"
  have q: "queue_of ?us v = (if v = u then q else queue_of us v)" for v using assms(5) by (simp add: queue_of_def)
  have u: "queue_of us u = m # q" using assms(2,3) by (simp add: queue_of_def)
  have d: "distinct (m # q)" using assms(1) u unfolding queues_ok_def by metis
  have sep: "set (queue_of us v) \<inter> set (queue_of us w) = {}" if "v \<noteq> w" for v w using assms(1) that by (auto simp: queues_ok_def)
  have m: "m \<notin> set (queue_of us v)" if "v \<noteq> u" for v using sep [OF that] u by auto
  have other: "set q \<inter> set (queue_of us v) = {}" if "v \<noteq> u" for v using sep [OF that] u by auto
  show "queued ?us = queued us - {m}"
  proof (rule set_eqI)
    fix x
    have un: "x \<in> queued vs \<longleftrightarrow> x \<in> set (queue_of vs u) \<or> (\<exists>v. v \<noteq> u \<and> x \<in> set (queue_of vs v))" for vs
      unfolding queued_def by auto
    have "x \<in> queued ?us \<longleftrightarrow> x \<in> set q \<or> (\<exists>v. v \<noteq> u \<and> x \<in> set (queue_of us v))" unfolding un q by auto
    also have "\<dots> \<longleftrightarrow> (x \<in> set (m # q) \<or> (\<exists>v. v \<noteq> u \<and> x \<in> set (queue_of us v))) \<and> x \<noteq> m" using d m by auto
    also have "\<dots> \<longleftrightarrow> x \<in> queued us - {m}" using u by (simp add: un)
    finally show "x \<in> queued ?us \<longleftrightarrow> x \<in> queued us - {m}" .
  qed
  have "mb_ok (ut_recvbuf V)" if "?us v = Some V" for v V
    using that assms(1,4) by (auto simp: queues_ok_def split: if_splits)
  moreover have "distinct (queue_of ?us v)" for v using assms(1) d unfolding q by (auto simp: queues_ok_def)
  moreover have "set (queue_of ?us v) \<inter> set (queue_of ?us w) = {}" if "v \<noteq> w" for v w
    using sep [OF that] other that unfolding q by auto
  ultimately show "queues_ok ?us" unfolding queues_ok_def by blast
qed

lemma kern_inv_recvbuf:
  assumes "kern_inv s" and u: "k_utasks s u = Some U" and q: "queues_ok ((k_utasks s)(u \<mapsto> U\<lparr>ut_recvbuf := b\<rparr>))"
    and qd: "queued ((k_utasks s)(u \<mapsto> U\<lparr>ut_recvbuf := b\<rparr>)) \<subseteq> insert m (queued (k_utasks s))"
    and m: "m \<in> queued ((k_utasks s)(u \<mapsto> U\<lparr>ut_recvbuf := b\<rparr>)) \<longrightarrow> m \<notin> objs s \<and> (\<exists>k. (unat m, k) \<in> kheap_used (ls_heap (k_ls s)))"
  shows "kern_inv (s\<lparr>k_utasks := (k_utasks s)(u \<mapsto> U\<lparr>ut_recvbuf := b\<rparr>)\<rparr>)"
proof (rule kern_inv_objs [OF assms(1)])
  let ?s = "s\<lparr>k_utasks := (k_utasks s)(u \<mapsto> U\<lparr>ut_recvbuf := b\<rparr>)\<rparr>" and ?q = "queued ((k_utasks s)(u \<mapsto> U\<lparr>ut_recvbuf := b\<rparr>))"
  have ok: "objs_ok kheap_inv kheap_used s" using kern_inv_ok [OF assms(1)] .
  have d: "dom ((k_utasks s)(u \<mapsto> U\<lparr>ut_recvbuf := b\<rparr>)) = dom (k_utasks s)" using u by auto
  let ?k = "[dom (ls_nodes (k_ls s)), dom (ls_lists (k_ls s)), dom (k_tasks s), dom (k_utasks s), dom (k_iobms s)]"
  have k: "kinds s = ?k @ [queued (k_utasks s)]" "kinds ?s = ?k @ [?q]" using d by (simp_all add: kinds_def)
  have "\<forall>A \<in> set ?k. A \<inter> ?q = {}"
  proof
    fix A assume A: "A \<in> set ?k"
    then have "A \<inter> queued (k_utasks s) = {}" using ok by (auto simp: objs_ok_def kinds_def)
    moreover have "A \<subseteq> objs s" using A by (auto simp: objs_def k(1))
    ultimately show "A \<inter> ?q = {}" using qd m by blast
  qed
  moreover have "separate ?k" using ok unfolding objs_ok_def k(1) by simp
  ultimately have "separate (kinds ?s)" unfolding k(2) by simp
  moreover have "objs ?s \<subseteq> insert m (objs s)" using qd by (auto simp: objs_def k)
  moreover have "m \<in> objs ?s \<longrightarrow> (\<exists>k. (unat m, k) \<in> kheap_used (ls_heap (k_ls s)))"
    using m ok by (auto simp: objs_def k objs_ok_def)
  ultimately show "objs_ok kheap_inv kheap_used ?s" using ok q by (fastforce simp: objs_ok_def)
qed (use u in auto)

lemma kern_inv_push:
  assumes "kern_inv s" and "k_utasks s u = Some U" and "m \<notin> objs s" and "\<exists>k. (unat m, k) \<in> kheap_used (ls_heap (k_ls s))"
    and "length (mb_items (ut_recvbuf U)) < MSG_MAXCOUNT"
  shows "\<exists>b. message_push (ut_recvbuf U) m = Some (0, b) \<and> mb_ok b \<and> mb_items b = mb_items (ut_recvbuf U) @ [m] \<and>
    mb_reads_left b = mb_reads_left (ut_recvbuf U) \<and>
    kern_inv (s\<lparr>k_utasks := (k_utasks s)(u \<mapsto> U\<lparr>ut_recvbuf := b\<rparr>)\<rparr>)"
proof -
  have q: "queues_ok (k_utasks s)" using kern_inv_ok [OF assms(1)] by (simp add: objs_ok_def)
  then have ok: "mb_ok (ut_recvbuf U)" using assms(2) by (auto simp: queues_ok_def)
  have n: "m \<notin> queued (k_utasks s)" using assms(3) by (simp add: objs_def kinds_def)
  obtain b where b: "message_push (ut_recvbuf U) m = Some (0, b)" "mb_ok b" "mb_items b = mb_items (ut_recvbuf U) @ [m]"
    "mb_reads_left b = mb_reads_left (ut_recvbuf U)"
    using message_push_room [OF ok] assms(5) by auto
  note p = queues_push [OF q assms(2) n b(2,3)]
  have "kern_inv (s\<lparr>k_utasks := (k_utasks s)(u \<mapsto> U\<lparr>ut_recvbuf := b\<rparr>)\<rparr>)"
    by (rule kern_inv_recvbuf [OF assms(1,2) p(1)]) (use p(2) assms(3,4) in auto)
  then show ?thesis using b by blast
qed

lemma kern_inv_pop:
  assumes "kern_inv s" and "k_utasks s u = Some U" and "mb_items (ut_recvbuf U) = m # q" and "0 < mb_reads_left (ut_recvbuf U)"
  shows "\<exists>b. message_pop (ut_recvbuf U) = Some (m, b) \<and> mb_items b = q \<and> m \<noteq> 0 \<and>
    (\<exists>k. (unat m, k) \<in> kheap_used (ls_heap (k_ls s))) \<and>
    kern_inv (s\<lparr>k_utasks := (k_utasks s)(u \<mapsto> U\<lparr>ut_recvbuf := b\<rparr>)\<rparr>) \<and>
    m \<notin> objs (s\<lparr>k_utasks := (k_utasks s)(u \<mapsto> U\<lparr>ut_recvbuf := b\<rparr>)\<rparr>)"
proof -
  have ok: "objs_ok kheap_inv kheap_used s" using kern_inv_ok [OF assms(1)] .
  then have q: "queues_ok (k_utasks s)" by (simp add: objs_ok_def)
  then have mb: "mb_ok (ut_recvbuf U)" using assms(2) by (auto simp: queues_ok_def)
  obtain b where b: "message_pop (ut_recvbuf U) = Some (m, b)" "mb_ok b" "mb_items b = q"
    using message_pop_item [OF mb assms(3,4)] by blast
  note p = queues_pop [OF q assms(2,3) b(2,3)]
  have k: "kern_inv (s\<lparr>k_utasks := (k_utasks s)(u \<mapsto> U\<lparr>ut_recvbuf := b\<rparr>)\<rparr>)"
    by (rule kern_inv_recvbuf [OF assms(1,2) p(1), of m]) (use p(2) in auto)
  have mq: "m \<in> queued (k_utasks s)" using assms(2,3) by (auto simp: queued_def queue_of_def intro!: exI [of _ u])
  then have "m \<in> objs s" by (simp add: objs_def kinds_def)
  then obtain j where j: "(unat m, j) \<in> kheap_used (ls_heap (k_ls s))" using ok by (auto simp: objs_ok_def)
  then have "m \<noteq> 0" using ok kh.used_pos [of "ls_heap (k_ls s)" "unat m" j] by (auto simp: objs_ok_def)
  moreover have "\<forall>A \<in> set (butlast (kinds s)). m \<notin> A" using ok mq by (auto simp: objs_ok_def kinds_def)
  then have "m \<notin> objs (s\<lparr>k_utasks := (k_utasks s)(u \<mapsto> U\<lparr>ut_recvbuf := b\<rparr>)\<rparr>)"
    using p(2) assms(2) by (auto simp: objs_def kinds_def)
  ultimately show ?thesis using b k j by blast
qed

subsection \<open>The calls for messages\<close>

text \<open>The queue of a process has room; that of the caller has been read less than \<open>MSG_MAXCOUNT\<close> times.\<close>

definition queue_room :: "u32 \<Rightarrow> 'v ksys \<Rightarrow> bool" where
  "queue_room pid s \<longleftrightarrow> (\<forall>u U. user_find pid s = Some u \<longrightarrow> k_utasks s u = Some U \<longrightarrow>
     length (mb_items (ut_recvbuf U)) < MSG_MAXCOUNT)"

definition readable :: "'v ksys \<Rightarrow> bool" where
  "readable s \<longleftrightarrow> (\<forall>u U. cur_utask s = Some u \<longrightarrow> k_utasks s u = Some U \<longrightarrow> 0 < mb_reads_left (ut_recvbuf U))"

definition has_mail :: "'v ksys \<Rightarrow> bool" where
  "has_mail s \<longleftrightarrow> (\<forall>u U. cur_utask s = Some u \<longrightarrow> k_utasks s u = Some U \<longrightarrow> mb_items (ut_recvbuf U) \<noteq> [])"

lemma on_utask_Some: "on_utask p f s = Some s' \<Longrightarrow> \<exists>V. k_utasks s p = Some V \<and> s' = s\<lparr>k_utasks := (k_utasks s)(p \<mapsto> f V)\<rparr>"
  by (auto simp: on_utask_def opt_simps)

lemma recv_push_keeps:
  assumes "kern_inv s" and "recv_push u m s = Some s'" and "m \<notin> objs s" and "\<exists>k. (unat m, k) \<in> kheap_used (ls_heap (k_ls s))"
    and "\<And>U. k_utasks s u = Some U \<Longrightarrow> length (mb_items (ut_recvbuf U)) < MSG_MAXCOUNT"
  shows "kern_inv s'"
proof -
  obtain U where U: "k_utasks s u = Some U" using assms(2) by (auto simp: recv_push_def opt_simps)
  then show ?thesis using kern_inv_push [OF assms(1) U assms(3,4,5)] assms(2)
    by (auto simp: recv_push_def on_utask_def opt_simps)
qed

lemma recv_pop_keeps:
  assumes "kern_inv s" and "recv_pop u s = Some (m, s')" and "k_utasks s u = Some U" and "mb_items (ut_recvbuf U) \<noteq> []"
    and "0 < mb_reads_left (ut_recvbuf U)"
  shows "kern_inv s'" "m \<notin> objs s'"
proof -
  obtain x q where x: "mb_items (ut_recvbuf U) = x # q" using assms(4) by (cases "mb_items (ut_recvbuf U)") auto
  show "kern_inv s'" "m \<notin> objs s'" using kern_inv_pop [OF assms(1,3) x assms(5)] assms(2,3)
    by (auto simp: recv_pop_def on_utask_def opt_simps)
qed

lemma async_send_keeps:
  assumes inv: "kern_inv s" and run: "message_async_send sv rg env msg s = Some (r, s')"
    and msg: "msg \<notin> objs s" "\<exists>k. (unat msg, k) \<in> kheap_used (ls_heap (k_ls s))"
    and room: "\<And>m. k_msgs s msg = Some m \<Longrightarrow> queue_room (dst m) s"
  shows "kern_inv s'"
proof -
  obtain m stsk dtsk where m: "load (k_msgs s) msg = Some m" "user_find (src m) s = Some stsk" "user_find (dst m) s = Some dtsk"
    using run by (auto simp: message_async_send_def opt_simps(1-4) Option.bind_eq_Some_conv)
  show ?thesis
  proof (cases "s' = s")
    case False
    let ?s1 = "tasking_disable s"
    have vm: "k_utasks ?s1 = k_utasks s" "k_msgs ?s1 = k_msgs s" "k_ls ?s1 = k_ls s" by (simp_all add: tasking_disable_def)
    have d: "dtsk \<noteq> 0" using run m False by (auto simp: message_async_send_def)
    obtain us where us: "load (k_utasks s) stsk = Some us"
      using run m d by (cases "load (k_utasks s) stsk") (simp_all add: message_async_send_def)
    have ack: "\<not> ut_msg_ack us" using run m d us False by (auto simp: message_async_send_def)
    obtain ud where ud: "load (k_utasks s) dtsk = Some ud"
      using run m d us ack by (cases "load (k_utasks s) dtsk") (simp_all add: message_async_send_def Let_def vm)
    have U: "k_utasks s dtsk = Some ud" "k_msgs s msg = Some m" using ud m(1) by (simp_all add: opt_simps)
    then have l: "length (mb_items (ut_recvbuf ud)) < MSG_MAXCOUNT" using room m(3) by (auto simp: queue_room_def)
    have e: "message_async_send sv rg env msg s = do { s3 \<leftarrow> recv_push dtsk msg ?s1; m1 \<leftarrow> load (k_msgs s3) msg;
        b \<leftarrow> user_isblocked (dst m1) s3; s4 \<leftarrow> (if b then user_awake (dst m1) s3 else Some s3); Some (0, tasking_enable s4) }"
      using m d us ack ud l by (simp add: message_async_send_def Let_def vm)
    from run [unfolded e] obtain s3 m1 b s4 where h: "recv_push dtsk msg ?s1 = Some s3"
      "load (k_msgs s3) msg = Some m1" "user_isblocked (dst m1) s3 = Some b" "(if b then user_awake (dst m1) s3 else Some s3) = Some s4"
      "Some (0, tasking_enable s4) = Some (r, s')"
      unfolding Option.bind_eq_Some_conv by blast
    have "kern_inv ?s1" using inv by (simp add: tasking_disable_def)
    then have "kern_inv s3"
      by (rule recv_push_keeps [OF _ h(1)]) (use msg l U in \<open>auto simp: tasking_disable_def\<close>)
    then have "kern_inv s4" using h(4) kern_inv_set_blocked [of s3 False "dst m1"]
      by (auto simp: user_awake_def split: if_splits)
    then show ?thesis using h(5) by (auto simp: tasking_enable_def)
  qed (use inv in simp)
qed

lemma find_same [simp]: "user_find pid (s\<lparr>k_msgs := ms\<rparr>) = user_find pid s" "user_find pid (s\<lparr>k_vm := v\<rparr>) = user_find pid s"
  "user_find pid (s\<lparr>k_ls := (k_ls s)\<lparr>ls_heap := h\<rparr>\<rparr>) = user_find pid s" "user_find pid (s\<lparr>k_enabled := e\<rparr>) = user_find pid s"
  by (simp_all add: user_find_def)

lemma async_recv_keeps:
  assumes inv: "kern_inv s" and run: "message_async_recv sv rg env s = Some (m, s')" and "readable s" "has_mail s"
  shows "kern_inv s'" "m \<notin> objs s'"
proof -
  let ?s1 = "tasking_disable s"
  have e: "cur_utask ?s1 = cur_utask s" "k_utasks ?s1 = k_utasks s" by (simp_all add: tasking_disable_def cur_utask_def cur_task_def)
  obtain u where u: "cur_utask s = Some u" using run e by (cases "cur_utask s") (simp_all add: message_async_recv_def)
  obtain U where U: "load (k_utasks s) u = Some U" using run e u by (cases "load (k_utasks s) u") (simp_all add: message_async_recv_def)
  then have kU: "k_utasks s u = Some U" by (simp add: opt_simps)
  have q: "mb_items (ut_recvbuf U) \<noteq> []" "0 < mb_reads_left (ut_recvbuf U)"
    using assms(3,4) u kU by (auto simp: readable_def has_mail_def)
  then have "mb_count (ut_recvbuf U) \<noteq> 0" by (auto simp: mb_items_def)
  then have r: "message_async_recv sv rg env s = do { (msg, s3) \<leftarrow> recv_pop u ?s1; Some (msg, tasking_enable s3) }"
    using u U e by (simp add: message_async_recv_def)
  from run [unfolded r] obtain s3 where s3: "recv_pop u ?s1 = Some (m, s3)" "s' = tasking_enable s3"
    by (auto simp: Option.bind_eq_Some_conv)
  have "kern_inv ?s1" using inv by (simp add: tasking_disable_def)
  from recv_pop_keeps [OF this s3(1) _ q] kU e show "kern_inv s'" "m \<notin> objs s'"
    using s3(2) by (simp_all add: tasking_enable_def)
qed

lemma async_poll_keeps:
  assumes inv: "kern_inv s" and run: "message_async_recv_poll s = Some (m, s')" and "readable s"
  shows "kern_inv s'" "m \<noteq> 0 \<longrightarrow> m \<notin> objs s'"
proof -
  let ?s1 = "tasking_disable s"
  have e: "cur_utask ?s1 = cur_utask s" "k_utasks ?s1 = k_utasks s" by (simp_all add: tasking_disable_def cur_utask_def cur_task_def)
  obtain u where u: "cur_utask s = Some u" using run e by (cases "cur_utask s") (simp_all add: message_async_recv_poll_def)
  from run u e obtain s3 where s3: "recv_pop u ?s1 = Some (m, s3)" "s' = tasking_enable s3"
    by (auto simp: message_async_recv_poll_def Option.bind_eq_Some_conv)
  obtain U where kU: "k_utasks s u = Some U" using s3(1) e by (auto simp: recv_pop_def opt_simps)
  have k1: "kern_inv ?s1" using inv by (simp add: tasking_disable_def)
  have "kern_inv s3 \<and> (m \<noteq> 0 \<longrightarrow> m \<notin> objs s3)"
  proof (cases "mb_items (ut_recvbuf U) = []")
    case True
    have "u \<noteq> 0" using s3(1) by (auto simp: recv_pop_def opt_simps)
    then have "recv_pop u ?s1 = Some (0, ?s1\<lparr>k_utasks := (k_utasks s)(u \<mapsto> U)\<rparr>)"
      using kU e message_pop_empty [OF True] by (simp add: recv_pop_def on_utask_def load_def)
    moreover have "(k_utasks s)(u \<mapsto> U) = k_utasks s" using kU by auto
    ultimately have "m = 0" "s3 = ?s1\<lparr>k_utasks := k_utasks s\<rparr>" using s3(1) by simp_all
    then show ?thesis using k1 by (simp add: tasking_disable_def)
  next
    case False
    have "0 < mb_reads_left (ut_recvbuf U)" using assms(3) u kU by (auto simp: readable_def)
    then show ?thesis using recv_pop_keeps [OF k1 s3(1) _ False] kU e by simp
  qed
  then show "kern_inv s'" "m \<noteq> 0 \<longrightarrow> m \<notin> objs s'" using s3(2) by (simp_all add: tasking_enable_def)
qed

lemma msg_deliver_keeps:
  assumes "kern_inv s" and "sv_free sv = kfree" and "m \<notin> objs s" and "msg_deliver sv f m msg s = Some (r, s')"
  shows "kern_inv s'"
proof -
  from assms(4) obtain km v s2 where h: "k_free sv m (s\<lparr>k_vm := v, k_msgs := (k_msgs s)(msg \<mapsto> km)\<rparr>) = Some s2"
    "s' = s2\<lparr>k_msgs := (k_msgs s2)(m := None)\<rparr>"
    by (auto simp: msg_deliver_def Option.bind_eq_Some_conv Let_def)
  have "kern_inv s2" by (rule kern_inv_free [OF _ assms(2) _ h(1)]) (use assms(1,3) in \<open>simp_all add: kern_inv_plain\<close>)
  then show ?thesis using h(2) by simp
qed

lemma msg_recv_keeps:
  assumes "kern_inv s" and "sound_svc sv" and "readable s" and "has_mail s" and "syscall_msg_recv sv rg env msg s = Some (r, s')"
  shows "kern_inv s'"
proof (cases "msg = 0")
  case False
  then obtain m s1 where h: "message_async_recv sv rg env s = Some (m, s1)" "msg_deliver sv 7 m msg s1 = Some (r, s')"
    using assms(5) by (auto simp: syscall_msg_recv_def Option.bind_eq_Some_conv)
  then show ?thesis using msg_deliver_keeps async_recv_keeps [OF assms(1) h(1) assms(3,4)] assms(2) by (auto simp: sound_svc_def)
qed (use assms in \<open>simp add: syscall_msg_recv_def\<close>)

lemma msg_poll_keeps:
  assumes "kern_inv s" and "sound_svc sv" and "readable s" and "syscall_msg_poll sv msg s = Some (r, s')"
  shows "kern_inv s'"
proof (cases "msg = 0")
  case False
  then obtain m s1 where h: "message_async_recv_poll s = Some (m, s1)"
    "(if m = 0 then Some (-2, s1) else msg_deliver sv 5 m msg s1) = Some (r, s')"
    using assms(4) by (auto simp: syscall_msg_poll_def Option.bind_eq_Some_conv)
  then show ?thesis using msg_deliver_keeps async_poll_keeps [OF assms(1) h(1) assms(3)] assms(2)
    by (auto simp: sound_svc_def split: if_splits)
qed (use assms in \<open>simp add: syscall_msg_poll_def\<close>)

lemma msg_send_keeps:
  assumes inv: "kern_inv s" and sv: "sound_svc sv" and room: "kroom 32 1 s" "queue_room pid s"
    and run: "syscall_msg_send sv rg env msg pid s = Some (r, s')"
  shows "kern_inv s'"
proof (cases "s' = s")
  case False
  have al: "sv_alloc sv = kalloc" using sv by (simp add: sound_svc_def)
  obtain m p where m: "load (k_msgs s) msg = Some m" "cur_utask s = Some p" "msg \<noteq> 0"
    using run False by (auto simp: syscall_msg_send_def Option.bind_eq_Some_conv split: if_split_asm)
  have sz: "\<not> 0xFF000 \<le> msgsz m" using run m False by (auto simp: syscall_msg_send_def)
  obtain u where u: "load (k_utasks s) p = Some u"
    using run m sz by (cases "load (k_utasks s) p") (simp_all add: syscall_msg_send_def)
  let ?m1 = "m\<lparr>src := ut_pid u, dst := pid\<rparr>"
  let ?s1 = "s\<lparr>k_msgs := (k_msgs s)(msg \<mapsto> ?m1)\<rparr>"
  have k1: "kern_inv ?s1" using inv by simp
  have "kroom (roundup16 (unat (20 :: u32))) 1 ?s1" using room(1) by (simp add: kroom_def roundup16_def)
  then obtain k h where k: "k_alloc sv 20 ?s1 = Some (k, ?s1\<lparr>k_ls := (k_ls ?s1)\<lparr>ls_heap := h\<rparr>\<rparr>)" "k \<noteq> 0" "k \<notin> objs ?s1"
    "kern_inv (?s1\<lparr>k_ls := (k_ls ?s1)\<lparr>ls_heap := h\<rparr>\<rparr>)" "\<exists>j. (unat k, j) \<in> kheap_used h"
    using kern_inv_alloc [OF k1 al, of 20] by auto
  let ?s2 = "?s1\<lparr>k_ls := (k_ls ?s1)\<lparr>ls_heap := h\<rparr>\<rparr>"
  let ?s3 = "?s2\<lparr>k_msgs := (k_msgs ?s2)(k \<mapsto> ?m1)\<rparr>"
  have e: "syscall_msg_send sv rg env msg pid s = do {
      v \<leftarrow> page_loop (\<lambda>i v. sv_remappg sv 0 (i + dat ?m1) 0 v) 0 (msgsz ?m1) (k_vm ?s3);
      (r, s4) \<leftarrow> message_async_send sv rg env k (?s3\<lparr>k_vm := v\<rparr>);
      Some (0, s4) }"
    using m sz u k(1,2) by (simp add: syscall_msg_send_def Let_def)
  from run [unfolded e] obtain v r1 where v: "message_async_send sv rg env k (?s3\<lparr>k_vm := v\<rparr>) = Some (r1, s')"
    by (auto simp: Option.bind_eq_Some_conv)
  let ?s4 = "?s3\<lparr>k_vm := v\<rparr>"
  have "kern_inv ?s4" using k(4) by (simp only: kern_inv_plain kern_inv_msgs)
  then show ?thesis
  proof (rule async_send_keeps [OF _ v])
    show "k \<notin> objs ?s4" using k(3) by (simp add: objs_def kinds_def)
    show "\<exists>j. (unat k, j) \<in> kheap_used (ls_heap (k_ls ?s4))" using k(5) by simp
    show "queue_room (dst m') ?s4" if "k_msgs ?s4 k = Some m'" for m'
      using that room(2) by (auto simp: queue_room_def)
  qed
qed (use inv in simp)

lemma msg_req_keeps:
  assumes inv: "kern_inv s" and sv: "sound_svc sv" and room: "kroom 0x101000 2 s"
    and run: "syscall_msg_req sv n msg s = Some (r, s')"
  shows "kern_inv s'"
proof (cases "s' = s")
  case False
  let ?z = "((n + 0xFFF) div 0x1000) * 0x1000" and ?h = "ls_heap (k_ls s)"
  have i: "kheap_inv ?h" using kern_inv_ok [OF inv] by (simp add: objs_ok_def)
  have n: "n \<le> 0xFF000" using run False by (auto simp: syscall_msg_req_def Option.bind_eq_Some_conv split: if_split_asm)
  have z: "unat ?z \<le> 0xFF000"
  proof -
    have "unat n \<le> 0xFF000" using n by (simp add: word_le_nat_alt)
    moreover from this have "unat (n + 0xFFF) = unat n + 0xFFF" by (simp add: unat_word_ariths)
    ultimately have "unat ((n + 0xFFF) div 0x1000) \<le> 0xFF" by (simp add: unat_div)
    then show ?thesis by (simp add: unat_word_ariths)
  qed
  have al: "\<exists>p h'. kalloc_a ?z 0x1000 ?h = Some (p, h') \<and> kheap_inv h' \<and> kheap_used ?h \<subseteq> kheap_used h'"
  proof (cases "?z = 0")
    case True
    then show ?thesis using i by (simp only: kalloc_a_def if_True) simp
  next
    case nz: False
    have "roundup16 (unat ?z) \<le> unat ?z + 15" by (simp add: roundup16_def)
    then have "unat (0x1000 :: u32) + roundup16 (unat ?z) \<le> kheap_bytes_left ?h" "2 \<le> kheap_allocs_left ?h"
      using z room by (simp_all add: kroom_def)
    from kalloc_a_inv [OF i nz _ _ this] show ?thesis by auto
  qed
  then obtain p h' where h': "kalloc_a ?z 0x1000 ?h = Some (p, h')" "kheap_inv h'" "kheap_used ?h \<subseteq> kheap_used h'" by blast
  have sa: "sv_alloc_a sv = kalloc_a" using sv by (simp add: sound_svc_def)
  obtain ms v where s': "s' = s\<lparr>k_ls := (k_ls s)\<lparr>ls_heap := h'\<rparr>, k_msgs := ms, k_vm := v\<rparr>"
    using run n False h'(1) sa
    by (auto simp: syscall_msg_req_def Let_def Option.bind_eq_Some_conv split: if_split_asm)
  have "kern_inv (s\<lparr>k_ls := (k_ls s)\<lparr>ls_heap := h'\<rparr>\<rparr>)"
    by (rule kern_inv_heap [OF inv h'(2)]) (use kern_inv_used [OF inv] h'(3) in blast)
  then show ?thesis unfolding s' by (simp add: kern_inv_plain)
qed (use inv in simp)

lemma msg_free_keeps:
  assumes "kern_inv s" and "sound_svc sv" and "\<And>m. k_msgs s msg = Some m \<Longrightarrow> kdat m \<notin> objs s"
    and "syscall_msg_free sv msg s = Some (r, s')"
  shows "kern_inv s'"
proof (cases "s' = s")
  case False
  then obtain m where m: "k_msgs s msg = Some m" "k_free sv (kdat m) s = Some s'"
    using assms(4) by (auto simp: syscall_msg_free_def Option.bind_eq_Some_conv load_def split: if_split_asm)
  show ?thesis by (rule kern_inv_free [OF assms(1) _ assms(3) [OF m(1)] m(2)]) (use assms(2) in \<open>simp add: sound_svc_def\<close>)
qed (use assms(1) in simp)

end
