(* ===== verification/Syscall_Inv.thy ===== *)
theory Syscall_Inv
  imports Msg_Inv
begin

text \<open>
  Every system call keeps the invariant of the kernel, whatever its arguments, as long as there is room for
  what it allocates and a call for messages does not run into the defects of the queue.
\<close>

subsection \<open>One call\<close>

lemma set_port_length: "set_port v i bm = Some bm' \<Longrightarrow> length bm' = length bm"
  by (auto simp: set_port_def opt_simps)

lemma port_loop_length: "port_loop v is bm = Some bm' \<Longrightarrow> length bm' = length bm"
  by (induction v "is" bm rule: port_loop.induct) (auto simp: opt_simps dest: set_port_length)

lemma kern_inv_iobm:
  assumes "kern_inv s" and "k_iobms s p = Some bm" and "length bm' = length bm"
  shows "kern_inv (s\<lparr>k_iobms := (k_iobms s)(p \<mapsto> bm')\<rparr>)"
  by (rule kern_inv_same [OF assms(1)]) (use assms(2,3) in auto)

lemma io_ports_state:
  assumes "io_ports v b n s = Some (r, s')"
  obtains "s' = s" | p bm bm' where "k_iobms s p = Some bm" "port_loop v [unat b..<unat b + unat n] bm = Some bm'"
    "s' = s\<lparr>k_iobms := (k_iobms s)(p \<mapsto> bm')\<rparr>"
  using assms unfolding io_ports_def by (auto simp: opt_simps split: if_splits)

lemma io_ports_keeps: "kern_inv s \<Longrightarrow> io_ports v b n s = Some (r, s') \<Longrightarrow> kern_inv s'"
  by (erule io_ports_state) (auto intro: kern_inv_iobm port_loop_length)

lemma spawn_keeps:
  "kern_inv s \<Longrightarrow> sound_svc sv \<Longrightarrow> n \<noteq> 0 \<Longrightarrow> spawn_room (unat n) s \<Longrightarrow> user_spawn sv half f d n perms s = Some (u, s') \<Longrightarrow> kern_inv s'"
  using kern_inv_spawn [of s sv n half f d perms] by auto

lemma fork_keeps: "kern_inv s \<Longrightarrow> sound_svc sv \<Longrightarrow> spawn_room 0 s \<Longrightarrow> user_fork sv ret s = Some (pid, s') \<Longrightarrow> kern_inv s'"
proof -
  assume h: "kern_inv s" "sound_svc sv" "spawn_room 0 s" "user_fork sv ret s = Some (pid, s')"
  obtain par where "cur_utask s = Some par" using h(1) cur_task_ok unfolding kern_inv_def by blast
  moreover from this have "par \<noteq> 0" using h(4) by (auto simp: user_fork_def opt_simps)
  ultimately show ?thesis using kern_inv_fork [OF h(1,2) _ _ h(3), of par ret] h(4) by auto
qed

subsection \<open>Every call keeps the kernel consistent\<close>

text \<open>
  What a call needs: room for what it allocates, and, for the calls for messages (5 to 9), that it does not run
  into the defects of the queue and of \<^verbatim>\<open>msg_free\<close>.
\<close>

definition call_guard :: "syscall_state \<Rightarrow> 'v ksys \<Rightarrow> bool" where
  "call_guard r s \<longleftrightarrow>
     (r_num r = 5 \<longrightarrow> kroom 0x101000 2 s) \<and>
     (r_num r = 6 \<longrightarrow> (\<forall>m. k_msgs s (r_arg1 r) = Some m \<longrightarrow> kdat m \<notin> objs s)) \<and>
     (r_num r = 7 \<longrightarrow> kroom 32 1 s \<and> queue_room (r_arg2 r) s) \<and>
     (r_num r = 8 \<longrightarrow> readable s \<and> has_mail s) \<and>
     (r_num r = 9 \<longrightarrow> readable s) \<and>
     (r_num r = 10 \<or> r_num r = 12 \<longrightarrow> r_arg3 r \<noteq> 0 \<and> spawn_room (unat (r_arg3 r)) s) \<and>
     (r_num r = 11 \<longrightarrow> spawn_room 0 s)"

lemma call_guard_state:
  assumes "kern_inv s" and "on_utask p (\<lambda>u. u\<lparr>ut_state := r\<rparr>) s = Some s'" and "call_guard q s"
  shows "call_guard q s'"
proof -
  obtain u where u: "k_utasks s p = Some u" "s' = s\<lparr>k_utasks := (k_utasks s)(p \<mapsto> u\<lparr>ut_state := r\<rparr>)\<rparr>"
    using on_utask_Some [OF assms(2)] by blast
  have f: "user_find pid s' = user_find pid s" for pid unfolding u(2) by (rule user_find_pid [OF assms(1) u(1)]) simp
  have c: "cur_utask s' = cur_utask s" by (simp add: u(2) cur_utask_def cur_task_def)
  have b: "\<exists>U. k_utasks s v = Some U \<and> ut_recvbuf U' = ut_recvbuf U" if "k_utasks s' v = Some U'" for v U'
    using that u by (auto split: if_splits)
  have d: "dom (k_utasks s') = dom (k_utasks s)" using u by auto
  have "objs s' = objs s" using d queues_upd(1) [of "k_utasks s" p u "u\<lparr>ut_state := r\<rparr>"] u(1) by (simp add: u(2) objs_def kinds_def)
  moreover have "queue_room pid s \<longrightarrow> queue_room pid s'" for pid using b f by (fastforce simp: queue_room_def)
  moreover have "readable s \<longrightarrow> readable s'" "has_mail s \<longrightarrow> has_mail s'" using b c by (fastforce simp: readable_def has_mail_def)+
  moreover have "spawn_room n s' \<longleftrightarrow> spawn_room n s" "kroom i k s' \<longleftrightarrow> kroom i k s" "k_msgs s' = k_msgs s" for n i k
    using u by (simp_all add: spawn_room_def kroom_def)
  ultimately show ?thesis using assms(3) unfolding call_guard_def by simp
qed

named_theorems call_keeps

lemma memory_keeps [call_keeps]:
  "kern_inv s \<Longrightarrow> syscall_resvpg sv a s = Some (r, s') \<Longrightarrow> kern_inv s'"
  "kern_inv s \<Longrightarrow> syscall_mappg sv a b f s = Some (r, s') \<Longrightarrow> kern_inv s'"
  "kern_inv s \<Longrightarrow> syscall_allocpgs sv a n f s = Some (r, s') \<Longrightarrow> kern_inv s'"
  "kern_inv s \<Longrightarrow> syscall_freepgs sv a n s = Some (r, s') \<Longrightarrow> kern_inv s'"
  by (auto simp: syscall_resvpg_def syscall_mappg_def syscall_allocpgs_def syscall_freepgs_def opt_simps split: if_splits)

lemma k_memcpy_keeps: "kern_inv s \<Longrightarrow> k_memcpy sv a b n s = Some s' \<Longrightarrow> kern_inv s'"
  by (auto simp: k_memcpy_def opt_simps)

lemma initrd_keeps [call_keeps]:
  assumes "kern_inv s"
  shows "syscall_initrd_getfc sv s = Some (r, s') \<Longrightarrow> kern_inv s'"
    and "syscall_initrd_getf sv a b s = Some (r, s') \<Longrightarrow> kern_inv s'"
    and "syscall_initrd_read sv a i b n s = Some (r, s') \<Longrightarrow> kern_inv s'"
proof -
  show "syscall_initrd_getfc sv s = Some (r, s') \<Longrightarrow> kern_inv s'"
    using assms by (auto simp: syscall_initrd_getfc_def opt_simps split: if_splits)
  show "syscall_initrd_getf sv a b s = Some (r, s') \<Longrightarrow> kern_inv s'"
    using assms unfolding syscall_initrd_getf_def
    by (cases "has_perm USER_PERM_IRD s") (auto simp: Option.bind_eq_Some_conv split: if_split_asm)
  show "syscall_initrd_read sv a i b n s = Some (r, s') \<Longrightarrow> kern_inv s'"
    using assms unfolding syscall_initrd_read_def Let_def
    by (cases "has_perm USER_PERM_IRD s") (auto simp: Option.bind_eq_Some_conv split: if_split_asm dest: k_memcpy_keeps)
qed

lemma info_keeps [call_keeps]:
  "kern_inv s \<Longrightarrow> syscall_print sv a s = Some (r, s') \<Longrightarrow> kern_inv s'"
  "kern_inv s \<Longrightarrow> syscall_getperms s = Some (r, s') \<Longrightarrow> kern_inv s'"
  "kern_inv s \<Longrightarrow> syscall_getpid s = Some (r, s') \<Longrightarrow> kern_inv s'"
  "kern_inv s \<Longrightarrow> syscall_reqio p q s = Some (r, s') \<Longrightarrow> kern_inv s'"
  "kern_inv s \<Longrightarrow> syscall_blkio p q s = Some (r, s') \<Longrightarrow> kern_inv s'"
  by (auto simp: syscall_print_def syscall_getperms_def syscall_getpid_def syscall_reqio_def syscall_blkio_def opt_simps
      intro: io_ports_keeps)

lemma process_keeps [call_keeps]:
  assumes "kern_inv s" and "sound_svc sv"
  shows "n \<noteq> 0 \<Longrightarrow> spawn_room (unat n) s \<Longrightarrow> syscall_spawn sv half f d n s = Some (r, s') \<Longrightarrow> kern_inv s'"
    and "n \<noteq> 0 \<Longrightarrow> spawn_room (unat n) s \<Longrightarrow> syscall_exec sv half f d n s = Some (r, s') \<Longrightarrow> kern_inv s'"
    and "spawn_room 0 s \<Longrightarrow> syscall_fork sv ret s = Some (r, s') \<Longrightarrow> kern_inv s'"
  using assms(1) spawn_keeps [OF assms] fork_keeps [OF assms]
  by (auto simp: syscall_spawn_def syscall_exec_def syscall_fork_def opt_simps split: if_splits)

lemma call_number: "k < SYSCALLS_NUM \<Longrightarrow>
    k = 5 \<or> k = 6 \<or> k = 7 \<or> k = 8 \<or> k = 9 \<or> k = 0 \<or> k = 1 \<or> k = 2 \<or> k = 3 \<or> k = 4 \<or> k = 10 \<or> k = 11 \<or> k = 12 \<or> k = 13 \<or> k = 14 \<or> k = 15 \<or> k = 16 \<or> k = 17 \<or>
    k = 18 \<or> k = 19"
  unfolding SYSCALLS_NUM_def by arith

lemma u32_num: "unat w = k \<Longrightarrow> w = of_nat k" for w :: u32
  by auto

lemma calls_keep:
  assumes inv: "kern_inv s" and sv: "sound_svc sv" and g: "call_guard r s"
    and sc: "nth_opt (scalls sv ca rg env) (unat (r_num r)) = Some sc" "sc (r_arg1 r) (r_arg2 r) (r_arg3 r) (r_arg4 r) s = Some (ret, s')"
  shows "kern_inv s'"
proof -
  have len: "length (scalls sv ca rg env) = SYSCALLS_NUM" by (simp add: scalls_def SYSCALLS_NUM_def)
  then have k: "unat (r_num r) < SYSCALLS_NUM" "sc = scalls sv ca rg env ! unat (r_num r)" using sc(1) by (auto simp: opt_simps)
  note run = sc(2) [unfolded k(2)]
  from call_number [OF k(1)] show ?thesis
  proof (elim disjE)
    assume h: "unat (r_num r) = 5"
    then have "kroom 0x101000 2 s" using g u32_num [OF h] by (simp add: call_guard_def)
    then show ?thesis using run by (intro msg_req_keeps [OF inv sv]) (simp_all add: h scalls_def)
  next
    assume h: "unat (r_num r) = 6"
    then have "kdat m \<notin> objs s" if "k_msgs s (r_arg1 r) = Some m" for m using that g u32_num [OF h] by (simp add: call_guard_def)
    then show ?thesis using run by (intro msg_free_keeps [OF inv sv]) (simp_all add: h scalls_def)
  next
    assume h: "unat (r_num r) = 7"
    then have "kroom 32 1 s" "queue_room (r_arg2 r) s" using g u32_num [OF h] by (simp_all add: call_guard_def)
    then show ?thesis using run by (intro msg_send_keeps [OF inv sv]) (simp_all add: h scalls_def)
  next
    assume h: "unat (r_num r) = 8"
    then have "readable s" "has_mail s" using g u32_num [OF h] by (simp_all add: call_guard_def)
    then show ?thesis using run by (intro msg_recv_keeps [OF inv sv]) (simp_all add: h scalls_def)
  next
    assume h: "unat (r_num r) = 9"
    then have "readable s" using g u32_num [OF h] by (simp add: call_guard_def)
    then show ?thesis using run by (intro msg_poll_keeps [OF inv sv]) (simp_all add: h scalls_def)
  next
    assume h: "unat (r_num r) = 10"
    then have "r_num r = 10" using u32_num [OF h] by simp
    then show ?thesis using g run h process_keeps [OF inv sv] by (auto simp: call_guard_def scalls_def)
  next
    assume h: "unat (r_num r) = 11"
    then have "r_num r = 11" using u32_num [OF h] by simp
    then show ?thesis using g run h process_keeps [OF inv sv] by (auto simp: call_guard_def scalls_def)
  next
    assume h: "unat (r_num r) = 12"
    then have "r_num r = 12" using u32_num [OF h] by simp
    then show ?thesis using g run h process_keeps [OF inv sv] by (auto simp: call_guard_def scalls_def)
  qed (use run inv in \<open>auto simp: scalls_def intro: call_keeps\<close>)
qed

lemma syscall_keeps:
  assumes "kern_inv s" and "sound_svc sv" and "call_guard r s"
    and "syscall_handler sv ca rg env r s = Some (r', s')"
  shows "kern_inv s'"
proof (cases "SYSCALLS_NUM \<le> unat (r_num r)")
  case True
  then show ?thesis using assms by (simp add: syscall_handler_def)
next
  case False
  then obtain p s1 sc ret where h: "on_utask p (\<lambda>u. u\<lparr>ut_state := r\<rparr>) s = Some s1"
    "nth_opt (scalls sv ca rg env) (unat (r_num r)) = Some sc" "sc (r_arg1 r) (r_arg2 r) (r_arg3 r) (r_arg4 r) s1 = Some (ret, s')"
    using assms(4) by (auto simp: syscall_handler_def opt_simps(1-4) Option.bind_eq_Some_conv)
  show ?thesis
    by (rule calls_keep [OF kern_inv_state(1) [OF assms(1) h(1)] assms(2) call_guard_state [OF assms(1) h(1) assms(3)] h(2,3)])
qed

end
