(* ===== verification/Kernel_Machine.thy ===== *)
theory Kernel_Machine
  imports Syscall_Inv
begin

text \<open>
  The kernel as a state machine on the model of its own heap: \<open>kstep\<close> are the steps it takes after
  booting, and \<open>kern_inv\<close> holds in every state it reaches.
\<close>

subsection \<open>The kernel as a state machine\<close>

inductive kstep :: "'v ksvc \<Rightarrow> code_addrs \<Rightarrow> 'v ksys \<Rightarrow> 'v ksys \<Rightarrow> bool" for sv ca where
  Spawn: "spawn_room (unat n) s \<Longrightarrow> n \<noteq> 0 \<Longrightarrow> user_spawn sv (ca_half ca) f d n perms s = Some (u, s') \<Longrightarrow> kstep sv ca s s'"
| Fork: "spawn_room 0 s \<Longrightarrow> cur_utask s = Some par \<Longrightarrow> par \<noteq> 0 \<Longrightarrow> user_fork sv (ca_usr_ret ca) s = Some (pid, s') \<Longrightarrow> kstep sv ca s s'"
| Block: "user_block pid s = Some s' \<Longrightarrow> kstep sv ca s s'"
| Awake: "user_awake pid s = Some s' \<Longrightarrow> kstep sv ca s s'"
| Tick: "kroom 8192 1 s \<Longrightarrow> ready s \<Longrightarrow> tick sv rg s = Some s' \<Longrightarrow> kstep sv ca s s'"
| Syscall: "call_guard r s \<Longrightarrow> syscall_handler sv ca rg env r s = Some (r', s') \<Longrightarrow> kstep sv ca s s'"
| Enabling: "kstep sv ca s (s\<lparr>k_enabled := b\<rparr>)"

lemma kern_inv_step:
  assumes "kstep sv ca s s'" and "sound_svc sv" and "kern_inv s"
  shows "kern_inv s'"
  using assms
proof (induction rule: kstep.induct)
  case (Spawn n s f d perms u s')
  then show ?case using kern_inv_spawn [of s sv n "ca_half ca" f d perms] by auto
next
  case (Fork s par pid s')
  then show ?case using kern_inv_fork [of s sv par "ca_usr_ret ca"] by auto
next
  case (Block pid s s')
  then show ?case using kern_inv_set_blocked [of s True pid] by (simp add: user_block_def)
next
  case (Awake pid s s')
  then show ?case using kern_inv_set_blocked [of s False pid] by (simp add: user_awake_def)
next
  case (Tick s rg s')
  then show ?case using kern_inv_tick [of s sv rg] by auto
next
  case (Syscall r s rg env r' s')
  then show ?case using syscall_keeps [of s sv r] by auto
next
  case (Enabling s b)
  then show ?case by (simp add: kern_inv_def)
qed

definition khook :: "nat \<Rightarrow> nat \<Rightarrow> ('v ksys \<Rightarrow> 'v ksys option) \<Rightarrow> bool" where
  "khook b n f \<longleftrightarrow> (\<forall>s c k. objs_ok kheap_inv kheap_used s \<longrightarrow> kroom (b + c) (n + k) s \<longrightarrow> (\<exists>s'. f s = Some s' \<and> extends s s' \<and>
     objs_ok kheap_inv kheap_used s' \<and> kroom c k s' \<and> k_utasks s' = k_utasks s \<and> k_next_pid s' = k_next_pid s))"

lemma kh_hook: "kh.hook_ok b n f = khook b n f"
  by (simp add: kh.hook_ok_def khook_def kh_room)

lemma khook_none: "khook 0 0 Some"
  by (simp add: khook_def extends_heap rest_same_def)

lemma kern_inv_boot:
  fixes s :: "'v ksys"
  assumes sv: "sound_svc sv" and fr: "fresh_kern (heap_init a) s" "a \<noteq> 0"
    and hooks: "khook cb cn add_clock" "khook hb hn add_hook" and room: "kroom (96 + cb + hb + b) (4 + cn + hn + k) s"
  shows "\<exists>s1. kernel_boot sv add_clock add_hook stk s = Some s1 \<and> kern_inv s1 \<and> kroom b k s1 \<and> k_next_pid s1 = 0"
proof -
  have r: "kh.room (roundup16 16 + roundup16 36 + roundup16 12 + cb + (roundup16 16 + (hb + b))) (3 + cn + Suc (hn + k)) s"
    using room by (simp add: kh_room kroom_def roundup16_def)
  have al: "sv_alloc sv = kalloc" using sv by (simp add: sound_svc_def)
  obtain s1 p t where "kernel_boot sv add_clock add_hook stk s = Some s1" "kern_rep kheap_inv kheap_used s1 [p] [t] [] []" "kh.room b k s1"
    using kh.kernel_boot_ok [OF al fr(1) heap_init_inv [OF fr(2)] hooks [folded kh_hook] r] by blast
  moreover from this have "kern_inv s1" unfolding kern_inv_def
    by - (rule exI [of _ "[p]"], rule exI [of _ "[t]"], rule exI [of _ "[]"], rule exI [of _ "[]"], simp)
  moreover from calculation have "k_next_pid s1 = 0" by (simp add: kern_rep_def)
  ultimately show ?thesis by (auto simp: kh_room)
qed

lemma kern_inv_reach: "(kstep sv ca)\<^sup>*\<^sup>* s s' \<Longrightarrow> sound_svc sv \<Longrightarrow> kern_inv s \<Longrightarrow> kern_inv s'"
  by (induction rule: rtranclp_induct) (auto intro: kern_inv_step)



text \<open>Whether the caller may give permissions: the kernel may, a process only those it has.\<close>

definition may_grant :: "'v ksys \<Rightarrow> u32 \<Rightarrow> bool" where
  "may_grant s perms \<longleftrightarrow> (\<forall>U. caller s = Some U \<longrightarrow> (\<forall>k < 32. bit perms k \<longrightarrow> bit (ut_perms U) k))"

lemma spawn_refused_iff: "kern_inv s \<Longrightarrow> spawn_refused perms s = Some (\<not> may_grant s perms)"
proof -
  assume "kern_inv s"
  then obtain t T where t: "cur_task s = Some t" "k_tasks s t = Some T" "t \<noteq> 0" "cur_utask s = Some (t_parent T)"
    "t_parent T \<noteq> 0 \<longrightarrow> (\<exists>V. load (k_utasks s) (t_parent T) = Some V)"
    using cur_task_ok unfolding kern_inv_def by blast
  then show ?thesis
    by (cases "t_parent T = 0")
      (auto simp: spawn_refused_def may_grant_def caller_def adds_perms_iff load_def [of "k_tasks s"])
qed

text \<open>
  C8 (safety): \<open>user_spawn\<close> gives no permission that the calling process does not have: it then changes
  nothing and returns 0. Otherwise it makes one process, with exactly these permissions, the next number,
  an empty queue and a task of its own that starts at the first code of a process; no other process or
  task changes.
\<close>

theorem spawn_grants_no_permission:
  assumes "kern_inv s" and "sound_svc sv" and "n \<noteq> 0" and "spawn_room (unat n) s"
  shows "\<exists>u s'. user_spawn sv half f d n perms s = Some (u, s') \<and>
    (if may_grant s perms then u \<noteq> 0 \<and> made_process s s' u perms half \<and> k_next_pid s' = k_next_pid s + 1 \<and> kern_inv s' else u = 0 \<and> s' = s)"
proof -
  obtain u s' where u: "user_spawn sv half f d n perms s = Some (u, s')" "kern_inv s'"
    "spawn_refused perms s = Some True \<longrightarrow> u = 0 \<and> s' = s" "spawn_refused perms s = Some False \<longrightarrow> made_process s s' u perms half \<and> k_next_pid s' = k_next_pid s + 1"
    using kern_inv_spawn [OF assms] by blast
  have "u \<noteq> 0" if made: "made_process s s' u perms half"
  proof -
    obtain U where "k_utasks s' u = Some U" using made by (auto simp: made_process_def)
    moreover obtain xs ts ys us where rep: "kern_rep kheap_inv kheap_used s' xs ts ys us" using u(2) by (auto simp: kern_inv_def)
    moreover have "dom (k_utasks s') = set us" using rep by (simp add: kern_rep_def)
    ultimately show ?thesis using kern_rep_proc [OF rep, of u] by blast
  qed
  then show ?thesis using u spawn_refused_iff [OF assms(1), of perms] by auto
qed


subsection \<open>The machine of the witnesses, booted\<close>

definition demo_start :: "(addr \<Rightarrow> u8) ksys" where
  "demo_start = (demo_kern False False)\<lparr>k_ls := no_lists (heap_init 0xD0000000), k_tasks := Map.empty, k_utasks := Map.empty,
     k_iobms := Map.empty, k_next_pid := 0\<rparr>"

lemma demo_sound: "sound_svc demo_sv"
  by (simp add: sound_svc_def demo_sv_def mem_total_def switch_total_def)

lemma demo_fresh: "fresh_kern (heap_init 0xD0000000) demo_start" "(0xD0000000 :: addr) \<noteq> 0"
  by (simp_all add: fresh_kern_def demo_start_def)

lemma demo_bytes: "kheap_bytes_left (heap_init 0xD0000000) = 0x1EFFEFFF" "1000 \<le> kheap_allocs_left (heap_init 0xD0000000)"
proof -
  show "kheap_bytes_left (heap_init 0xD0000000) = 0x1EFFEFFF"
    using heap_rep_blocks [OF heap_init_rep [OF demo_fresh(2)]] by (simp add: kheap_bytes_left_def heap_end_def BIN_START_def)
  show "1000 \<le> kheap_allocs_left (heap_init 0xD0000000)" by (simp add: kheap_allocs_left_def heap_init_def)
qed

lemma demo_room: "kroom (96 + 0 + 0 + 0x100000) (4 + 0 + 0 + 100) demo_start" "kroom (96 + 0 + 0) (4 + 0 + 0) demo_start"
  using demo_bytes by (simp_all add: kroom_def demo_start_def no_lists_def)

lemma demo_boot: "\<exists>s. kernel_boot demo_sv Some Some 0 demo_start = Some s \<and> kern_inv s \<and> kroom 0x100000 100 s \<and> k_next_pid s = 0"
  by (rule kern_inv_boot [OF demo_sound demo_fresh khook_none khook_none demo_room(1)])



lemma roundup16_16: "roundup16 (unat (16 :: u32)) = 16"
  by (simp add: roundup16_def)

theorem spawn_grants_no_permission_witness:
  "\<exists>s u s'. kernel_boot demo_sv Some Some 0 demo_start = Some s \<and>
    user_spawn demo_sv 0x100 0x1000 0x2000 16 0 s = Some (u, s') \<and> u \<noteq> 0 \<and> made_process s s' u 0 0x100"
proof -
  obtain s where s: "kernel_boot demo_sv Some Some 0 demo_start = Some s" "kern_inv s" "kroom 0x100000 100 s" "k_next_pid s = 0"
    using demo_boot by blast
  have r: "spawn_room (unat (16 :: u32)) s" "(16 :: u32) \<noteq> 0" using s(3,4) by (simp_all add: spawn_room_def kroom_def roundup16_def)
  have "may_grant s 0" by (simp add: may_grant_def)
  then show ?thesis
    using spawn_grants_no_permission [OF s(2) demo_sound r(2,1), of "0x100" "0x1000" "0x2000" 0] s(1) by auto
qed

text \<open>A state in which a process runs.\<close>

lemma kern_inv_current:
  assumes "kern_inv s" and "k_utasks s u = Some U"
  shows "\<exists>x. kern_inv (s\<lparr>k_current := x\<rparr>) \<and> caller (s\<lparr>k_current := x\<rparr>) = Some U"
proof -
  obtain xs ts ys us where rep: "kern_rep kheap_inv kheap_used s xs ts ys us" "length us < 2 ^ 31" "length xs = Suc (length us)"
    using assms(1) by (auto simp: kern_inv_def)
  have "dom (k_utasks s) = set us" using rep(1) by (simp add: kern_rep_def)
  then have "u \<in> set us" using assms(2) by auto
  then obtain T where T: "u \<noteq> 0" "k_tasks s (ut_task U) = Some T" "ut_task U \<in> set ts" "ut_task U \<noteq> 0" "t_parent T = u"
    using kern_rep_proc [OF rep(1), of u] assms(2) by auto
  have l: "list_rep (k_ls s) (k_task_order s) True xs ts" and ok: "objs_ok kheap_inv kheap_used s"
    using rep(1) by (simp_all add: kern_rep_def)
  obtain i where i: "i < length xs" "ts ! i = ut_task U" using T(3) list_rep_length [OF l] by (auto simp: in_set_conv_nth)
  let ?s = "s\<lparr>k_current := xs ! i\<rparr>"
  obtain n where n: "load (ls_nodes (k_ls s)) (xs ! i) = Some n" "n_data n = ts ! i" using list_rep_node [OF l i(1)] by blast
  have "objs_ok kheap_inv kheap_used ?s" using ok by (rule objs_ok_cong) (simp_all add: kinds_def)
  then have "kern_rep kheap_inv kheap_used ?s xs ts ys us"
    by (rule kern_rep_update [OF rep(1)]) (use rep(1) i(1) in \<open>simp_all add: kern_rep_def iobm_ok_def\<close>)
  then have "kern_inv ?s" using rep(2,3) unfolding kern_inv_def by blast
  moreover have "caller ?s = Some U" using n i(2) T assms(2) by (simp add: caller_def cur_utask_def cur_task_def load_def)
  ultimately show ?thesis by blast
qed


end
