(* ===== verification/Syscall_Props.thy ===== *)
theory Syscall_Props
  imports Kernel_Machine Paging_Props
begin

text \<open>
  The properties of the system calls: what a process without permission gets, ports, reading the initial
  ramdisk, and mapping memory.
\<close>

subsection \<open>Permissions\<close>

text \<open>The permission that a call asks for.\<close>

definition needs_perm :: "u32 \<Rightarrow> u32" where
  "needs_perm n = (if n = 3 \<or> n = 4 then USER_PERM_IO else if 13 \<le> n \<and> n \<le> 15 then USER_PERM_IRD
     else if 16 \<le> n \<and> n \<le> 19 then USER_PERM_MEM else 0)"

text \<open>
  C6 (safety): a process without the permission a call asks for gets an error, and nothing in the kernel
  changes but the record of the caller's registers: not the ports, the memory, nor any file.
\<close>

theorem syscall_denied:
  assumes "cur_task s = Some c" and "load (k_tasks s) c = Some t" and "t_parent t = p" and "load (k_utasks s) p = Some u"
    and "needs_perm (r_num r) \<noteq> 0" and "ut_perms u AND needs_perm (r_num r) = 0"
  shows "\<exists>e. syscall_handler sv ca rg env r s =
      Some (r\<lparr>r_num := e\<rparr>, s\<lparr>k_utasks := (k_utasks s)(p \<mapsto> u\<lparr>ut_state := r\<rparr>)\<rparr>) \<and> (e = -1 \<or> e = -2)"
proof -
  let ?s = "s\<lparr>k_utasks := (k_utasks s)(p \<mapsto> u\<lparr>ut_state := r\<rparr>)\<rparr>"
  have p0: "p \<noteq> 0" using assms(4) by (auto simp: opt_simps)
  have c: "cur_utask s = Some p" using assms(1-3) by (simp add: cur_utask_def)
  have c1: "cur_task ?s = Some c" "load (k_tasks ?s) c = Some t" "cur_utask ?s = Some p" "load (k_utasks ?s) p = Some (u\<lparr>ut_state := r\<rparr>)"
    using assms(1-3) c p0 by (simp_all add: cur_task_def cur_utask_def load_def)
  have perm: "has_perm q ?s = Some (ut_perms u AND q \<noteq> 0)" for q using c1 by (simp add: has_perm_def caller_def)
  have "r_num r = 3 \<or> r_num r = 4 \<or> 13 \<le> r_num r \<and> r_num r \<le> 15 \<or> 16 \<le> r_num r \<and> r_num r \<le> 19"
    using assms(5) by (auto simp: needs_perm_def split: if_splits)
  then have "unat (r_num r) = 3 \<or> unat (r_num r) = 4 \<or> 13 \<le> unat (r_num r) \<and> unat (r_num r) \<le> 15 \<or>
      16 \<le> unat (r_num r) \<and> unat (r_num r) \<le> 19"
    by (auto simp: word_le_nat_alt)
  then have "unat (r_num r) = 3 \<or> unat (r_num r) = 4 \<or> unat (r_num r) = 13 \<or> unat (r_num r) = 14 \<or> unat (r_num r) = 15 \<or>
      unat (r_num r) = 16 \<or> unat (r_num r) = 17 \<or> unat (r_num r) = 18 \<or> unat (r_num r) = 19"
    by arith
  moreover have "\<exists>sc e. nth_opt (scalls sv ca rg env) (unat (r_num r)) = Some sc \<and>
      sc (r_arg1 r) (r_arg2 r) (r_arg3 r) (r_arg4 r) ?s = Some (e, ?s) \<and> (e = -1 \<or> e = -2)"
    using calculation
  proof (elim disjE)
    assume h: "unat (r_num r) = 3"
    then have "r_num r = 3" using u32_num [OF h] by simp
    then show ?thesis using c1 assms(3,6) by (auto simp: scalls_def syscall_reqio_def io_ports_def needs_perm_def)
  next
    assume h: "unat (r_num r) = 4"
    then have "r_num r = 4" using u32_num [OF h] by simp
    then show ?thesis using c1 assms(3,6) by (auto simp: scalls_def syscall_blkio_def io_ports_def needs_perm_def)
  qed (use assms(6) u32_num [of "r_num r"] in \<open>force simp: scalls_def perm needs_perm_def
      syscall_initrd_getfc_def syscall_initrd_getf_def syscall_initrd_read_def syscall_resvpg_def syscall_mappg_def
      syscall_allocpgs_def syscall_freepgs_def\<close>)+
  then obtain sc e where "nth_opt (scalls sv ca rg env) (unat (r_num r)) = Some sc"
    "sc (r_arg1 r) (r_arg2 r) (r_arg3 r) (r_arg4 r) ?s = Some (e, ?s)" "e = -1 \<or> e = -2" by blast
  moreover have "unat (r_num r) < SYSCALLS_NUM" using calculation by (auto simp: SYSCALLS_NUM_def)
  ultimately show ?thesis using c assms(4) by (auto simp: syscall_handler_def)
qed

lemma demo_current: "cur_task (demo_kern b c) = Some 5" "load (k_tasks (demo_kern b c)) 5 = Some (demo_task b 0x50)"
  "load (k_utasks (demo_kern b c)) 0x50 = Some (zero_utask\<lparr>ut_task := 5, ut_perms := 3, ut_pid := 1\<rparr>)"
  by (simp_all add: cur_task_def demo_kern_def demo_list_def load_def)

theorem syscall_denied_witness:
  "\<exists>r s. syscall_handler demo_sv \<lparr>ca_half = 0, ca_usr_ret = 0\<rparr> \<lparr>rg_eip = 0, rg_esp = 0, rg_ebp = 0\<rparr> (\<lambda>j. Some)
     (zero_state\<lparr>r_num := 16\<rparr>) (demo_kern False False) = Some (r, s) \<and> k_vm s = k_vm (demo_kern False False)"
proof -
  have "t_parent (demo_task False 0x50) = 0x50" by (simp add: demo_task_def)
  from syscall_denied [OF demo_current(1,2) [of False False] this demo_current(3), of "zero_state\<lparr>r_num := 16\<rparr>" demo_sv
      "\<lparr>ca_half = 0, ca_usr_ret = 0\<rparr>" "\<lparr>rg_eip = 0, rg_esp = 0, rg_ebp = 0\<rparr>" "\<lambda>j. Some"]
  show ?thesis by (force simp: needs_perm_def USER_PERM_MEM_def)
qed

subsection \<open>I/O ports\<close>

definition port_blocked :: "u8 list \<Rightarrow> nat \<Rightarrow> bool" where
  "port_blocked bm i \<longleftrightarrow> bit (bm ! (i div 8)) (i mod 8)"

lemma set_port_ok:
  assumes "i < 8 * length bm"
  shows "\<exists>bm'. set_port v i bm = Some bm' \<and> length bm' = length bm \<and>
    (\<forall>k. port_blocked bm' k = (if k = i then v else port_blocked bm k))"
proof -
  have l: "i div 8 < length bm" using assms by (simp add: less_mult_imp_div_less mult.commute)
  have b: "port_blocked (bm[i div 8 := (if v then b OR push_bit (i mod 8) 1 else b AND NOT (push_bit (i mod 8) 1))]) k =
      (if k = i then v else port_blocked bm k)" if b: "b = bm ! (i div 8)" for b k
  proof (cases "k div 8 = i div 8")
    case True
    moreover have "k mod 8 < 8" "i mod 8 < 8" by simp_all
    moreover have "k = i \<longleftrightarrow> k mod 8 = i mod 8" using True by (metis div_mult_mod_eq)
    ultimately show ?thesis using b l
      by (auto simp: port_blocked_def bit_simps simp del: push_bit_of_1 dest: bit_imp_le_length)
  qed (use l in \<open>auto simp: port_blocked_def\<close>)
  show ?thesis using l b by (auto simp: set_port_def)
qed

lemma port_loop_ok:
  assumes "\<forall>i \<in> set is. i < 8 * length bm"
  shows "\<exists>bm'. port_loop v is bm = Some bm' \<and> length bm' = length bm \<and>
    (\<forall>k. port_blocked bm' k = (if k \<in> set is then v else port_blocked bm k))"
  using assms
proof (induction "is" arbitrary: bm)
  case Nil
  then show ?case by simp
next
  case (Cons i "is")
  obtain bm1 where 1: "set_port v i bm = Some bm1" "length bm1 = length bm"
    "\<forall>k. port_blocked bm1 k = (if k = i then v else port_blocked bm k)"
    using set_port_ok [of i bm v] Cons.prems by auto
  have "\<forall>i \<in> set is. i < 8 * length bm1" using Cons.prems 1(2) by simp
  from Cons.IH [OF this] 1 show ?case by auto
qed

text \<open>
  For a process that may use ports and a range below 0x100, \<open>syscall_reqio\<close> opens exactly
  the ports of the range to the calling task and \<open>syscall_blkio\<close> blocks exactly these; every other port
  keeps its state, and so does every other task.
\<close>

lemma io_ports_exact:
  assumes "cur_task s = Some c" and "load (k_tasks s) c = Some t" and "load (k_utasks s) (t_parent t) = Some u"
    and "ut_perms u AND USER_PERM_IO \<noteq> 0" and "load (k_iobms s) (t_iobm t) = Some bm" and "length bm = 8192"
    and "unat base + unat len \<le> 0xFF"
  shows "\<exists>bm0 bm1. syscall_reqio base len s = Some (0, s\<lparr>k_iobms := (k_iobms s)(t_iobm t \<mapsto> bm0)\<rparr>) \<and>
    syscall_blkio base len s = Some (0, s\<lparr>k_iobms := (k_iobms s)(t_iobm t \<mapsto> bm1)\<rparr>) \<and>
    length bm0 = 8192 \<and> length bm1 = 8192 \<and>
    (\<forall>k. port_blocked bm0 k = (port_blocked bm k \<and> \<not> (unat base \<le> k \<and> k < unat base + unat len)) \<and>
       port_blocked bm1 k = (port_blocked bm k \<or> unat base \<le> k \<and> k < unat base + unat len))"
proof -
  let ?is = "[unat base..<unat base + unat len]"
  have "\<forall>i \<in> set ?is. i < 8 * length bm" using assms(6,7) by auto
  note loop = port_loop_ok [OF this]
  have call: "\<exists>bm'. io_ports v base len s = Some (0, s\<lparr>k_iobms := (k_iobms s)(t_iobm t \<mapsto> bm')\<rparr>) \<and> length bm' = 8192 \<and>
    (\<forall>k. port_blocked bm' k = (if unat base \<le> k \<and> k < unat base + unat len then v else port_blocked bm k))" for v
  proof (cases "len = 0")
    case True
    have "s = s\<lparr>k_iobms := (k_iobms s)(t_iobm t \<mapsto> bm)\<rparr>" using assms(5) by (auto simp: opt_simps fun_upd_idem)
    then show ?thesis using True assms by (intro exI [of _ bm]) (auto simp: io_ports_def)
  next
    case False
    obtain bm' where "port_loop v ?is bm = Some bm'" "length bm' = length bm"
      "\<forall>k. port_blocked bm' k = (if k \<in> set ?is then v else port_blocked bm k)" using loop by blast
    then show ?thesis using False assms by (intro exI [of _ bm']) (auto simp: io_ports_def)
  qed
  obtain bm0 bm1 where bm: "io_ports False base len s = Some (0, s\<lparr>k_iobms := (k_iobms s)(t_iobm t \<mapsto> bm0)\<rparr>)"
    "io_ports True base len s = Some (0, s\<lparr>k_iobms := (k_iobms s)(t_iobm t \<mapsto> bm1)\<rparr>)" "length bm0 = 8192" "length bm1 = 8192"
    "\<forall>k. port_blocked bm0 k = (if unat base \<le> k \<and> k < unat base + unat len then False else port_blocked bm k)"
    "\<forall>k. port_blocked bm1 k = (if unat base \<le> k \<and> k < unat base + unat len then True else port_blocked bm k)"
    using call [of False] call [of True] by blast
  show ?thesis unfolding syscall_reqio_def syscall_blkio_def
    by (rule exI [of _ bm0], rule exI [of _ bm1]) (use bm in auto)
qed

lemma io_ports_exact_witness:
  "\<exists>bm. syscall_reqio 0x60 5 (demo_kern False False) =
     Some (0, (demo_kern False False)\<lparr>k_iobms := (k_iobms (demo_kern False False))(0x700 \<mapsto> bm)\<rparr>) \<and>
     \<not> port_blocked bm 0x64 \<and> port_blocked bm 0x65"
proof -
  have t: "t_parent (demo_task False 0x50) = 0x50" "t_iobm (demo_task False 0x50) = 0x700" by (simp_all add: demo_task_def)
  have bm: "load (k_iobms (demo_kern False False)) 0x700 = Some (replicate 8192 0xFF)" by (simp add: demo_kern_def load_def)
  have p: "ut_perms (zero_utask\<lparr>ut_task := 5, ut_perms := 3, ut_pid := 1\<rparr>) AND USER_PERM_IO \<noteq> 0"
    by (simp add: USER_PERM_IO_def)
  have len: "length (replicate 8192 (0xFF :: u8)) = 8192" by (rule length_replicate)
  have b: "unat (0x60 :: u16) + unat (5 :: u16) \<le> 0xFF" by simp
  have "port_blocked (replicate 8192 0xFF) 0x65" unfolding port_blocked_def by (subst nth_replicate) simp_all
  moreover obtain bm where "syscall_reqio 0x60 5 (demo_kern False False) =
     Some (0, (demo_kern False False)\<lparr>k_iobms := (k_iobms (demo_kern False False))(0x700 \<mapsto> bm)\<rparr>)"
    "\<forall>k. port_blocked bm k = (port_blocked (replicate 8192 0xFF) k \<and> \<not> (unat (0x60 :: u16) \<le> k \<and> k < unat (0x60 :: u16) + unat (5 :: u16)))"
    using io_ports_exact [of "demo_kern False False" 5 "demo_task False 0x50", unfolded t, OF demo_current p bm len b] by blast
  ultimately show ?thesis by (intro exI [of _ bm]) simp
qed

lemma bind_map: "x \<bind> (\<lambda>a. Some (f a)) = map_option f x" "y \<bind> (\<lambda>(b, c). Some (g b c)) = map_option (\<lambda>(b, c). g b c) y"
  by (cases x; simp) (cases y; auto)

subsection \<open>Reading the initial ramdisk\<close>

text \<open>
  C37 (bounds): \<open>syscall_initrd_read\<close> from a position inside the file copies as many of the bytes asked for as
  the file still has, as long as the position and the length together stay below 4 GiB; if their sum wraps, the
  length is not cut, so that the copy runs past the end of the file.
\<close>

theorem initrd_read_bounds:
  assumes "caller s = Some u" and "ut_perms u AND USER_PERM_IRD \<noteq> 0" and "unat i < length (sv_initrd sv)"
    and "f = sv_initrd sv ! unat i" and "base < f_size f"
  shows "\<exists>n. syscall_initrd_read sv buf i base len s = map_option (\<lambda>s1. (n, s1)) (k_memcpy sv buf (f_data_start f + base) n s) \<and>
    (if unat base + unat len < 2 ^ 32 then unat n = min (unat len) (unat (f_size f) - unat base)
     else n = len \<and> unat (f_size f) < unat base + unat n)"
proof -
  let ?n = "if f_size f \<le> base + len then f_size f - base else len"
  have b: "unat base < unat (f_size f)" using assms(5) by (simp add: word_less_nat_alt)
  then have d: "unat (f_size f - base) = unat (f_size f) - unat base" by (simp add: unat_sub_if')
  have "syscall_initrd_read sv buf i base len s = map_option (\<lambda>s1. (?n, s1)) (k_memcpy sv buf (f_data_start f + base) ?n s)"
    using assms assms(5) [THEN linorder_not_le [THEN iffD2]] by (simp add: syscall_initrd_read_def has_perm_def bind_map Let_def)
  moreover have "if unat base + unat len < 2 ^ 32 then unat ?n = min (unat len) (unat (f_size f) - unat base)
     else ?n = len \<and> unat (f_size f) < unat base + unat ?n"
  proof (cases "unat base + unat len < 2 ^ 32")
    case True
    then have "unat (base + len) = unat base + unat len" by (simp add: unat_word_ariths)
    then show ?thesis using True b d by (auto simp: word_le_nat_alt)
  next
    case False
    have l: "unat len < 4294967296" "unat (f_size f) < 4294967296" using u32_bound by blast+
    then have "unat base + unat len < 2 * 4294967296" using u32_bound [of base] by simp
    then have "unat (base + len) = unat base + unat len - 4294967296" using False by (simp add: unat_word_ariths mod_if)
    then have "unat (base + len) < unat base" using l(1) False by simp
    then show ?thesis using False b l by (auto simp: word_le_nat_alt)
  qed
  ultimately show ?thesis by blast
qed

theorem initrd_read_bounds_witness:
  "\<exists>n. syscall_initrd_read (demo_sv\<lparr>sv_initrd := [\<lparr>f_name = ''a'', f_data_start = 0x9000, f_size = 100\<rparr>]\<rparr>) 0x100 0 50 0xFFFFFFFF
     (demo_kern False False) =
     map_option (\<lambda>s1. (n, s1)) (k_memcpy (demo_sv\<lparr>sv_initrd := [\<lparr>f_name = ''a'', f_data_start = 0x9000, f_size = 100\<rparr>]\<rparr>)
       0x100 (0x9000 + 50) n (demo_kern False False)) \<and> 100 < unat (50 :: u32) + unat n"
proof -
  let ?f = "\<lparr>f_name = ''a'', f_data_start = 0x9000, f_size = 100\<rparr>"
  let ?sv = "demo_sv\<lparr>sv_initrd := [?f]\<rparr>"
  have c: "caller (demo_kern False False) = Some (zero_utask\<lparr>ut_task := 5, ut_perms := 3, ut_pid := 1\<rparr>)"
    using demo_current by (simp add: caller_def cur_utask_def demo_task_def)
  have h: "ut_perms (zero_utask\<lparr>ut_task := 5, ut_perms := 3, ut_pid := 1\<rparr>) AND USER_PERM_IRD \<noteq> 0"
    "unat (0 :: u32) < length (sv_initrd ?sv)" "?f = sv_initrd ?sv ! unat (0 :: u32)" "50 < f_size ?f"
    by (simp_all add: USER_PERM_IRD_def)
  from initrd_read_bounds [OF c h, of "0x100" "0xFFFFFFFF"] show ?thesis by fastforce
qed

subsection \<open>Mapping memory\<close>

text \<open>
  \<open>syscall_mappg\<close> with the pager as its \<open>mappg\<close> checks the wrong address. It refuses frames from
  \<^verbatim>\<open>0xD8000000\<close> on, which a process may have reason to map, but maps any page that is not mapped, also one of
  the kernel's half of the address space.
\<close>

lemma syscall_mappg_checks_frame:
  assumes "caller s = Some u" and "ut_perms u AND USER_PERM_MEM \<noteq> 0" and "sv_mappg sv = mappg P getpg"
    and "layout_ok P" and "vm_ok P (k_vm s) D" and "walk P (k_vm s) page = Some 0"
    and "\<not> pg_present P (pd_entries D ! dindex page) \<Longrightarrow>
      (\<exists>tp f. getpg (vm_frames (k_vm s)) = Some (tp, f) \<and> fresh_frame P D tp) \<and> bit flags 0 \<and> flags AND 0xFFFFF000 = 0"
  shows "syscall_mappg sv frame page flags s = (if 0xD8000000 \<le> frame then Some (-2, s)
      else map_option (\<lambda>(e, v). (e, s\<lparr>k_vm := v\<rparr>)) (sv_mappg sv frame page flags (k_vm s))) \<and>
    (\<exists>v. sv_mappg sv frame page flags (k_vm s) = Some (0, v) \<and> walk P v page = Some (frame OR (flags AND 0xFFF)))"
proof
  have p: "has_perm USER_PERM_MEM s = Some True" using assms(1,2) by (simp add: has_perm_def)
  show "syscall_mappg sv frame page flags s = (if 0xD8000000 \<le> frame then Some (-2, s)
      else map_option (\<lambda>(e, v). (e, s\<lparr>k_vm := v\<rparr>)) (sv_mappg sv frame page flags (k_vm s)))"
    using p by (simp add: syscall_mappg_def bind_map)
  have r: "mappg P getpg frame page flags (k_vm s) = remappg P getpg frame page flags (k_vm s)"
    using mappg_cases [OF assms(5,6)] by simp
  have "\<not> pg_present P (pd_entries D ! dindex page) \<longrightarrow>
      (\<exists>tp f. getpg (vm_frames (k_vm s)) = Some (tp, f) \<and> fresh_frame P D tp) \<and> bit flags 0 \<and> flags AND 0xFFFFF000 = 0"
    using assms(7) by blast
  from remappg_maps_page [where getpg = getpg, OF assms(4,5) this, of frame] assms(6)
  show "\<exists>v. sv_mappg sv frame page flags (k_vm s) = Some (0, v) \<and> walk P v page = Some (frame OR (flags AND 0xFFF))"
    unfolding assms(3) r by fastforce
qed

definition demo_vm_sv :: "(kheap, addr list vmm) services" where
  "demo_vm_sv = \<lparr>sv_alloc = kalloc, sv_alloc_a = kalloc_a, sv_free = kfree, sv_curdir = vm_cur, sv_swpdir = \<lambda>d v. Some v,
     sv_clonedir = \<lambda>d v. None, sv_remappg = remappg i386_layout pop_frame, sv_mappg = mappg i386_layout pop_frame,
     sv_allocpgs = \<lambda>a n f v. None, sv_freepgs = \<lambda>a n v. None, sv_getphys = \<lambda>a v. 0, sv_resvpg = \<lambda>a v. None,
     sv_peek = \<lambda>a n v. None, sv_poke = \<lambda>a bs v. None, sv_str = \<lambda>a v. None, sv_initrd = []\<rparr>"

definition demo_vm_kern :: "(kheap, addr list vmm) kern" where
  "demo_vm_kern = \<lparr>k_ls = demo_list True demo_heap2, k_tasks = [5 \<mapsto> demo_task False 0x50],
     k_utasks = [0x50 \<mapsto> zero_utask\<lparr>ut_task := 5, ut_perms := 4\<rparr>], k_msgs = Map.empty, k_files = Map.empty, k_iobms = Map.empty,
     k_vm = demo_vmm, k_task_order = 0x300, k_current = 0xE1000000, k_enabled = True, k_utsk_list = 0x300, k_next_pid = 3,
     k_tss = demo_tss, k_intr = \<lparr>i_depth = 0, i_flag = True\<rparr>, k_out = []\<rparr>"

text \<open>A process maps a frame of its choice at \<^verbatim>\<open>0xE0000000\<close>, in the kernel's half.\<close>

lemma syscall_mappg_checks_frame_witness:
  "\<exists>s. syscall_mappg demo_vm_sv 0xB000 0xE0000000 7 demo_vm_kern = Some (0, s) \<and>
     walk i386_layout (k_vm s) 0xE0000000 = Some (0xB000 OR (7 AND 0xFFF))"
proof -
  have c: "caller demo_vm_kern = Some (zero_utask\<lparr>ut_task := 5, ut_perms := 4\<rparr>)"
    by (simp add: caller_def cur_utask_def cur_task_def demo_vm_kern_def demo_list_def load_def demo_task_def)
  have p: "ut_perms (zero_utask\<lparr>ut_task := 5, ut_perms := 4\<rparr>) AND USER_PERM_MEM \<noteq> 0" by (simp add: USER_PERM_MEM_def)
  have m: "sv_mappg demo_vm_sv = mappg i386_layout pop_frame" "k_vm demo_vm_kern = demo_vmm"
    by (simp_all add: demo_vm_sv_def demo_vm_kern_def)
  have np: "\<not> pg_present i386_layout (pd_entries demo_dir ! dindex 0xE0000000)"
    by (simp add: i386_layout_def demo_dir_def dindex_nat)
  have w: "walk i386_layout (k_vm demo_vm_kern) 0xE0000000 = Some 0"
    unfolding m(2) by (rule walk_absent [OF demo_vm_ok np])
  have "fresh_frame i386_layout demo_dir 0x9000" by (simp add: fresh_frame_def demo_table_at)
  then have n: "(\<exists>tp f. pop_frame (vm_frames (k_vm demo_vm_kern)) = Some (tp, f) \<and> fresh_frame i386_layout demo_dir tp) \<and>
      bit (7 :: u32) 0 \<and> (7 :: u32) AND 0xFFFFF000 = 0"
    unfolding m(2) by (simp add: pop_frame_def demo_vmm_def)
  from syscall_mappg_checks_frame [OF c p m(1) i386_layout_ok demo_vm_ok [folded m(2)] w n, of "0xB000"]
  show ?thesis by auto
qed

end
