(* ===== verification/Msg_Props.thy ===== *)
theory Msg_Props
  imports Syscall_Props
begin

text \<open>
  Messages from the system calls' point of view: what sending does, that a message sent is received as it was
  sent, and that freeing a buffer trusts the process. The queue of \<open>Message\<close>, the process list of
  \<open>User_Props\<close>, the kernel heap and the invariant of \<open>Kernel_Inv\<close> come together here.
\<close>

text \<open>
  C38 (error): \<open>syscall_msg_free\<close> frees the address it finds in the process's own message. With the address of
  an object of the kernel there, say that of the process itself, the call succeeds and frees that object
  while it is in use: the invariant of the kernel is lost.
\<close>

theorem msg_free_any_object:
  assumes "kern_inv s" and "sv_free sv = kfree" and "x \<in> objs s" and "load (k_msgs s) msg = Some m" and "kdat m = x"
  shows "\<exists>s'. syscall_msg_free sv msg s = Some (0, s') \<and> \<not> kern_inv s'"
proof -
  obtain xs ts ys us where "kern_rep kheap_inv kheap_used s xs ts ys us" using assms(1) by (auto simp: kern_inv_def)
  then have ok: "objs_ok kheap_inv kheap_used s" by (simp add: kern_rep_def)
  let ?h = "ls_heap (k_ls s)"
  have i: "kheap_inv ?h" using ok by (simp add: objs_ok_def)
  obtain k where k: "(unat x, k) \<in> kheap_used ?h" using ok assms(3) unfolding objs_ok_def by blast
  obtain h' where h: "kfree x ?h = Some h'" "kheap_inv h'" "kheap_used h' = kheap_used ?h - {(unat x, k)}"
    using kh.free_ok [OF i k] by blast
  let ?s = "s\<lparr>k_ls := (k_ls s)\<lparr>ls_heap := h'\<rparr>\<rparr>"
  have "msg \<noteq> 0" "x \<noteq> 0" using assms(4) kh.used_pos [OF i, of "unat x" k] k by (auto simp: opt_simps)
  then have "syscall_msg_free sv msg s = Some (0, ?s)" using assms h(1) by (simp add: syscall_msg_free_def k_free_def)
  moreover have "\<not> kern_inv ?s"
  proof
    assume "kern_inv ?s"
    then obtain xs ts ys us where "kern_rep kheap_inv kheap_used ?s xs ts ys us" by (auto simp: kern_inv_def)
    then have "objs_ok kheap_inv kheap_used ?s" by (simp add: kern_rep_def)
    moreover have "objs ?s = objs s" by (simp add: objs_def kinds_def)
    ultimately obtain j where j: "(unat x, j) \<in> kheap_used h'" using assms(3) by (fastforce simp: objs_ok_def)
    then have "j = k" using kh.same_start [OF i _ k] h(3) by blast
    then show False using j h(3) by blast
  qed
  ultimately show ?thesis by blast
qed

theorem msg_free_any_object_witness:
  "\<exists>(s :: (addr \<Rightarrow> u8) ksys) s'. kern_inv s \<and> syscall_msg_free demo_sv 0x2000 s = Some (0, s') \<and> \<not> kern_inv s'"
proof -
  obtain s where s: "kernel_boot demo_sv Some Some 0 demo_start = Some s" "kern_inv s" using demo_boot by blast
  obtain xs ts ys us where rep: "kern_rep kheap_inv kheap_used s xs ts ys us" using s(2) by (auto simp: kern_inv_def)
  have "k_current s \<in> set xs" "list_rep (k_ls s) (k_task_order s) True xs ts" using rep by (simp_all add: kern_rep_def)
  then have x: "k_current s \<in> dom (ls_nodes (k_ls s))" using list_rep_nodes by blast
  let ?m = "\<lparr>dst = 0, src = 0, msgsz = 0, dat = 0, kdat = k_current s\<rparr>"
  let ?s = "s\<lparr>k_msgs := [0x2000 \<mapsto> ?m]\<rparr>"
  have k: "kern_inv ?s" by (rule kern_inv_same [OF s(2)]) auto
  have o: "k_current s \<in> objs ?s" using x by (simp add: objs_def kinds_def)
  have f: "sv_free demo_sv = kfree" by (simp add: demo_sv_def)
  have l: "load (k_msgs ?s) 0x2000 = Some ?m" by (simp add: load_def)
  have "kdat ?m = k_current s" by simp
  from msg_free_any_object [OF k f o l this] k show ?thesis by blast
qed

lemma kern_inv_task:
  assumes "kern_inv s" and "k_tasks s t = Some T" and "t_parent T' = t_parent T" and "t_iobm T' = t_iobm T"
  shows "kern_inv (s\<lparr>k_tasks := (k_tasks s)(t \<mapsto> T')\<rparr>)"
proof -
  obtain xs ts ys us where rep: "kern_rep kheap_inv kheap_used s xs ts ys us" "length us < 2 ^ 31" "length xs = Suc (length us)"
    using assms(1) by (auto simp: kern_inv_def)
  from kern_rep_task_upd [OF rep(1) assms(2-4)] rep(2,3) show ?thesis unfolding kern_inv_def by blast
qed

text \<open>The process with a number, and its task.\<close>

lemma kern_inv_pid:
  assumes "kern_inv s" and "unat pid < unat (k_next_pid s)"
  shows "\<exists>u U T. user_find pid s = Some u \<and> u \<noteq> 0 \<and> k_utasks s u = Some U \<and> ut_pid U = pid \<and>
    ut_task U \<noteq> 0 \<and> k_tasks s (ut_task U) = Some T \<and> t_parent T = u"
  using kern_inv_table [OF assms(1), of pid] assms(2) by simp

lemma async_send_ok:
  assumes "kern_inv s" and "load (k_msgs s) msg = Some m" and "unat (dst m) < unat (k_next_pid s)"
    and "user_find (src m) s = Some x" and "load (k_utasks s) x = Some X" and "\<not> ut_msg_ack X"
    and "user_find (dst m) s = Some u" and "k_utasks s u = Some U" and "k_tasks s (ut_task U) = Some T"
    and "length (mb_items (ut_recvbuf U)) < MSG_MAXCOUNT"
    and "msg \<notin> objs s" and "\<exists>k. (unat msg, k) \<in> kheap_used (ls_heap (k_ls s))"
  shows "\<exists>b s'. message_async_send sv rg env msg s = Some (0, s') \<and> kern_inv s' \<and>
    mb_items b = mb_items (ut_recvbuf U) @ [msg] \<and> mb_reads_left b = mb_reads_left (ut_recvbuf U) \<and>
    s' = s\<lparr>k_utasks := (k_utasks s)(u \<mapsto> U\<lparr>ut_recvbuf := b\<rparr>),
      k_tasks := (k_tasks s)(ut_task U \<mapsto> T\<lparr>t_blocked := False\<rparr>), k_enabled := True\<rparr>"
proof -
  obtain U' T' where f: "u \<noteq> 0" "k_utasks s u = Some U'" "ut_task U' \<noteq> 0" "k_tasks s (ut_task U') = Some T'"
    using kern_inv_pid [OF assms(1,3)] assms(7) by auto
  then have nz: "u \<noteq> 0" "ut_task U \<noteq> 0" using assms(8) by simp_all
  have room: "unat (mb_count (ut_recvbuf U)) < MSG_MAXCOUNT" using assms(10) by simp
  obtain b where b: "message_push (ut_recvbuf U) msg = Some (0, b)" "mb_items b = mb_items (ut_recvbuf U) @ [msg]"
    "mb_reads_left b = mb_reads_left (ut_recvbuf U)" "kern_inv (s\<lparr>k_utasks := (k_utasks s)(u \<mapsto> U\<lparr>ut_recvbuf := b\<rparr>)\<rparr>)"
    using kern_inv_push [OF assms(1,8,11,12,10)] by blast
  let ?s1 = "s\<lparr>k_enabled := False, k_utasks := (k_utasks s)(u \<mapsto> U\<lparr>ut_recvbuf := b\<rparr>)\<rparr>"
  let ?s' = "s\<lparr>k_utasks := (k_utasks s)(u \<mapsto> U\<lparr>ut_recvbuf := b\<rparr>),
      k_tasks := (k_tasks s)(ut_task U \<mapsto> T\<lparr>t_blocked := False\<rparr>), k_enabled := True\<rparr>"
  have k': "kern_inv ?s'"
    using kern_inv_task [OF b(4), of "ut_task U" T "T\<lparr>t_blocked := False\<rparr>"] assms(9) by simp
  have find: "user_find (dst m) ?s1 = Some u"
    using user_find_pid [of "s\<lparr>k_enabled := False\<rparr>" u U "U\<lparr>ut_recvbuf := b\<rparr>"] assms(1,7,8) by simp
  have l: "load (k_msgs s) msg = Some m" "load (k_utasks s) u = Some U" "load (k_tasks s) (ut_task U) = Some T"
    "load ((k_utasks s)(u \<mapsto> U\<lparr>ut_recvbuf := b\<rparr>)) u = Some (U\<lparr>ut_recvbuf := b\<rparr>)"
    using assms(2,8,9) nz by (simp_all add: load_def)
  note send = message_async_send_def tasking_disable_def tasking_enable_def recv_push_def user_isblocked_def user_awake_def
    set_blocked_def Let_def
  have "message_async_send sv rg env msg s = Some (0, ?s')"
  proof (cases "t_blocked T")
    case True
    then show ?thesis using assms(4-7) nz b(1) room find l by (simp add: send)
  next
    case False
    then have "T\<lparr>t_blocked := False\<rparr> = T" by simp
    then have "(k_tasks s)(ut_task U \<mapsto> T\<lparr>t_blocked := False\<rparr>) = k_tasks s" using assms(9) by auto
    moreover have "message_async_send sv rg env msg s =
        Some (0, s\<lparr>k_utasks := (k_utasks s)(u \<mapsto> U\<lparr>ut_recvbuf := b\<rparr>), k_enabled := True\<rparr>)"
      using False assms(4-7) nz b(1) room find l by (simp add: send)
    ultimately show ?thesis by simp
  qed
  then show ?thesis using b(2,3) k' by blast
qed

text \<open>
  C15 (functional): sending a message to a process whose queue has room does not wait: the message becomes the
  last in the receiver's queue, the receiver's task is no longer blocked, scheduling is on, and nothing else
  changes; the kernel's invariant is kept.
\<close>

theorem message_send_delivers:
  assumes "kern_inv s" and "load (k_msgs s) msg = Some m" and "unat (dst m) < unat (k_next_pid s)"
    and "user_find (src m) s = Some x" and "load (k_utasks s) x = Some X" and "\<not> ut_msg_ack X"
    and "user_find (dst m) s = Some u" and "k_utasks s u = Some U" and "k_tasks s (ut_task U) = Some T"
    and "length (mb_items (ut_recvbuf U)) < MSG_MAXCOUNT"
    and "msg \<notin> objs s" and "\<exists>k. (unat msg, k) \<in> kheap_used (ls_heap (k_ls s))"
  shows "\<exists>b s'. message_async_send sv rg env msg s = Some (0, s') \<and> kern_inv s' \<and>
    mb_items b = mb_items (ut_recvbuf U) @ [msg] \<and>
    s' = s\<lparr>k_utasks := (k_utasks s)(u \<mapsto> U\<lparr>ut_recvbuf := b\<rparr>),
      k_tasks := (k_tasks s)(ut_task U \<mapsto> T\<lparr>t_blocked := False\<rparr>), k_enabled := True\<rparr>"
  using async_send_ok [OF assms] by blast

lemma kern_inv_no_proc: "kern_inv s \<Longrightarrow> k_next_pid s = 0 \<Longrightarrow> k_utasks s = Map.empty"
proof -
  assume h: "kern_inv s" "k_next_pid s = 0"
  then obtain xs ts ys us where rep: "kern_rep kheap_inv kheap_used s xs ts ys us" "length us < 2 ^ 31" by (auto simp: kern_inv_def)
  have "us = []" using kern_rep_pid [OF rep] h(2) by simp
  moreover have "dom (k_utasks s) = set us" using rep(1) by (simp add: kern_rep_def)
  ultimately show ?thesis by simp
qed

text \<open>A booted kernel with one process, which sends a message to itself.\<close>

lemma demo_one_process:
  "\<exists>(s :: (addr \<Rightarrow> u8) ksys) u U. kern_inv s \<and> k_next_pid s = 1 \<and> user_find 0 s = Some u \<and> k_utasks s u = Some U \<and>
     ut_recvbuf U = mb_empty \<and> ut_pid U = 0 \<and> kroom 64 4 s"
proof -
  obtain s where s: "kernel_boot demo_sv Some Some 0 demo_start = Some s" "kern_inv s" "kroom 0x100000 100 s" "k_next_pid s = 0"
    using demo_boot by blast
  have r: "kroom (8192 + roundup16 (unat (16 :: u32)) + 704 + 64) (7 + 4) s" "unat (k_next_pid s) < 2 ^ 31 - 2" "(16 :: u32) \<noteq> 0"
    using s(3,4) by (simp_all add: kroom_def roundup16_def)
  have "may_grant s 0" by (simp add: may_grant_def)
  then obtain u s2 where s2: "kern_inv s2" "made_process s s2 u 0 0x100" "k_next_pid s2 = 1" "kroom 64 4 s2"
    using s(4) kern_inv_spawn_room [OF s(2) demo_sound r(3,1,2), of "0x100" 0 0 0] spawn_refused_iff [OF s(2), of 0] by auto
  obtain U where U: "k_utasks s2 = [u \<mapsto> U]" "ut_recvbuf U = mb_empty"
    using s2(2) kern_inv_no_proc [OF s(2,4)] by (auto simp: made_process_def)
  have "unat (0 :: u32) < unat (k_next_pid s2)" using s2(3) by simp
  from kern_inv_pid [OF s2(1) this] obtain v V where "user_find 0 s2 = Some v" "k_utasks s2 v = Some V" "ut_pid V = 0" by blast
  then show ?thesis using s2(1,3,4) U by (auto split: if_splits)
qed

theorem message_send_delivers_witness:
  "\<exists>(s :: (addr \<Rightarrow> u8) ksys) s' u U p. p \<noteq> 0 \<and> mb_items (ut_recvbuf U) = [p] \<and> k_utasks s' u = Some U \<and>
     message_async_send demo_sv \<lparr>rg_eip = 0, rg_esp = 0, rg_ebp = 0\<rparr> (\<lambda>j s. None) p s = Some (0, s')"
proof -
  obtain s :: "(addr \<Rightarrow> u8) ksys" and u U where s: "kern_inv s" "k_next_pid s = 1" "user_find 0 s = Some u" "k_utasks s u = Some U"
    "ut_recvbuf U = mb_empty" "kroom 64 4 s"
    using demo_one_process by blast
  have "kroom (roundup16 (unat (20 :: u32))) 1 s" using s(6) by (simp add: kroom_def roundup16_def)
  then obtain p h where p: "p \<noteq> 0" "p \<notin> objs s" "kern_inv (s\<lparr>k_ls := (k_ls s)\<lparr>ls_heap := h\<rparr>\<rparr>)" "\<exists>j. (unat p, j) \<in> kheap_used h"
    using kern_inv_alloc [OF s(1), of demo_sv 20] demo_sound by (auto simp: sound_svc_def)
  let ?m = "\<lparr>dst = 0, src = 0, msgsz = 0, dat = 0, kdat = 0\<rparr>" and ?U = "U\<lparr>ut_msg_ack := False\<rparr>"
  let ?s1 = "s\<lparr>k_ls := (k_ls s)\<lparr>ls_heap := h\<rparr>\<rparr>"
  let ?s2 = "?s1\<lparr>k_utasks := (k_utasks s)(u \<mapsto> ?U)\<rparr>"
  let ?s = "?s2\<lparr>k_msgs := [p \<mapsto> ?m]\<rparr>"
  have k2: "kern_inv ?s2" by (rule kern_inv_same [OF p(3)]) (use s(4) in auto)
  then have k: "kern_inv ?s" by simp
  have f: "user_find 0 ?s = Some u" using user_find_pid [OF p(3), of u U ?U 0] s(3,4) by simp
  have n: "unat (dst ?m) < unat (k_next_pid ?s)" using s(2) by simp
  obtain T where T: "u \<noteq> 0" "k_tasks ?s (ut_task ?U) = Some T" using kern_inv_pid [OF k n] f by auto
  have l: "load (k_msgs ?s) p = Some ?m" "load (k_utasks ?s) u = Some ?U" "k_utasks ?s u = Some ?U"
    using T(1) p(1) by (simp_all add: load_def)
  have q: "length (mb_items (ut_recvbuf ?U)) < MSG_MAXCOUNT" "\<not> ut_msg_ack ?U" "mb_items (ut_recvbuf ?U) = []"
    using s(5) mb_empty_ok by (simp_all add: MSG_MAXCOUNT_def)
  have "queue_of (k_utasks ?s) = queue_of (k_utasks s)" using s(4) by (auto simp: queue_of_def)
  then have "objs ?s = objs s" using s(4) by (auto simp: objs_def kinds_def queued_def)
  then have o: "p \<notin> objs ?s" "\<exists>j. (unat p, j) \<in> kheap_used (ls_heap (k_ls ?s))" using p(2,4) by simp_all
  have f': "user_find (src ?m) ?s = Some u" "user_find (dst ?m) ?s = Some u" using f by simp_all
  from message_send_delivers [OF k l(1) n f'(1) l(2) q(2) f'(2) l(3) T(2) q(1) o, of demo_sv "\<lparr>rg_eip = 0, rg_esp = 0, rg_ebp = 0\<rparr>" "\<lambda>j s. None"] q(3)
  obtain b s' where b: "message_async_send demo_sv \<lparr>rg_eip = 0, rg_esp = 0, rg_ebp = 0\<rparr> (\<lambda>j s. None) p ?s = Some (0, s')"
    "mb_items b = [p]" "k_utasks s' u = Some (?U\<lparr>ut_recvbuf := b\<rparr>)"
    by fastforce
  then show ?thesis using p(1) by force
qed

text \<open>The same with the process about to run.\<close>

lemma kern_inv_run:
  assumes "kern_inv s" and "k_utasks s u = Some U"
  shows "\<exists>c. kern_inv (s\<lparr>k_current := c\<rparr>) \<and> cur_utask (s\<lparr>k_current := c\<rparr>) = Some u"
proof -
  obtain xs ts ys us where rep: "kern_rep kheap_inv kheap_used s xs ts ys us" "length us < 2 ^ 31" "length xs = Suc (length us)"
    using assms(1) by (auto simp: kern_inv_def)
  have "u \<in> set us" using rep(1) assms(2) by (auto simp: kern_rep_def)
  then obtain T where T: "k_tasks s (ut_task U) = Some T" "ut_task U \<in> set ts" "ut_task U \<noteq> 0" "t_parent T = u"
    using kern_rep_proc [OF rep(1)] assms(2) by fastforce
  have l: "list_rep (k_ls s) (k_task_order s) True xs ts" using rep(1) by (simp add: kern_rep_def)
  have "length xs = length ts" using l by (auto simp: list_rep_def)
  then obtain i where i: "i < length xs" "ts ! i = ut_task U" using T(2) by (auto simp: in_set_conv_nth)
  obtain n where n: "load (ls_nodes (k_ls s)) (xs ! i) = Some n" "n_data n = ts ! i" using list_rep_node [OF l i(1)] by blast
  let ?s = "s\<lparr>k_current := xs ! i\<rparr>"
  have "objs_ok kheap_inv kheap_used ?s" using kern_inv_ok [OF assms(1)] by (rule objs_ok_cong) (simp_all add: kinds_def objs_ok_def kern_inv_ok [OF assms(1), unfolded objs_ok_def])
  moreover have "iobm_ok ?s = iobm_ok s" "parent_ok ?s us = parent_ok s us" "proc_ok ?s ts = proc_ok s ts" "pid_of ?s = pid_of s"
    by (auto simp: iobm_ok_def parent_ok_def proc_ok_def pid_of_def fun_eq_iff)
  ultimately have "kern_rep kheap_inv kheap_used ?s xs ts ys us" using rep(1) i(1) by (simp add: kern_rep_def)
  then have "kern_inv ?s" using rep(2,3) unfolding kern_inv_def by blast
  moreover have "cur_utask ?s = Some u" using n i(2) T by (simp add: cur_utask_def cur_task_def load_def)
  ultimately show ?thesis by blast
qed

subsection \<open>From the sender to the receiver\<close>

lemma page_loop_ends:
  assumes "\<And>i v. \<exists>r v'. f i v = Some (r, v')" and "unat n \<le> 0xFF000"
  shows "\<exists>v'. page_loop f i n v = Some v'"
proof (induction "unat n - unat i" arbitrary: i v rule: less_induct)
  case less
  show ?case
  proof (cases "i < n")
    case True
    obtain r v1 where f: "f i v = Some (r, v1)" using assms(1) by blast
    have i: "unat i < unat n" using True by (simp add: word_less_nat_alt)
    then have "unat (i + 0x1000) = unat i + 0x1000" using assms(2) by (simp add: unat_word_ariths)
    then have "unat n - unat (i + 0x1000) < unat n - unat i" using i by linarith
    from less [OF this, of v1] show ?thesis using True f by (subst page_loop.simps) simp
  qed (subst page_loop.simps, simp)
qed

lemma kern_inv_utask_nz: "kern_inv s \<Longrightarrow> k_utasks s u = Some U \<Longrightarrow> u \<noteq> 0"
proof -
  assume h: "kern_inv s" "k_utasks s u = Some U"
  have "u \<in> objs s" using h(2) by (auto simp: objs_def kinds_def)
  then obtain k where "(unat u, k) \<in> kheap_used (ls_heap (k_ls s))" using kern_inv_used [OF h(1)] by blast
  then show ?thesis using kern_inv_ok [OF h(1)] kh.used_pos [of "ls_heap (k_ls s)" "unat u" k] by (auto simp: objs_ok_def)
qed

lemma user_find_self:
  assumes "kern_inv s" and "k_utasks s p = Some P"
  shows "user_find (ut_pid P) s = Some p"
proof -
  obtain xs ts ys us where rep: "kern_rep kheap_inv kheap_used s xs ts ys us" "length us < 2 ^ 31"
    using assms(1) by (auto simp: kern_inv_def)
  have "p \<in> set us" using rep(1) assms(2) by (auto simp: kern_rep_def)
  then obtain i where i: "i < length us" "us ! i = p" by (auto simp: in_set_conv_nth)
  have pids: "map (pid_of s) us = map of_nat [0..<length us]" using rep(1) by (simp add: kern_rep_def)
  then have "map (pid_of s) us ! i = map of_nat [0..<length us] ! i" by (simp only:)
  then have "ut_pid P = of_nat i" using i assms(2) by (simp add: pid_of_def)
  moreover have "unat (of_nat i :: u32) = i" using i(1) rep(2) by (simp add: unat_of_nat)
  ultimately show ?thesis using kern_rep_find [OF rep(1)] rep(2) i by simp
qed

text \<open>Receiving when a message waits, in the invariant.\<close>

lemma async_recv_ok:
  assumes "kern_inv s" and "cur_utask s = Some u" and "k_utasks s u = Some U"
    and "mb_items (ut_recvbuf U) = m # q" and "0 < mb_reads_left (ut_recvbuf U)"
  shows "\<exists>b. message_async_recv sv rg env s =
      Some (m, s\<lparr>k_enabled := True, k_utasks := (k_utasks s)(u \<mapsto> U\<lparr>ut_recvbuf := b\<rparr>)\<rparr>) \<and> mb_items b = q \<and> m \<noteq> 0 \<and>
    kern_inv (s\<lparr>k_utasks := (k_utasks s)(u \<mapsto> U\<lparr>ut_recvbuf := b\<rparr>)\<rparr>) \<and>
    m \<notin> objs (s\<lparr>k_utasks := (k_utasks s)(u \<mapsto> U\<lparr>ut_recvbuf := b\<rparr>)\<rparr>) \<and> (\<exists>k. (unat m, k) \<in> kheap_used (ls_heap (k_ls s)))"
proof -
  obtain b where b: "message_pop (ut_recvbuf U) = Some (m, b)" "mb_items b = q" "m \<noteq> 0"
    "\<exists>k. (unat m, k) \<in> kheap_used (ls_heap (k_ls s))"
    "kern_inv (s\<lparr>k_utasks := (k_utasks s)(u \<mapsto> U\<lparr>ut_recvbuf := b\<rparr>)\<rparr>)"
    "m \<notin> objs (s\<lparr>k_utasks := (k_utasks s)(u \<mapsto> U\<lparr>ut_recvbuf := b\<rparr>)\<rparr>)"
    using kern_inv_pop [OF assms(1,3-5)] by blast
  have "mb_count (ut_recvbuf U) \<noteq> 0" using assms(4) by (auto simp: mb_items_def)
  moreover have "u \<noteq> 0" using kern_inv_utask_nz [OF assms(1,3)] .
  moreover have "cur_utask (tasking_disable s) = cur_utask s" by (simp add: tasking_disable_def cur_utask_def cur_task_def)
  ultimately have "message_async_recv sv rg env s =
      Some (m, s\<lparr>k_enabled := True, k_utasks := (k_utasks s)(u \<mapsto> U\<lparr>ut_recvbuf := b\<rparr>)\<rparr>)"
    using assms(2,3) b(1)
    by (simp add: message_async_recv_def recv_pop_def on_utask_def tasking_disable_def tasking_enable_def load_def)
  then show ?thesis using b by blast
qed

text \<open>Copying a message out to the caller and freeing the kernel's.\<close>

lemma msg_deliver_ok:
  assumes "kern_inv s" and "sound_svc sv" and "\<And>p a f v. \<exists>r v'. sv_remappg sv p a f v = Some (r, v')"
    and "load (k_msgs s) k = Some m" and "unat (msgsz m) \<le> 0xFF000" and "load (k_msgs s) buf = Some m0" and "k \<notin> objs s" and "buf \<noteq> k"
  shows "\<exists>s'. msg_deliver sv f k buf s = Some (0, s') \<and> kern_inv s' \<and> k_msgs s' buf = Some m \<and> k_msgs s' k = None \<and>
    kheap_used (ls_heap (k_ls s')) = {x \<in> kheap_used (ls_heap (k_ls s)). fst x \<noteq> unat k} \<and> k_utasks s' = k_utasks s"
proof -
  obtain v where v: "map_buffer sv (kdat m) (dat m) f (msgsz m) (k_vm s) = Some v"
    unfolding map_buffer_def
    using page_loop_ends [of "\<lambda>i v. sv_remappg sv (sv_getphys sv (kdat m + i) v) (i + dat m) f v", OF assms(3,5)] by blast
  have "kheap_inv (ls_heap (k_ls s))" using kern_inv_ok [OF assms(1)] by (simp add: objs_ok_def)
  then obtain h where h: "kfree k (ls_heap (k_ls s)) = Some h" "kheap_inv h"
    "kheap_used h = {x \<in> kheap_used (ls_heap (k_ls s)). fst x \<noteq> unat k}" using kfree_any by blast
  have sv: "sv_free sv = kfree" using assms(2) by (simp add: sound_svc_def)
  let ?s1 = "s\<lparr>k_vm := v, k_msgs := (k_msgs s)(buf \<mapsto> m)\<rparr>"
  let ?s2 = "?s1\<lparr>k_ls := (k_ls s)\<lparr>ls_heap := h\<rparr>\<rparr>"
  have f: "k_free sv k ?s1 = Some ?s2" using sv h(1) by (simp add: k_free_def)
  have "kern_inv ?s1" using assms(1) by (simp only: kern_inv_plain kern_inv_msgs)
  then have "kern_inv ?s2" by (rule kern_inv_free [OF _ sv _ f]) (use assms(7) in simp)
  then have i: "kern_inv (?s2\<lparr>k_msgs := (k_msgs ?s2)(k := None)\<rparr>)" by (simp only: kern_inv_msgs)
  have "msg_deliver sv f k buf s = Some (0, ?s2\<lparr>k_msgs := (k_msgs ?s2)(k := None)\<rparr>)"
    using assms(4,6) v f by (simp add: msg_deliver_def Let_def)
  then show ?thesis using i h(3) assms(8) by auto
qed

text \<open>The system calls: what was sent is received, whatever the kernel does in between.\<close>

lemma message_passes:
  assumes "kern_inv s" and "sound_svc sv" and "\<And>p a f v. \<exists>r v'. sv_remappg sv p a f v = Some (r, v')"
    and "cur_utask s = Some p" and "k_utasks s p = Some P" and "\<not> ut_msg_ack P"
    and "load (k_msgs s) msg = Some m" and "msgsz m < 0xFF000" and "kroom 32 1 s"
    and "user_find pid s = Some u" and "k_utasks s u = Some U"
    and "mb_items (ut_recvbuf U) = []" and "0 < mb_reads_left (ut_recvbuf U)"
  shows "\<exists>k s1. syscall_msg_send sv rg env msg pid s = Some (0, s1) \<and> kern_inv s1 \<and> queue_of (k_utasks s1) u = [k] \<and> (\<exists>n. (unat k, n) \<in> kheap_used (ls_heap (k_ls s1))) \<and>
    (\<forall>s2 buf m0. kern_inv s2 \<longrightarrow> cur_utask s2 = Some u \<longrightarrow> map_option ut_recvbuf (k_utasks s2 u) = map_option ut_recvbuf (k_utasks s1 u) \<longrightarrow> k_msgs s2 k = k_msgs s1 k \<longrightarrow>
      load (k_msgs s2) buf = Some m0 \<longrightarrow> buf \<noteq> k \<longrightarrow>
      (\<exists>s3. syscall_msg_recv sv rg env buf s2 = Some (0, s3) \<and> k_msgs s3 buf = Some (m\<lparr>src := ut_pid P, dst := pid\<rparr>) \<and>
        kern_inv s3 \<and> queue_of (k_utasks s3) u = [] \<and> (\<forall>n. (unat k, n) \<notin> kheap_used (ls_heap (k_ls s3)))))"
proof -
  have al: "sv_alloc sv = kalloc" using assms(2) by (simp add: sound_svc_def)
  let ?m1 = "m\<lparr>src := ut_pid P, dst := pid\<rparr>"
  let ?s1 = "s\<lparr>k_msgs := (k_msgs s)(msg \<mapsto> ?m1)\<rparr>"
  have k1: "kern_inv ?s1" using assms(1) by simp
  note nz = kern_inv_utask_nz [OF assms(1)]
  have "kroom (roundup16 (unat (20 :: u32))) 1 ?s1" using assms(9) by (simp add: kroom_def roundup16_def)
  then obtain k h where k: "k_alloc sv 20 ?s1 = Some (k, ?s1\<lparr>k_ls := (k_ls ?s1)\<lparr>ls_heap := h\<rparr>\<rparr>)" "k \<noteq> 0" "k \<notin> objs ?s1"
    "kern_inv (?s1\<lparr>k_ls := (k_ls ?s1)\<lparr>ls_heap := h\<rparr>\<rparr>)" "\<exists>j. (unat k, j) \<in> kheap_used h"
    using kern_inv_alloc [OF k1 al, of 20] by auto
  let ?s2 = "?s1\<lparr>k_ls := (k_ls ?s1)\<lparr>ls_heap := h\<rparr>\<rparr>"
  let ?s3 = "?s2\<lparr>k_msgs := (k_msgs ?s2)(k \<mapsto> ?m1)\<rparr>"
  have sz: "unat (msgsz ?m1) \<le> 0xFF000" "\<not> 0xFF000 \<le> msgsz m" using assms(8) by (simp_all add: word_less_nat_alt word_le_nat_alt)
  obtain v where v: "page_loop (\<lambda>i v. sv_remappg sv 0 (i + dat ?m1) 0 v) 0 (msgsz ?m1) (k_vm ?s3) = Some v"
    using page_loop_ends [of "\<lambda>i v. sv_remappg sv 0 (i + dat ?m1) 0 v", OF assms(3) sz(1)] by blast
  let ?s4 = "?s3\<lparr>k_vm := v\<rparr>"
  have i4: "kern_inv ?s4" using k(4) by (simp only: kern_inv_plain kern_inv_msgs)
  have "msg \<noteq> 0" using assms(7) by (auto simp: opt_simps)
  then have e: "syscall_msg_send sv rg env msg pid s = do { (r, s4) \<leftarrow> message_async_send sv rg env k ?s4; Some (0, s4) }"
    using assms(4,5,7) sz(2) nz [OF assms(5)] k(1,2) v by (simp add: syscall_msg_send_def Let_def load_def)
  have pid: "unat pid < unat (k_next_pid s)" using kern_inv_table [OF assms(1), of pid] assms(10) nz [OF assms(11)] by (auto split: if_splits)
  then obtain T where T: "k_tasks s (ut_task U) = Some T" using kern_inv_pid [OF assms(1) pid] assms(10,11) by auto
  have l: "load (k_msgs ?s4) k = Some ?m1" "load (k_utasks ?s4) p = Some P" using k(2) assms(5) nz [OF assms(5)] by (simp_all add: load_def)
  have f: "user_find (src ?m1) ?s4 = Some p" "user_find (dst ?m1) ?s4 = Some u" using user_find_self [OF assms(1,5)] assms(10) by simp_all
  have o: "k \<notin> objs ?s4" "\<exists>j. (unat k, j) \<in> kheap_used (ls_heap (k_ls ?s4))" using k(3,5) by (simp_all add: objs_def kinds_def)
  have q: "unat (dst ?m1) < unat (k_next_pid ?s4)" "k_utasks ?s4 u = Some U" "k_tasks ?s4 (ut_task U) = Some T"
    "length (mb_items (ut_recvbuf U)) < MSG_MAXCOUNT" using pid assms(11,12) T by (simp_all add: MSG_MAXCOUNT_def)
  obtain b s5 where b: "message_async_send sv rg env k ?s4 = Some (0, s5)" "kern_inv s5" "mb_items b = [k]"
    "mb_reads_left b = mb_reads_left (ut_recvbuf U)" "k_utasks s5 = (k_utasks s)(u \<mapsto> U\<lparr>ut_recvbuf := b\<rparr>)" "k_msgs s5 = k_msgs ?s4" "k_ls s5 = k_ls ?s4"
    using async_send_ok [OF i4 l(1) q(1) f(1) l(2) assms(6) f(2) q(2-4) o, of sv rg env] assms(12) by auto
  have recv: "\<exists>s3. syscall_msg_recv sv rg env buf s2 = Some (0, s3) \<and> k_msgs s3 buf = Some ?m1 \<and>
        kern_inv s3 \<and> queue_of (k_utasks s3) u = [] \<and> (\<forall>n. (unat k, n) \<notin> kheap_used (ls_heap (k_ls s3)))"
    if h: "kern_inv s2" "cur_utask s2 = Some u" "map_option ut_recvbuf (k_utasks s2 u) = map_option ut_recvbuf (k_utasks s5 u)" "k_msgs s2 k = k_msgs s5 k"
      "load (k_msgs s2) buf = Some m0" "buf \<noteq> k" for s2 :: "'a ksys" and buf m0
  proof -
    obtain V where U2: "k_utasks s2 u = Some V" "ut_recvbuf V = b" using h(3) b(5) by auto
    let ?t = "\<lambda>b'. s2\<lparr>k_utasks := (k_utasks s2)(u \<mapsto> V\<lparr>ut_recvbuf := b'\<rparr>)\<rparr>"
    obtain b' where b': "message_async_recv sv rg env s2 =
        Some (k, s2\<lparr>k_enabled := True, k_utasks := (k_utasks s2)(u \<mapsto> V\<lparr>ut_recvbuf := b'\<rparr>)\<rparr>)" "mb_items b' = []"
      "kern_inv (?t b')" "k \<notin> objs (?t b')"
      using async_recv_ok [OF h(1,2) U2(1), of k "[]" sv rg env] U2(2) b(3,4) assms(13) by auto
    let ?r = "s2\<lparr>k_enabled := True, k_utasks := (k_utasks s2)(u \<mapsto> V\<lparr>ut_recvbuf := b'\<rparr>)\<rparr>"
    have ki: "kern_inv ?r" by (rule kern_inv_same [OF b'(3)]) auto
    have ko: "k \<notin> objs ?r" using b'(4) by (simp add: objs_def kinds_def)
    have lk: "load (k_msgs ?r) k = Some ?m1" using h(4) b(6) k(2) by (simp add: load_def)
    have lb: "load (k_msgs ?r) buf = Some m0" using h(5) by simp
    obtain s3 where s3: "msg_deliver sv 7 k buf ?r = Some (0, s3)" "kern_inv s3" "k_msgs s3 buf = Some ?m1"
      "kheap_used (ls_heap (k_ls s3)) = {x \<in> kheap_used (ls_heap (k_ls ?r)). fst x \<noteq> unat k}" "k_utasks s3 = k_utasks ?r"
      using msg_deliver_ok [OF ki assms(2,3) lk sz(1) lb ko h(6)] by blast
    have "buf \<noteq> 0" using h(5) by (auto simp: opt_simps)
    then have "syscall_msg_recv sv rg env buf s2 = Some (0, s3)" using b'(1) s3(1) by (simp add: syscall_msg_recv_def)
    moreover have "queue_of (k_utasks s3) u = []" using s3(5) b'(2) by (simp add: queue_of_def)
    ultimately show ?thesis using s3(2-4) by auto
  qed
  have "syscall_msg_send sv rg env msg pid s = Some (0, s5)" using e b(1) by simp
  moreover have "queue_of (k_utasks s5) u = [k]" using b(3,5) by (simp add: queue_of_def)
  moreover have "\<exists>n. (unat k, n) \<in> kheap_used (ls_heap (k_ls s5))" using k(5) b(7) by simp
  ultimately show ?thesis using b(2) recv by blast
qed

end
