(* ===== verification/LibcHeap.thy ===== *)
theory LibcHeap
  imports Links Heaps
begin

text \<open>
  The heap of a process, \<^verbatim>\<open>lib/libc/stdlib/heap.c\<close>: like that of the kernel a list of headers, kept in pages
  of their own, and a list of unused headers; the lowest bit of \<^verbatim>\<open>flags\<close> says whether a block is taken. The
  calls of \<^verbatim>\<open>micro_allocpgs\<close> and the copying of \<^verbatim>\<open>realloc\<close> are recorded in \<open>lh_reqs\<close>, in order.
\<close>

datatype lreq = Pages addr u32 u32 | Copy addr addr u32

record lbin =
  lb_prev :: addr
  lb_next :: addr
  lb_addr :: addr
  lb_flags :: u32

record lheap =
  lh_bins :: "lbin store"
  lh_tail :: addr
  lh_head :: addr
  lh_bin_next :: addr
  lh_ehead :: addr
  lh_pg :: bool
  lh_reqs :: "lreq list"

definition BIN_TAKEN :: "u32 \<Rightarrow> u32" where "BIN_TAKEN flg = flg AND 1"
definition BIN_SIZE :: "u32 \<Rightarrow> u32" where "BIN_SIZE flg = flg AND 0xFFFFFFFE"
definition PG_BIN_START :: addr where "PG_BIN_START = 0x80000000"
definition PG_HEAP_START :: addr where "PG_HEAP_START = 0x81000000"

definition zero_lbin :: lbin where
  "zero_lbin = \<lparr>lb_prev = 0, lb_next = 0, lb_addr = 0, lb_flags = 0\<rparr>"

abbreviation lbin_at :: "lheap \<Rightarrow> addr \<Rightarrow> lbin option" where
  "lbin_at s p \<equiv> load (lh_bins s) p"

definition on_lbin :: "addr \<Rightarrow> (lbin \<Rightarrow> lbin) \<Rightarrow> lheap \<Rightarrow> lheap option" where
  "on_lbin p f s = do { m \<leftarrow> modify (lh_bins s) p f; Some (s\<lparr>lh_bins := m\<rparr>) }"

text \<open>\<^verbatim>\<open>micro_allocpgs\<close>, which the code calls only if paging is on.\<close>

definition l_pages :: "addr \<Rightarrow> u32 \<Rightarrow> lheap \<Rightarrow> lheap" where
  "l_pages a n s = (if lh_pg s then s\<lparr>lh_reqs := lh_reqs s @ [Pages a n 7]\<rparr> else s)"

text \<open>The header behind \<^verbatim>\<open>bin_next\<close> is only there once its page is.\<close>

definition find_free_lbin :: "lheap \<Rightarrow> (addr \<times> lheap) option" where
  "find_free_lbin s =
     (if lh_ehead s \<noteq> 0 then do {
        let bin = lh_ehead s;
        b \<leftarrow> lbin_at s bin;
        Some (bin, s\<lparr>lh_ehead := lb_next b\<rparr>) }
      else do {
        let s1 = s\<lparr>lh_bin_next := lh_bin_next s + 16\<rparr>;
        let s2 = l_pages (lh_bin_next s1) 16 s1;
        if \<not> lh_pg s2 then None
        else Some (lh_bin_next s2, s2\<lparr>lh_bins := (lh_bins s2)(lh_bin_next s2 \<mapsto> zero_lbin)\<rparr>) })"

definition add_lbin :: "addr \<Rightarrow> addr \<Rightarrow> u32 \<Rightarrow> lheap \<Rightarrow> (addr \<times> lheap) option" where
  "add_lbin parent a sz s =
     (if parent = 0 then Some (0, s)
      else if sz = 0 then Some (0, s)
      else do {
        (newbin, s1) \<leftarrow> find_free_lbin s;
        s2 \<leftarrow> on_lbin newbin (\<lambda>b. zero_lbin) s1;
        pb \<leftarrow> lbin_at s2 parent;
        s3 \<leftarrow> on_lbin newbin (\<lambda>b. b\<lparr>lb_next := lb_next pb, lb_prev := parent\<rparr>) s2;
        nb \<leftarrow> lbin_at s3 newbin;
        s4 \<leftarrow> (if lb_next nb \<noteq> 0 then on_lbin (lb_next nb) (\<lambda>b. b\<lparr>lb_prev := newbin\<rparr>) s3 else Some s3);
        s5 \<leftarrow> on_lbin parent (\<lambda>b. b\<lparr>lb_next := newbin\<rparr>) s4;
        let s6 = (if parent = lh_tail s5 then s5\<lparr>lh_tail := newbin\<rparr> else s5);
        s7 \<leftarrow> on_lbin newbin (\<lambda>b. b\<lparr>lb_flags := sz, lb_addr := a\<rparr>) s6;
        Some (newbin, l_pages a sz s7) })"

partial_function (option) last_ehead :: "lbin store \<Rightarrow> addr \<Rightarrow> addr option" where
  "last_ehead m e = do {
     b \<leftarrow> load m e;
     if lb_next b \<noteq> 0 then last_ehead m (lb_next b) else Some e }"

definition remove_lbin :: "addr \<Rightarrow> lheap \<Rightarrow> lheap option" where
  "remove_lbin bin s = do {
     b \<leftarrow> lbin_at s bin;
     s1 \<leftarrow> (if lb_next b \<noteq> 0 then on_lbin (lb_next b) (\<lambda>n. n\<lparr>lb_prev := lb_prev b\<rparr>) s else Some s);
     b1 \<leftarrow> lbin_at s1 bin;
     s2 \<leftarrow> (if lb_prev b1 \<noteq> 0 then on_lbin (lb_prev b1) (\<lambda>n. n\<lparr>lb_next := lb_next b1\<rparr>) s1 else Some s1);
     if lh_head s2 = lh_tail s2 \<and> lh_head s2 = bin then Some s2
     else do {
       b2 \<leftarrow> lbin_at s2 bin;
       let s3 = (if lh_head s2 = bin then s2\<lparr>lh_head := lb_next b2\<rparr> else s2);
       let s4 = (if lh_tail s3 = bin then s3\<lparr>lh_tail := lb_prev b2\<rparr> else s3);
       if lh_ehead s4 \<noteq> 0 then do {
         e \<leftarrow> last_ehead (lh_bins s4) (lh_ehead s4);
         s5 \<leftarrow> on_lbin e (\<lambda>n. n\<lparr>lb_next := bin\<rparr>) s4;
         on_lbin bin (\<lambda>n. n\<lparr>lb_prev := e\<rparr>) s5 }
       else Some (s4\<lparr>lh_ehead := bin\<rparr>) } }"

definition append_lbin :: "u32 \<Rightarrow> lheap \<Rightarrow> (addr \<times> lheap) option" where
  "append_lbin sz s = do {
     t \<leftarrow> lbin_at s (lh_tail s);
     add_lbin (lh_tail s) (lb_addr t + BIN_SIZE (lb_flags t)) sz s }"

text \<open>The two halves of the body of the loop of \<^verbatim>\<open>merge_bin\<close>; the flag is \<^verbatim>\<open>merged\<close>.\<close>

definition lmerge_next :: "addr \<Rightarrow> lheap \<Rightarrow> (bool \<times> lheap) option" where
  "lmerge_next mergee s = do {
     b \<leftarrow> lbin_at s mergee;
     if lb_next b \<noteq> 0 then do {
       n \<leftarrow> lbin_at s (lb_next b);
       if BIN_TAKEN (lb_flags b) \<noteq> 1 \<and> BIN_TAKEN (lb_flags n) \<noteq> 1 then do {
         s1 \<leftarrow> on_lbin mergee (\<lambda>c. c\<lparr>lb_flags := lb_flags c + BIN_SIZE (lb_flags n)\<rparr>) s;
         let s2 = (if lb_next b = lh_tail s1 then s1\<lparr>lh_tail := mergee\<rparr> else s1);
         let s3 = (if mergee = lh_head s2 then s2\<lparr>lh_head := lb_next b\<rparr> else s2);
         s4 \<leftarrow> remove_lbin (lb_next b) s3;
         Some (True, s4) }
       else Some (False, s) }
     else Some (False, s) }"

definition lmerge_prev :: "addr \<Rightarrow> lheap \<Rightarrow> (bool \<times> lheap) option" where
  "lmerge_prev mergee s = do {
     b \<leftarrow> lbin_at s mergee;
     if lb_prev b \<noteq> 0 then do {
       n \<leftarrow> lbin_at s (lb_prev b);
       if BIN_TAKEN (lb_flags b) \<noteq> 1 \<and> BIN_TAKEN (lb_flags n) \<noteq> 1 then do {
         s1 \<leftarrow> on_lbin mergee (\<lambda>c. c\<lparr>lb_flags := lb_flags c + BIN_SIZE (lb_flags n)\<rparr>) s;
         let s2 = (if mergee = lh_tail s1 then s1\<lparr>lh_tail := lb_prev b\<rparr> else s1);
         let s3 = (if lb_prev b = lh_head s2 then s2\<lparr>lh_head := mergee\<rparr> else s2);
         s4 \<leftarrow> remove_lbin (lb_prev b) s3;
         Some (True, s4) }
       else Some (False, s) }
     else Some (False, s) }"

partial_function (option) lmerge_bin :: "addr \<Rightarrow> lheap \<Rightarrow> (addr \<times> lheap) option" where
  "lmerge_bin mergee s = do {
     (m1, s1) \<leftarrow> lmerge_next mergee s;
     (m2, s2) \<leftarrow> lmerge_prev mergee s1;
     if m1 \<or> m2 then lmerge_bin mergee s2 else Some (mergee, s2) }"

definition split_lbin :: "addr \<Rightarrow> u32 \<Rightarrow> lheap \<Rightarrow> lheap option" where
  "split_lbin bin sz s = do {
     b \<leftarrow> lbin_at s bin;
     if BIN_SIZE (lb_flags b) = sz then Some s
     else do {
       let sdif = BIN_SIZE (lb_flags b) - sz;
       let naddr = lb_addr b + sz;
       (q, s1) \<leftarrow> add_lbin bin naddr sdif s;
       on_lbin bin (\<lambda>c. c\<lparr>lb_flags := sz\<rparr>) s1 } }"

text \<open>\<^verbatim>\<open>sdif\<close> is signed, but compared as unsigned.\<close>

partial_function (option) lbest_fit_loop :: "lbin store \<Rightarrow> u32 \<Rightarrow> addr \<Rightarrow> addr \<Rightarrow> addr option" where
  "lbest_fit_loop m sz bin best =
     (if bin = 0 then Some best
      else do {
        b \<leftarrow> load m bin;
        if BIN_TAKEN (lb_flags b) \<noteq> 0 then lbest_fit_loop m sz (lb_next b) best
        else if BIN_SIZE (lb_flags b) < sz then lbest_fit_loop m sz (lb_next b) best
        else if best = 0 then lbest_fit_loop m sz (lb_next b) bin
        else do {
          let sdif = BIN_SIZE (lb_flags b) - sz;
          bb \<leftarrow> load m best;
          if sdif < BIN_SIZE (lb_flags bb) - sz then lbest_fit_loop m sz (lb_next b) bin
          else lbest_fit_loop m sz (lb_next b) best } })"

definition lfind_best_fit :: "u32 \<Rightarrow> lheap \<Rightarrow> addr option" where
  "lfind_best_fit sz s = lbest_fit_loop (lh_bins s) sz (lh_head s) 0"

definition malloc :: "u32 \<Rightarrow> lheap \<Rightarrow> (addr \<times> lheap) option" where
  "malloc n s =
     (if n = 0 then Some (0, s)
      else do {
        let sz = (n + 1) div 2 * 2;
        best \<leftarrow> lfind_best_fit sz s;
        (best1, s1) \<leftarrow>
          (if best = 0 then do {
             t \<leftarrow> lbin_at s (lh_tail s);
             if lb_flags t AND 1 \<noteq> 0 then append_lbin sz s
             else do {
               s2 \<leftarrow> on_lbin (lh_tail s) (\<lambda>c. c\<lparr>lb_flags := sz\<rparr>) s;
               Some (lh_tail s, l_pages (lb_addr t) (sz + 1) s2) } }
           else Some (best, s));
        s3 \<leftarrow> split_lbin best1 sz s1;
        s4 \<leftarrow> on_lbin best1 (\<lambda>c. c\<lparr>lb_flags := lb_flags c OR 1\<rparr>) s3;
        b \<leftarrow> lbin_at s4 best1;
        Some (lb_addr b, s4) })"

partial_function (option) lfree_loop :: "addr \<Rightarrow> addr \<Rightarrow> lheap \<Rightarrow> lheap option" where
  "lfree_loop mem bin s =
     (if bin = 0 then Some s
      else do {
        b \<leftarrow> lbin_at s bin;
        if lb_addr b = mem then do {
          s1 \<leftarrow> on_lbin bin (\<lambda>c. c\<lparr>lb_flags := BIN_SIZE (lb_flags c)\<rparr>) s;
          (m, s2) \<leftarrow> lmerge_bin bin s1;
          Some s2 }
        else lfree_loop mem (lb_next b) s })"

definition free :: "addr \<Rightarrow> lheap \<Rightarrow> lheap option" where
  "free mem s = lfree_loop mem (lh_head s) s"

text \<open>
  The loop of \<^verbatim>\<open>realloc\<close> declares a variable \<^verbatim>\<open>bin\<close> of its own, so that what it finds is lost; the \<^verbatim>\<open>bin\<close>
  that the code goes on with is never set. \<open>junk\<close> is the value it happens to have.
\<close>

partial_function (option) realloc_loop :: "lbin store \<Rightarrow> addr \<Rightarrow> addr \<Rightarrow> addr option" where
  "realloc_loop m ptr bin =
     (if bin = 0 then Some 0
      else do {
        b \<leftarrow> load m bin;
        if lb_addr b \<noteq> ptr then realloc_loop m ptr (lb_next b) else Some bin })"

definition realloc :: "addr \<Rightarrow> addr \<Rightarrow> u32 \<Rightarrow> lheap \<Rightarrow> (addr \<times> lheap) option" where
  "realloc junk ptr n s =
     (if n = 0 \<and> ptr \<noteq> 0 then do { s1 \<leftarrow> free ptr s; Some (0, s1) }
      else do {
        let sz = (n + 1) div 2 * 2;
        found \<leftarrow> realloc_loop (lh_bins s) ptr (lh_head s);
        if junk = 0 then Some (0, s)
        else do {
          b \<leftarrow> lbin_at s junk;
          if sz \<le> BIN_SIZE (lb_flags b) then Some (ptr, s)
          else do {
            (new, s1) \<leftarrow> malloc sz s;
            b1 \<leftarrow> lbin_at s1 junk;
            s2 \<leftarrow> free ptr (s1\<lparr>lh_reqs := lh_reqs s1 @ [Copy new ptr (BIN_SIZE (lb_flags b1))]\<rparr>);
            Some (new, s2) } } })"

text \<open>Without paging the three pointers keep the value 0 they start with.\<close>

definition heap_setup :: "bool \<Rightarrow> lheap" where
  "heap_setup paging =
     (if paging then
        \<lparr>lh_bins = [PG_BIN_START \<mapsto> zero_lbin\<lparr>lb_addr := PG_HEAP_START, lb_flags := 0x1000\<rparr>], lh_tail = PG_BIN_START,
         lh_head = PG_BIN_START, lh_bin_next = PG_BIN_START, lh_ehead = 0, lh_pg = True,
         lh_reqs = [Pages PG_BIN_START 16 7, Pages PG_HEAP_START 0x1000 7]\<rparr>
      else \<lparr>lh_bins = Map.empty, lh_tail = 0, lh_head = 0, lh_bin_next = 0, lh_ehead = 0, lh_pg = False, lh_reqs = []\<rparr>)"

end
