(* ===== verification/LibcHeap_Props.thy ===== *)
theory LibcHeap_Props
  imports LibcHeap
begin

text \<open>
  What the heap of a process promises: as long as nothing is freed it keeps the laws of \<open>allocator\<close>
  (\<open>lrep\<close> describes its state then, \<open>malloc_shape\<close> what a call does to it), so that the blocks handed out
  never overlap. Freeing breaks this: the two theorems at the end show how.
\<close>

subsection \<open>Sizes and flags\<close>

definition even_up :: "nat \<Rightarrow> nat" where
  "even_up n = (n + 1) div 2 * 2"

lemma even_up: "even (even_up n)" "n \<le> even_up n" "even_up n \<le> n + 1" "0 < n \<Longrightarrow> 0 < even_up n"
proof -
  have "(n + 1) div 2 * 2 = n + 1 - (n + 1) mod 2" by (simp add: minus_mod_eq_div_mult)
  then show "even (even_up n)" "n \<le> even_up n" "even_up n \<le> n + 1" "0 < n \<Longrightarrow> 0 < even_up n"
    unfolding even_up_def by simp_all
qed

lemma even_up_word: "unat n < 2 ^ 32 - 1 \<Longrightarrow> (n + 1) div 2 * 2 = (of_nat (even_up (unat n)) :: u32)" for n :: u32
proof -
  assume "unat n < 2 ^ 32 - 1"
  then have "unat (n + 1) = unat n + 1" by (simp add: u32_inc)
  then have "unat ((n + 1) div 2 * 2) = even_up (unat n)"
    using u32_bound [of n] by (simp add: unat_word_ariths unat_div even_up_def mod_less div_times_less_eq_dividend le_less_trans)
  then show ?thesis by (metis of_nat_unat ucast_id)
qed

lemma not_one: "w AND 0xFFFFFFFE = w - of_bool (odd w)" for w :: u32
proof -
  have "(0xFFFFFFFE :: u32) = NOT 1" by simp
  then have "w AND 0xFFFFFFFE = w AND NOT 1" by (simp only:)
  also have "(w AND NOT 1) + (w AND 1) = (w AND NOT 1) OR (w AND 1)" by (rule disjunctive_add) (auto simp: bit_simps)
  then have "(w AND NOT 1) + (w AND 1) = w" by (auto intro!: bit_word_eqI simp: bit_simps)
  then have "w AND NOT 1 = w - (w AND 1)" by (rule eq_diff_eq [THEN iffD2])
  also have "w AND 1 = of_bool (odd w)" unfolding and_one_eq by (rule mod_2_eq_odd)
  finally show ?thesis .
qed

lemma even_of_nat_u32: "even (of_nat n :: u32) \<longleftrightarrow> even n"
  by simp

lemma flags_even:
  assumes "even n"
  shows "BIN_TAKEN (of_nat n) = 0" "BIN_SIZE (of_nat n) = of_nat n" "BIN_TAKEN (of_nat (Suc n)) = 1"
    "BIN_SIZE (of_nat (Suc n)) = of_nat n" "(of_nat n :: u32) OR 1 = of_nat (Suc n)"
proof -
  have e: "even (of_nat n :: u32)" "odd (of_nat (Suc n) :: u32)" using assms by simp_all
  show "BIN_TAKEN (of_nat n) = 0" "BIN_TAKEN (of_nat (Suc n)) = 1"
    unfolding BIN_TAKEN_def and_one_eq using e by (simp_all add: mod_2_eq_odd)
  show "BIN_SIZE (of_nat n) = of_nat n" "BIN_SIZE (of_nat (Suc n)) = of_nat n"
    unfolding BIN_SIZE_def not_one using e by simp_all
  show "(of_nat n :: u32) OR 1 = of_nat (Suc n)" unfolding or_one_eq using e by simp
qed

subsection \<open>The heap as long as nothing is freed\<close>

text \<open>
  Header \<open>i\<close> lies at \<open>hdr i\<close>, and block \<open>i\<close> follows block \<open>i - 1\<close>. All blocks \<open>ms\<close> but the last are taken; the
  last one has size \<open>m\<close> and is taken if \<open>lt\<close>.
\<close>

definition hdr :: "nat \<Rightarrow> addr" where
  "hdr i = of_nat (0x80000000 + 16 * i)"

definition lprev :: "nat \<Rightarrow> addr" where
  "lprev i = (if i = 0 then 0 else hdr (i - 1))"

definition baddr :: "nat list \<Rightarrow> nat \<Rightarrow> addr" where
  "baddr ms i = of_nat (0x81000000 + sum_list (take i ms))"

definition lfull :: "nat list \<Rightarrow> nat \<Rightarrow> lbin" where
  "lfull ms i = \<lparr>lb_prev = lprev i, lb_next = hdr (Suc i), lb_addr = baddr ms i, lb_flags = of_nat (Suc (ms ! i))\<rparr>"

definition llast :: "nat list \<Rightarrow> nat \<Rightarrow> bool \<Rightarrow> lbin" where
  "llast ms m lt = \<lparr>lb_prev = lprev (length ms), lb_next = 0, lb_addr = baddr ms (length ms),
     lb_flags = of_nat (if lt then Suc m else m)\<rparr>"

definition lrep :: "lheap \<Rightarrow> nat list \<Rightarrow> nat \<Rightarrow> bool \<Rightarrow> bool" where
  "lrep s ms m lt \<longleftrightarrow> length ms < 0x100000 \<and> (\<forall>n \<in> set ms. even n \<and> 0 < n) \<and> even m \<and> 0 < m \<and>
     sum_list ms + m < 0x7EFFFFFF \<and> dom (lh_bins s) = hdr ` {..length ms} \<and>
     (\<forall>i < length ms. lh_bins s (hdr i) = Some (lfull ms i)) \<and> lh_bins s (hdr (length ms)) = Some (llast ms m lt) \<and>
     lh_head s = hdr 0 \<and> lh_tail s = hdr (length ms) \<and> lh_bin_next s = hdr (length ms) \<and> lh_ehead s = 0 \<and> lh_pg s"

lemma hdr_nat: "i \<le> 0x100000 \<Longrightarrow> unat (hdr i) = 0x80000000 + 16 * i"
  unfolding hdr_def by (rule u32_of_nat) simp

lemma hdr_inj: "i \<le> 0x100000 \<Longrightarrow> j \<le> 0x100000 \<Longrightarrow> hdr i = hdr j \<longleftrightarrow> i = j"
proof
  assume "i \<le> 0x100000" "j \<le> 0x100000" "hdr i = hdr j"
  then have "0x80000000 + 16 * i = 0x80000000 + 16 * j" using hdr_nat by metis
  then show "i = j" by simp
qed simp

lemma hdr_nz [simp]: "i \<le> 0x100000 \<Longrightarrow> hdr i \<noteq> 0"
proof
  assume "i \<le> 0x100000" "hdr i = 0"
  then have "0x80000000 + 16 * i = 0" using hdr_nat [of i] by simp
  then show False by simp
qed

lemma hdr_Suc: "hdr (Suc i) = hdr i + 16"
  by (simp add: hdr_def)

lemma baddr_nat: "i \<le> length ms \<Longrightarrow> sum_list ms < 0x7EFFFFFF \<Longrightarrow> unat (baddr ms i) = 0x81000000 + sum_list (take i ms)"
proof -
  assume "i \<le> length ms" "sum_list ms < 0x7EFFFFFF"
  moreover have "sum_list ms = sum_list (take i ms) + sum_list (drop i ms)"
    by (metis append_take_drop_id sum_list_append)
  ultimately show ?thesis unfolding baddr_def by (intro u32_of_nat) simp
qed

lemma baddr_append: "i \<le> length ms \<Longrightarrow> baddr (ms @ xs) i = baddr ms i"
  by (simp add: baddr_def)

lemma lfull_append: "i < length ms \<Longrightarrow> lfull (ms @ xs) i = lfull ms i"
  by (simp add: lfull_def baddr_append nth_append)

lemma lrep_load:
  assumes "lrep s ms m lt" and "i \<le> length ms"
  shows "lbin_at s (hdr i) = Some (if i < length ms then lfull ms i else llast ms m lt)"
  using assms by (auto simp: lrep_def load_def)

lemma even_small: "even m \<Longrightarrow> m < 0x7FFFFFFF \<Longrightarrow> BIN_TAKEN (of_nat (if lt then Suc m else m)) = of_bool lt \<and>
    BIN_SIZE (of_nat (if lt then Suc m else m)) = of_nat m"
  using flags_even [of m] by auto

text \<open>The search passes the taken blocks and looks at the last one.\<close>

lemma best_fit_rep:
  assumes rep: "lrep s ms m lt" and i: "i \<le> length ms" and z: "z < 0x7FFFFFFF"
  shows "lbest_fit_loop (lh_bins s) (of_nat z) (hdr i) 0 = Some (if \<not> lt \<and> z \<le> m then hdr (length ms) else 0)"
  using i
proof (induction "length ms - i" arbitrary: i)
  case 0
  then have i: "i = length ms" by simp
  have nz: "hdr i \<noteq> 0" using rep i by (simp add: lrep_def)
  have m: "even m" "m < 0x7FFFFFFF" using rep by (simp_all add: lrep_def)
  have le: "(of_nat m :: u32) < of_nat z \<longleftrightarrow> m < z" using m z by (simp add: word_less_nat_alt u32_of_nat)
  have "lbin_at s (hdr i) = Some (llast ms m lt)" using lrep_load [OF rep, of i] i by simp
  then show ?case using nz even_small [OF m, of lt] le i
    by (subst lbest_fit_loop.simps, cases lt) (auto simp: llast_def lbest_fit_loop.simps [of _ _ 0])
next
  case (Suc k)
  then have i: "i < length ms" by simp
  have nz: "hdr i \<noteq> 0" using rep i by (simp add: lrep_def)
  have "even (ms ! i)" using rep i by (simp add: lrep_def)
  then have t: "BIN_TAKEN (of_nat (Suc (ms ! i))) \<noteq> 0" using flags_even(3) by simp
  have "lbin_at s (hdr i) = Some (lfull ms i)" using lrep_load [OF rep, of i] i by simp
  then show ?case using nz t Suc.hyps(1) [of "Suc i"] Suc.hyps(2) i
    by (subst lbest_fit_loop.simps) (simp add: lfull_def)
qed

text \<open>A new header behind the last one.\<close>

lemma add_lbin_rep:
  assumes rep: "lrep s ms m lt" and room: "Suc (length ms) < 0x100000" and z: "0 < z" "z < 0x7FFFFFFF"
  shows "\<exists>s'. add_lbin (hdr (length ms)) a (of_nat z) s = Some (hdr (Suc (length ms)), s') \<and>
    lh_bins s' = (lh_bins s)(hdr (length ms) \<mapsto> (llast ms m lt)\<lparr>lb_next := hdr (Suc (length ms))\<rparr>,
      hdr (Suc (length ms)) \<mapsto> \<lparr>lb_prev = hdr (length ms), lb_next = 0, lb_addr = a, lb_flags = of_nat z\<rparr>) \<and>
    lh_head s' = lh_head s \<and> lh_tail s' = hdr (Suc (length ms)) \<and> lh_bin_next s' = hdr (Suc (length ms)) \<and>
    lh_ehead s' = 0 \<and> lh_pg s'"
proof -
  let ?p = "hdr (length ms)" and ?q = "hdr (Suc (length ms))"
  have nz: "?p \<noteq> 0" "?q \<noteq> 0" "?q \<noteq> ?p" "?p \<noteq> ?q" using room hdr_inj [of "Suc (length ms)" "length ms"] by simp_all
  have zz: "(of_nat z :: u32) \<noteq> 0" using z u32_of_nat [of z] by auto
  have l: "lbin_at s ?p = Some (llast ms m lt)" using lrep_load [OF rep, of "length ms"] by simp
  have st: "lh_ehead s = 0" "lh_bin_next s = ?p" "lh_pg s" "lh_tail s = ?p" using rep by (simp_all add: lrep_def)
  let ?r = "lh_reqs s @ [Pages ?q 16 7, Pages a (of_nat z) 7]"
  have "find_free_lbin s = Some (?q, s\<lparr>lh_bin_next := ?q, lh_reqs := lh_reqs s @ [Pages ?q 16 7], lh_bins := (lh_bins s)(?q \<mapsto> zero_lbin)\<rparr>)"
    using st by (simp add: find_free_lbin_def l_pages_def hdr_Suc Let_def)
  then show ?thesis using nz zz l st
    by (simp add: add_lbin_def on_lbin_def l_pages_def Let_def llast_def zero_lbin_def fun_upd_twist)
qed

lemma lrep_snoc:
  assumes rep: "lrep s ms m lt" and room: "Suc (length ms) < 0x100000" "sum_list ms + f + z < 0x7EFFFFFF" and fz: "even f" "0 < f" "even z" "0 < z"
    and s': "lh_bins s' = (lh_bins s)(hdr (length ms) \<mapsto> lfull (ms @ [f]) (length ms), hdr (Suc (length ms)) \<mapsto> llast (ms @ [f]) z lt')"
      "lh_head s' = lh_head s" "lh_tail s' = hdr (Suc (length ms))" "lh_bin_next s' = hdr (Suc (length ms))" "lh_ehead s' = 0" "lh_pg s'"
  shows "lrep s' (ms @ [f]) z lt'"
proof -
  have "lh_bins s' (hdr i) = Some (lfull (ms @ [f]) i)" if i: "i < Suc (length ms)" for i
  proof (cases "i = length ms")
    case True
    then show ?thesis using s'(1) room(1) hdr_inj [of "length ms" "Suc (length ms)"] by simp
  next
    case False
    then have "hdr i \<noteq> hdr (length ms)" "hdr i \<noteq> hdr (Suc (length ms))" "i < length ms"
      using i room(1) hdr_inj [of i "length ms"] hdr_inj [of i "Suc (length ms)"] by simp_all
    then show ?thesis using s'(1) rep by (simp add: lrep_def lfull_append)
  qed
  moreover have "dom (lh_bins s') = hdr ` {..Suc (length ms)}"
    using s'(1) rep by (auto simp: lrep_def atMost_Suc)
  ultimately show ?thesis using rep room fz s' by (simp add: lrep_def)
qed

lemma lrep_last:
  assumes rep: "lrep s ms m lt" and z: "even z" "0 < z" "sum_list ms + z < 0x7EFFFFFF"
    and s': "lh_bins s' = (lh_bins s)(hdr (length ms) \<mapsto> llast ms z lt')"
      "lh_head s' = lh_head s" "lh_tail s' = lh_tail s" "lh_bin_next s' = lh_bin_next s" "lh_ehead s' = 0" "lh_pg s'"
  shows "lrep s' ms z lt'"
proof -
  have "hdr i \<noteq> hdr (length ms)" if i: "i < length ms" for i
    using i rep hdr_inj [of i "length ms"] by (simp add: lrep_def)
  then show ?thesis using rep z s' by (auto simp: lrep_def)
qed

lemma baddr_snoc: "baddr (ms @ [f]) (Suc (length ms)) = baddr ms (length ms) + of_nat f"
  by (simp add: baddr_def)

lemma malloc_shape:
  assumes rep: "lrep s ms m lt" and n: "n \<noteq> 0" and z: "z = even_up (unat n)"
    and room: "Suc (length ms) < 0x100000" "sum_list ms + m + z < 0x7EFFFFFF"
  shows "\<exists>s'. malloc n s = Some (if lt then baddr (ms @ [m]) (Suc (length ms)) else baddr ms (length ms), s') \<and>
    (if lt then lrep s' (ms @ [m]) z True else if z < m then lrep s' (ms @ [z]) (m - z) False else lrep s' ms z True)"
proof -
  let ?k = "length ms" and ?z = "of_nat z :: u32"
  have z0: "even z" "0 < z" "z < 0x7EFFFFFF" using even_up [of "unat n"] n z room(2) by (simp_all add: unat_gt_0)
  have u: "unat n < 2 ^ 32 - 1" using even_up(2) [of "unat n"] z z0(3) by simp
  have zw: "(n + 1) div 2 * 2 = ?z" using even_up_word [OF u] z by simp
  have m0: "even m" "0 < m" "m < 0x7EFFFFFF" using rep room(2) by (simp_all add: lrep_def)
  have zz: "?z \<noteq> 0" using z0 u32_of_nat [of z] by auto
  have eq: "(of_nat m :: u32) = ?z \<longleftrightarrow> m = z" using m0 z0 u32_of_nat [of z] u32_of_nat [of m] by auto
  have best: "lfind_best_fit ?z s = Some (if \<not> lt \<and> z \<le> m then hdr ?k else 0)"
    unfolding lfind_best_fit_def using best_fit_rep [OF rep, of 0 z] rep z0(3) by (simp add: lrep_def)
  have k0: "hdr ?k \<noteq> 0" "hdr (Suc ?k) \<noteq> 0" "hdr (Suc ?k) \<noteq> hdr ?k" "hdr ?k \<noteq> hdr (Suc ?k)"
    using room(1) hdr_inj [of "Suc ?k" ?k] by simp_all
  have l: "lbin_at s (hdr ?k) = Some (llast ms m lt)" using lrep_load [OF rep, of ?k] by simp
  have st: "lh_tail s = hdr ?k" "lh_pg s" "lh_ehead s = 0" "lh_bins s (hdr ?k) = Some (llast ms m lt)" using rep by (simp_all add: lrep_def)
  have sz: "BIN_SIZE (of_nat m) = of_nat m" "BIN_SIZE (of_nat (Suc m)) = of_nat m" "(of_nat m :: u32) AND 1 = 0"
    "(of_nat (Suc m) :: u32) AND 1 = 1" "BIN_SIZE ?z = ?z" "?z OR 1 = of_nat (Suc z)" "(of_nat m :: u32) OR 1 = of_nat (Suc m)"
    using flags_even [OF m0(1)] flags_even [OF z0(1)] by (simp_all add: BIN_TAKEN_def)
  show ?thesis
  proof (cases lt)
    case True
    have "0 < z" "z < 0x7FFFFFFF" using z0 by simp_all
    from add_lbin_rep [OF rep room(1) this, of "baddr ms ?k + of_nat m"] obtain s1 where
      a: "add_lbin (hdr ?k) (baddr ms ?k + of_nat m) ?z s = Some (hdr (Suc ?k), s1)"
      "lh_bins s1 = (lh_bins s)(hdr ?k \<mapsto> (llast ms m lt)\<lparr>lb_next := hdr (Suc ?k)\<rparr>,
         hdr (Suc ?k) \<mapsto> \<lparr>lb_prev = hdr ?k, lb_next = 0, lb_addr = baddr ms ?k + of_nat m, lb_flags = ?z\<rparr>)"
      "lh_head s1 = lh_head s" "lh_tail s1 = hdr (Suc ?k)" "lh_bin_next s1 = hdr (Suc ?k)" "lh_ehead s1 = 0" "lh_pg s1" by blast
    have ap: "append_lbin ?z s = Some (hdr (Suc ?k), s1)"
      using l True a(1) st(1) sz by (simp add: append_lbin_def llast_def)
    have l1: "lbin_at s1 (hdr (Suc ?k)) = Some \<lparr>lb_prev = hdr ?k, lb_next = 0, lb_addr = baddr ms ?k + of_nat m, lb_flags = ?z\<rparr>"
      using a(2) k0 by simp
    let ?s = "s1\<lparr>lh_bins := (lh_bins s1)(hdr (Suc ?k) \<mapsto>
      \<lparr>lb_prev = hdr ?k, lb_next = 0, lb_addr = baddr ms ?k + of_nat m, lb_flags = ?z OR 1\<rparr>)\<rparr>"
    have "malloc n s = Some (baddr ms ?k + of_nat m, ?s)"
      using n best True l st(1) ap l1 k0 sz by (simp add: malloc_def zw Let_def split_lbin_def on_lbin_def llast_def)
    moreover have "lrep ?s (ms @ [m]) z True"
      by (rule lrep_snoc [OF rep room m0(1,2) z0(1,2)])
        (use a True sz in \<open>simp_all add: llast_def lfull_def lprev_def baddr_snoc baddr_append\<close>)
    ultimately show ?thesis using True by (simp add: baddr_snoc)
  next
    case nt: False
    show ?thesis
    proof (cases "z < m")
      case True
      define D where "D = (of_nat (m - z) :: u32)"
      have d: "(of_nat m :: u32) - ?z = D" using True by (simp add: D_def of_nat_diff)
      have "0 < m - z" "m - z < 0x7FFFFFFF" using True m0 by simp_all
      from add_lbin_rep [OF rep room(1) this, of "baddr ms ?k + ?z"] obtain s1 where
        a: "add_lbin (hdr ?k) (baddr ms ?k + ?z) (of_nat (m - z)) s = Some (hdr (Suc ?k), s1)"
        "lh_bins s1 = (lh_bins s)(hdr ?k \<mapsto> (llast ms m lt)\<lparr>lb_next := hdr (Suc ?k)\<rparr>,
           hdr (Suc ?k) \<mapsto> \<lparr>lb_prev = hdr ?k, lb_next = 0, lb_addr = baddr ms ?k + ?z, lb_flags = of_nat (m - z)\<rparr>)"
        "lh_head s1 = lh_head s" "lh_tail s1 = hdr (Suc ?k)" "lh_bin_next s1 = hdr (Suc ?k)" "lh_ehead s1 = 0" "lh_pg s1" by blast
      have l1: "lbin_at s1 (hdr ?k) = Some \<lparr>lb_prev = lprev ?k, lb_next = hdr (Suc ?k), lb_addr = baddr ms ?k, lb_flags = of_nat m\<rparr>"
        using a(2) k0 nt by (simp add: llast_def)
      let ?s = "s1\<lparr>lh_bins := (lh_bins s1)(hdr ?k \<mapsto>
        \<lparr>lb_prev = lprev ?k, lb_next = hdr (Suc ?k), lb_addr = baddr ms ?k, lb_flags = ?z OR 1\<rparr>)\<rparr>"
      have b: "lfind_best_fit ?z s = Some (hdr ?k)" using best True nt by simp
      have sp: "split_lbin (hdr ?k) ?z s = on_lbin (hdr ?k) (\<lambda>c. c\<lparr>lb_flags := ?z\<rparr>) s1"
        using True nt l a(1) [folded D_def] sz(1) eq unfolding split_lbin_def by (simp add: llast_def Let_def d)
      have "malloc n s = Some (baddr ms ?k, ?s)"
        using n b k0 l1 unfolding malloc_def zw Let_def by (simp add: sp on_lbin_def)
      moreover have "lrep ?s (ms @ [z]) (m - z) False"
      proof (rule lrep_snoc [OF rep room(1) _ z0(1,2)])
        have "lh_bins ?s = (lh_bins s)(hdr (Suc ?k) \<mapsto> llast (ms @ [z]) (m - z) False, hdr ?k \<mapsto> lfull (ms @ [z]) ?k)"
          unfolding a(2) fun_upd_twist [OF k0(4)] using sz by (simp add: llast_def lfull_def lprev_def baddr_snoc baddr_append)
        then show "lh_bins ?s = (lh_bins s)(hdr ?k \<mapsto> lfull (ms @ [z]) ?k, hdr (Suc ?k) \<mapsto> llast (ms @ [z]) (m - z) False)"
          unfolding fun_upd_twist [OF k0(4)] .
      qed (use a True m0(1) z0 room(2) in simp_all)
      ultimately show ?thesis using True nt by auto
    next
      case False
      let ?s1 = "if m = z then s else l_pages (baddr ms ?k) (?z + 1) (s\<lparr>lh_bins := (lh_bins s)(hdr ?k \<mapsto> llast ms z False)\<rparr>)"
      let ?s = "?s1\<lparr>lh_bins := (lh_bins ?s1)(hdr ?k \<mapsto> llast ms z True)\<rparr>"
      have "malloc n s = Some (baddr ms ?k, ?s)"
        using n best False nt l st k0 sz eq
        by (cases "m = z") (simp_all add: malloc_def zw Let_def split_lbin_def on_lbin_def llast_def l_pages_def)
      moreover have "lrep ?s ms z True"
        by (rule lrep_last [OF rep z0(1,2)]) (use room(2) st in \<open>simp_all add: l_pages_def\<close>)
      ultimately show ?thesis using False nt by auto
    qed
  qed
qed

text \<open>The blocks in use, and what is left.\<close>

definition l_used :: "lheap \<Rightarrow> (nat \<times> nat) set" where
  "l_used s = {x. \<exists>p b. lh_bins s p = Some b \<and> BIN_TAKEN (lb_flags b) = 1 \<and> x = (unat (lb_addr b), unat (BIN_SIZE (lb_flags b)))}"

definition l_inv :: "lheap \<Rightarrow> bool" where
  "l_inv s \<longleftrightarrow> (\<exists>ms m lt. lrep s ms m lt)"

definition l_bytes_left :: "lheap \<Rightarrow> nat" where
  "l_bytes_left s = (case lbin_at s (lh_tail s) of None \<Rightarrow> 0
     | Some t \<Rightarrow> 0xFFFFFFFE - (unat (lb_addr t) + unat (BIN_SIZE (lb_flags t))))"

definition l_allocs_left :: "lheap \<Rightarrow> nat" where
  "l_allocs_left s = 0xFFFFF - (unat (lh_bin_next s) - 0x80000000) div 16"

definition taken :: "nat list \<Rightarrow> nat \<Rightarrow> bool \<Rightarrow> (nat \<times> nat) set" where
  "taken ms m lt = (\<lambda>i. (0x81000000 + sum_list (take i ms), ms ! i)) ` {..<length ms} \<union>
     (if lt then {(0x81000000 + sum_list ms, m)} else {})"

lemma lfull_block:
  assumes "lrep s ms m lt" and "i < length ms"
  shows "BIN_TAKEN (lb_flags (lfull ms i)) = 1" "unat (lb_addr (lfull ms i)) = 0x81000000 + sum_list (take i ms)"
    "unat (BIN_SIZE (lb_flags (lfull ms i))) = ms ! i"
proof -
  have e: "even (ms ! i)" "sum_list ms < 0x7EFFFFFF" using assms by (simp_all add: lrep_def)
  have "ms ! i \<le> sum_list ms" using assms(2) by (simp add: member_le_sum_list)
  then have "unat (of_nat (ms ! i) :: u32) = ms ! i" using e(2) by (intro u32_of_nat) simp
  then show "BIN_TAKEN (lb_flags (lfull ms i)) = 1" "unat (lb_addr (lfull ms i)) = 0x81000000 + sum_list (take i ms)"
    "unat (BIN_SIZE (lb_flags (lfull ms i))) = ms ! i"
    using flags_even(3,4) [OF e(1)] baddr_nat [of i ms] assms(2) e(2) by (simp_all add: lfull_def)
qed

lemma llast_block:
  assumes "lrep s ms m lt"
  shows "BIN_TAKEN (lb_flags (llast ms m lt)) = of_bool lt" "unat (lb_addr (llast ms m lt)) = 0x81000000 + sum_list ms"
    "unat (BIN_SIZE (lb_flags (llast ms m lt))) = m"
proof -
  have e: "even m" "m < 0x7FFFFFFF" "sum_list ms < 0x7EFFFFFF" using assms by (simp_all add: lrep_def)
  have "unat (of_nat m :: u32) = m" using e(2) by (intro u32_of_nat) simp
  then show "BIN_TAKEN (lb_flags (llast ms m lt)) = of_bool lt" "unat (lb_addr (llast ms m lt)) = 0x81000000 + sum_list ms"
    "unat (BIN_SIZE (lb_flags (llast ms m lt))) = m"
    using even_small [OF e(1,2), of lt] baddr_nat [of "length ms" ms] e(3) by (simp_all add: llast_def)
qed

lemma l_used_rep:
  assumes "lrep s ms m lt"
  shows "l_used s = taken ms m lt"
proof -
  have dom: "lh_bins s p = Some b \<longleftrightarrow> (\<exists>i < length ms. p = hdr i \<and> b = lfull ms i) \<or> p = hdr (length ms) \<and> b = llast ms m lt" for p b
  proof
    assume h: "lh_bins s p = Some b"
    then have "p \<in> hdr ` {..length ms}" using assms unfolding lrep_def by blast
    then obtain i where "i \<le> length ms" "p = hdr i" by auto
    then show "(\<exists>i < length ms. p = hdr i \<and> b = lfull ms i) \<or> p = hdr (length ms) \<and> b = llast ms m lt"
      using h assms unfolding lrep_def by (cases "i = length ms") (simp, metis le_neq_implies_less option.inject)
  qed (use assms in \<open>auto simp: lrep_def\<close>)
  show ?thesis unfolding l_used_def dom taken_def
    using lfull_block [OF assms] llast_block [OF assms] by (auto 4 4)
qed

lemma l_left_rep:
  assumes "lrep s ms m lt"
  shows "l_bytes_left s = 0x7EFFFFFE - (sum_list ms + m)" "l_allocs_left s = 0xFFFFF - length ms"
proof -
  have "lbin_at s (lh_tail s) = Some (llast ms m lt)" using lrep_load [OF assms, of "length ms"] assms by (simp add: lrep_def)
  then show "l_bytes_left s = 0x7EFFFFFE - (sum_list ms + m)" 
    unfolding l_bytes_left_def by (simp only: option.case llast_block [OF assms])
  have "unat (lh_bin_next s) = 0x80000000 + 16 * length ms" using assms hdr_nat [of "length ms"] by (simp add: lrep_def)
  then have "(unat (lh_bin_next s) - 0x80000000) div 16 = length ms" by simp
  then show "l_allocs_left s = 0xFFFFF - length ms" by (simp only: l_allocs_left_def)
qed

lemma taken_apart:
  assumes "x \<in> taken ms m lt" and "y \<in> taken ms m lt" and "x \<noteq> y"
  shows "apart x y"
proof -
  have step: "sum_list (take i ms) + ms ! i \<le> sum_list (take j ms)" if "i < j" "j \<le> length ms" for i j
  proof -
    have "take j ms = take (Suc i) ms @ take (j - Suc i) (drop (Suc i) ms)" using take_add [of "Suc i" "j - Suc i" ms] that(1) by simp
    then have "sum_list (take j ms) = sum_list (take (Suc i) ms) + sum_list (take (j - Suc i) (drop (Suc i) ms))" by (simp only: sum_list_append)
    moreover have "sum_list (take (Suc i) ms) = sum_list (take i ms) + ms ! i" using that by (simp add: take_Suc_conv_app_nth)
    ultimately show ?thesis by simp
  qed
  then have last: "sum_list (take i ms) + ms ! i \<le> sum_list ms" if "i < length ms" for i using that step [of i "length ms"] by simp
  have "apart (0x81000000 + sum_list (take i ms), ms ! i) (0x81000000 + sum_list (take j ms), ms ! j)"
    if "i < length ms" "j < length ms" "i \<noteq> j" for i j
    using that step [of i j] step [of j i] by (cases "i < j") (auto simp: apart_def)
  then show ?thesis using assms last unfolding taken_def by (fastforce simp: apart_def split: if_splits)
qed

lemma taken_snoc: "taken (ms @ [f]) z lt = taken ms f True \<union> (if lt then {(0x81000000 + sum_list ms + f, z)} else {})"
  unfolding taken_def by (auto simp: nth_append lessThan_Suc image_Un image_def)

lemma taken_end:
  assumes "(a, k) \<in> taken ms m lt"
  shows "0x81000000 \<le> a \<and> a + k \<le> 0x81000000 + sum_list ms + (if lt then m else 0)"
proof -
  have "sum_list (take i ms) + ms ! i \<le> sum_list ms" if "i < length ms" for i
  proof -
    have "ms = take (Suc i) ms @ drop (Suc i) ms" by simp
    then have "sum_list ms = sum_list (take (Suc i) ms) + sum_list (drop (Suc i) ms)" by (metis sum_list_append)
    then show ?thesis using that by (simp add: take_Suc_conv_app_nth)
  qed
  then show ?thesis using assms by (fastforce simp: taken_def split: if_splits)
qed

lemma taken_pos: "lrep s ms m lt \<Longrightarrow> (a, k) \<in> taken ms m lt \<Longrightarrow> 0 < k"
  by (auto simp: taken_def lrep_def split: if_splits)

lemma taken_fresh: "lrep s ms m lt \<Longrightarrow> 0x81000000 + sum_list ms + (if lt then m else 0) \<le> a \<Longrightarrow> (a, k) \<notin> taken ms m lt"
  using taken_end [of a k ms m lt] taken_pos [of s ms m lt a k] by auto

interpretation lh: allocator l_inv l_used l_bytes_left l_allocs_left even_up malloc
proof unfold_locales
  fix s x y assume i: "l_inv s" and "x \<in> l_used s" "y \<in> l_used s" "x \<noteq> y"
  moreover obtain ms m lt where "lrep s ms m lt" using i by (auto simp: l_inv_def)
  ultimately show "apart x y" using l_used_rep taken_apart by metis
next
  fix s p m assume i: "l_inv s" and u: "(p, m) \<in> l_used s"
  obtain ms l lt where rep: "lrep s ms l lt" using i by (auto simp: l_inv_def)
  then show "0 < p \<and> 0 < m" using u taken_end [of p m ms l lt] taken_pos [OF rep, of p m] l_used_rep [OF rep] by simp
next
  fix s and n :: u32
  assume i: "l_inv s" and n: "n \<noteq> 0" and room: "even_up (unat n) \<le> l_bytes_left s" "0 < l_allocs_left s"
  obtain ms m lt where rep: "lrep s ms m lt" using i by (auto simp: l_inv_def)
  define z where "z = even_up (unat n)"
  note left = l_left_rep [OF rep]
  have z: "0 < z" "unat n \<le> z" using n even_up(2,4) [of "unat n"] by (simp_all add: z_def unat_gt_0)
  have r: "Suc (length ms) < 0x100000" "sum_list ms + m + z < 0x7EFFFFFF" using room left z by (simp_all add: z_def [symmetric])
  obtain s' where s': "malloc n s = Some (if lt then baddr (ms @ [m]) (Suc (length ms)) else baddr ms (length ms), s')"
    "if lt then lrep s' (ms @ [m]) z True else if z < m then lrep s' (ms @ [z]) (m - z) False else lrep s' ms z True"
    using malloc_shape [OF rep n z_def r] by blast
  define p where "p = (if lt then baddr (ms @ [m]) (Suc (length ms)) else baddr ms (length ms))"
  have p: "unat p = 0x81000000 + sum_list ms + (if lt then m else 0)"
    using baddr_nat [of "Suc (length ms)" "ms @ [m]"] baddr_nat [of "length ms" ms] r by (simp add: p_def)
  have fresh: "(unat p, z) \<notin> taken ms m lt" by (rule taken_fresh [OF rep]) (simp add: p)
  obtain ms' m' lt' where rep': "lrep s' ms' m' lt'" "taken ms' m' lt' = insert (unat p, z) (taken ms m lt)"
    "sum_list ms' + m' \<le> sum_list ms + m + z" "length ms' \<le> Suc (length ms)"
  proof (cases lt)
    case True
    then have "lrep s' (ms @ [m]) z True" using s'(2) by simp
    then show ?thesis by (rule that) (use True p in \<open>simp_all add: taken_snoc\<close>)
  next
    case nt: False
    have t: "taken ms z True = insert (unat p, z) (taken ms m lt)" using p nt by (simp add: taken_def)
    show ?thesis
    proof (cases "z < m")
      case True
      then have "lrep s' (ms @ [z]) (m - z) False" using s'(2) nt by simp
      then show ?thesis by (rule that) (use True t in \<open>simp_all add: taken_snoc\<close>)
    next
      case False
      then have "lrep s' ms z True" using s'(2) nt by simp
      then show ?thesis by (rule that) (use t in simp_all)
    qed
  qed
  have "l_inv s'" using rep'(1) by (auto simp: l_inv_def)
  moreover have "l_bytes_left s - z \<le> l_bytes_left s'" "l_allocs_left s - 1 \<le> l_allocs_left s'"
    unfolding left l_left_rep [OF rep'(1)] using rep'(3,4) by arith+
  ultimately show "\<exists>p s' m. malloc n s = Some (p, s') \<and> l_inv s' \<and> unat n \<le> m \<and> (unat p, m) \<notin> l_used s \<and>
      l_used s' = insert (unat p, m) (l_used s) \<and>
      l_bytes_left s - even_up (unat n) \<le> l_bytes_left s' \<and> l_allocs_left s - 1 \<le> l_allocs_left s'"
    using s'(1) z fresh rep'(2) l_used_rep [OF rep] l_used_rep [OF rep'(1)]
    by (intro exI [of _ p] exI [of _ s'] exI [of _ z]) (simp add: p_def [symmetric] z_def [symmetric])
qed

lemma heap_setup_rep: "lrep (heap_setup True) [] 0x1000 False"
  by (simp add: lrep_def heap_setup_def hdr_def llast_def lprev_def baddr_def PG_BIN_START_def PG_HEAP_START_def zero_lbin_def)

text \<open>
  C29 (safety): on a fresh heap of a process, any sequence of allocations succeeds as long as addresses and
  headers last, and the blocks do not overlap. This holds while nothing is freed.
\<close>

theorem malloc_disjoint:
  assumes "\<forall>n \<in> set ns. n \<noteq> 0" and "sum_list (map (\<lambda>n. unat n + 1) ns) \<le> 0x7EFFEFFE" and "length ns \<le> 0xFFFFF"
  shows "\<exists>held s. heap_run malloc free (map Get ns) [] (heap_setup True) = Some (held, s) \<and> map snd held = ns \<and>
    disjoint_blocks held"
proof -
  have "l_inv (heap_setup True)" using heap_setup_rep by (auto simp: l_inv_def)
  moreover have "req_bytes even_up (map Get ns) \<le> sum_list (map (\<lambda>n. unat n + 1) ns)"
  proof (induction ns)
    case (Cons n ns)
    then show ?case using even_up(3) [of "unat n"] by simp
  qed simp
  moreover have "l_bytes_left (heap_setup True) = 0x7EFFEFFE" "l_allocs_left (heap_setup True) = 0xFFFFF"
    using l_left_rep [OF heap_setup_rep] by simp_all
  ultimately show ?thesis using lh.gets_disjoint [of "heap_setup True" ns free] assms by fastforce
qed

theorem malloc_disjoint_witness:
  "\<exists>held s. heap_run malloc free (map Get [16, 5000, 3]) [] (heap_setup True) = Some (held, s) \<and> map snd held = [16, 5000, 3] \<and>
    disjoint_blocks held"
  by (rule malloc_disjoint) simp_all

subsection \<open>What freeing breaks\<close>

text \<open>Once \<^verbatim>\<open>bin_head\<close> is null, it stays so, and freeing has no effect any more.\<close>

lemma free_lost: "lh_head s = 0 \<Longrightarrow> free p s = Some s"
  by (simp add: free_def lfree_loop.simps)

lemma on_lbin_head: "on_lbin p f s = Some s' \<Longrightarrow> lh_head s' = lh_head s"
  by (auto simp: on_lbin_def opt_simps)

lemma l_pages_head [simp]: "lh_head (l_pages a n s) = lh_head s"
  by (simp add: l_pages_def)

lemma find_free_lbin_head: "find_free_lbin s = Some (p, s') \<Longrightarrow> lh_head s' = lh_head s"
  by (auto simp: find_free_lbin_def Let_def Option.bind_eq_Some_conv split: if_splits)

lemma add_lbin_head: "add_lbin p a n s = Some (q, s') \<Longrightarrow> lh_head s' = lh_head s"
  unfolding add_lbin_def Let_def
  by (auto simp: Option.bind_eq_Some_conv dest!: on_lbin_head find_free_lbin_head split: if_split_asm)

lemma split_lbin_head: "split_lbin p n s = Some s' \<Longrightarrow> lh_head s' = lh_head s"
  unfolding split_lbin_def Let_def
  by (auto simp: Option.bind_eq_Some_conv dest!: on_lbin_head add_lbin_head split: if_split_asm)

lemma malloc_head: "malloc n s = Some (p, s') \<Longrightarrow> lh_head s' = lh_head s"
  unfolding malloc_def Let_def append_lbin_def
  by (auto simp: Option.bind_eq_Some_conv dest!: on_lbin_head add_lbin_head split_lbin_head split: if_split_asm)

lemma run_lost: "heap_run malloc free rs held s = Some (held', s') \<Longrightarrow> lh_head s = 0 \<Longrightarrow> lh_head s' = 0"
proof (induction rs arbitrary: held s)
  case (Cons r rs)
  then show ?case by (cases r) (auto simp: Option.bind_eq_Some_conv free_lost dest: malloc_head)
qed simp

lemmas lheap_run_simps = on_lbin_def modify_def load_def lmerge_next_def lmerge_prev_def remove_lbin_def Let_def

text \<open>
  When the very first block is freed next to the free rest of the heap, \<^verbatim>\<open>merge_bin\<close> makes the
  header it is about to remove the head of the list, and removing it leaves the list empty: from then on no
  call of \<^verbatim>\<open>free\<close> frees anything, whatever is allocated and freed.
\<close>

lemma first_free_loses_list:
  assumes "n \<noteq> 0" and "n < 0xFFF"
  shows "\<exists>p s1 s2. malloc n (heap_setup True) = Some (p, s1) \<and> free p s1 = Some s2 \<and>
    (\<forall>rs held held' s3 q. heap_run malloc free rs held s2 = Some (held', s3) \<longrightarrow> free q s3 = Some s3)"
proof -
  define z where "z = even_up (unat n)"
  have n: "0 < unat n" "unat n < 0xFFF" using assms by (simp_all add: word_less_nat_alt unat_gt_0)
  have z: "even z" "0 < z" "z < 0x1000" using n even_up [of "unat n"] by (simp_all add: z_def)
  have r: "Suc (length []) < 0x100000" "sum_list [] + 0x1000 + z < 0x7EFFFFFF" using z by simp_all
  obtain s1 where s1: "malloc n (heap_setup True) = Some (baddr [] 0, s1)" "lrep s1 [z] (0x1000 - z) False"
    using malloc_shape [OF heap_setup_rep assms(1) z_def r] z(3) by auto
  have h: "hdr 0 = 0x80000000" "hdr (Suc 0) = 0x80000010" "baddr [] 0 = 0x81000000" "baddr [z] 0 = 0x81000000"
    by (simp_all add: hdr_def baddr_def)
  let ?f = "of_nat (0x1000 - z) :: u32" and ?g = "of_nat (Suc z) :: u32"
  have b: "lh_bins s1 0x80000000 = Some \<lparr>lb_prev = 0, lb_next = 0x80000010, lb_addr = 0x81000000, lb_flags = ?g\<rparr>"
    "lh_bins s1 0x80000010 = Some \<lparr>lb_prev = 0x80000000, lb_next = 0, lb_addr = baddr [z] (Suc 0), lb_flags = ?f\<rparr>"
    "lh_head s1 = 0x80000000" "lh_tail s1 = 0x80000010" "lh_ehead s1 = 0"
    using s1(2) h by (simp_all add: lrep_def lfull_def llast_def lprev_def)
  have ev: "even (0x1000 - z)" using z by simp
  have fl: "BIN_SIZE ?g = of_nat z" "BIN_TAKEN (of_nat z) = 0" "BIN_TAKEN ?f = 0" "BIN_SIZE ?f = ?f"
    using flags_even [OF z(1)] flags_even [OF ev] by simp_all
  define F where "F = ?f"
  define G where "G = ?g"
  define Z where "Z = (of_nat z :: u32)"
  note b' = b(1) [folded G_def] b(2) [folded F_def] b(3-5)
  note fl' = fl [folded F_def G_def Z_def]
  let ?s = "s1\<lparr>lh_bins := (lh_bins s1)(0x80000000 \<mapsto> \<lparr>lb_prev = 0, lb_next = 0x80000010, lb_addr = 0x81000000, lb_flags = Z\<rparr>)\<rparr>"
  have "\<exists>s2. lmerge_next 0x80000000 ?s = Some (True, s2) \<and> lh_head s2 = 0 \<and>
      lh_bins s2 0x80000000 = Some \<lparr>lb_prev = 0, lb_next = 0, lb_addr = 0x81000000, lb_flags = Z + F\<rparr>"
    using b' fl' by (simp add: lheap_run_simps)
  then obtain s2 where s2: "lmerge_next 0x80000000 ?s = Some (True, s2)" "lh_head s2 = 0"
    "lh_bins s2 0x80000000 = Some \<lparr>lb_prev = 0, lb_next = 0, lb_addr = 0x81000000, lb_flags = Z + F\<rparr>" by blast
  have m: "lmerge_next 0x80000000 s2 = Some (False, s2)" "lmerge_prev 0x80000000 s2 = Some (False, s2)"
    using s2(3) by (simp_all add: lheap_run_simps)
  have mb: "lmerge_bin 0x80000000 ?s = Some (0x80000000, s2)"
    by (subst lmerge_bin.simps, simp add: s2(1) m, subst lmerge_bin.simps, simp add: m)
  have "free 0x81000000 s1 = Some s2"
    unfolding free_def using b' fl' mb by (subst lfree_loop.simps) (simp add: lheap_run_simps)
  then show ?thesis using s1(1) h(3) s2(2) free_lost run_lost by auto
qed

lemma first_free_loses_list_witness:
  "\<exists>p s1 s2. malloc 16 (heap_setup True) = Some (p, s1) \<and> free p s1 = Some s2 \<and> free p s2 = Some s2"
proof -
  obtain p s1 s2 where "malloc 16 (heap_setup True) = Some (p, s1)" "free p s1 = Some s2"
    "\<forall>rs held held' s3 q. heap_run malloc free rs held s2 = Some (held', s3) \<longrightarrow> free q s3 = Some s3"
    using first_free_loses_list [of 16] by auto
  then show ?thesis using heap_run.simps(1) [of malloc free "[]" s2] by blast
qed

text \<open>Three blocks of 16 bytes on a fresh heap.\<close>

lemma demo_three:
  "\<exists>s. heap_run malloc free [Get 16, Get 16, Get 16] [] (heap_setup True) =
      Some ([(0x81000000, 16), (0x81000010, 16), (0x81000020, 16)], s) \<and> lrep s [16, 16, 16] 4048 False"
proof -
  have z: "16 = even_up (unat (16 :: u32))" "(16 :: u32) \<noteq> 0" by (simp_all add: even_up_def)
  obtain s1 where s1: "malloc 16 (heap_setup True) = Some (baddr [] 0, s1)" "lrep s1 [16] 4080 False"
    using malloc_shape [OF heap_setup_rep z(2,1)] by auto
  obtain s2 where s2: "malloc 16 s1 = Some (baddr [16] 1, s2)" "lrep s2 [16, 16] 4064 False"
    using malloc_shape [OF s1(2) z(2,1)] by auto
  obtain s3 where s3: "malloc 16 s2 = Some (baddr [16, 16] 2, s3)" "lrep s3 [16, 16, 16] 4048 False"
    using malloc_shape [OF s2(2) z(2,1)] by (auto simp: numeral_2_eq_2)
  show ?thesis using s1(1) s2(1) s3 by (simp add: baddr_def)
qed

text \<open>The headers of the three blocks.\<close>

lemma demo_bins:
  assumes "lrep s [16, 16, 16] 4048 False"
  shows "lh_bins s 0x80000000 = Some \<lparr>lb_prev = 0, lb_next = 0x80000010, lb_addr = 0x81000000, lb_flags = 17\<rparr>"
    "lh_bins s 0x80000010 = Some \<lparr>lb_prev = 0x80000000, lb_next = 0x80000020, lb_addr = 0x81000010, lb_flags = 17\<rparr>"
    "lh_bins s 0x80000020 = Some \<lparr>lb_prev = 0x80000010, lb_next = 0x80000030, lb_addr = 0x81000020, lb_flags = 17\<rparr>"
    "lh_bins s 0x80000030 = Some \<lparr>lb_prev = 0x80000020, lb_next = 0, lb_addr = 0x81000030, lb_flags = 4048\<rparr>"
    "lh_head s = 0x80000000" "lh_tail s = 0x80000030" "lh_ehead s = 0"
proof -
  have "\<forall>i < 3. lh_bins s (hdr i) = Some (lfull [16, 16, 16] i)" using assms by (simp add: lrep_def)
  then have "lh_bins s (hdr 0) = Some (lfull [16, 16, 16] 0)" "lh_bins s (hdr 1) = Some (lfull [16, 16, 16] 1)"
    "lh_bins s (hdr 2) = Some (lfull [16, 16, 16] 2)" "lh_bins s (hdr 3) = Some (llast [16, 16, 16] 4048 False)"
    using assms by (simp_all add: lrep_def numeral_3_eq_3)
  then show "lh_bins s 0x80000000 = Some \<lparr>lb_prev = 0, lb_next = 0x80000010, lb_addr = 0x81000000, lb_flags = 17\<rparr>"
    "lh_bins s 0x80000010 = Some \<lparr>lb_prev = 0x80000000, lb_next = 0x80000020, lb_addr = 0x81000010, lb_flags = 17\<rparr>"
    "lh_bins s 0x80000020 = Some \<lparr>lb_prev = 0x80000010, lb_next = 0x80000030, lb_addr = 0x81000020, lb_flags = 17\<rparr>"
    "lh_bins s 0x80000030 = Some \<lparr>lb_prev = 0x80000020, lb_next = 0, lb_addr = 0x81000030, lb_flags = 4048\<rparr>"
    by (simp_all add: hdr_def lfull_def llast_def lprev_def baddr_def)
  show "lh_head s = 0x80000000" "lh_tail s = 0x80000030" "lh_ehead s = 0"
    using assms by (simp_all add: lrep_def hdr_def)
qed

lemmas demo_flags = BIN_SIZE_def BIN_TAKEN_def

lemma demo_free_first:
  assumes "lrep s [16, 16, 16] 4048 False"
  shows "free 0x81000000 s = Some (s\<lparr>lh_bins := (lh_bins s)(0x80000000 \<mapsto>
      \<lparr>lb_prev = 0, lb_next = 0x80000010, lb_addr = 0x81000000, lb_flags = 16\<rparr>)\<rparr>)" (is "_ = Some ?s")
proof -
  note b = demo_bins [OF assms]
  have "lmerge_bin 0x80000000 ?s = Some (0x80000000, ?s)"
    using b by (subst lmerge_bin.simps) (simp add: lheap_run_simps demo_flags)
  then show ?thesis unfolding free_def using b
    by (subst lfree_loop.simps) (simp add: lheap_run_simps demo_flags)
qed

lemma demo_free_second:
  assumes "lrep s [16, 16, 16] 4048 False"
  shows "\<exists>s'. free 0x81000010 (s\<lparr>lh_bins := (lh_bins s)(0x80000000 \<mapsto>
      \<lparr>lb_prev = 0, lb_next = 0x80000010, lb_addr = 0x81000000, lb_flags = 16\<rparr>)\<rparr>) = Some s' \<and>
    lh_bins s' 0x80000010 = Some \<lparr>lb_prev = 0, lb_next = 0x80000020, lb_addr = 0x81000010, lb_flags = 32\<rparr> \<and>
    lh_bins s' 0x80000020 = Some \<lparr>lb_prev = 0x80000010, lb_next = 0x80000030, lb_addr = 0x81000020, lb_flags = 17\<rparr> \<and>
    lh_bins s' 0x80000030 = Some \<lparr>lb_prev = 0x80000020, lb_next = 0, lb_addr = 0x81000030, lb_flags = 4048\<rparr> \<and>
    lh_head s' = 0x80000010"
proof -
  note b = demo_bins [OF assms]
  let ?base = "s\<lparr>lh_bins := (lh_bins s)(0x80000000 \<mapsto>
      \<lparr>lb_prev = 0, lb_next = 0x80000010, lb_addr = 0x81000000, lb_flags = 16\<rparr>)\<rparr>"
  let ?s = "s\<lparr>lh_bins := (lh_bins s)(0x80000000 \<mapsto>
      \<lparr>lb_prev = 0, lb_next = 0x80000010, lb_addr = 0x81000000, lb_flags = 16\<rparr>,
      0x80000010 \<mapsto> \<lparr>lb_prev = 0x80000000, lb_next = 0x80000020, lb_addr = 0x81000010, lb_flags = 16\<rparr>)\<rparr>"
  have n: "lmerge_next 0x80000010 ?s = Some (False, ?s)" using b by (simp add: lheap_run_simps demo_flags)
  have "\<exists>s'. lmerge_prev 0x80000010 ?s = Some (True, s') \<and>
    lh_bins s' 0x80000010 = Some \<lparr>lb_prev = 0, lb_next = 0x80000020, lb_addr = 0x81000010, lb_flags = 32\<rparr> \<and>
    lh_bins s' 0x80000020 = Some \<lparr>lb_prev = 0x80000010, lb_next = 0x80000030, lb_addr = 0x81000020, lb_flags = 17\<rparr> \<and>
    lh_bins s' 0x80000030 = Some \<lparr>lb_prev = 0x80000020, lb_next = 0, lb_addr = 0x81000030, lb_flags = 4048\<rparr> \<and>
    lh_head s' = 0x80000010"
    using b by (simp add: lheap_run_simps demo_flags)
  then obtain s' where s': "lmerge_prev 0x80000010 ?s = Some (True, s')"
    "lh_bins s' 0x80000010 = Some \<lparr>lb_prev = 0, lb_next = 0x80000020, lb_addr = 0x81000010, lb_flags = 32\<rparr>"
    "lh_bins s' 0x80000020 = Some \<lparr>lb_prev = 0x80000010, lb_next = 0x80000030, lb_addr = 0x81000020, lb_flags = 17\<rparr>"
    "lh_bins s' 0x80000030 = Some \<lparr>lb_prev = 0x80000020, lb_next = 0, lb_addr = 0x81000030, lb_flags = 4048\<rparr>"
    "lh_head s' = 0x80000010" by blast
  have m: "lmerge_next 0x80000010 s' = Some (False, s')" "lmerge_prev 0x80000010 s' = Some (False, s')"
    using s'(2,3) by (simp_all add: lheap_run_simps demo_flags)
  have mb: "lmerge_bin 0x80000010 ?s = Some (0x80000010, s')"
    by (subst lmerge_bin.simps, simp add: n s'(1), subst lmerge_bin.simps, simp add: m)
  have "free 0x81000010 ?base = Some s'"
    unfolding free_def using b mb
    by (subst lfree_loop.simps, simp add: lheap_run_simps demo_flags)
      (subst lfree_loop.simps, simp add: lheap_run_simps demo_flags)
  then show ?thesis using s'(2-5) by blast
qed

lemma demo_malloc_merged:
  assumes "lh_bins s 0x80000010 = Some \<lparr>lb_prev = 0, lb_next = 0x80000020, lb_addr = 0x81000010, lb_flags = 32\<rparr>"
    "lh_bins s 0x80000020 = Some \<lparr>lb_prev = 0x80000010, lb_next = 0x80000030, lb_addr = 0x81000020, lb_flags = 17\<rparr>"
    "lh_bins s 0x80000030 = Some \<lparr>lb_prev = 0x80000020, lb_next = 0, lb_addr = 0x81000030, lb_flags = 4048\<rparr>"
    "lh_head s = 0x80000010"
  shows "\<exists>s'. malloc 32 s = Some (0x81000010, s')"
proof -
  have "lfind_best_fit 32 s = Some 0x80000010"
    unfolding lfind_best_fit_def using assms
    apply (subst lbest_fit_loop.simps, simp add: lheap_run_simps demo_flags)
    apply (subst lbest_fit_loop.simps, simp add: lheap_run_simps demo_flags)
    apply (subst lbest_fit_loop.simps, simp add: lheap_run_simps demo_flags)
    apply (subst lbest_fit_loop.simps, simp)
    done
  then show ?thesis using assms by (simp add: malloc_def split_lbin_def lheap_run_simps demo_flags)
qed

text \<open>
  Freeing a block whose lower neighbour is free merges the two, but \<^verbatim>\<open>merge_bin\<close> keeps the address
  of the upper one: with three blocks of 16 bytes, after the first and the second are freed, a request for 32
  bytes is answered with the 32 bytes from the second block on, which are also those of the third.
\<close>

lemma malloc_overlaps_after_free:
  "\<exists>s. heap_run malloc free [Get 16, Get 16, Get 16, Put 0, Put 0, Get 32] [] (heap_setup True) =
      Some ([(0x81000020, 16), (0x81000010, 32)], s) \<and> \<not> disjoint_blocks [(0x81000020, 16), (0x81000010, 32)]"
proof -
  obtain s1 where s1: "heap_run malloc free [Get 16, Get 16, Get 16] [] (heap_setup True) =
      Some ([(0x81000000, 16), (0x81000010, 16), (0x81000020, 16)], s1)" "lrep s1 [16, 16, 16] 4048 False"
    using demo_three by blast
  obtain s2 where s2: "free 0x81000010 (s1\<lparr>lh_bins := (lh_bins s1)(0x80000000 \<mapsto>
      \<lparr>lb_prev = 0, lb_next = 0x80000010, lb_addr = 0x81000000, lb_flags = 16\<rparr>)\<rparr>) = Some s2"
    "\<exists>s'. malloc 32 s2 = Some (0x81000010, s')"
    using demo_free_second [OF s1(2)] demo_malloc_merged by blast
  have "\<not> disjoint_blocks [(0x81000020, 16), (0x81000010, 32)]"
  proof
    assume "disjoint_blocks [(0x81000020, 16), (0x81000010, 32)]"
    then have "apart (span (0x81000020, 16)) (span (0x81000010, 32))"
      unfolding disjoint_blocks_def by (elim allE [of _ 0] allE [of _ "1 :: nat"] impE) simp_all
    then show False by (simp add: apart_def span_def)
  qed
  moreover have "\<exists>s. heap_run malloc free [Get 16, Get 16, Get 16, Put 0, Put 0, Get 32] [] (heap_setup True) =
      Some ([(0x81000020, 16), (0x81000010, 32)], s)"
    using s1(1) demo_free_first [OF s1(2)] s2
    by (auto simp: Option.bind_eq_Some_conv)
  ultimately show ?thesis by blast
qed

end
