(* ===== verification/Print.thy ===== *)
theory Print
  imports Prelude
begin

text \<open>
  Formatting: \<^verbatim>\<open>module/logger/print.c\<close> in the kernel, and the streams of the C library,
  \<^verbatim>\<open>lib/libc/stdio/stdio.c\<close> and \<^verbatim>\<open>lib/libc/stdio/print.c\<close>, with \<^verbatim>\<open>micro_write\<close> of \<^verbatim>\<open>lib/libmicro/io/file.c\<close>. A buffer is a
  list of characters; a write or a read outside it is \<open>None\<close>.
\<close>

definition chr :: "u32 \<Rightarrow> char" where
  "chr w = char_of (unat w)"

subsection \<open>Formatting in the kernel\<close>

text \<open>
  A division by 0 is \<open>None\<close>, and so is a loop that does not end, which a base of 1 makes. \<open>n\<close> is the
  \<^verbatim>\<open>int32_t\<close> of the source, which the divisions read as unsigned.
\<close>

partial_function (option) itoa_scale :: "u32 \<Rightarrow> u32 \<Rightarrow> u32 \<Rightarrow> u32 option" where
  "itoa_scale n base dec =
     (if dec = 0 then None else if base \<le> n div dec then itoa_scale n base (dec * base) else Some dec)"

partial_function (option) itoa_digits :: "bool \<Rightarrow> u32 \<Rightarrow> u32 \<Rightarrow> u32 \<Rightarrow> nat \<Rightarrow> string option" where
  "itoa_digits caps base n dec i =
     (if dec = 0 then Some []
      else if base = 0 then None
      else do {
        let d = n div dec;
        let n1 = n mod dec;
        let dec1 = dec div base;
        if 0 < i \<or> 0 <s d \<or> dec1 = 0 then do {
          cs \<leftarrow> itoa_digits caps base n1 dec1 (Suc i);
          Some (chr (d + (if d <s 10 then 48 else if caps then 65 - 10 else 97 - 10)) # cs) }
        else itoa_digits caps base n1 dec1 i })"

text \<open>The characters written to the buffer, without the terminating null.\<close>

definition l_itoa :: "u32 \<Rightarrow> u32 \<Rightarrow> bool \<Rightarrow> bool \<Rightarrow> string option" where
  "l_itoa n base s caps = do {
     let neg = n <s 0 \<and> s;
     let n1 = (if neg then 0 - n else n);
     dec \<leftarrow> itoa_scale n1 base 1;
     cs \<leftarrow> itoa_digits caps base n1 dec (if neg then 1 else 0);
     Some ((if neg then [CHR ''-''] else []) @ cs) }"

text \<open>An argument of a format string is a number or a string.\<close>

datatype fmt_arg = ANum u32 | AStr string

fun arg_num :: "fmt_arg list \<Rightarrow> (u32 \<times> fmt_arg list) option" where
  "arg_num (ANum n # as) = Some (n, as)"
| "arg_num as = None"

fun arg_str :: "fmt_arg list \<Rightarrow> (string \<times> fmt_arg list) option" where
  "arg_str (AStr t # as) = Some (t, as)"
| "arg_str as = None"

text \<open>One conversion: what it writes and the arguments left. An unknown one is skipped.\<close>

definition l_conv :: "char \<Rightarrow> fmt_arg list \<Rightarrow> (string \<times> fmt_arg list) option" where
  "l_conv f as =
     (if f = CHR ''x'' \<or> f = CHR ''p'' \<or> f = CHR ''X'' then do {
        (n, as1) \<leftarrow> arg_num as;
        ds \<leftarrow> l_itoa n 16 False False;
        Some (''0x'' @ ds, as1) }
      else if f = CHR ''o'' then do {
        (n, as1) \<leftarrow> arg_num as;
        ds \<leftarrow> l_itoa n 8 False False;
        Some (''0'' @ ds, as1) }
      else if f = CHR ''u'' then do {
        (n, as1) \<leftarrow> arg_num as;
        ds \<leftarrow> l_itoa n 10 False False;
        Some (ds, as1) }
      else if f = CHR ''i'' then do {
        (n, as1) \<leftarrow> arg_num as;
        ds \<leftarrow> l_itoa n 10 True False;
        Some (ds, as1) }
      else if f = CHR ''s'' then arg_str as
      else Some ([], as))"

text \<open>After a \<^verbatim>\<open>%\<close> at the end of the format the loop goes on behind the terminating null.\<close>

fun l_vsprintf :: "string \<Rightarrow> fmt_arg list \<Rightarrow> string option" where
  "l_vsprintf [] as = Some []"
| "l_vsprintf [c] as = (if c \<noteq> CHR ''%'' then Some [c] else None)"
| "l_vsprintf (c # f # fs) as =
     (if c \<noteq> CHR ''%'' then do { cs \<leftarrow> l_vsprintf (f # fs) as; Some (c # cs) }
      else do { (t, as1) \<leftarrow> l_conv f as; cs \<leftarrow> l_vsprintf fs as1; Some (t @ cs) })"

text \<open>The return value, a number of characters.\<close>

definition l_sprintf :: "string \<Rightarrow> fmt_arg list \<Rightarrow> (string \<times> nat) option" where
  "l_sprintf fmt as = do { cs \<leftarrow> l_vsprintf fmt as; Some (cs, length cs) }"

subsection \<open>Streams of a process\<close>

text \<open>
  A stream with its buffer (\<open>None\<close> for a null pointer) and what \<^verbatim>\<open>syscall_print\<close> has printed. It prints up to
  the first null in the buffer and would read behind a buffer without one.
\<close>

record ustream =
  fl_fd :: u32
  fl_flg :: u8
  fl_buf :: "string option"
  fl_bufi :: u32
  fl_bufsz :: u32
  fl_out :: "string list"

definition BUFSIZ :: u32 where "BUFSIZ = 256"
definition FILE_FLG_PRINT :: u8 where "FILE_FLG_PRINT = 64"

definition nul :: char where "nul = CHR 0x00"

definition c_string :: "string \<Rightarrow> string option" where
  "c_string b = (if nul \<in> set b then Some (takeWhile (\<lambda>c. c \<noteq> nul) b) else None)"

definition micro_write :: "ustream \<Rightarrow> string \<Rightarrow> (u32 \<times> ustream) option" where
  "micro_write f buffer =
     (if fl_flg f AND FILE_FLG_PRINT \<noteq> 0
      then do { t \<leftarrow> c_string buffer; Some (0, f\<lparr>fl_out := fl_out f @ [t]\<rparr>) }
      else Some (-1, f))"

definition fflush :: "ustream \<Rightarrow> (u32 \<times> ustream) option" where
  "fflush f = (case fl_buf f of None \<Rightarrow> Some (-1, f)
     | Some b \<Rightarrow> do {
         (r, f1) \<leftarrow> micro_write f b;
         if length b < unat (fl_bufi f1) then None
         else Some (0, f1\<lparr>fl_buf := Some (replicate (unat (fl_bufi f1)) nul @ drop (unat (fl_bufi f1)) b), fl_bufi := 0\<rparr>) })"

text \<open>\<^verbatim>\<open>memcpy(stream->buf + stream->bufi, ptr, n)\<close>, where \<open>data\<close> are the bytes from \<^verbatim>\<open>ptr\<close> on.\<close>

definition buf_put :: "string \<Rightarrow> u32 \<Rightarrow> ustream \<Rightarrow> ustream option" where
  "buf_put data n f = do {
     b \<leftarrow> fl_buf f;
     if length data < unat n \<or> length b < unat (fl_bufi f) + unat n then None
     else Some (f\<lparr>fl_buf := Some (take (unat (fl_bufi f)) b @ take (unat n) data @ drop (unat (fl_bufi f) + unat n) b)\<rparr>) }"

partial_function (option) fwrite_loop :: "string \<Rightarrow> u32 \<Rightarrow> u32 \<Rightarrow> ustream \<Rightarrow> (u32 \<times> ustream) option" where
  "fwrite_loop data rsz wrcnt f =
     (if \<not> 0 <s rsz then Some (wrcnt, f)
      else do {
        let full = fl_bufsz f \<le> rsz + fl_bufi f;
        let w = wrcnt + (if full then fl_bufsz f - fl_bufi f else rsz);
        f2 \<leftarrow> (if full then do {
            f1 \<leftarrow> buf_put data (fl_bufsz f - fl_bufi f) f;
            (r, f2) \<leftarrow> fflush f1;
            Some f2 }
          else do {
            f1 \<leftarrow> buf_put data rsz f;
            Some (f1\<lparr>fl_bufi := fl_bufi f1 + rsz\<rparr>) });
        fwrite_loop data (rsz - (fl_bufsz f2 - fl_bufi f2)) w f2 })"

definition fwrite :: "string \<Rightarrow> u32 \<Rightarrow> u32 \<Rightarrow> ustream \<Rightarrow> (u32 \<times> ustream) option" where
  "fwrite data sz nmemb f =
     (if sz = 0 \<or> nmemb = 0 then Some (0, f)
      else if fl_buf f = None then micro_write f data
      else fwrite_loop data (sz * nmemb) 0 f)"

definition fputc :: "char \<Rightarrow> ustream \<Rightarrow> ustream option" where
  "fputc c f = do {
     (r, f1) \<leftarrow> fwrite [c] 1 1 f;
     (r1, f2) \<leftarrow> fflush f1;
     Some f2 }"

text \<open>A C string is followed by its null.\<close>

definition fputs :: "string \<Rightarrow> ustream \<Rightarrow> (u32 \<times> ustream) option" where
  "fputs t f = do {
     (i, f1) \<leftarrow> fwrite (t @ [nul]) (of_nat (length t)) 1 f;
     (j, f2) \<leftarrow> fwrite [CHR 0x0A, nul] 1 1 f1;
     (r, f3) \<leftarrow> fflush f2;
     Some (i OR j, f3) }"

partial_function (option) printi_loop :: "u32 \<Rightarrow> u8 \<Rightarrow> ustream \<Rightarrow> ustream option" where
  "printi_loop n base f =
     (if base = 0 then None
      else do {
        f1 \<leftarrow> (if ucast base \<le> n then printi_loop (n div ucast base) base f else Some f);
        let d = n mod ucast base;
        fputc (chr (if 10 \<le> d then d + (65 - 10) else d + 48)) f1 })"

text \<open>The count it returns is 1 for a sign and 0 otherwise.\<close>

definition printi :: "u32 \<Rightarrow> u8 \<Rightarrow> bool \<Rightarrow> ustream \<Rightarrow> (u32 \<times> ustream) option" where
  "printi n base neg f =
     (if n <s 0 \<and> neg then do {
        f1 \<leftarrow> fputc (CHR ''-'') f;
        f2 \<leftarrow> printi_loop (0 - n) base f1;
        Some (1, f2) }
      else do { f1 \<leftarrow> printi_loop n base f; Some (0, f1) })"

text \<open>One conversion: what it adds to the count, the arguments left and the stream. An unknown one is skipped.\<close>

definition printf_conv :: "char \<Rightarrow> fmt_arg list \<Rightarrow> ustream \<Rightarrow> (u32 \<times> fmt_arg list \<times> ustream) option" where
  "printf_conv d as f =
     (if d = CHR ''d'' \<or> d = CHR ''i'' then do {
        (n, as1) \<leftarrow> arg_num as;
        (k, f1) \<leftarrow> printi n 10 True f;
        Some (k, as1, f1) }
      else if d = CHR ''o'' then do {
        (n, as1) \<leftarrow> arg_num as;
        (k, f1) \<leftarrow> printi n 8 False f;
        Some (k, as1, f1) }
      else if d = CHR ''u'' then do {
        (n, as1) \<leftarrow> arg_num as;
        (k, f1) \<leftarrow> printi n 10 False f;
        Some (k, as1, f1) }
      else if d = CHR ''x'' \<or> d = CHR ''X'' \<or> d = CHR ''p'' then do {
        (n, as1) \<leftarrow> arg_num as;
        (k, f1) \<leftarrow> printi n 16 False f;
        Some (k, as1, f1) }
      else if d = CHR ''s'' then do {
        (t, as1) \<leftarrow> arg_str as;
        (k, f1) \<leftarrow> fwrite (t @ [nul]) (of_nat (length t)) 1 f;
        Some (k, as1, f1) }
      else Some (0, as, f))"

text \<open>
  \<open>count\<close> is the value of the variable \<^verbatim>\<open>count\<close>, which the source does not set before the loop. A \<^verbatim>\<open>%\<close> at
  the end makes it go on behind the terminating null.
\<close>

fun vfprintf :: "string \<Rightarrow> fmt_arg list \<Rightarrow> u32 \<Rightarrow> ustream \<Rightarrow> (u32 \<times> ustream) option" where
  "vfprintf [] as count f = do { (r, f1) \<leftarrow> fflush f; Some (count, f1) }"
| "vfprintf [c] as count f =
     (if c = CHR ''%'' then None
      else do { f1 \<leftarrow> fputc c f; (r, f2) \<leftarrow> fflush f1; Some (count + 1, f2) })"
| "vfprintf (c # d # fs) as count f =
     (if c \<noteq> CHR ''%'' then do { f1 \<leftarrow> fputc c f; vfprintf (d # fs) as (count + 1) f1 }
      else do { (k, as1, f1) \<leftarrow> printf_conv d as f; vfprintf fs as1 (count + k) f1 })"

text \<open>\<open>buf\<close> is the result of \<^verbatim>\<open>malloc(BUFSIZ)\<close>, cleared.\<close>

definition stdio_stream :: "u32 \<Rightarrow> ustream" where
  "stdio_stream fd = \<lparr>fl_fd = fd, fl_flg = FILE_FLG_PRINT, fl_buf = Some (replicate (unat BUFSIZ) nul),
     fl_bufi = 0, fl_bufsz = BUFSIZ, fl_out = []\<rparr>"

end
