(* ===== verification/Print_Props.thy ===== *)
theory Print_Props
  imports Print
begin

text \<open>
  Numbers as digits, and what the printing functions make of them: \<open>l_itoa\<close> writes the digits of a number,
  which read back as the number, \<open>printi\<close> prints the same, and \<open>fwrite\<close> prints what it is given up to half
  a buffer.
\<close>

subsection \<open>Numbers as digits\<close>

function digits :: "nat \<Rightarrow> nat \<Rightarrow> nat list" where
  "digits b n = (if n < b \<or> b < 2 then [n] else digits b (n div b) @ [n mod b])"
  by auto
termination by (relation "measure snd") auto

declare digits.simps [simp del]

definition value_of :: "nat \<Rightarrow> nat list \<Rightarrow> nat" where
  "value_of b ds = foldl (\<lambda>a d. a * b + d) 0 ds"

lemma value_digits: "value_of b (digits b n) = n"
proof (induction b n rule: digits.induct)
  case (1 b n)
  then show ?case by (subst digits.simps) (auto simp: value_of_def)
qed

lemma digits_less: "2 \<le> b \<Longrightarrow> d \<in> set (digits b n) \<Longrightarrow> d < b"
proof (induction b n rule: digits.induct)
  case (1 b n)
  then show ?case by (subst (asm) digits.simps) (auto split: if_splits)
qed

text \<open>The digits in a field of given width.\<close>

fun fdigits :: "nat \<Rightarrow> nat \<Rightarrow> nat \<Rightarrow> nat list" where
  "fdigits b 0 n = [n]"
| "fdigits b (Suc k) n = n div b ^ Suc k # fdigits b k (n mod b ^ Suc k)"

lemma fdigits_snoc: "0 < b \<Longrightarrow> fdigits b (Suc k) n = fdigits b k (n div b) @ [n mod b]"
proof (induction k arbitrary: n)
  case (Suc k)
  have "n mod b ^ Suc (Suc k) mod b = n mod b" by (simp add: mod_mod_cancel)
  moreover have "n mod (b * b ^ Suc k) div b = n div b mod b ^ Suc k"
    using mod_mult2_eq [of n b "b ^ Suc k"] Suc.prems by simp
  then have "n mod b ^ Suc (Suc k) div b = n div b mod b ^ Suc k" by simp
  moreover have "n div b ^ Suc (Suc k) = n div b div b ^ Suc k" by (simp add: div_mult2_eq)
  moreover have "fdigits b (Suc (Suc k)) n = n div b ^ Suc (Suc k) # fdigits b (Suc k) (n mod b ^ Suc (Suc k))"
    by (rule fdigits.simps)
  moreover have "fdigits b (Suc k) (n div b) = n div b div b ^ Suc k # fdigits b k (n div b mod b ^ Suc k)"
    by (rule fdigits.simps)
  ultimately show ?case using Suc.IH [OF Suc.prems, of "n mod b ^ Suc (Suc k)"] by (simp del: fdigits.simps power_Suc)
qed simp

lemma digits_fdigits: "2 \<le> b \<Longrightarrow> n < b ^ Suc k \<Longrightarrow> k = 0 \<or> b ^ k \<le> n \<Longrightarrow> digits b n = fdigits b k n"
proof (induction k arbitrary: n)
  case 0
  then show ?case by (simp add: digits.simps)
next
  case (Suc k)
  have b: "0 < b" using Suc.prems(1) by simp
  have le: "b ^ Suc k \<le> n" using Suc.prems(3) by simp
  moreover have "b \<le> b ^ Suc k" using b by simp
  ultimately have "b \<le> n" by (rule order_trans [rotated])
  moreover have "n div b < b ^ Suc k" using Suc.prems(2) b by (simp add: less_mult_imp_div_less mult.commute)
  moreover have "b ^ k \<le> n div b" using div_le_mono [OF le, of b] b by simp
  ultimately show ?case using Suc.IH [of "n div b"] Suc.prems(1) fdigits_snoc [OF b, of k n] by (subst digits.simps) simp
qed

definition digit_char :: "bool \<Rightarrow> nat \<Rightarrow> char" where
  "digit_char caps d = char_of (if d < 10 then d + 48 else d + (if caps then 55 else 87))"

subsection \<open>The scale and the digits of \<open>l_itoa\<close>\<close>

lemma itoa_scale_ok:
  fixes n base :: u32
  assumes b: "2 \<le> unat base"
  shows "k = 0 \<or> unat base ^ k \<le> unat n \<Longrightarrow> \<exists>j. itoa_scale n base (of_nat (unat base ^ k)) = Some (of_nat (unat base ^ j)) \<and>
    unat n < unat base ^ Suc j \<and> (j = 0 \<or> unat base ^ j \<le> unat n)"
proof (induction "unat n - unat base ^ k" arbitrary: k rule: less_induct)
  case less
  let ?b = "unat base"
  have pk: "?b ^ k < 4294967296"
  proof (cases "k = 0")
    case False
    then have "?b ^ k \<le> unat n" using less.prems by simp
    then show ?thesis using u32_bound [of n] by (rule le_less_trans)
  qed simp
  then have un: "unat (of_nat (?b ^ k) :: u32) = ?b ^ k" by (rule u32_of_nat)
  have b0: "0 < ?b" using b by simp
  then have p0: "0 < ?b ^ k" by simp
  have nz: "(of_nat (?b ^ k) :: u32) \<noteq> 0" using un p0 by (metis unat_0 less_numeral_extra(3))
  have c: "base \<le> n div of_nat (?b ^ k) \<longleftrightarrow> ?b * ?b ^ k \<le> unat n"
    unfolding word_le_nat_alt unat_div un using p0 by (simp add: less_eq_div_iff_mult_less_eq)
  show ?case
  proof (cases "?b * ?b ^ k \<le> unat n")
    case True
    have "?b ^ k < ?b * ?b ^ k" using b p0 by simp
    from diff_less_mono2 [OF this less_le_trans [OF this True]]
    have "unat n - ?b ^ Suc k < unat n - ?b ^ k" by simp
    moreover have "Suc k = 0 \<or> ?b ^ Suc k \<le> unat n" using True by simp
    moreover have "of_nat (?b ^ k) * base = of_nat (?b ^ Suc k)" by (simp add: mult.commute)
    ultimately show ?thesis using less.hyps [of "Suc k"] nz c True by (subst itoa_scale.simps) (simp add: mult.commute)
  next
    case False
    then show ?thesis using nz c less.prems by (subst itoa_scale.simps) (auto intro!: exI [of _ k])
  qed
qed

lemma small_sless: "unat d < 0x80000000 \<Longrightarrow> d <s 10 \<longleftrightarrow> unat d < 10" "unat d < 0x80000000 \<Longrightarrow> 0 <s d \<longleftrightarrow> 0 < unat d"
  for d :: u32
proof -
  assume "unat d < 0x80000000"
  moreover have "sint (of_nat n :: u32) = int n" if "n < 0x80000000" for n
    using that by (simp add: signed_of_nat signed_take_bit_int_eq_self)
  ultimately have "sint d = int (unat d)" by (metis of_nat_unat ucast_id)
  then show "d <s 10 \<longleftrightarrow> unat d < 10" "0 <s d \<longleftrightarrow> 0 < unat d"
    by (simp_all only: word_sless_alt) (simp_all del: of_nat_unat)
qed

lemma chr_digit:
  fixes d :: u32
  assumes "unat d < 36"
  shows "chr (d + (if d <s 10 then 48 else if caps then 65 - 10 else 97 - 10)) = digit_char caps (unat d)"
proof -
  have s: "d <s 10 \<longleftrightarrow> unat d < 10" using small_sless(1) assms by simp
  have "unat (d + c) = unat d + unat c" if "unat c < 100" for c :: u32 using that assms by (simp add: unat_word_ariths)
  then show ?thesis by (simp add: s chr_def digit_char_def)
qed

text \<open>Once something is written, or from the first digit that is not 0, every digit is written.\<close>

lemma itoa_digits_all:
  fixes n base :: u32
  assumes b: "2 \<le> unat base" "unat base \<le> 36"
  shows "unat n < unat base ^ Suc k \<Longrightarrow> unat base ^ k < 4294967296 \<Longrightarrow> 0 < i \<or> k = 0 \<or> unat base ^ k \<le> unat n \<Longrightarrow>
    itoa_digits caps base n (of_nat (unat base ^ k)) i = Some (map (digit_char caps) (fdigits (unat base) k (unat n)))"
proof (induction k arbitrary: n i)
  case 0
  have b0: "base \<noteq> 0" using b by auto
  have d1: "base \<noteq> 1" using b by auto
  have "unat n < 36" using 0 b by simp
  note ch = chr_digit [OF this, of caps]
  have "itoa_digits caps base n 1 i = do {
      cs \<leftarrow> itoa_digits caps base (n mod 1) 0 (Suc i);
      Some (chr (n + (if n <s 10 then 48 else if caps then 65 - 10 else 97 - 10)) # cs) }"
    by (subst itoa_digits.simps) (simp add: b0 d1 Let_def)
  also have "itoa_digits caps base (n mod 1) 0 (Suc i) = Some []" by (subst itoa_digits.simps) simp
  finally show ?case using ch by simp
next
  case (Suc k)
  let ?b = "unat base" and ?p = "of_nat (unat base ^ Suc k) :: u32"
  have b0: "base \<noteq> 0" using b by auto
  have p: "unat ?p = ?b ^ Suc k" using Suc.prems(2) by (rule u32_of_nat)
  have pos: "0 < ?b ^ Suc k" using b by simp
  have pk: "?b ^ k < 4294967296" using Suc.prems(2) b by (simp add: order_le_less_trans [OF _ Suc.prems(2)])
  have nz: "?p \<noteq> 0" using p pos by (metis unat_0 less_numeral_extra(3))
  have dv: "?p div base = of_nat (?b ^ k)"
    by (rule word_unat_eq_iff [THEN iffD2]) (use b p u32_of_nat [OF pk] in \<open>simp add: unat_div\<close>)
  have dd: "unat (n div ?p) = unat n div ?b ^ Suc k" unfolding unat_div p ..
  have dm: "unat (n mod ?p) = unat n mod ?b ^ Suc k" unfolding unat_mod p ..
  have "unat n < ?b * ?b ^ Suc k" using Suc.prems(1) by simp
  then have "unat n div ?b ^ Suc k < ?b" using pos by (simp add: less_mult_imp_div_less)
  then have d36: "unat (n div ?p) < 36" using dd b by simp
  have first: "0 < i \<or> 0 <s n div ?p"
  proof (cases "0 < i")
    case False
    then have "?b ^ Suc k \<le> unat n" using Suc.prems(3) by simp
    then have "0 < unat (n div ?p)" unfolding dd using pos by (simp add: div_greater_zero_iff)
    then show ?thesis using small_sless(2) [of "n div ?p"] d36 by simp
  qed simp
  have "unat (n mod ?p) < ?b ^ Suc k" unfolding dm by (rule mod_less_divisor [OF pos])
  then have "itoa_digits caps base (n mod ?p) (of_nat (?b ^ k)) (Suc i) =
      Some (map (digit_char caps) (fdigits ?b k (unat n mod ?b ^ Suc k)))"
    using Suc.IH [of "n mod ?p" "Suc i"] pk dm by simp
  then show ?case
    using nz b0 first chr_digit [OF d36, of caps] unfolding fdigits.simps dd
    by (subst itoa_digits.simps) (auto simp: Let_def dv simp del: of_nat_power power_Suc)
qed

lemma l_itoa_digits:
  fixes n base :: u32
  assumes b: "2 \<le> unat base" "unat base \<le> 36"
  shows "l_itoa n base sg caps = Some (if n <s 0 \<and> sg
    then CHR ''-'' # map (digit_char caps) (digits (unat base) (unat (- n)))
    else map (digit_char caps) (digits (unat base) (unat n)))"
proof -
  have run: "do { dec \<leftarrow> itoa_scale m base 1; itoa_digits caps base m dec i } = Some (map (digit_char caps) (digits (unat base) (unat m)))" for m i
  proof -
    obtain j where j: "itoa_scale m base (of_nat (unat base ^ 0)) = Some (of_nat (unat base ^ j))"
      "unat m < unat base ^ Suc j" "j = 0 \<or> unat base ^ j \<le> unat m"
      using itoa_scale_ok [OF b(1), of 0 m] by blast
    have "unat base ^ j < 4294967296" using j(3) u32_bound [of m] by (cases "j = 0") auto
    then show ?thesis using j itoa_digits_all [OF b j(2), of i caps] digits_fdigits [OF b(1) j(2,3)] by simp
  qed
  have run': "do { dec \<leftarrow> itoa_scale m base 1; cs \<leftarrow> itoa_digits caps base m dec i; Some (pre @ cs) } =
      Some (pre @ map (digit_char caps) (digits (unat base) (unat m)))" for m i and pre :: string
    using run [of m i] by (auto simp: Option.bind_eq_Some_conv)
  show ?thesis using run' [of "- n" 1 "[CHR ''-'']"] run' [of n 0 "[]"] by (auto simp: l_itoa_def Let_def)
qed

subsection \<open>Reading a number back\<close>

definition char_digit :: "char \<Rightarrow> nat" where
  "char_digit c = (let k = of_char c in if k < 58 then k - 48 else if k < 97 then k - 55 else k - 87)"

fun read_int :: "nat \<Rightarrow> string \<Rightarrow> int" where
  "read_int b [] = 0"
| "read_int b (c # cs) = (if c = CHR ''-'' then - int (value_of b (map char_digit cs))
     else int (value_of b (map char_digit (c # cs))))"

lemma char_digit: "d < 36 \<Longrightarrow> char_digit (digit_char caps d) = d" "d < 36 \<Longrightarrow> digit_char caps d \<noteq> CHR ''-''"
proof -
  assume d: "d < 36"
  have c: "of_char (char_of k :: char) = k" if "k < 128" for k :: nat using that by simp
  show "char_digit (digit_char caps d) = d" using d by (simp add: char_digit_def digit_char_def c Let_def)
  have "(of_char (digit_char caps d) :: nat) \<noteq> of_char (CHR ''-'')" using d by (simp add: digit_char_def c)
  then show "digit_char caps d \<noteq> CHR ''-''" by metis
qed

lemma read_digits: "2 \<le> b \<Longrightarrow> b \<le> 36 \<Longrightarrow> map char_digit (map (digit_char caps) (digits b n)) = digits b n"
  using digits_less [of b _ n] by (auto intro!: map_idI char_digit(1)) (meson less_le_trans)

lemma digits_cons: "\<exists>d ds. digits b n = d # ds"
proof (cases "digits b n")
  case Nil
  then show ?thesis by (subst (asm) digits.simps) (auto split: if_splits)
qed simp

text \<open>
  C30 (roundtrip): for every base from 2 to 36, \<open>l_itoa\<close> ends, and the characters it writes, read as digits in
  this base, give the number back: as a signed number if \<open>s\<close> is set, with a sign if it is negative, and as an
  unsigned number otherwise. The smallest negative number is no exception.
\<close>

theorem l_itoa_roundtrip:
  assumes "2 \<le> unat base" and "unat base \<le> 36"
  shows "\<exists>cs. l_itoa n base sg caps = Some cs \<and> read_int (unat base) cs = (if sg then sint n else uint n)"
proof -
  let ?b = "unat base"
  have pos: "read_int ?b (map (digit_char caps) (digits ?b k)) = int k" for k
  proof -
    obtain d ds where d: "digits ?b k = d # ds" using digits_cons by blast
    then have "d < 36" using digits_less [OF assms(1), of d k] assms(2) by simp
    then have "read_int ?b (map (digit_char caps) (digits ?b k)) = int (value_of ?b (map char_digit (map (digit_char caps) (digits ?b k))))"
      using char_digit(2) [of d caps] unfolding d by simp
    then show ?thesis by (simp only: read_digits [OF assms] value_digits)
  qed
  have neg: "read_int ?b (CHR ''-'' # map (digit_char caps) (digits ?b k)) = - int k" for k
    using read_digits [OF assms, of caps k] by (simp only: read_int.simps value_digits if_True refl)
  have u: "0 \<le> uint n" "uint n < 2 ^ 32" using unsigned_less [of n, where 'a = int] by simp_all
  then have "take_bit 32 (uint n) = uint n" by (intro take_bit_int_eq_self) simp_all
  then have sint_cases: "sint n = uint n \<or> sint n = uint n - 2 ^ 32"
    by (simp add: sint_uint signed_take_bit_eq_take_bit_minus)
  show ?thesis
  proof (cases "n <s 0 \<and> sg")
    case True
    then have s: "sint n < 0" by (simp add: word_sless_alt)
    have "sint n = uint n - 2 ^ 32" using s sint_cases by auto
    moreover have "n \<noteq> 0" using s by auto
    then have "uint n \<noteq> 0" by (metis uint_0_iff)
    then have "uint (- n) = 2 ^ 32 - uint n" using u by (simp add: uint_word_ariths zmod_zminus1_eq_if)
    then have "int (unat (- n)) = 2 ^ 32 - uint n" by simp
    ultimately show ?thesis using l_itoa_digits [OF assms, of n sg caps] neg [of "unat (- n)"] True by simp
  next
    case False
    have "sint n = uint n" if "\<not> n <s 0"
      using that sint_cases u by (auto simp: word_sless_alt)
    then have "int (unat n) = (if sg then sint n else uint n)" using False by auto
    then show ?thesis using l_itoa_digits [OF assms, of n sg caps] pos [of "unat n"] False by auto
  qed
qed

theorem l_itoa_roundtrip_witness:
  "\<exists>cs. l_itoa 0x80000000 10 True False = Some cs \<and> read_int 10 cs = - 2147483648"
  using l_itoa_roundtrip [of 10 "0x80000000" True False] by simp

subsection \<open>Streams\<close>

text \<open>A stream that prints, with an empty buffer.\<close>

definition idle :: "ustream \<Rightarrow> bool" where
  "idle f \<longleftrightarrow> fl_flg f AND FILE_FLG_PRINT \<noteq> 0 \<and> fl_buf f = Some (replicate 256 nul) \<and> fl_bufi f = 0 \<and> fl_bufsz f = 256"

definition printed :: "string list \<Rightarrow> ustream \<Rightarrow> ustream" where
  "printed ts f = f\<lparr>fl_out := fl_out f @ ts\<rparr>"

lemma printed_simps [simp]: "idle (printed ts f) \<longleftrightarrow> idle f" "printed us (printed ts f) = printed (ts @ us) f" "printed [] f = f"
  by (simp_all add: idle_def printed_def)

lemma c_string_pad: "nul \<notin> set cs \<Longrightarrow> 0 < k \<Longrightarrow> c_string (cs @ replicate k nul) = Some cs"
  by (simp add: c_string_def takeWhile_append1 takeWhile_append2) (cases k; auto simp: takeWhile_append)

lemma idle_fflush:
  assumes "fl_flg f AND FILE_FLG_PRINT \<noteq> 0" and "fl_buf f = Some (cs @ replicate (256 - length cs) nul)" and "nul \<notin> set cs"
    and "unat (fl_bufi f) = length cs" and "length cs < 256"
  shows "fflush f = Some (0, f\<lparr>fl_out := fl_out f @ [cs], fl_buf := Some (replicate 256 nul), fl_bufi := 0\<rparr>)"
proof -
  have "c_string (cs @ replicate (256 - length cs) nul) = Some cs" using c_string_pad [OF assms(3)] assms(5) by simp
  moreover have "replicate (length cs) nul @ replicate (256 - length cs) nul = replicate 256 nul"
    using assms(5) by (simp add: replicate_add [symmetric])
  ultimately show ?thesis using assms by (simp add: fflush_def micro_write_def)
qed

text \<open>A count that is in range as a signed number.\<close>

lemma sless_of_int: "- 0x80000000 \<le> k \<Longrightarrow> k < 0x80000000 \<Longrightarrow> 0 <s (of_int k :: u32) \<longleftrightarrow> 0 < k"
  by (simp add: word_sless_alt signed_of_int signed_take_bit_int_eq_self)

lemma sless_of_nat: "n < 0x80000000 \<Longrightarrow> 0 <s (of_nat n :: u32) \<longleftrightarrow> 0 < n"
  using sless_of_int [of "int n"] by simp

lemma fill_front: "length cs \<le> 256 \<Longrightarrow> cs @ drop (length cs) (replicate 256 nul) = cs @ replicate (256 - length cs) nul"
  by simp

text \<open>
  One round of the loop on an idle stream: the characters go to the buffer, and the count left is what
  went in less what is free, negative if there were at most half a buffer of them.
\<close>

lemma fwrite_round:
  assumes "idle f" and n: "0 < n" "n < 256" "n \<le> length data"
  shows "fwrite_loop data (of_nat n) w f = fwrite_loop data (of_int (2 * int n - 256)) (w + of_nat n)
    (f\<lparr>fl_buf := Some (take n data @ replicate (256 - n) nul), fl_bufi := of_nat n\<rparr>)"
proof -
  have u: "unat (of_nat n :: u32) = n" using n(2) by (intro u32_of_nat) simp
  have "0 <s (of_nat n :: u32)" using sless_of_nat [of n] n by simp
  moreover have "\<not> fl_bufsz f \<le> of_nat n + fl_bufi f" using assms(1) n(2) u by (simp add: idle_def word_le_nat_alt)
  moreover have "buf_put data (of_nat n) f = Some (f\<lparr>fl_buf := Some (take n data @ replicate (256 - n) nul)\<rparr>)"
    using assms u by (simp add: buf_put_def idle_def)
  moreover have "(of_nat n :: u32) - (256 - of_nat n) = of_int (2 * int n - 256)" by simp
  ultimately show ?thesis using assms(1) by (subst fwrite_loop.simps) (simp add: Let_def idle_def)
qed

lemma fwrite_half:
  assumes "idle f" and "0 < length cs" and "length cs \<le> 128"
  shows "fwrite_loop (cs @ rest) (of_nat (length cs)) w f = Some (w + of_nat (length cs),
    f\<lparr>fl_buf := Some (cs @ replicate (256 - length cs) nul), fl_bufi := of_nat (length cs)\<rparr>)"
proof -
  have "\<not> 0 <s (of_int (2 * int (length cs) - 256) :: u32)"
    using sless_of_int [of "2 * int (length cs) - 256"] assms(3) by simp
  then have "fwrite_loop d (of_int (2 * int (length cs) - 256)) v g = Some (v, g)" for d v g by (subst fwrite_loop.simps) (simp only: simp_thms if_True)
  then show ?thesis using fwrite_round [OF assms(1), of "length cs" "cs @ rest" w] assms(2,3) by simp
qed

text \<open>Up to half a buffer, what is written and flushed is printed as it is.\<close>

lemma write_flush:
  assumes "idle f" and "0 < length cs" and "length cs \<le> 128" and "nul \<notin> set cs"
  shows "\<exists>g. fwrite (cs @ rest) (of_nat (length cs)) 1 f = Some (of_nat (length cs), g) \<and> fflush g = Some (0, printed [cs] f)"
proof -
  let ?g = "f\<lparr>fl_buf := Some (cs @ replicate (256 - length cs) nul), fl_bufi := of_nat (length cs)\<rparr>"
  have u: "unat (of_nat (length cs) :: u32) = length cs" using assms(3) by (intro u32_of_nat) simp
  then have "(of_nat (length cs) :: u32) \<noteq> 0" using assms(2) by (metis unat_0 less_numeral_extra(3))
  then have "fwrite (cs @ rest) (of_nat (length cs)) 1 f = Some (of_nat (length cs), ?g)"
    using fwrite_half [OF assms(1-3), of rest 0] assms(1) by (simp add: fwrite_def idle_def)
  moreover have "fflush ?g = Some (0, printed [cs] f)"
    using idle_fflush [of ?g cs] assms u by (simp add: idle_def printed_def)
  ultimately show ?thesis by blast
qed

lemma fputc_idle:
  assumes "idle f" and "c \<noteq> nul"
  shows "fputc c f = Some (printed [[c]] f)"
  using write_flush [OF assms(1), of "[c]" "[]"] assms(2) by (auto simp: fputc_def)

subsection \<open>Printing a number\<close>

lemma chr_digit_caps: "unat d < 36 \<Longrightarrow> chr (if 10 \<le> d then d + (65 - 10) else d + 48) = digit_char True (unat d)" for d :: u32
proof -
  assume d: "unat d < 36"
  have "unat (d + c) = unat d + unat c" if "unat c < 100" for c :: u32 using that d by (simp add: unat_word_ariths)
  moreover have "10 \<le> d \<longleftrightarrow> \<not> unat d < 10" by (simp add: word_le_nat_alt not_less)
  ultimately show ?thesis by (simp add: chr_def digit_char_def)
qed

lemma digit_not_nul: "d < 36 \<Longrightarrow> digit_char caps d \<noteq> nul"
proof -
  assume d: "d < 36"
  have c: "of_char (char_of k :: char) = k" if "k < 128" for k :: nat using that by simp
  have "(of_char (digit_char caps d) :: nat) \<noteq> of_char nul" using d by (simp add: digit_char_def c nul_def)
  then show ?thesis by metis
qed

lemma unat_u8: "unat (ucast b :: u32) = unat b" for b :: u8
proof -
  have "unat b < 2 ^ 32" using unsigned_less [of b, where 'a = nat] by simp
  then show ?thesis by (simp add: unsigned_ucast_eq take_bit_nat_eq_self)
qed

lemma printi_loop_ok:
  fixes base :: u8
  assumes b: "2 \<le> unat base" "unat base \<le> 36" and f: "idle f"
  shows "printi_loop n base f = Some (printed (map (\<lambda>d. [digit_char True d]) (digits (unat base) (unat n))) f)"
proof (induction "unat n" arbitrary: n rule: less_induct)
  case less
  have ub: "unat (ucast base :: u32) = unat base" by (rule unat_u8)
  have b0: "base \<noteq> 0" using b by auto
  have dv: "unat (n div ucast base) = unat n div unat base" "unat (n mod ucast base) = unat n mod unat base"
    by (simp_all only: unat_div unat_mod ub)
  have d: "unat (n mod ucast base) < 36" unfolding dv using b mod_less_divisor [of "unat base" "unat n"] by linarith
  have le: "ucast base \<le> n \<longleftrightarrow> unat base \<le> unat n" by (simp only: word_le_nat_alt ub)
  have put: "idle g \<Longrightarrow> fputc (chr (if 10 \<le> n mod ucast base then n mod ucast base + (65 - 10) else n mod ucast base + 48)) g =
      Some (printed [[digit_char True (unat n mod unat base)]] g)" for g
    unfolding chr_digit_caps [OF d] unfolding dv using d digit_not_nul fputc_idle dv by metis
  show ?case
  proof (cases "unat base \<le> unat n")
    case True
    have "unat (n div ucast base) < unat n" unfolding dv using b True by simp
    from less.hyps [OF this] have "printi_loop (n div ucast base) base f =
      Some (printed (map (\<lambda>d. [digit_char True d]) (digits (unat base) (unat n div unat base))) f)" unfolding dv .
    then show ?thesis using True b0 le f put b
      by (subst printi_loop.simps, subst digits.simps) (simp add: Let_def)
  next
    case False
    then show ?thesis using b0 le f put by (subst printi_loop.simps, subst digits.simps) (simp add: Let_def)
  qed
qed

text \<open>
  C31 (equivalence): printing a number with the \<^verbatim>\<open>printf\<close> of the C library to a stream with an empty buffer
  prints, character by character, what the kernel's \<open>l_itoa\<close> writes for the same number, base and sign, with
  capital letters.
\<close>

theorem printi_equals_itoa:
  assumes "2 \<le> unat base" and "unat base \<le> 36" and "idle f"
  shows "\<exists>cs k. l_itoa n (ucast base) sg True = Some cs \<and> printi n base sg f = Some (k, printed (map (\<lambda>c. [c]) cs) f)"
proof -
  have ub: "unat (ucast base :: u32) = unat base" by (rule unat_u8)
  note it = l_itoa_digits [of "ucast base" n sg True, unfolded ub, OF assms(1,2)]
  have m: "fputc CHR ''-'' f = Some (printed [''-''] f)" using fputc_idle [OF assms(3)] by (simp add: nul_def)
  have id: "idle (printed [''-''] f)" using assms(3) by simp
  show ?thesis
    using it m printi_loop_ok [OF assms, of n] printi_loop_ok [OF assms(1,2) id, of "- n"]
    by (auto simp: printi_def comp_def)
qed

lemma stdio_idle: "idle (stdio_stream fd)"
  by (simp add: idle_def stdio_stream_def FILE_FLG_PRINT_def BUFSIZ_def)

theorem printi_equals_itoa_witness:
  "\<exists>cs k. l_itoa 0xBEEF 16 False True = Some cs \<and> printi 0xBEEF 16 False (stdio_stream 1) = Some (k, printed (map (\<lambda>c. [c]) cs) (stdio_stream 1))"
  using printi_equals_itoa [of 16 "stdio_stream 1" "0xBEEF" False] stdio_idle by simp

subsection \<open>Writing more than half a buffer\<close>

text \<open>
  C39 (error): \<open>fwrite\<close> counts down what is left by the free space of the buffer instead of what it wrote, and
  never advances its source. Between 129 and 153 characters it therefore goes round once more: \<open>n\<close> characters
  are printed followed by the first \<open>2 n - 256\<close> of them again, and the result is their sum.
\<close>

theorem fwrite_repeats:
  assumes "idle f" and "128 < length cs" and "length cs \<le> 153" and "nul \<notin> set cs"
  shows "\<exists>g. fwrite (cs @ rest) (of_nat (length cs)) 1 f = Some (of_nat (3 * length cs - 256), g) \<and>
    fflush g = Some (0, printed [cs @ take (2 * length cs - 256) cs] f)"
proof -
  define n r m where "n = length cs" and "r = 2 * n - 256" and "m = 3 * n - 256"
  have le: "128 < n" "n \<le> 153" "0 < r" "m < 256" "r \<le> n" "n < 256" and nr: "m = n + r" "r = n + n - 256"
    using assms(2,3) by (simp_all add: n_def r_def m_def)
  let ?g1 = "f\<lparr>fl_buf := Some (cs @ replicate (256 - n) nul), fl_bufi := of_nat n\<rparr>"
  let ?g = "f\<lparr>fl_buf := Some ((cs @ take r cs) @ replicate (256 - m) nul), fl_bufi := of_nat m\<rparr>"
  have w: "(of_nat n + of_nat r :: u32) = of_nat m" "of_nat r + of_nat n = (of_nat m :: u32)" using nr(1) by simp_all
  have u: "unat (of_nat n :: u32) = n" "unat (of_nat r :: u32) = r" "unat (of_nat m :: u32) = m"
    using le by (simp_all add: u32_of_nat)
  have ri: "int r = 2 * int n - 256" "int r - (256 - int m) = 5 * int n - 768" using le nr by simp_all
  have r: "(of_int (2 * int n - 256) :: u32) = of_nat r" unfolding ri(1) [symmetric] by simp
  have e: "(of_nat r - (256 - of_nat m) :: u32) = of_int (5 * int n - 768)" unfolding ri(2) [symmetric] by simp
  have 1: "fwrite_loop (cs @ rest) (of_nat n) 0 f = fwrite_loop (cs @ rest) (of_nat r) (of_nat n) ?g1"
    using fwrite_round [OF assms(1), of n "cs @ rest" 0] le unfolding r by (simp add: n_def [symmetric])
  have s: "0 <s (of_nat r :: u32)" using sless_of_nat [of r] le by simp
  have nf: "\<not> 256 \<le> (of_nat m :: u32)" using u(3) le by (simp add: word_le_nat_alt)
  have put: "buf_put (cs @ rest) (of_nat r) ?g1 = Some (?g1\<lparr>fl_buf := Some ((cs @ take r cs) @ replicate (256 - m) nul)\<rparr>)"
    using le u nr(1) by (simp add: buf_put_def n_def [symmetric] add.commute)
  have "\<not> 0 <s (of_int (5 * int n - 768) :: u32)" using sless_of_int [of "5 * int n - 768"] le(1,2) by simp
  then have 3: "fwrite_loop d (of_int (5 * int n - 768)) v g = Some (v, g)" for d v g
    by (subst fwrite_loop.simps) (simp only: simp_thms if_True)
  have 2: "fwrite_loop (cs @ rest) (of_nat r) (of_nat n) ?g1 = Some (of_nat m, ?g)"
  proof -
    have g: "fl_bufsz ?g1 = 256" "fl_bufi ?g1 = of_nat n" using assms(1) by (simp_all add: idle_def)
    have "fwrite_loop (cs @ rest) (of_nat r) (of_nat n) ?g1 =
        fwrite_loop (cs @ rest) (of_nat r - (256 - of_nat m)) (of_nat m) ?g"
      by (subst fwrite_loop.simps) (use s nf put g w in \<open>simp add: Let_def\<close>)
    then show ?thesis unfolding e 3 .
  qed
  have nz: "(of_nat n :: u32) \<noteq> 0" using u(1) le by (metis unat_0 not_less_zero)
  have "fwrite (cs @ rest) (of_nat n) 1 f = Some (of_nat m, ?g)"
    using assms(1) nz 1 2 by (simp add: fwrite_def idle_def)
  moreover have "fflush ?g = Some (0, printed [cs @ take r cs] f)"
  proof -
    have l: "length (cs @ take r cs) = m" using le nr(1) by (simp add: n_def [symmetric])
    have nn: "nul \<notin> set (cs @ take r cs)" using assms(4) by (auto dest: in_set_takeD)
    show ?thesis using idle_fflush [of ?g "cs @ take r cs", unfolded l] nn assms(1) le u(3) by (simp add: idle_def printed_def)
  qed
  ultimately show ?thesis unfolding n_def r_def m_def by blast
qed

theorem fwrite_repeats_witness:
  "\<exists>g. fwrite (replicate 130 CHR ''a'' @ [nul]) 130 1 (stdio_stream 1) = Some (134, g) \<and>
    fflush g = Some (0, printed [replicate 130 CHR ''a'' @ ''aaaa''] (stdio_stream 1))"
proof -
  have t: "take 4 (replicate 130 CHR ''a'') = ''aaaa''" by (simp add: take_replicate) (simp add: numeral_eq_Suc)
  show ?thesis using fwrite_repeats [OF stdio_idle, of "replicate 130 CHR ''a''" "[nul]" 1] t by (simp add: nul_def)
qed

end
