(* ===== verification/ProcSvr.thy ===== *)
theory ProcSvr
  imports Links
begin

text \<open>
  The process server, \<^verbatim>\<open>apps/procsvr\<close>: the tree of processes (\<^verbatim>\<open>process_tree.c\<close>) and the two requests
  (\<^verbatim>\<open>process.c\<close>), with \<^verbatim>\<open>strlen\<close> and \<^verbatim>\<open>strcmp\<close> of the C library.
\<close>

text \<open>The loops of \<^verbatim>\<open>lib/libc/string/string.c\<close> on a byte array; reading behind its end is \<open>None\<close>.\<close>

fun c_strlen :: "string \<Rightarrow> nat option" where
  "c_strlen [] = None"
| "c_strlen (c # cs) = (if c = CHR 0x00 then Some 0 else map_option Suc (c_strlen cs))"

text \<open>A \<^verbatim>\<open>char\<close> is signed.\<close>

definition schar :: "char \<Rightarrow> int" where
  "schar c = (if (of_char c :: int) < 128 then of_char c else of_char c - 256)"

fun c_strcmp :: "string \<Rightarrow> string \<Rightarrow> int option" where
  "c_strcmp (c # cs) (d # ds) =
     (if c \<noteq> CHR 0x00 \<and> d \<noteq> CHR 0x00 then
        if c \<noteq> d then Some (schar d - schar c) else c_strcmp cs ds
      else Some (schar d - schar c))"
| "c_strcmp cs ds = None"

subsection \<open>The tree\<close>

record process =
  pr_name :: string
  pr_pid :: u32
  pr_refcount :: u8

text \<open>A node owns its children, so that its address does not matter; the processes are shared.\<close>

datatype ptree = PNode (pn_proc: addr) (pn_children: "ptree list")

record 'h pserver =
  ps_procs :: "process store"
  ps_root :: ptree
  ps_heap :: 'h

text \<open>
  The search common to \<^verbatim>\<open>traverse_by_pid\<close> and \<^verbatim>\<open>traverse_by_name\<close>, for a test \<open>P\<close> on processes: it returns
  the path to the node, \<open>Some None\<close> for a null pointer.
\<close>

fun traverse :: "(addr \<Rightarrow> bool option) \<Rightarrow> ptree \<Rightarrow> nat list option option"
and traverse_list :: "(addr \<Rightarrow> bool option) \<Rightarrow> nat \<Rightarrow> ptree list \<Rightarrow> nat list option option" where
  "traverse P (PNode p ks) = do { b \<leftarrow> P p; if b then Some (Some []) else traverse_list P 0 ks }"
| "traverse_list P i [] = Some None"
| "traverse_list P i (k # ks) = do {
     b \<leftarrow> P (pn_proc k);
     if b then Some (Some [i])
     else do {
       t \<leftarrow> traverse P k;
       (case t of None \<Rightarrow> traverse_list P (Suc i) ks | Some path \<Rightarrow> Some (Some (i # path))) } }"

fun node_at :: "ptree \<Rightarrow> nat list \<Rightarrow> ptree" where
  "node_at t [] = t"
| "node_at (PNode p ks) (i # path) = node_at (ks ! i) path"

definition traverse_by_pid :: "process store \<Rightarrow> ptree \<Rightarrow> u32 \<Rightarrow> nat list option option" where
  "traverse_by_pid st t pid = traverse (\<lambda>p. do { r \<leftarrow> load st p; Some (pr_pid r = pid) }) t"

definition traverse_by_name :: "process store \<Rightarrow> ptree \<Rightarrow> string \<Rightarrow> nat list option option" where
  "traverse_by_name st t name = traverse (\<lambda>p. do { r \<leftarrow> load st p; c \<leftarrow> c_strcmp (pr_name r) name; Some (c = 0) }) t"

definition found_proc :: "ptree \<Rightarrow> nat list option \<Rightarrow> addr" where
  "found_proc t f = (case f of None \<Rightarrow> 0 | Some path \<Rightarrow> pn_proc (node_at t path))"

definition proc_find_by_pid :: "u32 \<Rightarrow> 'h pserver \<Rightarrow> addr option" where
  "proc_find_by_pid pid s = do { f \<leftarrow> traverse_by_pid (ps_procs s) (ps_root s) pid; Some (found_proc (ps_root s) f) }"

definition proc_find_by_name :: "string \<Rightarrow> 'h pserver \<Rightarrow> addr option" where
  "proc_find_by_name name s = do { f \<leftarrow> traverse_by_name (ps_procs s) (ps_root s) name; Some (found_proc (ps_root s) f) }"

text \<open>\<^verbatim>\<open>proc_list_append\<close> to the children of the node at a path.\<close>

fun list_append_at :: "nat list \<Rightarrow> ptree \<Rightarrow> ptree \<Rightarrow> ptree" where
  "list_append_at [] new (PNode p ks) = PNode p (ks @ [new])"
| "list_append_at (i # path) new (PNode p ks) = PNode p (ks[i := list_append_at path new (ks ! i)])"

text \<open>
  \<open>al\<close> is \<^verbatim>\<open>malloc\<close>. A process whose parent is unknown goes to \<^verbatim>\<open>init\<close>, whose number is 0; without it, it is
  dropped. Messages to the console are left out.
\<close>

definition proc_add_at :: "(u32 \<Rightarrow> 'h \<Rightarrow> (addr \<times> 'h) option) \<Rightarrow> addr \<Rightarrow> nat list \<Rightarrow> 'h pserver \<Rightarrow> 'h pserver option" where
  "proc_add_at al pr path s = do {
     (n, h) \<leftarrow> al 16 (ps_heap s);
     (l, h1) \<leftarrow> al 8 h;
     if n = 0 \<or> l = 0 then None
     else Some (s\<lparr>ps_root := list_append_at path (PNode pr []) (ps_root s), ps_heap := h1\<rparr>) }"

definition proc_add :: "(u32 \<Rightarrow> 'h \<Rightarrow> (addr \<times> 'h) option) \<Rightarrow> addr \<Rightarrow> u32 \<Rightarrow> 'h pserver \<Rightarrow> 'h pserver option" where
  "proc_add al pr parent s = do {
     found \<leftarrow> traverse_by_pid (ps_procs s) (ps_root s) parent;
     (case found of
        Some path \<Rightarrow> proc_add_at al pr path s
      | None \<Rightarrow>
          if parent = 0 then Some s
          else do {
            init \<leftarrow> traverse_by_pid (ps_procs s) (ps_root s) 0;
            (case init of Some path \<Rightarrow> proc_add_at al pr path s | None \<Rightarrow> Some s) }) }"

text \<open>\<open>junk\<close> is what the new block holds where the source does not set it.\<close>

definition proc_init :: "(u32 \<Rightarrow> 'h \<Rightarrow> (addr \<times> 'h) option) \<Rightarrow> process \<Rightarrow> 'h \<Rightarrow> 'h pserver option" where
  "proc_init al junk h = do {
     (t, h1) \<leftarrow> al 8 h;
     (n, h2) \<leftarrow> al 16 h1;
     (p, h3) \<leftarrow> al 136 h2;
     if t = 0 \<or> n = 0 \<or> p = 0 then None
     else Some \<lparr>ps_procs = [p \<mapsto> junk\<lparr>pr_pid := 0, pr_name := ''init'' @ [CHR 0x00] @ drop 5 (pr_name junk)\<rparr>],
       ps_root = PNode p [], ps_heap = h3\<rparr> }"

subsection \<open>Requests\<close>

text \<open>\<open>name\<close> is the array of 128 bytes of the message.\<close>

definition parse_procreg :: "(u32 \<Rightarrow> 'h \<Rightarrow> (addr \<times> 'h) option) \<Rightarrow> process \<Rightarrow> u32 \<Rightarrow> string \<Rightarrow> u32 \<Rightarrow> 'h pserver \<Rightarrow>
    'h pserver option" where
  "parse_procreg al junk parent name target s = do {
     (p, h) \<leftarrow> al 136 (ps_heap s);
     if p = 0 then None
     else do {
       let s1 = s\<lparr>ps_procs := (ps_procs s)(p \<mapsto> junk\<lparr>pr_pid := target, pr_name := name\<rparr>), ps_heap := h\<rparr>;
       found \<leftarrow> proc_find_by_name name s1;
       s2 \<leftarrow> (if found \<noteq> 0 then do {
           r \<leftarrow> load (ps_procs s1) found;
           n \<leftarrow> c_strlen (pr_name r);
           let i = (if n \<ge> 128 then 127 else n);
           if length name \<le> i then None
           else do {
             m \<leftarrow> modify (ps_procs s1) p (\<lambda>q. q\<lparr>pr_name := (pr_name q)[i := char_of (unat (pr_refcount r) + 48)]\<rparr>);
             m1 \<leftarrow> modify m found (\<lambda>q. q\<lparr>pr_refcount := pr_refcount q + 1\<rparr>);
             Some (s1\<lparr>ps_procs := m1\<rparr>) } }
         else Some s1);
       proc_add al p parent s2 } }"

text \<open>The number sent back; -1 for an unknown name.\<close>

definition parse_procreq :: "string \<Rightarrow> 'h pserver \<Rightarrow> u32 option" where
  "parse_procreq name s = do {
     found \<leftarrow> proc_find_by_name name s;
     if found = 0 then Some (-1) else do { r \<leftarrow> load (ps_procs s) found; Some (pr_pid r) } }"

subsection \<open>Searching is finding in preorder\<close>

fun preorder :: "ptree \<Rightarrow> addr list" where
  "preorder (PNode p ks) = p # concat (map preorder ks)"

fun path_ok :: "ptree \<Rightarrow> nat list \<Rightarrow> bool" where
  "path_ok t [] \<longleftrightarrow> True"
| "path_ok (PNode p ks) (i # path) \<longleftrightarrow> i < length ks \<and> path_ok (ks ! i) path"

lemma node_at_nil [simp]: "node_at t [] = t"
  by (cases t) simp

lemma path_ok_nil [simp]: "path_ok t []"
  by (cases t) simp

lemma preorder_root: "\<exists>ps. preorder t = pn_proc t # ps"
  by (cases t) simp

text \<open>What a search of a tree, or of the trees of a list from the \<open>i\<close>-th child on, returns.\<close>

definition found_in :: "(addr \<Rightarrow> bool option) \<Rightarrow> ptree \<Rightarrow> nat list option \<Rightarrow> bool" where
  "found_in P t f \<longleftrightarrow> (case f of None \<Rightarrow> find (\<lambda>p. P p = Some True) (preorder t) = None
     | Some path \<Rightarrow> path_ok t path \<and> find (\<lambda>p. P p = Some True) (preorder t) = Some (pn_proc (node_at t path)))"

definition found_in_list :: "(addr \<Rightarrow> bool option) \<Rightarrow> nat \<Rightarrow> ptree list \<Rightarrow> nat list option \<Rightarrow> bool" where
  "found_in_list P i ks f \<longleftrightarrow> (case f of None \<Rightarrow> find (\<lambda>p. P p = Some True) (concat (map preorder ks)) = None
     | Some path \<Rightarrow> \<exists>j rest. path = (i + j) # rest \<and> j < length ks \<and> path_ok (ks ! j) rest \<and>
         find (\<lambda>p. P p = Some True) (concat (map preorder ks)) = Some (pn_proc (node_at (ks ! j) rest)))"

lemma find_append: "find Q (xs @ ys) = (case find Q xs of None \<Rightarrow> find Q ys | Some x \<Rightarrow> Some x)"
  by (induction xs) auto

lemma traverse_found:
  "(\<forall>p \<in> set (preorder t). P p \<noteq> None) \<Longrightarrow> \<exists>f. traverse P t = Some f \<and> found_in P t f"
  "(\<forall>p \<in> set (concat (map preorder ks)). P p \<noteq> None) \<Longrightarrow> \<exists>f. traverse_list P i ks = Some f \<and> found_in_list P i ks f"
proof (induction P t and P i ks rule: traverse_traverse_list.induct)
  case (1 P p ks)
  obtain b where b: "P p = Some b" using 1(2) by auto
  show ?case
  proof (cases b)
    case True
    then show ?thesis using b by (auto simp: found_in_def)
  next
    case False
    have "\<forall>p \<in> set (concat (map preorder ks)). P p \<noteq> None" using 1(2) by simp
    then obtain f where f: "traverse_list P 0 ks = Some f" "found_in_list P 0 ks f" using 1(1) [OF b False] by blast
    then have "found_in P (PNode p ks) f"
      using b False by (auto simp: found_in_def found_in_list_def split: option.splits)
    then show ?thesis using b False f(1) by simp
  qed
next
  case (2 P i)
  then show ?case by (simp add: found_in_list_def)
next
  case (3 P i k ks)
  obtain b where b: "P (pn_proc k) = Some b" using 3(3) preorder_root [of k] by auto
  show ?case
  proof (cases b)
    case True
    obtain ps where "preorder k = pn_proc k # ps" using preorder_root by blast
    then have "found_in_list P i (k # ks) (Some [i])" using b True by (auto simp: found_in_list_def)
    then show ?thesis using b True by simp
  next
    case False
    have k: "\<forall>p \<in> set (preorder k). P p \<noteq> None" "\<forall>p \<in> set (concat (map preorder ks)). P p \<noteq> None" using 3(3) by simp_all
    then obtain f where f: "traverse P k = Some f" "found_in P k f" using 3(1) [OF b False] by blast
    show ?thesis
    proof (cases f)
      case None
      obtain g where g: "traverse_list P (Suc i) ks = Some g" "found_in_list P (Suc i) ks g"
        using 3(2) [OF b False f(1) None k(2)] by blast
      have "found_in_list P i (k # ks) g"
      proof (cases g)
        case None
        then show ?thesis using g(2) f(2) \<open>f = None\<close> by (simp add: found_in_list_def found_in_def find_append)
      next
        case (Some path)
        then obtain j rest where j: "path = (Suc i + j) # rest" "j < length ks" "path_ok (ks ! j) rest"
          "find (\<lambda>p. P p = Some True) (concat (map preorder ks)) = Some (pn_proc (node_at (ks ! j) rest))"
          using g(2) by (auto simp: found_in_list_def)
        then have "path = (i + Suc j) # rest \<and> Suc j < length (k # ks) \<and> path_ok ((k # ks) ! Suc j) rest \<and>
            find (\<lambda>p. P p = Some True) (concat (map preorder (k # ks))) = Some (pn_proc (node_at ((k # ks) ! Suc j) rest))"
          using f(2) \<open>f = None\<close> by (simp add: found_in_def find_append)
        then show ?thesis unfolding found_in_list_def Some by auto
      qed
      then show ?thesis using b False f(1) None g(1) by simp
    next
      case (Some path)
      then have "i # path = (i + 0) # path \<and> 0 < length (k # ks) \<and> path_ok ((k # ks) ! 0) path \<and>
          find (\<lambda>p. P p = Some True) (concat (map preorder (k # ks))) = Some (pn_proc (node_at ((k # ks) ! 0) path))"
        using f(2) by (simp add: found_in_def find_append)
      then have "found_in_list P i (k # ks) (Some (i # path))" unfolding found_in_list_def by auto
      then show ?thesis using b False f(1) Some by simp
    qed
  qed
qed

text \<open>Appending to the children of a node adds one process.\<close>

lemma set_concat_update: "i < length xs \<Longrightarrow> set (f y) = insert a (set (f (xs ! i))) \<Longrightarrow>
    set (concat (map f (xs[i := y]))) = insert a (set (concat (map f xs)))"
proof (induction xs arbitrary: i)
  case (Cons x xs)
  then show ?case by (cases i) auto
qed simp

lemma append_at_preorder: "path_ok t path \<Longrightarrow> set (preorder (list_append_at path (PNode q []) t)) = insert q (set (preorder t))"
proof (induction path arbitrary: t)
  case Nil
  then show ?case by (cases t) auto
next
  case (Cons i path)
  obtain p ks where t: "t = PNode p ks" by (cases t)
  then have i: "i < length ks" "path_ok (ks ! i) path" using Cons.prems by simp_all
  have "set (concat (map preorder (ks[i := list_append_at path (PNode q []) (ks ! i)]))) = insert q (set (concat (map preorder ks)))"
    by (rule set_concat_update [OF i(1) Cons.IH [OF i(2)]])
  then show ?case using t by auto
qed

subsection \<open>Registering and asking\<close>

definition cstr :: "string \<Rightarrow> string" where
  "cstr xs = takeWhile (\<lambda>c. c \<noteq> CHR 0x00) xs"

lemma c_strcmp_eq: "CHR 0x00 \<in> set xs \<Longrightarrow> CHR 0x00 \<in> set ys \<Longrightarrow> \<exists>c. c_strcmp xs ys = Some c \<and> (c = 0 \<longleftrightarrow> cstr xs = cstr ys)"
proof (induction xs ys rule: c_strcmp.induct)
  case (1 c cs d ds)
  have r: "0 \<le> (of_char x :: int)" "(of_char x :: int) < 256" for x
    using of_char_of [of "of_char x :: int"] pos_mod_bound [of 256 "of_char x"] pos_mod_sign [of 256 "of_char x"] by simp_all
  have i: "schar d - schar c = 0 \<longleftrightarrow> d = c" using r [of c] r [of d] by (auto simp: schar_def split: if_splits)
  show ?case
  proof (cases "c \<noteq> CHR 0x00 \<and> d \<noteq> CHR 0x00")
    case True
    then show ?thesis using 1 i by (cases "c = d") (auto simp: cstr_def)
  next
    case False
    then show ?thesis using i by (auto simp: cstr_def)
  qed
qed auto

text \<open>Every process of the tree is there, with a terminated name.\<close>

definition server_ok :: "'h pserver \<Rightarrow> bool" where
  "server_ok s \<longleftrightarrow> (\<forall>p \<in> set (preorder (ps_root s)). \<exists>r. load (ps_procs s) p = Some r \<and> CHR 0x00 \<in> set (pr_name r))"

definition proc_pid :: "'h pserver \<Rightarrow> addr \<Rightarrow> u32" where
  "proc_pid s p = (case ps_procs s p of Some r \<Rightarrow> pr_pid r | None \<Rightarrow> 0)"

definition proc_name :: "'h pserver \<Rightarrow> addr \<Rightarrow> string" where
  "proc_name s p = (case ps_procs s p of Some r \<Rightarrow> cstr (pr_name r) | None \<Rightarrow> [])"

lemma found_in_proc: "found_in P t f \<Longrightarrow> found_proc t f = (case find (\<lambda>p. P p = Some True) (preorder t) of None \<Rightarrow> 0 | Some p \<Rightarrow> p)"
  by (auto simp: found_in_def found_proc_def split: option.splits)

text \<open>
  The two recursive searches find the first process of the tree in preorder with the number or the name, and 0 if
  there is none.
\<close>

lemma proc_find_ok:
  assumes "server_ok s" and "CHR 0x00 \<in> set name"
  shows "proc_find_by_pid pid s = Some (case find (\<lambda>p. proc_pid s p = pid) (preorder (ps_root s)) of None \<Rightarrow> 0 | Some p \<Rightarrow> p) \<and>
    proc_find_by_name name s = Some (case find (\<lambda>p. proc_name s p = cstr name) (preorder (ps_root s)) of None \<Rightarrow> 0 | Some p \<Rightarrow> p)"
proof
  let ?P = "\<lambda>p. do { r \<leftarrow> load (ps_procs s) p; Some (pr_pid r = pid) }"
  let ?Q = "\<lambda>p. do { r \<leftarrow> load (ps_procs s) p; c \<leftarrow> c_strcmp (pr_name r) name; Some (c = 0) }"
  let ?t = "ps_root s"
  have P: "?P p = Some (proc_pid s p = pid)" if "p \<in> set (preorder ?t)" for p
    using assms(1) that by (auto simp: server_ok_def proc_pid_def opt_simps split: option.splits)
  have Q: "?Q p = Some (proc_name s p = cstr name)" if p: "p \<in> set (preorder ?t)" for p
  proof -
    obtain r where r: "load (ps_procs s) p = Some r" "CHR 0x00 \<in> set (pr_name r)" using assms(1) p by (auto simp: server_ok_def)
    then obtain c where "c_strcmp (pr_name r) name = Some c" "c = 0 \<longleftrightarrow> cstr (pr_name r) = cstr name"
      using c_strcmp_eq [OF r(2) assms(2)] by blast
    then show ?thesis using r by (auto simp: proc_name_def opt_simps)
  qed
  have cong: "find (\<lambda>p. R p = Some True) (preorder ?t) = find S (preorder ?t)"
    if "\<And>p. p \<in> set (preorder ?t) \<Longrightarrow> R p = Some (S p)" for R and S :: "addr \<Rightarrow> bool"
    using that by (intro find_cong) auto
  obtain f where f: "traverse ?P ?t = Some f" "found_in ?P ?t f" using traverse_found(1) [of ?t ?P] P by auto
  then show "proc_find_by_pid pid s = Some (case find (\<lambda>p. proc_pid s p = pid) (preorder ?t) of None \<Rightarrow> 0 | Some p \<Rightarrow> p)"
    using found_in_proc [OF f(2)] cong [OF P] by (simp add: proc_find_by_pid_def traverse_by_pid_def)
  obtain g where g: "traverse ?Q ?t = Some g" "found_in ?Q ?t g" using traverse_found(1) [of ?t ?Q] Q by auto
  then show "proc_find_by_name name s = Some (case find (\<lambda>p. proc_name s p = cstr name) (preorder ?t) of None \<Rightarrow> 0 | Some p \<Rightarrow> p)"
    using found_in_proc [OF g(2)] cong [OF Q] by (simp add: proc_find_by_name_def traverse_by_name_def)
qed

definition demo_server :: "addr pserver" where
  "demo_server = \<lparr>ps_procs = [16 \<mapsto> \<lparr>pr_name = ''init'' @ [CHR 0x00], pr_pid = 0, pr_refcount = 0\<rparr>,
      32 \<mapsto> \<lparr>pr_name = ''sh'' @ [CHR 0x00], pr_pid = 7, pr_refcount = 0\<rparr>],
    ps_root = PNode 16 [PNode 32 []], ps_heap = 64\<rparr>"

lemma demo_server_ok: "server_ok demo_server"
  by (simp add: server_ok_def demo_server_def load_def)

lemma find_only: "(\<And>x. x \<in> set xs \<Longrightarrow> Q x \<longleftrightarrow> x = p) \<Longrightarrow> p \<in> set xs \<Longrightarrow> find Q xs = Some p"
  by (induction xs) auto

lemma server_path:
  assumes "server_ok s" and "q \<in> set (preorder (ps_root s))" and "proc_pid s q = pid"
  shows "\<exists>path. traverse_by_pid (ps_procs s) (ps_root s) pid = Some (Some path) \<and> path_ok (ps_root s) path \<and>
    find (\<lambda>p. proc_pid s p = pid) (preorder (ps_root s)) = Some (pn_proc (node_at (ps_root s) path))"
proof -
  let ?P = "\<lambda>p. do { r \<leftarrow> load (ps_procs s) p; Some (pr_pid r = pid) }"
  let ?t = "ps_root s"
  have P: "?P p = Some (proc_pid s p = pid)" if "p \<in> set (preorder ?t)" for p
    using assms(1) that by (auto simp: server_ok_def proc_pid_def opt_simps split: option.splits)
  obtain f where f: "traverse ?P ?t = Some f" "found_in ?P ?t f" using traverse_found(1) [of ?t ?P] P by auto
  have "find (\<lambda>p. ?P p = Some True) (preorder ?t) \<noteq> None" unfolding find_None_iff using assms(2,3) P [OF assms(2)] by auto
  then obtain path where p: "f = Some path" "path_ok ?t path" "find (\<lambda>p. ?P p = Some True) (preorder ?t) = Some (pn_proc (node_at ?t path))"
    using f(2) by (auto simp: found_in_def split: option.splits)
  have "find (\<lambda>p. ?P p = Some True) (preorder ?t) = find (\<lambda>p. proc_pid s p = pid) (preorder ?t)" by (rule find_cong) (use P in auto)
  then show ?thesis using f(1) p by (simp add: traverse_by_pid_def)
qed

text \<open>
  The process below which one with the parent's number is put: the first in preorder with this number, or, where none has it, with
  the number 0. It becomes the last child there, and the rest of the tree stays.
\<close>

definition host_of :: "'h pserver \<Rightarrow> u32 \<Rightarrow> addr option" where
  "host_of s parent = find (\<lambda>r. proc_pid s r = (if \<exists>r \<in> set (preorder (ps_root s)). proc_pid s r = parent then parent else 0)) (preorder (ps_root s))"

definition put_below :: "ptree \<Rightarrow> ptree \<Rightarrow> addr option \<Rightarrow> addr \<Rightarrow> bool" where
  "put_below t t' host p \<longleftrightarrow> (\<exists>path. path_ok t path \<and> host = Some (pn_proc (node_at t path)) \<and>
     node_at t' path = PNode (pn_proc (node_at t path)) (pn_children (node_at t path) @ [PNode p []]) \<and> t' = list_append_at path (PNode p []) t)"

lemma node_at_append: "path_ok t path \<Longrightarrow>
    node_at (list_append_at path new t) path = PNode (pn_proc (node_at t path)) (pn_children (node_at t path) @ [new])"
proof (induction path arbitrary: t)
  case Nil
  then show ?case by (cases t) simp
next
  case (Cons i path)
  then show ?case by (cases t) simp
qed

text \<open>Adding a process to a tree with \<^verbatim>\<open>init\<close> succeeds and adds it to the tree.\<close>

lemma proc_add_ok:
  assumes "server_ok s" and "q \<in> set (preorder (ps_root s))" and "proc_pid s q = 0"
    and "al 16 (ps_heap s) = Some (n, h)" and "al 8 h = Some (l, h1)" and "n \<noteq> 0" and "l \<noteq> 0"
  shows "\<exists>s'. proc_add al p parent s = Some s' \<and> ps_procs s' = ps_procs s \<and>
    set (preorder (ps_root s')) = insert p (set (preorder (ps_root s))) \<and> put_below (ps_root s) (ps_root s') (host_of s parent) p"
proof -
  have at: "\<exists>s'. proc_add_at al p path s = Some s' \<and> ps_procs s' = ps_procs s \<and>
      set (preorder (ps_root s')) = insert p (set (preorder (ps_root s))) \<and> put_below (ps_root s) (ps_root s') (host_of s parent) p"
    if "path_ok (ps_root s) path" "host_of s parent = Some (pn_proc (node_at (ps_root s) path))" for path
    using assms(4-7) append_at_preorder [OF that(1), of p] node_at_append [OF that(1), of "PNode p []"] that
    by (auto simp: proc_add_at_def put_below_def)
  obtain path0 where p0: "traverse_by_pid (ps_procs s) (ps_root s) 0 = Some (Some path0)" "path_ok (ps_root s) path0"
    "find (\<lambda>r. proc_pid s r = 0) (preorder (ps_root s)) = Some (pn_proc (node_at (ps_root s) path0))"
    using server_path [OF assms(1-3)] by blast
  show ?thesis
  proof (cases "\<exists>r \<in> set (preorder (ps_root s)). proc_pid s r = parent")
    case True
    then obtain r where "r \<in> set (preorder (ps_root s))" "proc_pid s r = parent" by blast
    from server_path [OF assms(1) this] obtain path where p: "traverse_by_pid (ps_procs s) (ps_root s) parent = Some (Some path)" "path_ok (ps_root s) path"
      "find (\<lambda>p. proc_pid s p = parent) (preorder (ps_root s)) = Some (pn_proc (node_at (ps_root s) path))" by blast
    then have "host_of s parent = Some (pn_proc (node_at (ps_root s) path))" using True by (simp add: host_of_def)
    then show ?thesis using at [OF p(2)] p(1) by (simp add: proc_add_def)
  next
    case False
    let ?P = "\<lambda>p. do { r \<leftarrow> load (ps_procs s) p; Some (pr_pid r = parent) }"
    have P: "?P p = Some (proc_pid s p = parent)" if "p \<in> set (preorder (ps_root s))" for p
      using assms(1) that by (auto simp: server_ok_def proc_pid_def opt_simps split: option.splits)
    obtain f where f: "traverse ?P (ps_root s) = Some f" "found_in ?P (ps_root s) f" using traverse_found(1) [of "ps_root s" ?P] P by auto
    have "find (\<lambda>p. ?P p = Some True) (preorder (ps_root s)) = None" unfolding find_None_iff using False P by auto
    then have "f = None" using f(2) by (auto simp: found_in_def split: option.splits)
    moreover have "parent \<noteq> 0" using False assms(2,3) by auto
    moreover have "host_of s parent = Some (pn_proc (node_at (ps_root s) path0))" using p0(3) False by (simp add: host_of_def)
    ultimately show ?thesis using f(1) p0 at by (simp add: proc_add_def traverse_by_pid_def)
  qed
qed

text \<open>
  C24 (roundtrip): a process that registers with a name and a number that no other process of the server has
  becomes the last child of its parent (of the first in preorder with the parent's number; of \<^verbatim>\<open>init\<close>, whose number is 0, if the server does not know the
  parent), the rest of the tree and the processes in it stay as they are. Afterwards it is found by its number, and a request for its name is answered with its number.
\<close>

theorem registered_process_found:
  assumes "server_ok s" and "q \<in> set (preorder (ps_root s))" and "proc_pid s q = 0" and "CHR 0x00 \<in> set name"
    and "\<forall>r \<in> set (preorder (ps_root s)). proc_pid s r \<noteq> target \<and> proc_name s r \<noteq> cstr name \<and> r \<noteq> p"
    and "al 136 (ps_heap s) = Some (p, h)" and "al 16 h = Some (n, h1)" and "al 8 h1 = Some (l, h2)" and "p \<noteq> 0" and "n \<noteq> 0" and "l \<noteq> 0"
  shows "\<exists>s'. parse_procreg al junk parent name target s = Some s' \<and> server_ok s' \<and>
    put_below (ps_root s) (ps_root s') (host_of s parent) p \<and> ps_procs s' = (ps_procs s)(p \<mapsto> junk\<lparr>pr_pid := target, pr_name := name\<rparr>) \<and>
    proc_find_by_pid target s' = Some p \<and> parse_procreq name s' = Some target"
proof -
  let ?s1 = "s\<lparr>ps_procs := (ps_procs s)(p \<mapsto> junk\<lparr>pr_pid := target, pr_name := name\<rparr>), ps_heap := h\<rparr>"
  have same: "proc_pid ?s1 r = proc_pid s r" "proc_name ?s1 r = proc_name s r" if "r \<noteq> p" for r
    using that by (simp_all add: proc_pid_def proc_name_def)
  have new: "proc_pid ?s1 p = target" "proc_name ?s1 p = cstr name" by (simp_all add: proc_pid_def proc_name_def)
  have ok1: "server_ok ?s1" using assms(1,4,9) by (auto simp: server_ok_def load_def)
  have "find (\<lambda>r. proc_name ?s1 r = cstr name) (preorder (ps_root ?s1)) = None"
    unfolding find_None_iff using assms(5) same(2) by auto
  then have f: "proc_find_by_name name ?s1 = Some 0" using proc_find_ok [OF ok1 assms(4), of target] by simp
  have q: "q \<in> set (preorder (ps_root ?s1))" "proc_pid ?s1 q = 0" using assms(2,3,5) same(1) [of q] by auto
  have al: "al 16 (ps_heap ?s1) = Some (n, h1)" using assms(7) by simp
  obtain s' where s': "proc_add al p parent ?s1 = Some s'" "ps_procs s' = ps_procs ?s1"
    "set (preorder (ps_root s')) = insert p (set (preorder (ps_root ?s1)))" "put_below (ps_root ?s1) (ps_root s') (host_of ?s1 parent) p"
    using proc_add_ok [where al = al, OF ok1 q al assms(8,10,11)] by blast
  have run: "parse_procreg al junk parent name target s = Some s'"
    using assms(6,9) f s'(1) by (simp add: parse_procreg_def Let_def)
  have ok: "server_ok s'" using ok1 assms(4,9) s'(2,3) by (auto simp: server_ok_def load_def)
  have pid: "proc_pid s' r = proc_pid ?s1 r" and nm: "proc_name s' r = proc_name ?s1 r" for r
    using s'(2) by (simp_all add: proc_pid_def proc_name_def)
  have "find (\<lambda>r. proc_pid s' r = target) (preorder (ps_root s')) = Some p"
    by (rule find_only) (use s'(3) new(1) same(1) assms(5) in \<open>auto simp: pid\<close>)
  moreover have "find (\<lambda>r. proc_name s' r = cstr name) (preorder (ps_root s')) = Some p"
    by (rule find_only) (use s'(3) new(2) same(2) assms(5) in \<open>auto simp: nm\<close>)
  ultimately have found: "proc_find_by_pid target s' = Some p" "proc_find_by_name name s' = Some p"
    using proc_find_ok [OF ok assms(4), of target] by simp_all
  have "load (ps_procs s') p = Some (junk\<lparr>pr_pid := target, pr_name := name\<rparr>)" using s'(2) assms(9) by simp
  then have "parse_procreq name s' = Some target" using found(2) assms(9) by (simp add: parse_procreq_def)
  moreover have "host_of ?s1 parent = host_of s parent"
    unfolding host_of_def using same(1) assms(5) by (auto intro!: find_cong)
  ultimately show ?thesis using run ok s'(2,4) found(1) by simp
qed

definition demo_bump :: "u32 \<Rightarrow> addr \<Rightarrow> (addr \<times> addr) option" where
  "demo_bump n h = Some (h, h + 256)"

theorem registered_process_found_witness:
  "\<exists>s'. parse_procreg demo_bump \<lparr>pr_name = [], pr_pid = 0, pr_refcount = 0\<rparr> 99 (''vfs'' @ [CHR 0x00]) 9 demo_server = Some s' \<and>
    put_below (ps_root demo_server) (ps_root s') (Some 16) 64 \<and> parse_procreq (''vfs'' @ [CHR 0x00]) s' = Some 9"
proof -
  have t: "(16 :: addr) \<in> set (preorder (ps_root demo_server))" "proc_pid demo_server 16 = 0" "CHR 0x00 \<in> set (''vfs'' @ [CHR 0x00])"
    by (simp_all add: demo_server_def proc_pid_def)
  have n: "\<forall>r \<in> set (preorder (ps_root demo_server)). proc_pid demo_server r \<noteq> 9 \<and> proc_name demo_server r \<noteq> cstr (''vfs'' @ [CHR 0x00]) \<and> r \<noteq> 64"
    by (simp add: demo_server_def proc_pid_def proc_name_def cstr_def)
  have a: "demo_bump 136 (ps_heap demo_server) = Some (64, 320)" "demo_bump 16 320 = Some (320, 576)" "demo_bump 8 576 = Some (576, 832)"
    by (simp_all add: demo_bump_def demo_server_def)
  have "host_of demo_server 99 = Some 16" by (simp add: host_of_def demo_server_def proc_pid_def)
  with registered_process_found [where al = demo_bump, OF demo_server_ok t n a, of "\<lparr>pr_name = [], pr_pid = 0, pr_refcount = 0\<rparr>" 99]
  show ?thesis by (simp; blast)
qed

end
