(* ===== verification/Args.thy ===== *)
theory Args
  imports Prelude
begin

text \<open>
  The initial stack of a new process, \<^verbatim>\<open>__construct_ustk\<close> of \<^verbatim>\<open>lib/libc/sys/argconst.c\<close>.
\<close>

text \<open>What is written to the new stack, at an offset from its start.\<close>

datatype stk_write = WStr string | WPtrs "u32 list" | WInt u32

fun w_length :: "stk_write \<Rightarrow> nat" where
  "w_length (WStr t) = length t + 1"
| "w_length (WPtrs ps) = 4 * length ps"
| "w_length (WInt n) = 4"

text \<open>The first loop and the 8 bytes added after it.\<close>

fun stack_size :: "string list \<Rightarrow> u32 \<Rightarrow> u32" where
  "stack_size [] sz = sz + 8"
| "stack_size (a # as) sz = stack_size as (sz + 4 + of_nat (length a))"

text \<open>The second loop: the strings with their nulls, and the pointers that the new process will see.\<close>

fun place_args :: "string list \<Rightarrow> int \<Rightarrow> u32 \<Rightarrow> (int \<times> stk_write) list \<times> u32 list \<times> int" where
  "place_args [] off ptr = ([], [], off)"
| "place_args (a # as) off ptr =
     (let off1 = off - int (length a + 1);
          ptr1 = ptr - of_nat (length a + 1);
          (ws, ps, off2) = place_args as off1 ptr1
      in ((off1, WStr a) # ws, ptr1 # ps, off2))"

definition construct_ustk :: "string list \<Rightarrow> u32 \<Rightarrow> u32 \<times> (int \<times> stk_write) list" where
  "construct_ustk argv stksz =
     (let sz = stack_size argv stksz;
          (ws, ps, off) = place_args argv (uint sz) 0xD0000000;
          off1 = off - 4 * int (length argv + 1);
          off2 = off1 - 4
      in (sz, ws @ [(off1, WPtrs (ps @ [0])), (off2, WInt (of_nat (length argv)))]))"

lemma stack_size_nat:
  "unat sz + sum_list (map (\<lambda>a. length a + 4) argv) + 8 < 2 ^ 32 \<Longrightarrow>
    unat (stack_size argv sz) = unat sz + sum_list (map (\<lambda>a. length a + 4) argv) + 8"
proof (induction argv arbitrary: sz)
  case Nil
  then show ?case by (simp add: unat_word_ariths)
next
  case (Cons a argv)
  have l: "unat (of_nat (length a) :: u32) = length a" using Cons.prems by (intro u32_of_nat) simp
  have "unat (sz + 4 + of_nat (length a)) = unat sz + 4 + length a" using Cons.prems l by (simp add: unat_word_ariths)
  then show ?case using Cons.IH [of "sz + 4 + of_nat (length a)"] Cons.prems by simp
qed

lemma place_args_off: "place_args argv off ptr = (ws, ps, off') \<Longrightarrow>
    off' = off - int (sum_list (map (\<lambda>a. length a + 1) argv)) \<and> length ps = length argv \<and> (\<forall>(o1, w) \<in> set ws. off' \<le> o1)"
proof (induction argv arbitrary: off ptr ws ps off')
  case (Cons a argv)
  obtain vs qs o2 where r: "place_args argv (off - int (length a + 1)) (ptr - of_nat (length a + 1)) = (vs, qs, o2)"
    by (metis prod_cases3)
  show ?case using Cons.IH [OF r] Cons.prems r by (fastforce simp: Let_def)
qed auto

lemma sum_parts: "sum_list (map (\<lambda>a. length a + 4) argv) = sum_list (map length argv) + 4 * length argv"
  "sum_list (map (\<lambda>a. length a + 1) argv) = sum_list (map length argv) + length argv"
  by (induction argv) simp_all

text \<open>
  C40 (bounds): \<open>construct_ustk\<close> reserves no byte for the nulls of the arguments: with \<open>n\<close> arguments, the lowest
  thing it writes, the number of arguments, lies \<open>n\<close> bytes before the block it has allocated.
\<close>

theorem construct_ustk_underflows:
  assumes "sum_list (map (\<lambda>a. length a + 4) argv) + 8 < 2 ^ 32"
  shows "\<exists>sz ws. construct_ustk argv 0 = (sz, ws) \<and>
    last ws = (- int (length argv), WInt (of_nat (length argv))) \<and> (\<forall>(off, w) \<in> set ws. - int (length argv) \<le> off)"
proof -
  let ?sz = "stack_size argv 0"
  obtain ws ps off where p: "place_args argv (uint ?sz) 0xD0000000 = (ws, ps, off)" by (metis prod_cases3)
  have "unat ?sz = sum_list (map (\<lambda>a. length a + 4) argv) + 8" using stack_size_nat [of 0 argv] assms by simp
  then have "uint ?sz = int (sum_list (map (\<lambda>a. length a + 4) argv)) + 8" by (metis of_nat_add of_nat_numeral of_nat_unat ucast_id)
  then have "off = 3 * int (length argv) + 8" using place_args_off [OF p] unfolding sum_parts by simp
  moreover from this have "\<forall>(o1, w) \<in> set ws. 3 * int (length argv) + 8 \<le> o1" using place_args_off [OF p] by auto
  ultimately show ?thesis using p by (fastforce simp: construct_ustk_def Let_def)
qed

theorem construct_ustk_underflows_witness:
  "\<exists>sz ws. construct_ustk [''ls'', ''-l''] 0 = (sz, ws) \<and> last ws = (- 2, WInt 2)"
  using construct_ustk_underflows [of "[''ls'', ''-l'']"] by auto

end
