(* ===== verification/Micro.thy ===== *)
theory Micro
  imports Syscall LibcHeap Print
begin

text \<open>
  The wrappers of \<^verbatim>\<open>lib/libmicro\<close> around the system calls, seen from a user program. A program is an
  \<open>uproc\<close>: the heap of its C library, the static variables of \<^verbatim>\<open>lib/libmicro/io/file.c\<close>, the registers that a
  call leaves alone, and the kernel, whose \<open>k_vm\<close> is the memory of the program while it runs and whose \<open>k_msgs\<close>
  and \<open>k_files\<close> hold the \<^verbatim>\<open>message_t\<close> and \<^verbatim>\<open>initrd_file_t\<close> objects in that memory too. The gate of interrupt
  0x4D is an argument; \<open>kernel_gate\<close> is the one of the kernel. \<^verbatim>\<open>inb\<close> and \<^verbatim>\<open>outb\<close> are single instructions.
\<close>

subsection \<open>A user program\<close>

record ('h, 'v) uproc =
  up_heap :: lheap
  up_nextfd :: u32
  up_filebuf :: ustream
  up_regs :: syscall_state
  up_slot :: addr
  up_k :: "('h, 'v) kern"

type_synonym ('h, 'v) gate = "syscall_state \<Rightarrow> ('h, 'v) kern \<Rightarrow> (syscall_state \<times> ('h, 'v) kern) option"

definition kernel_gate :: "('h, 'v) services \<Rightarrow> code_addrs \<Rightarrow> regs \<Rightarrow> ('h, 'v) env \<Rightarrow> ('h, 'v) gate" where
  "kernel_gate sv ca rg env = syscall_handler sv ca rg env"

text \<open>The interrupt: \<open>eax\<close> is the number of the call and then its result, the other registers come back.\<close>

definition int_4D :: "('h, 'v) gate \<Rightarrow> syscall_state \<Rightarrow> ('h, 'v) uproc \<Rightarrow> (u32 \<times> ('h, 'v) uproc) option" where
  "int_4D g r u = do { (r1, k) \<leftarrow> g r (up_k u); Some (r_num r1, u\<lparr>up_k := k\<rparr>) }"

definition syscall0 :: "('h, 'v) gate \<Rightarrow> u32 \<Rightarrow> ('h, 'v) uproc \<Rightarrow> (u32 \<times> ('h, 'v) uproc) option" where
  "syscall0 g num u = int_4D g ((up_regs u)\<lparr>r_num := num\<rparr>) u"

definition syscall1 :: "('h, 'v) gate \<Rightarrow> u32 \<Rightarrow> u32 \<Rightarrow> ('h, 'v) uproc \<Rightarrow> (u32 \<times> ('h, 'v) uproc) option" where
  "syscall1 g num p1 u = int_4D g ((up_regs u)\<lparr>r_num := num, r_arg1 := p1\<rparr>) u"

definition syscall2 :: "('h, 'v) gate \<Rightarrow> u32 \<Rightarrow> u32 \<Rightarrow> u32 \<Rightarrow> ('h, 'v) uproc \<Rightarrow> (u32 \<times> ('h, 'v) uproc) option" where
  "syscall2 g num p1 p2 u = int_4D g ((up_regs u)\<lparr>r_num := num, r_arg1 := p1, r_arg2 := p2\<rparr>) u"

definition syscall3 :: "('h, 'v) gate \<Rightarrow> u32 \<Rightarrow> u32 \<Rightarrow> u32 \<Rightarrow> u32 \<Rightarrow> ('h, 'v) uproc \<Rightarrow>
    (u32 \<times> ('h, 'v) uproc) option" where
  "syscall3 g num p1 p2 p3 u = int_4D g ((up_regs u)\<lparr>r_num := num, r_arg1 := p1, r_arg2 := p2, r_arg3 := p3\<rparr>) u"

text \<open>The numbers of the calls.\<close>

definition SYSCALL_PRINT :: u32 where "SYSCALL_PRINT = 0"
definition SYSCALL_GETPERMS :: u32 where "SYSCALL_GETPERMS = 1"
definition SYSCALL_REQIO :: u32 where "SYSCALL_REQIO = 3"
definition SYSCALL_BLKIO :: u32 where "SYSCALL_BLKIO = 4"
definition SYSCALL_MSG_REQ :: u32 where "SYSCALL_MSG_REQ = 5"
definition SYSCALL_MSG_FREE :: u32 where "SYSCALL_MSG_FREE = 6"
definition SYSCALL_MSG_SEND :: u32 where "SYSCALL_MSG_SEND = 7"
definition SYSCALL_MSG_RECV :: u32 where "SYSCALL_MSG_RECV = 8"
definition SYSCALL_MSG_POLL :: u32 where "SYSCALL_MSG_POLL = 9"
definition SYSCALL_SPAWN :: u32 where "SYSCALL_SPAWN = 10"
definition SYSCALL_FORK :: u32 where "SYSCALL_FORK = 11"
definition SYSCALL_EXEC :: u32 where "SYSCALL_EXEC = 12"
definition SYSCALL_INITRD_GETF :: u32 where "SYSCALL_INITRD_GETF = 14"
definition SYSCALL_RESVPG :: u32 where "SYSCALL_RESVPG = 16"
definition SYSCALL_MAPPG :: u32 where "SYSCALL_MAPPG = 17"
definition SYSCALL_ALLOCPGS :: u32 where "SYSCALL_ALLOCPGS = 18"
definition SYSCALL_FREEPGS :: u32 where "SYSCALL_FREEPGS = 19"

lemmas syscall_numbers = SYSCALL_PRINT_def SYSCALL_GETPERMS_def SYSCALL_REQIO_def SYSCALL_BLKIO_def SYSCALL_MSG_REQ_def
  SYSCALL_MSG_FREE_def SYSCALL_MSG_SEND_def SYSCALL_MSG_RECV_def SYSCALL_MSG_POLL_def SYSCALL_SPAWN_def SYSCALL_FORK_def
  SYSCALL_EXEC_def SYSCALL_INITRD_GETF_def SYSCALL_RESVPG_def SYSCALL_MAPPG_def SYSCALL_ALLOCPGS_def SYSCALL_FREEPGS_def

subsection \<open>Permissions, ports, memory, processes\<close>

type_synonym ('h, 'v) ucall = "('h, 'v) uproc \<Rightarrow> (u32 \<times> ('h, 'v) uproc) option"

definition micro_getperms :: "('h, 'v) gate \<Rightarrow> ('h, 'v) ucall" where
  "micro_getperms g = syscall0 g SYSCALL_GETPERMS"

text \<open>\<open>warning\<close> is the address of the text that \<^verbatim>\<open>micro_init\<close> prints.\<close>

definition micro_init :: "('h, 'v) gate \<Rightarrow> addr \<Rightarrow> ('h, 'v) uproc \<Rightarrow> ('h, 'v) uproc option" where
  "micro_init g warning u = do {
     (perms, u1) \<leftarrow> micro_getperms g u;
     if perms AND USER_PERM_MEM = 0 then do { (r, u2) \<leftarrow> syscall1 g SYSCALL_PRINT warning u1; Some u2 }
     else Some u1 }"

definition reqio :: "('h, 'v) gate \<Rightarrow> u16 \<Rightarrow> u16 \<Rightarrow> ('h, 'v) ucall" where
  "reqio g base len = syscall2 g SYSCALL_REQIO (ucast base) (ucast len)"

definition blkio :: "('h, 'v) gate \<Rightarrow> u16 \<Rightarrow> u16 \<Rightarrow> ('h, 'v) ucall" where
  "blkio g base len = syscall2 g SYSCALL_BLKIO (ucast base) (ucast len)"

definition micro_resvpg :: "('h, 'v) gate \<Rightarrow> addr \<Rightarrow> ('h, 'v) ucall" where
  "micro_resvpg g phys = syscall1 g SYSCALL_RESVPG phys"

definition micro_mappg :: "('h, 'v) gate \<Rightarrow> addr \<Rightarrow> addr \<Rightarrow> u32 \<Rightarrow> ('h, 'v) ucall" where
  "micro_mappg g phys virt flgs = syscall3 g SYSCALL_MAPPG phys virt flgs"

definition micro_allocpgs :: "('h, 'v) gate \<Rightarrow> addr \<Rightarrow> u32 \<Rightarrow> u32 \<Rightarrow> ('h, 'v) ucall" where
  "micro_allocpgs g virt cnt flgs = syscall3 g SYSCALL_ALLOCPGS virt cnt flgs"

definition micro_freepgs :: "('h, 'v) gate \<Rightarrow> addr \<Rightarrow> u32 \<Rightarrow> ('h, 'v) ucall" where
  "micro_freepgs g virt cnt = syscall2 g SYSCALL_FREEPGS virt cnt"

definition micro_fork :: "('h, 'v) gate \<Rightarrow> ('h, 'v) ucall" where
  "micro_fork g = syscall0 g SYSCALL_FORK"

text \<open>The description of a \<^verbatim>\<open>struct FILE\<close> lies behind its other fields.\<close>

definition desc_of :: "addr \<Rightarrow> addr" where
  "desc_of file = file + 24"

definition micro_spawn :: "('h, 'v) gate \<Rightarrow> addr \<Rightarrow> addr \<Rightarrow> u32 \<Rightarrow> ('h, 'v) ucall" where
  "micro_spawn g file ustk usz = syscall3 g SYSCALL_SPAWN (desc_of file) ustk usz"

definition micro_exec :: "('h, 'v) gate \<Rightarrow> addr \<Rightarrow> addr \<Rightarrow> u32 \<Rightarrow> ('h, 'v) ucall" where
  "micro_exec g file ustk usz = syscall3 g SYSCALL_EXEC (desc_of file) ustk usz"

subsection \<open>Messages\<close>

definition zero_msg :: message where
  "zero_msg = \<lparr>dst = 0, src = 0, msgsz = 0, dat = 0, kdat = 0\<rparr>"

definition u_set_msg :: "addr \<Rightarrow> message \<Rightarrow> ('h, 'v) uproc \<Rightarrow> ('h, 'v) uproc option" where
  "u_set_msg p m u =
     (if p = 0 then None else Some (u\<lparr>up_k := (up_k u)\<lparr>k_msgs := (k_msgs (up_k u))(p \<mapsto> m)\<rparr>\<rparr>))"

definition u_msg :: "addr \<Rightarrow> ('h, 'v) uproc \<Rightarrow> message option" where
  "u_msg p u = load (k_msgs (up_k u)) p"

text \<open>The local variable lies on the stack, at \<open>up_slot\<close>.\<close>

definition micro_message_get :: "('h, 'v) gate \<Rightarrow> u32 \<Rightarrow> ('h, 'v) uproc \<Rightarrow> (message \<times> ('h, 'v) uproc) option" where
  "micro_message_get g n u = do {
     u1 \<leftarrow> u_set_msg (up_slot u) zero_msg u;
     (r, u2) \<leftarrow> syscall2 g SYSCALL_MSG_REQ n (up_slot u) u1;
     m \<leftarrow> u_msg (up_slot u) u2;
     Some (m, u2) }"

definition micro_message_free :: "('h, 'v) gate \<Rightarrow> addr \<Rightarrow> ('h, 'v) ucall" where
  "micro_message_free g msg = syscall1 g SYSCALL_MSG_FREE msg"

definition micro_message_send :: "('h, 'v) gate \<Rightarrow> addr \<Rightarrow> u32 \<Rightarrow> ('h, 'v) ucall" where
  "micro_message_send g msg pid = syscall2 g SYSCALL_MSG_SEND msg pid"

definition micro_message_recv :: "('h, 'v) gate \<Rightarrow> addr \<Rightarrow> ('h, 'v) ucall" where
  "micro_message_recv g msg = syscall1 g SYSCALL_MSG_RECV msg"

definition micro_message_poll :: "('h, 'v) gate \<Rightarrow> addr \<Rightarrow> ('h, 'v) ucall" where
  "micro_message_poll g msg = syscall1 g SYSCALL_MSG_POLL msg"

subsection \<open>Files\<close>

definition FILE_FLG_INITRD :: u8 where "FILE_FLG_INITRD = 128"

text \<open>\<open>filebuf\<close> is the address of the one static \<^verbatim>\<open>struct FILE\<close>.\<close>

definition micro_open :: "('h, 'v) gate \<Rightarrow> addr \<Rightarrow> addr \<Rightarrow> u32 \<Rightarrow> ('h, 'v) ucall" where
  "micro_open g filebuf path flags u = do {
     (fi, u1) \<leftarrow> syscall2 g SYSCALL_INITRD_GETF (desc_of filebuf) path u;
     if sint fi < 0 then Some (0, u1)
     else Some (filebuf, u1\<lparr>up_nextfd := up_nextfd u1 + 1,
       up_filebuf := (up_filebuf u1)\<lparr>fl_fd := up_nextfd u1, fl_flg := ucast (flags OR ucast FILE_FLG_INITRD)\<rparr>\<rparr>) }"

end
