(* ===== verification/LibcSys.thy ===== *)
theory LibcSys
  imports Micro Args ProcSvr
begin

text \<open>
  Processes and messages in the C library, \<^verbatim>\<open>lib/libc/sys\<close>, and the two programs \<^verbatim>\<open>apps/init\<close> and
  \<^verbatim>\<open>apps/procsvr\<close> above it. Text that goes to the console is left out, and so are the endless loops at the end
  of the programs.
\<close>

subsection \<open>The memory and the heap of the program\<close>

definition u_peek :: "('h, 'v) services \<Rightarrow> addr \<Rightarrow> nat \<Rightarrow> ('h, 'v) uproc \<Rightarrow> u8 list option" where
  "u_peek sv a n u = sv_peek sv a n (k_vm (up_k u))"

definition u_str :: "('h, 'v) services \<Rightarrow> addr \<Rightarrow> ('h, 'v) uproc \<Rightarrow> string option" where
  "u_str sv a u = sv_str sv a (k_vm (up_k u))"

definition u_poke :: "('h, 'v) services \<Rightarrow> addr \<Rightarrow> u8 list \<Rightarrow> ('h, 'v) uproc \<Rightarrow> ('h, 'v) uproc option" where
  "u_poke sv a bs u = do { v \<leftarrow> sv_poke sv a bs (k_vm (up_k u)); Some (u\<lparr>up_k := (up_k u)\<lparr>k_vm := v\<rparr>\<rparr>) }"

definition u_malloc :: "u32 \<Rightarrow> ('h, 'v) ucall" where
  "u_malloc n u = do { (p, h) \<leftarrow> malloc n (up_heap u); Some (p, u\<lparr>up_heap := h\<rparr>) }"

definition u_free :: "addr \<Rightarrow> ('h, 'v) uproc \<Rightarrow> ('h, 'v) uproc option" where
  "u_free p u = do { h \<leftarrow> free p (up_heap u); Some (u\<lparr>up_heap := h\<rparr>) }"

definition u_realloc :: "addr \<Rightarrow> addr \<Rightarrow> u32 \<Rightarrow> ('h, 'v) ucall" where
  "u_realloc junk p n u = do { (q, h) \<leftarrow> realloc junk p n (up_heap u); Some (q, u\<lparr>up_heap := h\<rparr>) }"

definition bytes_of :: "string \<Rightarrow> u8 list" where
  "bytes_of t = map of_char t"

definition chars_of :: "u8 list \<Rightarrow> string" where
  "chars_of bs = map (\<lambda>b. char_of (unat b)) bs"

subsection \<open>Messages\<close>

definition message_prepare :: "('h, 'v) gate \<Rightarrow> u32 \<Rightarrow> ('h, 'v) ucall" where
  "message_prepare g n u = do {
     (prep, u1) \<leftarrow> micro_message_get g n u;
     let prep1 = prep\<lparr>msgsz := n\<rparr>;
     if kdat prep1 = 0 then Some (0, u1)
     else do {
       (r, u2) \<leftarrow> u_malloc 20 u1;
       u3 \<leftarrow> u_set_msg r prep1 u2;
       Some (r, u3) } }"

text \<open>Freeing the \<^verbatim>\<open>message_t\<close> leaves what it held in place.\<close>

definition message_release :: "('h, 'v) gate \<Rightarrow> addr \<Rightarrow> ('h, 'v) ucall" where
  "message_release g msg u =
     (if msg = 0 then Some (-1, u)
      else do {
        (r, u1) \<leftarrow> micro_message_free g msg u;
        u2 \<leftarrow> u_free msg u1;
        Some (r, u2) })"

definition message_send :: "('h, 'v) gate \<Rightarrow> addr \<Rightarrow> u32 \<Rightarrow> ('h, 'v) ucall" where
  "message_send g msg pid u = (if msg = 0 then Some (-1, u) else micro_message_send g msg pid u)"

definition message_recv :: "('h, 'v) gate \<Rightarrow> ('h, 'v) ucall" where
  "message_recv g u = do {
     (msg, u1) \<leftarrow> u_malloc 20 u;
     u2 \<leftarrow> u_set_msg msg zero_msg u1;
     (r, u3) \<leftarrow> micro_message_recv g msg u2;
     if sint r < 0 then do { u4 \<leftarrow> u_free msg u3; Some (0, u4) }
     else Some (msg, u3) }"

subsection \<open>Requests to the process server\<close>

text \<open>The first four bytes of a request; the number of the server is fixed.\<close>

definition PREG :: "u8 list" where "PREG = bytes_of ''PREG''"
definition PREQ :: "u8 list" where "PREQ = bytes_of ''PREQ''"
definition PROCSVR :: u32 where "PROCSVR = 1"

definition send_preg :: "('h, 'v) services \<Rightarrow> ('h, 'v) gate \<Rightarrow> addr \<Rightarrow> u32 \<Rightarrow> ('h, 'v) uproc \<Rightarrow>
    ('h, 'v) uproc option" where
  "send_preg sv g path target u = do {
     (msg, u1) \<leftarrow> message_prepare g 136 u;
     if msg = 0 then Some u1
     else do {
       m \<leftarrow> u_msg msg u1;
       u2 \<leftarrow> u_poke sv (dat m) (replicate 136 0) u1;
       u3 \<leftarrow> u_poke sv (dat m) PREG u2;
       name \<leftarrow> u_str sv path u3;
       u4 \<leftarrow> u_poke sv (dat m + 4) (bytes_of name) u3;
       u5 \<leftarrow> u_poke sv (dat m + 132) (put32 target) u4;
       (r, u6) \<leftarrow> message_send g msg PROCSVR u5;
       Some u6 } }"

text \<open>The loop of \<^verbatim>\<open>find_process\<close>: every message that is no answer is dropped.\<close>

partial_function (option) find_answer_loop :: "('h, 'v) services \<Rightarrow> ('h, 'v) gate \<Rightarrow> ('h, 'v) uproc \<Rightarrow>
    (addr \<times> ('h, 'v) uproc) option" where
  "find_answer_loop sv g u = do {
     (msg, u1) \<leftarrow> message_recv g u;
     m \<leftarrow> u_msg msg u1;
     b \<leftarrow> u_peek sv (dat m) 4 u1;
     if b = PREQ then Some (msg, u1) else find_answer_loop sv g u1 }"

definition find_process :: "('h, 'v) services \<Rightarrow> ('h, 'v) gate \<Rightarrow> addr \<Rightarrow> ('h, 'v) ucall" where
  "find_process sv g name u = do {
     (msg, u1) \<leftarrow> message_prepare g 132 u;
     if msg = 0 then Some (-1, u1)
     else do {
       m \<leftarrow> u_msg msg u1;
       u2 \<leftarrow> u_poke sv (dat m) (replicate 132 0) u1;
       u3 \<leftarrow> u_poke sv (dat m) PREQ u2;
       t \<leftarrow> u_str sv name u3;
       u4 \<leftarrow> u_poke sv (dat m + 4) (bytes_of t) u3;
       (r, u5) \<leftarrow> message_send g msg PROCSVR u4;
       (ans, u6) \<leftarrow> find_answer_loop sv g u5;
       a \<leftarrow> u_msg ans u6;
       pid \<leftarrow> u_peek sv (dat a + 4) 4 u6;
       (q, u7) \<leftarrow> message_release g ans u6;
       Some (le32 pid 0, u7) } }"

subsection \<open>Starting programs\<close>

text \<open>The strings of an array of pointers that ends with a null.\<close>

partial_function (option) argv_strings :: "('h, 'v) services \<Rightarrow> addr \<Rightarrow> ('h, 'v) uproc \<Rightarrow> string list option" where
  "argv_strings sv argv u = do {
     p \<leftarrow> u_peek sv argv 4 u;
     if le32 p 0 = 0 then Some []
     else do {
       t \<leftarrow> u_str sv (le32 p 0) u;
       ts \<leftarrow> argv_strings sv (argv + 4) u;
       Some (t # ts) } }"

fun w_bytes :: "stk_write \<Rightarrow> u8 list" where
  "w_bytes (WStr t) = bytes_of t @ [0]"
| "w_bytes (WPtrs ps) = concat (map put32 ps)"
| "w_bytes (WInt n) = put32 n"

fun w_pointers :: "stk_write \<Rightarrow> u32 list" where
  "w_pointers (WPtrs ps) = butlast ps"
| "w_pointers w = []"

fun put_writes :: "('h, 'v) services \<Rightarrow> addr \<Rightarrow> (int \<times> stk_write) list \<Rightarrow> ('h, 'v) uproc \<Rightarrow> ('h, 'v) uproc option" where
  "put_writes sv ustk [] u = Some u"
| "put_writes sv ustk ((off, w) # ws) u = do {
     u1 \<leftarrow> u_poke sv (ustk + of_int off) (w_bytes w) u;
     put_writes sv ustk ws u1 }"

text \<open>
  \<^verbatim>\<open>__construct_ustk\<close> on the memory of the program: it also replaces the pointers of \<^verbatim>\<open>argv\<close> by those that the
  new process will see.
\<close>

definition build_ustk :: "('h, 'v) services \<Rightarrow> addr \<Rightarrow> ('h, 'v) uproc \<Rightarrow> ((addr \<times> u32) \<times> ('h, 'v) uproc) option" where
  "build_ustk sv argv u = do {
     args \<leftarrow> argv_strings sv argv u;
     let (sz, ws) = construct_ustk args 0;
     (ustk, u1) \<leftarrow> u_malloc sz u;
     u2 \<leftarrow> u_poke sv argv (concat (map put32 (concat (map (w_pointers \<circ> snd) ws)))) u1;
     u3 \<leftarrow> put_writes sv ustk ws u2;
     Some ((ustk, sz), u3) }"

definition spawnv :: "('h, 'v) services \<Rightarrow> ('h, 'v) gate \<Rightarrow> addr \<Rightarrow> addr \<Rightarrow> addr \<Rightarrow> ('h, 'v) ucall" where
  "spawnv sv g filebuf path argv u = do {
     (file, u1) \<leftarrow> micro_open g filebuf path 0 u;
     if file = 0 then Some (-1, u1)
     else do {
       ((ustk, stksz), u2) \<leftarrow> build_ustk sv argv u1;
       (r, u3) \<leftarrow> micro_spawn g file ustk stksz u2;
       if sint r < 0 then Some (r, u3)
       else do {
         u4 \<leftarrow> send_preg sv g path r u3;
         u5 \<leftarrow> u_free ustk u4;
         Some (r, u5) } } }"

definition execv :: "('h, 'v) services \<Rightarrow> ('h, 'v) gate \<Rightarrow> addr \<Rightarrow> addr \<Rightarrow> addr \<Rightarrow> ('h, 'v) ucall" where
  "execv sv g filebuf path argv u = do {
     (file, u1) \<leftarrow> micro_open g filebuf path 0 u;
     if file = 0 then Some (-1, u1)
     else do {
       ((ustk, stksz), u2) \<leftarrow> build_ustk sv argv u1;
       (r, u3) \<leftarrow> micro_exec g file ustk stksz u2;
       u4 \<leftarrow> u_free ustk u3;
       Some (r, u4) } }"

text \<open>
  \<^verbatim>\<open>__stitch_args\<close>: \<open>args\<close> are the arguments before the null, \<open>junk i\<close> what \<^verbatim>\<open>realloc\<close> finds in its variable
  the \<open>i\<close>-th time.
\<close>

fun stitch_loop :: "('h, 'v) services \<Rightarrow> (nat \<Rightarrow> addr) \<Rightarrow> addr \<Rightarrow> nat \<Rightarrow> addr list \<Rightarrow> ('h, 'v) uproc \<Rightarrow>
    ((addr \<times> nat) \<times> ('h, 'v) uproc) option" where
  "stitch_loop sv junk argv i [] u = Some ((argv, i), u)"
| "stitch_loop sv junk argv i (arg # args) u = do {
     u1 \<leftarrow> u_poke sv (argv + 4 * of_nat i) (put32 arg) u;
     (argv1, u2) \<leftarrow> u_realloc (junk i) argv (4 * of_nat (i + 2)) u1;
     stitch_loop sv junk argv1 (i + 1) args u2 }"

definition stitch_args :: "('h, 'v) services \<Rightarrow> (nat \<Rightarrow> addr) \<Rightarrow> addr \<Rightarrow> addr list \<Rightarrow> ('h, 'v) ucall" where
  "stitch_args sv junk path args u = do {
     (argv, u1) \<leftarrow> u_malloc 16 u;
     u2 \<leftarrow> u_poke sv argv (put32 path) u1;
     ((argv1, argi), u3) \<leftarrow> stitch_loop sv junk argv 1 args u2;
     u4 \<leftarrow> u_poke sv (argv1 + 4 * of_nat argi) (put32 0) u3;
     Some (argv1, u4) }"

definition spawnl :: "('h, 'v) services \<Rightarrow> ('h, 'v) gate \<Rightarrow> (nat \<Rightarrow> addr) \<Rightarrow> addr \<Rightarrow> addr \<Rightarrow> addr list \<Rightarrow> ('h, 'v) ucall" where
  "spawnl sv g junk filebuf path args u =
     (if path = 0 then Some (-1, u)
      else do {
        (argv, u1) \<leftarrow> stitch_args sv junk path args u;
        (r, u2) \<leftarrow> spawnv sv g filebuf path argv u1;
        u3 \<leftarrow> u_free argv u2;
        Some (r, u3) })"

definition execl :: "('h, 'v) services \<Rightarrow> ('h, 'v) gate \<Rightarrow> (nat \<Rightarrow> addr) \<Rightarrow> addr \<Rightarrow> addr \<Rightarrow> addr list \<Rightarrow> ('h, 'v) ucall" where
  "execl sv g junk filebuf path args u =
     (if path = 0 then Some (-1, u)
      else do {
        (argv, u1) \<leftarrow> stitch_args sv junk path args u;
        (r, u2) \<leftarrow> execv sv g filebuf path argv u1;
        u3 \<leftarrow> u_free argv u2;
        Some (r, u3) })"

definition libc_fork :: "('h, 'v) gate \<Rightarrow> ('h, 'v) ucall" where
  "libc_fork g = micro_fork g"

subsection \<open>The programs\<close>

text \<open>\<^verbatim>\<open>main\<close> of \<^verbatim>\<open>apps/init\<close> up to its endless loop; the result is the number it prints.\<close>

definition init_main :: "('h, 'v) services \<Rightarrow> ('h, 'v) gate \<Rightarrow> (nat \<Rightarrow> addr) \<Rightarrow> addr \<Rightarrow> addr \<Rightarrow> ('h, 'v) ucall" where
  "init_main sv g junk filebuf procsvr u = do {
     (r, u1) \<leftarrow> spawnl sv g junk filebuf procsvr [] u;
     find_process sv g procsvr u1 }"

text \<open>The server uses the heap of its program.\<close>

definition on_server :: "(lheap pserver \<Rightarrow> lheap pserver option) \<Rightarrow> lheap pserver \<times> ('h, 'v) uproc \<Rightarrow>
    (lheap pserver \<times> ('h, 'v) uproc) option" where
  "on_server f su = do {
     s1 \<leftarrow> f ((fst su)\<lparr>ps_heap := up_heap (snd su)\<rparr>);
     Some (s1, (snd su)\<lparr>up_heap := ps_heap s1\<rparr>) }"

text \<open>The answer goes into the buffer of the request.\<close>

definition answer_procreq :: "('h, 'v) services \<Rightarrow> ('h, 'v) gate \<Rightarrow> addr \<Rightarrow> lheap pserver \<times> ('h, 'v) uproc \<Rightarrow>
    (lheap pserver \<times> ('h, 'v) uproc) option" where
  "answer_procreq sv g root su = do {
     m \<leftarrow> u_msg root (snd su);
     name \<leftarrow> u_peek sv (dat m + 4) 128 (snd su);
     pid \<leftarrow> parse_procreq (chars_of name) (fst su);
     u1 \<leftarrow> u_poke sv (dat m + 4) (put32 pid) (snd su);
     u2 \<leftarrow> u_set_msg root (m\<lparr>msgsz := 8\<rparr>) u1;
     (r, u3) \<leftarrow> message_send g root (src m) u2;
     Some (fst su, u3) }"

definition handle_message :: "('h, 'v) services \<Rightarrow> ('h, 'v) gate \<Rightarrow> process \<Rightarrow> addr \<Rightarrow> lheap pserver \<times> ('h, 'v) uproc \<Rightarrow>
    (lheap pserver \<times> ('h, 'v) uproc) option" where
  "handle_message sv g junk msg su = do {
     m \<leftarrow> u_msg msg (snd su);
     b \<leftarrow> u_peek sv (dat m) 4 (snd su);
     su1 \<leftarrow> (if b = PREG then do {
         p \<leftarrow> u_peek sv (dat m + 4) 132 (snd su);
         su1 \<leftarrow> on_server (parse_procreg malloc junk (src m) (chars_of (take 128 p)) (le32 p 128)) su;
         (r, u2) \<leftarrow> message_release g msg (snd su1);
         Some (fst su1, u2) }
       else Some su);
     m1 \<leftarrow> u_msg msg (snd su1);
     b1 \<leftarrow> u_peek sv (dat m1) 4 (snd su1);
     if b1 = PREQ then answer_procreq sv g msg su1 else Some su1 }"

text \<open>One round of the loop of \<^verbatim>\<open>apps/procsvr\<close>.\<close>

definition procsvr_round :: "('h, 'v) services \<Rightarrow> ('h, 'v) gate \<Rightarrow> process \<Rightarrow> lheap pserver \<times> ('h, 'v) uproc \<Rightarrow>
    (lheap pserver \<times> ('h, 'v) uproc) option" where
  "procsvr_round sv g junk su = do {
     (msg, u1) \<leftarrow> message_recv g (snd su);
     handle_message sv g junk msg (fst su, u1) }"

end
