(* ===== verification/Micro_Props.thy ===== *)
theory Micro_Props
  imports LibcSys LibcHeap_Props Msg_Props
begin

text \<open>
  Messages between programs through all layers: the C library, the interrupt, the system calls, the queues and
  the two heaps.
\<close>

subsection \<open>Addresses of blocks\<close>

lemma kheap_used_low: "kheap_inv h \<Longrightarrow> (p, m) \<in> kheap_used h \<Longrightarrow> 0xE1000000 \<le> p"
proof -
  assume i: "kheap_inv h" and u: "(p, m) \<in> kheap_used h"
  then have "tiled (unat BIN_START) (heap_blocks h)" by (simp add: kheap_inv_def heap_rep_def)
  then show ?thesis using tiled_bounds [of _ "heap_blocks h" p m True] u by (fastforce simp: kheap_used_def live_def BIN_START_def)
qed

text \<open>As long as the heap of a program has not grown into the kernel, it hands out addresses of its own half.\<close>

lemma malloc_low:
  assumes "l_inv s" and "n \<noteq> 0" and "0x20000000 + even_up (unat n) \<le> l_bytes_left s" and "0 < l_allocs_left s"
  shows "\<exists>p s'. malloc n s = Some (p, s') \<and> p \<noteq> 0 \<and> unat p < 0xE0000000 \<and> l_inv s'"
proof -
  have r: "even_up (unat n) \<le> l_bytes_left s" using assms(3) by simp
  obtain p s' m where p: "malloc n s = Some (p, s')" "l_inv s'" "l_used s' = insert (unat p, m) (l_used s)"
    "l_bytes_left s - even_up (unat n) \<le> l_bytes_left s'"
    using lh.alloc_ok [OF assms(1,2) r assms(4)] by blast
  obtain ms k lt where rep: "lrep s' ms k lt" using p(2) by (auto simp: l_inv_def)
  have "(unat p, m) \<in> taken ms k lt" using p(3) l_used_rep [OF rep] by simp
  then have "0x81000000 \<le> unat p \<and> unat p + m \<le> 0x81000000 + sum_list ms + (if lt then k else 0)" by (rule taken_end)
  moreover have "0x20000000 \<le> 0x7EFFFFFE - (sum_list ms + k)" using p(4) assms(3) l_left_rep(1) [OF rep] by simp
  moreover have "p \<noteq> 0" using calculation(1) by auto
  ultimately show ?thesis using p(1,2) by (auto split: if_splits)
qed

subsection \<open>The gate of the kernel\<close>

text \<open>A call saves the registers in the process before anything else.\<close>

definition saved :: "syscall_state \<Rightarrow> addr \<Rightarrow> user_task \<Rightarrow> 'v ksys \<Rightarrow> 'v ksys" where
  "saved r p P k = k\<lparr>k_utasks := (k_utasks k)(p \<mapsto> P\<lparr>ut_state := r\<rparr>)\<rparr>"

lemma gate_call:
  assumes "cur_utask k = Some p" and "k_utasks k p = Some P" and "p \<noteq> 0" and "unat (r_num r) < SYSCALLS_NUM"
  shows "kernel_gate sv ca rg env r k = do {
    sc \<leftarrow> nth_opt (scalls sv ca rg env) (unat (r_num r));
    (ret, k1) \<leftarrow> sc (r_arg1 r) (r_arg2 r) (r_arg3 r) (r_arg4 r) (saved r p P k);
    Some (r\<lparr>r_num := ret\<rparr>, k1) }"
  using assms by (simp add: kernel_gate_def syscall_handler_def on_utask_def load_def saved_def Let_def)

lemma saved_inv:
  assumes "kern_inv k" and "k_utasks k p = Some P"
  shows "kern_inv (saved r p P k)" "user_find pid (saved r p P k) = user_find pid k"
    "cur_utask (saved r p P k) = cur_utask k" "k_msgs (saved r p P k) = k_msgs k" "kroom a b (saved r p P k) \<longleftrightarrow> kroom a b k"
    "map_option ut_recvbuf (k_utasks (saved r p P k) q) = map_option ut_recvbuf (k_utasks k q)"
proof -
  show "kern_inv (saved r p P k)" by (rule kern_inv_same [OF assms(1)]) (use assms(2) in \<open>auto simp: saved_def\<close>)
  show "user_find pid (saved r p P k) = user_find pid k" unfolding saved_def by (rule user_find_pid [OF assms]) simp
  show "cur_utask (saved r p P k) = cur_utask k" "k_msgs (saved r p P k) = k_msgs k" "kroom a b (saved r p P k) \<longleftrightarrow> kroom a b k"
    by (simp_all add: saved_def cur_utask_def cur_task_def kroom_def)
  show "map_option ut_recvbuf (k_utasks (saved r p P k) q) = map_option ut_recvbuf (k_utasks k q)"
    using assms(2) by (simp add: saved_def)
qed

lemma message_send_call:
  assumes "cur_utask (up_k u) = Some p" and "k_utasks (up_k u) p = Some P" and "p \<noteq> 0" and "msg \<noteq> 0"
  shows "message_send (kernel_gate sv ca rg env) msg pid u = do {
    (r, k1) \<leftarrow> syscall_msg_send sv rg env msg pid
      (saved ((up_regs u)\<lparr>r_num := SYSCALL_MSG_SEND, r_arg1 := msg, r_arg2 := pid\<rparr>) p P (up_k u));
    Some (r, u\<lparr>up_k := k1\<rparr>) }"
  using assms(4) gate_call [OF assms(1-3), of "(up_regs u)\<lparr>r_num := SYSCALL_MSG_SEND, r_arg1 := msg, r_arg2 := pid\<rparr>" sv ca rg env]
  by (simp add: message_send_def micro_message_send_def syscall2_def int_4D_def syscall_numbers SYSCALLS_NUM_def scalls_def
      nth_opt_def case_prod_unfold)

lemma message_recv_call:
  assumes "cur_utask (up_k w) = Some q" and "k_utasks (up_k w) q = Some Q" and "q \<noteq> 0"
    and "malloc 20 (up_heap w) = Some (p, h)" and "p \<noteq> 0"
  defines "k \<equiv> (up_k w)\<lparr>k_msgs := (k_msgs (up_k w))(p \<mapsto> zero_msg)\<rparr>"
  shows "message_recv (kernel_gate sv ca rg env) w = do {
    (r, k1) \<leftarrow> syscall_msg_recv sv rg env p (saved ((up_regs w)\<lparr>r_num := SYSCALL_MSG_RECV, r_arg1 := p\<rparr>) q Q k);
    let w1 = w\<lparr>up_heap := h, up_k := k1\<rparr>;
    if sint r < 0 then do { w2 \<leftarrow> u_free p w1; Some (0, w2) } else Some (p, w1) }"
proof -
  have "cur_utask k = Some q" "k_utasks k q = Some Q" using assms(1,2) by (simp_all add: k_def cur_utask_def cur_task_def)
  note g = gate_call [OF this assms(3), of "(up_regs w)\<lparr>r_num := SYSCALL_MSG_RECV, r_arg1 := p\<rparr>" sv ca rg env]
  show ?thesis using assms(4,5) g
    by (simp add: message_recv_def u_malloc_def u_set_msg_def micro_message_recv_def syscall1_def int_4D_def syscall_numbers
        SYSCALLS_NUM_def scalls_def nth_opt_def k_def case_prod_unfold Let_def cong: if_cong)
qed


text \<open>A program that has just started.\<close>

definition demo_prog :: "(addr \<Rightarrow> u8) ksys \<Rightarrow> (kheap, addr \<Rightarrow> u8) uproc" where
  "demo_prog k = \<lparr>up_heap = heap_setup True, up_nextfd = 3,
     up_filebuf = \<lparr>fl_fd = 0, fl_flg = 0, fl_buf = None, fl_bufi = 0, fl_bufsz = 0, fl_out = []\<rparr>,
     up_regs = zero_state, up_slot = 0x4000, up_k = k\<rparr>"

lemma demo_prog_heap: "l_inv (up_heap (demo_prog k))" "0x20000014 \<le> l_bytes_left (up_heap (demo_prog k))"
  "0 < l_allocs_left (up_heap (demo_prog k))"
  using l_left_rep [OF heap_setup_rep] heap_setup_rep by (auto simp: demo_prog_def l_inv_def)

lemma demo_prog_k: "up_k (demo_prog k) = k"
  by (simp add: demo_prog_def)


end
