(* ===== verification/FlatMem.thy ===== *)
theory FlatMem
  imports Syscall
begin

text \<open>
  The simplest memory: a byte at every address, none of which faults. Properties of code that reads and writes
  bytes are stated on it.
\<close>

subsection \<open>Flat memory\<close>

definition mem_peek :: "addr \<Rightarrow> nat \<Rightarrow> (addr \<Rightarrow> u8) \<Rightarrow> u8 list" where
  "mem_peek a n v = map (\<lambda>i. v (a + of_nat i)) [0..<n]"

definition mem_poke :: "addr \<Rightarrow> u8 list \<Rightarrow> (addr \<Rightarrow> u8) \<Rightarrow> addr \<Rightarrow> u8" where
  "mem_poke a bs v = (\<lambda>x. if unat (x - a) < length bs then bs ! unat (x - a) else v x)"

definition flat_mem :: "('h, addr \<Rightarrow> u8) services \<Rightarrow> bool" where
  "flat_mem sv \<longleftrightarrow> sv_peek sv = (\<lambda>a n v. Some (mem_peek a n v)) \<and> sv_poke sv = (\<lambda>a bs v. Some (mem_poke a bs v))"

lemma mem_peek_length [simp]: "length (mem_peek a n v) = n"
  by (simp add: mem_peek_def)

lemma mem_peek_nth: "i < n \<Longrightarrow> mem_peek a n v ! i = v (a + of_nat i)"
  by (simp add: mem_peek_def)

text \<open>Reading back what was written, and reading what lies before it.\<close>

lemma mem_peek_poke_same:
  assumes "length bs = n" and "n < 2 ^ 32"
  shows "mem_peek a n (mem_poke a bs v) = bs"
proof (rule nth_equalityI)
  fix i assume "i < length (mem_peek a n (mem_poke a bs v))"
  then have i: "i < n" by simp
  then have "unat (of_nat i :: u32) = i" using assms(2) by (intro u32_of_nat) simp
  then show "mem_peek a n (mem_poke a bs v) ! i = bs ! i" using i assms(1) by (simp add: mem_peek_nth mem_poke_def)
qed (simp add: assms(1))

lemma mem_peek_poke_before:
  assumes "k + length bs \<le> 2 ^ 32"
  shows "mem_peek a k (mem_poke (a + of_nat k) bs v) = mem_peek a k v"
proof (rule nth_equalityI)
  fix i assume "i < length (mem_peek a k (mem_poke (a + of_nat k) bs v))"
  then have i: "i < k" by simp
  have "mem_poke (a + of_nat k) bs v (a + of_nat i) = v (a + of_nat i)"
  proof (cases "bs = []")
    case False
    then have k: "k < 2 ^ 32" using assms by (cases bs) auto
    have n: "unat (of_nat i :: u32) = i" "unat (of_nat k :: u32) = k" using i k by (simp_all add: u32_of_nat)
    have "a + of_nat i - (a + of_nat k) = of_nat i - (of_nat k :: u32)" by simp
    then have "unat (a + of_nat i - (a + of_nat k)) = i + 2 ^ 32 - k" using i n by (simp add: unat_sub_if_size word_size)
    then have "\<not> unat (a + of_nat i - (a + of_nat k)) < length bs" using assms i by simp
    then show ?thesis by (simp only: mem_poke_def if_False)
  qed (simp add: mem_poke_def)
  then show "mem_peek a k (mem_poke (a + of_nat k) bs v) ! i = mem_peek a k v ! i" using i by (simp add: mem_peek_nth)
qed simp

lemma mem_peek_add: "mem_peek a (k + n) v = mem_peek a k v @ mem_peek (a + of_nat k) n v"
  by (induction n) (simp_all add: mem_peek_def add.assoc)

text \<open>A word written is the word read.\<close>

lemma le32_put32 [simp]: "le32 (put32 w) 0 = w"
proof (rule bit_word_eqI)
  fix n assume n: "n < LENGTH(32)"
  consider "n < 8" | "8 \<le> n" "n < 16" | "16 \<le> n" "n < 24" | "24 \<le> n" by linarith
  then show "bit (le32 (put32 w) 0) n \<longleftrightarrow> bit w n"
    using n by cases (auto simp: le32_def put32_def bit_simps)
qed

lemma put32_length [simp]: "length (put32 w) = 4"
  by (simp add: put32_def)

text \<open>Writing elsewhere.\<close>

lemma mem_peek_poke_apart:
  assumes "\<And>i. i < n \<Longrightarrow> \<not> unat (a + of_nat i - b) < length bs"
  shows "mem_peek a n (mem_poke b bs v) = mem_peek a n v"
  using assms by (intro nth_equalityI) (simp_all add: mem_peek_nth mem_poke_def)

end
