(* ===== verification/Server_Props.thy ===== *)
theory Server_Props
  imports Micro_Props FlatMem
begin

text \<open>
  The process server as a program: how it answers a question that comes as a message, on a flat memory.
\<close>

subsection \<open>Characters\<close>

lemma chars_of_append: "chars_of (xs @ ys) = chars_of xs @ chars_of ys"
  by (simp add: chars_of_def)

lemma chars_of_bytes: "chars_of (bytes_of t) = t"
proof -
  have "char_of (unat (of_char c :: u8)) = c" for c
  proof -
    have "unat (of_nat (of_char c) :: u8) = of_char c" by (simp add: unat_of_nat)
    then show ?thesis by (simp add: of_nat_of_char)
  qed
  then show ?thesis by (simp add: chars_of_def bytes_of_def comp_def)
qed

subsection \<open>Answers\<close>

text \<open>The number that the server knows for a name.\<close>

definition known_pid :: "'h pserver \<Rightarrow> string \<Rightarrow> u32" where
  "known_pid s name = (case find (\<lambda>p. proc_name s p = cstr name) (preorder (ps_root s)) of None \<Rightarrow> -1 | Some p \<Rightarrow> proc_pid s p)"

lemma parse_procreq_known:
  assumes "server_ok s" and "CHR 0x00 \<in> set name"
  shows "parse_procreq name s = Some (known_pid s name)"
proof -
  have f: "proc_find_by_name name s = Some (case find (\<lambda>p. proc_name s p = cstr name) (preorder (ps_root s)) of None \<Rightarrow> 0 | Some p \<Rightarrow> p)"
    using conjunct2 [OF proc_find_ok [OF assms]] .
  show ?thesis
  proof (cases "find (\<lambda>p. proc_name s p = cstr name) (preorder (ps_root s))")
    case None
    then show ?thesis using f by (simp add: parse_procreq_def known_pid_def)
  next
    case (Some p)
    then have "p \<in> set (preorder (ps_root s))" by (auto simp: find_Some_iff)
    then obtain r where "load (ps_procs s) p = Some r" using assms(1) by (auto simp: server_ok_def)
    then show ?thesis using f Some by (auto simp: parse_procreq_def known_pid_def proc_pid_def load_def split: if_splits)
  qed
qed

text \<open>
  C25 (functional): the server answers a question. For a message that starts with the mark of a question,
  \<^verbatim>\<open>handle_message\<close> sends the same \<^verbatim>\<open>message_t\<close> back to its sender, with a length of 8: the
  first 4 bytes of the buffer are still the mark and the next 4 are the number of the first process in preorder
  with the name asked for, or -1 if there is none. The tree of processes does not change.
\<close>

theorem server_answers:
  assumes "flat_mem sv" and "server_ok s" and "u_msg msg u = Some m" and "mem_peek (dat m) 4 (k_vm (up_k u)) = PREQ"
    and "name = chars_of (mem_peek (dat m + 4) 128 (k_vm (up_k u)))" and "CHR 0x00 \<in> set name"
  shows "\<exists>u1. handle_message sv g junk msg (s, u) = do { (r, u2) \<leftarrow> message_send g msg (src m) u1; Some (s, u2) } \<and>
    u_msg msg u1 = Some (m\<lparr>msgsz := 8\<rparr>) \<and> mem_peek (dat m) 8 (k_vm (up_k u1)) = PREQ @ put32 (known_pid s name)"
proof -
  let ?v = "k_vm (up_k u)" and ?pid = "known_pid s name"
  let ?w = "mem_poke (dat m + 4) (put32 ?pid) ?v"
  let ?u1 = "u\<lparr>up_k := (up_k u)\<lparr>k_vm := ?w, k_msgs := (k_msgs (up_k u))(msg \<mapsto> m\<lparr>msgsz := 8\<rparr>)\<rparr>\<rparr>"
  have pk: "sv_peek sv = (\<lambda>a n v. Some (mem_peek a n v))" "sv_poke sv = (\<lambda>a bs v. Some (mem_poke a bs v))"
    using assms(1) by (simp_all add: flat_mem_def)
  have nz: "msg \<noteq> 0" using assms(3) by (auto simp: u_msg_def opt_simps)
  have ne: "PREQ \<noteq> PREG" by (simp add: PREQ_def PREG_def bytes_of_def)
  have pq: "parse_procreq name s = Some ?pid" by (rule parse_procreq_known [OF assms(2,6)])
  have len: "length (put32 ?pid) = 4" by (simp add: put32_def)
  have "handle_message sv g junk msg (s, u) = answer_procreq sv g msg (s, u)"
    using assms(3,4) pk ne by (simp add: handle_message_def u_peek_def)
  also have "\<dots> = do { (r, u2) \<leftarrow> message_send g msg (src m) ?u1; Some (s, u2) }"
    using assms(3,5) pk pq nz by (simp add: answer_procreq_def u_peek_def u_poke_def u_set_msg_def)
  finally have "handle_message sv g junk msg (s, u) = do { (r, u2) \<leftarrow> message_send g msg (src m) ?u1; Some (s, u2) }" .
  moreover have "u_msg msg ?u1 = Some (m\<lparr>msgsz := 8\<rparr>)" using nz by (simp add: u_msg_def load_def)
  moreover have "mem_peek (dat m) (4 + 4) ?w = PREQ @ put32 ?pid"
    using mem_peek_poke_before [of 4 "put32 ?pid" "dat m" ?v] mem_peek_poke_same [of "put32 ?pid" 4 "dat m + 4" ?v] len assms(4)
    unfolding mem_peek_add by simp
  then have "mem_peek (dat m) 8 (k_vm (up_k ?u1)) = PREQ @ put32 ?pid" by simp
  ultimately show ?thesis by blast
qed

text \<open>A server that knows two processes is asked for one by its name.\<close>

definition demo_ask :: "addr \<Rightarrow> u8" where
  "demo_ask = mem_poke 0x1000 (PREQ @ bytes_of ''sh'' @ [0]) (\<lambda>x. 0)"

lemma demo_ask_bytes: "mem_peek 0x1000 4 demo_ask = PREQ" "CHR 0x00 \<in> set (chars_of (mem_peek 0x1004 128 demo_ask))"
  "cstr (chars_of (mem_peek 0x1004 128 demo_ask)) = ''sh''"
proof -
  let ?b = "PREQ @ bytes_of ''sh'' @ [0]"
  have "mem_peek 0x1000 (4 + 3) demo_ask = ?b" unfolding demo_ask_def by (rule mem_peek_poke_same) (simp_all add: PREQ_def bytes_of_def)
  then have s: "mem_peek 0x1000 4 demo_ask @ mem_peek 0x1004 3 demo_ask = PREQ @ bytes_of ''sh'' @ [0]" unfolding mem_peek_add by simp
  then have e: "mem_peek 0x1000 4 demo_ask = PREQ" "mem_peek 0x1004 3 demo_ask = bytes_of ''sh'' @ [0]"
    using append_eq_append_conv [of "mem_peek 0x1000 4 demo_ask" PREQ "mem_peek 0x1004 3 demo_ask" "bytes_of ''sh'' @ [0]"]
    by (simp_all only: mem_peek_length) (simp_all add: PREQ_def bytes_of_def)
  have t: "mem_peek 0x1004 (3 + 125) demo_ask = bytes_of ''sh'' @ [0] @ mem_peek 0x1007 125 demo_ask" unfolding mem_peek_add e(2) by simp
  have "chars_of [0] = [CHR 0x00]" by (simp add: chars_of_def char_of_def)
  then have c: "chars_of (bytes_of ''sh'' @ [0] @ r) = ''sh'' @ CHR 0x00 # chars_of r" for r
    using chars_of_bytes [of "''sh''"] chars_of_append [of "[0]" r] by (simp add: chars_of_append)
  show "mem_peek 0x1000 4 demo_ask = PREQ" by (rule e(1))
  show "CHR 0x00 \<in> set (chars_of (mem_peek 0x1004 128 demo_ask))" "cstr (chars_of (mem_peek 0x1004 128 demo_ask)) = ''sh''"
    using t c by (simp_all add: cstr_def)
qed

theorem server_answers_witness:
  "\<exists>u s u1. u_msg 0x2000 u = Some \<lparr>dst = 1, src = 0, msgsz = 132, dat = 0x1000, kdat = 0\<rparr> \<and>
     handle_message demo_sv (\<lambda>r k. Some (r, k)) \<lparr>pr_name = [], pr_pid = 0, pr_refcount = 0\<rparr> 0x2000 (s, u) = Some (s, u1) \<and>
     mem_peek 0x1000 8 (k_vm (up_k u1)) = PREQ @ put32 7"
proof -
  obtain k :: "(addr \<Rightarrow> u8) ksys" where "kern_inv k" using demo_one_process by blast
  let ?m = "\<lparr>dst = 1, src = 0, msgsz = 132, dat = 0x1000, kdat = 0\<rparr>"
  let ?u = "demo_prog (k\<lparr>k_vm := demo_ask, k_msgs := [0x2000 \<mapsto> ?m]\<rparr>)" and ?s = "\<lparr>ps_procs = ps_procs demo_server, ps_root = ps_root demo_server, ps_heap = heap_setup True\<rparr>"
  have f: "flat_mem demo_sv" by (simp add: flat_mem_def demo_sv_def mem_peek_def mem_poke_def fun_eq_iff)
  have s: "server_ok ?s" using demo_server_ok by (simp add: server_ok_def)
  have m: "u_msg 0x2000 ?u = Some ?m" by (simp add: u_msg_def load_def demo_prog_k)
  have b: "mem_peek (dat ?m) 4 (k_vm (up_k ?u)) = PREQ" using demo_ask_bytes(1) by (simp add: demo_prog_k)
  have n: "CHR 0x00 \<in> set (chars_of (mem_peek (dat ?m + 4) 128 (k_vm (up_k ?u))))" using demo_ask_bytes(2) by (simp add: demo_prog_k)
  have "known_pid ?s (chars_of (mem_peek (dat ?m + 4) 128 (k_vm (up_k ?u)))) = 7"
    using demo_ask_bytes(3) by (simp add: demo_prog_k known_pid_def proc_name_def proc_pid_def demo_server_def cstr_def)
  then obtain u1 where u1: "handle_message demo_sv (\<lambda>r k. Some (r, k)) \<lparr>pr_name = [], pr_pid = 0, pr_refcount = 0\<rparr> 0x2000 (?s, ?u) =
      do { (r, u2) \<leftarrow> message_send (\<lambda>r k. Some (r, k)) 0x2000 (src ?m) u1; Some (?s, u2) }"
    "mem_peek (dat ?m) 8 (k_vm (up_k u1)) = PREQ @ put32 7"
    using server_answers [OF f s m b refl n, of "\<lambda>r k. Some (r, k)" "\<lparr>pr_name = [], pr_pid = 0, pr_refcount = 0\<rparr>"] by auto
  then have "handle_message demo_sv (\<lambda>r k. Some (r, k)) \<lparr>pr_name = [], pr_pid = 0, pr_refcount = 0\<rparr> 0x2000 (?s, ?u) = Some (?s, u1)"
    by (simp add: message_send_def micro_message_send_def syscall2_def int_4D_def)
  then show ?thesis using m u1(2) by force
qed

end
