(* ===== verification/InitMod.thy ===== *)
theory InitMod
  imports Msg_Props
begin

text \<open>
  The last module to start, \<^verbatim>\<open>module/init/main.c\<close>: it makes a process of the program \<^verbatim>\<open>init\<close> of the initial
  ramdisk. The files of the ramdisk lie at the addresses \<open>files 0\<close>, \<open>files 1\<close> and so on in the kernel submodule.
\<close>

text \<open>A panic halts the machine and has no result. The result of \<^verbatim>\<open>user_spawn\<close> is not looked at.\<close>

definition init_init :: "('h, 'v) services \<Rightarrow> addr \<Rightarrow> (nat \<Rightarrow> addr) \<Rightarrow> addr \<Rightarrow> ('h, 'v) kern \<Rightarrow> (int \<times> ('h, 'v) kern) option" where
  "init_init sv half files init_stk s = do {
     let i = find_file (sv_initrd sv) ''init'';
     if i < length (sv_initrd sv) then do {
       (u, s1) \<leftarrow> user_spawn sv half (files i) init_stk 16 0xFFFFFFFF s;
       Some (0, s1) }
     else None }"

lemma find_file_less: "find_file fs name < length fs \<longleftrightarrow> (\<exists>f \<in> set fs. f_name f = name)"
  by (induction fs) auto



end
