(* ===== verification/Devices.thy ===== *)
theory Devices
  imports Descriptors
begin

text \<open>
  The processor and the two timers' registers: \<^verbatim>\<open>module/cpu/main.c\<close>, \<^verbatim>\<open>module/pit/main.c\<close> and the registers of
  the local interrupt controller in \<^verbatim>\<open>module/apic/main.c\<close>. The hardware is an argument, the record \<open>hw\<close>, over a state
  \<open>'d\<close> of the devices: ports, memory-mapped registers and the instructions \<^verbatim>\<open>cpuid\<close>, \<^verbatim>\<open>rdmsr\<close> and \<^verbatim>\<open>wrmsr\<close>,
  which may raise an exception (\<open>None\<close>). An exception whose handler is missing is a panic and has no result.
\<close>

record 'd hw =
  hw_outb :: "u16 \<Rightarrow> u8 \<Rightarrow> 'd \<Rightarrow> 'd"
  hw_inb :: "u16 \<Rightarrow> 'd \<Rightarrow> u8 \<times> 'd"
  hw_store :: "addr \<Rightarrow> u32 \<Rightarrow> 'd \<Rightarrow> 'd"
  hw_fetch :: "addr \<Rightarrow> 'd \<Rightarrow> u32 \<times> 'd"
  hw_cpuid :: "u32 \<Rightarrow> (u32 \<times> u32 \<times> u32 \<times> u32) option"
  hw_rdmsr :: "u32 \<Rightarrow> 'd \<Rightarrow> (u32 \<times> u32) option"
  hw_wrmsr :: "u32 \<Rightarrow> u32 \<Rightarrow> u32 \<Rightarrow> 'd \<Rightarrow> 'd option"

text \<open>The state: \<^verbatim>\<open>cpuid_supported\<close>, \<^verbatim>\<open>msr_supported\<close>, the exception handlers, and the globals of \<^verbatim>\<open>apic\<close>.\<close>

record 'd machine =
  mc_cpuid :: bool
  mc_msr :: bool
  mc_isr :: handlers
  mc_apic :: bool
  mc_registry :: addr
  mc_dev :: 'd

text \<open>The addresses of \<^verbatim>\<open>_invl_opcode_hook\<close> and \<^verbatim>\<open>_gpf_apic_chk\<close>.\<close>

record hooks =
  hk_invl :: addr
  hk_gpf :: addr

definition CPUID_FEAT_EDX_MSR :: u32 where "CPUID_FEAT_EDX_MSR = push_bit 5 1"
definition CPUID_FEAT_EDX_APIC :: u32 where "CPUID_FEAT_EDX_APIC = push_bit 9 1"

subsection \<open>The processor\<close>

definition invl_opcode_hook :: "'d machine \<Rightarrow> 'd machine" where
  "invl_opcode_hook m = m\<lparr>mc_cpuid := False\<rparr>"

text \<open>
  The instruction \<^verbatim>\<open>cpuid\<close>. If the processor does not have it, exception 6 calls the handler and
  then comes back to the same instruction, because the handler leaves the saved \<^verbatim>\<open>eip\<close> alone.
\<close>

partial_function (option) run_cpuid :: "'d hw \<Rightarrow> hooks \<Rightarrow> u32 \<Rightarrow> 'd machine \<Rightarrow>
    ((u32 \<times> u32 \<times> u32 \<times> u32) \<times> 'd machine) option" where
  "run_cpuid hw hk code m =
     (case hw_cpuid hw code of
        Some r \<Rightarrow> Some (r, m)
      | None \<Rightarrow> do {
          h \<leftarrow> nth_opt (mc_isr m) 6;
          if h = hk_invl hk then run_cpuid hw hk code (invl_opcode_hook m) else None })"

text \<open>\<open>junk\<close> is what \<^verbatim>\<open>*a\<close> and \<^verbatim>\<open>*d\<close> held before.\<close>

definition cpuid :: "'d hw \<Rightarrow> hooks \<Rightarrow> u32 \<times> u32 \<Rightarrow> u32 \<Rightarrow> 'd machine \<Rightarrow> ((u32 \<times> u32) \<times> 'd machine) option" where
  "cpuid hw hk junk code m =
     (if \<not> mc_cpuid m then Some (junk, m)
      else do { ((a, b, c, d), m1) \<leftarrow> run_cpuid hw hk code m; Some ((a, d), m1) })"

text \<open>The four words of the buffer, in order.\<close>

definition cpuid_data :: "'d hw \<Rightarrow> hooks \<Rightarrow> u32 \<Rightarrow> u32 list \<Rightarrow> 'd machine \<Rightarrow> ((u32 \<times> u32 list) \<times> 'd machine) option" where
  "cpuid_data hw hk code buf m =
     (if \<not> mc_cpuid m then Some ((-1, buf), m)
      else do { ((a, b, c, d), m1) \<leftarrow> run_cpuid hw hk code m; Some ((a, [a, b, d, c] @ drop 4 buf), m1) })"

definition cpu_chk_msr :: "'d hw \<Rightarrow> hooks \<Rightarrow> u32 \<times> u32 \<Rightarrow> 'd machine \<Rightarrow> (bool \<times> 'd machine) option" where
  "cpu_chk_msr hw hk junk m =
     (if \<not> mc_cpuid m then Some (False, m)
      else do { ((a, d), m1) \<leftarrow> cpuid hw hk junk 1 m; Some (d AND CPUID_FEAT_EDX_MSR \<noteq> 0, m1) })"

text \<open>A general protection fault: \<^verbatim>\<open>_gpf_apic_chk\<close> steps over the two bytes of the instruction.\<close>

definition gpf_apic_chk :: "'d machine \<Rightarrow> 'd machine" where
  "gpf_apic_chk m = m\<lparr>mc_apic := False\<rparr>"

definition gp_fault :: "hooks \<Rightarrow> 'd machine \<Rightarrow> 'd machine option" where
  "gp_fault hk m = do { h \<leftarrow> nth_opt (mc_isr m) 13; if h = hk_gpf hk then Some (gpf_apic_chk m) else None }"

text \<open>\<open>junk\<close>: the values before, or those of the registers after a fault.\<close>

definition cpu_read_msr :: "'d hw \<Rightarrow> hooks \<Rightarrow> u32 \<times> u32 \<Rightarrow> u32 \<Rightarrow> 'd machine \<Rightarrow> ((u32 \<times> u32) \<times> 'd machine) option" where
  "cpu_read_msr hw hk junk num m =
     (if \<not> mc_msr m then Some (junk, m)
      else (case hw_rdmsr hw num (mc_dev m) of
          Some v \<Rightarrow> Some (v, m)
        | None \<Rightarrow> do { m1 \<leftarrow> gp_fault hk m; Some (junk, m1) }))"

text \<open>
  \<^verbatim>\<open>cpu_write_msr\<close> names its arguments as outputs of the instruction, so that \<^verbatim>\<open>eax\<close> and \<^verbatim>\<open>edx\<close>, which are
  written, hold whatever they held before: the pair \<open>regs\<close>.
\<close>

definition cpu_write_msr :: "'d hw \<Rightarrow> hooks \<Rightarrow> u32 \<times> u32 \<Rightarrow> u32 \<Rightarrow> u32 \<Rightarrow> u32 \<Rightarrow> 'd machine \<Rightarrow> 'd machine option" where
  "cpu_write_msr hw hk regs num lo hi m =
     (case hw_wrmsr hw num (fst regs) (snd regs) (mc_dev m) of
        Some d \<Rightarrow> Some (m\<lparr>mc_dev := d\<rparr>)
      | None \<Rightarrow> gp_fault hk m)"

definition cpu_init :: "'d hw \<Rightarrow> hooks \<Rightarrow> u32 \<times> u32 \<Rightarrow> 'd machine \<Rightarrow> (int \<times> 'd machine) option" where
  "cpu_init hw hk junk m = do {
     t \<leftarrow> isr_addHandler 6 (hk_invl hk) (mc_isr m);
     ((r, vendor), m1) \<leftarrow> cpuid_data hw hk 0 (replicate 5 0) (m\<lparr>mc_isr := t\<rparr>);
     t1 \<leftarrow> isr_addHandler 6 0 (mc_isr m1);
     (b, m2) \<leftarrow> cpu_chk_msr hw hk junk (m1\<lparr>mc_isr := t1\<rparr>);
     Some (0, m2\<lparr>mc_msr := b\<rparr>) }"

subsection \<open>The programmable interval timer\<close>

definition PIT_BASE_HZ :: u32 where "PIT_BASE_HZ = 1193182"
definition PIT_CH0_DATA :: u16 where "PIT_CH0_DATA = 0x40"
definition PIT_MCR :: u16 where "PIT_MCR = 0x43"

definition pit_read_count :: "'d hw \<Rightarrow> 'd \<Rightarrow> u16 \<times> 'd" where
  "pit_read_count hw d =
     (let d1 = hw_outb hw PIT_MCR 0 d;
          (lo, d2) = hw_inb hw PIT_CH0_DATA d1;
          (hi, d3) = hw_inb hw PIT_CH0_DATA d2
      in (ucast lo OR push_bit 8 (ucast hi), d3))"

definition pit_set_count :: "'d hw \<Rightarrow> u16 \<Rightarrow> 'd \<Rightarrow> 'd" where
  "pit_set_count hw rel d =
     (let d1 = hw_outb hw PIT_CH0_DATA (ucast (rel AND 0xFF)) d;
          rel1 = drop_bit 8 rel
      in hw_outb hw PIT_CH0_DATA (ucast (rel1 AND 0xFF)) d1)"

definition pit_set_mode :: "'d hw \<Rightarrow> u8 \<Rightarrow> 'd \<Rightarrow> 'd" where
  "pit_set_mode hw mode d = hw_outb hw PIT_MCR (0x30 OR push_bit 1 mode) d"

text \<open>Interrupts are off between the two writes.\<close>

definition pit_init :: "'d hw \<Rightarrow> intr \<Rightarrow> 'd \<Rightarrow> int \<times> intr \<times> 'd" where
  "pit_init hw i d =
     (let i1 = disable_interrupts i;
          div' = PIT_BASE_HZ div 100;
          d1 = hw_outb hw PIT_CH0_DATA (ucast (div' AND 0xFF)) d;
          d2 = hw_outb hw PIT_CH0_DATA (ucast (drop_bit 8 div')) d1
      in (0, enable_interrupts i1, d2))"

subsection \<open>The local interrupt controller\<close>

definition apic_write :: "'d hw \<Rightarrow> u16 \<Rightarrow> u32 \<Rightarrow> 'd machine \<Rightarrow> 'd machine" where
  "apic_write hw r val m = m\<lparr>mc_dev := hw_store hw (mc_registry m + ucast r) val (mc_dev m)\<rparr>"

definition apic_read :: "'d hw \<Rightarrow> u16 \<Rightarrow> 'd machine \<Rightarrow> u32 \<times> 'd machine" where
  "apic_read hw r m = (let (v, d) = hw_fetch hw (mc_registry m + ucast r) (mc_dev m) in (v, m\<lparr>mc_dev := d\<rparr>))"

definition apic_ack :: "'d hw \<Rightarrow> 'd machine \<Rightarrow> 'd machine" where
  "apic_ack hw m = apic_write hw 0xB0 0 m"

definition check_apic :: "'d hw \<Rightarrow> hooks \<Rightarrow> u32 \<times> u32 \<Rightarrow> 'd machine \<Rightarrow> (bool \<times> 'd machine) option" where
  "check_apic hw hk junk m = do {
     ((a, d), m1) \<leftarrow> cpuid hw hk junk 1 m;
     Some (d AND CPUID_FEAT_EDX_APIC \<noteq> 0, m1) }"

text \<open>The writes of \<^verbatim>\<open>apic_enable\<close> when the controller is there; \<^verbatim>\<open>disable_pic\<close> is empty.\<close>

definition apic_setup_regs :: "'d hw \<Rightarrow> hooks \<Rightarrow> u32 \<times> u32 \<Rightarrow> u32 \<times> u32 \<Rightarrow> 'd machine \<Rightarrow> 'd machine option" where
  "apic_setup_regs hw hk regs v m = (
     let m1 = apic_write hw 0xE0 0xFFFFFFFF m;
         (ldr, m2) = apic_read hw 0xD0 m1;
         m3 = apic_write hw 0xD0 ((ldr AND 0x00FFFFFF) OR 1) m2;
         m4 = apic_write hw 0x320 0x10000 m3;
         m5 = apic_write hw 0x340 (push_bit 8 4) m4;
         m6 = apic_write hw 0x350 0x10000 m5;
         m7 = apic_write hw 0x360 0x10000 m6;
         m8 = apic_write hw 0x80 0 m7
     in do {
       m9 \<leftarrow> cpu_write_msr hw hk regs 0x1B (fst v OR 0x800) (snd v) m8;
       let (spur, m10) = apic_read hw 0xF0 m9;
       Some (apic_write hw 0xF0 (spur OR 0x100) m10) })"

text \<open>\<open>junk\<close>, \<open>regs\<close> and \<open>regs1\<close> are the values of registers and variables that nothing sets.\<close>

definition apic_enable :: "'d hw \<Rightarrow> hooks \<Rightarrow> u32 \<times> u32 \<Rightarrow> u32 \<times> u32 \<Rightarrow> u32 \<times> u32 \<Rightarrow> 'd machine \<Rightarrow> 'd machine option" where
  "apic_enable hw hk junk regs regs1 m = do {
     t \<leftarrow> isr_addHandler 13 (hk_gpf hk) (mc_isr m);
     (v, m1) \<leftarrow> cpu_read_msr hw hk junk 0x1B (m\<lparr>mc_isr := t\<rparr>);
     m2 \<leftarrow> cpu_write_msr hw hk regs 0x1B (fst v) (snd v) m1;
     m3 \<leftarrow> (if mc_apic m2 then apic_setup_regs hw hk regs1 v m2 else Some m2);
     t1 \<leftarrow> isr_addHandler 13 0 (mc_isr m3);
     Some (m3\<lparr>mc_isr := t1\<rparr>) }"

end
