(* ===== verification/Devices_Props.thy ===== *)
theory Devices_Props
  imports Devices
begin

text \<open>
  The processor's and the interrupt controller's start: when they return, and what they do when an instruction
  is missing.
\<close>

lemma run_cpuid_has: "run_cpuid hw hk code m = Some x \<Longrightarrow> hw_cpuid hw code \<noteq> None"
proof (rule run_cpuid.raw_induct [where P = "\<lambda>hw hk code m x. hw_cpuid hw code \<noteq> None"])
  fix f hw hk code and m :: "'a machine" and x
  assume ih: "\<And>hw hk code m x. f hw hk code m = Some x \<Longrightarrow> hw_cpuid hw code \<noteq> None"
    and run: "(case hw_cpuid hw code of Some r \<Rightarrow> Some (r, m)
      | None \<Rightarrow> nth_opt (mc_isr m) 6 \<bind> (\<lambda>h. if h = hk_invl hk then f hw hk code (invl_opcode_hook m) else None)) = Some x"
  show "hw_cpuid hw code \<noteq> None"
    using ih [of hw hk code "invl_opcode_hook m" x] run
    by (cases "hw_cpuid hw code") (auto simp: Option.bind_eq_Some_conv split: if_splits)
qed

lemma run_cpuid_eq: "run_cpuid hw hk code m = map_option (\<lambda>r. (r, m)) (hw_cpuid hw code)"
proof (cases "hw_cpuid hw code")
  case None
  then show ?thesis using run_cpuid_has [of hw hk code m] by (cases "run_cpuid hw hk code m") auto
qed (subst run_cpuid.simps, simp)

lemma and_bit: "n < 32 \<Longrightarrow> w AND push_bit n 1 \<noteq> 0 \<longleftrightarrow> bit w n" for w :: u32
  using and_bitmask_zero [of n w] by (simp add: bitmask_def)

text \<open>
  C36 (termination): starting the module \<open>cpu\<close> ends just when the processor has the instruction \<^verbatim>\<open>cpuid\<close>. The handler
  that is meant to deal with processors that do not have it returns to the same instruction, again and again. When it
  ends, it has left no handler behind and knows from bit 5 whether there are model-specific registers.
\<close>

theorem cpu_init_ends_iff:
  assumes "length (mc_isr m) = 32" and "mc_cpuid m"
  shows "cpu_init hw hk junk m =
    (case (hw_cpuid hw 0, hw_cpuid hw 1) of
       (Some v, Some (a, b, c, d)) \<Rightarrow> Some (0, m\<lparr>mc_isr := (mc_isr m)[6 := 0], mc_msr := bit d 5\<rparr>)
     | _ \<Rightarrow> None)"
proof -
  have "d AND CPUID_FEAT_EDX_MSR \<noteq> 0 \<longleftrightarrow> bit d 5" for d unfolding CPUID_FEAT_EDX_MSR_def by (rule and_bit) simp
  then show ?thesis using assms
    by (cases "hw_cpuid hw 0"; cases "hw_cpuid hw 1")
      (auto simp: cpu_init_def isr_addHandler_def cpuid_data_def cpu_chk_msr_def cpuid_def run_cpuid_eq Let_def)
qed

theorem cpu_init_ends_iff_witness:
  "cpu_init \<lparr>hw_outb = \<lambda>p b d. d, hw_inb = \<lambda>p d. (0, d), hw_store = \<lambda>a v d. d, hw_fetch = \<lambda>a d. (0, d), hw_cpuid = \<lambda>c. None,
     hw_rdmsr = \<lambda>n d. None, hw_wrmsr = \<lambda>n a b d. None\<rparr> \<lparr>hk_invl = 1, hk_gpf = 2\<rparr> (0, 0)
     \<lparr>mc_cpuid = True, mc_msr = True, mc_isr = replicate 32 0, mc_apic = True, mc_registry = 0, mc_dev = ()\<rparr> = None"
  by (subst cpu_init_ends_iff) simp_all

text \<open>
  Enabling the interrupt controller on a processor without model-specific registers. Both accesses
  fault, the handler steps over them and clears \<^verbatim>\<open>apic_enabled\<close>; no register of the controller is touched and
  no handler is left behind.
\<close>

lemma apic_enable_without_msr:
  assumes "length (mc_isr m) = 32" and "mc_msr m"
    and "\<And>d. hw_rdmsr hw 0x1B d = None" and "\<And>a b d. hw_wrmsr hw 0x1B a b d = None"
  shows "apic_enable hw hk junk regs regs1 m = Some (m\<lparr>mc_isr := (mc_isr m)[13 := 0], mc_apic := False\<rparr>)"
  using assms by (simp add: apic_enable_def isr_addHandler_def cpu_read_msr_def cpu_write_msr_def gp_fault_def gpf_apic_chk_def)

lemma apic_enable_without_msr_witness:
  "\<exists>m. apic_enable \<lparr>hw_outb = \<lambda>p b d. d, hw_inb = \<lambda>p d. (0, d), hw_store = \<lambda>a v d. d @ [a], hw_fetch = \<lambda>a d. (0, d),
     hw_cpuid = \<lambda>c. Some (0, 0, 0, 0x200), hw_rdmsr = \<lambda>n d. None, hw_wrmsr = \<lambda>n a b d. None\<rparr> \<lparr>hk_invl = 1, hk_gpf = 2\<rparr> (0, 0) (0, 0) (0, 0)
     \<lparr>mc_cpuid = True, mc_msr = True, mc_isr = replicate 32 0, mc_apic = True, mc_registry = 0xE1000000, mc_dev = []\<rparr> = Some m \<and>
     mc_dev m = [] \<and> \<not> mc_apic m"
  by (subst apic_enable_without_msr) simp_all

end
