(* ===== verification/Acpi.thy ===== *)
theory Acpi
  imports Syscall Devices
begin

text \<open>
  Finding the tables of the firmware: \<^verbatim>\<open>module/acpi/rsdt.c\<close>, \<^verbatim>\<open>module/acpi/main.c\<close> and the search for the
  table of interrupt controllers in \<^verbatim>\<open>module/apic/main.c\<close>. All tables are read as bytes of the current address
  space; the pointers in the root table are replaced in place. \<open>virt_base\<close> is \<^verbatim>\<open>VIRT_BASE\<close> of the kernel submodule.
\<close>

subsection \<open>State\<close>

text \<open>The globals \<^verbatim>\<open>rsdpd\<close>, \<^verbatim>\<open>rsdt_ptrs\<close> and \<^verbatim>\<open>rsdt_entries\<close>, and those of \<^verbatim>\<open>apic\<close>.\<close>

record acpi =
  ac_rsdpd :: addr
  ac_ptrs :: addr
  ac_entries :: u32
  ac_madt :: addr
  ac_madt_entries :: addr

text \<open>The sizes of \<^verbatim>\<open>rsdp_descriptor_t\<close>, \<^verbatim>\<open>acpi_sdt_hdr_t\<close> and \<^verbatim>\<open>madt_t\<close>, and the offsets of the fields used.\<close>

definition rsdp_size :: nat where "rsdp_size = 20"
definition sdt_hdr_size :: u32 where "sdt_hdr_size = 36"
definition madt_size :: u32 where "madt_size = 44"

definition RSD_PTR :: "u8 list" where
  "RSD_PTR = map of_char ''RSD PTR ''"

definition sdt_len :: "('h, 'v) services \<Rightarrow> addr \<Rightarrow> 'v \<Rightarrow> u32 option" where
  "sdt_len sv hdr v = do { b \<leftarrow> sv_peek sv (hdr + 4) 4 v; Some (le32 b 0) }"

definition read32 :: "('h, 'v) services \<Rightarrow> addr \<Rightarrow> 'v \<Rightarrow> u32 option" where
  "read32 sv a v = do { b \<leftarrow> sv_peek sv a 4 v; Some (le32 b 0) }"

subsection \<open>Checksums\<close>

definition validate_acpi_table :: "('h, 'v) services \<Rightarrow> addr \<Rightarrow> 'v \<Rightarrow> bool option" where
  "validate_acpi_table sv hdr v = do {
     len \<leftarrow> sdt_len sv hdr v;
     bs \<leftarrow> sv_peek sv hdr (unat len) v;
     Some (foldl (+) 0 bs = 0) }"

text \<open>The sum of the root pointer is over \<^verbatim>\<open>char\<close>, which is signed, at 32 bits.\<close>

definition rsdp_sum :: "u8 list \<Rightarrow> u32" where
  "rsdp_sum bs = foldl (\<lambda>c b. c + scast b) 0 bs"

subsection \<open>The root pointer\<close>

partial_function (option) rsdp_loop :: "('h, 'v) services \<Rightarrow> 'v \<Rightarrow> addr \<Rightarrow> addr \<Rightarrow> addr option" where
  "rsdp_loop sv v i e =
     (if i < e then do {
        b \<leftarrow> sv_peek sv i 8 v;
        if b = RSD_PTR then Some i else rsdp_loop sv v (i + 16) e }
      else Some 0)"

text \<open>The name of the maker is copied for a message that is left out.\<close>

definition rsdp_oem :: "('h, 'v) services \<Rightarrow> addr \<Rightarrow> ('h, 'v) kern \<Rightarrow> ('h, 'v) kern option" where
  "rsdp_oem sv rsdp s = do {
     (oemid, s1) \<leftarrow> k_alloc sv 7 s;
     s2 \<leftarrow> k_store sv oemid (replicate 7 0) s1;
     b \<leftarrow> sv_peek sv (rsdp + 9) 6 (k_vm s2);
     s3 \<leftarrow> k_store sv oemid b s2;
     k_free sv oemid s3 }"

definition load_rsdp :: "('h, 'v) services \<Rightarrow> addr \<Rightarrow> acpi \<Rightarrow> ('h, 'v) kern \<Rightarrow> (acpi \<times> ('h, 'v) kern) option" where
  "load_rsdp sv virt_base ac s = do {
     f \<leftarrow> rsdp_loop sv (k_vm s) (0xE0000 + virt_base) (0xFFFFF + virt_base);
     let rsdpd = (if f \<noteq> 0 then f else ac_rsdpd ac);
     if rsdpd = 0 then Some (ac\<lparr>ac_rsdpd := 0\<rparr>, s)
     else do {
       bs \<leftarrow> sv_peek sv rsdpd rsdp_size (k_vm s);
       if rsdp_sum bs AND 0xFF \<noteq> 0 then Some (ac\<lparr>ac_rsdpd := 0\<rparr>, s)
       else do { s1 \<leftarrow> rsdp_oem sv rsdpd s; Some (ac\<lparr>ac_rsdpd := rsdpd\<rparr>, s1) } } }"

subsection \<open>The root table\<close>

text \<open>The pointers of the table, as the first loop reads them, and their least and greatest.\<close>

fun read_ptrs :: "('h, 'v) services \<Rightarrow> addr \<Rightarrow> nat \<Rightarrow> 'v \<Rightarrow> u32 list option" where
  "read_ptrs sv a 0 v = Some []"
| "read_ptrs sv a (Suc n) v = do { p \<leftarrow> read32 sv a v; ps \<leftarrow> read_ptrs sv (a + 4) n v; Some (p # ps) }"

definition ptr_range :: "u32 list \<Rightarrow> u32 \<times> u32" where
  "ptr_range ps = foldl (\<lambda>(mn, mx) p. (if p < mn then p else mn, if mx < p then p else mx)) (0xFFFFFFFF, 0) ps"

definition page_down :: "u32 \<Rightarrow> u32" where
  "page_down a = a - a mod 0x1000"

text \<open>Reserving and mapping the pages of the tables.\<close>

definition remap_tables :: "('h, 'v) services \<Rightarrow> u32 \<Rightarrow> addr \<Rightarrow> u32 \<Rightarrow> 'v \<Rightarrow> 'v option" where
  "remap_tables sv min_range remap sz v =
     page_loop (\<lambda>i v. do { v1 \<leftarrow> sv_resvpg sv (min_range + i) v; sv_remappg sv (min_range + i) (remap + i) 3 v1 }) 0 sz v"

text \<open>The last loop: each pointer is moved and its table checked; a table that is not valid is only reported.\<close>

fun relocate :: "('h, 'v) services \<Rightarrow> u32 \<Rightarrow> addr \<Rightarrow> addr \<Rightarrow> nat \<Rightarrow> 'v \<Rightarrow> 'v option" where
  "relocate sv min_range remap a 0 v = Some v"
| "relocate sv min_range remap a (Suc n) v = do {
     p \<leftarrow> read32 sv a v;
     v1 \<leftarrow> sv_poke sv a (put32 (remap + (p - min_range))) v;
     b \<leftarrow> validate_acpi_table sv (remap + (p - min_range)) v1;
     relocate sv min_range remap (a + 4) n v1 }"

definition k_alloc_a :: "('h, 'v) services \<Rightarrow> u32 \<Rightarrow> u32 \<Rightarrow> ('h, 'v) kern \<Rightarrow> (addr \<times> ('h, 'v) kern) option" where
  "k_alloc_a sv n a s = do {
     (p, h) \<leftarrow> sv_alloc_a sv n a (ls_heap (k_ls s));
     Some (p, s\<lparr>k_ls := (k_ls s)\<lparr>ls_heap := h\<rparr>\<rparr>) }"

definition load_rsdt :: "('h, 'v) services \<Rightarrow> acpi \<Rightarrow> ('h, 'v) kern \<Rightarrow> (acpi \<times> ('h, 'v) kern) option" where
  "load_rsdt sv ac s =
     (if ac_rsdpd ac = 0 then Some (ac, s)
      else do {
        rsdt_phys \<leftarrow> read32 sv (ac_rsdpd ac + 16) (k_vm s);
        v1 \<leftarrow> sv_resvpg sv rsdt_phys (k_vm s);
        (start, s1) \<leftarrow> k_alloc_a sv 0x1000 0x1000 (s\<lparr>k_vm := v1\<rparr>);
        (old, v2) \<leftarrow> sv_remappg sv rsdt_phys start 3 (k_vm s1);
        let rsdt_start = start + rsdt_phys mod 0x1000;
        rsdt_len \<leftarrow> sdt_len sv rsdt_start v2;
        let n = (rsdt_len - sdt_hdr_size) div 4;
        let ptrs = rsdt_start + sdt_hdr_size;
        ps \<leftarrow> read_ptrs sv ptrs (unat n) v2;
        let (mn, mx) = ptr_range ps;
        let min_range = page_down mn;
        let alloc_size = (mx div 4096 + 1) * 4096 - min_range;
        (remap, s2) \<leftarrow> k_alloc_a sv alloc_size 0x1000 (s1\<lparr>k_vm := v2\<rparr>);
        v3 \<leftarrow> remap_tables sv min_range remap alloc_size (k_vm s2);
        v4 \<leftarrow> relocate sv min_range remap ptrs (unat n) v3;
        Some (ac\<lparr>ac_ptrs := ptrs, ac_entries := n\<rparr>, s2\<lparr>k_vm := v4\<rparr>) })"

text \<open>The first table with a signature of 4 characters; \<^verbatim>\<open>strncmp\<close> is that of the kernel submodule.\<close>

fun find_table :: "('h, 'v) services \<Rightarrow> u8 list \<Rightarrow> addr \<Rightarrow> nat \<Rightarrow> 'v \<Rightarrow> addr option" where
  "find_table sv sig a 0 v = Some 0"
| "find_table sv sig a (Suc n) v = do {
     p \<leftarrow> read32 sv a v;
     b \<leftarrow> sv_peek sv p 4 v;
     if b = sig then Some p else find_table sv sig (a + 4) n v }"

definition rsdt_find_table :: "('h, 'v) services \<Rightarrow> u8 list \<Rightarrow> acpi \<Rightarrow> 'v \<Rightarrow> addr option" where
  "rsdt_find_table sv sig ac v = find_table sv sig (ac_ptrs ac) (unat (ac_entries ac)) v"

definition acpi_init :: "('h, 'v) services \<Rightarrow> addr \<Rightarrow> acpi \<Rightarrow> ('h, 'v) kern \<Rightarrow> (int \<times> acpi \<times> ('h, 'v) kern) option" where
  "acpi_init sv virt_base ac s = do {
     (ac1, s1) \<leftarrow> load_rsdp sv virt_base ac s;
     (ac2, s2) \<leftarrow> load_rsdt sv ac1 s1;
     Some (0, ac2, s2) }"

subsection \<open>The table of interrupt controllers\<close>

definition APIC_SIG :: "u8 list" where
  "APIC_SIG = map of_char ''APIC''"

partial_function (option) madt_loop :: "('h, 'v) services \<Rightarrow> addr \<Rightarrow> addr \<Rightarrow> addr \<Rightarrow> ('h, 'v) kern \<Rightarrow> ('h, 'v) kern option" where
  "madt_loop sv madt l entry s = do {
     len \<leftarrow> sdt_len sv madt (k_vm s);
     if entry < madt + len then do {
       (r, s1) \<leftarrow> k_push sv l entry s;
       b \<leftarrow> sv_peek sv (entry + 1) 1 (k_vm s1);
       madt_loop sv madt l (entry + ucast (b ! 0)) s1 }
     else Some s }"

definition acpi_find_madt :: "('h, 'v) services \<Rightarrow> acpi \<Rightarrow> ('h, 'v) kern \<Rightarrow> (acpi \<times> ('h, 'v) kern) option" where
  "acpi_find_madt sv ac s = do {
     madt \<leftarrow> rsdt_find_table sv APIC_SIG ac (k_vm s);
     if madt = 0 then Some (ac\<lparr>ac_madt := 0\<rparr>, s)
     else do {
       ok \<leftarrow> validate_acpi_table sv madt (k_vm s);
       if \<not> ok then Some (ac\<lparr>ac_madt := 0\<rparr>, s)
       else do {
         (l, s1) \<leftarrow> k_new_list sv s;
         s2 \<leftarrow> madt_loop sv madt l (madt + madt_size) s1;
         Some (ac\<lparr>ac_madt := madt, ac_madt_entries := l\<rparr>, s2) } } }"

text \<open>The registers of the controller get a page of the heap.\<close>

definition apic_setup :: "('h, 'v) services \<Rightarrow> 'd hw \<Rightarrow> hooks \<Rightarrow> u32 \<times> u32 \<Rightarrow> 'd machine \<Rightarrow> ('h, 'v) kern \<Rightarrow>
    ('d machine \<times> ('h, 'v) kern) option" where
  "apic_setup sv hw hk junk m s = do {
     (ok, m1) \<leftarrow> check_apic hw hk junk m;
     if \<not> ok then Some (m1, s)
     else do {
       (p, s1) \<leftarrow> k_alloc_a sv 0x1000 0x1000 s;
       (old, v) \<leftarrow> sv_remappg sv 0xFEE00000 p 3 (k_vm s1);
       Some (m1\<lparr>mc_registry := p\<rparr>, s1\<lparr>k_vm := v\<rparr>) } }"

definition apic_init :: "('h, 'v) services \<Rightarrow> 'd hw \<Rightarrow> hooks \<Rightarrow> (nat \<Rightarrow> u32 \<times> u32) \<Rightarrow> acpi \<Rightarrow> 'd machine \<Rightarrow> ('h, 'v) kern \<Rightarrow>
    (int \<times> acpi \<times> 'd machine \<times> ('h, 'v) kern) option" where
  "apic_init sv hw hk junk ac m s = do {
     (ac1, s1) \<leftarrow> acpi_find_madt sv ac s;
     if ac_madt ac1 = 0 then Some (0, ac1, m, s1)
     else do {
       (m1, s2) \<leftarrow> apic_setup sv hw hk (junk 0) m s1;
       m2 \<leftarrow> apic_enable hw hk (junk 1) (junk 2) (junk 3) m1;
       Some (0, ac1, m2, s2) } }"

end
