(* ===== verification/Acpi_Props.thy ===== *)
theory Acpi_Props
  imports Acpi FlatMem Kernel_Machine
begin

text \<open>
  What the search for the firmware's tables finds, that the tables can be read where they are mapped,
  and which entries of the table of interrupt controllers are listed.
\<close>

subsection \<open>The root pointer\<close>

lemma ucast_add_scast: "(ucast (c + scast b) :: u8) = ucast c + b" for c :: u32
proof -
  have d: "(ucast (word_of_int x :: u32) :: u8) = word_of_int x" for x by (rule ucast_down_wi) (simp add: is_down)
  have e: "word_of_int (uint c + sint b) = word_of_int (uint c) + (word_of_int (sint b) :: 'z::len word)" by (rule wi_hom_add [symmetric])
  have "c + scast b = word_of_int (uint c + sint b)" unfolding e scast_eq by (simp only: word_of_int_uint)
  then have "(ucast (c + scast b) :: u8) = word_of_int (uint c + sint b)" by (simp only: d)
  also have "\<dots> = ucast c + b" unfolding e ucast_eq by (simp add: scast_eq [symmetric] del: wi_hom_syms)
  finally show ?thesis .
qed

lemma and_ff: "w AND 0xFF = 0 \<longleftrightarrow> (ucast w :: u8) = 0" for w :: u32
proof -
  have "w AND 0xFF = w AND mask 8" by (simp add: mask_eq_exp_minus_1)
  also have "\<dots> = take_bit 8 w" by (simp add: take_bit_eq_mask)
  finally have "w AND 0xFF = take_bit 8 w" .
  moreover have "take_bit 8 w = 0 \<longleftrightarrow> (ucast w :: u8) = 0" by transfer simp
  ultimately show ?thesis by simp
qed

lemma rsdp_sum_u8: "rsdp_sum bs AND 0xFF = 0 \<longleftrightarrow> foldl (+) 0 bs = 0"
proof -
  have "ucast (foldl (\<lambda>c b. c + scast b) (c :: u32) bs) = foldl (+) (ucast c :: u8) bs" for c
  proof (induction bs arbitrary: c)
    case (Cons b bs)
    show ?case using Cons.IH [of "c + scast b"] by (simp add: ucast_add_scast)
  qed simp
  from this [of 0] have "ucast (rsdp_sum bs) = foldl (+) 0 bs" by (simp add: rsdp_sum_def)
  then show ?thesis by (simp add: and_ff)
qed

lemma rsdp_loop_find:
  assumes "flat_mem sv" and "unat e \<le> unat i + 16 * n" and "n \<noteq> 0 \<Longrightarrow> unat i + 16 * (n - 1) < unat e" and "unat i + 16 * n < 2 ^ 32"
  shows "rsdp_loop sv v i e =
    Some (case find (\<lambda>a. mem_peek a 8 v = RSD_PTR) (map (\<lambda>k. i + 16 * of_nat k) [0..<n]) of None \<Rightarrow> 0 | Some a \<Rightarrow> a)"
  using assms(2-)
proof (induction n arbitrary: i)
  case 0
  then show ?case by (subst rsdp_loop.simps) (simp add: word_less_nat_alt)
next
  case (Suc n)
  have pk: "sv_peek sv = (\<lambda>a n v. Some (mem_peek a n v))" using assms(1) by (simp add: flat_mem_def)
  have i: "i < e" using Suc.prems(2) by (simp add: word_less_nat_alt)
  have u: "unat (i + 16) = unat i + 16" using Suc.prems(3) by (simp add: unat_word_ariths)
  have l: "map (\<lambda>k. i + 16 * of_nat k) [0..<Suc n] = i # map (\<lambda>k. (i + 16) + 16 * of_nat k) [0..<n]"
    by (simp add: upt_conv_Cons map_Suc_upt [symmetric] algebra_simps comp_def del: upt_Suc)
  have "rsdp_loop sv v (i + 16) e =
    Some (case find (\<lambda>a. mem_peek a 8 v = RSD_PTR) (map (\<lambda>k. (i + 16) + 16 * of_nat k) [0..<n]) of None \<Rightarrow> 0 | Some a \<Rightarrow> a)"
    by (rule Suc.IH) (use Suc.prems u in \<open>auto simp: algebra_simps\<close>)
  then show ?case unfolding l by (subst rsdp_loop.simps) (simp add: pk i)
qed

text \<open>A block of the kernel heap lies above \<open>BIN_START\<close>, so that writing to it leaves what is below.\<close>

lemma mem_poke_below:
  assumes "unat x < unat p" and "unat p + length bs \<le> 2 ^ 32"
  shows "mem_poke p bs v x = v x"
proof -
  have "unat (x - p) = unat x + 2 ^ 32 - unat p" using assms(1) by (simp add: unat_sub_if_size word_size)
  then have "\<not> unat (x - p) < length bs" using assms by simp
  then show ?thesis by (simp only: mem_poke_def if_False)
qed

lemma rsdp_oem_ok:
  fixes s :: "(addr \<Rightarrow> u8) ksys"
  assumes "flat_mem sv" and "sv_alloc sv = kalloc" and "sv_free sv = kfree" and "kheap_inv (ls_heap (k_ls s))" and "kroom 16 1 s"
  shows "\<exists>h v. rsdp_oem sv r s = Some (s\<lparr>k_ls := (k_ls s)\<lparr>ls_heap := h\<rparr>, k_vm := v\<rparr>) \<and> kheap_inv h \<and> kheap_used h = kheap_used (ls_heap (k_ls s)) \<and>
    (\<forall>x. unat x < 0xE1000000 \<longrightarrow> v x = k_vm s x)"
proof -
  let ?h = "ls_heap (k_ls s)"
  have c: "roundup16 (unat (7 :: u32)) \<le> kheap_bytes_left ?h" "0 < kheap_allocs_left ?h" "(7 :: u32) \<noteq> 0"
    using assms(5) by (simp_all add: kroom_def roundup16_def)
  obtain p h1 m where p: "kalloc 7 ?h = Some (p, h1)" "kheap_inv h1" "unat (7 :: u32) \<le> m" "(unat p, m) \<notin> kheap_used ?h"
    "kheap_used h1 = insert (unat p, m) (kheap_used ?h)"
    using kh.alloc_ok [OF assms(4) c(3,1,2)] by blast
  have u: "(unat p, m) \<in> kheap_used h1" using p(5) by simp
  obtain h2 where h2: "kfree p h1 = Some h2" "kheap_inv h2" "kheap_used h2 = kheap_used h1 - {(unat p, m)}"
    using kh.free_ok [OF p(2) u] by blast
  have b: "0xE1000000 \<le> unat p" "unat p + 7 \<le> 2 ^ 32" using kheap_block_bounds [OF p(2) u] p(3) by simp_all
  let ?v1 = "mem_poke p (replicate 7 0) (k_vm s)"
  let ?v2 = "mem_poke p (mem_peek (r + 9) 6 ?v1) ?v1"
  have "rsdp_oem sv r s = Some (s\<lparr>k_ls := (k_ls s)\<lparr>ls_heap := h2\<rparr>, k_vm := ?v2\<rparr>)"
    using assms(1-3) p(1) h2(1) by (simp add: rsdp_oem_def k_alloc_def k_store_def k_free_def flat_mem_def)
  moreover have "?v2 x = k_vm s x" if "unat x < 0xE1000000" for x
    using mem_poke_below [of x p "replicate 7 0" "k_vm s"] mem_poke_below [of x p "mem_peek (r + 9) 6 ?v1" ?v1] b that by simp
  moreover have "kheap_used h2 = kheap_used ?h" using h2(3) p(4,5) by simp
  ultimately show ?thesis using h2(2) by blast
qed

definition rsdp_places :: "addr \<Rightarrow> addr list" where
  "rsdp_places vb = map (\<lambda>k. 0xE0000 + vb + 16 * of_nat k) [0..<0x2000]"

definition rsdp_at :: "addr \<Rightarrow> (addr \<Rightarrow> u8) \<Rightarrow> addr" where
  "rsdp_at vb v = (case find (\<lambda>a. mem_peek a 8 v = RSD_PTR) (rsdp_places vb) of None \<Rightarrow> 0
     | Some a \<Rightarrow> if foldl (+) 0 (mem_peek a 20 v) = 0 then a else 0)"

text \<open>
  C27 (functional): \<open>load_rsdp\<close> looks at the 8192 places from 0xE0000 to 0xFFFF0 above the base of the kernel, in steps of 16
  bytes, takes the first with the signature, and accepts it just when its 20 bytes sum up to 0 modulo 256; it
  does not look for another one then. The block it allocates meanwhile is given back, and memory below
  the kernel heap does not change.
\<close>

theorem load_rsdp_finds:
  fixes s :: "(addr \<Rightarrow> u8) ksys"
  assumes "flat_mem sv" and "sv_alloc sv = kalloc" and "sv_free sv = kfree" and "kheap_inv (ls_heap (k_ls s))" and "kroom 16 1 s"
    and "unat vb \<le> 0xFFE00000" and "ac_rsdpd ac = 0"
  shows "\<exists>h v. load_rsdp sv vb ac s = Some (ac\<lparr>ac_rsdpd := rsdp_at vb (k_vm s)\<rparr>, s\<lparr>k_ls := (k_ls s)\<lparr>ls_heap := h\<rparr>, k_vm := v\<rparr>) \<and>
    kheap_inv h \<and> kheap_used h = kheap_used (ls_heap (k_ls s)) \<and> (\<forall>x. unat x < 0xE1000000 \<longrightarrow> v x = k_vm s x)"
proof -
  let ?i = "0xE0000 + vb" and ?e = "0xFFFFF + vb" and ?P = "\<lambda>a. mem_peek a 8 (k_vm s) = RSD_PTR"
  have u: "unat ?i = 0xE0000 + unat vb" "unat ?e = 0xFFFFF + unat vb" using assms(6) by (simp_all add: unat_word_ariths)
  have f: "rsdp_loop sv (k_vm s) ?i ?e = Some (case find ?P (rsdp_places vb) of None \<Rightarrow> 0 | Some a \<Rightarrow> a)"
    unfolding rsdp_places_def by (rule rsdp_loop_find [OF assms(1)]) (use u assms(6) in simp_all)
  have pk: "sv_peek sv = (\<lambda>a n v. Some (mem_peek a n v))" using assms(1) by (simp add: flat_mem_def)
  have same: "s = s\<lparr>k_ls := (k_ls s)\<lparr>ls_heap := ls_heap (k_ls s)\<rparr>, k_vm := k_vm s\<rparr>" by simp
  show ?thesis
  proof (cases "find ?P (rsdp_places vb)")
    case None
    then have "load_rsdp sv vb ac s = Some (ac\<lparr>ac_rsdpd := rsdp_at vb (k_vm s)\<rparr>, s)" "rsdp_at vb (k_vm s) = 0"
      using f assms(7) by (simp_all add: load_rsdp_def rsdp_at_def)
    then show ?thesis using assms(4) same by (metis (no_types))
  next
    case (Some a)
    then have "a \<in> set (rsdp_places vb)" by (auto simp: find_Some_iff)
    then obtain k where k: "a = ?i + 16 * of_nat k" "k < 0x2000" by (auto simp: rsdp_places_def)
    have "unat (of_nat k :: u32) = k" using k(2) by (intro u32_of_nat) simp
    then have "unat a = 0xE0000 + unat vb + 16 * k" using k u(1) assms(6) by (simp add: unat_word_ariths)
    then have a: "a \<noteq> 0" by auto
    show ?thesis
    proof (cases "foldl (+) 0 (mem_peek a 20 (k_vm s)) = 0")
      case False
      then have "load_rsdp sv vb ac s = Some (ac\<lparr>ac_rsdpd := rsdp_at vb (k_vm s)\<rparr>, s)" "rsdp_at vb (k_vm s) = 0"
        using f Some a by (simp_all add: load_rsdp_def rsdp_at_def pk rsdp_sum_u8 rsdp_size_def Let_def)
      then show ?thesis using assms(4) same by (metis (no_types))
    next
      case True
      then have "load_rsdp sv vb ac s = do { s1 \<leftarrow> rsdp_oem sv a s; Some (ac\<lparr>ac_rsdpd := rsdp_at vb (k_vm s)\<rparr>, s1) }"
        using f Some a by (simp add: load_rsdp_def rsdp_at_def pk rsdp_sum_u8 rsdp_size_def Let_def)
      moreover obtain h v where "rsdp_oem sv a s = Some (s\<lparr>k_ls := (k_ls s)\<lparr>ls_heap := h\<rparr>, k_vm := v\<rparr>)" "kheap_inv h"
        "kheap_used h = kheap_used (ls_heap (k_ls s))" "\<forall>x. unat x < 0xE1000000 \<longrightarrow> v x = k_vm s x"
        using rsdp_oem_ok [OF assms(1-5), of a] by blast
      ultimately show ?thesis by (intro exI [of _ h] exI [of _ v]) simp
    qed
  qed
qed

text \<open>A root pointer at the first place that is looked at.\<close>

definition demo_rom :: "addr \<Rightarrow> u8" where
  "demo_rom = mem_poke 0xE0000 (RSD_PTR @ 0xE1 # replicate 11 0) (\<lambda>a. 0)"

theorem load_rsdp_finds_witness:
  "\<exists>ac' s'. load_rsdp demo_sv 0 \<lparr>ac_rsdpd = 0, ac_ptrs = 0, ac_entries = 0, ac_madt = 0, ac_madt_entries = 0\<rparr> (demo_start\<lparr>k_vm := demo_rom\<rparr>) = Some (ac', s') \<and>
    ac_rsdpd ac' = 0xE0000"
proof -
  let ?s = "demo_start\<lparr>k_vm := demo_rom\<rparr>" and ?ac = "\<lparr>ac_rsdpd = 0, ac_ptrs = 0, ac_entries = 0, ac_madt = 0, ac_madt_entries = 0\<rparr>"
  have sv: "flat_mem demo_sv" "sv_alloc demo_sv = kalloc" "sv_free demo_sv = kfree"
    by (simp_all add: flat_mem_def demo_sv_def mem_peek_def mem_poke_def fun_eq_iff)
  have i: "kheap_inv (ls_heap (k_ls ?s))" "kroom 16 1 ?s"
    using demo_bytes heap_init_inv [OF demo_fresh(2)] by (simp_all add: demo_start_def no_lists_def kroom_def)
  have v: "unat (0 :: addr) \<le> 0xFFE00000" "ac_rsdpd ?ac = 0" by simp_all
  have b: "mem_peek 0xE0000 20 demo_rom = RSD_PTR @ 0xE1 # replicate 11 0" unfolding demo_rom_def
    by (rule mem_peek_poke_same) (simp_all add: RSD_PTR_def)
  have "mem_peek 0xE0000 8 demo_rom @ mem_peek (0xE0000 + of_nat 8) 12 demo_rom = mem_peek 0xE0000 20 demo_rom"
    using mem_peek_add [of "0xE0000" 8 12 demo_rom] by simp
  then have p: "mem_peek 0xE0000 8 demo_rom = RSD_PTR" unfolding b by (rule append_eq_append_conv [THEN iffD1, THEN conjunct1, rotated]) (simp add: RSD_PTR_def)
  have u: "[0..<0x2000] = 0 # [1..<0x2000]" by (subst upt_conv_Cons) simp_all
  have z: "replicate 11 (0 :: u8) = [0, 0, 0, 0, 0, 0, 0, 0, 0, 0, 0]" by (simp add: numeral_eq_Suc)
  have "rsdp_at 0 demo_rom = 0xE0000"
    unfolding rsdp_at_def rsdp_places_def u by (simp add: p b) (simp add: RSD_PTR_def z)
  then show ?thesis using load_rsdp_finds [OF sv i v] by auto
qed

subsection \<open>Memory behind page tables\<close>

text \<open>
  The memory of a processor with paging: \<open>mm_frame\<close> leads from the first address of a page to that of its frame,
  \<open>mm_ram\<close> is the memory of the machine. \<open>remappg\<close> changes where a page leads.
\<close>

record mmu =
  mm_frame :: "addr \<Rightarrow> addr"
  mm_ram :: "addr \<Rightarrow> u8"

definition phys_of :: "addr \<Rightarrow> mmu \<Rightarrow> addr" where
  "phys_of a m = mm_frame m (page_down a) + a mod 0x1000"

definition mmu_peek :: "addr \<Rightarrow> nat \<Rightarrow> mmu \<Rightarrow> u8 list" where
  "mmu_peek a n m = map (\<lambda>i. mm_ram m (phys_of (a + of_nat i) m)) [0..<n]"

fun mmu_poke :: "addr \<Rightarrow> u8 list \<Rightarrow> mmu \<Rightarrow> mmu" where
  "mmu_poke a [] m = m"
| "mmu_poke a (b # bs) m = mmu_poke (a + 1) bs (m\<lparr>mm_ram := (mm_ram m)(phys_of a m := b)\<rparr>)"

definition mmu_remap :: "addr \<Rightarrow> addr \<Rightarrow> mmu \<Rightarrow> mmu" where
  "mmu_remap p a m = m\<lparr>mm_frame := (mm_frame m)(page_down a := page_down p)\<rparr>"

definition paged_mem :: "('h, mmu) services \<Rightarrow> bool" where
  "paged_mem sv \<longleftrightarrow> sv_peek sv = (\<lambda>a n m. Some (mmu_peek a n m)) \<and> sv_poke sv = (\<lambda>a bs m. Some (mmu_poke a bs m)) \<and>
     sv_remappg sv = (\<lambda>p a f m. Some (0, mmu_remap p a m)) \<and> sv_resvpg sv = (\<lambda>a m. Some m)"

lemma phys_of_ram [simp]: "phys_of a (m\<lparr>mm_ram := r\<rparr>) = phys_of a m"
  by (simp add: phys_of_def)

lemma page_parts:
  fixes b :: u32
  assumes "unat b mod 0x1000 = 0" and "j < 0x1000"
  shows "page_down (b + of_nat j) = b" "(b + of_nat j) mod 0x1000 = of_nat j" "unat (b + of_nat j) = unat b + j"
proof -
  have j: "unat (of_nat j :: u32) = j" using assms(2) by (intro u32_of_nat) simp
  obtain k where k: "unat b = 0x1000 * k" using assms(1) by auto
  have "k < 0x100000" using u32_bound [of b] k by simp
  then have n: "unat b + j < 2 ^ 32" using k assms(2) by simp
  then show u: "unat (b + of_nat j) = unat b + j" using j by (simp add: unat_word_ariths)
  have "unat ((b + of_nat j) mod 0x1000) = j" using u k assms(2) by (simp add: unat_mod)
  then show m: "(b + of_nat j) mod 0x1000 = of_nat j" using j by (metis word_unat_eq_iff)
  show "page_down (b + of_nat j) = b" using m by (simp add: page_down_def)
qed

text \<open>Within a range of addresses that leads to consecutive ones, all is as in a flat memory.\<close>

lemma mmu_peek_flat:
  assumes "\<And>j. j < n \<Longrightarrow> phys_of (a + of_nat j) m = p + of_nat j"
  shows "mmu_peek a n m = mem_peek p n (mm_ram m)"
  using assms by (simp add: mmu_peek_def mem_peek_def)

lemma mmu_poke_flat:
  assumes "\<And>j. j < length bs \<Longrightarrow> phys_of (a + of_nat j) m = p + of_nat j" and "length bs < 2 ^ 32"
  shows "mmu_poke a bs m = m\<lparr>mm_ram := mem_poke p bs (mm_ram m)\<rparr>"
  using assms
proof (induction bs arbitrary: a p m)
  case Nil
  then show ?case by (simp add: mem_poke_def)
next
  case (Cons b bs)
  let ?m = "m\<lparr>mm_ram := (mm_ram m)(p := b)\<rparr>"
  have "phys_of (a + 1 + of_nat j) ?m = p + 1 + of_nat j" if "j < length bs" for j
    using Cons.prems(1) [of "Suc j"] that by (simp add: algebra_simps)
  from Cons.IH [OF this] have ih: "mmu_poke (a + 1) bs ?m = ?m\<lparr>mm_ram := mem_poke (p + 1) bs ((mm_ram m)(p := b))\<rparr>"
    using Cons.prems(2) by (simp add: fun_upd_def)
  have "mem_poke (p + 1) bs ((mm_ram m)(p := b)) x = mem_poke p (b # bs) (mm_ram m) x" for x
  proof (cases "x = p")
    case True
    have "p - (p + 1) = (0xFFFFFFFF :: u32)" by simp
    then have "\<not> unat (p - (p + 1)) < length bs" using Cons.prems(2) by (simp only: \<open>p - (p + 1) = _\<close>) simp
    then show ?thesis unfolding mem_poke_def True by (simp only: if_False) simp
  next
    case False
    then have "unat (x - p) \<noteq> 0" by (simp add: unat_eq_zero)
    then have "unat (x - p) = Suc (unat (x - (p + 1)))" using u32_dec [of "x - p"] by (simp add: diff_diff_eq)
    then show ?thesis using False by (simp add: mem_poke_def)
  qed
  then have "mem_poke (p + 1) bs ((mm_ram m)(p := b)) = mem_poke p (b # bs) (mm_ram m)" by blast
  moreover have "phys_of a m = p" using Cons.prems(1) [of 0] by simp
  ultimately show ?case using ih by simp
qed

end
