(* ===== verification/Acpi_Tables.thy ===== *)
theory Acpi_Tables
  imports Acpi_Props
begin

text \<open>
  The tables behind the root table: after \<open>load_rsdt\<close> each can be read at the address that its pointer was changed to.
\<close>

subsection \<open>Ranges of addresses that lead to consecutive ones\<close>

definition leads :: "addr \<Rightarrow> addr \<Rightarrow> nat \<Rightarrow> mmu \<Rightarrow> bool" where
  "leads a p n m \<longleftrightarrow> (\<forall>j < n. phys_of (a + of_nat j) m = p + of_nat j)"

lemma leads_part: "leads a p n m \<Longrightarrow> k + i \<le> n \<Longrightarrow> leads (a + of_nat k) (p + of_nat k) i m"
  unfolding leads_def
proof (intro allI impI)
  fix j assume h: "\<forall>j < n. phys_of (a + of_nat j) m = p + of_nat j" "k + i \<le> n" "j < i"
  have "phys_of (a + of_nat (k + j)) m = p + of_nat (k + j)" by (rule h(1) [rule_format]) (use h(2,3) in simp)
  then show "phys_of (a + of_nat k + of_nat j) m = p + of_nat k + of_nat j" by (simp only: of_nat_add add.assoc)
qed

lemma leads_ram [simp]: "leads a p n (m\<lparr>mm_ram := r\<rparr>) \<longleftrightarrow> leads a p n m"
  by (simp add: leads_def)

lemma leads_page:
  assumes "mm_frame m pg = page_down p" and "unat pg mod 0x1000 = 0" and "unat p mod 0x1000 + n \<le> 0x1000"
  shows "leads (pg + p mod 0x1000) p n m"
  unfolding leads_def
proof (intro allI impI)
  fix j assume "j < n"
  then have l: "unat p mod 0x1000 + j < 0x1000" using assms(3) by simp
  let ?r = "unat p mod 0x1000"
  have "unat (of_nat ?r :: u32) = ?r" using l by (intro u32_of_nat) simp
  then have r: "p mod 0x1000 = of_nat ?r" by (simp add: word_unat_eq_iff unat_mod)
  have a: "pg + p mod 0x1000 + of_nat j = pg + of_nat (?r + j)" unfolding r by simp
  have "phys_of (pg + of_nat (?r + j)) m = page_down p + of_nat (?r + j)"
    using page_parts [OF assms(2) l] assms(1) by (simp add: phys_of_def)
  also have "\<dots> = page_down p + p mod 0x1000 + of_nat j" unfolding r by simp
  also have "page_down p + p mod 0x1000 = p" by (simp add: page_down_def)
  finally show "phys_of (pg + p mod 0x1000 + of_nat j) m = p + of_nat j" unfolding a .
qed

subsection \<open>Reading the pointers\<close>

definition word_at :: "addr \<Rightarrow> nat \<Rightarrow> (addr \<Rightarrow> u8) \<Rightarrow> u32" where
  "word_at p j v = le32 (mem_peek (p + 4 * of_nat j) 4 v) 0"

lemma word_at_Suc: "word_at p (Suc j) v = word_at (p + 4) j v"
  by (simp add: word_at_def algebra_simps)

lemma read32_leads:
  assumes "paged_mem sv" and "leads a p 4 m"
  shows "read32 sv a m = Some (word_at p 0 (mm_ram m))"
  using mmu_peek_flat [of 4 a m p] assms by (simp add: read32_def paged_mem_def leads_def word_at_def)

lemma read_ptrs_leads:
  assumes "paged_mem sv" and "leads a p (4 * n) m"
  shows "read_ptrs sv a n m = Some (map (\<lambda>j. word_at p j (mm_ram m)) [0..<n])"
  using assms(2)
proof (induction n arbitrary: a p)
  case (Suc n)
  have "leads a p 4 m" using leads_part [OF Suc.prems, of 0 4] by simp
  moreover have "leads (a + 4) (p + 4) (4 * n) m" using leads_part [OF Suc.prems, of 4 "4 * n"] by simp
  moreover have "map (\<lambda>j. word_at p j (mm_ram m)) [0..<Suc n] = word_at p 0 (mm_ram m) # map (\<lambda>j. word_at (p + 4) j (mm_ram m)) [0..<n]"
    by (simp add: upt_conv_Cons map_Suc_upt [symmetric] comp_def word_at_Suc del: upt_Suc)
  ultimately show ?case using read32_leads [OF assms(1)] Suc.IH [of "a + 4" "p + 4"] by simp
qed simp

subsection \<open>Moving the pointers\<close>

lemma validate_paged: "paged_mem sv \<Longrightarrow> \<exists>b. validate_acpi_table sv h m = Some b"
  by (simp add: validate_acpi_table_def sdt_len_def paged_mem_def)

lemma word_at_same:
  assumes "\<And>i. i < 4 \<Longrightarrow> v (p + 4 * of_nat j + of_nat i) = w (p + 4 * of_nat j + of_nat i)"
  shows "word_at p j v = word_at p j w"
proof -
  have "mem_peek (p + 4 * of_nat j) 4 v = mem_peek (p + 4 * of_nat j) 4 w"
    unfolding mem_peek_def by (rule map_cong) (use assms in simp_all)
  then show ?thesis by (simp only: word_at_def)
qed

lemma relocate_leads:
  assumes "paged_mem sv" and "leads a p (4 * n) m" and "4 * n < 2 ^ 32"
  shows "\<exists>r. relocate sv mn remap a n m = Some (m\<lparr>mm_ram := r\<rparr>) \<and>
    (\<forall>j < n. word_at p j r = remap + (word_at p j (mm_ram m) - mn)) \<and> (\<forall>x. 4 * n \<le> unat (x - p) \<longrightarrow> r x = mm_ram m x)"
  using assms(2,3)
proof (induction n arbitrary: a p m)
  case 0
  then show ?case by (auto intro: exI [of _ "mm_ram m"])
next
  case (Suc n)
  let ?q = "remap + (word_at p 0 (mm_ram m) - mn)" and ?ram = "mm_ram m"
  let ?r1 = "mem_poke p (put32 ?q) ?ram"
  have l: "leads a p 4 m" "leads (a + 4) (p + 4) (4 * n) m"
    using leads_part [OF Suc.prems(1), of 0 4] leads_part [OF Suc.prems(1), of 4 "4 * n"] by simp_all
  have k: "mmu_poke a (put32 ?q) m = m\<lparr>mm_ram := ?r1\<rparr>" using mmu_poke_flat [of "put32 ?q" a m p] l(1) by (simp add: leads_def)
  have "leads (a + 4) (p + 4) (4 * n) (m\<lparr>mm_ram := ?r1\<rparr>)" using l(2) by simp
  from Suc.IH [OF this] Suc.prems(2) obtain r where r: "relocate sv mn remap (a + 4) n (m\<lparr>mm_ram := ?r1\<rparr>) = Some (m\<lparr>mm_ram := r\<rparr>)"
    "\<forall>j < n. word_at (p + 4) j r = remap + (word_at (p + 4) j ?r1 - mn)" "\<forall>x. 4 * n \<le> unat (x - (p + 4)) \<longrightarrow> r x = ?r1 x"
    by auto
  obtain b where b: "validate_acpi_table sv (remap + (word_at p 0 ?ram - mn)) (m\<lparr>mm_ram := ?r1\<rparr>) = Some b"
    using validate_paged [OF assms(1)] by blast
  have "relocate sv mn remap a (Suc n) m = Some (m\<lparr>mm_ram := r\<rparr>)"
    using read32_leads [OF assms(1) l(1)] k r(1) b assms(1) by (simp add: paged_mem_def)
  moreover have "word_at p j r = remap + (word_at p j ?ram - mn)" if j: "j < Suc n" for j
  proof (cases j)
    case 0
    have "word_at p 0 r = word_at p 0 ?r1"
    proof (rule word_at_same)
      fix i :: nat assume i: "i < 4"
      have "p + 4 * of_nat 0 + of_nat i - (p + 4) = of_nat i - (4 :: u32)" by simp
      moreover have "unat (of_nat i - (4 :: u32)) = i + 2 ^ 32 - 4" using i u32_of_nat [of i] by (simp add: unat_sub_if_size word_size)
      ultimately have "4 * n \<le> unat (p + 4 * of_nat 0 + of_nat i - (p + 4))" using Suc.prems(2) i by simp
      then show "r (p + 4 * of_nat 0 + of_nat i) = ?r1 (p + 4 * of_nat 0 + of_nat i)" using r(3) by blast
    qed
    also have "\<dots> = ?q" using mem_peek_poke_same [of "put32 ?q" 4 p ?ram] by (simp add: word_at_def)
    finally show ?thesis using 0 by simp
  next
    case (Suc i)
    have "word_at (p + 4) i ?r1 = word_at (p + 4) i ?ram"
    proof (rule word_at_same)
      fix d :: nat assume d: "d < 4"
      have "unat (of_nat (4 + 4 * i + d) :: u32) = 4 + 4 * i + d" using j Suc d Suc.prems(2) by (intro u32_of_nat) simp
      moreover have "p + 4 + 4 * of_nat i + of_nat d - p = (of_nat (4 + 4 * i + d) :: u32)" by simp
      ultimately have "\<not> unat (p + 4 + 4 * of_nat i + of_nat d - p) < length (put32 ?q)" by (simp only: put32_length)
      then show "?r1 (p + 4 + 4 * of_nat i + of_nat d) = ?ram (p + 4 + 4 * of_nat i + of_nat d)" by (simp only: mem_poke_def if_False)
    qed
    then show ?thesis using r(2) j Suc by (simp add: word_at_Suc)
  qed
  moreover have "r x = ?ram x" if x: "4 * Suc n \<le> unat (x - p)" for x
  proof -
    have "unat (x - p - 4) = unat (x - p) - 4" using x by (simp add: unat_sub_if_size)
    then have "4 * n \<le> unat (x - (p + 4))" using x by (simp add: diff_diff_eq)
    then have "r x = ?r1 x" using r(3) by blast
    also have "\<dots> = ?ram x" using x by (simp add: mem_poke_def)
    finally show ?thesis .
  qed
  ultimately show ?case by blast
qed

subsection \<open>Mapping the tables\<close>

lemma page_loop_fold:
  assumes "\<And>i v. \<exists>r. f i v = Some (r, g i v)" and "0x1000 * (i + n) < 2 ^ 32"
  shows "page_loop f (of_nat (0x1000 * i)) (of_nat (0x1000 * (i + n))) v = Some (fold (\<lambda>j. g (of_nat (0x1000 * j))) [i..<i + n] v)"
  using assms(2)
proof (induction n arbitrary: i v)
  case 0
  then show ?case by (subst page_loop.simps) simp
next
  case (Suc n)
  have "unat (of_nat (0x1000 * i) :: u32) = 0x1000 * i" "unat (of_nat (0x1000 * (i + Suc n)) :: u32) = 0x1000 * (i + Suc n)"
    using Suc.prems by (intro u32_of_nat; simp)+
  then have l: "(of_nat (0x1000 * i) :: u32) < of_nat (0x1000 * (i + Suc n))" unfolding word_less_nat_alt by simp
  obtain r where r: "f (of_nat (0x1000 * i)) v = Some (r, g (of_nat (0x1000 * i)) v)" using assms(1) by blast
  have s: "(of_nat (0x1000 * i) :: u32) + 0x1000 = of_nat (0x1000 * Suc i)" "i + Suc n = Suc i + n" by (simp_all add: algebra_simps)
  have ih: "page_loop f (of_nat (0x1000 * Suc i)) (of_nat (0x1000 * (Suc i + n))) (g (of_nat (0x1000 * i)) v) =
    Some (fold (\<lambda>j. g (of_nat (0x1000 * j))) [Suc i..<Suc i + n] (g (of_nat (0x1000 * i)) v))"
    by (rule Suc.IH) (use Suc.prems in simp)
  have u: "[i..<Suc i + n] = i # [Suc i..<Suc i + n]" by (rule upt_conv_Cons) simp
  have "page_loop f (of_nat (0x1000 * i)) (of_nat (0x1000 * (Suc i + n))) v =
      page_loop f (of_nat (0x1000 * Suc i)) (of_nat (0x1000 * (Suc i + n))) (g (of_nat (0x1000 * i)) v)"
    unfolding s(1) [symmetric] by (subst page_loop.simps) (use l r s(2) in simp)
  then show ?case unfolding s(2) ih u by simp
qed

text \<open>The frames of the pages after the loop.\<close>

lemma fold_frames:
  assumes "unat remap mod 0x1000 = 0" and "unat mn mod 0x1000 = 0" and "unat remap + 0x1000 * k \<le> 2 ^ 32" "unat mn + 0x1000 * k \<le> 2 ^ 32"
  shows "\<exists>fr. fold (\<lambda>j. mmu_remap (mn + of_nat (0x1000 * j)) (remap + of_nat (0x1000 * j))) [0..<k] m = m\<lparr>mm_frame := fr\<rparr> \<and>
    (\<forall>j < k. fr (remap + of_nat (0x1000 * j)) = mn + of_nat (0x1000 * j)) \<and>
    (\<forall>a. (\<forall>j < k. unat a \<noteq> unat remap + 0x1000 * j) \<longrightarrow> fr a = mm_frame m a)"
  using assms(3,4)
proof (induction k)
  case 0
  then show ?case by (auto intro: exI [of _ "mm_frame m"])
next
  case (Suc k)
  then obtain fr where fr: "fold (\<lambda>j. mmu_remap (mn + of_nat (0x1000 * j)) (remap + of_nat (0x1000 * j))) [0..<k] m = m\<lparr>mm_frame := fr\<rparr>"
    "\<forall>j < k. fr (remap + of_nat (0x1000 * j)) = mn + of_nat (0x1000 * j)" "\<forall>a. (\<forall>j < k. unat a \<noteq> unat remap + 0x1000 * j) \<longrightarrow> fr a = mm_frame m a"
    by auto
  have u: "unat (b + of_nat (0x1000 * j)) = unat b + 0x1000 * j" if "unat b + 0x1000 * Suc k \<le> 2 ^ 32" "j \<le> k" for b :: u32 and j
  proof -
    have "unat (of_nat (0x1000 * j) :: u32) = 0x1000 * j" using that by (intro u32_of_nat) simp
    then show ?thesis using that by (simp add: unat_word_ariths)
  qed
  have pd: "page_down (b + of_nat (0x1000 * k)) = b + of_nat (0x1000 * k)" if "unat b mod 0x1000 = 0" "unat b + 0x1000 * Suc k \<le> 2 ^ 32" for b
    using page_parts(1) [of "b + of_nat (0x1000 * k)" 0] u [OF that(2), of k] that(1) by simp
  let ?a = "remap + of_nat (0x1000 * k)" and ?p = "mn + of_nat (0x1000 * k)"
  let ?fr = "fr(?a := ?p)"
  have "fold (\<lambda>j. mmu_remap (mn + of_nat (0x1000 * j)) (remap + of_nat (0x1000 * j))) [0..<Suc k] m = m\<lparr>mm_frame := ?fr\<rparr>"
    using fr(1) pd [OF assms(1) Suc.prems(1)] pd [OF assms(2) Suc.prems(2)] by (simp add: mmu_remap_def)
  moreover have "?fr (remap + of_nat (0x1000 * j)) = mn + of_nat (0x1000 * j)" if j: "j < Suc k" for j
  proof (cases "j = k")
    case False
    then have "unat (remap + of_nat (0x1000 * j)) \<noteq> unat ?a" using u [OF Suc.prems(1), of j] u [OF Suc.prems(1), of k] j by simp
    then have "remap + of_nat (0x1000 * j) \<noteq> ?a" by auto
    then show ?thesis using fr(2) False j by simp
  qed simp
  moreover have "?fr a = mm_frame m a" if h: "\<forall>j < Suc k. unat a \<noteq> unat remap + 0x1000 * j" for a
  proof -
    have "unat a \<noteq> unat ?a" using h u [OF Suc.prems(1), of k] by simp
    then have "a \<noteq> ?a" by auto
    then show ?thesis using fr(3) h by simp
  qed
  ultimately show ?case by blast
qed

lemma remap_tables_leads:
  assumes "paged_mem sv" and "unat remap mod 0x1000 = 0" and "unat mn mod 0x1000 = 0"
    and "unat remap + 0x1000 * k \<le> 2 ^ 32" "unat mn + 0x1000 * k \<le> 2 ^ 32" "0x1000 * k < 2 ^ 32"
  shows "\<exists>fr. remap_tables sv mn remap (of_nat (0x1000 * k)) m = Some (m\<lparr>mm_frame := fr\<rparr>) \<and>
    (\<forall>r. leads remap mn (0x1000 * k) (m\<lparr>mm_frame := fr, mm_ram := r\<rparr>)) \<and>
    (\<forall>a. unat a < unat remap \<or> unat remap + 0x1000 * k \<le> unat a \<longrightarrow> fr a = mm_frame m a)"
proof -
  let ?f = "\<lambda>i v. do { v1 \<leftarrow> sv_resvpg sv (mn + i) v; sv_remappg sv (mn + i) (remap + i) 3 v1 }"
  have f: "\<exists>r. ?f i v = Some (r, mmu_remap (mn + i) (remap + i) v)" for i v using assms(1) by (simp add: paged_mem_def)
  have "page_loop ?f (of_nat (0x1000 * 0)) (of_nat (0x1000 * (0 + k))) m =
      Some (fold (\<lambda>j. mmu_remap (mn + of_nat (0x1000 * j)) (remap + of_nat (0x1000 * j))) [0..<0 + k] m)"
    by (rule page_loop_fold [OF f]) (use assms(6) in simp)
  then have l: "remap_tables sv mn remap (of_nat (0x1000 * k)) m =
      Some (fold (\<lambda>j. mmu_remap (mn + of_nat (0x1000 * j)) (remap + of_nat (0x1000 * j))) [0..<k] m)"
    by (simp add: remap_tables_def)
  obtain fr where fr: "fold (\<lambda>j. mmu_remap (mn + of_nat (0x1000 * j)) (remap + of_nat (0x1000 * j))) [0..<k] m = m\<lparr>mm_frame := fr\<rparr>"
    "\<forall>j < k. fr (remap + of_nat (0x1000 * j)) = mn + of_nat (0x1000 * j)" "\<forall>a. (\<forall>j < k. unat a \<noteq> unat remap + 0x1000 * j) \<longrightarrow> fr a = mm_frame m a"
    using fold_frames [OF assms(2-5)] by blast
  have "leads remap mn (0x1000 * k) (m\<lparr>mm_frame := fr, mm_ram := r\<rparr>)" for r
    unfolding leads_def
  proof (intro allI impI)
    fix j assume j: "j < 0x1000 * k"
    let ?q = "j div 0x1000" and ?d = "j mod 0x1000"
    have q: "?q < k" "j = 0x1000 * ?q + ?d" "?d < 0x1000" using j by (simp_all add: less_mult_imp_div_less)
    have "unat (of_nat (0x1000 * ?q) :: u32) = 0x1000 * ?q" using q(1) assms(6) by (intro u32_of_nat) simp
    then have "unat (remap + of_nat (0x1000 * ?q)) = unat remap + 0x1000 * ?q" using q(1) assms(4) by (simp add: unat_word_ariths)
    then have al: "unat (remap + of_nat (0x1000 * ?q)) mod 0x1000 = 0" using assms(2) by simp
    have e: "b + of_nat j = b + of_nat (0x1000 * ?q) + of_nat ?d" for b :: u32 using q(2) by (metis add.assoc of_nat_add)
    show "phys_of (remap + of_nat j) (m\<lparr>mm_frame := fr, mm_ram := r\<rparr>) = mn + of_nat j"
      unfolding e phys_of_def page_parts [OF al q(3)] using fr(2) q(1) by simp
  qed
  moreover have "fr a = mm_frame m a" if "unat a < unat remap \<or> unat remap + 0x1000 * k \<le> unat a" for a
    using fr(3) that by (metis add_less_cancel_left add_leD1 leD mult_less_cancel1 not_add_less1 zero_less_numeral)
  ultimately show ?thesis using l fr(1) by auto
qed

subsection \<open>The root table\<close>

lemma ptr_range_bounds:
  assumes "ptr_range ps = (mn, mx)"
  shows "\<forall>p \<in> set ps. mn \<le> p \<and> p \<le> mx"
proof -
  let ?f = "\<lambda>(mn, mx) p. (if p < mn then p else mn, if mx < p then p else mx)"
  have "foldl ?f (a, b) ps = (mn, mx) \<Longrightarrow> mn \<le> a \<and> b \<le> mx \<and> (\<forall>p \<in> set ps. mn \<le> p \<and> p \<le> mx)" for a b
  proof (induction ps arbitrary: a b)
    case (Cons p ps)
    have "foldl ?f (if p < a then p else a, if b < p then p else b) ps = (mn, mx)" using Cons.prems by simp
    from Cons.IH [OF this] show ?case by (auto split: if_splits intro: order_trans less_imp_le)
  qed simp
  from this [of "0xFFFFFFFF" 0] assms show ?thesis by (simp add: ptr_range_def)
qed

lemma page_down_nat: "unat (page_down a) = 0x1000 * (unat a div 0x1000)"
proof -
  have "a mod 0x1000 \<le> a" by (simp add: word_le_nat_alt unat_mod)
  then have "unat (page_down a) = unat a - unat a mod 0x1000" by (simp add: page_down_def unat_sub unat_mod)
  then show ?thesis by (simp add: minus_mod_eq_mult_div)
qed

lemma alloc_size_nat:
  assumes "mn \<le> mx" and "unat mx + 0x2000 \<le> 2 ^ 32"
  shows "(mx div 4096 + 1) * 4096 - page_down mn = of_nat (0x1000 * (unat mx div 0x1000 + 1 - unat mn div 0x1000))"
proof -
  have m: "unat mn div 0x1000 \<le> unat mx div 0x1000" using assms(1) by (simp add: word_le_nat_alt div_le_mono)
  have a: "unat (mx div 4096) = unat mx div 0x1000" by (simp add: unat_div)
  have "unat mx div 0x1000 + 1 \<le> 0xFFFFF" using assms(2) by simp
  then have "unat ((mx div 4096 + 1) * 4096) = 0x1000 * (unat mx div 0x1000 + 1)" using a by (simp add: unat_word_ariths)
  moreover have "unat (page_down mn) \<le> 0x1000 * (unat mx div 0x1000 + 1)" using m by (simp add: page_down_nat)
  ultimately have "unat ((mx div 4096 + 1) * 4096 - page_down mn) = 0x1000 * (unat mx div 0x1000 + 1 - unat mn div 0x1000)"
    by (simp add: unat_sub word_le_nat_alt page_down_nat diff_mult_distrib2)
  then show ?thesis by (metis of_nat_unat ucast_id)
qed

text \<open>The sizes and the two blocks of the heap.\<close>

lemma rsdt_sizes:
  assumes "mn \<le> mx" and "unat mx + 0x2000 \<le> 2 ^ 32" and "k = unat mx div 0x1000 + 1 - unat mn div 0x1000"
  shows "0 < k" "unat (of_nat (0x1000 * k) :: u32) = 0x1000 * k" "unat (page_down mn) + 0x1000 * k \<le> 2 ^ 32" "0x1000 * k < 2 ^ 32"
    "unat (page_down mn) + 0x1000 * k = 0x1000 * (unat mx div 0x1000 + 1)"
proof -
  have dv: "unat mn div 0x1000 \<le> unat mx div 0x1000" using assms(1) by (simp add: word_le_nat_alt div_le_mono)
  then show "0 < k" using assms(3) by linarith
  show e: "unat (page_down mn) + 0x1000 * k = 0x1000 * (unat mx div 0x1000 + 1)" using dv assms(3) by (simp add: page_down_nat diff_mult_distrib2)
  have "0x1000 * (unat mx div 0x1000) \<le> unat mx" by simp
  then show b: "unat (page_down mn) + 0x1000 * k \<le> 2 ^ 32" "0x1000 * k < 2 ^ 32" using e assms(2) by simp_all
  show "unat (of_nat (0x1000 * k) :: u32) = 0x1000 * k" by (rule u32_of_nat) (use b(2) in simp)
qed

lemma rsdt_blocks:
  assumes "kheap_inv h" and "0x2000 \<le> kheap_bytes_left h" "2 \<le> kheap_allocs_left h" and "kalloc_a 0x1000 0x1000 h = Some (pg, h1)"
    and "0 < k" "0x1000 * k < 2 ^ 32" and "0x1000 + 0x1000 * k \<le> kheap_bytes_left h1" "2 \<le> kheap_allocs_left h1"
  shows "unat pg mod 0x1000 = 0 \<and> (\<exists>remap h2. kalloc_a (of_nat (0x1000 * k)) 0x1000 h1 = Some (remap, h2) \<and> kheap_inv h2 \<and>
    unat remap mod 0x1000 = 0 \<and> unat remap + 0x1000 * k \<le> 2 ^ 32 \<and> (unat pg < unat remap \<or> unat remap + 0x1000 * k \<le> unat pg))"
proof -
  have r16: "roundup16 (0x1000 * i) = 0x1000 * i" for i by (simp add: roundup16_def)
  have szn: "unat (of_nat (0x1000 * k) :: u32) = 0x1000 * k" by (rule u32_of_nat) (use assms(6) in simp)
  then have sz0: "(of_nat (0x1000 * k) :: u32) \<noteq> 0" using assms(5) by (metis mult_is_0 neq0_conv unsigned_0 zero_neq_numeral)
  have c: "unat (0x1000 :: u32) + roundup16 (unat (0x1000 :: u32)) \<le> kheap_bytes_left h" using assms(2) by (simp add: roundup16_def)
  have h1: "kheap_inv h1" "unat pg mod 0x1000 = 0" "kheap_used h1 = insert (unat pg, 0x1000) (kheap_used h)"
    using kalloc_a_inv [OF assms(1) _ _ _ c assms(3)] assms(4) r16 [of 1] by auto
  have c2: "unat (0x1000 :: u32) + roundup16 (unat (of_nat (0x1000 * k) :: u32)) \<le> kheap_bytes_left h1" unfolding szn r16 using assms(7) by simp
  obtain remap h2 where h2: "kalloc_a (of_nat (0x1000 * k)) 0x1000 h1 = Some (remap, h2)" "kheap_inv h2" "unat remap mod 0x1000 = 0"
    "kheap_used h2 = insert (unat remap, 0x1000 * k) (kheap_used h1)" "(unat remap, 0x1000 * k) \<notin> kheap_used h1"
    using kalloc_a_inv [OF h1(1) sz0 _ _ c2 assms(8)] unfolding szn r16 by auto
  have u: "(unat pg, 0x1000) \<in> kheap_used h2" "(unat remap, 0x1000 * k) \<in> kheap_used h2" "(unat pg, 0x1000) \<noteq> (unat remap, 0x1000 * k)"
    using h2(4,5) h1(3) by auto
  from kh.used_apart [OF h2(2) u] have "unat pg < unat remap \<or> unat remap + 0x1000 * k \<le> unat pg" by (auto simp: apart_def)
  moreover have "unat remap + 0x1000 * k \<le> 2 ^ 32" using kheap_block_bounds(2) [OF h2(2) u(2)] by simp
  ultimately show ?thesis using h1(2) h2(1-3) by simp
qed

text \<open>An address within the mapped pages leads to the table at its place.\<close>

lemma leads_table:
  assumes "leads remap (page_down mn) (0x1000 * k) m" and "mn \<le> p" and "unat (page_down mn) + 0x1000 * k = e"
  shows "leads (remap + (p - page_down mn)) p (e - unat p) m"
proof -
  have "unat (page_down mn) \<le> unat mn" by (simp add: page_down_nat)
  then have md: "unat (page_down mn) \<le> unat p" using assms(2) by (simp add: word_le_nat_alt)
  let ?d = "unat p - unat (page_down mn)"
  have d: "p - page_down mn = of_nat ?d" using md by (metis of_nat_diff of_nat_unat ucast_id)
  then have pd: "p = page_down mn + of_nat ?d" by (metis add.commute diff_add_cancel)
  show ?thesis
  proof (cases "unat p \<le> e")
    case True
    then have "?d + (e - unat p) \<le> 0x1000 * k" using md assms(3) by linarith
    from leads_part [OF assms(1) this] show ?thesis unfolding d using pd by simp
  next
    case False
    then show ?thesis by (simp add: leads_def)
  qed
qed

text \<open>What is read of the root table where it is mapped.\<close>

lemma rsdt_read:
  assumes "paged_mem sv" and "mm_frame m pg = page_down phys" and "unat pg mod 0x1000 = 0"
    and "len = word_at (phys + 4) 0 (mm_ram m)" and "36 \<le> unat len" and "unat phys mod 0x1000 + unat len \<le> 0x1000"
    and "n = (unat len - 36) div 4"
  shows "sdt_len sv (pg + phys mod 0x1000) m = Some len" "(len - sdt_hdr_size) div 4 = of_nat n" "unat (of_nat n :: u32) = n"
    "leads (pg + phys mod 0x1000 + 36) (phys + 36) (4 * n) m"
    "read_ptrs sv (pg + phys mod 0x1000 + 36) n m = Some (map (\<lambda>j. word_at (phys + 36) j (mm_ram m)) [0..<n])"
proof -
  have l: "leads (pg + phys mod 0x1000) phys (unat len) m" by (rule leads_page [OF assms(2,3,6)])
  have "leads (pg + phys mod 0x1000 + 4) (phys + 4) 4 m" using leads_part [OF l, of 4 4] assms(5) by simp
  then show "sdt_len sv (pg + phys mod 0x1000) m = Some len"
    using read32_leads [OF assms(1)] assms(4) by (simp add: sdt_len_def read32_def)
  have "36 + 4 * n \<le> unat len" using assms(5,7) by simp
  then show lp: "leads (pg + phys mod 0x1000 + 36) (phys + 36) (4 * n) m" using leads_part [OF l, of 36 "4 * n"] by simp
  have "unat ((len - 36) div 4) = n" using assms(5,7) by (simp add: unat_div unat_sub word_le_nat_alt)
  then show "(len - sdt_hdr_size) div 4 = of_nat n" "unat (of_nat n :: u32) = n"
    unfolding sdt_hdr_size_def by (metis of_nat_unat ucast_id)+
  show "read_ptrs sv (pg + phys mod 0x1000 + 36) n m = Some (map (\<lambda>j. word_at (phys + 36) j (mm_ram m)) [0..<n])"
    by (rule read_ptrs_leads [OF assms(1) lp])
qed


text \<open>A machine with one table at 0x3000, which the root table at 0x1000 points to.\<close>

definition demo_paged :: "(kheap, mmu) services" where
  "demo_paged = \<lparr>sv_alloc = kalloc, sv_alloc_a = kalloc_a, sv_free = kfree,
     sv_curdir = \<lambda>v. 0x400000, sv_swpdir = \<lambda>d v. Some v, sv_clonedir = \<lambda>d v. Some (0x500000, v),
     sv_remappg = \<lambda>p a f v. Some (0, mmu_remap p a v), sv_mappg = \<lambda>p a f v. Some (0, v), sv_allocpgs = \<lambda>a n f v. Some (a, v),
     sv_freepgs = \<lambda>a n v. Some v, sv_getphys = \<lambda>a v. a, sv_resvpg = \<lambda>a v. Some v,
     sv_peek = \<lambda>a n m. Some (mmu_peek a n m), sv_poke = \<lambda>a bs m. Some (mmu_poke a bs m),
     sv_str = \<lambda>a v. Some [], sv_initrd = []\<rparr>"

definition demo_mmu :: mmu where
  "demo_mmu = \<lparr>mm_frame = \<lambda>a. a, mm_ram = (\<lambda>a. 0)(0xE0011 := 0x10, 0x1004 := 40, 0x1025 := 0x30)\<rparr>"

definition demo_paged_kern :: "(kheap, mmu) kern" where
  "demo_paged_kern = \<lparr>k_ls = no_lists (heap_init 0xD0000000), k_tasks = Map.empty, k_utasks = Map.empty,
     k_msgs = Map.empty, k_files = Map.empty, k_iobms = Map.empty, k_vm = demo_mmu,
     k_task_order = 0, k_current = 0, k_enabled = True, k_utsk_list = 0, k_next_pid = 0,
     k_tss = demo_tss, k_intr = \<lparr>i_depth = 0, i_flag = True\<rparr>, k_out = []\<rparr>"

text \<open>The first block of a fresh heap is aligned, so that both allocators take it.\<close>

lemma demo_aligned: "\<exists>h1. kalloc_a 0x1000 0x1000 (heap_init 0xD0000000) = Some (0xE1000000, h1) \<and>
    0x1EFFDFFF \<le> kheap_bytes_left h1 \<and> 999 \<le> kheap_allocs_left h1"
proof -
  let ?h = "heap_init 0xD0000000"
  define h1 where "h1 = ?h\<lparr>bins := [0xD0000000 \<mapsto> \<lparr>b_addr = 0xE1000000, b_taken = True, b_size = 0x1000, b_prev = 0, b_next = 0\<rparr>]\<rparr>"
  have a: "kalloc_a 0x1000 0x1000 ?h = Some (0xE1000000, h1)"
    apply (simp add: kheap_run_simps kalloc_a_def h1_def)
    apply (subst aligned_fit_loop.simps, simp add: kheap_run_simps)
    apply (subst aligned_fit_loop.simps, simp add: kheap_run_simps)
    done
  have k: "kalloc 0x1000 ?h = Some (0xE1000000, h1)"
    apply (simp add: kheap_run_simps h1_def)
    apply (subst best_fit_loop.simps, simp add: kheap_run_simps)
    apply (subst best_fit_loop.simps, simp add: kheap_run_simps)
    done
  have c: "roundup16 (unat (0x1000 :: u32)) \<le> kheap_bytes_left ?h" "0 < kheap_allocs_left ?h" "(0x1000 :: u32) \<noteq> 0"
    using demo_bytes by (simp_all add: roundup16_def)
  have "kheap_bytes_left ?h - roundup16 (unat (0x1000 :: u32)) \<le> kheap_bytes_left h1 \<and> kheap_allocs_left ?h - 1 \<le> kheap_allocs_left h1"
    using kh.alloc_ok [OF heap_init_inv [OF demo_fresh(2)] c(3,1,2)] k by auto
  then show ?thesis using a demo_bytes by (auto simp: roundup16_def)
qed


end
