(* ===== verification/Apic_Props.thy ===== *)
theory Apic_Props
  imports Acpi_Props
begin

text \<open>
  The entries of the table of interrupt controllers: which are listed, and when the search never ends. The reference
  is \<open>madt_chain\<close>, which goes from entry to entry by the byte that holds the length.
\<close>

fun madt_chain :: "(addr \<Rightarrow> u8) \<Rightarrow> addr \<Rightarrow> addr list \<Rightarrow> addr \<Rightarrow> bool" where
  "madt_chain v a [] z \<longleftrightarrow> a = z"
| "madt_chain v a (e # es) z \<longleftrightarrow> e = a \<and> madt_chain v (a + ucast (v (a + 1))) es z"

definition table_end :: "addr \<Rightarrow> (addr \<Rightarrow> u8) \<Rightarrow> addr" where
  "table_end t v = t + le32 (mem_peek (t + 4) 4 v) 0"

lemma k_push_vm: "k_push sv l e s = Some (r, s1) \<Longrightarrow> k_vm s1 = k_vm s"
  by (auto simp: k_push_def opt_simps)

lemma madt_loop_step:
  assumes "flat_mem sv"
  shows "madt_loop sv madt l a s = (if a < table_end madt (k_vm s)
    then do { (r, s1) \<leftarrow> k_push sv l a s; madt_loop sv madt l (a + ucast (k_vm s1 (a + 1))) s1 } else Some s)"
  by (subst madt_loop.simps) (use assms in \<open>simp add: sdt_len_def flat_mem_def table_end_def mem_peek_def\<close>)

lemma madt_loop_zero_length:
  assumes "flat_mem sv" and "v (a + 1) = 0" and "a < table_end madt v" and "k_vm s = v"
  shows "madt_loop sv madt l a s = None"
proof -
  have "\<not> (flat_mem sv \<and> k_vm s (a + 1) = 0 \<and> a < table_end madt (k_vm s))" if "madt_loop sv madt l a s = Some x" for x
  proof (rule madt_loop.raw_induct [where P = "\<lambda>sv madt l a s x. \<not> (flat_mem sv \<and> k_vm s (a + 1) = 0 \<and> a < table_end madt (k_vm s))", OF _ that])
    fix f and sv :: "('a, addr \<Rightarrow> u8) services" and madt l a s x
    assume ih: "\<And>sv madt l a s x. f sv madt l a s = Some x \<Longrightarrow> \<not> (flat_mem sv \<and> k_vm s (a + 1) = 0 \<and> a < table_end madt (k_vm s))"
      and run: "sdt_len sv madt (k_vm s) \<bind> (\<lambda>len. if a < madt + len
        then k_push sv l a s \<bind> (\<lambda>(r, s1). sv_peek sv (a + 1) 1 (k_vm s1) \<bind> (\<lambda>b. f sv madt l (a + ucast (b ! 0)) s1)) else Some s) = Some x"
    show "\<not> (flat_mem sv \<and> k_vm s (a + 1) = 0 \<and> a < table_end madt (k_vm s))"
    proof
      assume h: "flat_mem sv \<and> k_vm s (a + 1) = 0 \<and> a < table_end madt (k_vm s)"
      then have "k_push sv l a s \<bind> (\<lambda>(r, s1). f sv madt l (a + ucast (k_vm s1 (a + 1))) s1) = Some x"
        using run by (simp add: sdt_len_def flat_mem_def table_end_def mem_peek_def)
      then obtain r s1 where p: "k_push sv l a s = Some (r, s1)" "f sv madt l (a + ucast (k_vm s1 (a + 1))) s1 = Some x"
        by (auto simp: Option.bind_eq_Some_conv)
      then show False using ih [of sv madt l a s1 x] k_push_vm [OF p(1)] h by simp
    qed
  qed
  then show ?thesis using assms by (cases "madt_loop sv madt l a s") auto
qed

lemma madt_loop_never:
  assumes "flat_mem sv" and "madt_chain v a es z" and "\<forall>e \<in> set es. e < table_end madt v" and "v (z + 1) = 0" "z < table_end madt v" and "k_vm s = v"
  shows "madt_loop sv madt l a s = None"
  using assms(2,3,6)
proof (induction es arbitrary: a s)
  case Nil
  then show ?case using madt_loop_zero_length [OF assms(1)] assms(4,5) by auto
next
  case (Cons e es)
  have "madt_loop sv madt l (a + ucast (v (a + 1))) s1 = None" if "k_push sv l a s = Some (r, s1)" for r s1
    using Cons.IH [of _ s1] Cons.prems k_push_vm [OF that] by auto
  then show ?case using Cons.prems k_push_vm [of sv l a s]
    by (cases "k_push sv l a s") (auto simp: madt_loop_step [OF assms(1), of madt l a s])
qed

lemma madt_loop_lists:
  fixes s :: "(addr \<Rightarrow> u8) ksys"
  assumes "flat_mem sv" and "sv_alloc sv = kalloc" and "\<not> z < table_end madt v"
    and "madt_chain v a es z" and "\<forall>e \<in> set es. e < table_end madt v" and "k_vm s = v"
    and "objs_ok kheap_inv kheap_used s" and "list_rep (k_ls s) l False xs ds" and "length ds + length es < 2 ^ 31"
    and "kroom (16 * length es) (length es) s"
  shows "\<exists>ls xs'. madt_loop sv madt l a s = Some (s\<lparr>k_ls := ls\<rparr>) \<and> list_rep ls l False xs' (ds @ es)"
  using assms(4-)
proof (induction es arbitrary: a s xs ds)
  case Nil
  then show ?case using assms(3) by (intro exI [of _ "k_ls s"] exI [of _ xs]) (simp add: madt_loop_step [OF assms(1), of madt l z s])
next
  case (Cons e es)
  have r: "roundup16 12 \<le> kheap_bytes_left (ls_heap (k_ls s))" "0 < kheap_allocs_left (ls_heap (k_ls s))"
    using Cons.prems(7) by (simp_all add: kroom_def roundup16_def)
  have len: "length xs < 2 ^ 31" using Cons.prems(6) list_rep_length [OF Cons.prems(5)] by simp
  obtain ls p where p: "k_push sv l a s = Some (int (length xs), s\<lparr>k_ls := ls\<rparr>)" "list_rep ls l False (xs @ [p]) (ds @ [a])"
    "objs_ok kheap_inv kheap_used (s\<lparr>k_ls := ls\<rparr>)"
    "kheap_bytes_left (ls_heap (k_ls s)) - roundup16 12 \<le> kheap_bytes_left (ls_heap ls)" "kheap_allocs_left (ls_heap (k_ls s)) - 1 \<le> kheap_allocs_left (ls_heap ls)"
    using kh.k_push_ok [OF Cons.prems(4) assms(2) Cons.prems(5) len r, of a] by blast
  let ?s = "s\<lparr>k_ls := ls\<rparr>"
  have "kroom (16 * length es) (length es) ?s" using Cons.prems(7) p(4,5) by (auto simp: kroom_def roundup16_def)
  from Cons.IH [of "a + ucast (v (a + 1))" ?s "xs @ [p]" "ds @ [a]", OF _ _ _ p(3) _ _ this] p(2) Cons.prems
  obtain ls' xs' where "madt_loop sv madt l (a + ucast (v (a + 1))) ?s = Some (?s\<lparr>k_ls := ls'\<rparr>)" "list_rep ls' l False xs' (ds @ e # es)" by auto
  moreover have "madt_loop sv madt l a s = madt_loop sv madt l (a + ucast (v (a + 1))) ?s"
    using Cons.prems p(1) by (simp add: madt_loop_step [OF assms(1), of madt l a s])
  ultimately show ?case by auto
qed

text \<open>
  C28 (functional): the entries of the table. If the root table has a table of interrupt controllers with a correct sum, and its entries, each found by the
  length of the one before, lead to the end of the table, then \<open>acpi_find_madt\<close> lists the addresses of just these
  entries, in order. If they lead to an entry of length 0 before the end, then it never returns.
\<close>

theorem madt_entries_listed:
  fixes s :: "(addr \<Rightarrow> u8) ksys"
  assumes "flat_mem sv" and "sv_alloc sv = kalloc" and "objs_ok kheap_inv kheap_used s"
    and "rsdt_find_table sv APIC_SIG ac (k_vm s) = Some t" "t \<noteq> 0" and "validate_acpi_table sv t (k_vm s) = Some True"
    and "madt_chain (k_vm s) (t + madt_size) es z" and "\<forall>e \<in> set es. e < table_end t (k_vm s)" and "length es < 2 ^ 31"
    and "kroom (16 + 16 * length es) (1 + length es) s"
  shows "(z \<ge> table_end t (k_vm s) \<longrightarrow> (\<exists>l ls xs. acpi_find_madt sv ac s = Some (ac\<lparr>ac_madt := t, ac_madt_entries := l\<rparr>, s\<lparr>k_ls := ls\<rparr>) \<and> list_rep ls l False xs es)) \<and>
    (z < table_end t (k_vm s) \<and> k_vm s (z + 1) = 0 \<longrightarrow> acpi_find_madt sv ac s = None)"
proof -
  have r: "roundup16 16 \<le> kheap_bytes_left (ls_heap (k_ls s))" "0 < kheap_allocs_left (ls_heap (k_ls s))"
    using assms(10) by (simp_all add: kroom_def roundup16_def)
  obtain l h where l: "list_allocator (sv_alloc sv) False (k_ls s) =
      Some (l, (k_ls s)\<lparr>ls_heap := h, ls_lists := (ls_lists (k_ls s))(l \<mapsto> \<lparr>l_rnd = False, l_head = 0, l_tail = 0, l_elements = 0\<rparr>)\<rparr>)"
    "l \<noteq> 0" "objs_ok kheap_inv kheap_used (s\<lparr>k_ls := (k_ls s)\<lparr>ls_heap := h, ls_lists := (ls_lists (k_ls s))(l \<mapsto> \<lparr>l_rnd = False, l_head = 0, l_tail = 0, l_elements = 0\<rparr>)\<rparr>\<rparr>)"
    "kheap_bytes_left (ls_heap (k_ls s)) - roundup16 16 \<le> kheap_bytes_left h" "kheap_allocs_left (ls_heap (k_ls s)) - 1 \<le> kheap_allocs_left h"
    using kh.k_new_list_ok [OF assms(3,2) r, of False] by (auto simp: Let_def)
  let ?ls = "(k_ls s)\<lparr>ls_heap := h, ls_lists := (ls_lists (k_ls s))(l \<mapsto> \<lparr>l_rnd = False, l_head = 0, l_tail = 0, l_elements = 0\<rparr>)\<rparr>"
  let ?s = "s\<lparr>k_ls := ?ls\<rparr>"
  have run: "acpi_find_madt sv ac s = do { s2 \<leftarrow> madt_loop sv t l (t + madt_size) ?s; Some (ac\<lparr>ac_madt := t, ac_madt_entries := l\<rparr>, s2) }"
    using assms(4-6) l(1) by (simp add: acpi_find_madt_def k_new_list_def new_list_def)
  have rep: "list_rep (k_ls ?s) l False [] []" using l(2) by (simp add: list_rep_def load_def)
  have rm: "kroom (16 * length es) (length es) ?s" using assms(10) l(4,5) by (auto simp: kroom_def roundup16_def)
  have "\<exists>ls xs. acpi_find_madt sv ac s = Some (ac\<lparr>ac_madt := t, ac_madt_entries := l\<rparr>, s\<lparr>k_ls := ls\<rparr>) \<and> list_rep ls l False xs es" if h: "z \<ge> table_end t (k_vm s)"
    using madt_loop_lists [OF assms(1,2) _ assms(7,8) _ l(3) rep _ rm] h assms(9) run by (auto simp: not_less)
  moreover have "acpi_find_madt sv ac s = None" if h: "z < table_end t (k_vm s)" "k_vm s (z + 1) = 0"
    using madt_loop_never [OF assms(1,7,8) h(2,1), of ?s l] run by simp
  ultimately show ?thesis by blast
qed

text \<open>A root table with one pointer at 0x1000, and a table with one entry of 8 bytes at 0x2000.\<close>

definition demo_madt :: "addr \<Rightarrow> u8" where
  "demo_madt = (\<lambda>a. 0)(0x1001 := 0x20, 0x2000 := 0x41, 0x2001 := 0x50, 0x2002 := 0x49, 0x2003 := 0x43, 0x2004 := 0x34, 0x2009 := 0xA7, 0x202D := 8)"

theorem madt_entries_listed_witness:
  "\<exists>l ls xs. acpi_find_madt demo_sv \<lparr>ac_rsdpd = 0, ac_ptrs = 0x1000, ac_entries = 1, ac_madt = 0, ac_madt_entries = 0\<rparr> (demo_start\<lparr>k_vm := demo_madt\<rparr>) =
     Some (\<lparr>ac_rsdpd = 0, ac_ptrs = 0x1000, ac_entries = 1, ac_madt = 0x2000, ac_madt_entries = l\<rparr>, demo_start\<lparr>k_vm := demo_madt, k_ls := ls\<rparr>) \<and> list_rep ls l False xs [0x202C]"
proof -
  let ?s = "demo_start\<lparr>k_vm := demo_madt\<rparr>" and ?ac = "\<lparr>ac_rsdpd = 0, ac_ptrs = 0x1000, ac_entries = 1, ac_madt = 0, ac_madt_entries = 0\<rparr>"
  have sv: "flat_mem demo_sv" "sv_alloc demo_sv = kalloc"
    by (simp_all add: flat_mem_def demo_sv_def mem_peek_def mem_poke_def fun_eq_iff)
  have pk: "sv_peek demo_sv = (\<lambda>a n v. Some (mem_peek a n v))" using sv(1) by (simp add: flat_mem_def)
  have o: "objs_ok kheap_inv kheap_used ?s" using heap_init_inv [OF demo_fresh(2)]
    by (simp add: objs_ok_def objs_def kinds_def demo_start_def no_lists_def)
  have f: "rsdt_find_table demo_sv APIC_SIG ?ac (k_vm ?s) = Some 0x2000"
    by (simp add: rsdt_find_table_def read32_def pk mem_peek_def demo_madt_def le32_def APIC_SIG_def upt_rec)
  have v: "validate_acpi_table demo_sv 0x2000 (k_vm ?s) = Some True"
    by (simp add: validate_acpi_table_def sdt_len_def pk mem_peek_def demo_madt_def le32_def upt_rec)
  have e0: "table_end 0x2000 demo_madt = 0x2034" by (simp add: table_end_def mem_peek_def demo_madt_def le32_def upt_rec)
  then have e: "table_end 0x2000 (k_vm ?s) = 0x2034" by simp
  have c: "madt_chain (k_vm ?s) (0x2000 + madt_size) [0x202C] 0x2034" by (simp add: madt_size_def demo_madt_def)
  have r: "kroom (16 + 16 * length [0x202C :: addr]) (1 + length [0x202C :: addr]) ?s" using demo_bytes by (simp add: demo_start_def no_lists_def kroom_def)
  have n: "\<forall>x \<in> set [0x202C]. x < table_end 0x2000 (k_vm ?s)" "length [0x202C :: addr] < 2 ^ 31" "(0x2000 :: addr) \<noteq> 0" by (simp_all add: e0)
  from madt_entries_listed [OF sv o f n(3) v c n(1,2) r] show ?thesis by (auto simp: e0)
qed

end
