(* ===== verification/Timer.thy ===== *)
theory Timer
  imports Complex_Main KList Devices
begin

text \<open>
  Clocks that call a hook every so many milliseconds: \<^verbatim>\<open>module/timer/main.c\<close>, over the counter of the local
  interrupt controller or of the interval timer. Times are of type \<^verbatim>\<open>float\<close>: a number is a rational, and every operation
  rounds its result with \<open>fl\<close>, an argument, because C leaves rounding and excess precision to the
  implementation. A division by 0 and a conversion to \<^verbatim>\<open>uint32_t\<close> out of range have no result.
\<close>

subsection \<open>Numbers\<close>

type_synonym rounding = "rat \<Rightarrow> rat"

definition of_u32 :: "rounding \<Rightarrow> u32 \<Rightarrow> rat" where
  "of_u32 fl w = fl (of_nat (unat w))"

definition to_u32 :: "rat \<Rightarrow> u32 option" where
  "to_u32 x = (if -1 < x \<and> x < 2 ^ 32 then Some (of_int (if x < 0 then 0 else \<lfloor>x\<rfloor>)) else None)"

definition fdiv :: "rounding \<Rightarrow> rat \<Rightarrow> rat \<Rightarrow> rat option" where
  "fdiv fl a b = (if b = 0 then None else Some (fl (a / b)))"

subsection \<open>State\<close>

record clock_hook =
  c_hook :: addr
  c_ms :: rat
  c_left :: rat

text \<open>
  The globals of the module, in order; then the clocks in memory, the lists with the heap, the table of
  \<^verbatim>\<open>irq\<close> and the machine.
\<close>

record ('h, 'd) timer =
  tm_base_freq :: u32
  tm_freq_1s :: u32
  tm_freq :: rat
  tm_ms :: u32
  tm_shortest :: u32
  tm_clock :: addr
  tm_hooks :: addr
  tm_apic :: bool
  tm_node :: addr
  tm_cur :: addr
  tm_clocks :: "clock_hook store"
  tm_ls :: "'h lstate"
  tm_irq :: handlers
  tm_mach :: "'d machine"

definition APIC_LVT_TMR :: u16 where "APIC_LVT_TMR = 0x320"
definition APIC_TMRINITCNT :: u16 where "APIC_TMRINITCNT = 0x380"
definition APIC_TMRCURRCNT :: u16 where "APIC_TMRCURRCNT = 0x390"
definition APIC_TMRDIV :: u16 where "APIC_TMRDIV = 0x3E0"

definition on_dev :: "('d \<Rightarrow> 'd) \<Rightarrow> ('h, 'd) timer \<Rightarrow> ('h, 'd) timer" where
  "on_dev f t = t\<lparr>tm_mach := (tm_mach t)\<lparr>mc_dev := f (mc_dev (tm_mach t))\<rparr>\<rparr>"

subsection \<open>The counter\<close>

definition timer_read :: "'d hw \<Rightarrow> ('h, 'd) timer \<Rightarrow> u32 \<times> ('h, 'd) timer" where
  "timer_read hw t =
     (if tm_apic t then let (v, m) = apic_read hw APIC_TMRINITCNT (tm_mach t) in (v, t\<lparr>tm_mach := m\<rparr>)
      else let (v, d) = pit_read_count hw (mc_dev (tm_mach t)) in (ucast v, on_dev (\<lambda>_. d) t))"

definition timer_set :: "'d hw \<Rightarrow> u32 \<Rightarrow> ('h, 'd) timer \<Rightarrow> ('h, 'd) timer" where
  "timer_set hw count t =
     (if tm_apic t then t\<lparr>tm_mach := apic_write hw APIC_TMRCURRCNT count (apic_write hw APIC_TMRINITCNT count (tm_mach t))\<rparr>
      else on_dev (pit_set_count hw (ucast count)) t)"

definition timer_ack :: "'d hw \<Rightarrow> ('h, 'd) timer \<Rightarrow> ('h, 'd) timer" where
  "timer_ack hw t = (if tm_apic t then t\<lparr>tm_mach := apic_ack hw (tm_mach t)\<rparr> else on_dev (hw_outb hw 0x20 0x20) t)"

text \<open>The count for a number of milliseconds: \<^verbatim>\<open>ms * ms_1ms * freq_1ms\<close>.\<close>

definition ms_count :: "rounding \<Rightarrow> rat \<Rightarrow> ('h, 'd) timer \<Rightarrow> u32 option" where
  "ms_count fl ms t = to_u32 (fl (fl (ms * of_u32 fl (tm_ms t)) * tm_freq t))"

subsection \<open>Clocks\<close>

definition timer_add_clock :: "rounding \<Rightarrow> 'd hw \<Rightarrow> 'h alloc_fn \<Rightarrow> addr \<Rightarrow> rat \<Rightarrow> ('h, 'd) timer \<Rightarrow> (addr \<times> ('h, 'd) timer) option" where
  "timer_add_clock fl hw alloc hook ms t = do {
     (clock, h) \<leftarrow> alloc 12 (ls_heap (tm_ls t));
     if clock = 0 then None
     else do {
       let t1 = t\<lparr>tm_clocks := (tm_clocks t)(clock \<mapsto> \<lparr>c_hook = hook, c_ms = ms, c_left = ms\<rparr>)\<rparr>;
       (r, ls) \<leftarrow> list_push alloc (tm_hooks t1) clock ((tm_ls t1)\<lparr>ls_heap := h\<rparr>);
       let (n, t2) = timer_read hw (t1\<lparr>tm_ls := ls\<rparr>);
       q \<leftarrow> fdiv fl (of_u32 fl n) (tm_freq t2);
       q1 \<leftarrow> fdiv fl q (of_u32 fl (tm_ms t2));
       ms_passed \<leftarrow> to_u32 q1;
       t3 \<leftarrow> (if of_u32 fl (tm_shortest t2 * tm_ms t2 - ms_passed) > fl (ms * of_u32 fl (tm_ms t2))
             then do { k \<leftarrow> ms_count fl ms t2; Some (timer_set hw k t2) } else Some t2);
       if of_u32 fl (tm_shortest t3) > ms \<or> tm_clock t3 = 0 then do {
         t4 \<leftarrow> (if tm_clock t3 = 0 then do { k \<leftarrow> ms_count fl ms t3; Some (timer_set hw k t3) } else Some t3);
         w \<leftarrow> to_u32 ms;
         Some (clock, t4\<lparr>tm_shortest := w, tm_clock := clock\<rparr>) }
       else Some (clock, t3) } }"

definition timer_adjust_clock :: "rounding \<Rightarrow> 'd hw \<Rightarrow> addr \<Rightarrow> ('h, 'd) timer \<Rightarrow> ('h, 'd) timer option" where
  "timer_adjust_clock fl hw hook t =
     (if hook = 0 then Some t
      else do {
        let (n, t1) = timer_read hw t;
        q \<leftarrow> fdiv fl (of_u32 fl n) (tm_freq t1);
        ms_passed \<leftarrow> to_u32 q;
        c \<leftarrow> load (tm_clocks t1) hook;
        t2 \<leftarrow> (if of_u32 fl (tm_shortest t1 * tm_ms t1 - ms_passed) < fl (c_ms c * of_u32 fl (tm_ms t1))
              then do { k \<leftarrow> ms_count fl (c_ms c) t1; Some (timer_set hw k t1) } else Some t1);
        if c_ms c < of_u32 fl (tm_shortest t2) then do {
          w \<leftarrow> to_u32 (c_ms c);
          Some (t2\<lparr>tm_clock := hook, tm_shortest := w\<rparr>) }
        else Some t2 })"

text \<open>The loop that looks for the shortest clock left.\<close>

partial_function (option) shortest_loop :: "rounding \<Rightarrow> list_node store \<Rightarrow> clock_hook store \<Rightarrow> addr \<Rightarrow> u32 \<times> addr \<Rightarrow> (u32 \<times> addr) option" where
  "shortest_loop fl nodes clocks node r =
     (if node = 0 then Some r
      else do {
        n \<leftarrow> load nodes node;
        c \<leftarrow> load clocks (n_data n);
        r1 \<leftarrow> (if c_ms c \<le> of_u32 fl (fst r) then do { w \<leftarrow> to_u32 (c_ms c); Some (w, n_data n) } else Some r);
        shortest_loop fl nodes clocks (n_next n) r1 })"

definition timer_remove_clock :: "rounding \<Rightarrow> 'h free_fn \<Rightarrow> addr \<Rightarrow> ('h, 'd) timer \<Rightarrow> ('h, 'd) timer option" where
  "timer_remove_clock fl free hook t =
     (if hook = 0 then Some t
      else do {
        ls \<leftarrow> list_remove free (tm_hooks t) hook (tm_ls t);
        let t1 = t\<lparr>tm_ls := ls\<rparr>;
        t2 \<leftarrow> (if hook = tm_clock t1 then do {
                L \<leftarrow> load (ls_lists (tm_ls t1)) (tm_hooks t1);
                r \<leftarrow> shortest_loop fl (ls_nodes (tm_ls t1)) (tm_clocks t1) (l_head L) (0xFFFFFFFF, 0);
                Some (t1\<lparr>tm_shortest := fst r, tm_clock := snd r\<rparr>) }
              else Some t1);
        h \<leftarrow> free hook (ls_heap (tm_ls t2));
        Some (t2\<lparr>tm_ls := (tm_ls t2)\<lparr>ls_heap := h\<rparr>, tm_clocks := (tm_clocks t2)(hook := None)\<rparr>) })"

subsection \<open>The interrupt\<close>

text \<open>
  \<open>call\<close> is a call of a hook, which may use this module. The loop keeps its place in the globals
  \<^verbatim>\<open>hook_node\<close> and \<^verbatim>\<open>hook_clock\<close>.
\<close>

type_synonym ('h, 'd) hook_call = "addr \<Rightarrow> ('h, 'd) timer \<Rightarrow> ('h, 'd) timer option"

definition on_clock :: "addr \<Rightarrow> (clock_hook \<Rightarrow> clock_hook) \<Rightarrow> ('h, 'd) timer \<Rightarrow> ('h, 'd) timer option" where
  "on_clock p f t = do { m \<leftarrow> modify (tm_clocks t) p f; Some (t\<lparr>tm_clocks := m\<rparr>) }"

definition hook_step :: "rounding \<Rightarrow> ('h, 'd) hook_call \<Rightarrow> u32 \<Rightarrow> ('h, 'd) timer \<Rightarrow> ('h, 'd) timer option" where
  "hook_step fl call ms_passed t = do {
     q \<leftarrow> (if tm_ms t = 0 then None else Some (ms_passed div tm_ms t));
     t1 \<leftarrow> on_clock (tm_cur t) (\<lambda>c. c\<lparr>c_left := fl (c_left c - of_u32 fl q)\<rparr>) t;
     c \<leftarrow> load (tm_clocks t1) (tm_cur t1);
     if c_left c \<le> 0 then do {
       t2 \<leftarrow> call (c_hook c) t1;
       on_clock (tm_cur t2) (\<lambda>c. c\<lparr>c_left := fl (c_left c + c_ms c)\<rparr>) t2 }
     else Some t1 }"

partial_function (option) hook_loop :: "rounding \<Rightarrow> ('h, 'd) hook_call \<Rightarrow> u32 \<Rightarrow> ('h, 'd) timer \<Rightarrow> ('h, 'd) timer option" where
  "hook_loop fl call ms_passed t =
     (if tm_node t = 0 then Some t
      else do {
        n \<leftarrow> load (ls_nodes (tm_ls t)) (tm_node t);
        t1 \<leftarrow> hook_step fl call ms_passed (t\<lparr>tm_cur := n_data n\<rparr>);
        if tm_node t1 = 0 then Some t1
        else do {
          m \<leftarrow> load (ls_nodes (tm_ls t1)) (tm_node t1);
          hook_loop fl call ms_passed (t1\<lparr>tm_node := n_next m\<rparr>) } })"

definition timer_interrupt :: "rounding \<Rightarrow> 'd hw \<Rightarrow> ('h, 'd) hook_call \<Rightarrow> ('h, 'd) timer \<Rightarrow> ('h, 'd) timer option" where
  "timer_interrupt fl hw call t = do {
     let (n, t1) = timer_read hw t;
     q \<leftarrow> fdiv fl (of_u32 fl n) (tm_freq t1);
     ms_passed \<leftarrow> to_u32 q;
     k \<leftarrow> to_u32 (fl (fl (of_u32 fl (tm_shortest t1) * tm_freq t1) * of_u32 fl (tm_ms t1)));
     let t2 = timer_ack hw (timer_set hw k t1);
     L \<leftarrow> load (ls_lists (tm_ls t2)) (tm_hooks t2);
     hook_loop fl call ms_passed (t2\<lparr>tm_node := l_head L\<rparr>) }"

subsection \<open>Start\<close>

partial_function (option) pit_wait :: "'d hw \<Rightarrow> 'd \<Rightarrow> 'd option" where
  "pit_wait hw d = (let (b, d1) = hw_inb hw 0x61 d in if b AND 0x20 \<noteq> 0 then pit_wait hw d1 else Some d1)"

text \<open>The first of the two parts of \<^verbatim>\<open>timer_init\<close>: measuring the controller's clock against the interval timer.\<close>

definition apic_calibrate :: "rounding \<Rightarrow> 'd hw \<Rightarrow> ('h, 'd) timer \<Rightarrow> ('h, 'd) timer option" where
  "apic_calibrate fl hw t = (
     let m = apic_write hw APIC_LVT_TMR 32 (apic_write hw APIC_TMRDIV 0x3 (tm_mach t));
         (b, d1) = hw_inb hw 0x61 (mc_dev m);
         d2 = hw_outb hw 0x61 ((b AND 0xFD) OR 1) d1;
         d3 = hw_outb hw 0x43 0xB2 d2;
         d4 = hw_outb hw 0x42 0x9b d3;
         (c, d5) = hw_inb hw 0x60 d4;
         d6 = hw_outb hw 0x42 0x2e d5;
         (b1, d7) = hw_inb hw 0x61 d6;
         d8 = hw_outb hw 0x61 ((b1 AND 0xFE) OR 1) d7;
         m1 = apic_write hw APIC_TMRINITCNT 0xFFFFFFFF (m\<lparr>mc_dev := d8\<rparr>)
     in do {
       d9 \<leftarrow> pit_wait hw (mc_dev m1);
       let m2 = apic_write hw APIC_LVT_TMR 0x10000 (m1\<lparr>mc_dev := d9\<rparr>);
       let (v, m3) = apic_read hw APIC_TMRCURRCNT m2;
       let count = 0xFFFFFFFF - v;
       let count1 = count * 100;
       let m4 = apic_write hw APIC_LVT_TMR 32 (apic_write hw APIC_TMRDIV 0x3 m3);
       Some (t\<lparr>tm_base_freq := count, tm_freq_1s := count1, tm_freq := of_u32 fl (count1 div 1000000), tm_ms := 1000,
         tm_apic := True, tm_mach := m4\<rparr>) })"

definition pit_start :: "rounding \<Rightarrow> 'd hw \<Rightarrow> ('h, 'd) timer \<Rightarrow> ('h, 'd) timer" where
  "pit_start fl hw t = on_dev (\<lambda>d. pit_set_mode hw 0 (pit_set_count hw 0 d))
     (t\<lparr>tm_freq := of_u32 fl (PIT_BASE_HZ div 100000), tm_freq_1s := 0, tm_ms := 1\<rparr>)"

text \<open>\<open>isr\<close> and \<open>tick\<close> are the addresses of \<^verbatim>\<open>timer_interrupt\<close> and \<^verbatim>\<open>one_tick\<close>.\<close>

definition timer_init :: "rounding \<Rightarrow> 'd hw \<Rightarrow> 'h alloc_fn \<Rightarrow> addr \<Rightarrow> addr \<Rightarrow> ('h, 'd) timer \<Rightarrow> (int \<times> ('h, 'd) timer) option" where
  "timer_init fl hw alloc isr tick t = do {
     t1 \<leftarrow> (if mc_apic (tm_mach t) then apic_calibrate fl hw t else Some (pit_start fl hw t));
     (l, ls) \<leftarrow> new_list alloc (tm_ls t1);
     irq \<leftarrow> irq_addHandler 0 isr (tm_irq t1);
     (c, t2) \<leftarrow> timer_add_clock fl hw alloc tick 1000 (t1\<lparr>tm_hooks := l, tm_ls := ls, tm_irq := irq\<rparr>);
     Some (0, t2) }"

end
