(* ===== verification/Timer_Props.thy ===== *)
theory Timer_Props
  imports Timer Kernel_Machine
begin

text \<open>
  What is proved of the clocks: the module keeps track of the shortest one, and what happens when clocks are removed.
\<close>

subsection \<open>Numbers\<close>

text \<open>
  What holds of the rounding of IEEE numbers of at least 24 bits of precision, in every rounding mode: it is monotone and leaves
  alone what has at most 24 bits.
\<close>

definition sound_fl :: "rounding \<Rightarrow> bool" where
  "sound_fl fl \<longleftrightarrow> mono fl \<and> (\<forall>n k. \<bar>n\<bar> \<le> 2 ^ 24 \<longrightarrow> k \<le> 40 \<longrightarrow> fl (of_int n * 2 ^ k) = of_int n * 2 ^ k)"

lemma fl_int: "sound_fl fl \<Longrightarrow> \<bar>n\<bar> \<le> 2 ^ 24 \<Longrightarrow> fl (of_int n) = of_int n"
  unfolding sound_fl_def by (drule conjunct2, drule spec [of _ n], drule spec [of _ "0 :: nat"]) simp

lemma fl_pow: "sound_fl fl \<Longrightarrow> k \<le> 40 \<Longrightarrow> fl (2 ^ k) = 2 ^ k"
  unfolding sound_fl_def by (drule conjunct2, drule spec [of _ 1], drule spec [of _ k]) simp

lemma fl_mono: "sound_fl fl \<Longrightarrow> x \<le> y \<Longrightarrow> fl x \<le> fl y"
  by (simp add: sound_fl_def mono_def)

lemma fl_0: "sound_fl fl \<Longrightarrow> fl 0 = 0" and fl_1: "sound_fl fl \<Longrightarrow> fl 1 = 1"
  using fl_int [of fl 0] fl_int [of fl 1] by simp_all

lemma fl_nonneg: "sound_fl fl \<Longrightarrow> 0 \<le> x \<Longrightarrow> 0 \<le> fl x"
  using fl_mono [of fl 0 x] fl_0 [of fl] by simp

lemma fl_le_pow: "sound_fl fl \<Longrightarrow> x \<le> 2 ^ k \<Longrightarrow> k \<le> 40 \<Longrightarrow> fl x \<le> 2 ^ k"
  using fl_mono [of fl x "2 ^ k"] fl_pow [of fl k] by simp

lemma of_u32_bounds: "sound_fl fl \<Longrightarrow> 0 \<le> of_u32 fl w \<and> of_u32 fl w \<le> 2 ^ 32"
proof -
  assume fl: "sound_fl fl"
  define n where "n = unat w"
  have "n \<le> 2 ^ 32" using u32_bound [of w] by (simp add: n_def)
  then have "(of_nat n :: rat) \<le> of_nat (2 ^ 32)" by (rule of_nat_mono)
  then have "(of_nat n :: rat) \<le> 2 ^ 32" by simp
  then have "0 \<le> fl (of_nat n) \<and> fl (of_nat n) \<le> 2 ^ 32" using fl_nonneg [OF fl, of "of_nat n"] fl_le_pow [OF fl, of _ 32] by simp
  then show ?thesis by (simp only: of_u32_def n_def)
qed

lemma of_u32_small: "sound_fl fl \<Longrightarrow> unat w = n \<Longrightarrow> n \<le> 2 ^ 24 \<Longrightarrow> of_u32 fl w = of_nat n"
  using fl_int [of fl "int n"] by (simp only: of_u32_def) simp

lemma of_u32_ge_1: "sound_fl fl \<Longrightarrow> w \<noteq> 0 \<Longrightarrow> 1 \<le> of_u32 fl w"
proof -
  assume fl: "sound_fl fl" and w: "w \<noteq> 0"
  define n where "n = unat w"
  have "1 \<le> n" using w unat_gt_0 [of w] by (simp add: n_def)
  then have "(1 :: rat) \<le> of_nat n" by simp
  then have "1 \<le> fl (of_nat n)" using fl_mono [OF fl] fl_1 [OF fl] by metis
  then show ?thesis by (simp only: of_u32_def n_def)
qed

lemma to_u32_some: "0 \<le> x \<Longrightarrow> x < 2 ^ 32 \<Longrightarrow> to_u32 x = Some (of_int \<lfloor>x\<rfloor>)"
  by (simp add: to_u32_def)

lemma unat_floor:
  fixes x :: rat
  assumes "0 \<le> x" and "x < 2 ^ 32"
  shows "int (unat (of_int \<lfloor>x\<rfloor> :: u32)) = \<lfloor>x\<rfloor>"
proof -
  have "0 \<le> \<lfloor>x\<rfloor>" "\<lfloor>x\<rfloor> < 2 ^ 32" using assms by (simp_all add: floor_less_iff)
  then show ?thesis by (simp add: uint_word_of_int flip: uint_nat)
qed

subsection \<open>Adding a clock\<close>

definition timer_ok :: "(kheap, 'd) timer \<Rightarrow> addr list \<Rightarrow> bool" where
  "timer_ok t cs \<longleftrightarrow> kh.lists_ok (tm_ls t) \<and> (\<exists>xs. list_rep (tm_ls t) (tm_hooks t) False xs cs) \<and> distinct cs \<and>
     dom (tm_clocks t) = set cs \<and> (\<forall>c \<in> set cs. \<exists>m. (unat c, m) \<in> kheap_used (ls_heap (tm_ls t)))"

text \<open>The counts for clocks of up to \<open>B\<close> milliseconds fit into a word.\<close>

definition timer_ready :: "rounding \<Rightarrow> rat \<Rightarrow> ('h, 'd) timer \<Rightarrow> bool" where
  "timer_ready fl B t \<longleftrightarrow> B \<le> 2 ^ 24 \<and> 2 \<le> tm_freq t \<and> tm_ms t \<noteq> 0 \<and> fl (fl (B * of_u32 fl (tm_ms t)) * tm_freq t) < 2 ^ 32"

lemma timer_read_same:
  "tm_ls (snd (timer_read hw t)) = tm_ls t \<and> tm_clocks (snd (timer_read hw t)) = tm_clocks t \<and> tm_freq (snd (timer_read hw t)) = tm_freq t \<and>
   tm_ms (snd (timer_read hw t)) = tm_ms t \<and> tm_shortest (snd (timer_read hw t)) = tm_shortest t \<and> tm_clock (snd (timer_read hw t)) = tm_clock t \<and>
   tm_hooks (snd (timer_read hw t)) = tm_hooks t \<and> tm_apic (snd (timer_read hw t)) = tm_apic t"
  by (simp add: timer_read_def on_dev_def split: prod.splits)

lemma timer_set_same [simp]:
  "tm_ls (timer_set hw k t) = tm_ls t" "tm_clocks (timer_set hw k t) = tm_clocks t" "tm_freq (timer_set hw k t) = tm_freq t"
  "tm_ms (timer_set hw k t) = tm_ms t" "tm_shortest (timer_set hw k t) = tm_shortest t" "tm_clock (timer_set hw k t) = tm_clock t"
  "tm_hooks (timer_set hw k t) = tm_hooks t" "tm_apic (timer_set hw k t) = tm_apic t"
  by (simp_all add: timer_set_def on_dev_def)

lemma passed_some:
  assumes fl: "sound_fl fl" and "2 \<le> f" and "k \<noteq> (0 :: u32)"
  shows "\<exists>q w. fdiv fl (of_u32 fl n) f = Some q \<and> (\<exists>q1. fdiv fl q (of_u32 fl k) = Some q1 \<and> to_u32 q1 = Some w)"
proof -
  let ?q = "fl (of_u32 fl n / f)" and ?m = "of_u32 fl k"
  have n: "0 \<le> of_u32 fl n" "of_u32 fl n \<le> 2 ^ 32" using of_u32_bounds [OF fl] by auto
  have "of_u32 fl n / f \<le> 2 ^ 32 / 2" by (rule frac_le) (use n assms(2) in simp_all)
  then have q: "0 \<le> ?q" "?q \<le> 2 ^ 31" using fl_nonneg [OF fl, of "of_u32 fl n / f"] fl_le_pow [OF fl, of _ 31] n assms(2) by simp_all
  have m: "1 \<le> ?m" by (rule of_u32_ge_1 [OF fl assms(3)])
  have "?q / ?m \<le> 2 ^ 31 / 1" by (rule frac_le) (use q m in simp_all)
  then have "0 \<le> fl (?q / ?m)" "fl (?q / ?m) \<le> 2 ^ 31" using fl_nonneg [OF fl, of "?q / ?m"] fl_le_pow [OF fl, of _ 31] q m by simp_all
  then have "to_u32 (fl (?q / ?m)) = Some (of_int \<lfloor>fl (?q / ?m)\<rfloor>)" by (intro to_u32_some) simp_all
  then show ?thesis using assms(2) m by (auto simp: fdiv_def)
qed

lemma ms_count_some:
  assumes fl: "sound_fl fl" and "timer_ready fl B t" and "0 \<le> ms" "ms \<le> B" and "tm_freq t' = tm_freq t" "tm_ms t' = tm_ms t"
  shows "\<exists>k. ms_count fl ms t' = Some k"
proof -
  let ?m = "of_u32 fl (tm_ms t)"
  have m: "0 \<le> ?m" "2 \<le> tm_freq t" using of_u32_bounds [OF fl] assms(2) by (auto simp: timer_ready_def)
  have a: "fl (ms * ?m) \<le> fl (B * ?m)" by (intro fl_mono [OF fl] mult_right_mono assms(4) m)
  have "fl (fl (ms * ?m) * tm_freq t) \<le> fl (fl (B * ?m) * tm_freq t)" by (rule fl_mono [OF fl mult_right_mono [OF a]]) (use m in simp)
  also have "\<dots> < 2 ^ 32" using assms(2) by (simp add: timer_ready_def)
  finally have "fl (fl (ms * ?m) * tm_freq t) < 2 ^ 32" .
  moreover have "0 \<le> fl (fl (ms * ?m) * tm_freq t)" using assms(3) m by (intro fl_nonneg [OF fl] mult_nonneg_nonneg) simp_all
  ultimately show ?thesis using to_u32_some assms(5,6) by (auto simp: ms_count_def)
qed

text \<open>A new clock lies apart from the others and is at the end of the list.\<close>

lemma clock_listed:
  fixes t :: "(kheap, 'd) timer"
  assumes ok: "timer_ok t cs" and len: "length cs < 2 ^ 31" and room: "32 \<le> kheap_bytes_left (ls_heap (tm_ls t))" "2 \<le> kheap_allocs_left (ls_heap (tm_ls t))"
  shows "\<exists>c h r ls. kalloc 12 (ls_heap (tm_ls t)) = Some (c, h) \<and> c \<noteq> 0 \<and> c \<notin> set cs \<and>
    list_push kalloc (tm_hooks t) c ((tm_ls t)\<lparr>ls_heap := h\<rparr>) = Some (r, ls) \<and>
    kheap_bytes_left (ls_heap (tm_ls t)) - 32 \<le> kheap_bytes_left (ls_heap ls) \<and> kheap_allocs_left (ls_heap (tm_ls t)) - 2 \<le> kheap_allocs_left (ls_heap ls) \<and>
    (\<forall>t' :: (kheap, 'd) timer. tm_ls t' = ls \<longrightarrow> tm_hooks t' = tm_hooks t \<longrightarrow> dom (tm_clocks t') = insert c (dom (tm_clocks t)) \<longrightarrow> timer_ok t' (cs @ [c]))"
proof -
  let ?l = "tm_ls t"
  obtain xs where l: "kh.lists_ok ?l" "list_rep ?l (tm_hooks t) False xs cs" "distinct cs" "dom (tm_clocks t) = set cs"
    "\<forall>c \<in> set cs. \<exists>m. (unat c, m) \<in> kheap_used (ls_heap ?l)" using ok by (auto simp: timer_ok_def)
  have r: "roundup16 (unat (12 :: u32)) \<le> kheap_bytes_left (ls_heap ?l)" "0 < kheap_allocs_left (ls_heap ?l)" "(12 :: u32) \<noteq> 0" "kheap_inv (ls_heap ?l)"
    using room l(1) by (simp_all add: roundup16_def kh.lists_ok_def)
  obtain c h m where c: "kalloc 12 (ls_heap ?l) = Some (c, h)" "kheap_inv h" "(unat c, m) \<notin> kheap_used (ls_heap ?l)"
    "kheap_used h = insert (unat c, m) (kheap_used (ls_heap ?l))" "kheap_bytes_left (ls_heap ?l) - 16 \<le> kheap_bytes_left h"
    "kheap_allocs_left (ls_heap ?l) - 1 \<le> kheap_allocs_left h"
    using kh.alloc_ok [OF r(4,3,1,2)] by (auto simp: roundup16_def)
  have used: "(unat c, m) \<in> kheap_used h" using c(4) by simp
  have c0: "c \<noteq> 0" using kh.used_pos [OF c(2) used] by auto
  have cs: "c \<notin> set cs"
  proof
    assume "c \<in> set cs"
    then obtain k where k: "(unat c, k) \<in> kheap_used (ls_heap ?l)" using l(5) by blast
    then have "k = m" using kh.same_start [OF c(2) _ used, of k] c(4) by simp
    then show False using k c(3) by simp
  qed
  let ?l1 = "?l\<lparr>ls_heap := h\<rparr>"
  have l1: "kh.lists_ok ?l1" "list_rep ?l1 (tm_hooks t) False xs cs" using l(1,2) c(2,4) by (auto simp: kh.lists_ok_def list_rep_def)
  have r1: "roundup16 12 \<le> kheap_bytes_left (ls_heap ?l1)" "0 < kheap_allocs_left (ls_heap ?l1)"
    using room c(5,6) by (simp_all add: roundup16_def)
  obtain ls p where p: "list_push kalloc (tm_hooks t) c ?l1 = Some (int (length cs), ls)" "list_rep ls (tm_hooks t) False (xs @ [p]) (cs @ [c])" "kh.lists_ok ls"
    "kheap_bytes_left h - 16 \<le> kheap_bytes_left (ls_heap ls)" "kheap_allocs_left h - 1 \<le> kheap_allocs_left (ls_heap ls)" "kheap_used h \<subseteq> kheap_used (ls_heap ls)"
    using kh.list_push_ok [OF l1 len r1, of c] by (auto simp: roundup16_def)
  have "\<forall>x \<in> set (cs @ [c]). \<exists>m. (unat x, m) \<in> kheap_used (ls_heap ls)" using l(5) p(6) c(4) by (auto; blast)
  then have "timer_ok t' (cs @ [c])" if "tm_ls t' = ls" "tm_hooks t' = tm_hooks t" "dom (tm_clocks t') = insert c (dom (tm_clocks t))" for t'
    using that p(2,3) l(3,4) cs unfolding timer_ok_def by auto
  then show ?thesis using c(1,5,6) c0 cs p(1,4,5)
    by (intro exI [of _ c] exI [of _ h] exI [of _ "int (length cs)"] exI [of _ ls]) auto
qed

text \<open>One clock more.\<close>

definition clock_added :: "rounding \<Rightarrow> addr \<Rightarrow> rat \<Rightarrow> addr \<Rightarrow> ('h, 'd) timer \<Rightarrow> ('h, 'd) timer \<Rightarrow> bool" where
  "clock_added fl hook ms c t t' \<longleftrightarrow> tm_clocks t' = (tm_clocks t)(c \<mapsto> \<lparr>c_hook = hook, c_ms = ms, c_left = ms\<rparr>) \<and>
     tm_hooks t' = tm_hooks t \<and> tm_freq t' = tm_freq t \<and> tm_ms t' = tm_ms t \<and>
     (if ms < of_u32 fl (tm_shortest t) \<or> tm_clock t = 0 then tm_shortest t' = of_int \<lfloor>ms\<rfloor> \<and> tm_clock t' = c
      else tm_shortest t' = tm_shortest t \<and> tm_clock t' = tm_clock t)"

lemma timer_add_ok:
  fixes hw :: "'d hw" and t :: "(kheap, 'd) timer"
  assumes fl: "sound_fl fl" and rdy: "timer_ready fl B t" and ok: "timer_ok t cs" and len: "length cs < 2 ^ 31" and ms: "0 \<le> ms" "ms \<le> B"
    and room: "32 \<le> kheap_bytes_left (ls_heap (tm_ls t))" "2 \<le> kheap_allocs_left (ls_heap (tm_ls t))"
  shows "\<exists>c t'. timer_add_clock fl hw kalloc hook ms t = Some (c, t') \<and> c \<noteq> 0 \<and> c \<notin> set cs \<and> timer_ok t' (cs @ [c]) \<and> clock_added fl hook ms c t t' \<and>
    kheap_bytes_left (ls_heap (tm_ls t)) - 32 \<le> kheap_bytes_left (ls_heap (tm_ls t')) \<and>
    kheap_allocs_left (ls_heap (tm_ls t)) - 2 \<le> kheap_allocs_left (ls_heap (tm_ls t'))"
proof -
  obtain c h r ls where c: "kalloc 12 (ls_heap (tm_ls t)) = Some (c, h)" "c \<noteq> 0" "c \<notin> set cs"
    "list_push kalloc (tm_hooks t) c ((tm_ls t)\<lparr>ls_heap := h\<rparr>) = Some (r, ls)"
    "kheap_bytes_left (ls_heap (tm_ls t)) - 32 \<le> kheap_bytes_left (ls_heap ls)" "kheap_allocs_left (ls_heap (tm_ls t)) - 2 \<le> kheap_allocs_left (ls_heap ls)"
    and inv: "\<forall>t' :: (kheap, 'd) timer. tm_ls t' = ls \<longrightarrow> tm_hooks t' = tm_hooks t \<longrightarrow> dom (tm_clocks t') = insert c (dom (tm_clocks t)) \<longrightarrow> timer_ok t' (cs @ [c])"
    using clock_listed [OF ok len room] by blast
  let ?t1 = "t\<lparr>tm_clocks := (tm_clocks t)(c \<mapsto> \<lparr>c_hook = hook, c_ms = ms, c_left = ms\<rparr>), tm_ls := ls\<rparr>"
  obtain n t2 where n: "timer_read hw ?t1 = (n, t2)" by (cases "timer_read hw ?t1")
  then have t2: "tm_ls t2 = ls" "tm_clocks t2 = tm_clocks ?t1" "tm_freq t2 = tm_freq t" "tm_ms t2 = tm_ms t" "tm_shortest t2 = tm_shortest t"
    "tm_clock t2 = tm_clock t" "tm_hooks t2 = tm_hooks t" using timer_read_same [of hw ?t1] by simp_all
  have f: "2 \<le> tm_freq t" "tm_ms t \<noteq> 0" and B: "B \<le> 2 ^ 24" using rdy by (simp_all add: timer_ready_def)
  obtain q q1 p where q: "fdiv fl (of_u32 fl n) (tm_freq t) = Some q" "fdiv fl q (of_u32 fl (tm_ms t)) = Some q1" "to_u32 q1 = Some p"
    using passed_some [OF fl f, of n] by blast
  have "\<exists>k. ms_count fl ms u = Some k" if "tm_freq u = tm_freq t" "tm_ms u = tm_ms t" for u :: "(kheap, 'd) timer"
    by (rule ms_count_some [OF fl rdy ms that])
  then obtain count where count: "ms_count fl ms u = Some (count u)" if "tm_freq u = tm_freq t" "tm_ms u = tm_ms t" for u :: "(kheap, 'd) timer"
    by metis
  have w: "to_u32 ms = Some (of_int \<lfloor>ms\<rfloor>)" using ms B by (intro to_u32_some) simp_all
  let ?b = "of_u32 fl (tm_shortest t * tm_ms t - p) > fl (ms * of_u32 fl (tm_ms t))"
  let ?t3 = "if ?b then timer_set hw (count t2) t2 else t2"
  let ?t4 = "if tm_clock t = 0 then timer_set hw (count ?t3) ?t3 else ?t3"
  let ?t' = "if of_u32 fl (tm_shortest t) > ms \<or> tm_clock t = 0 then ?t4\<lparr>tm_shortest := of_int \<lfloor>ms\<rfloor>, tm_clock := c\<rparr> else ?t3"
  have t3: "tm_ls ?t3 = ls" "tm_clocks ?t3 = tm_clocks ?t1" "tm_freq ?t3 = tm_freq t" "tm_ms ?t3 = tm_ms t" "tm_shortest ?t3 = tm_shortest t"
    "tm_clock ?t3 = tm_clock t" "tm_hooks ?t3 = tm_hooks t" by (simp_all add: t2)
  have run: "timer_add_clock fl hw kalloc hook ms t = Some (c, ?t')"
    using c(1,2,4) n q w t2 by (simp add: timer_add_clock_def Let_def count)
  have ad: "clock_added fl hook ms c t ?t'" and ls: "tm_ls ?t' = ls" by (simp_all add: clock_added_def t3)
  then have "timer_ok ?t' (cs @ [c])" using inv [rule_format, of ?t'] by (simp add: clock_added_def)
  then show ?thesis using run ad ls c(2,3,5,6) by (intro exI [of _ c] exI [of _ ?t']) simp
qed

fun timer_add_all :: "rounding \<Rightarrow> 'd hw \<Rightarrow> 'h alloc_fn \<Rightarrow> (addr \<times> rat) list \<Rightarrow> ('h, 'd) timer \<Rightarrow> ('h, 'd) timer option" where
  "timer_add_all fl hw alloc [] t = Some t"
| "timer_add_all fl hw alloc ((hook, ms) # ks) t = do { (c, t1) \<leftarrow> timer_add_clock fl hw alloc hook ms t; timer_add_all fl hw alloc ks t1 }"

text \<open>The module knows the clocks \<open>cs\<close>, whose times are \<open>mss\<close>, and the shortest of them.\<close>

definition knows_shortest :: "('h, 'd) timer \<Rightarrow> addr list \<Rightarrow> rat list \<Rightarrow> bool" where
  "knows_shortest t cs mss \<longleftrightarrow> map (\<lambda>c. map_option c_ms (tm_clocks t c)) cs = map Some mss \<and>
     (\<forall>m \<in> set mss. of_nat (unat (tm_shortest t)) \<le> m) \<and> unat (tm_shortest t) \<le> 2 ^ 24 \<and>
     (cs = [] \<and> tm_clock t = 0 \<and> tm_shortest t = 0 \<or>
      tm_clock t \<noteq> 0 \<and> (\<exists>i < length cs. cs ! i = tm_clock t \<and> tm_shortest t = of_int \<lfloor>mss ! i\<rfloor> \<and>
        (\<forall>j < i. of_nat (unat (tm_shortest t)) + 1 \<le> mss ! j)))"

lemma knows_shortest_added:
  assumes fl: "sound_fl fl" and k: "knows_shortest t cs mss" and ad: "clock_added fl hook ms c t t'" and c: "c \<noteq> 0" "c \<notin> set cs" and ms: "0 \<le> ms" "ms \<le> 2 ^ 24"
  shows "knows_shortest t' (cs @ [c]) (mss @ [ms])"
proof -
  have len: "length mss = length cs" using k unfolding knows_shortest_def by (metis length_map)
  have cl: "tm_clocks t' = (tm_clocks t)(c \<mapsto> \<lparr>c_hook = hook, c_ms = ms, c_left = ms\<rparr>)" using ad by (simp add: clock_added_def)
  have m: "map (\<lambda>c. map_option c_ms (tm_clocks t' c)) (cs @ [c]) = map Some (mss @ [ms])"
  proof -
    have "map (\<lambda>c. map_option c_ms (tm_clocks t' c)) cs = map (\<lambda>c. map_option c_ms (tm_clocks t c)) cs" using c(2) cl by auto
    also have "\<dots> = map Some mss" using k by (simp add: knows_shortest_def)
    finally show ?thesis using cl by simp
  qed
  have sm: "of_u32 fl (tm_shortest t) = of_nat (unat (tm_shortest t))" using k of_u32_small [OF fl refl] by (simp only: knows_shortest_def)
  show ?thesis
  proof (cases "ms < of_u32 fl (tm_shortest t) \<or> tm_clock t = 0")
    case True
    then have s: "tm_shortest t' = of_int \<lfloor>ms\<rfloor>" "tm_clock t' = c" using ad by (simp_all add: clock_added_def)
    have u: "int (unat (tm_shortest t')) = \<lfloor>ms\<rfloor>" unfolding s(1) by (rule unat_floor) (use ms in simp_all)
    then have le: "of_nat (unat (tm_shortest t')) \<le> ms" by (metis of_int_floor_le of_int_of_nat_eq)
    have "of_nat (unat (tm_shortest t')) \<le> x" if x: "x \<in> set mss" for x
    proof -
      have "tm_clock t \<noteq> 0" using k x len by (auto simp: knows_shortest_def)
      then have "ms < of_nat (unat (tm_shortest t))" using True sm by simp
      moreover have "of_nat (unat (tm_shortest t)) \<le> x" using k x by (simp only: knows_shortest_def)
      ultimately show ?thesis using le by linarith
    qed
    moreover have "\<lfloor>ms\<rfloor> \<le> 2 ^ 24" using ms(2) by (simp add: floor_le_iff)
    then have "int (unat (tm_shortest t')) \<le> int (2 ^ 24)" unfolding u by simp
    then have "unat (tm_shortest t') \<le> 2 ^ 24" by (simp only: of_nat_le_iff)
    moreover have "of_nat (unat (tm_shortest t')) + 1 \<le> mss ! j" if j: "j < length cs" for j
    proof -
      have x: "mss ! j \<in> set mss" "tm_clock t \<noteq> 0" using j len k by (auto simp: knows_shortest_def)
      then have "ms < of_nat (unat (tm_shortest t))" "of_nat (unat (tm_shortest t)) \<le> mss ! j" using True sm k by (auto simp only: knows_shortest_def)
      moreover from this(1) le have "(of_nat (unat (tm_shortest t')) :: rat) < of_nat (unat (tm_shortest t))" by (rule le_less_trans [rotated])
      then have "unat (tm_shortest t') + 1 \<le> unat (tm_shortest t)" by (simp only: of_nat_less_iff Suc_eq_plus1 [symmetric] Suc_le_eq)
      then have "(of_nat (unat (tm_shortest t') + 1) :: rat) \<le> of_nat (unat (tm_shortest t))" by (simp only: of_nat_le_iff)
      ultimately show ?thesis by simp
    qed
    then have "\<exists>i < length (cs @ [c]). (cs @ [c]) ! i = tm_clock t' \<and> tm_shortest t' = of_int \<lfloor>(mss @ [ms]) ! i\<rfloor> \<and>
        (\<forall>j < i. of_nat (unat (tm_shortest t')) + 1 \<le> (mss @ [ms]) ! j)"
      by (intro exI [of _ "length cs"]) (use s len in \<open>simp add: nth_append\<close>)
    ultimately show ?thesis using m le s(2) c(1) unfolding knows_shortest_def by simp
  next
    case False
    then have s: "tm_shortest t' = tm_shortest t" "tm_clock t' = tm_clock t" using ad by (simp_all add: clock_added_def)
    obtain i where i: "i < length cs" "cs ! i = tm_clock t" "tm_shortest t = of_int \<lfloor>mss ! i\<rfloor>" "\<forall>j < i. of_nat (unat (tm_shortest t)) + 1 \<le> mss ! j"
      using k False by (auto simp: knows_shortest_def)
    have "\<exists>i < length (cs @ [c]). (cs @ [c]) ! i = tm_clock t' \<and> tm_shortest t' = of_int \<lfloor>(mss @ [ms]) ! i\<rfloor> \<and>
        (\<forall>j < i. of_nat (unat (tm_shortest t')) + 1 \<le> (mss @ [ms]) ! j)"
      by (rule exI [of _ i]) (use s len i in \<open>simp add: nth_append\<close>)
    then show ?thesis using m k s False sm unfolding knows_shortest_def by (simp add: not_less)
  qed
qed

lemma timer_add_all_ok:
  assumes fl: "sound_fl fl" and "timer_ready fl B t" and "timer_ok t cs" and "knows_shortest t cs mss" and "\<forall>(h, ms) \<in> set ks. 0 \<le> ms \<and> ms \<le> B"
    and "length cs + length ks < 2 ^ 31"
    and "32 * length ks \<le> kheap_bytes_left (ls_heap (tm_ls t))" "2 * length ks \<le> kheap_allocs_left (ls_heap (tm_ls t))"
  shows "\<exists>t' cs'. timer_add_all fl hw kalloc ks t = Some t' \<and> timer_ok t' cs' \<and> knows_shortest t' cs' (mss @ map snd ks)"
  using assms(2-)
proof (induction ks arbitrary: t cs mss)
  case Nil
  then show ?case by auto
next
  case (Cons k ks)
  obtain hook ms where k: "k = (hook, ms)" by (cases k)
  have ms: "0 \<le> ms" "ms \<le> B" "B \<le> 2 ^ 24" using Cons.prems(1,4) k by (auto simp: timer_ready_def)
  have r: "length cs < 2 ^ 31" "32 \<le> kheap_bytes_left (ls_heap (tm_ls t))" "2 \<le> kheap_allocs_left (ls_heap (tm_ls t))" using Cons.prems(5-7) by simp_all
  obtain c t1 where c: "timer_add_clock fl hw kalloc hook ms t = Some (c, t1)" "c \<noteq> 0" "c \<notin> set cs" "timer_ok t1 (cs @ [c])" "clock_added fl hook ms c t t1"
    "kheap_bytes_left (ls_heap (tm_ls t)) - 32 \<le> kheap_bytes_left (ls_heap (tm_ls t1))" "kheap_allocs_left (ls_heap (tm_ls t)) - 2 \<le> kheap_allocs_left (ls_heap (tm_ls t1))"
    using timer_add_ok [OF fl Cons.prems(1,2) r(1) ms(1,2) r(2,3)] by blast
  have kn: "knows_shortest t1 (cs @ [c]) (mss @ [ms])" using knows_shortest_added [OF fl Cons.prems(3) c(5,2,3) ms(1)] ms(2,3) by simp
  have rdy: "timer_ready fl B t1" using Cons.prems(1) c(5) by (simp add: timer_ready_def clock_added_def)
  have rest: "\<forall>(h, ms) \<in> set ks. 0 \<le> ms \<and> ms \<le> B" "length (cs @ [c]) + length ks < 2 ^ 31"
    "32 * length ks \<le> kheap_bytes_left (ls_heap (tm_ls t1))" "2 * length ks \<le> kheap_allocs_left (ls_heap (tm_ls t1))"
    using Cons.prems(4-7) c(6,7) by auto
  from Cons.IH [OF rdy c(4) kn rest] c(1) k show ?case by auto
qed

text \<open>
  The first of the clocks whose time, cut to whole milliseconds, is the least; where all times are whole, it has the least time.
\<close>

definition first_least :: "addr list \<Rightarrow> rat list \<Rightarrow> addr \<Rightarrow> bool" where
  "first_least cs mss c \<longleftrightarrow> (\<exists>i < length cs. cs ! i = c \<and> \<lfloor>mss ! i\<rfloor> = \<lfloor>Min (set mss)\<rfloor> \<and> (\<forall>j < i. \<lfloor>Min (set mss)\<rfloor> < \<lfloor>mss ! j\<rfloor>))"

lemma knows_shortest_Min:
  assumes k: "knows_shortest t cs mss" and "cs \<noteq> []" and "\<forall>m \<in> set mss. 0 \<le> m \<and> m \<le> 2 ^ 24"
  shows "int (unat (tm_shortest t)) = \<lfloor>Min (set mss)\<rfloor> \<and> first_least cs mss (tm_clock t)"
proof -
  have len: "length mss = length cs" using k unfolding knows_shortest_def by (metis length_map)
  obtain i where i: "i < length cs" "cs ! i = tm_clock t" "tm_shortest t = of_int \<lfloor>mss ! i\<rfloor>" "\<forall>j < i. of_nat (unat (tm_shortest t)) + 1 \<le> mss ! j"
    using k assms(2) by (auto simp: knows_shortest_def)
  have m: "mss ! i \<in> set mss" using i(1) len by simp
  then have u: "int (unat (tm_shortest t)) = \<lfloor>mss ! i\<rfloor>" unfolding i(3) by (intro unat_floor) (use assms(3) in fastforce)+
  have "Min (set mss) \<in> set mss" using m by (intro Min_in) auto
  then have "of_nat (unat (tm_shortest t)) \<le> Min (set mss)" using k by (simp only: knows_shortest_def)
  then have "of_int (int (unat (tm_shortest t))) \<le> Min (set mss)" by (simp only: of_int_of_nat_eq)
  then have "int (unat (tm_shortest t)) \<le> \<lfloor>Min (set mss)\<rfloor>" by (simp only: le_floor_iff)
  moreover have "\<lfloor>Min (set mss)\<rfloor> \<le> \<lfloor>mss ! i\<rfloor>" using m by (intro floor_mono Min_le) simp_all
  ultimately have f: "int (unat (tm_shortest t)) = \<lfloor>Min (set mss)\<rfloor>" using u by simp
  have "\<lfloor>Min (set mss)\<rfloor> < \<lfloor>mss ! j\<rfloor>" if "j < i" for j
  proof -
    have "of_int (int (unat (tm_shortest t)) + 1) \<le> mss ! j" using i(4) that by simp
    then have "int (unat (tm_shortest t)) + 1 \<le> \<lfloor>mss ! j\<rfloor>" by (simp only: le_floor_iff)
    then show ?thesis using f by simp
  qed
  then show ?thesis using f u i(1,2) by (auto simp: first_least_def)
qed

lemma first_least_whole:
  assumes "first_least cs mss c" and "length mss = length cs" and "set mss \<subseteq> \<int>"
  shows "\<exists>i < length cs. cs ! i = c \<and> mss ! i = Min (set mss)"
proof -
  obtain i where i: "i < length cs" "cs ! i = c" "\<lfloor>mss ! i\<rfloor> = \<lfloor>Min (set mss)\<rfloor>" using assms(1) by (auto simp: first_least_def)
  then have m: "mss ! i \<in> set mss" using assms(2) by simp
  then have "Min (set mss) \<in> set mss" by (intro Min_in) auto
  then have "mss ! i \<in> \<int>" "Min (set mss) \<in> \<int>" using m assms(3) by auto
  then have "mss ! i = Min (set mss)" using i(3) by (metis of_int_floor)
  then show ?thesis using i(1,2) by blast
qed

definition timer_rate :: "rounding \<Rightarrow> 'd hw \<Rightarrow> ('h, 'd) timer \<Rightarrow> ('h, 'd) timer option" where
  "timer_rate fl hw t = (if mc_apic (tm_mach t) then apic_calibrate fl hw t else Some (pit_start fl hw t))"

lemma timer_rate_same:
  assumes "timer_rate fl hw t = Some t0"
  shows "tm_ls t0 = tm_ls t" "tm_clocks t0 = tm_clocks t" "tm_shortest t0 = tm_shortest t" "tm_clock t0 = tm_clock t" "tm_irq t0 = tm_irq t"
  using assms by (auto simp: timer_rate_def pit_start_def on_dev_def apic_calibrate_def Let_def Option.bind_eq_Some_conv case_prod_unfold split: if_splits)

text \<open>
  C19 (invariant): the shortest clock. If the rate measured by \<open>timer_init\<close> is at least 2 and the counts of the times asked for fit into
  a word, then starting the module and adding any clocks leads to a list of these clocks in order, after that of
  1000 ms made at the start, and \<^verbatim>\<open>timer_shortest\<close> is the least of their times, cut to whole milliseconds;
  \<^verbatim>\<open>shortest_clock\<close> is the first of the clocks whose time, cut to whole milliseconds, is this number. (Of two clocks in the same
  millisecond it is the older one, even if the newer one is shorter; where all times are whole, it has the least time.)
\<close>

theorem timer_finds_shortest:
  fixes t :: "(kheap, 'd) timer"
  assumes fl: "sound_fl fl" and rate: "timer_rate fl hw t = Some t0" and rdy: "timer_ready fl B t0" and "1000 \<le> B"
    and fresh: "tm_ls t = no_lists (heap_init a)" "a \<noteq> 0" "tm_clocks t = Map.empty" "tm_clock t = 0" "tm_shortest t = 0" "length (tm_irq t) = 224"
    and ks: "\<forall>(h, ms) \<in> set ks. 0 \<le> ms \<and> ms \<le> B" and room: "32 * length ks \<le> 0x1EFF0000" "2 * length ks + 3 \<le> (2 ^ 32 - 1 - unat a) div 16"
  shows "\<exists>t1 t2 cs xs. timer_init fl hw kalloc isr tk t = Some (0, t1) \<and> timer_add_all fl hw kalloc ks t1 = Some t2 \<and>
    list_rep (tm_ls t2) (tm_hooks t2) False xs cs \<and> map (\<lambda>c. map_option c_ms (tm_clocks t2 c)) cs = map Some (1000 # map snd ks) \<and>
    int (unat (tm_shortest t2)) = \<lfloor>Min (set (1000 # map snd ks))\<rfloor> \<and>
    first_least cs (1000 # map snd ks) (tm_clock t2) \<and>
    (set (map snd ks) \<subseteq> \<int> \<longrightarrow> (\<exists>i < length cs. cs ! i = tm_clock t2 \<and> (1000 # map snd ks) ! i = Min (set (1000 # map snd ks))))"
proof -
  note same = timer_rate_same [OF rate]
  have ls0: "kh.lists_ok (no_lists (heap_init a))" using heap_init_inv [OF fresh(2)] by (simp add: kh.lists_ok_def no_lists_def)
  have "kheap_bytes_left (heap_init a) = 0x1EFFEFFF" using heap_rep_blocks [OF heap_init_rep [OF fresh(2)]]
    by (simp add: kheap_bytes_left_def heap_end_def BIN_START_def)
  then have r: "roundup16 16 \<le> kheap_bytes_left (ls_heap (no_lists (heap_init a)))" "0 < kheap_allocs_left (ls_heap (no_lists (heap_init a)))"
    "kheap_bytes_left (ls_heap (no_lists (heap_init a))) = 0x1EFFEFFF" "2 * length ks + 3 \<le> kheap_allocs_left (ls_heap (no_lists (heap_init a)))"
    using room(2) by (simp_all add: roundup16_def no_lists_def kheap_allocs_left_def heap_init_def)
  obtain l ls where l: "list_allocator kalloc False (no_lists (heap_init a)) = Some (l, ls)" "list_rep ls l False [] []" "kh.lists_ok ls"
    "0x1EFFEFFF - roundup16 16 \<le> kheap_bytes_left (ls_heap ls)" "2 * length ks + 2 \<le> kheap_allocs_left (ls_heap ls)"
    using kh.list_allocator_ok [OF ls0 r(1,2), of False] r(3,4) by auto
  obtain irq where irq: "irq_addHandler 0 isr (tm_irq t) = Some irq" using fresh(6) by (auto simp: irq_addHandler_def upd_opt_def)
  let ?t = "t0\<lparr>tm_hooks := l, tm_ls := ls, tm_irq := irq\<rparr>"
  have ok: "timer_ok ?t []" using l(2,3) same fresh by (auto simp: timer_ok_def)
  have kn: "knows_shortest ?t [] []" using same fresh by (simp add: knows_shortest_def)
  have rdy': "timer_ready fl B ?t" using rdy by (simp add: timer_ready_def)
  have B: "B \<le> 2 ^ 24" "\<forall>m \<in> set (1000 # map snd ks). 0 \<le> m \<and> m \<le> 2 ^ 24" using rdy assms(4) ks by (auto simp: timer_ready_def)
  have all: "\<forall>(h, ms) \<in> set ((tk, 1000) # ks). 0 \<le> ms \<and> ms \<le> B" "length [] + length ((tk, 1000) # ks) < 2 ^ 31"
    "32 * length ((tk, 1000) # ks) \<le> kheap_bytes_left (ls_heap (tm_ls ?t))" "2 * length ((tk, 1000) # ks) \<le> kheap_allocs_left (ls_heap (tm_ls ?t))"
    using ks assms(4) room(1) l(4,5) by (auto simp: roundup16_def)
  obtain t2 cs where t2: "timer_add_all fl hw kalloc ((tk, 1000) # ks) ?t = Some t2" "timer_ok t2 cs" "knows_shortest t2 cs (1000 # map snd ks)"
    using timer_add_all_ok [OF fl rdy' ok kn all, of hw] by auto
  obtain c t1 where t1: "timer_add_clock fl hw kalloc tk 1000 ?t = Some (c, t1)" "timer_add_all fl hw kalloc ks t1 = Some t2"
    using t2(1) by (auto simp: Option.bind_eq_Some_conv)
  have "timer_init fl hw kalloc isr tk t = Some (0, t1)"
    using rate t1(1) l(1) irq same fresh(1) by (simp add: timer_init_def timer_rate_def new_list_def split: if_splits)
  moreover have "cs \<noteq> []" using t2(3) by (auto simp: knows_shortest_def)
  moreover have len: "map (\<lambda>c. map_option c_ms (tm_clocks t2 c)) cs = map Some (1000 # map snd ks)" using t2(3) by (simp add: knows_shortest_def)
  moreover obtain xs where "list_rep (tm_ls t2) (tm_hooks t2) False xs cs" using t2(2) by (auto simp: timer_ok_def)
  moreover have least: "int (unat (tm_shortest t2)) = \<lfloor>Min (set (1000 # map snd ks))\<rfloor> \<and> first_least cs (1000 # map snd ks) (tm_clock t2)"
    by (rule knows_shortest_Min [OF t2(3) \<open>cs \<noteq> []\<close> B(2)])
  moreover have "\<exists>i < length cs. cs ! i = tm_clock t2 \<and> (1000 # map snd ks) ! i = Min (set (1000 # map snd ks))" if "set (map snd ks) \<subseteq> \<int>"
    by (rule first_least_whole [OF conjunct2 [OF least]]) (use that arg_cong [OF len, of length] in auto)
  ultimately show ?thesis using t1(2) by blast
qed

text \<open>A machine whose ports all read as \<open>x\<close> and exact numbers, before the start.\<close>

definition demo_hw :: "u8 \<Rightarrow> nat hw" where
  "demo_hw x = \<lparr>hw_outb = \<lambda>p b d. d, hw_inb = \<lambda>p d. (x, d), hw_store = \<lambda>a v d. d, hw_fetch = \<lambda>a d. (ucast x * 0x101, d),
     hw_cpuid = \<lambda>c. None, hw_rdmsr = \<lambda>n d. None, hw_wrmsr = \<lambda>n a b d. None\<rparr>"

definition demo_timer :: "(kheap, nat) timer" where
  "demo_timer = \<lparr>tm_base_freq = 0, tm_freq_1s = 0, tm_freq = 0, tm_ms = 0, tm_shortest = 0, tm_clock = 0, tm_hooks = 0, tm_apic = False,
     tm_node = 0, tm_cur = 0, tm_clocks = Map.empty, tm_ls = no_lists (heap_init 0xD0000000), tm_irq = replicate 224 0,
     tm_mach = \<lparr>mc_cpuid = True, mc_msr = True, mc_isr = replicate 32 0, mc_apic = False, mc_registry = 0, mc_dev = 0\<rparr>\<rparr>"

lemma exact_sound: "sound_fl (\<lambda>x. x)"
  by (simp add: sound_fl_def mono_def)

lemma demo_rate: "timer_rate (\<lambda>x. x) (demo_hw b) demo_timer = Some (demo_timer\<lparr>tm_freq := 11, tm_freq_1s := 0, tm_ms := 1\<rparr>)"
  by (simp add: timer_rate_def demo_timer_def pit_start_def on_dev_def pit_set_mode_def pit_set_count_def demo_hw_def PIT_BASE_HZ_def of_u32_def)

theorem timer_finds_shortest_witness:
  "\<exists>t1 t2. timer_init (\<lambda>x. x) (demo_hw 0) kalloc 0x300 0x400 demo_timer = Some (0, t1) \<and>
    timer_add_all (\<lambda>x. x) (demo_hw 0) kalloc [(0x500, 20), (0x600, 15 / 2)] t1 = Some t2 \<and> tm_shortest t2 = 7"
proof -
  have rdy: "timer_ready (\<lambda>x. x) 1000 (demo_timer\<lparr>tm_freq := 11, tm_freq_1s := 0, tm_ms := 1\<rparr>)" by (simp add: timer_ready_def of_u32_def)
  have f: "tm_ls demo_timer = no_lists (heap_init 0xD0000000)" "(0xD0000000 :: addr) \<noteq> 0" "tm_clocks demo_timer = Map.empty" "tm_clock demo_timer = 0"
    "tm_shortest demo_timer = 0" "length (tm_irq demo_timer) = 224" by (simp_all add: demo_timer_def)
  let ?ks = "[(0x500, 20), (0x600, 15 / 2)] :: (addr \<times> rat) list"
  have k: "\<forall>(h, ms) \<in> set ?ks. 0 \<le> ms \<and> ms \<le> 1000" "32 * length ?ks \<le> 0x1EFF0000" "2 * length ?ks + 3 \<le> (2 ^ 32 - 1 - unat (0xD0000000 :: addr)) div 16" by simp_all
  have "\<lfloor>Min (set (1000 # map snd ?ks))\<rfloor> = 7" by (simp add: floor_eq_iff)
  moreover obtain t1 t2 where t: "timer_init (\<lambda>x. x) (demo_hw 0) kalloc 0x300 0x400 demo_timer = Some (0, t1)" "timer_add_all (\<lambda>x. x) (demo_hw 0) kalloc ?ks t1 = Some t2"
    "int (unat (tm_shortest t2)) = \<lfloor>Min (set (1000 # map snd ?ks))\<rfloor>"
    using timer_finds_shortest [OF exact_sound demo_rate [of 0] rdy order_refl f k, of "0x300" "0x400"] by blast
  ultimately have "int (unat (tm_shortest t2)) = int (unat (7 :: u32))" by simp
  then have "tm_shortest t2 = 7" by (simp only: of_nat_eq_iff word_unat_eq_iff)
  then show ?thesis using t(1,2) by blast
qed

subsection \<open>Removing a clock\<close>

lemma clock_nonzero: "timer_ok t cs \<Longrightarrow> c \<in> set cs \<Longrightarrow> c \<noteq> 0"
  unfolding timer_ok_def kh.lists_ok_def using kh.used_pos by (metis less_irrefl unsigned_0)

text \<open>
  Removing the shortest clock when it is also the first of the list. \<open>list_remove\<close> frees the node and leaves the head of
  the list as it is, and the search for the next shortest clock starts at the freed node.
\<close>

lemma timer_remove_reads_freed:
  assumes "timer_ok t (c # cs)" and "tm_clock t = c"
  shows "timer_remove_clock fl kfree c t = None"
proof (cases "list_remove kfree (tm_hooks t) c (tm_ls t)")
  case (Some ls)
  obtain xs where rep: "list_rep (tm_ls t) (tm_hooks t) False xs (c # cs)" using assms(1) by (auto simp: timer_ok_def)
  then have xs: "0 < length xs" "xs ! 0 = hd xs" using list_rep_length [OF rep] by (auto intro!: hd_conv_nth [symmetric])
  have c0: "c \<noteq> 0" using clock_nonzero [OF assms(1)] by simp
  obtain L where L: "load (ls_lists (tm_ls t)) (tm_hooks t) = Some L" "l_head L = hd xs" "tm_hooks t \<noteq> 0"
    using rep xs by (auto simp: list_rep_def opt_simps)
  have "list_find (tm_hooks t) c (tm_ls t) = Some 0" using list_find_plain [OF rep, of c] by (simp add: index_of_def)
  then have del: "list_delete kfree (tm_hooks t) 0 (tm_ls t) = Some ls" using Some L(3) by (simp add: list_remove_def)
  obtain n where n: "load (ls_nodes (tm_ls t)) (hd xs) = Some n" using list_rep_node [OF rep xs(1)] xs(2) by auto
  have "kh.lists_ok (tm_ls t)" using assms(1) by (simp add: timer_ok_def)
  moreover have "hd xs \<in> dom (ls_nodes (tm_ls t))" using n by (auto simp: opt_simps)
  ultimately obtain m where "kheap_inv (ls_heap (tm_ls t))" "(unat (hd xs), m) \<in> kheap_used (ls_heap (tm_ls t))"
    unfolding kh.lists_ok_def by blast
  then obtain h where "kfree (hd xs) (ls_heap (tm_ls t)) = Some h" using kh.free_ok by blast
  then have "ls_lists ls = ls_lists (tm_ls t)" "ls_nodes ls (hd xs) = None"
    using list_delete_in [OF rep, of 0 kfree h] xs del by auto
  moreover have "hd xs \<noteq> 0" using n by (auto simp: opt_simps)
  ultimately have "load (ls_lists ls) (tm_hooks t) = Some L" "shortest_loop fl (ls_nodes ls) cl (l_head L) r = None" for cl r
    using L by (simp, subst shortest_loop.simps) (simp add: load_def)
  then show ?thesis using \<open>list_remove kfree (tm_hooks t) c (tm_ls t) = Some ls\<close> assms(2) c0 by (simp add: timer_remove_clock_def)
next
  case None
  then show ?thesis using clock_nonzero [OF assms(1)] by (simp add: timer_remove_clock_def)
qed

lemma demo_timer_start:
  "\<exists>c t. timer_init (\<lambda>x. x) (demo_hw b) kalloc 0x300 0x400 demo_timer = Some (0, t) \<and> timer_ok t [c] \<and> tm_clock t = c \<and> tm_shortest t = 1000 \<and>
     tm_clocks t = [c \<mapsto> \<lparr>c_hook = 0x400, c_ms = 1000, c_left = 1000\<rparr>] \<and> tm_freq t = 11 \<and> tm_ms t = 1"
proof -
  let ?t0 = "demo_timer\<lparr>tm_freq := 11, tm_freq_1s := 0, tm_ms := 1\<rparr>"
  have rdy: "timer_ready (\<lambda>x. x) 1000 ?t0" by (simp add: timer_ready_def of_u32_def)
  obtain l ls where l: "list_allocator kalloc False (no_lists (heap_init 0xD0000000)) = Some (l, ls)" "list_rep ls l False [] []" "kh.lists_ok ls"
    "0x1EFFEFFF - roundup16 16 \<le> kheap_bytes_left (ls_heap ls)" "999 \<le> kheap_allocs_left (ls_heap ls)"
    using kh.list_allocator_ok [of "no_lists (heap_init 0xD0000000)" False] heap_init_inv [OF demo_fresh(2)] demo_bytes
    by (auto simp: kh.lists_ok_def no_lists_def roundup16_def)
  let ?t = "?t0\<lparr>tm_hooks := l, tm_ls := ls, tm_irq := (replicate 224 0)[0 := 0x300]\<rparr>"
  have ok: "timer_ok ?t []" using l(2,3) by (auto simp: timer_ok_def demo_timer_def)
  have r: "timer_ready (\<lambda>x. x) 1000 ?t" "length ([] :: addr list) < 2 ^ 31" "0 \<le> (1000 :: rat)" "(1000 :: rat) \<le> 1000"
    "32 \<le> kheap_bytes_left (ls_heap (tm_ls ?t))" "2 \<le> kheap_allocs_left (ls_heap (tm_ls ?t))"
    using rdy l(4,5) by (simp_all add: timer_ready_def roundup16_def)
  obtain c t where t: "timer_add_clock (\<lambda>x. x) (demo_hw b) kalloc 0x400 1000 ?t = Some (c, t)" "timer_ok t ([] @ [c])" "clock_added (\<lambda>x. x) 0x400 1000 c ?t t"
    using timer_add_ok [OF exact_sound r(1) ok r(2-6), of "demo_hw b" "0x400"] by blast
  have "timer_init (\<lambda>x. x) (demo_hw b) kalloc 0x300 0x400 demo_timer = Some (0, t)"
    using demo_rate t(1) l(1) by (simp add: timer_init_def timer_rate_def new_list_def demo_timer_def irq_addHandler_def upd_opt_def split: if_splits)
  then show ?thesis using t(2,3) by (intro exI [of _ c] exI [of _ t]) (simp add: clock_added_def demo_timer_def)
qed

lemma timer_remove_reads_freed_witness:
  "\<exists>t. timer_init (\<lambda>x. x) (demo_hw 0) kalloc 0x300 0x400 demo_timer = Some (0, t) \<and> timer_remove_clock (\<lambda>x. x) kfree (tm_clock t) t = None"
  using demo_timer_start [of 0] timer_remove_reads_freed by blast

subsection \<open>The interrupt\<close>

text \<open>What an interrupt does to a clock, and the hooks that it calls, in the order of the list.\<close>

definition tick_clock :: "rounding \<Rightarrow> u32 \<Rightarrow> clock_hook \<Rightarrow> clock_hook" where
  "tick_clock fl q c = (let l = fl (c_left c - of_u32 fl q) in c\<lparr>c_left := if l \<le> 0 then fl (l + c_ms c) else l\<rparr>)"

definition clock_due :: "rounding \<Rightarrow> u32 \<Rightarrow> clock_hook \<Rightarrow> bool" where
  "clock_due fl q c \<longleftrightarrow> fl (c_left c - of_u32 fl q) \<le> 0"

definition due_hooks :: "rounding \<Rightarrow> u32 \<Rightarrow> (addr \<Rightarrow> clock_hook option) \<Rightarrow> addr list \<Rightarrow> addr list" where
  "due_hooks fl q clocks cs = map (\<lambda>c. c_hook (the (clocks c))) (filter (\<lambda>c. clock_due fl q (the (clocks c))) cs)"

definition ticked :: "rounding \<Rightarrow> u32 \<Rightarrow> addr list \<Rightarrow> (addr \<Rightarrow> clock_hook option) \<Rightarrow> addr \<Rightarrow> clock_hook option" where
  "ticked fl q cs m = (\<lambda>c. if c \<in> set cs then map_option (tick_clock fl q) (m c) else m c)"

lemma hook_step_ok:
  assumes call: "call = (\<lambda>h t. Some (t\<lparr>tm_mach := g h (tm_mach t)\<rparr>))" and "tm_ms t \<noteq> 0" and c: "load (tm_clocks t) (tm_cur t) = Some c"
  shows "\<exists>t'. hook_step fl call p t = Some t' \<and> tm_clocks t' = (tm_clocks t)(tm_cur t \<mapsto> tick_clock fl (p div tm_ms t) c) \<and>
    tm_mach t' = (if clock_due fl (p div tm_ms t) c then g (c_hook c) (tm_mach t) else tm_mach t) \<and>
    tm_node t' = tm_node t \<and> tm_ls t' = tm_ls t \<and> tm_ms t' = tm_ms t"
  using assms(2) c by (auto simp: hook_step_def on_clock_def call tick_clock_def clock_due_def Let_def modify_def load_def)

lemma hook_loop_ok:
  assumes call: "call = (\<lambda>h t. Some (t\<lparr>tm_mach := g h (tm_mach t)\<rparr>))"
    and "chain n_next (ls_nodes (tm_ls t)) (tm_node t) xs 0" and "map (data_of (ls_nodes (tm_ls t))) xs = cs" and "distinct cs"
    and "\<forall>c \<in> set cs. load (tm_clocks t) c \<noteq> None" and "tm_ms t \<noteq> 0"
  shows "\<exists>t'. hook_loop fl call p t = Some t' \<and>
    tm_clocks t' = ticked fl (p div tm_ms t) cs (tm_clocks t) \<and>
    tm_mach t' = fold g (due_hooks fl (p div tm_ms t) (tm_clocks t) cs) (tm_mach t)"
  using assms(2-)
proof (induction xs arbitrary: t cs)
  case Nil
  then show ?case by (subst hook_loop.simps) (simp add: due_hooks_def ticked_def)
next
  case (Cons x xs)
  let ?q = "p div tm_ms t"
  obtain n where n: "tm_node t = x" "load (ls_nodes (tm_ls t)) x = Some n" "chain n_next (ls_nodes (tm_ls t)) (n_next n) xs 0" using Cons.prems(1) by auto
  have x: "x \<noteq> 0" "data_of (ls_nodes (tm_ls t)) x = n_data n" using n(2) by (auto simp: opt_simps data_of_def)
  obtain ds where ds: "cs = n_data n # ds" "map (data_of (ls_nodes (tm_ls t))) xs = ds" "n_data n \<notin> set ds" "distinct ds"
    using Cons.prems(2,3) x(2) by auto
  obtain c where c: "load (tm_clocks t) (n_data n) = Some c" using Cons.prems(4) ds(1) by auto
  then have ct: "tm_clocks t (n_data n) = Some c" by (simp add: load_def split: if_splits)
  have cur: "load (tm_clocks (t\<lparr>tm_cur := n_data n\<rparr>)) (tm_cur (t\<lparr>tm_cur := n_data n\<rparr>)) = Some c" "tm_ms (t\<lparr>tm_cur := n_data n\<rparr>) \<noteq> 0"
    using c Cons.prems(5) by simp_all
  obtain t1 where t1: "hook_step fl call p (t\<lparr>tm_cur := n_data n\<rparr>) = Some t1" "tm_clocks t1 = (tm_clocks t)(n_data n \<mapsto> tick_clock fl ?q c)"
    "tm_mach t1 = (if clock_due fl ?q c then g (c_hook c) (tm_mach t) else tm_mach t)" "tm_node t1 = tm_node t" "tm_ls t1 = tm_ls t" "tm_ms t1 = tm_ms t"
    using hook_step_ok [OF call cur(2,1), where fl = fl and p = p] by auto
  let ?t2 = "t1\<lparr>tm_node := n_next n\<rparr>"
  have run: "hook_loop fl call p t = hook_loop fl call p ?t2" using n(1,2) x(1) t1(1,4,5) by (subst hook_loop.simps) simp
  have "\<forall>e \<in> set ds. load (tm_clocks ?t2) e \<noteq> None" using Cons.prems(4) ds(1) t1(2) by (auto simp: load_def)
  then obtain t' where t': "hook_loop fl call p ?t2 = Some t'"
    "tm_clocks t' = ticked fl ?q ds (tm_clocks t1)"
    "tm_mach t' = fold g (due_hooks fl ?q (tm_clocks t1) ds) (tm_mach t1)"
    using Cons.IH [of ?t2 ds] n(3) ds(2,4) Cons.prems(5) t1(5,6) by auto
  have "tm_clocks t' = ticked fl ?q cs (tm_clocks t)"
    using t'(2) t1(2) ds(1,3) ct by (auto simp: fun_eq_iff ticked_def)
  moreover have "filter (\<lambda>e. clock_due fl ?q (the (tm_clocks t1 e))) ds = filter (\<lambda>e. clock_due fl ?q (the (tm_clocks t e))) ds"
    by (rule filter_cong) (use t1(2) ds(3) in auto)
  then have "due_hooks fl ?q (tm_clocks t1) ds = due_hooks fl ?q (tm_clocks t) ds" using t1(2) ds(3) by (auto simp: due_hooks_def)
  then have "tm_mach t' = fold g (due_hooks fl ?q (tm_clocks t) cs) (tm_mach t)" using t'(3) t1(3) ds(1) ct by (simp add: due_hooks_def)
  ultimately show ?case using run t'(1) by auto
qed

text \<open>
  C20 (functional): an interrupt. When the hooks leave the clocks alone, the handler of the timer's interrupt reads the counter, sets it
  for the shortest clock and acknowledges the interrupt; then it calls the hooks of the clocks whose time is over by the time read, once each and
  in the order of the list, each on the machine that the one before left. The time read is taken off every clock, and those whose time is over get
  their time again.
\<close>

theorem timer_interrupt_ticks:
  fixes t :: "(kheap, 'd) timer"
  assumes fl: "sound_fl fl" and ok: "timer_ok t cs" and rdy: "timer_ready fl B t"
    and call: "call = (\<lambda>h t. Some (t\<lparr>tm_mach := g h (tm_mach t)\<rparr>))"
    and q: "to_u32 (fl (of_u32 fl (fst (timer_read hw t)) / tm_freq t)) = Some p"
    and k: "to_u32 (fl (fl (of_u32 fl (tm_shortest t) * tm_freq t) * of_u32 fl (tm_ms t))) = Some k"
  shows "\<exists>t'. timer_interrupt fl hw call t = Some t' \<and>
    tm_clocks t' = (\<lambda>c. map_option (tick_clock fl (p div tm_ms t)) (tm_clocks t c)) \<and>
    tm_mach t' = fold g (due_hooks fl (p div tm_ms t) (tm_clocks t) cs) (tm_mach (timer_ack hw (timer_set hw k (snd (timer_read hw t)))))"
proof -
  obtain n t1 where n: "timer_read hw t = (n, t1)" by (cases "timer_read hw t")
  then have t1: "tm_ls t1 = tm_ls t" "tm_clocks t1 = tm_clocks t" "tm_freq t1 = tm_freq t" "tm_ms t1 = tm_ms t" "tm_shortest t1 = tm_shortest t"
    "tm_hooks t1 = tm_hooks t" using timer_read_same [of hw t] by simp_all
  have f: "2 \<le> tm_freq t" "tm_ms t \<noteq> 0" using rdy by (simp_all add: timer_ready_def)
  let ?t2 = "timer_ack hw (timer_set hw k t1)"
  have t2: "tm_ls ?t2 = tm_ls t" "tm_clocks ?t2 = tm_clocks t" "tm_ms ?t2 = tm_ms t" "tm_hooks ?t2 = tm_hooks t" using t1 by (simp_all add: timer_ack_def on_dev_def)
  obtain xs where rep: "list_rep (tm_ls t) (tm_hooks t) False xs cs" and cs: "distinct cs" "dom (tm_clocks t) = set cs" using ok by (auto simp: timer_ok_def)
  then obtain L where L: "load (ls_lists (tm_ls t)) (tm_hooks t) = Some L" "l_head L = hd (xs @ [0])" by (auto simp: list_rep_def)
  have ch: "chain n_next (ls_nodes (tm_ls (?t2\<lparr>tm_node := l_head L\<rparr>))) (tm_node (?t2\<lparr>tm_node := l_head L\<rparr>)) xs 0"
    "map (data_of (ls_nodes (tm_ls (?t2\<lparr>tm_node := l_head L\<rparr>)))) xs = cs"
    using list_rep_chain [OF rep] rep L(2) t2(1) by (simp_all add: ends_def list_rep_def)
  have ld: "\<forall>c \<in> set cs. load (tm_clocks (?t2\<lparr>tm_node := l_head L\<rparr>)) c \<noteq> None" "tm_ms (?t2\<lparr>tm_node := l_head L\<rparr>) \<noteq> 0"
    using clock_nonzero [OF ok] cs(2) t2(2,3) f(2) by (auto simp: load_def)
  obtain t' where t': "hook_loop fl call p (?t2\<lparr>tm_node := l_head L\<rparr>) = Some t'"
    "tm_clocks t' = ticked fl (p div tm_ms t) cs (tm_clocks t)"
    "tm_mach t' = fold g (due_hooks fl (p div tm_ms t) (tm_clocks t) cs) (tm_mach ?t2)"
    using hook_loop_ok [OF call ch cs(1) ld, of fl p] t2 by auto
  have "timer_interrupt fl hw call t = Some t'"
    using n t1 f(1) q k L(1) t2 t'(1) by (simp add: timer_interrupt_def fdiv_def Let_def)
  moreover have none: "tm_clocks t c = None" if "c \<notin> set cs" for c using that cs(2) by (metis domIff)
  moreover have "tm_clocks t' = (\<lambda>c. map_option (tick_clock fl (p div tm_ms t)) (tm_clocks t c))"
    unfolding t'(2) using none by (auto simp: fun_eq_iff ticked_def)
  ultimately show ?thesis using t'(3) n by auto
qed

text \<open>
  On the interval timer, whose counter is read as 0xFFFF after it has run out, 5957 ms seem to have passed. The hook counts its calls.
\<close>

theorem timer_interrupt_ticks_witness:
  "\<exists>t t'. timer_init (\<lambda>x. x) (demo_hw 0xFF) kalloc 0x300 0x400 demo_timer = Some (0, t) \<and>
    timer_interrupt (\<lambda>x. x) (demo_hw 0xFF) (\<lambda>h t. Some (t\<lparr>tm_mach := (tm_mach t)\<lparr>mc_registry := mc_registry (tm_mach t) + 1\<rparr>\<rparr>)) t = Some t' \<and>
    map_option c_left (tm_clocks t' (tm_clock t)) = Some (- 3957) \<and> mc_registry (tm_mach t') = mc_registry (tm_mach t) + 1"
proof -
  let ?g = "\<lambda>(h :: addr) m :: nat machine. m\<lparr>mc_registry := mc_registry m + 1\<rparr>"
  obtain c t where t: "timer_init (\<lambda>x. x) (demo_hw 0xFF) kalloc 0x300 0x400 demo_timer = Some (0, t)" "timer_ok t [c]" "tm_clock t = c" "tm_shortest t = 1000"
     "tm_clocks t = [c \<mapsto> \<lparr>c_hook = 0x400, c_ms = 1000, c_left = 1000\<rparr>]" "tm_freq t = 11" "tm_ms t = 1"
    using demo_timer_start [of "0xFF"] by blast
  have rdy: "timer_ready (\<lambda>x. x) 1000 t" using t(6,7) by (simp add: timer_ready_def of_u32_def)
  have k: "to_u32 (of_u32 (\<lambda>x. x) (tm_shortest t) * tm_freq t * of_u32 (\<lambda>x. x) (tm_ms t)) = Some 11000"
    using t(4,6,7) by (simp add: of_u32_def to_u32_def)
  have "fst (timer_read (demo_hw 0xFF) t) = 0xFFFF"
    by (simp add: timer_read_def pit_read_count_def apic_read_def demo_hw_def)
  moreover have "\<lfloor>65535 / 11 :: rat\<rfloor> = 5957" by (simp add: floor_eq_iff)
  ultimately have p: "to_u32 (of_u32 (\<lambda>x. x) (fst (timer_read (demo_hw 0xFF) t)) / tm_freq t) = Some 5957"
    using t(6) by (simp add: to_u32_def of_u32_def)
  obtain t' where t': "timer_interrupt (\<lambda>x. x) (demo_hw 0xFF) (\<lambda>h t. Some (t\<lparr>tm_mach := ?g h (tm_mach t)\<rparr>)) t = Some t'"
    "tm_clocks t' = (\<lambda>c. map_option (tick_clock (\<lambda>x. x) (5957 div tm_ms t)) (tm_clocks t c))"
    "tm_mach t' = fold ?g (due_hooks (\<lambda>x. x) (5957 div tm_ms t) (tm_clocks t) [c])
       (tm_mach (timer_ack (demo_hw 0xFF) (timer_set (demo_hw 0xFF) 11000 (snd (timer_read (demo_hw 0xFF) t)))))"
    using timer_interrupt_ticks [OF exact_sound t(2) rdy _ p k, of _ ?g] by blast
  have "mc_registry (tm_mach (timer_ack (demo_hw 0xFF) (timer_set (demo_hw 0xFF) 11000 (snd (timer_read (demo_hw 0xFF) t))))) = mc_registry (tm_mach t)"
    by (simp add: timer_ack_def timer_set_def timer_read_def on_dev_def apic_ack_def apic_write_def apic_read_def Let_def split: prod.splits)
  moreover have "due_hooks (\<lambda>x. x) (5957 div tm_ms t) (tm_clocks t) [c] = [0x400]"
    using t(5,7) by (simp add: due_hooks_def clock_due_def of_u32_def)
  ultimately have "mc_registry (tm_mach t') = mc_registry (tm_mach t) + 1" using t'(3) by simp
  moreover have "map_option c_left (tm_clocks t' (tm_clock t)) = Some (- 3957)"
    using t(3,5,7) t'(2) by (simp add: tick_clock_def of_u32_def Let_def)
  ultimately show ?thesis using t(1) t'(1) by blast
qed

end
