(* ===== verification/Logger.thy ===== *)
theory Logger
  imports KList Print
begin

text \<open>
  The log: \<^verbatim>\<open>module/logger/main.c\<close>. It is an array of pointers to messages that is copied for every message. Blocks
  of the heap hold words (the arrays) or characters (the messages, with their terminating null left out); \<^verbatim>\<open>vga_printf\<close>
  is of the kernel submodule, what it is given is kept in a list.
\<close>

record 'h log =
  lg_heap :: 'h
  lg_arrays :: "addr \<Rightarrow> addr list option"
  lg_strs :: "addr \<Rightarrow> string option"
  lg_buffer :: addr
  lg_len :: u32
  lg_installed :: bool
  lg_vga :: "string list"

definition c_text :: "string \<Rightarrow> string" where
  "c_text t = takeWhile (\<lambda>c. c \<noteq> CHR 0x00) t"

definition log_free :: "'h free_fn \<Rightarrow> addr \<Rightarrow> 'h log \<Rightarrow> 'h log option" where
  "log_free free p s = do {
     h \<leftarrow> free p (lg_heap s);
     Some (s\<lparr>lg_heap := h, lg_arrays := (lg_arrays s)(p := None), lg_strs := (lg_strs s)(p := None)\<rparr>) }"

text \<open>Copying no bytes touches no memory. A write through a null pointer faults.\<close>

definition add_entry :: "'h alloc_fn \<Rightarrow> 'h free_fn \<Rightarrow> addr \<Rightarrow> 'h log \<Rightarrow> 'h log option" where
  "add_entry alloc free msg s = (
     let obuf = lg_buffer s in do {
       (p, h) \<leftarrow> alloc ((lg_len s + 1) * 4) (lg_heap s);
       ws \<leftarrow> (if lg_len s = 0 then Some []
             else do { a \<leftarrow> load (lg_arrays s) obuf; if unat (lg_len s) \<le> length a then Some (take (unat (lg_len s)) a) else None });
       if p = 0 then None
       else do {
         s1 \<leftarrow> log_free free obuf (s\<lparr>lg_heap := h, lg_buffer := p\<rparr>);
         Some (s1\<lparr>lg_arrays := (lg_arrays s1)(p \<mapsto> ws @ [msg]), lg_len := lg_len s1 + 1\<rparr>) } })"

definition lvlltbl :: "string list" where
  "lvlltbl = map (\<lambda>t. CHR 0x1B # t) [''[34mDEBUG'' @ CHR 0x1B # ''[97m'', ''[32mOK'' @ CHR 0x1B # ''[97m'', ''[94mINFO'' @ CHR 0x1B # ''[97m'',
     ''[93mWARN'' @ CHR 0x1B # ''[97m'', ''[91mERROR'' @ CHR 0x1B # ''[97m'', ''[91;41mFATAL'' @ CHR 0x1B # ''[97;40m'']"

text \<open>The text of a message: file, line and level, then the formatted arguments.\<close>

definition log_prefix :: string where
  "log_prefix = ''('' @ CHR 0x1B # ''[94m%s'' @ CHR 0x1B # ''[97m:'' @ CHR 0x1B # ''[93m%i'' @ CHR 0x1B # ''[97m): [%s]: ''"

definition log_text :: "string \<Rightarrow> u32 \<Rightarrow> nat \<Rightarrow> string \<Rightarrow> fmt_arg list \<Rightarrow> string option" where
  "log_text fname line lvl fmt args = do {
     name \<leftarrow> nth_opt lvlltbl lvl;
     (a, n) \<leftarrow> l_sprintf log_prefix [AStr fname, ANum line, AStr name];
     b \<leftarrow> l_vsprintf fmt args;
     Some (a @ b) }"

definition log_printf :: "'h alloc_fn \<Rightarrow> 'h free_fn \<Rightarrow> string \<Rightarrow> u32 \<Rightarrow> nat \<Rightarrow> string \<Rightarrow> fmt_arg list \<Rightarrow> 'h log \<Rightarrow> 'h log option" where
  "log_printf alloc free fname line lvl fmt args s = do {
     let room = 256 + of_nat (length fmt) * 2;
     (obuf, h) \<leftarrow> alloc room (lg_heap s);
     text \<leftarrow> log_text fname line lvl fmt args;
     if obuf = 0 \<or> unat room \<le> length text then None
     else do {
       let s1 = s\<lparr>lg_heap := h, lg_strs := (lg_strs s)(obuf \<mapsto> c_text text)\<rparr>;
       (buf, h1) \<leftarrow> alloc (of_nat (length (c_text text)) + 1) (lg_heap s1);
       if buf = 0 then None
       else do {
         s2 \<leftarrow> log_free free obuf (s1\<lparr>lg_heap := h1, lg_strs := (lg_strs s1)(buf \<mapsto> c_text text)\<rparr>);
         add_entry alloc free buf (s2\<lparr>lg_vga := lg_vga s2 @ [c_text text]\<rparr>) } } }"

definition log_getmsg :: "u32 \<Rightarrow> 'h log \<Rightarrow> addr option" where
  "log_getmsg i s = (if lg_len s \<le> i then Some 0 else do { a \<leftarrow> load (lg_arrays s) (lg_buffer s); nth_opt a (unat i) })"

definition log_getmsgs :: "'h log \<Rightarrow> addr" where
  "log_getmsgs s = lg_buffer s"

subsection \<open>Start\<close>

text \<open>
  One line of the screen, from the offset \<open>a\<close> of its memory on: every other byte up to a null. A text that leaves no room
  for a null in the buffer is read or written beyond its end.
\<close>

fun scan_line :: "(int \<Rightarrow> u8) \<Rightarrow> int \<Rightarrow> nat \<Rightarrow> string option" where
  "scan_line vga a n =
     (if vga a = 0 then Some []
      else (case n of 0 \<Rightarrow> None
        | Suc k \<Rightarrow> do { cs \<leftarrow> scan_line vga (a + 2) k; Some (char_of (unat (vga a)) # cs) }))"

definition recover_line :: "'h alloc_fn \<Rightarrow> 'h free_fn \<Rightarrow> nat \<Rightarrow> (int \<Rightarrow> u8) \<Rightarrow> int \<Rightarrow> 'h log \<Rightarrow> 'h log option" where
  "recover_line alloc free width vga i s = do {
     (cmsg, h) \<leftarrow> alloc (of_nat width) (lg_heap s);
     cs \<leftarrow> scan_line vga (i * (int width * 2)) (width - 1);
     if cmsg = 0 then None
     else do {
       let s1 = s\<lparr>lg_heap := h, lg_strs := (lg_strs s)(cmsg \<mapsto> cs)\<rparr>;
       if length cs \<noteq> 0 then add_entry alloc free cmsg s1 else log_free free cmsg s1 } }"

fun recover_lines :: "'h alloc_fn \<Rightarrow> 'h free_fn \<Rightarrow> nat \<Rightarrow> (int \<Rightarrow> u8) \<Rightarrow> int list \<Rightarrow> 'h log \<Rightarrow> 'h log option" where
  "recover_lines alloc free width vga [] s = Some s"
| "recover_lines alloc free width vga (i # is') s = do {
     s1 \<leftarrow> recover_line alloc free width vga i s;
     recover_lines alloc free width vga is' s1 }"

text \<open>\<open>announce\<close> is the call of the kernel's \<^verbatim>\<open>log_printf\<close> at the end; \<open>width\<close> and \<open>height\<close> are those of the screen.\<close>

definition logging_init :: "'h alloc_fn \<Rightarrow> 'h free_fn \<Rightarrow> nat \<Rightarrow> nat \<Rightarrow> (int \<Rightarrow> u8) \<Rightarrow> ('h log \<Rightarrow> 'h log option) \<Rightarrow> 'h log \<Rightarrow> (int \<times> 'h log) option" where
  "logging_init alloc free width height vga announce s = do {
     (p, h) \<leftarrow> alloc 16 (lg_heap s);
     if p = 0 then None
     else do {
       let s1 = s\<lparr>lg_heap := h, lg_buffer := p, lg_arrays := (lg_arrays s)(p \<mapsto> replicate 4 0), lg_installed := True\<rparr>;
       s2 \<leftarrow> recover_lines alloc free width vga [-1..int height - 1] s1;
       s3 \<leftarrow> announce s2;
       Some (0, s3) } }"

end
