(* ===== verification/Logger_Props.thy ===== *)
theory Logger_Props
  imports Logger Kernel_Machine
begin

text \<open>
  The log keeps every message: what was logged can be read at its number, however many messages follow.
\<close>

definition blk_at :: "kheap \<Rightarrow> addr \<Rightarrow> bool" where
  "blk_at h p \<longleftrightarrow> (\<exists>m. (unat p, m) \<in> kheap_used h)"

text \<open>The log holds the messages \<open>ms\<close>: the pointers \<open>ps\<close> are at the start of its array, each block lies apart.\<close>

definition log_holds :: "kheap log \<Rightarrow> addr list \<Rightarrow> string list \<Rightarrow> bool" where
  "log_holds s ps ms \<longleftrightarrow> kheap_inv (lg_heap s) \<and> unat (lg_len s) = length ms \<and> length ps = length ms \<and>
     (\<exists>a. lg_arrays s (lg_buffer s) = Some a \<and> length ms \<le> length a \<and> take (length ms) a = ps) \<and>
     blk_at (lg_heap s) (lg_buffer s) \<and> lg_buffer s \<notin> set ps \<and>
     (\<forall>i < length ms. lg_strs s (ps ! i) = Some (ms ! i) \<and> blk_at (lg_heap s) (ps ! i))"

lemma blk_at_nonzero: "kheap_inv h \<Longrightarrow> blk_at h p \<Longrightarrow> p \<noteq> 0"
  using kh.used_pos by (fastforce simp: blk_at_def)

lemma kalloc_blk:
  assumes "kheap_inv h" and "n \<noteq> 0" and "roundup16 (unat n) \<le> kheap_bytes_left h" "0 < kheap_allocs_left h"
  shows "\<exists>p h'. kalloc n h = Some (p, h') \<and> kheap_inv h' \<and> p \<noteq> 0 \<and> \<not> blk_at h p \<and> (\<forall>q. blk_at h' q \<longleftrightarrow> q = p \<or> blk_at h q) \<and>
    kheap_bytes_left h - roundup16 (unat n) \<le> kheap_bytes_left h' \<and> kheap_allocs_left h - 1 \<le> kheap_allocs_left h'"
proof -
  obtain p h' m where p: "kalloc n h = Some (p, h')" "kheap_inv h'" "(unat p, m) \<notin> kheap_used h" "kheap_used h' = insert (unat p, m) (kheap_used h)"
    "kheap_bytes_left h - roundup16 (unat n) \<le> kheap_bytes_left h'" "kheap_allocs_left h - 1 \<le> kheap_allocs_left h'"
    using kh.alloc_ok [OF assms] by blast
  have u: "(unat p, m) \<in> kheap_used h'" using p(4) by simp
  have "\<not> blk_at h p"
  proof
    assume "blk_at h p"
    then obtain k where k: "(unat p, k) \<in> kheap_used h" by (auto simp: blk_at_def)
    then have "k = m" using kh.same_start [OF p(2) _ u, of k] p(4) by simp
    then show False using k p(3) by simp
  qed
  moreover have "\<forall>q. blk_at h' q \<longleftrightarrow> q = p \<or> blk_at h q" using p(4) by (auto simp: blk_at_def word_unat_eq_iff)
  moreover have "p \<noteq> 0" using kh.used_pos [OF p(2) u] by auto
  ultimately show ?thesis using p by blast
qed

lemma kfree_blk:
  assumes "kheap_inv h" and "blk_at h p"
  shows "\<exists>h'. kfree p h = Some h' \<and> kheap_inv h' \<and> (\<forall>q. blk_at h' q \<longleftrightarrow> q \<noteq> p \<and> blk_at h q) \<and>
    kheap_bytes_left h \<le> kheap_bytes_left h' \<and> kheap_allocs_left h \<le> kheap_allocs_left h'"
proof -
  obtain m where m: "(unat p, m) \<in> kheap_used h" using assms(2) by (auto simp: blk_at_def)
  obtain h' where h': "kfree p h = Some h'" "kheap_inv h'" "kheap_used h' = kheap_used h - {(unat p, m)}"
    "kheap_bytes_left h \<le> kheap_bytes_left h'" "kheap_allocs_left h \<le> kheap_allocs_left h'"
    using kh.free_ok [OF assms(1) m] by blast
  have "blk_at h' q \<longleftrightarrow> q \<noteq> p \<and> blk_at h q" for q
    using h'(3) kh.same_start [OF assms(1) m] by (auto simp: blk_at_def word_unat_eq_iff)
  then show ?thesis using h' by blast
qed

lemma add_entry_ok:
  assumes ok: "log_holds s ps ms" and p: "lg_strs s p = Some m" "blk_at (lg_heap s) p" "p \<noteq> lg_buffer s"
    and n: "4 * (length ms + 1) < 2 ^ 31" and room: "4 * (length ms + 1) + 16 \<le> kheap_bytes_left (lg_heap s)" "0 < kheap_allocs_left (lg_heap s)"
  shows "\<exists>s'. add_entry kalloc kfree p s = Some s' \<and> log_holds s' (ps @ [p]) (ms @ [m]) \<and> lg_vga s' = lg_vga s"
proof -
  let ?n = "length ms" and ?b = "lg_buffer s"
  obtain a where a: "lg_arrays s ?b = Some a" "?n \<le> length a" "take ?n a = ps" and i: "kheap_inv (lg_heap s)" "unat (lg_len s) = ?n" "length ps = ?n"
    "blk_at (lg_heap s) ?b" "?b \<notin> set ps" and st: "\<And>k. k < ?n \<Longrightarrow> lg_strs s (ps ! k) = Some (ms ! k) \<and> blk_at (lg_heap s) (ps ! k)"
    using ok by (auto simp: log_holds_def)
  have len: "lg_len s = of_nat ?n" "unat (lg_len s + 1) = ?n + 1" using i(2) n by (metis of_nat_unat ucast_id, simp add: unat_word_ariths)
  have sz: "unat ((lg_len s + 1) * 4) = 4 * (?n + 1)" using i(2) n by (simp add: unat_word_ariths)
  then have sz0: "(lg_len s + 1) * 4 \<noteq> 0" by (metis Suc_eq_plus1 mult_is_0 nat.distinct(1) unsigned_0 zero_neq_numeral)
  have r: "roundup16 (unat ((lg_len s + 1) * 4)) \<le> kheap_bytes_left (lg_heap s)" unfolding sz using room(1) by (simp add: roundup16_def)
  obtain q h where q: "kalloc ((lg_len s + 1) * 4) (lg_heap s) = Some (q, h)" "kheap_inv h" "q \<noteq> 0" "\<not> blk_at (lg_heap s) q"
    "\<And>x. blk_at h x \<longleftrightarrow> x = q \<or> blk_at (lg_heap s) x" using kalloc_blk [OF i(1) sz0 r room(2)] by blast
  obtain h' where h': "kfree ?b h = Some h'" "kheap_inv h'" "\<And>x. blk_at h' x \<longleftrightarrow> x \<noteq> ?b \<and> blk_at h x"
    using kfree_blk [OF q(2), of ?b] q(5) i(4) by blast
  have b0: "?b \<noteq> 0" by (rule blk_at_nonzero [OF i(1,4)])
  have ws: "(if lg_len s = 0 then Some [] else do { a \<leftarrow> load (lg_arrays s) ?b; if unat (lg_len s) \<le> length a then Some (take (unat (lg_len s)) a) else None }) = Some ps"
    using a i(2,3) b0 by (auto simp: load_def)
  let ?s = "s\<lparr>lg_heap := h', lg_buffer := q, lg_arrays := ((lg_arrays s)(?b := None))(q \<mapsto> ps @ [p]), lg_strs := (lg_strs s)(?b := None), lg_len := lg_len s + 1\<rparr>"
  have "add_entry kalloc kfree p s = Some ?s" using q(1,3) ws h'(1) by (simp add: add_entry_def log_free_def Let_def)
  moreover have "log_holds ?s (ps @ [p]) (ms @ [m])"
  proof -
    have qb: "q \<noteq> ?b" "q \<notin> set (ps @ [p])" using q(4) i(3,4) st p(2) by (auto simp: in_set_conv_nth)
    have "lg_strs ?s ((ps @ [p]) ! k) = Some ((ms @ [m]) ! k) \<and> blk_at h' ((ps @ [p]) ! k)" if "k < ?n + 1" for k
    proof (cases "k < ?n")
      case True
      then have "ps ! k \<in> set ps" using i(3) by simp
      then have "ps ! k \<noteq> ?b" using i(5) by auto
      then show ?thesis using st [OF True] h'(3) q(5) True i(3) by (simp add: nth_append)
    next
      case False
      then have "k = ?n" using that by simp
      then show ?thesis using p h'(3) q(5) i(3) by (simp add: nth_append)
    qed
    moreover have "((lg_arrays s)(?b := None, q \<mapsto> ps @ [p])) q = Some (ps @ [p])" by simp
    ultimately show ?thesis using h'(2,3) q(5) qb i(3) len(2) by (simp add: log_holds_def del: fun_upd_apply)
  qed
  ultimately show ?thesis by (intro exI [of _ ?s]) simp
qed

text \<open>The bytes and the blocks that one more message takes.\<close>

definition log_room :: "string \<Rightarrow> string \<Rightarrow> string list \<Rightarrow> kheap log \<Rightarrow> bool" where
  "log_room fmt t ms s \<longleftrightarrow> 2 * length fmt + length t + 4 * length ms + 400 \<le> kheap_bytes_left (lg_heap s) \<and> 3 \<le> kheap_allocs_left (lg_heap s) \<and>
     4 * (length ms + 1) < 2 ^ 31 \<and> 256 + 2 * length fmt < 2 ^ 31"

lemma roundup16_le_add: "roundup16 n \<le> n + 15"
  by (simp add: roundup16_def)

lemma log_holds_strs:
  assumes "log_holds s ps ms" and "kheap_inv h" and "\<And>q. blk_at (lg_heap s) q \<Longrightarrow> blk_at h q" and "\<And>q. blk_at (lg_heap s) q \<Longrightarrow> st q = lg_strs s q"
  shows "log_holds (s\<lparr>lg_heap := h, lg_strs := st\<rparr>) ps ms"
  using assms by (auto simp: log_holds_def)

lemma log_free_ok:
  assumes ok: "log_holds s ps ms" and p: "blk_at (lg_heap s) p" "p \<noteq> lg_buffer s" "p \<notin> set ps"
  shows "\<exists>h. log_free kfree p s = Some (s\<lparr>lg_heap := h, lg_arrays := (lg_arrays s)(p := None), lg_strs := (lg_strs s)(p := None)\<rparr>) \<and>
    log_holds (s\<lparr>lg_heap := h, lg_arrays := (lg_arrays s)(p := None), lg_strs := (lg_strs s)(p := None)\<rparr>) ps ms \<and> (\<forall>q. blk_at h q \<longleftrightarrow> q \<noteq> p \<and> blk_at (lg_heap s) q) \<and>
    kheap_bytes_left (lg_heap s) \<le> kheap_bytes_left h \<and> kheap_allocs_left (lg_heap s) \<le> kheap_allocs_left h"
proof -
  have i: "kheap_inv (lg_heap s)" using ok by (simp add: log_holds_def)
  obtain h where h: "kfree p (lg_heap s) = Some h" "kheap_inv h" "\<And>q. blk_at h q \<longleftrightarrow> q \<noteq> p \<and> blk_at (lg_heap s) q"
    "kheap_bytes_left (lg_heap s) \<le> kheap_bytes_left h" "kheap_allocs_left (lg_heap s) \<le> kheap_allocs_left h" using kfree_blk [OF i p(1)] by blast
  have "ps ! k \<noteq> p" if "k < length ms" for k
    using that p(3) ok nth_mem [of k ps] by (metis log_holds_def)
  then show ?thesis using h ok p(2) by (intro exI [of _ h]) (auto simp: log_free_def log_holds_def)
qed

lemma log_getmsg_holds:
  assumes "log_holds s ps ms"
  shows "log_getmsg i s = Some (if unat i < length ms then ps ! unat i else 0)"
proof -
  obtain a where a: "lg_arrays s (lg_buffer s) = Some a" "length ms \<le> length a" "take (length ms) a = ps" "unat (lg_len s) = length ms"
    "kheap_inv (lg_heap s)" "blk_at (lg_heap s) (lg_buffer s)" using assms by (auto simp: log_holds_def)
  then have "load (lg_arrays s) (lg_buffer s) = Some a" using blk_at_nonzero by (simp add: load_def)
  then show ?thesis using a by (auto simp: log_getmsg_def word_le_nat_alt nth_opt_def)
qed

text \<open>
  C32 (functional): one more message. If the text of a message fits into the buffer of 256 characters and twice the length of its format,
  then \<open>_log_printf\<close> prints it, keeps all messages before it and adds it at the end of the log, where
  \<open>_log_getmsg\<close> finds each by its number and returns a null pointer for every other number. If it does not fit, then
  the buffer overflows.
\<close>

theorem log_printf_keeps_messages:
  assumes ok: "log_holds s ps ms" and t: "log_text fname line lvl fmt args = Some t" and room: "log_room fmt t ms s"
  shows "if length t < 256 + 2 * length fmt
    then \<exists>s' p. log_printf kalloc kfree fname line lvl fmt args s = Some s' \<and> log_holds s' (ps @ [p]) (ms @ [c_text t]) \<and> lg_vga s' = lg_vga s @ [c_text t] \<and>
      (\<forall>i. log_getmsg i s' = Some (if unat i < length ms + 1 then (ps @ [p]) ! unat i else 0))
    else log_printf kalloc kfree fname line lvl fmt args s = None"
proof -
  let ?r = "256 + of_nat (length fmt) * 2 :: u32" and ?t = "c_text t"
  have r: "unat ?r = 256 + 2 * length fmt" using room u32_of_nat [of "length fmt"] by (simp add: log_room_def unat_word_ariths)
  have r0: "?r \<noteq> 0" using r by (metis add_is_0 unsigned_0 zero_neq_numeral)
  have i: "kheap_inv (lg_heap s)" using ok by (simp add: log_holds_def)
  have rm: "roundup16 (unat ?r) \<le> kheap_bytes_left (lg_heap s)" "0 < kheap_allocs_left (lg_heap s)"
    unfolding r using room roundup16_le_add [of "256 + 2 * length fmt"] by (simp_all add: log_room_def)
  obtain w h where a: "kalloc ?r (lg_heap s) = Some (w, h)" "kheap_inv h" "w \<noteq> 0" "\<not> blk_at (lg_heap s) w" "\<And>q. blk_at h q \<longleftrightarrow> q = w \<or> blk_at (lg_heap s) q"
    "kheap_bytes_left (lg_heap s) - roundup16 (unat ?r) \<le> kheap_bytes_left h" "kheap_allocs_left (lg_heap s) - 1 \<le> kheap_allocs_left h"
    using kalloc_blk [OF i r0 rm] by blast
  show ?thesis
  proof (cases "length t < 256 + 2 * length fmt")
    case False
    then have "log_printf kalloc kfree fname line lvl fmt args s = None" using t a(1,3) r by (simp add: log_printf_def Let_def)
    then show ?thesis using False by simp
  next
    case True
    have tl: "length ?t \<le> length t" by (simp add: c_text_def length_takeWhile_le)
    have z: "unat (of_nat (length ?t) + 1 :: u32) = length ?t + 1"
      using tl True room u32_of_nat [of "length ?t"] by (simp add: log_room_def unat_word_ariths)
    then have z0: "(of_nat (length ?t) + 1 :: u32) \<noteq> 0" by (metis Suc_eq_plus1 nat.distinct(1) unsigned_0)
    have rm1: "roundup16 (unat (of_nat (length ?t) + 1 :: u32)) \<le> kheap_bytes_left h" "0 < kheap_allocs_left h"
      unfolding z using room a(6,7) r tl roundup16_le_add [of "length ?t + 1"] roundup16_le_add [of "256 + 2 * length fmt"]
      by (auto simp: log_room_def)
    obtain b h1 where b: "kalloc (of_nat (length ?t) + 1) h = Some (b, h1)" "kheap_inv h1" "b \<noteq> 0" "\<not> blk_at h b" "\<And>q. blk_at h1 q \<longleftrightarrow> q = b \<or> blk_at h q"
      "kheap_bytes_left h - roundup16 (length ?t + 1) \<le> kheap_bytes_left h1" "kheap_allocs_left h - 1 \<le> kheap_allocs_left h1"
      using kalloc_blk [OF a(2) z0 rm1] unfolding z by blast
    have bo: "b \<noteq> w" "\<not> blk_at (lg_heap s) b" using b(4) a(5) by auto
    let ?s1 = "s\<lparr>lg_heap := h1, lg_strs := (lg_strs s)(w \<mapsto> ?t, b \<mapsto> ?t)\<rparr>"
    have ok1: "log_holds ?s1 ps ms" by (rule log_holds_strs [OF ok b(2)]) (use a(4,5) b(5) bo in auto)
    have w: "blk_at (lg_heap ?s1) w" "w \<noteq> lg_buffer ?s1" "w \<notin> set ps"
      using a(4,5) b(5) ok by (auto simp: log_holds_def in_set_conv_nth)
    obtain h2 where h2: "log_free kfree w ?s1 = Some (?s1\<lparr>lg_heap := h2, lg_arrays := (lg_arrays ?s1)(w := None), lg_strs := (lg_strs ?s1)(w := None)\<rparr>)"
      "log_holds (?s1\<lparr>lg_heap := h2, lg_arrays := (lg_arrays ?s1)(w := None), lg_strs := (lg_strs ?s1)(w := None)\<rparr>) ps ms"
      "\<And>q. blk_at h2 q \<longleftrightarrow> q \<noteq> w \<and> blk_at h1 q" "kheap_bytes_left h1 \<le> kheap_bytes_left h2" "kheap_allocs_left h1 \<le> kheap_allocs_left h2"
      using log_free_ok [OF ok1 w] by auto
    let ?s2 = "s\<lparr>lg_heap := h2, lg_arrays := (lg_arrays s)(w := None), lg_strs := ((lg_strs s)(w \<mapsto> ?t, b \<mapsto> ?t))(w := None), lg_vga := lg_vga s @ [?t]\<rparr>"
    have ok2: "log_holds ?s2 ps ms" using h2(2) by (simp add: log_holds_def)
    have "lg_strs ?s2 b = Some ?t" "blk_at (lg_heap ?s2) b" "b \<noteq> lg_buffer ?s2" using bo b(5) h2(3) ok by (auto simp: log_holds_def)
    moreover have "4 * (length ms + 1) < 2 ^ 31" "4 * (length ms + 1) + 16 \<le> kheap_bytes_left (lg_heap ?s2)" "0 < kheap_allocs_left (lg_heap ?s2)"
      using room a(6,7) b(6,7) h2(4,5) r tl roundup16_le_add [of "length ?t + 1"] roundup16_le_add [of "256 + 2 * length fmt"]
      by (auto simp: log_room_def)
    ultimately obtain s' where s': "add_entry kalloc kfree b ?s2 = Some s'" "log_holds s' (ps @ [b]) (ms @ [?t])" "lg_vga s' = lg_vga s @ [?t]"
      using add_entry_ok [OF ok2, of b ?t] by auto
    have "log_printf kalloc kfree fname line lvl fmt args s = Some s'"
      using a(1,3) t True r b(1,3) h2(1) s'(1) by (simp add: log_printf_def Let_def)
    then show ?thesis using True s'(2,3) log_getmsg_holds [OF s'(2)] by auto
  qed
qed

text \<open>A log of no messages yet, in an array of 4.\<close>

definition demo_log :: "addr \<Rightarrow> kheap \<Rightarrow> kheap log" where
  "demo_log p h = \<lparr>lg_heap = h, lg_arrays = [p \<mapsto> replicate 4 0], lg_strs = Map.empty, lg_buffer = p, lg_len = 0, lg_installed = True, lg_vga = []\<rparr>"

definition demo_msg :: string where
  "demo_msg = ''('' @ CHR 0x1B # ''[94ma.c'' @ CHR 0x1B # ''[97m:'' @ CHR 0x1B # ''[93m7'' @ CHR 0x1B # ''[97m): ['' @ CHR 0x1B # ''[32mOK'' @ CHR 0x1B # ''[97m]: hi''"

lemma l_itoa_7: "l_itoa 7 10 True False = Some ''7''"
proof -
  have n: "\<not> (7 :: u32) <s 0" "(7 :: u32) <s 10" by (simp_all add: word_sless_alt)
  have ch: "chr 55 = CHR ''7''" by code_simp
  have a: "itoa_scale 7 10 1 = Some 1" by (subst itoa_scale.simps) simp
  have b: "itoa_digits False 10 0 0 (Suc 0) = Some []" by (subst itoa_digits.simps) simp
  have "itoa_digits False 10 7 1 0 = Some ''7''" by (subst itoa_digits.simps) (simp add: b n ch Let_def)
  then show ?thesis using n(1) a by (simp add: l_itoa_def Let_def)
qed

theorem log_printf_keeps_messages_witness:
  "\<exists>s s' p. log_holds s [] [] \<and> log_printf kalloc kfree ''a.c'' 7 1 ''hi'' [] s = Some s' \<and> log_holds s' [p] [demo_msg] \<and> log_getmsg 0 s' = Some p"
proof -
  have c: "kheap_inv (heap_init 0xD0000000)" "roundup16 (unat (16 :: u32)) \<le> kheap_bytes_left (heap_init 0xD0000000)" "0 < kheap_allocs_left (heap_init 0xD0000000)"
    using heap_init_inv [OF demo_fresh(2)] demo_bytes by (simp_all add: roundup16_def)
  obtain p h where p: "kheap_inv h" "blk_at h p" "0x1EFFEFFF - 16 \<le> kheap_bytes_left h" "999 \<le> kheap_allocs_left h"
    using kalloc_blk [OF c(1) _ c(2,3)] demo_bytes by (fastforce simp: roundup16_def)
  let ?s = "demo_log p h"
  have s: "log_holds ?s [] []" using p(1,2) by (simp add: log_holds_def demo_log_def)
  have t: "log_text ''a.c'' 7 1 ''hi'' [] = Some demo_msg"
    by (simp add: log_text_def lvlltbl_def log_prefix_def l_sprintf_def l_conv_def l_itoa_7 demo_msg_def)
  have r: "log_room ''hi'' demo_msg [] ?s" using p(3,4) by (simp add: log_room_def demo_log_def demo_msg_def)
  have m: "c_text demo_msg = demo_msg" "length demo_msg < 256 + 2 * length ''hi''" by (simp_all add: c_text_def demo_msg_def)
  obtain s' q where "log_printf kalloc kfree ''a.c'' 7 1 ''hi'' [] ?s = Some s'" "log_holds s' ([] @ [q]) ([] @ [c_text demo_msg])"
    "\<forall>i. log_getmsg i s' = Some (if unat i < length ([] :: string list) + 1 then ([] @ [q]) ! unat i else 0)"
    using log_printf_keeps_messages [OF s t r] unfolding if_P [OF m(2)] by blast
  then show ?thesis using s m(1) by (intro exI [of _ ?s] exI [of _ s'] exI [of _ q]) simp
qed

end
