(* ===== verification/Panic.thy ===== *)
theory Panic
  imports Print
begin

text \<open>
  The end of the kernel: \<^verbatim>\<open>module/panic/main.c\<close>. \<^verbatim>\<open>vga_printf\<close> and the search for names of modules and symbols are
  of the kernel submodule: the first is kept as the list of its formats with their arguments, the others are
  arguments of the definitions, which take what the variable for the offset held before.
\<close>

record interrupt_state =
  is_gs :: u32
  is_fs :: u32
  is_es :: u32
  is_ds :: u32
  is_edi :: u32
  is_esi :: u32
  is_ebp :: u32
  is_esp :: u32
  is_ebx :: u32
  is_edx :: u32
  is_ecx :: u32
  is_eax :: u32
  is_num :: u32
  is_err :: u32
  is_eip :: u32
  is_cs :: u32
  is_eflags :: u32
  is_usresp :: u32
  is_ss :: u32

text \<open>\<^verbatim>\<open>panicd\<close>, the table of 32 hooks and the next place in it, and what was printed.\<close>

record panic =
  pn_panicd :: bool
  pn_hooks :: "addr list"
  pn_next :: nat
  pn_out :: "(string \<times> fmt_arg list) list"

record names =
  nm_module :: "u32 \<Rightarrow> u32 \<Rightarrow> string \<times> u32"
  nm_symbol :: "u32 \<Rightarrow> u32 \<Rightarrow> string \<times> u32"

definition panic_add_hook :: "addr \<Rightarrow> panic \<Rightarrow> panic option" where
  "panic_add_hook hook s = do {
     hs \<leftarrow> upd_opt (pn_hooks s) (pn_next s) hook;
     Some (s\<lparr>pn_hooks := hs, pn_next := pn_next s + 1\<rparr>) }"

definition vga_printf :: "string \<Rightarrow> fmt_arg list \<Rightarrow> panic \<Rightarrow> panic" where
  "vga_printf fmt args s = s\<lparr>pn_out := pn_out s @ [(fmt, args)]\<rparr>"

definition print_ctx :: "names \<Rightarrow> interrupt_state \<Rightarrow> panic \<Rightarrow> panic" where
  "print_ctx nm r s = (
     let (md, om) = nm_module nm (is_eip r) 0xDEAD;
         (sym, os) = nm_symbol nm (is_eip r) 0xDEAD;
         s1 = vga_printf (''EIP: %X [%s:%X] (%s:%X)'' @ [CHR 0x0A]) [ANum (is_eip r), AStr md, ANum om, AStr sym, ANum os] s;
         s2 = vga_printf (''EAX: %X   EBX: %X   ECX: %X   EDX: %X'' @ [CHR 0x0A]) [ANum (is_eax r), ANum (is_ebx r), ANum (is_ecx r), ANum (is_edx r)] s1;
         s3 = vga_printf (''ESI: %X   EDI: %X   ESP: %X   EBP: %X'' @ [CHR 0x0A]) [ANum (is_esi r), ANum (is_edi r), ANum (is_esp r), ANum (is_ebp r)] s2;
         s4 = vga_printf (''DS:  %X   ES:  %X   FS:  %X   GS:  %X'' @ [CHR 0x0A]) [ANum (is_ds r), ANum (is_es r), ANum (is_fs r), ANum (is_gs r)] s3
     in vga_printf (''CS:  %X   FLG: %X   USP: %X   SS:  %X'' @ [CHR 0x0A]) [ANum (is_cs r), ANum (is_eflags r), ANum (is_usresp r), ANum (is_ss r)] s4)"

text \<open>
  A frame of the stack holds the address of the next one and an instruction's address. \<open>frame\<close> reads the two words at an
  address and may fault; \<open>f\<close> is the counter, a byte.
\<close>

partial_function (option) stk_loop :: "names \<Rightarrow> (addr \<Rightarrow> (addr \<times> u32) option) \<Rightarrow> addr \<Rightarrow> u8 \<Rightarrow> panic \<Rightarrow> panic option" where
  "stk_loop nm frame stk f s =
     (if stk \<noteq> 0 \<and> f < 20 then do {
        (ebp, eip) \<leftarrow> frame stk;
        let (md, om) = nm_module nm eip 0xDEAD;
        let (sym, os) = nm_symbol nm eip 0xDEAD;
        stk_loop nm frame ebp (f + 1)
          (vga_printf (''[%X]: (%s:%s:%i)'' @ [CHR 0x0A]) [ANum eip, AStr md, AStr sym, ANum os] s) }
      else Some s)"

definition print_stk :: "names \<Rightarrow> (addr \<Rightarrow> (addr \<times> u32) option) \<Rightarrow> interrupt_state \<Rightarrow> panic \<Rightarrow> panic option" where
  "print_stk nm frame r s = stk_loop nm frame (is_ebp r) 0 s"

text \<open>The hooks; one may add another.\<close>

partial_function (option) panic_hooks :: "(addr \<Rightarrow> interrupt_state option \<Rightarrow> panic \<Rightarrow> panic option) \<Rightarrow> interrupt_state option \<Rightarrow> nat \<Rightarrow> panic \<Rightarrow> panic option" where
  "panic_hooks call r i s =
     (if i < pn_next s then do {
        h \<leftarrow> nth_opt (pn_hooks s) i;
        s1 \<leftarrow> call h r s;
        panic_hooks call r (i + 1) s1 }
      else Some s)"

definition second_order :: string where
  "second_order = CHR 0x1B # ''[33;41m========================== '' @ CHR 0x1B # ''[91mSECOND ORDER  KERNEL PANIC '' @
     CHR 0x1B # ''[33m=========================='' @ CHR 0x1B # ''[97;40m'' @ [CHR 0x0A]"

definition first_order :: string where
  "first_order = CHR 0x1B # ''[33m================================= '' @ CHR 0x1B # ''[91mKERNEL PANIC '' @
     CHR 0x1B # ''[33m================================='' @ CHR 0x1B # ''[97m'' @ [CHR 0x0A]"

text \<open>
  \<^verbatim>\<open>__panic\<close> up to the place where the processor halts for ever. \<open>fmt\<close> is \<^verbatim>\<open>k_vprintf\<close> of the kernel submodule for the
  format and arguments given, whose text has to fit into 256 bytes. A panic within a panic executes \<^verbatim>\<open>hlt\<close> right after its first
  line: with interrupts switched off (\<open>ifl\<close> is the interrupt flag) it stays there, otherwise it goes on at the next interrupt. (An NMI, which
  wakes the processor in either case, is left aside.) The handlers of exceptions, which call \<^verbatim>\<open>__panic\<close> with a state, run with
  interrupts off (\<^verbatim>\<open>cli\<close> in \<^verbatim>\<open>isr/handler.asm\<close>).
\<close>

definition panic_halt :: "names \<Rightarrow> (addr \<Rightarrow> (addr \<times> u32) option) \<Rightarrow> (addr \<Rightarrow> interrupt_state option \<Rightarrow> panic \<Rightarrow> panic option) \<Rightarrow>
    bool \<Rightarrow> interrupt_state option \<Rightarrow> string option \<Rightarrow> panic \<Rightarrow> panic option" where
  "panic_halt nm frame call ifl r fmt s = (
     let s1 = vga_printf (if pn_panicd s then second_order else first_order) [] s in
     if pn_panicd s \<and> \<not> ifl then Some s1
     else do {
       buf \<leftarrow> fmt;
       if 256 \<le> length buf then None
       else do {
         let s2 = vga_printf (''%s'' @ [CHR 0x0A]) [AStr buf] s1;
         s3 \<leftarrow> (case r of None \<Rightarrow> Some s2
           | Some i \<Rightarrow> do {
               let s4 = print_ctx nm i (vga_printf (''Context:'' @ [CHR 0x0A]) [] s2);
               if \<not> pn_panicd s4
               then print_stk nm frame i (vga_printf (''Stack trace:'' @ [CHR 0x0A]) [] (s4\<lparr>pn_panicd := True\<rparr>))
               else Some s4 });
         s5 \<leftarrow> panic_hooks call r 0 (vga_printf (CHR 0x0A # ''Other Information:'' @ [CHR 0x0A, CHR 0x0A]) [] s3);
         Some (vga_printf (CHR 0x0A # ''System halted!'' @ [CHR 0x0A]) [] s5) } })"

end
