(* ===== verification/Panic_Props.thy ===== *)
theory Panic_Props
  imports Panic
begin

text \<open>A panic always comes to its end, whatever the stack looks like.\<close>

text \<open>The instruction addresses of at most \<open>n\<close> frames from \<open>a\<close> on, and what is printed of one.\<close>

fun frames :: "(addr \<Rightarrow> (addr \<times> u32) option) \<Rightarrow> addr \<Rightarrow> nat \<Rightarrow> u32 list" where
  "frames frame a 0 = []"
| "frames frame a (Suc n) = (if a = 0 then [] else (case frame a of None \<Rightarrow> [] | Some (b, eip) \<Rightarrow> eip # frames frame b n))"

definition frame_line :: "names \<Rightarrow> u32 \<Rightarrow> string \<times> fmt_arg list" where
  "frame_line nm eip = (''[%X]: (%s:%s:%i)'' @ [CHR 0x0A],
     [ANum eip, AStr (fst (nm_module nm eip 0xDEAD)), AStr (fst (nm_symbol nm eip 0xDEAD)), ANum (snd (nm_symbol nm eip 0xDEAD))])"

lemma frames_length: "length (frames frame a n) \<le> n"
  by (induction n arbitrary: a) (auto split: option.splits)

lemma stk_loop_frames:
  assumes "\<And>a. frame a \<noteq> None" and "unat f + n = 20"
  shows "stk_loop nm frame a f s = Some (s\<lparr>pn_out := pn_out s @ map (frame_line nm) (frames frame a n)\<rparr>)"
  using assms(2)
proof (induction n arbitrary: a f s)
  case 0
  then have "\<not> f < 20" by (simp add: word_less_nat_alt)
  then show ?case by (subst stk_loop.simps) simp
next
  case (Suc n)
  then have f: "f < 20" "unat (f + 1) + n = 20" by (simp_all add: word_less_nat_alt unat_word_ariths)
  show ?case
  proof (cases "a = 0")
    case True
    then show ?thesis by (subst stk_loop.simps) simp
  next
    case False
    obtain b eip where fr: "frame a = Some (b, eip)" using assms(1) [of a] by auto
    let ?s = "s\<lparr>pn_out := pn_out s @ [frame_line nm eip]\<rparr>"
    have "stk_loop nm frame a f s = stk_loop nm frame b (f + 1) ?s"
      using False f(1) fr by (subst stk_loop.simps) (simp add: vga_printf_def frame_line_def case_prod_unfold Let_def)
    also have "\<dots> = Some (?s\<lparr>pn_out := pn_out ?s @ map (frame_line nm) (frames frame b n)\<rparr>)" by (rule Suc.IH [OF f(2)])
    finally show ?thesis using False fr by simp
  qed
qed

lemma panic_hooks_run:
  assumes call: "call = (\<lambda>h r s. Some (s\<lparr>pn_out := pn_out s @ g h\<rparr>))" and "pn_next s \<le> length (pn_hooks s)" and "i + n = pn_next s"
  shows "panic_hooks call r i s = Some (s\<lparr>pn_out := pn_out s @ concat (map g (take n (drop i (pn_hooks s))))\<rparr>)"
  using assms(2,3)
proof (induction n arbitrary: i s)
  case 0
  then show ?case by (subst panic_hooks.simps) simp
next
  case (Suc n)
  let ?s = "s\<lparr>pn_out := pn_out s @ g (pn_hooks s ! i)\<rparr>"
  have i: "i < length (pn_hooks s)" "i < pn_next s" using Suc.prems by simp_all
  then have run: "panic_hooks call r i s = panic_hooks call r (i + 1) ?s" by (subst panic_hooks.simps) (simp add: call)
  have d: "take (Suc n) (drop i (pn_hooks s)) = pn_hooks s ! i # take n (drop (i + 1) (pn_hooks s))" using i(1) by (simp add: Cons_nth_drop_Suc [symmetric])
  have "panic_hooks call r (i + 1) ?s = Some (?s\<lparr>pn_out := pn_out ?s @ concat (map g (take n (drop (i + 1) (pn_hooks ?s))))\<rparr>)"
    by (rule Suc.IH) (use Suc.prems in simp_all)
  then show ?case unfolding run d by simp
qed

text \<open>The lines about the state of the processor.\<close>

definition context_lines :: "names \<Rightarrow> interrupt_state \<Rightarrow> (string \<times> fmt_arg list) list" where
  "context_lines nm i = pn_out (print_ctx nm i \<lparr>pn_panicd = False, pn_hooks = [], pn_next = 0, pn_out = []\<rparr>)"

lemma print_ctx_lines: "print_ctx nm i s = s\<lparr>pn_out := pn_out s @ context_lines nm i\<rparr>"
  by (simp add: context_lines_def print_ctx_def vga_printf_def case_prod_unfold Let_def)

lemma panicd_same: "pn_panicd s = b \<Longrightarrow> s\<lparr>pn_panicd := b, pn_out := x\<rparr> = s\<lparr>pn_out := x\<rparr>"
  by (cases s) simp

text \<open>What a panic prints from its second line on, with the lines of the hooks.\<close>

definition panic_lines :: "names \<Rightarrow> (addr \<Rightarrow> (addr \<times> u32) option) \<Rightarrow> bool \<Rightarrow> interrupt_state option \<Rightarrow> string \<Rightarrow> (string \<times> fmt_arg list) list \<Rightarrow>
    (string \<times> fmt_arg list) list" where
  "panic_lines nm frame again r buf hs = (''%s'' @ [CHR 0x0A], [AStr buf]) #
     (case r of None \<Rightarrow> [] | Some i \<Rightarrow> (''Context:'' @ [CHR 0x0A], []) # context_lines nm i @
        (if again then [] else (''Stack trace:'' @ [CHR 0x0A], []) # map (frame_line nm) (frames frame (is_ebp i) 20))) @
     (CHR 0x0A # ''Other Information:'' @ [CHR 0x0A, CHR 0x0A], []) # hs @ [(CHR 0x0A # ''System halted!'' @ [CHR 0x0A], [])]"

text \<open>
  C33 (termination): a panic comes to its end, where the processor halts, when the stack can be read and the hooks only print. The first panic prints
  the message, the state, if there is one, with at most 20 frames of the stack, even where the frames go round in a circle, then
  calls the hooks in the order in which they were added, and stops. A panic within a panic (after one with a state) prints its first line and halts there for ever,
  as long as interrupts are off, which they are in the handlers of exceptions; only with interrupts on it goes on, without the stack.
\<close>

theorem panic_halts:
  assumes "\<And>a. frame a \<noteq> None" and "call = (\<lambda>h r s. Some (s\<lparr>pn_out := pn_out s @ g h\<rparr>))"
    and "length (pn_hooks s) = 32" "pn_next s \<le> 32" and "length buf < 256"
  shows "length (frames frame a 20) \<le> 20 \<and> panic_halt nm frame call ifl r (Some buf) s = Some (
    if \<not> pn_panicd s then s\<lparr>pn_panicd := r \<noteq> None, pn_out := pn_out s @ (first_order, []) #
         panic_lines nm frame False r buf (concat (map g (take (pn_next s) (pn_hooks s))))\<rparr>
    else if \<not> ifl then s\<lparr>pn_out := pn_out s @ [(second_order, [])]\<rparr>
    else s\<lparr>pn_out := pn_out s @ (second_order, []) # panic_lines nm frame True r buf (concat (map g (take (pn_next s) (pn_hooks s))))\<rparr>)"
proof -
  have st: "stk_loop nm frame a 0 s = Some (s\<lparr>pn_out := pn_out s @ map (frame_line nm) (frames frame a 20)\<rparr>)" for a s
    by (rule stk_loop_frames [OF assms(1)]) simp
  have hk: "panic_hooks call j 0 u = Some (u\<lparr>pn_out := pn_out u @ concat (map g (take (pn_next s) (pn_hooks s)))\<rparr>)"
    if "pn_next u = pn_next s" "pn_hooks u = pn_hooks s" for u j
    using panic_hooks_run [OF assms(2), of u 0 "pn_next s" j] that assms(3,4) by simp
  show ?thesis using assms(5) frames_length [of frame a 20]
    by (cases r; cases "pn_panicd s"; cases ifl)
      (simp_all add: panic_halt_def panic_lines_def print_stk_def vga_printf_def print_ctx_lines st hk Let_def panicd_same)
qed

text \<open>A frame that is its own caller, and a panic in the handling of the first.\<close>

definition demo_panic_state :: interrupt_state where
  "demo_panic_state = \<lparr>is_gs = 0, is_fs = 0, is_es = 0, is_ds = 0, is_edi = 0, is_esi = 0, is_ebp = 0x5000, is_esp = 0, is_ebx = 0, is_edx = 0, is_ecx = 0,
     is_eax = 0, is_num = 14, is_err = 0, is_eip = 0x100, is_cs = 8, is_eflags = 0, is_usresp = 0, is_ss = 0\<rparr>"

theorem panic_halts_witness:
  "\<exists>s s'. panic_halt \<lparr>nm_module = \<lambda>a d. (''kernel'', d), nm_symbol = \<lambda>a d. (''main'', d)\<rparr> (\<lambda>a. Some (a, 0x100)) (\<lambda>h r s. Some s) False
      (Some demo_panic_state) (Some ''page fault'')
      \<lparr>pn_panicd = False, pn_hooks = replicate 32 0, pn_next = 1, pn_out = []\<rparr> = Some s \<and> pn_panicd s \<and> length (pn_out s) = 31 \<and>
    panic_halt \<lparr>nm_module = \<lambda>a d. (''kernel'', d), nm_symbol = \<lambda>a d. (''main'', d)\<rparr> (\<lambda>a. Some (a, 0x100)) (\<lambda>h r s. Some s) False
      (Some demo_panic_state) (Some ''page fault'') s = Some s' \<and> length (pn_out s') = 32"
proof -
  have c: "(\<lambda>h r s. Some s) = (\<lambda>h r s. Some (s\<lparr>pn_out := pn_out s @ []\<rparr>))" by simp
  have "length (frames (\<lambda>a. Some (a, 0x100)) 0x5000 n) = n" for n by (induction n) simp_all
  then show ?thesis
    by (simp add: panic_halts [THEN conjunct2, OF _ c] panic_lines_def context_lines_def print_ctx_def vga_printf_def demo_panic_state_def Let_def)
qed

end
