(* ===== verification/Kernel_Types.thy ===== *)
theory Kernel_Types
  imports Kernel_Machine
begin

text \<open>The memory of the kernel is typed: an address holds objects of one kind, and pointers lead to objects of theirs.\<close>

definition task_typed :: "('h, 'v) kern \<Rightarrow> task \<Rightarrow> bool" where
  "task_typed s T \<longleftrightarrow> (t_iobm T = 0 \<or> map_option length (k_iobms s (t_iobm T)) = Some 8192) \<and> (t_parent T = 0 \<or> t_parent T \<in> dom (k_utasks s))"

definition utask_typed :: "('h, 'v) kern \<Rightarrow> user_task \<Rightarrow> bool" where
  "utask_typed s U \<longleftrightarrow> ut_task U \<in> dom (k_tasks s) \<and> mb_ok (ut_recvbuf U)"

definition kern_typed :: "(kheap, 'v) kern \<Rightarrow> bool" where
  "kern_typed s \<longleftrightarrow> separate (kinds s) \<and> (\<forall>x \<in> objs s. \<exists>m. (unat x, m) \<in> kheap_used (ls_heap (k_ls s))) \<and>
     (\<forall>T \<in> ran (k_tasks s). task_typed s T) \<and> (\<forall>U \<in> ran (k_utasks s). utask_typed s U) \<and>
     (\<exists>t \<in> dom (k_tasks s). cur_task s = Some t)"

lemma kern_inv_typed:
  assumes "kern_inv s"
  shows "kern_typed s"
proof -
  obtain xs ts ys us where rep: "kern_rep kheap_inv kheap_used s xs ts ys us" using assms by (auto simp: kern_inv_def)
  then have ok: "objs_ok kheap_inv kheap_used s" and d: "dom (k_tasks s) = set ts" "dom (k_utasks s) = set us" by (simp_all add: kern_rep_def)
  have "task_typed s T" if "T \<in> ran (k_tasks s)" for T
  proof -
    obtain t where t: "k_tasks s t = Some T" using \<open>T \<in> ran (k_tasks s)\<close> by (auto simp: ran_def)
    then show ?thesis using kern_rep_task [OF rep, of t] d by (auto simp: task_typed_def)
  qed
  moreover have "utask_typed s U" if "U \<in> ran (k_utasks s)" for U
  proof -
    obtain u where u: "k_utasks s u = Some U" using \<open>U \<in> ran (k_utasks s)\<close> by (auto simp: ran_def)
    then have "ut_task U \<in> dom (k_tasks s)" using kern_rep_proc [OF rep, of u] d by auto
    moreover have "mb_ok (ut_recvbuf U)" using ok u by (auto simp: objs_ok_def queues_ok_def)
    ultimately show ?thesis by (simp add: utask_typed_def)
  qed
  ultimately show ?thesis using ok cur_task_ok [OF rep] d by (auto simp: kern_typed_def objs_ok_def)
qed



end
