(* ===== verification/Stdio.thy ===== *)
theory Stdio
  imports Print_Props LibcHeap_Props
begin

text \<open>
  The three streams of a process and its start: the rest of \<^verbatim>\<open>lib/libc/stdio/stdio.c\<close> and \<^verbatim>\<open>lib/libc/stdio/print.c\<close>, and
  \<^verbatim>\<open>lib/libc/main.c\<close>.
\<close>

record stdio =
  sd_in :: ustream
  sd_out :: ustream
  sd_err :: ustream

text \<open>The buffers are cleared at the end, which faults when one could not be allocated.\<close>

definition stdio_init :: "lheap \<Rightarrow> (stdio \<times> lheap) option" where
  "stdio_init h = do {
     (a, h1) \<leftarrow> malloc BUFSIZ h;
     (b, h2) \<leftarrow> malloc BUFSIZ h1;
     (c, h3) \<leftarrow> malloc BUFSIZ h2;
     if a = 0 \<or> b = 0 \<or> c = 0 then None
     else Some (\<lparr>sd_in = stdio_stream 0, sd_out = stdio_stream 1, sd_err = stdio_stream 2\<rparr>, h3) }"

definition on_stdout :: "(ustream \<Rightarrow> ('r \<times> ustream) option) \<Rightarrow> stdio \<Rightarrow> ('r \<times> stdio) option" where
  "on_stdout f s = do { (r, u) \<leftarrow> f (sd_out s); Some (r, s\<lparr>sd_out := u\<rparr>) }"

definition putchar :: "char \<Rightarrow> stdio \<Rightarrow> (char \<times> stdio) option" where
  "putchar c s = on_stdout (\<lambda>u. do { u1 \<leftarrow> fputc c u; Some (c, u1) }) s"

definition puts :: "string \<Rightarrow> stdio \<Rightarrow> (u32 \<times> stdio) option" where
  "puts t s = on_stdout (fputs t) s"

text \<open>\<open>junk\<close> is what the count of \<^verbatim>\<open>vfprintf\<close> starts with.\<close>

definition vprintf :: "u32 \<Rightarrow> string \<Rightarrow> fmt_arg list \<Rightarrow> stdio \<Rightarrow> (u32 \<times> stdio) option" where
  "vprintf junk fmt args s = on_stdout (vfprintf fmt args junk) s"

definition printf :: "u32 \<Rightarrow> string \<Rightarrow> fmt_arg list \<Rightarrow> stdio \<Rightarrow> (u32 \<times> stdio) option" where
  "printf junk fmt args s = on_stdout (vfprintf fmt args junk) s"

definition fprintf :: "u32 \<Rightarrow> string \<Rightarrow> fmt_arg list \<Rightarrow> ustream \<Rightarrow> (u32 \<times> ustream) option" where
  "fprintf junk fmt args u = vfprintf fmt args junk u"

definition pre_main :: "(stdio \<times> lheap \<Rightarrow> 'r option) \<Rightarrow> 'r option" where
  "pre_main main = do { s \<leftarrow> stdio_init (heap_setup True); main s }"

text \<open>A process starts: its streams have their buffers.\<close>

lemma stdio_init_ok:
  assumes "l_inv h" and "768 \<le> l_bytes_left h" and "3 \<le> l_allocs_left h"
  shows "\<exists>h'. stdio_init h = Some (\<lparr>sd_in = stdio_stream 0, sd_out = stdio_stream 1, sd_err = stdio_stream 2\<rparr>, h') \<and> l_inv h'"
proof -
  have e: "even_up (unat BUFSIZ) = 256" "BUFSIZ \<noteq> 0" by (simp_all add: BUFSIZ_def even_up_def)
  have step: "\<exists>p h1. malloc BUFSIZ h = Some (p, h1) \<and> p \<noteq> 0 \<and> l_inv h1 \<and> b \<le> l_bytes_left h1 \<and> n \<le> l_allocs_left h1"
    if h: "l_inv h" "256 + b \<le> l_bytes_left h" "1 + n \<le> l_allocs_left h" for h b n
  proof -
    have r: "even_up (unat BUFSIZ) \<le> l_bytes_left h" "0 < l_allocs_left h" using h(2,3) e(1) by simp_all
    obtain p h1 m where p: "malloc BUFSIZ h = Some (p, h1)" "l_inv h1" "l_used h1 = insert (unat p, m) (l_used h)"
      "l_bytes_left h - 256 \<le> l_bytes_left h1" "l_allocs_left h - 1 \<le> l_allocs_left h1"
      using lh.alloc_ok [OF h(1) e(2) r] e(1) by auto
    have "(unat p, m) \<in> l_used h1" using p(3) by simp
    then have "p \<noteq> 0" using lh.used_pos [OF p(2)] by fastforce
    then show ?thesis using p h(2,3) by auto
  qed
  obtain a h1 where a: "malloc BUFSIZ h = Some (a, h1)" "a \<noteq> 0" "l_inv h1" "512 \<le> l_bytes_left h1" "2 \<le> l_allocs_left h1"
    using step [OF assms(1), of 512 2] assms(2,3) by auto
  obtain b h2 where b: "malloc BUFSIZ h1 = Some (b, h2)" "b \<noteq> 0" "l_inv h2" "256 \<le> l_bytes_left h2" "1 \<le> l_allocs_left h2"
    using step [OF a(3), of 256 1] a(4,5) by auto
  obtain c h3 where "malloc BUFSIZ h2 = Some (c, h3)" "c \<noteq> 0" "l_inv h3"
    using step [OF b(3), of 0 0] b(4,5) by auto
  then show ?thesis using a b by (simp add: stdio_init_def)
qed

text \<open>A format without conversions is printed character by character, and an empty string at the end.\<close>

lemma fflush_idle: "idle f \<Longrightarrow> fflush f = Some (0, printed [[]] f)"
proof -
  assume f: "idle f"
  then have "fflush f = Some (0, f\<lparr>fl_out := fl_out f @ [[]], fl_buf := Some (replicate 256 nul), fl_bufi := 0\<rparr>)"
    by (intro idle_fflush) (simp_all add: idle_def)
  also have "f\<lparr>fl_out := fl_out f @ [[]], fl_buf := Some (replicate 256 nul), fl_bufi := 0\<rparr> = printed [[]] f"
    using f by (simp add: idle_def printed_def)
  finally show ?thesis .
qed

lemma vfprintf_plain:
  assumes "CHR ''%'' \<notin> set t" and "CHR 0x00 \<notin> set t" and "idle f"
  shows "vfprintf t args k f = Some (k + of_nat (length t), printed (map (\<lambda>c. [c]) t @ [[]]) f)"
  using assms
proof (induction t arbitrary: k f)
  case (Cons c t)
  have p: "fputc c f = Some (printed [[c]] f)" using Cons.prems by (intro fputc_idle) (auto simp: nul_def)
  have i: "idle (printed [[c]] f)" using Cons.prems(3) by simp
  show ?case
  proof (cases t)
    case Nil
    then show ?thesis using p fflush_idle [OF i] Cons.prems(1) by simp
  next
    case (Cons d fs)
    then show ?thesis using p i Cons.IH [of "printed [[c]] f" "k + 1"] Cons.prems by (auto simp: add.assoc)
  qed
qed (simp add: fflush_idle)

end
