(* ===== verification/Clone_Table.thy ===== *)
theory Clone_Table
  imports Paging_Props Bmpmm Kheap_Safe
begin

text \<open>
  Cloning a table of an address space. The pager is put on the frame allocator and the kernel heap: \<open>vm_frames\<close> is the pair of the states
  of both, so that every frame and every buffer that \<open>clonetbl\<close> asks for comes from the models of these components.
\<close>

subsection \<open>The services of the pager\<close>

definition pair_get :: "('s \<Rightarrow> (addr \<times> 's) option) \<Rightarrow> 's \<times> 'h \<Rightarrow> (addr \<times> 's \<times> 'h) option" where
  "pair_get get x = do { (p, f) \<leftarrow> get (fst x); Some (p, f, snd x) }"

definition heap_kal :: "u32 \<Rightarrow> u32 \<Rightarrow> ('s \<times> kheap) vmm \<Rightarrow> (addr \<times> ('s \<times> kheap) vmm) option" where
  "heap_kal n a s = do { (p, h) \<leftarrow> kalloc_a n a (snd (vm_frames s)); Some (p, s\<lparr>vm_frames := (fst (vm_frames s), h)\<rparr>) }"

definition heap_kfr :: "addr \<Rightarrow> ('s \<times> kheap) vmm \<Rightarrow> ('s \<times> kheap) vmm option" where
  "heap_kfr p s = do { h \<leftarrow> kfree p (snd (vm_frames s)); Some (s\<lparr>vm_frames := (fst (vm_frames s), h)\<rparr>) }"

subsection \<open>Entries and frames\<close>

lemma entry_parts: "(e AND 0xFFFFF000) OR ((e AND 0xFFF) AND 0xFFF) = e" for e :: u32
proof -
  have m: "(0xFFFFF000 :: u32) = NOT 0xFFF" by simp
  show ?thesis unfolding m by (rule bit_word_eqI) (auto simp: bit_simps)
qed

text \<open>The address of the frame with a number.\<close>

definition frame_addr :: "nat \<Rightarrow> u32" where
  "frame_addr p = of_nat (p * 4096)"

lemma frame_addr_nat: "p < 2 ^ 20 \<Longrightarrow> unat (frame_addr p) = p * 4096"
  unfolding frame_addr_def by (rule u32_of_nat) simp

lemma frame_addr_num: "e AND 0xFFFFF000 = frame_addr (unat e div 4096)"
proof -
  have m: "(0xFFFFF000 :: u32) = NOT (mask 12)" by (simp add: mask_eq_exp_minus_1)
  have "e AND 0xFFFFF000 = push_bit 12 (drop_bit 12 e)" unfolding m by (rule bit_word_eqI) (auto simp: bit_simps)
  also have "\<dots> = drop_bit 12 e * 4096" by (simp add: push_bit_eq_mult)
  also have "unat (drop_bit 12 e) = unat e div 4096" by (simp add: unat_drop_bit_eq drop_bit_eq_div unat_div)
  then have "drop_bit 12 e = of_nat (unat e div 4096)" by (metis of_nat_unat ucast_id)
  finally show ?thesis by (simp add: frame_addr_def)
qed

lemma frame_addr_inj: "frame_addr p = frame_addr q \<Longrightarrow> p < 2 ^ 20 \<Longrightarrow> q < 2 ^ 20 \<Longrightarrow> p = q"
  by (drule arg_cong [where f = unat]) (simp only: frame_addr_nat mult_cancel2, simp)

lemma frame_addr_aligned:
  assumes "p < 2 ^ 20"
  shows "frame_addr p AND 0xFFF = 0"
proof -
  have m: "(0xFFF :: u32) = mask 12" by (simp add: mask_eq_exp_minus_1)
  have "unat (frame_addr p AND 0xFFF) = unat (frame_addr p) mod 4096"
    unfolding m take_bit_eq_mask [symmetric] by (simp add: take_bit_eq_mod unat_mod)
  then show ?thesis unfolding frame_addr_nat [OF assms] by (simp add: unat_eq_0)
qed

lemma entry_frame:
  assumes "p < 2 ^ 20"
  shows "(frame_addr p OR (e AND 0xFFF)) AND 0xFFFFF000 = frame_addr p"
proof -
  have m: "(0xFFFFF000 :: u32) = NOT 0xFFF" by simp
  have "(e AND 0xFFF) AND 0xFFFFF000 = 0" unfolding m by (rule bit_word_eqI) (auto simp: bit_simps)
  from frame_or_flags [OF frame_addr_aligned [OF assms] this] show ?thesis .
qed

lemma entry_present:
  assumes "layout_ok P" and "p < 2 ^ 20"
  shows "pg_present P (frame_addr p OR (e AND 0xFFF)) \<longleftrightarrow> pg_present P e"
proof -
  have "bit (frame_addr p AND 0xFFF) 0 = bit (frame_addr p) 0" by (simp add: bit_and_iff)
  then have "\<not> bit (frame_addr p) 0" unfolding frame_addr_aligned [OF assms(2)] by simp
  then show ?thesis using assms(1) by (simp add: layout_ok_def bit_or_iff bit_and_iff)
qed

lemma page_addr: "ix < 1024 \<Longrightarrow> i < 1024 \<Longrightarrow> dindex (of_nat ix * 0x400000 + of_nat i * 0x1000) = ix \<and>
    tindex (of_nat ix * 0x400000 + of_nat i * 0x1000) = i"
proof -
  assume h: "ix < 1024" "i < 1024"
  have e: "of_nat ix * 0x400000 + of_nat i * 0x1000 = (of_nat (ix * 0x400000 + i * 0x1000) :: u32)" by simp
  have u: "unat (of_nat (ix * 0x400000 + i * 0x1000) :: u32) = ix * 0x400000 + i * 0x1000" using h by (intro u32_of_nat) simp
  show ?thesis unfolding e dindex_nat tindex_nat u using h by (auto simp: div_mult2_eq [symmetric])
qed

lemma page_split: "unat v div 4096 div 1024 = dindex v" "unat v div 4096 mod 1024 = tindex v"
  using page_index [of v] tindex_less [of v] by simp_all

subsection \<open>One entry\<close>

lemma remappg_at:
  assumes ok: "vm_ok P s D" and tb: "table_at P D (dindex v) fr" and t: "vm_tabs s fr = Some t"
  shows "remappg P getpg phys v flags s =
    Some (t ! tindex v, s\<lparr>vm_tabs := (vm_tabs s)(fr \<mapsto> t[tindex v := phys OR (flags AND 0xFFF)])\<rparr>)"
proof -
  have "length t = 1024" using ok tb t unfolding vm_ok_def by (metis option.inject)
  then show ?thesis using tb t by (simp add: remappg_def cur_entry_ok [OF ok] dindex_less read_tab_ok [OF ok tb]
        write_tab_ok [OF ok tb] tindex_less) (simp add: table_at_def)
qed

lemma vm_ok_frames [simp]: "vm_ok P (s\<lparr>vm_frames := f\<rparr>) D = vm_ok P s D" "vm_ok P (s\<lparr>vm_data := d\<rparr>) D = vm_ok P s D"
  by (simp_all add: vm_ok_def)

lemma vm_ok_tab: "vm_ok P s D \<Longrightarrow> length t = 1024 \<Longrightarrow> vm_ok P (s\<lparr>vm_tabs := (vm_tabs s)(fr \<mapsto> t)\<rparr>) D"
  by (auto simp: vm_ok_def)

lemma vm_ok_table: "vm_ok P s D \<Longrightarrow> table_at P D i fr \<Longrightarrow> \<exists>t. vm_tabs s fr = Some t \<and> length t = 1024"
  unfolding vm_ok_def by blast

lemma vm_ok_inj: "vm_ok P s D \<Longrightarrow> table_at P D i fr \<Longrightarrow> table_at P D j fr \<Longrightarrow> i = j"
  unfolding vm_ok_def by blast

lemma clone_entry:
  assumes L: "layout_ok P" and ok: "vm_ok P s D" and ft: "table_at P D ix ft" "vm_tabs s ft = Some t" "i < 1024"
    and fb: "table_at P D (dindex pb) fb" "dindex pb \<noteq> ix" and new: "\<forall>j. \<not> table_at P D j paddr" "vm_tabs s paddr = Some nt" "length nt = 1024"
    and e: "t ! i \<noteq> 0" "pg_present P (t ! i)" and get: "get (vm_frames s) = Some (frame_addr p, f)" "p < 2 ^ 20"
    and b: "vm_data s (t ! i AND 0xFFFFF000) = Some b"
  shows "clonetbl_loop P get ix pb paddr (i # is') s = clonetbl_loop P get ix pb paddr is'
    (s\<lparr>vm_tabs := (vm_tabs s)(paddr \<mapsto> nt[i := frame_addr p OR (t ! i AND 0xFFF)]),
       vm_data := (vm_data s)(frame_addr p \<mapsto> b), vm_frames := f\<rparr>)"
proof -
  let ?blk = "frame_addr p" and ?e = "frame_addr p OR (t ! i AND 0xFFF)" and ?cl = "of_nat ix * 0x400000 + of_nat i * 0x1000 :: u32"
  obtain tb where tb: "vm_tabs s fb = Some tb" "length tb = 1024" using vm_ok_table [OF ok fb(1)] by blast
  have ne: "fb \<noteq> ft" "fb \<noteq> paddr" "ft \<noteq> paddr" using vm_ok_inj [OF ok fb(1)] ft(1) fb new(1) by metis+
  have ix: "ix < 1024" using ft(1) by (simp add: table_at_def)
  have lt: "length t = 1024" using vm_ok_table [OF ok ft(1)] ft(2) by simp
  let ?s0 = "s\<lparr>vm_frames := f\<rparr>"
  let ?s1 = "?s0\<lparr>vm_tabs := (vm_tabs s)(fb \<mapsto> tb[tindex pb := ?e])\<rparr>"
  have ok0: "vm_ok P ?s0 D" using ok by simp
  have r1: "remappg P get ?blk pb (t ! i AND 0xFFF) ?s0 = Some (tb ! tindex pb, ?s1)"
    using remappg_at [OF ok0 fb(1), of tb get ?blk "t ! i AND 0xFFF"] tb(1) by (simp add: and.assoc)
  have ok1: "vm_ok P ?s1 D" using vm_ok_tab [OF ok0, of "tb[tindex pb := ?e]" fb] tb(2) by simp
  have t1: "read_tab P ?s1 ix = Some t" "read_tab P ?s1 (dindex pb) = Some (tb[tindex pb := ?e])"
    using read_tab_ok [OF ok1 ft(1)] read_tab_ok [OF ok1 fb(1)] ft(2) ne by simp_all
  have fr: "frame_of P ?s1 pb = Some ?blk" "frame_of P ?s1 ?cl = Some (t ! i AND 0xFFFFF000)"
    using t1 tb(2) lt ft(3) e(2) page_addr [OF ix ft(3)] entry_frame [OF get(2), of "t ! i"] entry_present [OF L get(2), of "t ! i"] tindex_less [of pb]
    by (simp_all add: frame_of_def tab_frame_def)
  let ?s2 = "?s1\<lparr>vm_data := (vm_data s)(?blk \<mapsto> b)\<rparr>"
  have c: "copy_page P pb ?cl ?s1 = Some ?s2" using fr b by (simp add: copy_page_def)
  have ok2: "vm_ok P ?s2 D" using ok1 by simp
  let ?old = "tb ! tindex pb"
  have u: "tb[tindex pb := ?e, tindex pb := (?old AND 0xFFFFF000) OR ((?old AND 0xFFF) AND 0xFFF)] = tb"
    unfolding entry_parts by simp
  have r2: "remappg P get (?old AND 0xFFFFF000) pb (?old AND 0xFFF) ?s2 = Some (?e, ?s2\<lparr>vm_tabs := vm_tabs s\<rparr>)"
    using remappg_at [OF ok2 fb(1), of "tb[tindex pb := ?e]" get "?old AND 0xFFFFF000" "?old AND 0xFFF"] tb u tindex_less [of pb]
    by (simp add: fun_upd_idem)
  have rt: "read_tab P s ix = Some t" using read_tab_ok [OF ok ft(1)] ft(2) by simp
  have same: "?s2\<lparr>vm_tabs := vm_tabs s\<rparr>\<lparr>vm_tabs := (vm_tabs s)(paddr \<mapsto> nt[i := ?e])\<rparr> =
    s\<lparr>vm_tabs := (vm_tabs s)(paddr \<mapsto> nt[i := ?e]), vm_data := (vm_data s)(?blk \<mapsto> b), vm_frames := f\<rparr>" by simp
  have "clonetbl_loop P get ix pb paddr (i # is') s = clonetbl_loop P get ix pb paddr is' (?s2\<lparr>vm_tabs := vm_tabs s\<rparr>\<lparr>vm_tabs := (vm_tabs s)(paddr \<mapsto> nt[i := ?e])\<rparr>)"
    using rt lt ft(3) e(1) get(1) r1 c r2 new(2,3) by simp
  then show ?thesis unfolding same .
qed

subsection \<open>One table\<close>

text \<open>An entry whose page can be copied, and whose frame is taken, so that no copy overwrites it.\<close>

definition src_ok :: "pg_layout \<Rightarrow> (u32 \<Rightarrow> u8 list option) \<Rightarrow> nat set \<Rightarrow> u32 \<Rightarrow> bool" where
  "src_ok P data F e \<longleftrightarrow> pg_present P e \<and> (\<exists>b. data (e AND 0xFFFFF000) = Some b) \<and> unat e div 4096 \<in> F"

text \<open>Each of the entries \<open>E k\<close> has a copy \<open>E' k\<close> with the same flags, in a frame \<open>c k\<close> of its own that holds the same data.\<close>

definition copies :: "(nat \<Rightarrow> nat) \<Rightarrow> nat set \<Rightarrow> (nat \<Rightarrow> u32) \<Rightarrow> (u32 \<Rightarrow> u8 list option) \<Rightarrow> (nat \<Rightarrow> u32) \<Rightarrow> (u32 \<Rightarrow> u8 list option) \<Rightarrow> bool" where
  "copies c K E data E' data' \<longleftrightarrow> inj_on c K \<and>
     (\<forall>k \<in> K. E' k = frame_addr (c k) OR (E k AND 0xFFF) \<and> data' (frame_addr (c k)) = data (E k AND 0xFFFFF000))"

text \<open>
  What cloning a table \<open>t\<close> does: its entries \<open>K\<close> that are not 0 have copies in \<open>nt'\<close>, the others are as they were in \<open>nt\<close>; the
  copies are in frames that were free before, and the frames in use keep their data.
\<close>

definition tbl_cloned :: "nat set \<Rightarrow> (u32 \<Rightarrow> u8 list option) \<Rightarrow> u32 list \<Rightarrow> u32 list \<Rightarrow> nat set \<Rightarrow> nat set \<Rightarrow> (u32 \<Rightarrow> u8 list option) \<Rightarrow>
    u32 list \<Rightarrow> (nat \<Rightarrow> nat) \<Rightarrow> bool" where
  "tbl_cloned F data nt t K F' data' nt' c \<longleftrightarrow> length nt' = 1024 \<and> F \<subseteq> F' \<and> card F' = card F + card K \<and>
     copies c K ((!) t) data ((!) nt') data' \<and> c ` K \<subseteq> F' - F \<and> (\<forall>i. i \<notin> K \<longrightarrow> nt' ! i = nt ! i) \<and>
     (\<forall>p \<in> F. data' (frame_addr p) = data (frame_addr p))"

context frame_allocator
begin

lemma frames_num: "inv f \<Longrightarrow> total f \<le> 2 ^ 20 \<Longrightarrow> p \<in> frames f \<Longrightarrow> p < 2 ^ 20"
  using frames_le [of f] by (meson lessThan_iff less_le_trans subsetD)

lemma pair_get_free:
  assumes "inv f" and "card (frames f) < total f"
  shows "\<exists>p f'. pair_get getpg (f, h) = Some (frame_addr p, f', h) \<and> p < total f \<and> p \<notin> frames f \<and> inv f' \<and> total f' = total f \<and>
    frames f' = insert p (frames f)"
proof -
  have "frames f \<noteq> {..<total f}" using assms(2) by (metis card_lessThan less_irrefl)
  from getpg_free [OF assms(1) this] obtain p f' where g: "getpg f = Some (frame_addr p, f')" "p < total f" "p \<notin> frames f" "inv f'"
    "total f' = total f" "frames f' = insert p (frames f)" unfolding frame_addr_def by blast
  have "pair_get getpg (f, h) = Some (frame_addr p, f', h)" using g(1) by (simp add: pair_get_def)
  then show ?thesis using g(2-) by blast
qed

lemma clonetbl_loop_copies:
  assumes L: "layout_ok P" and "vm_ok P s D" and "table_at P D ix ft" "vm_tabs s ft = Some t"
    and "table_at P D (dindex pb) fb" "dindex pb \<noteq> ix" and "\<forall>j. \<not> table_at P D j paddr" "vm_tabs s paddr = Some nt" "length nt = 1024"
    and "distinct is" "set is \<subseteq> {..<1024}" and "inv f" "total f \<le> 2 ^ 20" "vm_frames s = (f, h)"
    and "\<forall>i \<in> set is. t ! i \<noteq> 0 \<longrightarrow> src_ok P (vm_data s) (frames f) (t ! i)"
    and "card (frames f) + card {i \<in> set is. t ! i \<noteq> 0} \<le> total f"
  shows "\<exists>nt' f' dm c. clonetbl_loop P (pair_get getpg) ix pb paddr is s =
      Some (s\<lparr>vm_tabs := (vm_tabs s)(paddr \<mapsto> nt'), vm_data := dm, vm_frames := (f', h)\<rparr>) \<and> inv f' \<and> total f' = total f \<and>
    tbl_cloned (frames f) (vm_data s) nt t {i \<in> set is. t ! i \<noteq> 0} (frames f') dm nt' c"
  unfolding tbl_cloned_def
  using assms(2-)
proof (induction "is" arbitrary: s nt f)
  case Nil
  have same: "s\<lparr>vm_tabs := (vm_tabs s)(paddr \<mapsto> nt), vm_data := vm_data s, vm_frames := (f, h)\<rparr> = s"
    using Nil.prems by (simp add: fun_upd_idem)
  show ?case
    by (intro exI [of _ nt] exI [of _ f] exI [of _ "vm_data s"]) (use Nil.prems in \<open>simp only: same clonetbl_loop.simps, simp add: copies_def\<close>)
next
  case (Cons i is')
  show ?case
  proof (cases "t ! i = 0")
    case True
    have lt: "length t = 1024" using vm_ok_table [OF Cons.prems(1,2)] Cons.prems(3) by simp
    have "read_tab P s ix = Some t" using read_tab_ok [OF Cons.prems(1,2)] Cons.prems(3) by simp
    then have "clonetbl_loop P (pair_get getpg) ix pb paddr (i # is') s = clonetbl_loop P (pair_get getpg) ix pb paddr is' s"
      using True Cons.prems(10) lt by simp
    moreover have k: "{j \<in> set (i # is'). t ! j \<noteq> 0} = {j \<in> set is'. t ! j \<noteq> 0}" using True by auto
    have "card (frames f) + card {j \<in> set is'. t ! j \<noteq> 0} \<le> total f" using Cons.prems(15) unfolding k .
    ultimately show ?thesis using Cons.IH [OF Cons.prems(1-8)] Cons.prems unfolding k by simp
  next
    case False
    let ?K = "{j \<in> set is'. t ! j \<noteq> 0}"
    have K: "{j \<in> set (i # is'). t ! j \<noteq> 0} = insert i ?K" "i \<notin> ?K" "finite ?K" using False Cons.prems(9) by auto
    have room: "card (frames f) + Suc (card ?K) \<le> total f" using Cons.prems(15) unfolding K(1) using K(2,3) by simp
    obtain p f1 where p: "pair_get getpg (f, h) = Some (frame_addr p, f1, h)" "p < total f" "p \<notin> frames f" "inv f1" "total f1 = total f"
      "frames f1 = insert p (frames f)" using pair_get_free [OF Cons.prems(11), of h] room by auto
    have p20: "p < 2 ^ 20" using p(2) Cons.prems(12) by simp
    have src: "src_ok P (vm_data s) (frames f) (t ! i)" using Cons.prems(14) False by simp
    then obtain b where b: "pg_present P (t ! i)" "vm_data s (t ! i AND 0xFFFFF000) = Some b" "unat (t ! i) div 4096 \<in> frames f"
      by (auto simp: src_ok_def)
    let ?e = "frame_addr p OR (t ! i AND 0xFFF)"
    let ?s1 = "s\<lparr>vm_tabs := (vm_tabs s)(paddr \<mapsto> nt[i := ?e]), vm_data := (vm_data s)(frame_addr p \<mapsto> b), vm_frames := (f1, h)\<rparr>"
    have i: "i < 1024" using Cons.prems(10) by simp
    have run: "clonetbl_loop P (pair_get getpg) ix pb paddr (i # is') s = clonetbl_loop P (pair_get getpg) ix pb paddr is' ?s1"
      by (rule clone_entry [OF L Cons.prems(1,2,3) i Cons.prems(4-8) False b(1) _ p20 b(2)]) (simp add: Cons.prems(13) p(1))
    have other: "frame_addr q \<noteq> frame_addr p" if "q \<in> frames f" for q
      using frame_addr_inj [of q p] frames_num [OF Cons.prems(11,12) that] p20 p(3) that by auto
    have d1: "vm_data ?s1 (e AND 0xFFFFF000) = vm_data s (e AND 0xFFFFF000)" if "unat e div 4096 \<in> frames f" for e
      using other [OF that] by (simp add: frame_addr_num)
    have ok1: "vm_ok P ?s1 D" using vm_ok_tab [OF Cons.prems(1), of "nt[i := ?e]" paddr] Cons.prems(8) by (simp add: vm_ok_def)
    have ne: "ft \<noteq> paddr" using Cons.prems(2,6) by metis
    have src1: "\<forall>j \<in> set is'. t ! j \<noteq> 0 \<longrightarrow> src_ok P (vm_data ?s1) (frames f1) (t ! j)"
      using Cons.prems(14) d1 p(6) unfolding src_ok_def by (metis insertI2 list.set_intros(2))
    have room1: "card (frames f1) + card ?K \<le> total f1"
      using room p(3,5,6) finite_frames [OF Cons.prems(11)] by simp
    have pre: "vm_tabs ?s1 ft = Some t" "vm_tabs ?s1 paddr = Some (nt[i := ?e])" "length (nt[i := ?e]) = 1024" "distinct is'" "set is' \<subseteq> {..<1024}"
      "total f1 \<le> 2 ^ 20" "vm_frames ?s1 = (f1, h)"
      using ne Cons.prems(3,8,9,10,12) p(5) by simp_all
    obtain nt' f' dm c where ih: "clonetbl_loop P (pair_get getpg) ix pb paddr is' ?s1 =
        Some (?s1\<lparr>vm_tabs := (vm_tabs ?s1)(paddr \<mapsto> nt'), vm_data := dm, vm_frames := (f', h)\<rparr>)" "length nt' = 1024" "inv f'" "total f' = total f1"
      "frames f1 \<subseteq> frames f'" "card (frames f') = card (frames f1) + card ?K" "copies c ?K ((!) t) (vm_data ?s1) ((!) nt') dm"
      "c ` ?K \<subseteq> frames f' - frames f1" "\<forall>j. j \<notin> ?K \<longrightarrow> nt' ! j = nt[i := ?e] ! j" "\<forall>q \<in> frames f1. dm (frame_addr q) = vm_data ?s1 (frame_addr q)"
      using Cons.IH [OF ok1 Cons.prems(2) pre(1) Cons.prems(4-6) pre(2-5) p(4) pre(6,7) src1 room1] by blast
    let ?c = "c(i := p)"
    have r: "clonetbl_loop P (pair_get getpg) ix pb paddr (i # is') s = Some (s\<lparr>vm_tabs := (vm_tabs s)(paddr \<mapsto> nt'), vm_data := dm, vm_frames := (f', h)\<rparr>)"
      unfolding run ih(1) by simp
    have cp: "copies ?c (insert i ?K) ((!) t) (vm_data s) ((!) nt') dm"
    proof -
      have "nt' ! i = ?e" using ih(9) K(2) i Cons.prems(8) by simp
      moreover have "dm (frame_addr p) = vm_data s (t ! i AND 0xFFFFF000)" using ih(10) p(6) b(2) by simp
      moreover have "dm (frame_addr (c j)) = vm_data s (t ! j AND 0xFFFFF000)" if j: "j \<in> ?K" for j
      proof -
        have u: "unat (t ! j) div 4096 \<in> frames f" using Cons.prems(14) j unfolding src_ok_def by simp
        have "dm (frame_addr (c j)) = vm_data ?s1 (t ! j AND 0xFFFFF000)" using ih(7) j unfolding copies_def by blast
        also have "\<dots> = vm_data s (t ! j AND 0xFFFFF000)" by (rule d1 [OF u])
        finally show ?thesis .
      qed
      moreover have "inj_on ?c (insert i ?K)"
      proof -
        have "p \<notin> c ` ?K" using ih(8) p(6) by blast
        then have "p \<notin> ?c ` ?K" using K(2) by (metis (no_types, lifting) fun_upd_other image_cong)
        moreover have "inj_on ?c ?K" using ih(7) K(2) unfolding copies_def by (metis (no_types, lifting) fun_upd_other inj_on_cong)
        ultimately show ?thesis using K(2) by simp
      qed
      ultimately show ?thesis using ih(7) K(2) by (auto simp: copies_def)
    qed
    have im: "?c ` insert i ?K \<subseteq> frames f' - frames f" using ih(5,8) p(3,6) K(2) by auto
    have rest: "\<forall>j. j \<notin> insert i ?K \<longrightarrow> nt' ! j = nt ! j" using ih(9) by auto
    have dat: "\<forall>q \<in> frames f. dm (frame_addr q) = vm_data s (frame_addr q)" using ih(10) p(6) other by simp
    have cd: "card (frames f') = card (frames f) + card (insert i ?K)"
      using ih(6) p(3,6) K(2,3) finite_frames [OF Cons.prems(11)] by simp
    have sub: "frames f \<subseteq> frames f'" "total f' = total f" using ih(4,5) p(5,6) by auto
    show ?thesis unfolding K(1) by (intro exI [of _ nt'] exI [of _ f'] exI [of _ dm] exI [of _ ?c] conjI) (fact r ih(2,3) sub cp im rest dat cd)+
  qed
qed

end

subsection \<open>The buffers\<close>

text \<open>The pages of the heap, and of what it still has to give, have tables.\<close>

definition heap_mapped :: "pg_layout \<Rightarrow> page_dir \<Rightarrow> kheap \<Rightarrow> nat \<Rightarrow> bool" where
  "heap_mapped P D h room \<longleftrightarrow> room \<le> kheap_bytes_left h \<and>
     (\<forall>a. 0xE1000000 \<le> unat a \<and> unat a < 2 ^ 32 - 1 - kheap_bytes_left h + room \<longrightarrow> dindex a < 1023 \<and> pg_present P (pd_entries D ! dindex a))"

lemma heap_mapped_less: "heap_mapped P D h room \<Longrightarrow> room' + r \<le> room \<Longrightarrow> kheap_bytes_left h - r \<le> kheap_bytes_left h' \<Longrightarrow>
    heap_mapped P D h' room'"
  unfolding heap_mapped_def by (auto dest: spec)

lemma block_mapped:
  assumes "kheap_inv h" and "(unat p, m) \<in> kheap_used h" and "heap_mapped P D h room"
  shows "864 \<le> dindex p" "dindex p < 1023" "pg_present P (pd_entries D ! dindex p)"
proof -
  have r: "heap_rep h (heap_blocks h)" using assms(1) by (simp add: kheap_inv_def)
  then have t: "tiled (unat BIN_START) (heap_blocks h)" "heap_end (heap_blocks h) < 2 ^ 32" by (simp_all add: heap_rep_def)
  have "(unat p, m, True) \<in> set (heap_blocks h)" using assms(2) by (auto simp: kheap_used_def live_def)
  from tiled_bounds [OF t(1) this] t(2) have b: "0xE1000000 \<le> unat p" "unat p < 2 ^ 32 - 1 - kheap_bytes_left h + room"
    by (simp_all add: kheap_bytes_left_def heap_end_def BIN_START_def)
  then show "dindex p < 1023" "pg_present P (pd_entries D ! dindex p)" using assms(3) unfolding heap_mapped_def by blast+
  have "0xE1000000 div 0x400000 \<le> unat p div 0x400000" using b(1) by (rule div_le_mono)
  then show "864 \<le> dindex p" by (simp add: dindex_nat)
qed

lemma heap_kal_ok:
  assumes "vm_frames s = (f, h)" and "kheap_inv h" and "n \<noteq> 0" and "0x1000 + roundup16 (unat n) \<le> kheap_bytes_left h" "2 \<le> kheap_allocs_left h"
  shows "\<exists>p h'. heap_kal n 0x1000 s = Some (p, s\<lparr>vm_frames := (f, h')\<rparr>) \<and> kheap_inv h' \<and> unat p mod 0x1000 = 0 \<and>
    kheap_used h' = insert (unat p, roundup16 (unat n)) (kheap_used h) \<and> (unat p, roundup16 (unat n)) \<notin> kheap_used h \<and>
    kheap_bytes_left h - (0x1000 + roundup16 (unat n)) \<le> kheap_bytes_left h' \<and> kheap_allocs_left h - 2 \<le> kheap_allocs_left h'"
  using kalloc_a_inv [OF assms(2,3), of "0x1000"] assms(1,4,5) by (auto simp: heap_kal_def)

lemma heap_kfr_ok:
  assumes "vm_frames s = (f, h)" and "kheap_inv h" and "(unat p, m) \<in> kheap_used h"
  shows "\<exists>h'. heap_kfr p s = Some (s\<lparr>vm_frames := (f, h')\<rparr>) \<and> kheap_inv h' \<and> kheap_used h' = kheap_used h - {(unat p, m)} \<and>
    kheap_bytes_left h \<le> kheap_bytes_left h' \<and> kheap_allocs_left h \<le> kheap_allocs_left h'"
  using kh.free_ok [OF assms(2,3)] assms(1) by (auto simp: heap_kfr_def)

text \<open>Two pages of the heap.\<close>

lemma two_pages:
  assumes "vm_frames s = (f, h)" and "kheap_inv h" and "0x4000 \<le> kheap_bytes_left h" "4 \<le> kheap_allocs_left h"
  shows "\<exists>p q h1 h2. heap_kal 0x1000 0x1000 s = Some (p, s\<lparr>vm_frames := (f, h1)\<rparr>) \<and>
    heap_kal 0x1000 0x1000 (s\<lparr>vm_frames := (f, h1)\<rparr>) = Some (q, s\<lparr>vm_frames := (f, h2)\<rparr>) \<and> kheap_inv h2 \<and>
    kheap_used h2 = {(unat p, 0x1000), (unat q, 0x1000)} \<union> kheap_used h \<and> (unat p, 0x1000) \<noteq> (unat q, 0x1000) \<and>
    (unat p, 0x1000) \<notin> kheap_used h \<and> (unat q, 0x1000) \<notin> kheap_used h \<and>
    kheap_bytes_left h - 0x4000 \<le> kheap_bytes_left h2 \<and> kheap_allocs_left h - 4 \<le> kheap_allocs_left h2"
proof -
  have r: "roundup16 (unat (0x1000 :: u32)) = 0x1000" by (simp add: roundup16_def)
  obtain p h1 where p: "heap_kal 0x1000 0x1000 s = Some (p, s\<lparr>vm_frames := (f, h1)\<rparr>)" "kheap_inv h1"
    "kheap_used h1 = insert (unat p, 0x1000) (kheap_used h)" "(unat p, 0x1000) \<notin> kheap_used h"
    "kheap_bytes_left h - 0x2000 \<le> kheap_bytes_left h1" "kheap_allocs_left h - 2 \<le> kheap_allocs_left h1"
    using heap_kal_ok [OF assms(1,2), of "0x1000"] assms(3,4) unfolding r by auto
  let ?s = "s\<lparr>vm_frames := (f, h1)\<rparr>"
  have f1: "vm_frames ?s = (f, h1)" "0x2000 \<le> kheap_bytes_left h1" "2 \<le> kheap_allocs_left h1" using assms(3,4) p(5,6) by simp_all
  obtain q h2 where q: "heap_kal 0x1000 0x1000 ?s = Some (q, ?s\<lparr>vm_frames := (f, h2)\<rparr>)" "kheap_inv h2"
    "kheap_used h2 = insert (unat q, 0x1000) (kheap_used h1)" "(unat q, 0x1000) \<notin> kheap_used h1"
    "kheap_bytes_left h1 - 0x2000 \<le> kheap_bytes_left h2" "kheap_allocs_left h1 - 2 \<le> kheap_allocs_left h2"
    using heap_kal_ok [OF f1(1) p(2), of "0x1000"] f1(2,3) unfolding r by auto
  have "?s\<lparr>vm_frames := (f, h2)\<rparr> = s\<lparr>vm_frames := (f, h2)\<rparr>" by simp
  moreover have "(unat p, 0x1000) \<noteq> (unat q, 0x1000)" "(unat q, 0x1000) \<notin> kheap_used h" using q(4) p(3) by auto
  ultimately show ?thesis using p q by (intro exI [of _ p] exI [of _ q] exI [of _ h1] exI [of _ h2]) auto
qed

text \<open>Giving the pages back.\<close>

lemma two_pages_back:
  assumes "vm_frames s = (f, h)" and "kheap_inv h" and "kheap_used h = {(unat p, 0x1000), (unat q, 0x1000)} \<union> U"
    and "(unat p, 0x1000) \<noteq> (unat q, 0x1000)" "(unat p, 0x1000) \<notin> U" "(unat q, 0x1000) \<notin> U"
  shows "\<exists>s1 h'. heap_kfr p s = Some s1 \<and> heap_kfr q s1 = Some (s\<lparr>vm_frames := (f, h')\<rparr>) \<and> kheap_inv h' \<and> kheap_used h' = U \<and>
    kheap_bytes_left h \<le> kheap_bytes_left h' \<and> kheap_allocs_left h \<le> kheap_allocs_left h'"
proof -
  obtain h1 where h1: "heap_kfr p s = Some (s\<lparr>vm_frames := (f, h1)\<rparr>)" "kheap_inv h1" "kheap_used h1 = kheap_used h - {(unat p, 0x1000)}"
    "kheap_bytes_left h \<le> kheap_bytes_left h1" "kheap_allocs_left h \<le> kheap_allocs_left h1"
    using heap_kfr_ok [OF assms(1,2), of p "0x1000"] assms(3) by auto
  have f1: "vm_frames (s\<lparr>vm_frames := (f, h1)\<rparr>) = (f, h1)" "(unat q, 0x1000) \<in> kheap_used h1" using h1(3) assms(3,4) by auto
  obtain h2 where h2: "heap_kfr q (s\<lparr>vm_frames := (f, h1)\<rparr>) = Some (s\<lparr>vm_frames := (f, h1)\<rparr>\<lparr>vm_frames := (f, h2)\<rparr>)" "kheap_inv h2"
    "kheap_used h2 = kheap_used h1 - {(unat q, 0x1000)}" "kheap_bytes_left h1 \<le> kheap_bytes_left h2" "kheap_allocs_left h1 \<le> kheap_allocs_left h2"
    using heap_kfr_ok [OF f1(1) h1(2) f1(2)] by blast
  have "kheap_used h2 = U" using h2(3) h1(3) assms(3-6) by auto
  then show ?thesis using h1(1,4,5) h2(1,2,4,5) by (intro exI [of _ "s\<lparr>vm_frames := (f, h1)\<rparr>"] exI [of _ h2]) simp
qed

context frame_allocator
begin

lemma clonetbl_copies:
  assumes L: "layout_ok P" and ok: "vm_ok P s D" and ix: "ix < 864" "table_at P D ix ft" "vm_tabs s ft = Some t"
    and pe: "vm_dirs s parent = Some Dn" "length (pd_entries Dn) = 1024" "pd_entries Dn ! ix AND 0xFFFFF000 = paddr"
    and new: "\<forall>j. \<not> table_at P D j paddr" "vm_tabs s paddr = Some nt" "length nt = 1024"
    and fi: "inv f" "total f \<le> 2 ^ 20" "vm_frames s = (f, h)"
    and src: "\<forall>i < 1024. t ! i \<noteq> 0 \<longrightarrow> src_ok P (vm_data s) (frames f) (t ! i)"
    and room: "card (frames f) + card {i. i < 1024 \<and> t ! i \<noteq> 0} \<le> total f"
    and hp: "kheap_inv h" "heap_mapped P D h 0x4000" "4 \<le> kheap_allocs_left h"
  shows "\<exists>nt' f' dm c h'. clonetbl P (pair_get getpg) heap_kal heap_kfr parent ix s =
      Some (s\<lparr>vm_tabs := (vm_tabs s)(paddr \<mapsto> nt'), vm_data := dm, vm_frames := (f', h')\<rparr>) \<and> inv f' \<and> total f' = total f \<and>
    tbl_cloned (frames f) (vm_data s) nt t {i. i < 1024 \<and> t ! i \<noteq> 0} (frames f') dm nt' c \<and>
    kheap_inv h' \<and> kheap_used h' = kheap_used h \<and> kheap_bytes_left h - 0x4000 \<le> kheap_bytes_left h' \<and>
    kheap_allocs_left h - 4 \<le> kheap_allocs_left h'"
proof -
  have rm: "0x4000 \<le> kheap_bytes_left h" using hp(2) by (simp add: heap_mapped_def)
  obtain p q h1 h2 where pq: "heap_kal 0x1000 0x1000 s = Some (p, s\<lparr>vm_frames := (f, h1)\<rparr>)"
    "heap_kal 0x1000 0x1000 (s\<lparr>vm_frames := (f, h1)\<rparr>) = Some (q, s\<lparr>vm_frames := (f, h2)\<rparr>)" "kheap_inv h2"
    "kheap_used h2 = {(unat p, 0x1000), (unat q, 0x1000)} \<union> kheap_used h" "(unat p, 0x1000) \<noteq> (unat q, 0x1000)"
    "(unat p, 0x1000) \<notin> kheap_used h" "(unat q, 0x1000) \<notin> kheap_used h"
    "kheap_bytes_left h - 0x4000 \<le> kheap_bytes_left h2" "kheap_allocs_left h - 4 \<le> kheap_allocs_left h2"
    using two_pages [OF fi(3) hp(1) rm hp(3)] by blast
  have hm: "heap_mapped P D h2 0" by (rule heap_mapped_less [OF hp(2) _ pq(8)]) simp
  have u: "(unat p, 0x1000) \<in> kheap_used h2" "(unat q, 0x1000) \<in> kheap_used h2" using pq(4) by simp_all
  note bp = block_mapped [OF pq(3) u(1) hm] and bq = block_mapped [OF pq(3) u(2) hm]
  let ?fp = "pd_entries D ! dindex p AND 0xFFFFF000" and ?fq = "pd_entries D ! dindex q AND 0xFFFFF000"
  have tp: "table_at P D (dindex p) ?fp" and tq: "table_at P D (dindex q) ?fq" using bp(3) bq(3) by (simp_all add: table_at_def dindex_less)
  obtain tb where tb: "vm_tabs s ?fp = Some tb" "length tb = 1024" using vm_ok_table [OF ok tp] by blast
  have nex: "dindex p \<noteq> ix" "dindex q \<noteq> ix" using bp(1) bq(1) ix(1) by simp_all
  have ne: "?fp \<noteq> ft" "?fp \<noteq> paddr" "ft \<noteq> paddr" using vm_ok_inj [OF ok tp] ix(2) nex new(1) tp by metis+
  let ?s2 = "s\<lparr>vm_frames := (f, h2)\<rparr>"
  let ?s3 = "?s2\<lparr>vm_tabs := (vm_tabs s)(?fp \<mapsto> tb[tindex p := paddr OR (3 AND 0xFFF)])\<rparr>"
  have ok2: "vm_ok P ?s2 D" using ok by simp
  have r1: "remappg P (pair_get getpg) paddr p 3 ?s2 = Some (tb ! tindex p, ?s3)" using remappg_at [OF ok2 tp, of tb] tb(1) by simp
  have ok3: "vm_ok P ?s3 D" using vm_ok_tab [OF ok2, of "tb[tindex p := paddr OR (3 AND 0xFFF)]" ?fp] tb(2) by simp
  have pre: "vm_tabs ?s3 ft = Some t" "vm_tabs ?s3 paddr = Some nt" "vm_frames ?s3 = (f, h2)" using ne ix(3) new(2) by simp_all
  have K: "{i \<in> set [0..<1024]. t ! i \<noteq> 0} = {i. i < 1024 \<and> t ! i \<noteq> 0}" by auto
  have d: "distinct [0..<1024]" "set [0..<1024] \<subseteq> {..<1024 :: nat}" by auto
  have src3: "\<forall>i \<in> set [0..<1024]. t ! i \<noteq> 0 \<longrightarrow> src_ok P (vm_data ?s3) (frames f) (t ! i)" using src by simp
  obtain nt' f' dm c where lp: "clonetbl_loop P (pair_get getpg) ix q paddr [0..<1024] ?s3 =
      Some (?s3\<lparr>vm_tabs := (vm_tabs ?s3)(paddr \<mapsto> nt'), vm_data := dm, vm_frames := (f', h2)\<rparr>)" "inv f'" "total f' = total f"
    "tbl_cloned (frames f) (vm_data s) nt t {i. i < 1024 \<and> t ! i \<noteq> 0} (frames f') dm nt' c"
    using clonetbl_loop_copies [OF L ok3 ix(2) pre(1) tq nex(2) new(1) pre(2) new(3) d fi(1,2) pre(3) src3, unfolded K, OF room] by auto
  let ?s4 = "?s3\<lparr>vm_tabs := (vm_tabs ?s3)(paddr \<mapsto> nt'), vm_data := dm, vm_frames := (f', h2)\<rparr>"
  let ?s5 = "s\<lparr>vm_tabs := (vm_tabs s)(paddr \<mapsto> nt'), vm_data := dm, vm_frames := (f', h2)\<rparr>"
  have nl: "length nt' = 1024" using lp(4) by (simp add: tbl_cloned_def)
  have ok4: "vm_ok P ?s4 D" using vm_ok_tab [OF ok3 nl, of paddr] by (simp add: vm_ok_def)
  let ?old = "tb ! tindex p"
  have undo: "tb[tindex p := paddr OR (3 AND 0xFFF), tindex p := (?old AND 0xFFFFF000) OR ((?old AND 0xFFF) AND 0xFFF)] = tb"
    unfolding entry_parts by simp
  have t4: "vm_tabs ?s4 ?fp = Some (tb[tindex p := paddr OR (3 AND 0xFFF)])" using ne(2) by simp
  have tabs: "(vm_tabs ?s4)(?fp \<mapsto> tb) = (vm_tabs s)(paddr \<mapsto> nt')" using ne(2) tb(1) by (auto simp: fun_eq_iff)
  have s5: "?s4\<lparr>vm_tabs := (vm_tabs s)(paddr \<mapsto> nt')\<rparr> = ?s5" by simp
  have r2: "\<exists>x. remappg P (pair_get getpg) (?old AND 0xFFFFF000) p (?old AND 0xFFF) ?s4 = Some (x, ?s5)"
    using remappg_at [OF ok4 tp t4, of "pair_get getpg" "?old AND 0xFFFFF000" "?old AND 0xFFF"] unfolding undo tabs s5 by blast
  have f5: "vm_frames ?s5 = (f', h2)" by simp
  obtain s6 h' where fr: "heap_kfr p ?s5 = Some s6" "heap_kfr q s6 = Some (?s5\<lparr>vm_frames := (f', h')\<rparr>)" "kheap_inv h'" "kheap_used h' = kheap_used h"
    "kheap_bytes_left h2 \<le> kheap_bytes_left h'" "kheap_allocs_left h2 \<le> kheap_allocs_left h'"
    using two_pages_back [OF f5 pq(3-7)] by blast
  have ixl: "ix < length (pd_entries Dn)" using ix(1) pe(2) by simp
  have "clonetbl P (pair_get getpg) heap_kal heap_kfr parent ix s = Some (?s5\<lparr>vm_frames := (f', h')\<rparr>)"
    using pe(1,3) ixl pq(1,2) r1 lp(1) r2 fr(1,2) by (auto simp: clonetbl_def Let_def)
  moreover have "?s5\<lparr>vm_frames := (f', h')\<rparr> = s\<lparr>vm_tabs := (vm_tabs s)(paddr \<mapsto> nt'), vm_data := dm, vm_frames := (f', h')\<rparr>" by simp
  ultimately have run: "clonetbl P (pair_get getpg) heap_kal heap_kfr parent ix s =
      Some (s\<lparr>vm_tabs := (vm_tabs s)(paddr \<mapsto> nt'), vm_data := dm, vm_frames := (f', h')\<rparr>)" by (simp only:)
  have left: "kheap_bytes_left h - 0x4000 \<le> kheap_bytes_left h'" "kheap_allocs_left h - 4 \<le> kheap_allocs_left h'"
    using fr(5,6) pq(8,9) by linarith+
  show ?thesis by (intro exI [of _ nt'] exI [of _ f'] exI [of _ dm] exI [of _ c] exI [of _ h'] conjI) (fact run lp(2-4) fr(3,4) left)+
qed

end

end
