(* ===== verification/Clone_Dir.thy ===== *)
theory Clone_Dir
  imports Clone_Table
begin

text \<open>
  Cloning an address space: the loops of \<^verbatim>\<open>clonedir\<close> over the user part and the kernel part of a directory, and what a process
  sees in the directory made.
\<close>

subsection \<open>The user part of a directory\<close>

text \<open>
  The pages with an entry that is not 0, by number, in the tables \<open>T\<close> of a directory; the frames and tables that cloning them takes;
  the entry of a page in another directory.
\<close>

definition user_pages :: "page_dir \<Rightarrow> (nat \<Rightarrow> u32 list) \<Rightarrow> nat set \<Rightarrow> nat set" where
  "user_pages D T I = {k. k div 1024 \<in> I \<and> pd_tables D ! (k div 1024) \<noteq> 0 \<and> T (k div 1024) ! (k mod 1024) \<noteq> 0}"

definition clone_need :: "page_dir \<Rightarrow> (nat \<Rightarrow> u32 list) \<Rightarrow> nat list \<Rightarrow> nat" where
  "clone_need D T is = sum_list (map (\<lambda>i. if pd_tables D ! i = 0 then 0 else Suc (card {j. j < 1024 \<and> T i ! j \<noteq> 0})) is)"

definition clone_tabs :: "page_dir \<Rightarrow> nat list \<Rightarrow> nat" where
  "clone_tabs D is = length (filter (\<lambda>i. pd_tables D ! i \<noteq> 0) is)"

definition page_entry :: "(u32 \<Rightarrow> u32 list option) \<Rightarrow> page_dir \<Rightarrow> nat \<Rightarrow> u32" where
  "page_entry tabs D k = the (tabs (pd_entries D ! (k div 1024) AND 0xFFFFF000)) ! (k mod 1024)"

definition dir_cloned :: "nat set \<Rightarrow> (u32 \<Rightarrow> u8 list option) \<Rightarrow> (u32 \<Rightarrow> u32 list option) \<Rightarrow> page_dir \<Rightarrow> (nat \<Rightarrow> u32 list) \<Rightarrow> page_dir \<Rightarrow>
    nat list \<Rightarrow> nat set \<Rightarrow> (u32 \<Rightarrow> u8 list option) \<Rightarrow> (u32 \<Rightarrow> u32 list option) \<Rightarrow> page_dir \<Rightarrow> (nat \<Rightarrow> nat) \<Rightarrow> bool" where
  "dir_cloned F data tabs D T Dn is F' data' tabs' Dn' c \<longleftrightarrow>
     length (pd_entries Dn') = 1024 \<and> length (pd_tables Dn') = 1024 \<and> F \<subseteq> F' \<and> card F' = card F + clone_need D T is \<and>
     (\<forall>i \<in> set is. pd_tables D ! i \<noteq> 0 \<longrightarrow> (\<exists>q nt. q \<in> F' - F \<and> pd_entries Dn' ! i = frame_addr q OR (pd_entries D ! i AND 0xFFF) \<and>
        tabs' (frame_addr q) = Some nt \<and> length nt = 1024 \<and> (\<forall>j < 1024. T i ! j = 0 \<longrightarrow> nt ! j = the (tabs (frame_addr q)) ! j))) \<and>
     (\<forall>i. i \<notin> set is \<or> pd_tables D ! i = 0 \<longrightarrow> pd_entries Dn' ! i = pd_entries Dn ! i) \<and>
     copies c (user_pages D T (set is)) (\<lambda>k. T (k div 1024) ! (k mod 1024)) data (page_entry tabs' Dn') data' \<and>
     c ` user_pages D T (set is) \<subseteq> F' - F \<and>
     (\<forall>p \<in> F. tabs' (frame_addr p) = tabs (frame_addr p) \<and> data' (frame_addr p) = data (frame_addr p)) \<and>
     (\<forall>p t. tabs (frame_addr p) = Some t \<and> length t = 1024 \<longrightarrow> (\<exists>t'. tabs' (frame_addr p) = Some t' \<and> length t' = 1024))"

text \<open>The copies of the pages of table \<open>i\<close>, and those of other tables into other frames, are the copies of all.\<close>

lemma copies_join:
  assumes V: "V = {k. k div 1024 = i \<and> k mod 1024 \<in> K} \<union> U" "U \<inter> {k. k div 1024 = i} = {}"
    and c1: "copies c1 K E1 data E1' data1" "c1 ` K \<subseteq> A" and c: "copies c' U E data1 E' data'" "c' ` U \<subseteq> B" and AB: "A \<inter> B = {}"
    and e: "\<And>k. k div 1024 = i \<Longrightarrow> E k = E1 (k mod 1024) \<and> E' k = E1' (k mod 1024)"
    and d: "\<And>q. q \<in> A \<Longrightarrow> data' (frame_addr q) = data1 (frame_addr q)" "\<And>k. k \<in> U \<Longrightarrow> data1 (E k AND 0xFFFFF000) = data (E k AND 0xFFFFF000)"
  shows "copies (\<lambda>k. if k div 1024 = i then c1 (k mod 1024) else c' k) V E data E' data' \<and>
    (\<lambda>k. if k div 1024 = i then c1 (k mod 1024) else c' k) ` V \<subseteq> A \<union> B"
proof -
  let ?c = "\<lambda>k. if k div 1024 = i then c1 (k mod 1024) else c' k"
  have in1: "k mod 1024 \<in> K" "?c k = c1 (k mod 1024)" "?c k \<in> A" if "k \<in> V" "k div 1024 = i" for k
    using that V c1(2) by auto
  have in2: "k \<in> U" "?c k = c' k" "?c k \<in> B" if "k \<in> V" "k div 1024 \<noteq> i" for k
    using that V(1) c(2) by auto
  have "inj_on ?c V"
  proof (rule inj_onI)
    fix k l assume k: "k \<in> V" and l: "l \<in> V" and eq: "?c k = ?c l"
    have iff: "k div 1024 = i \<longleftrightarrow> l div 1024 = i" using in1(3) [OF k] in1(3) [OF l] in2(3) [OF k] in2(3) [OF l] eq AB by (metis disjoint_iff)
    show "k = l"
    proof (cases "k div 1024 = i")
      case True
      then have "k mod 1024 = l mod 1024" using in1(1,2) [OF k] in1(1,2) [OF l] iff eq c1(1) unfolding copies_def inj_on_def by simp
      then show ?thesis using True iff by (metis div_mult_mod_eq)
    next
      case False
      then show ?thesis using in2(1,2) [OF k] in2(1,2) [OF l] iff eq c(1) unfolding copies_def inj_on_def by simp
    qed
  qed
  moreover have "E' k = frame_addr (?c k) OR (E k AND 0xFFF) \<and> data' (frame_addr (?c k)) = data (E k AND 0xFFFFF000)" if k: "k \<in> V" for k
  proof (cases "k div 1024 = i")
    case True
    then have "E1' (k mod 1024) = frame_addr (?c k) OR (E1 (k mod 1024) AND 0xFFF) \<and> data1 (frame_addr (?c k)) = data (E1 (k mod 1024) AND 0xFFFFF000)"
      using in1(1,2) [OF k] c1(1) unfolding copies_def by simp
    then show ?thesis using e [OF True] d(1) [OF in1(3) [OF k True]] by simp
  next
    case False
    then show ?thesis using in2(1,2) [OF k] d(2) c(1) unfolding copies_def by simp
  qed
  moreover have "?c ` V \<subseteq> A \<union> B" using in1(3) in2(3) by blast
  ultimately show ?thesis unfolding copies_def by blast
qed

lemma dir_cloned_step:
  assumes t: "tbl_cloned (insert p F) data nt (T i) {j. j < 1024 \<and> T i ! j \<noteq> 0} F2 data1 nt' c1" and p: "p \<notin> F" "finite F"
    and nt: "tabs (frame_addr p) = Some nt"
    and d: "dir_cloned F2 data1 (tabs(frame_addr p \<mapsto> nt')) D T Dn1 is' F' data' tabs' Dn' c'"
    and Dn: "pd_entries Dn1 = (pd_entries Dn)[i := frame_addr p OR (pd_entries D ! i AND 0xFFF)]" "length (pd_entries Dn) = 1024" "i < 1024"
    and i: "i \<notin> set is'" "pd_tables D ! i \<noteq> 0" and F': "F' \<subseteq> {..<2 ^ 20}"
    and src: "\<forall>m \<in> set is'. pd_tables D ! m \<noteq> 0 \<longrightarrow> (\<forall>j < 1024. T m ! j \<noteq> 0 \<longrightarrow> unat (T m ! j) div 4096 \<in> F)"
  shows "dir_cloned F data tabs D T Dn (i # is') F' data' tabs' Dn' (\<lambda>k. if k div 1024 = i then c1 (k mod 1024) else c' k)"
proof -
  let ?K = "{j. j < 1024 \<and> T i ! j \<noteq> 0}" and ?c = "\<lambda>k. if k div 1024 = i then c1 (k mod 1024) else c' k"
  let ?U = "user_pages D T (set is')" and ?V = "user_pages D T (set (i # is'))" and ?E = "\<lambda>k. T (k div 1024) ! (k mod 1024)"
  have t': "length nt' = 1024" "insert p F \<subseteq> F2" "card F2 = card (insert p F) + card ?K" "copies c1 ?K ((!) (T i)) data ((!) nt') data1"
    "c1 ` ?K \<subseteq> F2 - insert p F" "\<forall>q \<in> insert p F. data1 (frame_addr q) = data (frame_addr q)" "\<forall>i. i \<notin> ?K \<longrightarrow> nt' ! i = nt ! i"
    using t unfolding tbl_cloned_def by blast+
  have d': "length (pd_entries Dn') = 1024" "length (pd_tables Dn') = 1024" "F2 \<subseteq> F'" "card F' = card F2 + clone_need D T is'"
    "\<forall>m \<in> set is'. pd_tables D ! m \<noteq> 0 \<longrightarrow> (\<exists>q nt. q \<in> F' - F2 \<and> pd_entries Dn' ! m = frame_addr q OR (pd_entries D ! m AND 0xFFF) \<and>
        tabs' (frame_addr q) = Some nt \<and> length nt = 1024 \<and> (\<forall>j < 1024. T m ! j = 0 \<longrightarrow> nt ! j = the ((tabs(frame_addr p \<mapsto> nt')) (frame_addr q)) ! j))"
    "\<forall>m. m \<notin> set is' \<or> pd_tables D ! m = 0 \<longrightarrow> pd_entries Dn' ! m = pd_entries Dn1 ! m"
    "copies c' ?U ?E data1 (page_entry tabs' Dn') data'" "c' ` ?U \<subseteq> F' - F2"
    "\<forall>q \<in> F2. tabs' (frame_addr q) = (tabs(frame_addr p \<mapsto> nt')) (frame_addr q) \<and> data' (frame_addr q) = data1 (frame_addr q)"
    "\<forall>q t. (tabs(frame_addr p \<mapsto> nt')) (frame_addr q) = Some t \<and> length t = 1024 \<longrightarrow> (\<exists>t'. tabs' (frame_addr q) = Some t' \<and> length t' = 1024)"
    using d unfolding dir_cloned_def by blast+
  have p20: "p < 2 ^ 20" using t'(2) d'(3) F' by auto
  have ne: "frame_addr q \<noteq> frame_addr p" if "q \<in> F" for q
    using frame_addr_inj [of q p] p20 that p(1) t'(2) d'(3) F' by fastforce
  have tp: "tabs' (frame_addr p) = Some nt'" using d'(9) t'(2) by simp
  have ei: "pd_entries Dn' ! i = frame_addr p OR (pd_entries D ! i AND 0xFFF)" using d'(6) i(1) Dn by simp
  have V: "?V = {k. k div 1024 = i \<and> k mod 1024 \<in> ?K} \<union> ?U" "?U \<inter> {k. k div 1024 = i} = {}"
    using i by (auto simp: user_pages_def)
  have e1: "page_entry tabs' Dn' k = nt' ! (k mod 1024)" if "k div 1024 = i" for k
    using tp ei entry_frame [OF p20, of "pd_entries D ! i"] that by (simp add: page_entry_def)
  have A: "c1 ` ?K \<subseteq> F2 - F" "(F2 - F) \<inter> (F' - F2) = {}" "\<And>q. q \<in> F2 - F \<Longrightarrow> data' (frame_addr q) = data1 (frame_addr q)"
    using t'(5) d'(9) by auto
  have B: "data1 (?E k AND 0xFFFFF000) = data (?E k AND 0xFFFFF000)" if "k \<in> ?U" for k
  proof -
    have "unat (?E k) div 4096 \<in> F" using src that by (auto simp: user_pages_def)
    then show ?thesis using t'(6) unfolding frame_addr_num by blast
  qed
  have E: "?E k = T i ! (k mod 1024) \<and> page_entry tabs' Dn' k = nt' ! (k mod 1024)" if "k div 1024 = i" for k using e1 [OF that] that by simp
  note j = copies_join [OF V t'(4) A(1) d'(7,8) A(2) E A(3) B]
  have cp: "copies ?c ?V ?E data (page_entry tabs' Dn') data'" using j by blast
  have im: "?c ` ?V \<subseteq> F' - F" using j t'(2) d'(3) by blast
  have tb: "\<forall>m \<in> set (i # is'). pd_tables D ! m \<noteq> 0 \<longrightarrow> (\<exists>q nt. q \<in> F' - F \<and> pd_entries Dn' ! m = frame_addr q OR (pd_entries D ! m AND 0xFFF) \<and>
        tabs' (frame_addr q) = Some nt \<and> length nt = 1024 \<and> (\<forall>j < 1024. T m ! j = 0 \<longrightarrow> nt ! j = the (tabs (frame_addr q)) ! j))"
  proof (intro ballI impI)
    fix m assume m: "m \<in> set (i # is')" "pd_tables D ! m \<noteq> 0"
    show "\<exists>q nt. q \<in> F' - F \<and> pd_entries Dn' ! m = frame_addr q OR (pd_entries D ! m AND 0xFFF) \<and>
        tabs' (frame_addr q) = Some nt \<and> length nt = 1024 \<and> (\<forall>j < 1024. T m ! j = 0 \<longrightarrow> nt ! j = the (tabs (frame_addr q)) ! j)"
    proof (cases "m = i")
      case True
      then show ?thesis using ei tp t'(1,2,7) d'(3) p(1) nt by (intro exI [of _ p] exI [of _ nt']) auto
    next
      case False
      then have "m \<in> set is'" using m(1) by simp
      then obtain q u where q: "q \<in> F' - F2" "pd_entries Dn' ! m = frame_addr q OR (pd_entries D ! m AND 0xFFF)" "tabs' (frame_addr q) = Some u"
        "length u = 1024" "\<forall>j < 1024. T m ! j = 0 \<longrightarrow> u ! j = the ((tabs(frame_addr p \<mapsto> nt')) (frame_addr q)) ! j" using d'(5) m(2) by blast
      have "q < 2 ^ 20" using q(1) F' by auto
      then have "frame_addr q \<noteq> frame_addr p" using frame_addr_inj [of q p] p20 q(1) t'(2) by blast
      then show ?thesis using q t'(2) by (intro exI [of _ q] exI [of _ u]) auto
    qed
  qed
  have rest: "\<forall>m. m \<notin> set (i # is') \<or> pd_tables D ! m = 0 \<longrightarrow> pd_entries Dn' ! m = pd_entries Dn ! m"
  proof (intro allI impI)
    fix m assume m: "m \<notin> set (i # is') \<or> pd_tables D ! m = 0"
    then have "m \<noteq> i" using i(2) by auto
    then show "pd_entries Dn' ! m = pd_entries Dn ! m" using d'(6) m Dn(1) by auto
  qed
  have old: "\<forall>q \<in> F. tabs' (frame_addr q) = tabs (frame_addr q) \<and> data' (frame_addr q) = data (frame_addr q)"
    using d'(9) t'(2,6) ne by auto
  have junk: "\<forall>q u. tabs (frame_addr q) = Some u \<and> length u = 1024 \<longrightarrow> (\<exists>u'. tabs' (frame_addr q) = Some u' \<and> length u' = 1024)"
  proof (intro allI impI)
    fix q u assume "tabs (frame_addr q) = Some u \<and> length u = 1024"
    then have "\<exists>u. (tabs(frame_addr p \<mapsto> nt')) (frame_addr q) = Some u \<and> length u = 1024" using t'(1) by simp
    then show "\<exists>u'. tabs' (frame_addr q) = Some u' \<and> length u' = 1024" using d'(10) by blast
  qed
  have cd: "card F' = card F + clone_need D T (i # is')" using d'(4) t'(3) p i(2) by (simp add: clone_need_def)
  have sub: "F \<subseteq> F'" using t'(2) d'(3) by blast
  show ?thesis unfolding dir_cloned_def by (intro conjI) (fact d'(1,2) sub cd tb rest cp im old junk)+
qed

text \<open>What cloning needs of the directory \<open>D\<close>: its tables are in frames that are taken, and every mapped page can be copied.\<close>

definition clone_src :: "pg_layout \<Rightarrow> ('s \<times> kheap) vmm \<Rightarrow> page_dir \<Rightarrow> (nat \<Rightarrow> u32 list) \<Rightarrow> nat set \<Rightarrow> nat set \<Rightarrow> bool" where
  "clone_src P s D T F I \<longleftrightarrow> (\<forall>j fr. table_at P D j fr \<longrightarrow> unat fr div 4096 \<in> F) \<and>
     (\<forall>i \<in> I. pd_tables D ! i \<noteq> 0 \<longrightarrow> pg_present P (pd_entries D ! i) \<and> vm_tabs s (pd_entries D ! i AND 0xFFFFF000) = Some (T i) \<and>
        (\<forall>j < 1024. T i ! j \<noteq> 0 \<longrightarrow> src_ok P (vm_data s) F (T i ! j)))"

text \<open>The frames that are not taken, seen as tables: what cloning a table writes into.\<close>

definition free_tabs :: "nat \<Rightarrow> nat set \<Rightarrow> 'f vmm \<Rightarrow> bool" where
  "free_tabs n F s \<longleftrightarrow> (\<forall>p < n. p \<notin> F \<longrightarrow> (\<exists>t. vm_tabs s (frame_addr p) = Some t \<and> length t = 1024))"

lemma frame_at: "table_at P D j fr \<Longrightarrow> frame_addr (unat fr div 4096) = fr"
proof -
  assume "table_at P D j fr"
  then have fr: "fr = frame_addr (unat (pd_entries D ! j) div 4096)" unfolding table_at_def frame_addr_num by blast
  have "unat (pd_entries D ! j) div 4096 < 2 ^ 20" using u32_bound [of "pd_entries D ! j"] by (simp add: div_less_iff_less_mult)
  then have "unat fr = unat (pd_entries D ! j) div 4096 * 4096" using frame_addr_nat fr by metis
  then show ?thesis using fr by simp
qed

lemma src_ok_mono:
  assumes "src_ok P data F e" and "F \<subseteq> F'" and "\<forall>q \<in> F. data' (frame_addr q) = data (frame_addr q)"
  shows "src_ok P data' F' e"
  using assms unfolding src_ok_def frame_addr_num by (metis subsetD)

lemma clone_src_next:
  assumes c: "clone_src P s D T F (insert i I)" and "F \<subseteq> F'" and d: "\<forall>q \<in> F. vm_data s' (frame_addr q) = vm_data s (frame_addr q)"
    and t: "\<forall>q \<in> F. vm_tabs s' (frame_addr q) = vm_tabs s (frame_addr q)"
    and I: "\<forall>j \<in> I. j < 1024"
  shows "clone_src P s' D T F' I"
  unfolding clone_src_def
proof (intro conjI allI ballI impI)
  fix j fr assume "table_at P D j fr"
  then show "unat fr div 4096 \<in> F'" using c assms(2) unfolding clone_src_def by blast
next
  fix m assume m: "m \<in> I" "pd_tables D ! m \<noteq> 0"
  then have pm: "pg_present P (pd_entries D ! m)" "vm_tabs s (pd_entries D ! m AND 0xFFFFF000) = Some (T m)" using c unfolding clone_src_def by blast+
  then show "pg_present P (pd_entries D ! m)" by blast
  have tm: "table_at P D m (pd_entries D ! m AND 0xFFFFF000)" using pm(1) I m(1) by (simp add: table_at_def)
  then have "unat (pd_entries D ! m AND 0xFFFFF000) div 4096 \<in> F" using c unfolding clone_src_def by blast
  then show "vm_tabs s' (pd_entries D ! m AND 0xFFFFF000) = Some (T m)" using t frame_at [OF tm] pm(2) by metis
  fix j :: nat assume "j < 1024" "T m ! j \<noteq> 0"
  then have "src_ok P (vm_data s) F (T m ! j)" using c m unfolding clone_src_def by blast
  then show "src_ok P (vm_data s') F' (T m ! j)" using src_ok_mono assms(2) d by blast
qed

context frame_allocator
begin

text \<open>One table: its frame, its entry in the new directory, and its contents.\<close>

lemma clone_one:
  assumes L: "layout_ok P" and ok: "vm_ok P s D" and nw: "new \<noteq> vm_cur s" "vm_dirs s new = Some Dn" "length (pd_entries Dn) = 1024" "length (pd_tables Dn) = 1024"
    and src: "clone_src P s D T (frames f) (set (i # is'))" and i: "i < 864" "pd_tables D ! i \<noteq> 0"
    and fi: "inv f" "total f \<le> 2 ^ 20" "vm_frames s = (f, h)" "free_tabs (total f) (frames f) s" "card (frames f) + Suc (card {j. j < 1024 \<and> T i ! j \<noteq> 0}) \<le> total f"
    and hp: "kheap_inv h" "heap_mapped P D h 0x4000" "4 \<le> kheap_allocs_left h"
  shows "\<exists>p Dn1 nt nt' f2 dm c h2. p \<notin> frames f \<and> vm_tabs s (frame_addr p) = Some nt \<and>
    clone_user P (pair_get getpg) heap_kal heap_kfr (vm_cur s) new (i # is') s = clone_user P (pair_get getpg) heap_kal heap_kfr (vm_cur s) new is'
      (s\<lparr>vm_dirs := (vm_dirs s)(new \<mapsto> Dn1), vm_tabs := (vm_tabs s)(frame_addr p \<mapsto> nt'), vm_data := dm, vm_frames := (f2, h2)\<rparr>) \<and>
    pd_entries Dn1 = (pd_entries Dn)[i := frame_addr p OR (pd_entries D ! i AND 0xFFF)] \<and> length (pd_tables Dn1) = 1024 \<and>
    inv f2 \<and> total f2 = total f \<and> tbl_cloned (insert p (frames f)) (vm_data s) nt (T i) {j. j < 1024 \<and> T i ! j \<noteq> 0} (frames f2) dm nt' c \<and>
    kheap_inv h2 \<and> kheap_used h2 = kheap_used h \<and> kheap_bytes_left h - 0x4000 \<le> kheap_bytes_left h2 \<and> kheap_allocs_left h - 4 \<le> kheap_allocs_left h2"
proof -
  have ln: "length (pd_entries D) = 1024" "length (pd_tables D) = 1024" "vm_dirs s (vm_cur s) = Some D" using ok by (simp_all add: vm_ok_def)
  obtain p f1 where p: "pair_get getpg (f, h) = Some (frame_addr p, f1, h)" "p < total f" "p \<notin> frames f" "inv f1" "total f1 = total f"
    "frames f1 = insert p (frames f)" using pair_get_free [OF fi(1), of h] fi(5) by auto
  have p20: "p < 2 ^ 20" using p(2) fi(2) by simp
  let ?e = "frame_addr p OR (pd_entries D ! i AND 0xFFF)" and ?ft = "pd_entries D ! i AND 0xFFFFF000"
  let ?Dn = "Dn\<lparr>pd_tables := (pd_tables Dn)[i := of_nat i * 0x1000 + 0xFFC00000], pd_entries := (pd_entries Dn)[i := ?e]\<rparr>"
  let ?s1 = "s\<lparr>vm_frames := (f1, h), vm_dirs := (vm_dirs s)(new \<mapsto> ?Dn)\<rparr>"
  have si: "pg_present P (pd_entries D ! i)" "vm_tabs s ?ft = Some (T i)" "\<forall>j < 1024. T i ! j \<noteq> 0 \<longrightarrow> src_ok P (vm_data s) (frames f) (T i ! j)"
    using src i(2) unfolding clone_src_def by simp_all
  have tab: "table_at P D i ?ft" using si(1) i(1) by (simp add: table_at_def)
  have put: "put_dir new i (of_nat i * 0x1000 + 0xFFC00000) ?e (s\<lparr>vm_frames := (f1, h)\<rparr>) = Some ?s1"
    using nw i(1) by (simp add: put_dir_def)
  have ok1: "vm_ok P ?s1 D" using ok nw(1) by (simp add: vm_ok_def)
  have pe: "vm_dirs ?s1 new = Some ?Dn" "length (pd_entries ?Dn) = 1024" "pd_entries ?Dn ! i AND 0xFFFFF000 = frame_addr p"
    using nw(3) i(1) entry_frame [OF p20, of "pd_entries D ! i"] by simp_all
  have fresh: "\<forall>j. \<not> table_at P D j (frame_addr p)"
  proof (intro allI notI)
    fix j assume t: "table_at P D j (frame_addr p)"
    then have "unat (frame_addr p) div 4096 \<in> frames f" using src unfolding clone_src_def by blast
    then show False using p(3) frame_addr_nat [OF p20] by simp
  qed
  obtain nt where nt: "vm_tabs s (frame_addr p) = Some nt" "length nt = 1024" using fi(4) p(2,3) unfolding free_tabs_def by blast
  have t1: "vm_tabs ?s1 ?ft = Some (T i)" "vm_tabs ?s1 (frame_addr p) = Some nt" "total f1 \<le> 2 ^ 20" "vm_frames ?s1 = (f1, h)"
    using si(2) nt(1) p(5) fi(2) by simp_all
  have src1: "\<forall>j < 1024. T i ! j \<noteq> 0 \<longrightarrow> src_ok P (vm_data ?s1) (frames f1) (T i ! j)"
    using si(3) p(6) by (auto simp: src_ok_def)
  have room: "card (frames f1) + card {j. j < 1024 \<and> T i ! j \<noteq> 0} \<le> total f1"
    using fi(5) p(3,5,6) finite_frames [OF fi(1)] by simp
  obtain nt' f2 dm c h2 where r: "clonetbl P (pair_get getpg) heap_kal heap_kfr new i ?s1 =
      Some (?s1\<lparr>vm_tabs := (vm_tabs ?s1)(frame_addr p \<mapsto> nt'), vm_data := dm, vm_frames := (f2, h2)\<rparr>)" "inv f2" "total f2 = total f1"
    "tbl_cloned (frames f1) (vm_data ?s1) nt (T i) {j. j < 1024 \<and> T i ! j \<noteq> 0} (frames f2) dm nt' c"
    "kheap_inv h2" "kheap_used h2 = kheap_used h" "kheap_bytes_left h - 0x4000 \<le> kheap_bytes_left h2" "kheap_allocs_left h - 4 \<le> kheap_allocs_left h2"
    using clonetbl_copies [OF L ok1 i(1) tab t1(1) pe fresh t1(2) nt(2) p(4) t1(3,4) src1 room hp] by blast
  have same: "?s1\<lparr>vm_tabs := (vm_tabs ?s1)(frame_addr p \<mapsto> nt'), vm_data := dm, vm_frames := (f2, h2)\<rparr> =
    s\<lparr>vm_dirs := (vm_dirs s)(new \<mapsto> ?Dn), vm_tabs := (vm_tabs s)(frame_addr p \<mapsto> nt'), vm_data := dm, vm_frames := (f2, h2)\<rparr>" by simp
  have run: "clone_user P (pair_get getpg) heap_kal heap_kfr (vm_cur s) new (i # is') s = clone_user P (pair_get getpg) heap_kal heap_kfr (vm_cur s) new is'
      (s\<lparr>vm_dirs := (vm_dirs s)(new \<mapsto> ?Dn), vm_tabs := (vm_tabs s)(frame_addr p \<mapsto> nt'), vm_data := dm, vm_frames := (f2, h2)\<rparr>)"
    using r(1) unfolding same using ln i p(1) put fi(3) by simp
  have en: "pd_entries ?Dn = (pd_entries Dn)[i := ?e]" "length (pd_tables ?Dn) = 1024" using nw(4) by simp_all
  have tc: "tbl_cloned (insert p (frames f)) (vm_data s) nt (T i) {j. j < 1024 \<and> T i ! j \<noteq> 0} (frames f2) dm nt' c" using r(4) p(6) by simp
  have tot: "total f2 = total f" using r(3) p(5) by simp
  show ?thesis
    by (intro exI [of _ p] exI [of _ ?Dn] exI [of _ nt] exI [of _ nt'] exI [of _ f2] exI [of _ dm] exI [of _ c] exI [of _ h2] conjI)
      (fact p(3) nt(1) run en r(2) tot tc r(5-8))+
qed

lemma clone_user_copies:
  assumes L: "layout_ok P" and "vm_ok P s D" and "new \<noteq> vm_cur s" "vm_dirs s new = Some Dn" "length (pd_entries Dn) = 1024"
    "length (pd_tables Dn) = 1024" and "clone_src P s D T (frames f) (set is)" and "distinct is" "set is \<subseteq> {..<864}"
    and "inv f" "total f \<le> 2 ^ 20" "vm_frames s = (f, h)" "free_tabs (total f) (frames f) s" "card (frames f) + clone_need D T is \<le> total f"
    and "kheap_inv h" "heap_mapped P D h (0x4000 * clone_tabs D is)" "4 * clone_tabs D is \<le> kheap_allocs_left h"
  shows "\<exists>Dn' tabs' dm f' h' c. clone_user P (pair_get getpg) heap_kal heap_kfr (vm_cur s) new is s =
      Some (s\<lparr>vm_dirs := (vm_dirs s)(new \<mapsto> Dn'), vm_tabs := tabs', vm_data := dm, vm_frames := (f', h')\<rparr>) \<and> inv f' \<and> total f' = total f \<and>
    dir_cloned (frames f) (vm_data s) (vm_tabs s) D T Dn is (frames f') dm tabs' Dn' c \<and>
    kheap_inv h' \<and> kheap_used h' = kheap_used h \<and> kheap_bytes_left h - 0x4000 * clone_tabs D is \<le> kheap_bytes_left h' \<and>
    kheap_allocs_left h - 4 * clone_tabs D is \<le> kheap_allocs_left h'"
  using assms(2-)
proof (induction "is" arbitrary: s f h Dn)
  case Nil
  have same: "s\<lparr>vm_dirs := (vm_dirs s)(new \<mapsto> Dn), vm_tabs := vm_tabs s, vm_data := vm_data s, vm_frames := (f, h)\<rparr> = s"
    using Nil.prems(3,11) by (simp add: fun_upd_idem)
  have d: "dir_cloned (frames f) (vm_data s) (vm_tabs s) D T Dn [] (frames f) (vm_data s) (vm_tabs s) Dn (\<lambda>_. 0)"
    using Nil.prems(4,5) by (simp add: dir_cloned_def clone_need_def copies_def user_pages_def)
  show ?case
    by (intro exI [of _ Dn] exI [of _ "vm_tabs s"] exI [of _ "vm_data s"] exI [of _ f] exI [of _ h] exI [of _ "\<lambda>_. 0"])
      (use Nil.prems(9,14) d in \<open>simp only: same clone_user.simps, simp\<close>)
next
  case (Cons i is')
  have ln: "length (pd_entries D) = 1024" "length (pd_tables D) = 1024" "vm_dirs s (vm_cur s) = Some D" using Cons.prems(1) by (simp_all add: vm_ok_def)
  have i: "i < 864" "i \<notin> set is'" "distinct is'" "set is' \<subseteq> {..<864}" using Cons.prems(7,8) by auto
  show ?case
  proof (cases "pd_tables D ! i = 0")
    case True
    have run: "clone_user P (pair_get getpg) heap_kal heap_kfr (vm_cur s) new (i # is') s = clone_user P (pair_get getpg) heap_kal heap_kfr (vm_cur s) new is' s"
      using True i(1) ln by simp
    have eq: "clone_need D T (i # is') = clone_need D T is'" "clone_tabs D (i # is') = clone_tabs D is'"
      "user_pages D T (set (i # is')) = user_pages D T (set is')" using True by (auto simp: clone_need_def clone_tabs_def user_pages_def)
    have src: "clone_src P s D T (frames f) (set is')" using Cons.prems(6) by (simp add: clone_src_def)
    have dc: "dir_cloned F data tabs D T Dn (i # is') F' data' tabs' Dn' c = dir_cloned F data tabs D T Dn is' F' data' tabs' Dn' c" for F data tabs F' data' tabs' Dn' c
      unfolding dir_cloned_def eq using True by auto
    show ?thesis unfolding run dc eq
      by (rule Cons.IH [OF Cons.prems(1-5) src i(3,4) Cons.prems(9-12)]) (use Cons.prems(13-) in \<open>simp_all only: eq\<close>)
  next
    case False
    let ?K = "{j. j < 1024 \<and> T i ! j \<noteq> 0}"
    have eq: "clone_need D T (i # is') = Suc (card ?K) + clone_need D T is'" "clone_tabs D (i # is') = Suc (clone_tabs D is')"
      using False by (simp_all add: clone_need_def clone_tabs_def)
    have r: "card (frames f) + Suc (card ?K) \<le> total f" "4 \<le> kheap_allocs_left h" using Cons.prems(13,16) unfolding eq by simp_all
    have hm: "heap_mapped P D h 0x4000" by (rule heap_mapped_less [OF Cons.prems(15), of _ 0]) (simp_all add: eq)
    obtain p Dn1 nt nt' f2 dm c h2 where one: "p \<notin> frames f"
      "clone_user P (pair_get getpg) heap_kal heap_kfr (vm_cur s) new (i # is') s = clone_user P (pair_get getpg) heap_kal heap_kfr (vm_cur s) new is'
        (s\<lparr>vm_dirs := (vm_dirs s)(new \<mapsto> Dn1), vm_tabs := (vm_tabs s)(frame_addr p \<mapsto> nt'), vm_data := dm, vm_frames := (f2, h2)\<rparr>)"
      "pd_entries Dn1 = (pd_entries Dn)[i := frame_addr p OR (pd_entries D ! i AND 0xFFF)]" "length (pd_tables Dn1) = 1024"
      "inv f2" "total f2 = total f" "tbl_cloned (insert p (frames f)) (vm_data s) nt (T i) ?K (frames f2) dm nt' c"
      "kheap_inv h2" "kheap_used h2 = kheap_used h" "kheap_bytes_left h - 0x4000 \<le> kheap_bytes_left h2" "kheap_allocs_left h - 4 \<le> kheap_allocs_left h2"
      "vm_tabs s (frame_addr p) = Some nt"
      using clone_one [OF L Cons.prems(1-6) i(1) False Cons.prems(9-12) r(1) Cons.prems(14) hm r(2)] by blast
    let ?s1 = "s\<lparr>vm_dirs := (vm_dirs s)(new \<mapsto> Dn1), vm_tabs := (vm_tabs s)(frame_addr p \<mapsto> nt'), vm_data := dm, vm_frames := (f2, h2)\<rparr>"
    have tc: "length nt' = 1024" "insert p (frames f) \<subseteq> frames f2" "card (frames f2) = Suc (card (frames f)) + card ?K"
      "\<forall>q \<in> insert p (frames f). dm (frame_addr q) = vm_data s (frame_addr q)"
      using one(1,7) finite_frames [OF Cons.prems(9)] unfolding tbl_cloned_def by simp_all
    have p20: "p < 2 ^ 20" using frames_num [OF one(5)] one(6) Cons.prems(10) tc(2) by simp
    have other: "frame_addr q \<noteq> frame_addr p" if "q \<in> frames f" for q
      using frame_addr_inj [of q p] frames_num [OF Cons.prems(9,10) that] p20 one(1) that by auto
    have src: "clone_src P ?s1 D T (frames f2) (set is')"
      by (rule clone_src_next [where F = "frames f" and s = s and i = i]) (use Cons.prems(6) tc(2,4) other i(4) in \<open>auto simp: subset_iff\<close>)
    have fresh: "\<forall>j. \<not> table_at P D j (frame_addr p)"
    proof (intro allI notI)
      fix j assume t: "table_at P D j (frame_addr p)"
      then have "unat (frame_addr p) div 4096 \<in> frames f" using Cons.prems(6) unfolding clone_src_def by blast
      then show False using one(1) frame_addr_nat [OF p20] by simp
    qed
    have ok: "vm_ok P ?s1 D" using vm_ok_tab [OF Cons.prems(1) tc(1), of "frame_addr p"] Cons.prems(2) by (simp add: vm_ok_def)
    have ft: "free_tabs (total f2) (frames f2) ?s1" using Cons.prems(12) tc(1,2) one(6) unfolding free_tabs_def by auto
    have pre: "new \<noteq> vm_cur ?s1" "vm_dirs ?s1 new = Some Dn1" "length (pd_entries Dn1) = 1024" "total f2 \<le> 2 ^ 20" "vm_frames ?s1 = (f2, h2)"
      "card (frames f2) + clone_need D T is' \<le> total f2" "4 * clone_tabs D is' \<le> kheap_allocs_left h2"
      using Cons.prems(2,4,10,13,16) one(3,6,11) tc(3) unfolding eq by simp_all
    have hm1: "heap_mapped P D h2 (0x4000 * clone_tabs D is')"
      by (rule heap_mapped_less [OF Cons.prems(15) _ one(10)]) (simp add: eq)
    obtain Dn' tabs' dm' f' h' c' where rest: "clone_user P (pair_get getpg) heap_kal heap_kfr (vm_cur ?s1) new is' ?s1 =
        Some (?s1\<lparr>vm_dirs := (vm_dirs ?s1)(new \<mapsto> Dn'), vm_tabs := tabs', vm_data := dm', vm_frames := (f', h')\<rparr>)" "inv f'" "total f' = total f2"
      "dir_cloned (frames f2) (vm_data ?s1) (vm_tabs ?s1) D T Dn1 is' (frames f') dm' tabs' Dn' c'"
      "kheap_inv h'" "kheap_used h' = kheap_used h2" "kheap_bytes_left h2 - 0x4000 * clone_tabs D is' \<le> kheap_bytes_left h'"
      "kheap_allocs_left h2 - 4 * clone_tabs D is' \<le> kheap_allocs_left h'"
      using Cons.IH [OF ok pre(1-3) one(4) src i(3,4) one(5) pre(4,5) ft pre(6) one(8) hm1 pre(7)] by blast
    have run: "clone_user P (pair_get getpg) heap_kal heap_kfr (vm_cur s) new (i # is') s =
        Some (s\<lparr>vm_dirs := (vm_dirs s)(new \<mapsto> Dn'), vm_tabs := tabs', vm_data := dm', vm_frames := (f', h')\<rparr>)"
      using rest(1) unfolding one(2) by simp
    have d0: "dir_cloned (frames f2) dm ((vm_tabs s)(frame_addr p \<mapsto> nt')) D T Dn1 is' (frames f') dm' tabs' Dn' c'" using rest(4) by simp
    have f20: "frames f' \<subseteq> {..<2 ^ 20}" using frames_le [OF rest(2)] rest(3) one(6) Cons.prems(10) by auto
    have sr: "\<forall>m \<in> set is'. pd_tables D ! m \<noteq> 0 \<longrightarrow> (\<forall>j < 1024. T m ! j \<noteq> 0 \<longrightarrow> unat (T m ! j) div 4096 \<in> frames f)"
      using Cons.prems(6) unfolding clone_src_def src_ok_def by simp
    have i1024: "i < 1024" using i(1) by simp
    note dir = dir_cloned_step [OF one(7,1) finite_frames [OF Cons.prems(9)] one(12) d0 one(3) Cons.prems(4) i1024 i(2) False f20 sr]
    have fin: "total f' = total f" "kheap_used h' = kheap_used h" using rest(3,6) one(6,9) by simp_all
    have left: "kheap_bytes_left h - 0x4000 * clone_tabs D (i # is') \<le> kheap_bytes_left h'"
      "kheap_allocs_left h - 4 * clone_tabs D (i # is') \<le> kheap_allocs_left h'"
      using rest(7,8) one(10,11) unfolding eq mult_Suc_right by linarith+
    show ?thesis
      by (intro exI [of _ Dn'] exI [of _ tabs'] exI [of _ dm'] exI [of _ f'] exI [of _ h']
          exI [of _ "\<lambda>k. if k div 1024 = i then c (k mod 1024) else c' k"] conjI) (fact run rest(2) fin(1) dir rest(5) fin(2) left)+
  qed
qed

end

subsection \<open>The kernel part, and the whole directory\<close>

lemma share_kernel_copies:
  assumes "vm_dirs s dir = Some D" and "new \<noteq> dir" and "length (pd_entries D) = 1024" "length (pd_tables D) = 1024"
    and "vm_dirs s new = Some Dn" "length (pd_entries Dn) = 1024" "length (pd_tables Dn) = 1024" and "set is \<subseteq> {..<1024}"
  shows "\<exists>Dn'. share_kernel dir new is s = Some (s\<lparr>vm_dirs := (vm_dirs s)(new \<mapsto> Dn')\<rparr>) \<and> length (pd_entries Dn') = 1024 \<and>
    length (pd_tables Dn') = 1024 \<and> (\<forall>i. pd_entries Dn' ! i = (if i \<in> set is then pd_entries D ! i else pd_entries Dn ! i))"
  using assms
proof (induction "is" arbitrary: s Dn)
  case Nil
  have "s\<lparr>vm_dirs := (vm_dirs s)(new \<mapsto> Dn)\<rparr> = s" using Nil.prems(5) by (simp add: fun_upd_idem)
  then show ?case by (intro exI [of _ Dn]) (use Nil.prems(6,7) in \<open>simp only: share_kernel.simps, simp\<close>)
next
  case (Cons i is')
  let ?Dn = "Dn\<lparr>pd_tables := (pd_tables Dn)[i := pd_tables D ! i], pd_entries := (pd_entries Dn)[i := pd_entries D ! i]\<rparr>"
  let ?s = "s\<lparr>vm_dirs := (vm_dirs s)(new \<mapsto> ?Dn)\<rparr>"
  have i: "i < 1024" "set is' \<subseteq> {..<1024}" using Cons.prems(8) by auto
  have pre: "vm_dirs ?s dir = Some D" "vm_dirs ?s new = Some ?Dn" "length (pd_entries ?Dn) = 1024" "length (pd_tables ?Dn) = 1024"
    using Cons.prems(1,2,6,7) by simp_all
  have run: "share_kernel dir new (i # is') s = share_kernel dir new is' ?s"
    using Cons.prems(1,3-7) i(1) by (simp add: put_dir_def)
  obtain Dn' where d: "share_kernel dir new is' ?s = Some (?s\<lparr>vm_dirs := (vm_dirs ?s)(new \<mapsto> Dn')\<rparr>)" "length (pd_entries Dn') = 1024"
    "length (pd_tables Dn') = 1024" "\<forall>j. pd_entries Dn' ! j = (if j \<in> set is' then pd_entries D ! j else pd_entries ?Dn ! j)"
    using Cons.IH [OF pre(1) Cons.prems(2-4) pre(2-4) i(2)] by blast
  have e: "\<forall>j. pd_entries Dn' ! j = (if j \<in> set (i # is') then pd_entries D ! j else pd_entries Dn ! j)"
    using d(4) i(1) Cons.prems(6) by (simp add: nth_list_update)
  have "share_kernel dir new (i # is') s = Some (s\<lparr>vm_dirs := (vm_dirs s)(new \<mapsto> Dn')\<rparr>)" using run d(1) by simp
  then show ?case using d(2,3) e by blast
qed

lemma used_start_unique:
  assumes "kheap_inv h" and "(a, m) \<in> kheap_used h" "(a, n) \<in> kheap_used h"
  shows "m = n"
proof -
  have t: "tiled (unat BIN_START) (heap_blocks h)" using assms(1) by (simp add: kheap_inv_def heap_rep_def)
  have b: "(a, m, True) \<in> set (heap_blocks h)" "(a, n, True) \<in> set (heap_blocks h)" using assms(2,3) by (auto simp: kheap_used_def live_def)
  from tiled_disjoint [OF t b] tiled_bounds [OF t b(1)] tiled_bounds [OF t b(2)] show ?thesis by auto
qed

text \<open>The directory in use is outside the heap, or one of its blocks.\<close>

definition own_dir :: "addr \<Rightarrow> kheap \<Rightarrow> bool" where
  "own_dir d h \<longleftrightarrow> unat d < 0xE1000000 \<or> (\<exists>m. (unat d, m) \<in> kheap_used h)"

text \<open>The heap that cloning takes.\<close>

definition clone_room :: "page_dir \<Rightarrow> u32 \<Rightarrow> nat" where
  "clone_room D dirsize = 0x4000 * clone_tabs D [0..<864] + (0x1000 + roundup16 (unat dirsize))"

context frame_allocator
begin

lemma clonedir_runs:
  assumes L: "layout_ok P" and ok: "vm_ok P s D" and src: "clone_src P s D T (frames f) {..<864}"
    and fi: "inv f" "total f \<le> 2 ^ 20" "vm_frames s = (f, h)" "free_tabs (total f) (frames f) s" "card (frames f) + clone_need D T [0..<864] \<le> total f"
    and hp: "kheap_inv h" "own_dir (vm_cur s) h" "heap_mapped P D h (clone_room D dirsize)" "2 + 4 * clone_tabs D [0..<864] \<le> kheap_allocs_left h"
      "dirsize \<noteq> 0"
  shows "\<exists>new Dk Dn Dn' tabs' dm f' h' c. clonedir P (pair_get getpg) heap_kal heap_kfr getphys dirsize (vm_cur s) s =
      Some (new, s\<lparr>vm_dirs := (vm_dirs s)(new \<mapsto> Dn'), vm_tabs := tabs', vm_data := dm, vm_frames := (f', h')\<rparr>) \<and> new \<noteq> vm_cur s \<and>
    (\<forall>i < 864. pd_entries Dk ! i = 0) \<and> (\<forall>i \<in> {864..<1023}. pd_entries Dk ! i = pd_entries D ! i) \<and>
    dir_cloned (frames f) (vm_data s) (vm_tabs s) D T Dk [0..<864] (frames f') dm tabs' Dn c \<and>
    length (pd_entries Dn') = 1024 \<and> (\<forall>i < 1023. pd_entries Dn' ! i = pd_entries Dn ! i) \<and> inv f' \<and> total f' = total f \<and>
    kheap_inv h' \<and> kheap_used h' = insert (unat new, roundup16 (unat dirsize)) (kheap_used h)"
proof -
  have ln: "length (pd_entries D) = 1024" "length (pd_tables D) = 1024" "vm_dirs s (vm_cur s) = Some D" using ok by (simp_all add: vm_ok_def)
  have rm: "0x1000 + roundup16 (unat dirsize) \<le> kheap_bytes_left h" "2 \<le> kheap_allocs_left h"
    using hp(3,4) by (simp_all add: heap_mapped_def clone_room_def)
  obtain new h1 where k: "heap_kal dirsize 0x1000 s = Some (new, s\<lparr>vm_frames := (f, h1)\<rparr>)" "kheap_inv h1"
    "kheap_used h1 = insert (unat new, roundup16 (unat dirsize)) (kheap_used h)" "(unat new, roundup16 (unat dirsize)) \<notin> kheap_used h"
    "kheap_bytes_left h - (0x1000 + roundup16 (unat dirsize)) \<le> kheap_bytes_left h1" "kheap_allocs_left h - 2 \<le> kheap_allocs_left h1"
    using heap_kal_ok [OF fi(3) hp(1,5) rm] by blast
  have un: "(unat new, roundup16 (unat dirsize)) \<in> kheap_used h1" using k(3) by simp
  have nw: "new \<noteq> vm_cur s"
  proof
    assume e: "new = vm_cur s"
    have "\<not> unat new < 0xE1000000" using kheap_block_bounds [OF k(2) un] by simp
    then obtain m where m: "(unat new, m) \<in> kheap_used h" using hp(2) e by (auto simp: own_dir_def)
    then have "m = roundup16 (unat dirsize)" using used_start_unique [OF k(2) _ un, of m] k(3) by blast
    then show False using m k(4) by blast
  qed
  let ?D0 = "\<lparr>pd_tables = replicate 1024 0, pd_entries = replicate 1024 0, pd_phys = 0\<rparr>"
  let ?s2 = "s\<lparr>vm_frames := (f, h1)\<rparr>\<lparr>vm_dirs := (vm_dirs s)(new \<mapsto> ?D0)\<rparr>"
  have pre: "vm_dirs ?s2 (vm_cur s) = Some D" "vm_dirs ?s2 new = Some ?D0" "length (pd_entries ?D0) = 1024" "length (pd_tables ?D0) = 1024"
    using ln nw by simp_all
  have sub: "set [864..<1023] \<subseteq> {..<1024 :: nat}" unfolding set_upt by (rule subsetI) simp
  obtain Dk where sk: "share_kernel (vm_cur s) new [864..<1023] ?s2 = Some (?s2\<lparr>vm_dirs := (vm_dirs ?s2)(new \<mapsto> Dk)\<rparr>)"
    "length (pd_entries Dk) = 1024" "length (pd_tables Dk) = 1024"
    "\<forall>i. pd_entries Dk ! i = (if i \<in> set [864..<1023] then pd_entries D ! i else pd_entries ?D0 ! i)"
    using share_kernel_copies [OF pre(1) nw ln(1,2) pre(2-4) sub] by blast
  have z: "\<forall>i < 864. pd_entries Dk ! i = 0" "\<forall>i \<in> {864..<1023}. pd_entries Dk ! i = pd_entries D ! i"
    using sk(4) unfolding set_upt by simp_all
  let ?s3 = "?s2\<lparr>vm_dirs := (vm_dirs ?s2)(new \<mapsto> Dk)\<rparr>"
  have st: "set [0..<864] = {..<864 :: nat}" by auto
  have src3: "clone_src P ?s3 D T (frames f) (set [0..<864])" using src unfolding st by (simp add: clone_src_def)
  have ok3: "vm_ok P ?s3 D" using ok nw by (simp add: vm_ok_def)
  have pre3: "new \<noteq> vm_cur ?s3" "vm_dirs ?s3 new = Some Dk" "distinct [0..<864]" "set [0..<864] \<subseteq> {..<864 :: nat}" "vm_frames ?s3 = (f, h1)"
    "free_tabs (total f) (frames f) ?s3" "4 * clone_tabs D [0..<864] \<le> kheap_allocs_left h1"
    using nw fi(4) k(6) hp(4) by (auto simp: free_tabs_def)
  have hm: "heap_mapped P D h1 (0x4000 * clone_tabs D [0..<864])"
    by (rule heap_mapped_less [OF hp(3) _ k(5)]) (simp add: clone_room_def)
  obtain Dn tabs' dm f' h' c where cu: "clone_user P (pair_get getpg) heap_kal heap_kfr (vm_cur ?s3) new [0..<864] ?s3 =
      Some (?s3\<lparr>vm_dirs := (vm_dirs ?s3)(new \<mapsto> Dn), vm_tabs := tabs', vm_data := dm, vm_frames := (f', h')\<rparr>)" "inv f'" "total f' = total f"
    "dir_cloned (frames f) (vm_data ?s3) (vm_tabs ?s3) D T Dk [0..<864] (frames f') dm tabs' Dn c"
    "kheap_inv h'" "kheap_used h' = kheap_used h1"
    using clone_user_copies [OF L ok3 pre3(1,2) sk(2,3) src3 pre3(3,4) fi(1,2) pre3(5,6) fi(5) k(2) hm pre3(7)] by blast
  let ?s4 = "s\<lparr>vm_dirs := (vm_dirs s)(new \<mapsto> Dn), vm_tabs := tabs', vm_data := dm, vm_frames := (f', h')\<rparr>"
  have cu': "clone_user P (pair_get getpg) heap_kal heap_kfr (vm_cur s) new [0..<864] ?s3 = Some ?s4" using cu(1) by simp
  have ln4: "length (pd_entries Dn) = 1024" "length (pd_tables Dn) = 1024" using cu(4) by (simp_all add: dir_cloned_def)
  let ?D5 = "Dn\<lparr>pd_tables := (pd_tables Dn)[1023 := new], pd_entries := (pd_entries Dn)[1023 := getphys new ?s4 OR 3]\<rparr>"
  let ?s5 = "?s4\<lparr>vm_dirs := (vm_dirs s)(new \<mapsto> ?D5)\<rparr>"
  have put: "put_dir new 1023 new (getphys new ?s4 OR 3) ?s4 = Some ?s5" using ln4 by (simp add: put_dir_def)
  let ?D6 = "?D5\<lparr>pd_phys := getphys new ?s5\<rparr>"
  let ?s6 = "s\<lparr>vm_dirs := (vm_dirs s)(new \<mapsto> ?D6), vm_tabs := tabs', vm_data := dm, vm_frames := (f', h')\<rparr>"
  have d5: "vm_dirs ?s5 new = Some ?D5" by simp
  have s6: "?s5\<lparr>vm_dirs := (vm_dirs ?s5)(new \<mapsto> ?D6)\<rparr> = ?s6" by simp
  have run: "clonedir P (pair_get getpg) heap_kal heap_kfr getphys dirsize (vm_cur s) s = Some (new, ?s6)"
    unfolding clonedir_def using k(1) sk(1) cu' put d5 s6
    by (simp add: Let_def del: upt_rec_numeral share_kernel.simps clone_user.simps)
  have e6: "length (pd_entries ?D6) = 1024" "\<forall>i < 1023. pd_entries ?D6 ! i = pd_entries Dn ! i" using ln4 by simp_all
  have dc: "dir_cloned (frames f) (vm_data s) (vm_tabs s) D T Dk [0..<864] (frames f') dm tabs' Dn c" using cu(4) by simp
  have us: "kheap_used h' = insert (unat new, roundup16 (unat dirsize)) (kheap_used h)" using cu(6) k(3) by simp
  show ?thesis
    by (intro exI [of _ new] exI [of _ Dk] exI [of _ Dn] exI [of _ ?D6] exI [of _ tabs'] exI [of _ dm] exI [of _ f'] exI [of _ h'] exI [of _ c] conjI)
      (fact run nw z dc e6 cu(2,3,5) us)+
qed

end

subsection \<open>Address spaces\<close>

text \<open>The tables of the current directory.\<close>

definition cur_tables :: "'f vmm \<Rightarrow> page_dir \<Rightarrow> nat \<Rightarrow> u32 list" where
  "cur_tables s D i = the (vm_tabs s (pd_entries D ! i AND 0xFFFFF000))"

text \<open>
  A directory that can be cloned: the tables, and the frames of the pages mapped below the kernel, are taken; the pointer to a table is
  set exactly where its entry is present.
\<close>

definition clonable :: "pg_layout \<Rightarrow> 'f vmm \<Rightarrow> page_dir \<Rightarrow> nat set \<Rightarrow> bool" where
  "clonable P s D F \<longleftrightarrow> (\<forall>j fr. table_at P D j fr \<longrightarrow> unat fr div 4096 \<in> F) \<and>
     (\<forall>i < 864. pd_tables D ! i \<noteq> 0 \<longleftrightarrow> pg_present P (pd_entries D ! i)) \<and>
     (\<forall>v e. dindex v < 864 \<longrightarrow> walk P s v = Some e \<longrightarrow> e \<noteq> 0 \<longrightarrow> src_ok P (vm_data s) F e)"

lemma clonable_src:
  assumes ok: "vm_ok P s D" and c: "clonable P s D F"
  shows "clone_src P s D (cur_tables s D) F {..<864}"
  unfolding clone_src_def
proof (intro conjI allI ballI impI)
  fix j fr assume "table_at P D j fr"
  then show "unat fr div 4096 \<in> F" using c by (simp add: clonable_def)
next
  fix i assume i: "i \<in> {..<864}" "pd_tables D ! i \<noteq> 0"
  then show pr: "pg_present P (pd_entries D ! i)" using c by (simp add: clonable_def)
  have tab: "table_at P D i (pd_entries D ! i AND 0xFFFFF000)" using pr i(1) by (simp add: table_at_def)
  obtain t where t: "vm_tabs s (pd_entries D ! i AND 0xFFFFF000) = Some t" "length t = 1024" using vm_ok_table [OF ok tab] by blast
  show "vm_tabs s (pd_entries D ! i AND 0xFFFFF000) = Some (cur_tables s D i)" using t(1) by (simp add: cur_tables_def)
  fix j assume j: "j < 1024" "cur_tables s D i ! j \<noteq> 0"
  let ?v = "of_nat i * 0x400000 + of_nat j * 0x1000 :: u32"
  have v: "dindex ?v = i" "tindex ?v = j" using page_addr [of i j] i(1) j(1) by simp_all
  have "walk P s ?v = Some (cur_tables s D i ! j)"
    using walk_present [OF ok _ t, of ?v] tab t(1) unfolding v by (simp add: cur_tables_def)
  then show "src_ok P (vm_data s) F (cur_tables s D i ! j)" using c v(1) i(1) j(2) unfolding clonable_def by (metis lessThan_iff)
qed

text \<open>
  What a process sees in the new directory \<open>new\<close>. The address space of the process that asks is as it was. The kernel part is shared:
  the same entries. Every page mapped below it has a copy, with the same flags, in a frame of its own that was free before, and the
  frames in use keep their contents. A page that is not mapped is as unmapped in the copy if its whole table is missing; otherwise its
  entry is whatever the frame of the new table held.
\<close>

definition address_space_copied :: "pg_layout \<Rightarrow> page_dir \<Rightarrow> 'f vmm \<Rightarrow> 'f vmm \<Rightarrow> addr \<Rightarrow> nat set \<Rightarrow> nat set \<Rightarrow> (nat \<Rightarrow> nat) \<Rightarrow> bool" where
  "address_space_copied P D s s' new F F' c \<longleftrightarrow> F \<subseteq> F' \<and>
     (\<forall>v. walk P s' v = walk P s v) \<and>
     (\<forall>v. 864 \<le> dindex v \<and> dindex v < 1023 \<longrightarrow> walk P (s'\<lparr>vm_cur := new\<rparr>) v = walk P s v) \<and>
     (\<forall>v e. dindex v < 864 \<and> walk P s v = Some e \<and> e \<noteq> 0 \<longrightarrow>
        walk P (s'\<lparr>vm_cur := new\<rparr>) v = Some (frame_addr (c (unat v div 4096)) OR (e AND 0xFFF)) \<and>
        vm_data s' (frame_addr (c (unat v div 4096))) = vm_data s (e AND 0xFFFFF000)) \<and>
     inj_on c {unat v div 4096 | v. dindex v < 864 \<and> walk P s v \<noteq> Some 0} \<and>
     c ` {unat v div 4096 | v. dindex v < 864 \<and> walk P s v \<noteq> Some 0} \<subseteq> F' - F \<and>
     (\<forall>q \<in> F. vm_data s' (frame_addr q) = vm_data s (frame_addr q)) \<and>
     (\<forall>v. dindex v < 864 \<and> \<not> pg_present P (pd_entries D ! dindex v) \<longrightarrow> walk P (s'\<lparr>vm_cur := new\<rparr>) v = Some 0) \<and>
     (\<forall>v. dindex v < 864 \<and> pg_present P (pd_entries D ! dindex v) \<and> walk P s v = Some 0 \<longrightarrow>
        (\<exists>q \<in> F' - F. walk P (s'\<lparr>vm_cur := new\<rparr>) v = Some (the (vm_tabs s (frame_addr q)) ! tindex v)))"

lemma walk_entry:
  assumes "vm_ok P s D" and "pg_present P (pd_entries D ! dindex v)"
  shows "walk P s v = Some (cur_tables s D (dindex v) ! tindex v)"
proof -
  have tab: "table_at P D (dindex v) (pd_entries D ! dindex v AND 0xFFFFF000)" using assms(2) by (simp add: table_at_def dindex_less)
  then obtain t where t: "vm_tabs s (pd_entries D ! dindex v AND 0xFFFFF000) = Some t" "length t = 1024" using vm_ok_table [OF assms(1)] by blast
  show ?thesis using walk_present [OF assms(1) tab t] t(1) by (simp add: cur_tables_def)
qed

text \<open>The walk of a directory that need not be well formed.\<close>

lemma walk_in:
  assumes "vm_dirs s (vm_cur s) = Some D" and "length (pd_entries D) = 1024"
  shows "pg_present P (pd_entries D ! dindex v) \<Longrightarrow> vm_tabs s (pd_entries D ! dindex v AND 0xFFFFF000) = Some t \<Longrightarrow> length t = 1024 \<Longrightarrow>
      walk P s v = Some (t ! tindex v)"
    and "\<not> pg_present P (pd_entries D ! dindex v) \<Longrightarrow> walk P s v = Some 0"
  using assms by (simp_all add: walk_def cur_entry_def read_tab_def tab_frame_def dindex_less tindex_less)

lemma dir_cloned_copied:
  assumes L: "layout_ok P" and ok: "vm_ok P s D" and c: "clonable P s D F" and F': "F' \<subseteq> {..<2 ^ 20}"
    and dc: "dir_cloned F (vm_data s) (vm_tabs s) D (cur_tables s D) Dk [0..<864] F' dm tabs' Dn cp"
    and z: "\<forall>i < 864. pd_entries Dk ! i = 0" "\<forall>i \<in> {864..<1023}. pd_entries Dk ! i = pd_entries D ! i"
    and Dn': "length (pd_entries Dn') = 1024" "\<forall>i < 1023. pd_entries Dn' ! i = pd_entries Dn ! i" and nw: "new \<noteq> vm_cur s"
  shows "address_space_copied P D s (s\<lparr>vm_dirs := (vm_dirs s)(new \<mapsto> Dn'), vm_tabs := tabs', vm_data := dm, vm_frames := fh\<rparr>) new F F' cp"
proof -
  let ?s = "s\<lparr>vm_dirs := (vm_dirs s)(new \<mapsto> Dn'), vm_tabs := tabs', vm_data := dm, vm_frames := fh\<rparr>"
  let ?n = "?s\<lparr>vm_cur := new\<rparr>" and ?U = "user_pages D (cur_tables s D) {..<864}"
  have st: "set [0..<864] = {..<864 :: nat}" by auto
  have d: "F \<subseteq> F'"
    "\<forall>i \<in> {..<864}. pd_tables D ! i \<noteq> 0 \<longrightarrow> (\<exists>q nt. q \<in> F' - F \<and> pd_entries Dn ! i = frame_addr q OR (pd_entries D ! i AND 0xFFF) \<and>
        tabs' (frame_addr q) = Some nt \<and> length nt = 1024 \<and> (\<forall>j < 1024. cur_tables s D i ! j = 0 \<longrightarrow> nt ! j = the (vm_tabs s (frame_addr q)) ! j))"
    "\<forall>i. i \<notin> {..<864} \<or> pd_tables D ! i = 0 \<longrightarrow> pd_entries Dn ! i = pd_entries Dk ! i"
    "copies cp ?U (\<lambda>k. cur_tables s D (k div 1024) ! (k mod 1024)) (vm_data s) (page_entry tabs' Dn) dm" "cp ` ?U \<subseteq> F' - F"
    "\<forall>p \<in> F. tabs' (frame_addr p) = vm_tabs s (frame_addr p) \<and> dm (frame_addr p) = vm_data s (frame_addr p)"
    using dc unfolding dir_cloned_def st by blast+
  have Ds: "vm_dirs ?s (vm_cur ?s) = Some D" "length (pd_entries D) = 1024" "vm_dirs ?n (vm_cur ?n) = Some Dn'"
    using ok nw by (simp_all add: vm_ok_def)
  have old: "\<exists>t. tabs' fr = Some t \<and> vm_tabs s fr = Some t \<and> length t = 1024" if "table_at P D i fr" for i fr
  proof -
    have "unat fr div 4096 \<in> F" using c that by (simp add: clonable_def)
    then show ?thesis using d(6) frame_at [OF that] vm_ok_table [OF ok that] by metis
  qed
  have tab: "table_at P D (dindex v) (pd_entries D ! dindex v AND 0xFFFFF000)" if "pg_present P (pd_entries D ! dindex v)" for v
    using that by (simp add: table_at_def dindex_less)
  have w0: "walk P s v = Some 0" if "\<not> pg_present P (pd_entries D ! dindex v)" for v by (rule walk_absent [OF ok that])
  have same: "walk P ?s v = walk P s v" for v
  proof (cases "pg_present P (pd_entries D ! dindex v)")
    case True
    from old [OF tab [OF this]] obtain t where t: "tabs' (pd_entries D ! dindex v AND 0xFFFFF000) = Some t"
      "vm_tabs s (pd_entries D ! dindex v AND 0xFFFFF000) = Some t" "length t = 1024" by blast
    have "walk P ?s v = Some (t ! tindex v)" by (rule walk_in(1) [OF Ds(1,2) True]) (use t in simp_all)
    then show ?thesis using walk_present [OF ok tab [OF True] t(2,3)] by simp
  next
    case False
    then show ?thesis using walk_in(2) [OF Ds(1,2) False] w0 by simp
  qed
  have kern: "walk P ?n v = walk P s v" if v: "864 \<le> dindex v" "dindex v < 1023" for v
  proof -
    have e: "pd_entries Dn' ! dindex v = pd_entries D ! dindex v" using v Dn'(2) d(3) z(2) by simp
    show ?thesis
    proof (cases "pg_present P (pd_entries D ! dindex v)")
      case True
      from old [OF tab [OF this]] obtain t where t: "tabs' (pd_entries D ! dindex v AND 0xFFFFF000) = Some t"
        "vm_tabs s (pd_entries D ! dindex v AND 0xFFFFF000) = Some t" "length t = 1024" by blast
      have "walk P ?n v = Some (t ! tindex v)" by (rule walk_in(1) [OF Ds(3) Dn'(1)]) (use t e True in simp_all)
      then show ?thesis using walk_present [OF ok tab [OF True] t(2,3)] by simp
    next
      case False
      then show ?thesis using walk_in(2) [OF Ds(3) Dn'(1), of P v] e w0 by simp
    qed
  qed
  have np: "\<not> pg_present P 0" using L by (simp add: layout_ok_def)
  have absent: "walk P ?n v = Some 0" if v: "dindex v < 864" "\<not> pg_present P (pd_entries D ! dindex v)" for v
  proof -
    have "pd_tables D ! dindex v = 0" using c v by (auto simp: clonable_def)
    then have "pd_entries Dn' ! dindex v = 0" using Dn'(2) d(3) z(1) v(1) by simp
    then show ?thesis using walk_in(2) [OF Ds(3) Dn'(1), of P v] np by simp
  qed
  have user: "\<exists>q \<in> F' - F. \<exists>nt. walk P ?n v = Some (nt ! tindex v) \<and> page_entry tabs' Dn (unat v div 4096) = nt ! tindex v \<and>
      (cur_tables s D (dindex v) ! tindex v = 0 \<longrightarrow> nt ! tindex v = the (vm_tabs s (frame_addr q)) ! tindex v)"
    if v: "dindex v < 864" "pg_present P (pd_entries D ! dindex v)" for v
  proof -
    have "pd_tables D ! dindex v \<noteq> 0" using c v by (auto simp: clonable_def)
    then obtain q nt where q: "q \<in> F' - F" "pd_entries Dn ! dindex v = frame_addr q OR (pd_entries D ! dindex v AND 0xFFF)"
      "tabs' (frame_addr q) = Some nt" "length nt = 1024" "\<forall>j < 1024. cur_tables s D (dindex v) ! j = 0 \<longrightarrow> nt ! j = the (vm_tabs s (frame_addr q)) ! j"
      using d(2) v(1) by blast
    have q20: "q < 2 ^ 20" using q(1) F' by auto
    have fr: "pd_entries Dn ! dindex v AND 0xFFFFF000 = frame_addr q" unfolding q(2) by (rule entry_frame [OF q20])
    have e: "pd_entries Dn' ! dindex v = pd_entries Dn ! dindex v" using Dn'(2) v(1) by simp
    have pr: "pg_present P (pd_entries Dn' ! dindex v)" unfolding e q(2) using entry_present [OF L q20] v(2) by simp
    have "walk P ?n v = Some (nt ! tindex v)" by (rule walk_in(1) [OF Ds(3) Dn'(1) pr]) (use q(3,4) e fr in simp_all)
    moreover have "page_entry tabs' Dn (unat v div 4096) = nt ! tindex v" unfolding page_entry_def page_split fr q(3) by simp
    ultimately show ?thesis using q(1,5) tindex_less [of v] by blast
  qed
  have mem: "pg_present P (pd_entries D ! dindex v) \<and> unat v div 4096 \<in> ?U" if v: "dindex v < 864" "walk P s v \<noteq> Some 0" for v
  proof -
    have pr: "pg_present P (pd_entries D ! dindex v)" using w0 v(2) by blast
    then show ?thesis using walk_entry [OF ok pr] c v unfolding user_pages_def mem_Collect_eq page_split by (auto simp: clonable_def)
  qed
  have mapped: "walk P ?n v = Some (frame_addr (cp (unat v div 4096)) OR (e AND 0xFFF)) \<and>
      dm (frame_addr (cp (unat v div 4096))) = vm_data s (e AND 0xFFFFF000)" if v: "dindex v < 864" "walk P s v = Some e" "e \<noteq> 0" for v e
  proof -
    have pr: "pg_present P (pd_entries D ! dindex v)" "unat v div 4096 \<in> ?U" using mem [OF v(1)] v(2,3) by simp_all
    have "e = cur_tables s D (dindex v) ! tindex v" using walk_entry [OF ok pr(1)] v(2) by simp
    then have "page_entry tabs' Dn (unat v div 4096) = frame_addr (cp (unat v div 4096)) OR (e AND 0xFFF)"
      "dm (frame_addr (cp (unat v div 4096))) = vm_data s (e AND 0xFFFFF000)"
      using d(4) pr(2) unfolding copies_def by (metis page_split)+
    then show ?thesis using user [OF v(1) pr(1)] by auto
  qed
  have sub: "{unat v div 4096 | v. dindex v < 864 \<and> walk P s v \<noteq> Some 0} \<subseteq> ?U" using mem by blast
  have left: "\<exists>q \<in> F' - F. walk P ?n v = Some (the (vm_tabs s (frame_addr q)) ! tindex v)"
    if v: "dindex v < 864" "pg_present P (pd_entries D ! dindex v)" "walk P s v = Some 0" for v
    using user [OF v(1,2)] walk_entry [OF ok v(2)] v(3) by auto
  have inj: "inj_on cp {unat v div 4096 | v. dindex v < 864 \<and> walk P s v \<noteq> Some 0}" using d(4) sub unfolding copies_def by (blast intro: inj_on_subset)
  have im: "cp ` {unat v div 4096 | v. dindex v < 864 \<and> walk P s v \<noteq> Some 0} \<subseteq> F' - F" using d(5) sub by blast
  have dat: "\<forall>q \<in> F. vm_data ?s (frame_addr q) = vm_data s (frame_addr q)" using d(6) by simp
  have g: "\<forall>v. walk P ?s v = walk P s v" "\<forall>v. 864 \<le> dindex v \<and> dindex v < 1023 \<longrightarrow> walk P ?n v = walk P s v" using same kern by blast+
  have m: "\<forall>v e. dindex v < 864 \<and> walk P s v = Some e \<and> e \<noteq> 0 \<longrightarrow>
      walk P ?n v = Some (frame_addr (cp (unat v div 4096)) OR (e AND 0xFFF)) \<and> vm_data ?s (frame_addr (cp (unat v div 4096))) = vm_data s (e AND 0xFFFFF000)"
    using mapped by simp
  have a: "\<forall>v. dindex v < 864 \<and> \<not> pg_present P (pd_entries D ! dindex v) \<longrightarrow> walk P ?n v = Some 0"
    "\<forall>v. dindex v < 864 \<and> pg_present P (pd_entries D ! dindex v) \<and> walk P s v = Some 0 \<longrightarrow>
      (\<exists>q \<in> F' - F. walk P ?n v = Some (the (vm_tabs s (frame_addr q)) ! tindex v))" using absent left by blast+
  show ?thesis unfolding address_space_copied_def by (intro conjI) (fact d(1) g m inj im dat a)+
qed


text \<open>
  An address space with one page, at address 0, and the first table of the heap; a machine with eight frames, of which 5 and 6 are free;
  an empty heap.
\<close>

definition demo_space_dir :: page_dir where
  "demo_space_dir = \<lparr>pd_tables = (replicate 1024 0)[0 := 0xFFC00000], pd_entries = (replicate 1024 0)[0 := 0x1007, 900 := 0x2003], pd_phys = 0x4000\<rparr>"

definition demo_space_pmm :: pmm where
  "demo_space_pmm = \<lparr>bitmap = [NOT (bitmask 5 OR bitmask 6)], mapsize = 0x8000, pages_free = 2, pages_taken = 6, pages_total = 8, last_free = 0\<rparr>"

definition demo_space :: "(pmm \<times> kheap) vmm" where
  "demo_space = \<lparr>vm_dirs = [0x100 \<mapsto> demo_space_dir], vm_cur = 0x100,
    vm_tabs = (\<lambda>fr. Some (if fr = 0x1000 then (replicate 1024 0)[0 := 0x3007] else replicate 1024 0)),
    vm_data = (\<lambda>fr. if fr = 0x3000 then Some (replicate 4096 42) else None), vm_frames = (demo_space_pmm, heap_init 0xD0000000)\<rparr>"

lemma demo_space_at: "table_at i386_layout demo_space_dir i fr \<longleftrightarrow> i = 0 \<and> fr = 0x1000 \<or> i = 900 \<and> fr = 0x2000"
  by (auto simp: table_at_def i386_layout_def demo_space_dir_def nth_list_update)

lemma demo_space_ok: "vm_ok i386_layout demo_space demo_space_dir"
  unfolding vm_ok_def demo_space_at by (auto simp: demo_space_def demo_space_dir_def)

lemma demo_space_tables: "cur_tables demo_space demo_space_dir 0 = (replicate 1024 0)[0 := 0x3007]"
  by (simp add: cur_tables_def demo_space_def demo_space_dir_def)

lemma demo_space_bits: "i < 32 \<Longrightarrow> bm_bit demo_space_pmm i \<longleftrightarrow> i \<noteq> 5 \<and> i \<noteq> 6"
  by (auto simp: demo_space_pmm_def bm_bit_def bit_not_iff bit_or_iff mask_simps)

lemma demo_space_taken: "taken demo_space_pmm = {0, 1, 2, 3, 4, 7}"
proof -
  have "taken demo_space_pmm = {i. i < 8 \<and> i \<noteq> 5 \<and> i \<noteq> 6}" using demo_space_bits by (auto simp: taken_def) (auto simp: demo_space_pmm_def)
  also have "\<dots> = {0, 1, 2, 3, 4, 7}" by auto
  finally show ?thesis .
qed

lemma demo_space_pmm_ok: "pmm_ok demo_space_pmm"
proof -
  have "pmm_inv demo_space_pmm" using demo_space_taken by (simp add: pmm_inv_def demo_space_pmm_def)
  moreover have "hint_ok demo_space_pmm" using demo_space_bits by (auto simp: hint_ok_def demo_space_pmm_def)
  ultimately show ?thesis by (simp add: pmm_ok_def)
qed

lemma demo_space_walk: "dindex v < 864 \<Longrightarrow> walk i386_layout demo_space v = Some (if dindex v = 0 \<and> tindex v = 0 then 0x3007 else 0)"
proof -
  assume v: "dindex v < 864"
  show ?thesis
  proof (cases "dindex v = 0")
    case True
    have p: "pg_present i386_layout (pd_entries demo_space_dir ! dindex v)" unfolding True by (simp add: i386_layout_def demo_space_dir_def)
    show ?thesis unfolding walk_entry [OF demo_space_ok p] unfolding True demo_space_tables by (simp add: nth_list_update tindex_less)
  next
    case False
    then show ?thesis using v by (intro trans [OF walk_absent [OF demo_space_ok]]) (simp_all add: i386_layout_def demo_space_dir_def nth_list_update)
  qed
qed

lemma demo_space_clonable: "clonable i386_layout demo_space demo_space_dir (taken demo_space_pmm)"
  unfolding clonable_def demo_space_at demo_space_taken
proof (intro conjI allI impI)
  fix v e assume v: "dindex v < 864" "walk i386_layout demo_space v = Some e" "e \<noteq> 0"
  then have "e = 0x3007" using demo_space_walk [OF v(1)] by (simp split: if_splits)
  then show "src_ok i386_layout (vm_data demo_space) {0, 1, 2, 3, 4, 7} e" by (simp add: src_ok_def demo_space_def i386_layout_def)
qed (auto simp: i386_layout_def demo_space_dir_def nth_list_update)

lemma demo_space_tabs: "clone_tabs demo_space_dir [0..<864] = 1"
proof -
  have "filter (\<lambda>i. pd_tables demo_space_dir ! i \<noteq> 0) [0..<864] = [0]"
    by (simp add: upt_rec [of 0] demo_space_dir_def nth_list_update filter_empty_conv del: upt_rec_numeral)
  then show ?thesis by (simp add: clone_tabs_def)
qed

lemma demo_space_need: "clone_need demo_space_dir (cur_tables demo_space demo_space_dir) [0..<864] = 2"
proof -
  have "{j. j < 1024 \<and> cur_tables demo_space demo_space_dir 0 ! j \<noteq> 0} = {0}" unfolding demo_space_tables by (auto simp: nth_list_update)
  moreover have "sum_list (map (\<lambda>i. if pd_tables demo_space_dir ! i = 0 then 0 else Suc (card {j. j < 1024 \<and> cur_tables demo_space demo_space_dir i ! j \<noteq> 0})) [1..<864]) = 0"
    by (simp add: demo_space_dir_def nth_list_update del: upt_rec_numeral)
  ultimately show ?thesis by (simp add: clone_need_def upt_rec [of 0] demo_space_dir_def nth_list_update del: upt_rec_numeral)
qed

lemma demo_space_mapped: "heap_mapped i386_layout demo_space_dir (heap_init 0xD0000000) (clone_room demo_space_dir 0x2004)"
  unfolding heap_mapped_def
proof (intro conjI allI impI)
  have e: "kheap_bytes_left (heap_init 0xD0000000) = 0x1EFFEFFF"
    using heap_rep_blocks [OF heap_init_rep, of "0xD0000000"] by (simp add: kheap_bytes_left_def heap_end_def BIN_START_def)
  have r: "clone_room demo_space_dir 0x2004 = 0x7010" by (simp add: clone_room_def demo_space_tabs roundup16_def)
  show "clone_room demo_space_dir 0x2004 \<le> kheap_bytes_left (heap_init 0xD0000000)" unfolding e r by simp
  fix a :: addr assume "0xE1000000 \<le> unat a \<and> unat a < 2 ^ 32 - 1 - kheap_bytes_left (heap_init 0xD0000000) + clone_room demo_space_dir 0x2004"
  then have "unat a div 0x400000 = 900" unfolding e r by (intro div_nat_eqI) simp_all
  then have "dindex a = 900" unfolding dindex_nat .
  then show "dindex a < 1023" "pg_present i386_layout (pd_entries demo_space_dir ! dindex a)" by (simp_all add: i386_layout_def demo_space_dir_def)
qed


end
