(* ===== verification/Vm_Memory.thy ===== *)
theory Vm_Memory
  imports Clone_Table Elf
begin

text \<open>
  The memory that a processor sees through the page tables: reading and writing bytes at virtual addresses, and the pages that a piece
  of code may use. The locale \<open>address_space\<close> says what code relies on that asks for pages and then writes to them; the pager, on the
  model of the frame allocator, provides it.
\<close>

subsection \<open>Bytes\<close>

definition vm_read :: "pg_layout \<Rightarrow> 'f vmm \<Rightarrow> addr \<Rightarrow> u8 option" where
  "vm_read P s x = do {
     e \<leftarrow> walk P s x;
     if \<not> pg_present P e then None
     else do { b \<leftarrow> vm_data s (e AND 0xFFFFF000); nth_opt b (unat x mod 4096) } }"

definition vm_write :: "pg_layout \<Rightarrow> 'f vmm \<Rightarrow> addr \<Rightarrow> u8 \<Rightarrow> 'f vmm option" where
  "vm_write P s x w = do {
     e \<leftarrow> walk P s x;
     if \<not> pg_present P e then None
     else do {
       b \<leftarrow> vm_data s (e AND 0xFFFFF000);
       b' \<leftarrow> upd_opt b (unat x mod 4096) w;
       Some (s\<lparr>vm_data := (vm_data s)(e AND 0xFFFFF000 \<mapsto> b')\<rparr>) } }"

fun vm_peek :: "pg_layout \<Rightarrow> addr \<Rightarrow> nat \<Rightarrow> 'f vmm \<Rightarrow> u8 list option" where
  "vm_peek P a 0 s = Some []"
| "vm_peek P a (Suc n) s = do { w \<leftarrow> vm_read P s a; ws \<leftarrow> vm_peek P (a + 1) n s; Some (w # ws) }"

fun vm_poke :: "pg_layout \<Rightarrow> addr \<Rightarrow> u8 list \<Rightarrow> 'f vmm \<Rightarrow> 'f vmm option" where
  "vm_poke P a [] s = Some s"
| "vm_poke P a (w # ws) s = do { s1 \<leftarrow> vm_write P s a w; vm_poke P (a + 1) ws s1 }"

definition byte_at :: "pg_layout \<Rightarrow> 'f vmm \<Rightarrow> addr \<Rightarrow> u8" where
  "byte_at P s x = the (vm_data s (the (walk P s x) AND 0xFFFFF000)) ! (unat x mod 4096)"

abbreviation page :: "addr \<Rightarrow> nat" where
  "page x \<equiv> unat x div 4096"

lemma page_less: "page x < 2 ^ 20"
  using u32_bound [of x] by (simp add: div_less_iff_less_mult)

lemma walk_page: "page x = page y \<Longrightarrow> walk P s x = walk P s y"
proof -
  assume "page x = page y"
  then have "dindex x = dindex y" "tindex x = tindex y" by (simp_all only: page_split [symmetric])
  then show ?thesis by (simp add: walk_def cong: if_cong)
qed

lemma page_frame_addr: "k < 2 ^ 20 \<Longrightarrow> page (frame_addr k) = k"
  by (simp add: frame_addr_nat)

subsection \<open>The pages in use\<close>

text \<open>
  The pages \<open>W\<close> are mapped, each to a frame of its own that is taken and is no table; every frame that is free has contents, whatever
  they are.
\<close>

definition page_ok :: "pg_layout \<Rightarrow> nat set \<Rightarrow> 'f vmm \<Rightarrow> page_dir \<Rightarrow> nat \<Rightarrow> bool" where
  "page_ok P F s D k \<longleftrightarrow> (\<exists>e b. walk P s (frame_addr k) = Some e \<and> pg_present P e \<and> vm_data s (e AND 0xFFFFF000) = Some b \<and>
     length b = 4096 \<and> page e \<in> F \<and> (\<forall>j. \<not> table_at P D j (e AND 0xFFFFF000)))"

definition owns :: "pg_layout \<Rightarrow> nat set \<Rightarrow> nat \<Rightarrow> nat set \<Rightarrow> 'f vmm \<Rightarrow> page_dir \<Rightarrow> bool" where
  "owns P F n W s D \<longleftrightarrow> vm_ok P s D \<and> (\<forall>j fr. table_at P D j fr \<longrightarrow> page fr \<in> F) \<and> 0 \<in> F \<and>
     (\<forall>k \<in> W. k < 2 ^ 20 \<and> page_ok P F s D k) \<and>
     inj_on (\<lambda>k. the (walk P s (frame_addr k)) AND 0xFFFFF000) W \<and>
     (\<forall>p < n. p \<notin> F \<longrightarrow> (\<exists>b. vm_data s (frame_addr p) = Some b \<and> length b = 4096))"

lemma owns_page:
  assumes "owns P F n W s D" and "page x \<in> W"
  obtains e b where "walk P s x = Some e" "pg_present P e" "vm_data s (e AND 0xFFFFF000) = Some b" "length b = 4096" "page e \<in> F"
    "\<forall>j. \<not> table_at P D j (e AND 0xFFFFF000)"
proof -
  have "walk P s x = walk P s (frame_addr (page x))" by (rule walk_page) (simp only: page_frame_addr [OF page_less] refl)
  then show thesis using assms that unfolding owns_def page_ok_def by metis
qed

lemma owns_read:
  assumes "owns P F n W s D" and "page x \<in> W"
  shows "vm_read P s x = Some (byte_at P s x)"
proof -
  obtain e b where "walk P s x = Some e" "pg_present P e" "vm_data s (e AND 0xFFFFF000) = Some b" "length b = 4096"
    using owns_page [OF assms] by metis
  then show ?thesis by (simp add: vm_read_def byte_at_def)
qed

lemma owns_peek:
  assumes o: "owns P F n W s D" and "\<And>i. i < m \<Longrightarrow> page (a + of_nat i) \<in> W"
  shows "vm_peek P a m s = Some (map (\<lambda>i. byte_at P s (a + of_nat i)) [0..<m])"
  using assms(2)
proof (induction m arbitrary: a)
  case (Suc m)
  have 0: "vm_read P s a = Some (byte_at P s a)" using owns_read [OF o, of a] Suc.prems [of 0] by simp
  have "page (a + 1 + of_nat i) \<in> W" if "i < m" for i using Suc.prems [of "Suc i"] that by (simp add: add.assoc)
  then have "vm_peek P (a + 1) m s = Some (map (\<lambda>i. byte_at P s (a + 1 + of_nat i)) [0..<m])" by (rule Suc.IH)
  moreover have "map (\<lambda>i. byte_at P s (a + of_nat i)) [0..<Suc m] = byte_at P s a # map (\<lambda>i. byte_at P s (a + 1 + of_nat i)) [0..<m]"
    by (simp add: upt_conv_Cons map_Suc_upt [symmetric] add.assoc del: upt_Suc)
  ultimately show ?case using 0 by simp
qed simp

text \<open>Writing a byte.\<close>

lemma read_tab_data [simp]: "cur_entry (s\<lparr>vm_data := d\<rparr>) i = cur_entry s i" "cur_entry (s\<lparr>vm_frames := f\<rparr>) i = cur_entry s i"
    "read_tab P (s\<lparr>vm_data := d\<rparr>) i = read_tab P s i" "read_tab P (s\<lparr>vm_frames := f\<rparr>) i = read_tab P s i"
  by (simp_all add: read_tab_def cur_entry_def)

lemma walk_data [simp]: "walk P (s\<lparr>vm_data := d\<rparr>) x = walk P s x" "walk P (s\<lparr>vm_frames := f\<rparr>) x = walk P s x"
  by (simp_all add: walk_def cong: if_cong)

lemma owns_write:
  assumes o: "owns P F n W s D" and x: "page x \<in> W"
  shows "\<exists>d. vm_write P s x w = Some (s\<lparr>vm_data := d\<rparr>) \<and> owns P F n W (s\<lparr>vm_data := d\<rparr>) D \<and>
    (\<forall>y. page y \<in> W \<longrightarrow> byte_at P (s\<lparr>vm_data := d\<rparr>) y = (if y = x then w else byte_at P s y))"
proof -
  obtain e b where e: "walk P s x = Some e" "pg_present P e" "vm_data s (e AND 0xFFFFF000) = Some b" "length b = 4096" "page e \<in> F"
    using owns_page [OF o x] by metis
  let ?d = "(vm_data s)(e AND 0xFFFFF000 \<mapsto> b[unat x mod 4096 := w])" and ?s = "s\<lparr>vm_data := (vm_data s)(e AND 0xFFFFF000 \<mapsto> b[unat x mod 4096 := w])\<rparr>"
  have run: "vm_write P s x w = Some ?s" using e by (simp add: vm_write_def)
  have len: "\<exists>b. ?d fr = Some b \<and> length b = 4096" if "\<exists>b. vm_data s fr = Some b \<and> length b = 4096" for fr using that e(4) by auto
  have ds: "vm_data ?s = ?d" by simp
  have "page_ok P F ?s D k" if "page_ok P F s D k" for k
    using that len unfolding page_ok_def walk_data(1) ds by blast
  then have own: "owns P F n W ?s D" using o len unfolding owns_def vm_ok_frames(2) walk_data(1) ds by blast
  have "byte_at P ?s y = (if y = x then w else byte_at P s y)" if y: "page y \<in> W" for y
  proof -
    obtain e' b' where e': "walk P s y = Some e'" "vm_data s (e' AND 0xFFFFF000) = Some b'" "length b' = 4096"
      using owns_page [OF o y] by metis
    show ?thesis
    proof (cases "e' AND 0xFFFFF000 = e AND 0xFFFFF000")
      case True
      have "walk P s (frame_addr (page x)) = Some e" "walk P s (frame_addr (page y)) = Some e'"
        using e(1) e'(1) walk_page [of "frame_addr (page x)" x P s] walk_page [of "frame_addr (page y)" y P s] page_frame_addr [OF page_less] by simp_all
      then have pg: "page y = page x" using o x y True unfolding owns_def inj_on_def by (metis option.sel)
      have "y = x" if "unat y mod 4096 = unat x mod 4096"
      proof -
        have "unat y = unat x" using that pg by (metis div_mult_mod_eq)
        then show ?thesis by (simp only: word_unat_eq_iff)
      qed
      then show ?thesis using True e(3,4) e'(1,2) by (auto simp: byte_at_def e(1) nth_list_update)
    next
      case False
      then have "y \<noteq> x" using e(1) e'(1) by auto
      then show ?thesis using False e'(1) by (simp add: byte_at_def)
    qed
  qed
  then show ?thesis using run own by blast
qed

text \<open>Writing bytes.\<close>

lemma owns_poke:
  assumes "owns P F n W s D" and "\<And>i. i < length ws \<Longrightarrow> page (a + of_nat i) \<in> W" and "length ws < 2 ^ 32"
  shows "\<exists>d. vm_poke P a ws s = Some (s\<lparr>vm_data := d\<rparr>) \<and> owns P F n W (s\<lparr>vm_data := d\<rparr>) D \<and>
    (\<forall>y. page y \<in> W \<longrightarrow> byte_at P (s\<lparr>vm_data := d\<rparr>) y = (if unat (y - a) < length ws then ws ! unat (y - a) else byte_at P s y))"
  using assms
proof (induction ws arbitrary: a s)
  case Nil
  then show ?case by (intro exI [of _ "vm_data s"]) simp
next
  case (Cons w ws)
  have a: "page a \<in> W" using Cons.prems(2) [of 0] by simp
  obtain d where d: "vm_write P s a w = Some (s\<lparr>vm_data := d\<rparr>)" "owns P F n W (s\<lparr>vm_data := d\<rparr>) D"
    "\<forall>y. page y \<in> W \<longrightarrow> byte_at P (s\<lparr>vm_data := d\<rparr>) y = (if y = a then w else byte_at P s y)" using owns_write [OF Cons.prems(1) a] by blast
  have r: "page (a + 1 + of_nat i) \<in> W" if "i < length ws" for i using Cons.prems(2) [of "Suc i"] that by (simp add: add.assoc)
  have l: "length ws < 2 ^ 32" using Cons.prems(3) by simp
  obtain d' where d': "vm_poke P (a + 1) ws (s\<lparr>vm_data := d\<rparr>) = Some (s\<lparr>vm_data := d'\<rparr>)" "owns P F n W (s\<lparr>vm_data := d'\<rparr>) D"
    "\<forall>y. page y \<in> W \<longrightarrow> byte_at P (s\<lparr>vm_data := d'\<rparr>) y =
      (if unat (y - (a + 1)) < length ws then ws ! unat (y - (a + 1)) else byte_at P (s\<lparr>vm_data := d\<rparr>) y)"
    using Cons.IH [OF d(2) r l] by auto
  have "byte_at P (s\<lparr>vm_data := d'\<rparr>) y = (if unat (y - a) < length (w # ws) then (w # ws) ! unat (y - a) else byte_at P s y)" if y: "page y \<in> W" for y
  proof (cases "y = a")
    case True
    have "unat (- 1 :: u32) = 2 ^ 32 - 1" by (simp add: unsigned_minus_1_eq_mask mask_eq_exp_minus_1)
    then have "\<not> unat (y - (a + 1)) < length ws" using True Cons.prems(3) by simp
    then show ?thesis using d(3) d'(3) y True by simp
  next
    case False
    then have "unat (y - a) \<noteq> 0" by (simp add: unat_eq_0)
    moreover have e: "y - (a + 1) = y - a - 1" by simp
    ultimately have "unat (y - (a + 1)) = unat (y - a) - 1" unfolding e by (intro unat_minus_one) (simp add: unat_eq_0)
    then show ?thesis using d(3) d'(3) y False \<open>unat (y - a) \<noteq> 0\<close> by (simp add: nth_Cons' less_diff_conv2)
  qed
  then show ?case using d(1) d'(1,2) by auto
qed

subsection \<open>Asking for pages\<close>

lemma remappg_data:
  assumes "remappg P getpg phys v flags s = Some (x, s')"
  shows "vm_data s' = vm_data s"
proof -
  have "vm_data s1 = vm_data s" if "new_table P getpg i flags s = Some s1" for i s1
    using that by (auto simp: new_table_def write_tab_def opt_simps Let_def)
  then show ?thesis using assms by (auto simp: remappg_def write_tab_def opt_simps split: if_splits)
qed

lemma new_table_at:
  assumes "new_table P getpg i flags s = Some s1" and "vm_dirs s (vm_cur s) = Some D" and "vm_dirs s1 (vm_cur s1) = Some D1"
    and "getpg (vm_frames s) = Some (tp, f)" and "table_at P D1 j fr"
  shows "table_at P D j fr \<or> fr = (tp OR flags) AND 0xFFFFF000"
  using assms by (auto simp: new_table_def write_tab_def opt_simps Let_def table_at_def nth_list_update split: if_splits)

context frame_allocator
begin

lemma map_page_ok:
  assumes L: "layout_ok P" and ok: "vm_ok P s D" and tabs: "\<forall>j fr. table_at P D j fr \<longrightarrow> page fr \<in> frames f"
    and fi: "inv f" "total f \<le> 2 ^ 20" "vm_frames s = f" "card (frames f) < total f"
  shows "\<exists>old s' D' f'. remappg P getpg phys v 7 s = Some (old, s') \<and> walk P s v = Some old \<and> vm_ok P s' D' \<and> vm_frames s' = f' \<and>
    inv f' \<and> total f' = total f \<and> frames f \<subseteq> frames f' \<and> card (frames f') \<le> Suc (card (frames f)) \<and>
    (\<forall>j fr. table_at P D' j fr \<longrightarrow> page fr \<in> frames f' \<and> (table_at P D j fr \<or> page fr \<notin> frames f)) \<and>
    walk P s' v = Some (phys OR (7 AND 0xFFF)) \<and> (\<forall>v'. page v' \<noteq> page v \<longrightarrow> walk P s' v' = walk P s v') \<and> vm_data s' = vm_data s"
proof (cases "pg_present P (pd_entries D ! dindex v)")
  case True
  then have "table_at P D (dindex v) (pd_entries D ! dindex v AND 0xFFFFF000)" by (simp add: table_at_def dindex_less)
  from remappg_present [OF ok this, of getpg phys 7] obtain old s' where r: "remappg P getpg phys v 7 s = Some (old, s')" "walk P s v = Some old"
    "vm_ok P s' D" "walk P s' v = Some (phys OR (7 AND 0xFFF))" "\<forall>v'. page v' \<noteq> page v \<longrightarrow> walk P s' v' = walk P s v'" "vm_frames s' = vm_frames s"
    by auto
  show ?thesis
    by (intro exI [of _ old] exI [of _ s'] exI [of _ D] exI [of _ f]) (use r tabs fi remappg_data [OF r(1)] in auto)
next
  case False
  obtain p f' where p: "getpg f = Some (frame_addr p, f')" "p < total f" "p \<notin> frames f" "inv f'" "total f' = total f" "frames f' = insert p (frames f)"
    using pair_get_free [OF fi(1,4), of "()"] by (auto simp: pair_get_def opt_simps)
  have p20: "p < 2 ^ 20" using p(2) fi(2) by simp
  have g: "getpg (vm_frames s) = Some (frame_addr p, f')" using p(1) fi(3) by simp
  have fresh: "fresh_frame P D (frame_addr p)"
    using frame_addr_aligned [OF p20] tabs p(3) page_frame_addr [OF p20] unfolding fresh_frame_def by metis
  have fl: "bit (7 :: u32) 0" "(7 :: u32) AND 0xFFFFF000 = 0" by simp_all
  obtain s1 D1 where s1: "new_table P getpg (dindex v) 7 s = Some s1" "vm_ok P s1 D1" "vm_frames s1 = f'" "pg_present P (pd_entries D1 ! dindex v)"
    "\<forall>v. walk P s1 v = walk P s v" using new_table_ok [where getpg = getpg and s = s and tp = "frame_addr p" and f = f', OF L ok dindex_less [of v] False g fresh fl] by blast
  have e: "cur_entry s (dindex v) = Some (pd_entries D ! dindex v)" "cur_entry s1 (dindex v) = Some (pd_entries D1 ! dindex v)"
    using cur_entry_ok [OF ok dindex_less [of v]] cur_entry_ok [OF s1(2) dindex_less [of v]] by simp_all
  have same: "remappg P getpg phys v 7 s = remappg P getpg phys v 7 s1" using e False s1(1,4) unfolding remappg_def by simp
  have "table_at P D1 (dindex v) (pd_entries D1 ! dindex v AND 0xFFFFF000)" using s1(4) by (simp add: table_at_def dindex_less)
  from remappg_present [OF s1(2) this, of getpg phys 7] obtain old s' where r: "remappg P getpg phys v 7 s1 = Some (old, s')" "walk P s1 v = Some old"
    "vm_ok P s' D1" "walk P s' v = Some (phys OR (7 AND 0xFFF))" "\<forall>v'. page v' \<noteq> page v \<longrightarrow> walk P s' v' = walk P s1 v'" "vm_frames s' = vm_frames s1"
    by auto
  have at: "table_at P D j fr \<or> fr = frame_addr p" if "table_at P D1 j fr" for j fr
  proof -
    have "vm_dirs s (vm_cur s) = Some D" "vm_dirs s1 (vm_cur s1) = Some D1" using ok s1(2) by (simp_all add: vm_ok_def)
    from new_table_at [OF s1(1) this g that] show ?thesis using entry_frame [OF p20, of 7] by simp
  qed
  have tb: "\<forall>j fr. table_at P D1 j fr \<longrightarrow> page fr \<in> frames f' \<and> (table_at P D j fr \<or> page fr \<notin> frames f)"
    using at tabs p(3,6) page_frame_addr [OF p20] by (metis insertCI)
  have run: "remappg P getpg phys v 7 s = Some (old, s')" using r(1) same by simp
  have cd: "card (frames f') \<le> Suc (card (frames f))" unfolding p(6) by (rule card_insert_le_m1) simp_all
  show ?thesis
    by (intro exI [of _ old] exI [of _ s'] exI [of _ D1] exI [of _ f']) (use run r s1(3,5) tb p(4-6) cd remappg_data [OF run] in auto)
qed

end

lemma entry_page: "page (e AND 0xFFFFF000) = page e"
  unfolding frame_addr_num by (rule page_frame_addr [OF page_less])

lemma owns_mono:
  assumes "owns P F n W s D" and "F \<subseteq> F'" and "s' = s\<lparr>vm_frames := f\<rparr>"
  shows "owns P F' n W s' D"
proof -
  have ds: "vm_data (s\<lparr>vm_frames := f\<rparr>) = vm_data s" by simp
  show ?thesis unfolding assms(3) using assms(1,2) unfolding owns_def page_ok_def walk_data(2) vm_ok_frames(1) ds by (meson subsetD)
qed

text \<open>A page that was not mapped, now mapped to a frame that was free.\<close>

lemma owns_insert:
  assumes L: "layout_ok P" and o: "owns P F n W s D" and ok: "vm_ok P s' D'" and F: "insert p F \<subseteq> F'" "p \<notin> F" "p < n" "n \<le> 2 ^ 20" "F' \<subseteq> {..<n}"
    and tb: "\<forall>j fr. table_at P D' j fr \<longrightarrow> page fr \<in> F' \<and> (table_at P D j fr \<or> page fr \<notin> insert p F)"
    and w: "walk P s' v = Some (frame_addr p OR (7 AND 0xFFF))" "\<forall>x. page x \<noteq> page v \<longrightarrow> walk P s' x = walk P s x" and d: "vm_data s' = vm_data s"
    and v: "page v \<notin> W"
  shows "owns P F' n (insert (page v) W) s' D'" and "\<forall>x. page x \<in> W \<longrightarrow> byte_at P s' x = byte_at P s x"
proof -
  have p20: "p < 2 ^ 20" using F(3,4) by simp
  let ?e = "frame_addr p OR (7 AND 0xFFF) :: u32"
  have ev: "walk P s' (frame_addr (page v)) = Some ?e" using walk_page [of "frame_addr (page v)" v P s'] page_frame_addr [OF page_less] w(1) by simp
  have fe: "?e AND 0xFFFFF000 = frame_addr p" by (rule entry_frame [OF p20])
  have pe: "page ?e = p" using entry_page [of ?e] page_frame_addr [OF p20] fe by simp
  have pr: "pg_present P ?e" unfolding entry_present [OF L p20] using L by (simp add: layout_ok_def)
  have ow: "walk P s' (frame_addr k) = walk P s (frame_addr k)" if "k \<in> W" for k
  proof -
    have "k < 2 ^ 20" using o that by (simp add: owns_def)
    then show ?thesis using w(2) page_frame_addr [of k] that v by metis
  qed
  have old: "page_ok P F' s' D' k \<and> the (walk P s' (frame_addr k)) AND 0xFFFFF000 \<noteq> frame_addr p" if k: "k \<in> W" for k
  proof -
    obtain e b where e: "walk P s (frame_addr k) = Some e" "pg_present P e" "vm_data s (e AND 0xFFFFF000) = Some b" "length b = 4096" "page e \<in> F"
      "\<forall>j. \<not> table_at P D j (e AND 0xFFFFF000)" using o k unfolding owns_def page_ok_def by blast
    have "\<forall>j. \<not> table_at P D' j (e AND 0xFFFFF000)" using tb e(5,6) entry_page [of e] by (metis insertCI)
    moreover have "e AND 0xFFFFF000 \<noteq> frame_addr p" using e(5) F(2) entry_page [of e] page_frame_addr [OF p20] by metis
    moreover have "page e \<in> F'" using e(5) F(1) by blast
    ultimately show ?thesis unfolding page_ok_def ow [OF k] d e(1) using e by (intro conjI exI [of _ e] exI [of _ b]) simp_all
  qed
  obtain b where b: "vm_data s (frame_addr p) = Some b" "length b = 4096" using o F(2,3) unfolding owns_def by blast
  have nt: "\<not> table_at P D' j (frame_addr p)" for j
  proof
    assume "table_at P D' j (frame_addr p)"
    then have "table_at P D j (frame_addr p)" using tb page_frame_addr [OF p20] by (metis insertI1)
    then show False using o F(2) page_frame_addr [OF p20] unfolding owns_def by metis
  qed
  have "page ?e \<in> F'" unfolding pe using F(1) by blast
  then have new: "page_ok P F' s' D' (page v)" unfolding page_ok_def ev d
    by (intro exI [of _ ?e] exI [of _ b]) (simp only: fe pr b nt not_False_eq_True simp_thms)
  have all: "\<forall>k \<in> insert (page v) W. k < 2 ^ 20 \<and> page_ok P F' s' D' k"
    using new old o page_less [of v] unfolding owns_def by blast
  have inj: "inj_on (\<lambda>k. the (walk P s' (frame_addr k)) AND 0xFFFFF000) (insert (page v) W)"
  proof -
    have "inj_on (\<lambda>k. the (walk P s' (frame_addr k)) AND 0xFFFFF000) W" using o ow by (simp add: owns_def inj_on_def)
    moreover have "the (walk P s' (frame_addr (page v))) AND 0xFFFFF000 \<notin> (\<lambda>k. the (walk P s' (frame_addr k)) AND 0xFFFFF000) ` W"
    proof
      assume "the (walk P s' (frame_addr (page v))) AND 0xFFFFF000 \<in> (\<lambda>k. the (walk P s' (frame_addr k)) AND 0xFFFFF000) ` W"
      then obtain k where "k \<in> W" "frame_addr p = the (walk P s' (frame_addr k)) AND 0xFFFFF000" unfolding ev option.sel fe by blast
      then show False using old by metis
    qed
    ultimately show ?thesis using v by (simp add: inj_on_insert)
  qed
  have rest: "0 \<in> F'" "\<forall>q < n. q \<notin> F' \<longrightarrow> (\<exists>b. vm_data s' (frame_addr q) = Some b \<and> length b = 4096)" "\<forall>j fr. table_at P D' j fr \<longrightarrow> page fr \<in> F'"
    using o F(1) d tb unfolding owns_def by auto
  show "owns P F' n (insert (page v) W) s' D'" unfolding owns_def by (intro conjI) (fact ok rest all inj)+
  show "\<forall>x. page x \<in> W \<longrightarrow> byte_at P s' x = byte_at P s x"
  proof (intro allI impI)
    fix x assume "page x \<in> W"
    then have "walk P s' x = walk P s x" using w(2) v by metis
    then show "byte_at P s' x = byte_at P s x" by (simp add: byte_at_def d)
  qed
qed

context frame_allocator
begin

lemma allocpg_owns:
  assumes L: "layout_ok P" and o: "owns P (frames f) (total f) W s D" and fi: "inv f" "total f \<le> 2 ^ 20" "vm_frames s = f"
    and room: "card (frames f) + 2 \<le> total f" and v: "page v \<in> W \<or> walk P s v = Some 0"
  shows "\<exists>s' D'. allocpg P getpg freepg v 7 s = Some (v, s') \<and> inv (vm_frames s') \<and> total (vm_frames s') = total f \<and>
    card (frames (vm_frames s')) \<le> card (frames f) + 2 \<and> owns P (frames (vm_frames s')) (total f) (insert (page v) W) s' D' \<and>
    (\<forall>x. page x \<in> W \<longrightarrow> byte_at P s' x = byte_at P s x) \<and> (\<forall>x. page x \<noteq> page v \<longrightarrow> walk P s' x = walk P s x)"
proof -
  have ok: "vm_ok P s D" and tabs: "\<forall>j fr. table_at P D j fr \<longrightarrow> page fr \<in> frames f" and z: "0 \<in> frames f" using o by (simp_all add: owns_def)
  obtain p f1 where p: "getpg f = Some (frame_addr p, f1)" "p < total f" "p \<notin> frames f" "inv f1" "total f1 = total f" "frames f1 = insert p (frames f)"
    using pair_get_free [OF fi(1), of "()"] room by (auto simp: pair_get_def opt_simps)
  have p20: "p < 2 ^ 20" "p \<noteq> 0" using p(2,3) fi(2) z by (simp, metis)
  have nz: "frame_addr p \<noteq> 0"
  proof
    assume "frame_addr p = 0"
    then have "p * 4096 = 0" using frame_addr_nat [OF p20(1)] by simp
    then show False using p20(2) by simp
  qed
  let ?s1 = "s\<lparr>vm_frames := f1\<rparr>"
  have ok1: "vm_ok P ?s1 D" using ok by simp
  obtain x where x: "walk P ?s1 v = Some x" using walk_defined [OF ok1] by blast
  note mp = mappg_cases [OF ok1 x, of getpg "frame_addr p" 7]
  show ?thesis
  proof (cases "x = 0")
    case False
    then have W: "page v \<in> W" using v x by simp
    obtain f2 where f2: "freepg (frame_addr p) f1 = Some f2" "inv f2" "total f2 = total f" "frames f2 = frames f"
      using freepg_taken [OF p(4), of p] p(3,5,6) unfolding frame_addr_def by auto
    let ?s2 = "s\<lparr>vm_frames := f2\<rparr>"
    have run: "allocpg P getpg freepg v 7 s = Some (v, ?s2)"
      using p(1) fi(3) nz mp False f2(1) by (simp add: allocpg_def)
    have own: "owns P (frames f2) (total f) (insert (page v) W) ?s2 D" unfolding insert_absorb [OF W] by (rule owns_mono [OF o]) (simp_all add: f2(4))
    show ?thesis by (intro exI [of _ ?s2] exI [of _ D]) (use run own f2 in \<open>simp add: byte_at_def\<close>)
  next
    case True
    have nW: "page v \<notin> W"
    proof
      assume "page v \<in> W"
      then obtain e where "walk P s v = Some e" "pg_present P e" using owns_page [OF o] by metis
      then show False using x True L by (simp add: layout_ok_def)
    qed
    have t1: "\<forall>j fr. table_at P D j fr \<longrightarrow> page fr \<in> frames f1" using tabs p(6) by simp
    have r1: "total f1 \<le> 2 ^ 20" "vm_frames ?s1 = f1" "card (frames f1) < total f1" using fi(2) p(3,5,6) room finite_frames [OF fi(1)] by simp_all
    obtain s' D' f' where r: "remappg P getpg (frame_addr p) v 7 ?s1 = Some (0, s')" "vm_ok P s' D'" "vm_frames s' = f'" "inv f'" "total f' = total f1"
      "frames f1 \<subseteq> frames f'" "card (frames f') \<le> Suc (card (frames f1))"
      "\<forall>j fr. table_at P D' j fr \<longrightarrow> page fr \<in> frames f' \<and> (table_at P D j fr \<or> page fr \<notin> frames f1)" "walk P s' v = Some (frame_addr p OR (7 AND 0xFFF))"
      "\<forall>v'. page v' \<noteq> page v \<longrightarrow> walk P s' v' = walk P ?s1 v'" "vm_data s' = vm_data ?s1"
      using map_page_ok [OF L ok1 t1 p(4) r1, of "frame_addr p" v] x True by auto
    have run: "allocpg P getpg freepg v 7 s = Some (v, s')" using p(1) fi(3) nz mp True r(1) by (simp add: allocpg_def)
    have F: "insert p (frames f) \<subseteq> frames f'" "frames f' \<subseteq> {..<total f}" using r(5,6) p(5,6) frames_le [OF r(4)] by simp_all
    have w: "\<forall>y. page y \<noteq> page v \<longrightarrow> walk P s' y = walk P s y" "vm_data s' = vm_data s" using r(10,11) by simp_all
    note i = owns_insert [OF L o r(2) F(1) p(3,2) fi(2) F(2) r(8) [unfolded p(6)] r(9) w nW]
    have "card (frames f') \<le> card (frames f) + 2" using r(7) p(3,6) finite_frames [OF fi(1)] by simp
    then show ?thesis using run r(3-5) p(5) i w(1) by (intro exI [of _ s'] exI [of _ D']) simp
  qed
qed

lemma allocpgs_owns:
  assumes L: "layout_ok P" and "owns P (frames f) (total f) W s D" and "inv f" "total f \<le> 2 ^ 20" "vm_frames s = f"
    and "card (frames f) + 2 * m \<le> total f" and "page a + m \<le> 2 ^ 20" and "\<forall>k \<in> {page a..<page a + m}. k \<in> W \<or> walk P s (frame_addr k) = Some 0"
  shows "\<exists>s' D'. allocpgs_loop P getpg freepg r m a 7 s = Some (r, s') \<and> inv (vm_frames s') \<and> total (vm_frames s') = total f \<and>
    card (frames (vm_frames s')) \<le> card (frames f) + 2 * m \<and> owns P (frames (vm_frames s')) (total f) (W \<union> {page a..<page a + m}) s' D' \<and>
    (\<forall>x. page x \<in> W \<longrightarrow> byte_at P s' x = byte_at P s x) \<and> (\<forall>x. page x \<notin> {page a..<page a + m} \<longrightarrow> walk P s' x = walk P s x)"
  using assms(2-)
proof (induction m arbitrary: a s f W D)
  case 0
  then show ?case by (intro exI [of _ s] exI [of _ D]) simp
next
  case (Suc m)
  have r: "card (frames f) + 2 \<le> total f" using Suc.prems(5) by simp
  have wa: "walk P s a = walk P s (frame_addr (page a))" by (rule walk_page) (simp only: page_frame_addr [OF page_less])
  then have v: "page a \<in> W \<or> walk P s a = Some 0" using Suc.prems(7) by simp
  obtain s1 D1 where s1: "allocpg P getpg freepg a 7 s = Some (a, s1)" "inv (vm_frames s1)" "total (vm_frames s1) = total f"
    "card (frames (vm_frames s1)) \<le> card (frames f) + 2" "owns P (frames (vm_frames s1)) (total f) (insert (page a) W) s1 D1"
    "\<forall>x. page x \<in> W \<longrightarrow> byte_at P s1 x = byte_at P s x" "\<forall>x. page x \<noteq> page a \<longrightarrow> walk P s1 x = walk P s x"
    using allocpg_owns [OF L Suc.prems(1-4) r v] by blast
  show ?case
  proof (cases m)
    case 0
    then show ?thesis using s1 by (intro exI [of _ s1] exI [of _ D1]) (simp add: Un_commute)
  next
    case (Suc m')
    have "unat a + 4096 < 2 ^ 32"
    proof -
      have "page a + 2 \<le> 1048576" using Suc.prems(6) Suc by simp
      moreover have "unat a mod 4096 < 4096" by simp
      ultimately have "unat a + 4096 < 4294967296" using div_mult_mod_eq [of "unat a" 4096] by linarith
      then show ?thesis by simp
    qed
    then have "unat (a + 0x1000) = unat a + 4096" by (simp add: unat_add_lem [THEN iffD1])
    then have pa: "page (a + 0x1000) = Suc (page a)" by simp
    have o1: "owns P (frames (vm_frames s1)) (total (vm_frames s1)) (insert (page a) W) s1 D1" using s1(3,5) by simp
    have pre: "total (vm_frames s1) \<le> 2 ^ 20" "card (frames (vm_frames s1)) + 2 * m \<le> total (vm_frames s1)" "page (a + 0x1000) + m \<le> 2 ^ 20"
      using Suc.prems(3,5,6) s1(3,4) pa by simp_all
    have um: "\<forall>k \<in> {page (a + 0x1000)..<page (a + 0x1000) + m}. k \<in> insert (page a) W \<or> walk P s1 (frame_addr k) = Some 0"
    proof
      fix k assume "k \<in> {page (a + 0x1000)..<page (a + 0x1000) + m}"
      then have k: "k \<in> {page a..<page a + Suc m}" "k \<noteq> page a" "k < 2 ^ 20" using pa pre(3) by auto
      then have "walk P s1 (frame_addr k) = walk P s (frame_addr k)" using s1(7) page_frame_addr [OF k(3)] by metis
      then show "k \<in> insert (page a) W \<or> walk P s1 (frame_addr k) = Some 0" using Suc.prems(7) k(1) by auto
    qed
    obtain s' D' where s': "allocpgs_loop P getpg freepg r m (a + 0x1000) 7 s1 = Some (r, s')" "inv (vm_frames s')" "total (vm_frames s') = total (vm_frames s1)"
      "card (frames (vm_frames s')) \<le> card (frames (vm_frames s1)) + 2 * m"
      "owns P (frames (vm_frames s')) (total (vm_frames s1)) (insert (page a) W \<union> {page (a + 0x1000)..<page (a + 0x1000) + m}) s' D'"
      "\<forall>x. page x \<in> insert (page a) W \<longrightarrow> byte_at P s' x = byte_at P s1 x"
      "\<forall>x. page x \<notin> {page (a + 0x1000)..<page (a + 0x1000) + m} \<longrightarrow> walk P s' x = walk P s1 x"
      using Suc.IH [OF o1 s1(2) pre(1) refl pre(2,3) um] by blast
    have set: "insert (page a) W \<union> {page (a + 0x1000)..<page (a + 0x1000) + m} = W \<union> {page a..<page a + Suc m}" unfolding pa by auto
    have wk: "\<forall>x. page x \<notin> {page a..<page a + Suc m} \<longrightarrow> walk P s' x = walk P s x"
    proof (intro allI impI)
      fix x assume "page x \<notin> {page a..<page a + Suc m}"
      then have "page x \<noteq> page a" "page x \<notin> {page (a + 0x1000)..<page (a + 0x1000) + m}" unfolding pa by auto
      then show "walk P s' x = walk P s x" using s'(7) s1(7) by metis
    qed
    have run: "allocpgs_loop P getpg freepg r (Suc m) a 7 s = Some (r, s')" using s1(1) s'(1) by simp
    show ?thesis using run s'(2-6) s1(3,4,6) wk unfolding set by (intro exI [of _ s'] exI [of _ D']) simp
  qed
qed

end

subsection \<open>The interface\<close>

text \<open>
  Code that has pages \<open>W\<close> for itself can read and write their bytes. Asking for more pages makes those that are free its own, whatever
  bytes they hold, and keeps the bytes of the pages it had.
\<close>

definition pages_at :: "addr \<Rightarrow> u32 \<Rightarrow> nat set" where
  "pages_at a n = {page a..<page a + pages_of n}"

locale address_space =
  fixes own :: "nat set \<Rightarrow> 'v \<Rightarrow> bool"
    and free_page :: "'v \<Rightarrow> nat \<Rightarrow> bool"
    and room :: "'v \<Rightarrow> nat"
    and byte :: "'v \<Rightarrow> addr \<Rightarrow> u8"
    and peek :: "addr \<Rightarrow> nat \<Rightarrow> 'v \<Rightarrow> u8 list option"
    and poke :: "addr \<Rightarrow> u8 list \<Rightarrow> 'v \<Rightarrow> 'v option"
    and alloc :: "addr \<Rightarrow> u32 \<Rightarrow> 'v \<Rightarrow> (addr \<times> 'v) option"
  assumes peek_ok: "own W v \<Longrightarrow> (\<And>i. i < m \<Longrightarrow> page (a + of_nat i) \<in> W) \<Longrightarrow>
      peek a m v = Some (map (\<lambda>i. byte v (a + of_nat i)) [0..<m])"
    and poke_ok: "own W v \<Longrightarrow> (\<And>i. i < length ws \<Longrightarrow> page (a + of_nat i) \<in> W) \<Longrightarrow> length ws < 2 ^ 32 \<Longrightarrow>
      \<exists>v'. poke a ws v = Some v' \<and> own W v' \<and> free_page v' = free_page v \<and> room v' = room v \<and>
        (\<forall>x. page x \<in> W \<longrightarrow> byte v' x = (if unat (x - a) < length ws then ws ! unat (x - a) else byte v x))"
    and alloc_ok: "own W v \<Longrightarrow> page a + pages_of n \<le> 1023 * 1024 \<Longrightarrow> \<forall>k \<in> pages_at a n. k \<in> W \<or> free_page v k \<Longrightarrow>
      2 * pages_of n \<le> room v \<Longrightarrow>
      \<exists>v'. alloc a n v = Some (a, v') \<and> own (W \<union> pages_at a n) v' \<and> room v - 2 * pages_of n \<le> room v' \<and>
        (\<forall>x. page x \<in> W \<longrightarrow> byte v' x = byte v x) \<and> (\<forall>k < 2 ^ 20. k \<notin> pages_at a n \<longrightarrow> free_page v' k = free_page v k)"

subsection \<open>The pager provides it\<close>

definition vm_own :: "pg_layout \<Rightarrow> nat set \<Rightarrow> pmm vmm \<Rightarrow> bool" where
  "vm_own P W s \<longleftrightarrow> pmm_ok (vm_frames s) \<and> (\<exists>D. owns P (taken (vm_frames s)) (unat (pages_total (vm_frames s))) W s D)"

definition vm_room :: "pmm vmm \<Rightarrow> nat" where
  "vm_room s = unat (pages_total (vm_frames s)) - card (taken (vm_frames s))"

definition vm_free :: "pg_layout \<Rightarrow> pmm vmm \<Rightarrow> nat \<Rightarrow> bool" where
  "vm_free P s k \<longleftrightarrow> walk P s (frame_addr k) = Some 0"

lemma vm_poke_ok:
  assumes o: "vm_own P W s" and w: "\<And>i. i < length ws \<Longrightarrow> page (a + of_nat i) \<in> W" "length ws < 2 ^ 32"
  shows "\<exists>s'. vm_poke P a ws s = Some s' \<and> vm_own P W s' \<and> vm_free P s' = vm_free P s \<and> vm_room s' = vm_room s \<and>
    (\<forall>x. page x \<in> W \<longrightarrow> byte_at P s' x = (if unat (x - a) < length ws then ws ! unat (x - a) else byte_at P s x))"
proof -
  obtain D where D: "owns P (taken (vm_frames s)) (unat (pages_total (vm_frames s))) W s D" "pmm_ok (vm_frames s)" using o by (auto simp: vm_own_def)
  from owns_poke [OF D(1) w] obtain d where d: "vm_poke P a ws s = Some (s\<lparr>vm_data := d\<rparr>)"
    "owns P (taken (vm_frames s)) (unat (pages_total (vm_frames s))) W (s\<lparr>vm_data := d\<rparr>) D"
    "\<forall>y. page y \<in> W \<longrightarrow> byte_at P (s\<lparr>vm_data := d\<rparr>) y = (if unat (y - a) < length ws then ws ! unat (y - a) else byte_at P s y)" by blast
  have "vm_own P W (s\<lparr>vm_data := d\<rparr>)" using d(2) D(2) by (auto simp: vm_own_def)
  then show ?thesis using d(1,3) by (intro exI [of _ "s\<lparr>vm_data := d\<rparr>"]) (simp add: vm_free_def vm_room_def fun_eq_iff)
qed

lemma vm_alloc_ok:
  assumes L: "layout_ok P" and o: "vm_own P W s" and a: "page a + pages_of n \<le> 1023 * 1024" and k: "\<forall>k \<in> pages_at a n. k \<in> W \<or> vm_free P s k"
    and r: "2 * pages_of n \<le> vm_room s"
  shows "\<exists>s'. allocpgs P bm_getpg bm_freepg a n 7 s = Some (a, s') \<and> vm_own P (W \<union> pages_at a n) s' \<and> vm_room s - 2 * pages_of n \<le> vm_room s' \<and>
    (\<forall>x. page x \<in> W \<longrightarrow> byte_at P s' x = byte_at P s x) \<and> (\<forall>k < 2 ^ 20. k \<notin> pages_at a n \<longrightarrow> vm_free P s' k = vm_free P s k)"
proof -
  obtain D where D: "owns P (taken (vm_frames s)) (unat (pages_total (vm_frames s))) W s D" "pmm_ok (vm_frames s)" using o by (auto simp: vm_own_def)
  have tot: "unat (pages_total (vm_frames s)) \<le> 2 ^ 20" using total_bound [of "vm_frames s"] D(2) by (simp add: pmm_ok_def)
  have le: "card (taken (vm_frames s)) + 2 * pages_of n \<le> unat (pages_total (vm_frames s))"
    using r card_taken_le [of "vm_frames s"] by (simp add: vm_room_def)
  have a': "page a + pages_of n \<le> 2 ^ 20" using a by simp
  from pmm.allocpgs_owns [OF L D tot refl le a' k [unfolded pages_at_def vm_free_def], of a]
  obtain s' D' where s': "allocpgs_loop P bm_getpg bm_freepg a (pages_of n) a 7 s = Some (a, s')" "pmm_ok (vm_frames s')"
    "unat (pages_total (vm_frames s')) = unat (pages_total (vm_frames s))" "card (taken (vm_frames s')) \<le> card (taken (vm_frames s)) + 2 * pages_of n"
    "owns P (taken (vm_frames s')) (unat (pages_total (vm_frames s))) (W \<union> pages_at a n) s' D'"
    "\<forall>x. page x \<in> W \<longrightarrow> byte_at P s' x = byte_at P s x" "\<forall>x. page x \<notin> pages_at a n \<longrightarrow> walk P s' x = walk P s x"
    unfolding pages_at_def by blast
  have own: "vm_own P (W \<union> pages_at a n) s'" using s'(2,3,5) by (auto simp: vm_own_def)
  have fr: "\<forall>k < 2 ^ 20. k \<notin> pages_at a n \<longrightarrow> vm_free P s' k = vm_free P s k"
    using s'(7) page_frame_addr unfolding vm_free_def by metis
  have "allocpgs P bm_getpg bm_freepg a n 7 s = Some (a, s')" using s'(1) by (simp add: allocpgs_def)
  then show ?thesis using own fr s'(3,4,6) by (intro exI [of _ s']) (simp add: vm_room_def)
qed

interpretation vm: address_space "vm_own i386_layout" "vm_free i386_layout" vm_room "byte_at i386_layout" "vm_peek i386_layout" "vm_poke i386_layout"
  "\<lambda>a n. allocpgs i386_layout bm_getpg bm_freepg a n 7"
proof unfold_locales
  fix W and v :: "pmm vmm" and m :: nat and a :: addr
  assume "vm_own i386_layout W v" and i: "\<And>i. i < m \<Longrightarrow> page (a + of_nat i) \<in> W"
  then obtain D where "owns i386_layout (taken (vm_frames v)) (unat (pages_total (vm_frames v))) W v D" by (auto simp: vm_own_def)
  then show "vm_peek i386_layout a m v = Some (map (\<lambda>i. byte_at i386_layout v (a + of_nat i)) [0..<m])" using i by (rule owns_peek)
qed (rule vm_poke_ok vm_alloc_ok [OF i386_layout_ok]; assumption)+

end
