(* ===== verification/Elf_Props.thy ===== *)
theory Elf_Props
  imports Vm_Memory
begin

text \<open>
  Loading a program. What memory holds after \<^verbatim>\<open>modit_elf_load\<close> is the image that the program headers describe; the loop over the headers is
  verified over any \<open>address_space\<close>.
\<close>

subsection \<open>The image\<close>

definition hdr_at :: "(addr \<Rightarrow> u8) \<Rightarrow> addr \<Rightarrow> elf_ehdr" where
  "hdr_at b a = ehdr_of (map (\<lambda>i. b (a + of_nat i)) [0..<52])"

definition phdr_at :: "(addr \<Rightarrow> u8) \<Rightarrow> addr \<Rightarrow> elf_phdr" where
  "phdr_at b a = phdr_of (map (\<lambda>i. b (a + of_nat i)) [0..<32])"

definition phdrs_at :: "(addr \<Rightarrow> u8) \<Rightarrow> addr \<Rightarrow> nat \<Rightarrow> nat \<Rightarrow> elf_phdr list" where
  "phdrs_at b a i n = map (\<lambda>j. phdr_at b (a + 32 * of_nat j)) [i..<n]"

text \<open>The program headers of a file, and the segments to load.\<close>

definition file_phdrs :: "(addr \<Rightarrow> u8) \<Rightarrow> addr \<Rightarrow> elf_phdr list" where
  "file_phdrs b raw = phdrs_at b (raw + e_phoff (hdr_at b raw)) 0 (unat (e_phnum (hdr_at b raw)))"

definition loads :: "elf_phdr \<Rightarrow> addr \<Rightarrow> bool" where
  "loads ph x \<longleftrightarrow> p_type ph = PT_LOAD \<and> unat (x - p_vaddr ph) < unat (p_memsz ph)"

text \<open>The byte of the program at an address is a byte of the file, that of the last segment that has the address.\<close>

fun elf_byte :: "(addr \<Rightarrow> u8) \<Rightarrow> addr \<Rightarrow> elf_phdr list \<Rightarrow> addr \<Rightarrow> u8 option" where
  "elf_byte b raw [] x = None"
| "elf_byte b raw (ph # phs) x = (case elf_byte b raw phs x of Some w \<Rightarrow> Some w
     | None \<Rightarrow> if loads ph x then Some (b (raw + p_offset ph + (x - p_vaddr ph))) else None)"

definition seg_pages :: "elf_phdr \<Rightarrow> nat set" where
  "seg_pages ph = (if p_type ph = PT_LOAD then pages_at (p_vaddr ph) (p_memsz ph) else {})"

definition prog_pages :: "elf_phdr list \<Rightarrow> nat set" where
  "prog_pages phs = \<Union> (seg_pages ` set phs)"

definition seg_need :: "elf_phdr list \<Rightarrow> nat" where
  "seg_need phs = sum_list (map (\<lambda>ph. if p_type ph = PT_LOAD then 2 * pages_of (p_memsz ph) else 0) phs)"

text \<open>
  A segment whose pages the code asks for: as \<open>pages_of\<close> does not look at the address, a segment that is not aligned may end in a page more.
\<close>

definition seg_ok :: "elf_phdr \<Rightarrow> bool" where
  "seg_ok ph \<longleftrightarrow> p_type ph = PT_LOAD \<longrightarrow> page (p_vaddr ph) + pages_of (p_memsz ph) \<le> 1023 * 1024 \<and>
     unat (p_vaddr ph) mod 4096 + unat (p_memsz ph) \<le> 4096 * pages_of (p_memsz ph)"

text \<open>The addresses that loading reads.\<close>

definition hdr_addrs :: "addr \<Rightarrow> nat \<Rightarrow> addr set" where
  "hdr_addrs a n = (\<lambda>i. a + of_nat i) ` {..<n}"

definition seg_addrs :: "addr \<Rightarrow> elf_phdr \<Rightarrow> addr set" where
  "seg_addrs raw ph = (if p_type ph = PT_LOAD then hdr_addrs (raw + p_offset ph) (unat (p_memsz ph)) else {})"

definition elf_reads :: "(addr \<Rightarrow> u8) \<Rightarrow> addr \<Rightarrow> addr set" where
  "elf_reads b raw = hdr_addrs raw 52 \<union> hdr_addrs (raw + e_phoff (hdr_at b raw)) (32 * unat (e_phnum (hdr_at b raw))) \<union>
     \<Union> (seg_addrs raw ` set (file_phdrs b raw))"

lemma hdr_addrs_sub: "k + m \<le> n \<Longrightarrow> hdr_addrs (a + of_nat k) m \<subseteq> hdr_addrs a n"
proof
  fix x assume h: "k + m \<le> n" "x \<in> hdr_addrs (a + of_nat k) m"
  then obtain j where j: "j < m" "x = a + of_nat k + of_nat j" by (auto simp: hdr_addrs_def)
  then have "x = a + of_nat (k + j)" "k + j < n" using h(1) by simp_all
  then show "x \<in> hdr_addrs a n" unfolding hdr_addrs_def by blast
qed

lemma seg_page:
  assumes "seg_ok ph" and "p_type ph = PT_LOAD" and "i < unat (p_memsz ph)"
  shows "page (p_vaddr ph + of_nat i) \<in> pages_at (p_vaddr ph) (p_memsz ph)"
proof -
  let ?a = "unat (p_vaddr ph)"
  have s: "page (p_vaddr ph) + pages_of (p_memsz ph) \<le> 1047552" "?a mod 4096 + i < 4096 * pages_of (p_memsz ph)"
    using assms by (simp_all add: seg_ok_def)
  have e: "?a = page (p_vaddr ph) * 4096 + ?a mod 4096" by simp
  have "?a + i < 4096 * (page (p_vaddr ph) + pages_of (p_memsz ph))" using s(2) e unfolding distrib_left by linarith
  then have l: "?a + i < 4096 * 1047552" using s(1) by (meson less_le_trans mult_le_mono2)
  then have "unat (of_nat i :: u32) = i" by (intro u32_of_nat) simp
  then have u: "unat (p_vaddr ph + of_nat i) = ?a + i" using l by (subst unat_add_lem [THEN iffD1]) simp_all
  have "(?a + i) div 4096 < page (p_vaddr ph) + pages_of (p_memsz ph)"
    using \<open>?a + i < 4096 * (page (p_vaddr ph) + pages_of (p_memsz ph))\<close> by (simp add: div_less_iff_less_mult mult.commute)
  moreover have "page (p_vaddr ph) \<le> (?a + i) div 4096" by (rule div_le_mono) simp
  ultimately show ?thesis unfolding pages_at_def u by simp
qed

lemma seg_loads:
  assumes "seg_ok ph" and "loads ph x"
  shows "page x \<in> seg_pages ph"
proof -
  have "page (p_vaddr ph + of_nat (unat (x - p_vaddr ph))) \<in> pages_at (p_vaddr ph) (p_memsz ph)"
    using assms by (intro seg_page) (simp_all add: loads_def)
  moreover have "p_vaddr ph + of_nat (unat (x - p_vaddr ph)) = x" by simp
  ultimately show ?thesis using assms(2) by (simp add: seg_pages_def loads_def)
qed

lemma elf_byte_Some: "elf_byte b raw phs x = Some w \<Longrightarrow> \<exists>ph \<in> set phs. loads ph x"
  by (induction phs) (auto split: option.splits if_splits)

text \<open>The header of an executable for this processor.\<close>

definition elf_header_ok :: "elf_ehdr \<Rightarrow> bool" where
  "elf_header_ok h \<longleftrightarrow> ELF_CHKHDR h \<and> e_type h = ET_EXEC \<and> e_machine h = EM_386 \<and> e_version h \<noteq> EV_NONE \<and> e_ident h ! 4 = ELFCLASS32"

subsection \<open>The loop\<close>

context address_space
begin

lemma copy_segment:
  assumes sv: "sv_peek sv = peek" "sv_poke sv = poke" "\<And>a n. sv_allocpgs sv a n 7 = alloc a n"
    and o: "own W v" and ph: "p_type ph = PT_LOAD" "seg_ok ph" and fr: "\<forall>k \<in> seg_pages ph. k \<in> W \<or> free_page v k"
    and rm: "2 * pages_of (p_memsz ph) \<le> room v" and src: "\<forall>x \<in> seg_addrs raw ph. page x \<in> W"
  shows "\<exists>v1 v2. sv_allocpgs sv (p_vaddr ph) (p_memsz ph) 7 v = Some (p_vaddr ph, v1) \<and>
    k_copy sv (p_vaddr ph) (raw + p_offset ph) (p_memsz ph) v1 = Some v2 \<and> own (W \<union> seg_pages ph) v2 \<and> room v - 2 * pages_of (p_memsz ph) \<le> room v2 \<and>
    (\<forall>k < 2 ^ 20. k \<notin> seg_pages ph \<longrightarrow> free_page v2 k = free_page v k) \<and>
    (\<forall>x. loads ph x \<longrightarrow> byte v2 x = byte v (raw + p_offset ph + (x - p_vaddr ph))) \<and> (\<forall>x. page x \<in> W \<and> \<not> loads ph x \<longrightarrow> byte v2 x = byte v x)"
proof -
  have pg: "seg_pages ph = pages_at (p_vaddr ph) (p_memsz ph)" using ph(1) by (simp add: seg_pages_def)
  have b: "page (p_vaddr ph) + pages_of (p_memsz ph) \<le> 1023 * 1024" using ph by (simp add: seg_ok_def)
  obtain v1 where v1: "alloc (p_vaddr ph) (p_memsz ph) v = Some (p_vaddr ph, v1)" "own (W \<union> seg_pages ph) v1" "room v - 2 * pages_of (p_memsz ph) \<le> room v1"
    "\<forall>x. page x \<in> W \<longrightarrow> byte v1 x = byte v x" "\<forall>k < 2 ^ 20. k \<notin> seg_pages ph \<longrightarrow> free_page v1 k = free_page v k"
    using alloc_ok [OF o b fr [unfolded pg] rm] unfolding pg by blast
  let ?ws = "map (\<lambda>i. byte v1 (raw + p_offset ph + of_nat i)) [0..<unat (p_memsz ph)]"
  have W: "page (raw + p_offset ph + of_nat i) \<in> W" if "i < unat (p_memsz ph)" for i
    using src ph(1) that by (simp add: seg_addrs_def hdr_addrs_def)
  have pk: "peek (raw + p_offset ph) (unat (p_memsz ph)) v1 = Some ?ws" using W by (intro peek_ok [OF v1(2)]) simp
  have in_seg: "page (p_vaddr ph + of_nat i) \<in> W \<union> seg_pages ph" if "i < length ?ws" for i
    using seg_page [OF ph(2,1)] that unfolding pg by simp
  have ln: "length ?ws < 2 ^ 32" using u32_bound [of "p_memsz ph"] by simp
  obtain v2 where v2: "poke (p_vaddr ph) ?ws v1 = Some v2" "own (W \<union> seg_pages ph) v2" "free_page v2 = free_page v1" "room v2 = room v1"
    "\<forall>x. page x \<in> W \<union> seg_pages ph \<longrightarrow> byte v2 x = (if unat (x - p_vaddr ph) < length ?ws then ?ws ! unat (x - p_vaddr ph) else byte v1 x)"
    using poke_ok [OF v1(2) in_seg ln] by blast
  have cp: "k_copy sv (p_vaddr ph) (raw + p_offset ph) (p_memsz ph) v1 = Some v2" using pk v2(1) sv(1,2) by (simp add: k_copy_def)
  have new: "byte v2 x = byte v (raw + p_offset ph + (x - p_vaddr ph))" if x: "loads ph x" for x
  proof -
    have "page (raw + p_offset ph + (x - p_vaddr ph)) \<in> W" using W [of "unat (x - p_vaddr ph)"] x by (simp add: loads_def)
    then show ?thesis using v2(5) seg_loads [OF ph(2) x] x v1(4) by (simp add: loads_def)
  qed
  have old: "byte v2 x = byte v x" if "page x \<in> W \<and> \<not> loads ph x" for x
    using that v2(5) v1(4) ph(1) by (simp add: loads_def)
  show ?thesis
    by (intro exI [of _ v1] exI [of _ v2]) (use v1 v2(2-4) cp new old sv(3) in simp)
qed

lemma peek_same:
  assumes "own W v" and "\<forall>x \<in> hdr_addrs a n. page x \<in> W \<and> byte v x = b x"
  shows "peek a n v = Some (map (\<lambda>i. b (a + of_nat i)) [0..<n])"
proof -
  have "page (a + of_nat i) \<in> W" "byte v (a + of_nat i) = b (a + of_nat i)" if "i < n" for i
    using assms(2) that by (auto simp: hdr_addrs_def)
  then show ?thesis using peek_ok [OF assms(1), of n a] by simp
qed

lemma segments_loaded:
  assumes sv: "sv_peek sv = peek" "sv_poke sv = poke" "\<And>a n. sv_allocpgs sv a n 7 = alloc a n"
    and h: "hdr_addrs raw 52 \<subseteq> R" "hdr_addrs pa (32 * unat (e_phnum (hdr_at b raw))) \<subseteq> R"
    and "i \<le> unat (e_phnum (hdr_at b raw))" and "phs = phdrs_at b pa i (unat (e_phnum (hdr_at b raw)))"
    and "own W v" and "\<forall>x \<in> R. page x \<in> W \<and> byte v x = b x"
    and "\<forall>ph \<in> set phs. seg_ok ph \<and> seg_addrs raw ph \<subseteq> R \<and> (\<forall>k \<in> seg_pages ph. k \<in> W \<or> free_page v k) \<and> (\<forall>x \<in> R. \<not> loads ph x)"
    and "seg_need phs \<le> room v"
  shows "\<exists>v'. elf_segments sv raw pa (of_nat i) v = Some v' \<and> own (W \<union> prog_pages phs) v' \<and> (\<forall>x \<in> R. byte v' x = b x) \<and>
    room v - seg_need phs \<le> room v' \<and> (\<forall>k < 2 ^ 20. k \<notin> prog_pages phs \<longrightarrow> free_page v' k = free_page v k) \<and>
    (\<forall>x w. elf_byte b raw phs x = Some w \<longrightarrow> byte v' x = w) \<and> (\<forall>x. page x \<in> W \<and> elf_byte b raw phs x = None \<longrightarrow> byte v' x = byte v x)"
  using assms(6-)
proof (induction phs arbitrary: i W v)
  let ?n = "unat (e_phnum (hdr_at b raw))"
  case Nil
  then have i: "i = ?n" by (auto simp: phdrs_at_def)
  have "\<forall>x \<in> hdr_addrs raw 52. page x \<in> W \<and> byte v x = b x" using Nil.prems(4) h(1) by blast
  then have "peek raw 52 v = Some (map (\<lambda>i. b (raw + of_nat i)) [0..<52])" by (rule peek_same [OF Nil.prems(3)])
  then have "elf_segments sv raw pa (of_nat i) v = Some v" unfolding i by (subst elf_segments.simps) (simp add: sv(1) hdr_at_def)
  then show ?case using Nil.prems(3,4) by (simp add: prog_pages_def seg_need_def)
next
  let ?n = "unat (e_phnum (hdr_at b raw))"
  case (Cons ph phs)
  have n16: "?n < 65536" using unsigned_less [of "e_phnum (hdr_at b raw)"] by simp
  have i: "i < ?n" using Cons.prems(1,2) by (cases "i = ?n") (simp_all add: phdrs_at_def)
  have ph: "ph = phdr_at b (pa + 32 * of_nat i)" "phs = phdrs_at b pa (Suc i) ?n"
    using Cons.prems(2) upt_conv_Cons [OF i] by (simp_all add: phdrs_at_def del: upt_Suc)
  obtain hs where pk: "peek raw 52 v = Some hs" "ehdr_of hs = hdr_at b raw"
    using peek_same [OF Cons.prems(3), of raw 52 b] Cons.prems(4) h(1) unfolding hdr_at_def by blast
  have sub: "hdr_addrs (pa + 32 * of_nat i) 32 \<subseteq> hdr_addrs pa (32 * ?n)" using hdr_addrs_sub [of "32 * i" 32 "32 * ?n" pa] i by simp
  obtain bs where pk2: "peek (pa + 32 * of_nat i) 32 v = Some bs" "phdr_of bs = ph"
    using peek_same [OF Cons.prems(3), of "pa + 32 * of_nat i" 32 b] Cons.prems(4) h(2) sub unfolding ph(1) phdr_at_def by blast
  have u16: "unat (of_nat i :: u16) = i" using i n16 by (simp add: unat_of_nat take_bit_eq_mod)
  have ui: "ucast (of_nat i :: u16) = (of_nat i :: u32)" using u16 by (metis of_nat_unat)
  have le: "\<not> e_phnum (hdr_at b raw) \<le> of_nat i" using i u16 by (simp add: word_le_nat_alt)
  have step: "elf_segments sv raw pa (of_nat i) v = (if p_type ph = PT_LOAD then do { (r, v1) \<leftarrow> sv_allocpgs sv (p_vaddr ph) (p_memsz ph) 7 v;
      v2 \<leftarrow> k_copy sv (p_vaddr ph) (raw + p_offset ph) (p_memsz ph) v1; elf_segments sv raw pa (of_nat (Suc i)) v2 }
      else elf_segments sv raw pa (of_nat (Suc i)) v)"
    by (subst elf_segments.simps) (use pk pk2 sv(1) ui le in \<open>simp add: Let_def case_prod_unfold add.commute [of "of_nat i" 1]\<close>)
  have ok: "seg_ok ph" "seg_addrs raw ph \<subseteq> R" "\<forall>k \<in> seg_pages ph. k \<in> W \<or> free_page v k" "\<forall>x \<in> R. \<not> loads ph x" using Cons.prems(5) by simp_all
  have W': "W \<union> prog_pages (ph # phs) = W \<union> seg_pages ph \<union> prog_pages phs" by (auto simp: prog_pages_def)
  have i': "Suc i \<le> ?n" using i by simp
  show ?case
  proof (cases "p_type ph = PT_LOAD")
    case False
    have nl: "\<not> loads ph x" for x using False by (simp add: loads_def)
    have rest: "\<forall>ph \<in> set phs. seg_ok ph \<and> seg_addrs raw ph \<subseteq> R \<and> (\<forall>k \<in> seg_pages ph. k \<in> W \<or> free_page v k) \<and> (\<forall>x \<in> R. \<not> loads ph x)"
      "seg_need phs \<le> room v" using Cons.prems(5,6) False by (simp_all add: seg_need_def)
    have eq: "seg_pages ph = {}" "elf_byte b raw (ph # phs) x = elf_byte b raw phs x" "prog_pages (ph # phs) = prog_pages phs"
      "seg_need (ph # phs) = seg_need phs" for x using False nl by (simp_all add: seg_pages_def prog_pages_def seg_need_def split: option.splits)
    show ?thesis unfolding step eq using Cons.IH [OF i' ph(2) Cons.prems(3,4) rest] False by simp
  next
    case True
    have rm: "2 * pages_of (p_memsz ph) \<le> room v" "seg_need (ph # phs) = 2 * pages_of (p_memsz ph) + seg_need phs"
      using Cons.prems(6) True by (simp_all add: seg_need_def)
    have src: "\<forall>x \<in> seg_addrs raw ph. page x \<in> W" using ok(2) Cons.prems(4) by blast
    obtain v1 v2 where v2: "sv_allocpgs sv (p_vaddr ph) (p_memsz ph) 7 v = Some (p_vaddr ph, v1)" "k_copy sv (p_vaddr ph) (raw + p_offset ph) (p_memsz ph) v1 = Some v2"
      "own (W \<union> seg_pages ph) v2" "room v - 2 * pages_of (p_memsz ph) \<le> room v2" "\<forall>k < 2 ^ 20. k \<notin> seg_pages ph \<longrightarrow> free_page v2 k = free_page v k"
      "\<forall>x. loads ph x \<longrightarrow> byte v2 x = byte v (raw + p_offset ph + (x - p_vaddr ph))" "\<forall>x. page x \<in> W \<and> \<not> loads ph x \<longrightarrow> byte v2 x = byte v x"
      using copy_segment [OF sv Cons.prems(3) True ok(1,3) rm(1) src] by blast
    have run: "elf_segments sv raw pa (of_nat i) v = elf_segments sv raw pa (of_nat (Suc i)) v2" using v2(1,2) True unfolding step by simp
    have R: "\<forall>x \<in> R. page x \<in> W \<union> seg_pages ph \<and> byte v2 x = b x" using Cons.prems(4) ok(4) v2(7) by simp
    have rest: "\<forall>q \<in> set phs. seg_ok q \<and> seg_addrs raw q \<subseteq> R \<and> (\<forall>k \<in> seg_pages q. k \<in> W \<union> seg_pages ph \<or> free_page v2 k) \<and> (\<forall>x \<in> R. \<not> loads q x)"
    proof (intro ballI conjI)
      fix q assume q: "q \<in> set phs"
      then show "seg_ok q" "seg_addrs raw q \<subseteq> R" and "\<And>x. x \<in> R \<Longrightarrow> \<not> loads q x" using Cons.prems(5) by simp_all
      fix k assume k: "k \<in> seg_pages q"
      have "k < 2 ^ 20" using k \<open>seg_ok q\<close> by (auto simp: seg_pages_def pages_at_def seg_ok_def split: if_splits)
      then show "k \<in> W \<union> seg_pages ph \<or> free_page v2 k" using Cons.prems(5) q k v2(5) by (metis UnI1 UnI2 list.set_intros(2))
    qed
    have nd: "seg_need phs \<le> room v2" using Cons.prems(6) v2(4) unfolding rm(2) by simp
    obtain v' where v': "elf_segments sv raw pa (of_nat (Suc i)) v2 = Some v'" "own (W \<union> seg_pages ph \<union> prog_pages phs) v'" "\<forall>x \<in> R. byte v' x = b x"
      "\<forall>x w. elf_byte b raw phs x = Some w \<longrightarrow> byte v' x = w" "\<forall>x. page x \<in> W \<union> seg_pages ph \<and> elf_byte b raw phs x = None \<longrightarrow> byte v' x = byte v2 x"
      "room v2 - seg_need phs \<le> room v'" "\<forall>k < 2 ^ 20. k \<notin> prog_pages phs \<longrightarrow> free_page v' k = free_page v2 k"
      using Cons.IH [OF i' ph(2) v2(3) R rest nd] by blast
    have b2: "byte v2 x = b (raw + p_offset ph + (x - p_vaddr ph))" if x: "loads ph x" for x
    proof -
      have "raw + p_offset ph + (x - p_vaddr ph) \<in> hdr_addrs (raw + p_offset ph) (unat (p_memsz ph))"
        unfolding hdr_addrs_def using x by (intro image_eqI [where x = "unat (x - p_vaddr ph)"]) (simp_all add: loads_def)
      then have "raw + p_offset ph + (x - p_vaddr ph) \<in> seg_addrs raw ph" using True by (simp add: seg_addrs_def)
      then have "byte v (raw + p_offset ph + (x - p_vaddr ph)) = b (raw + p_offset ph + (x - p_vaddr ph))" using ok(2) Cons.prems(4) by blast
      then show ?thesis using v2(6) x by simp
    qed
    have e: "byte v' x = w" if w: "elf_byte b raw (ph # phs) x = Some w" for x w
    proof (cases "elf_byte b raw phs x")
      case None
      then have "loads ph x" "w = b (raw + p_offset ph + (x - p_vaddr ph))" using w by (simp_all split: if_splits)
      then show ?thesis using v'(5) None seg_loads [OF ok(1)] b2 by simp
    qed (use w v'(4) in simp)
    have n: "byte v' x = byte v x" if x: "page x \<in> W" "elf_byte b raw (ph # phs) x = None" for x
      using x v'(5) v2(7) by (simp split: option.splits if_splits)
    have rv: "room v - seg_need (ph # phs) \<le> room v'" using v'(6) v2(4) unfolding rm(2) by simp
    have fp: "\<forall>k < 2 ^ 20. k \<notin> prog_pages (ph # phs) \<longrightarrow> free_page v' k = free_page v k"
    proof (intro allI impI)
      fix k :: nat assume k: "k < 2 ^ 20" "k \<notin> prog_pages (ph # phs)"
      then have "k \<notin> prog_pages phs" "k \<notin> seg_pages ph" by (auto simp: prog_pages_def)
      then show "free_page v' k = free_page v k" using v'(7) v2(5) k(1) by metis
    qed
    show ?thesis unfolding W' run using v'(1-3) rv fp e n by blast
  qed
qed

lemma program_loaded:
  assumes sv: "sv_peek sv = peek" "sv_poke sv = poke" "\<And>a n. sv_allocpgs sv a n 7 = alloc a n"
    and o: "own W v" and f: "f_data_start fl = raw" "raw \<noteq> 0" "f_size fl \<noteq> 0" and hd: "elf_header_ok (hdr_at (byte v) raw)"
    and rd: "\<forall>x \<in> elf_reads (byte v) raw. page x \<in> W \<and> (\<forall>ph \<in> set (file_phdrs (byte v) raw). \<not> loads ph x)"
    and sg: "\<forall>ph \<in> set (file_phdrs (byte v) raw). seg_ok ph \<and> (\<forall>k \<in> seg_pages ph. k \<in> W \<or> free_page v k)"
    and rm: "seg_need (file_phdrs (byte v) raw) \<le> room v"
  shows "\<exists>v'. modit_elf_load sv fl v = Some (e_entry (hdr_at (byte v) raw), v') \<and> own (W \<union> prog_pages (file_phdrs (byte v) raw)) v' \<and>
    room v - seg_need (file_phdrs (byte v) raw) \<le> room v' \<and>
    (\<forall>k < 2 ^ 20. k \<notin> prog_pages (file_phdrs (byte v) raw) \<longrightarrow> free_page v' k = free_page v k) \<and>
    (\<forall>x w. elf_byte (byte v) raw (file_phdrs (byte v) raw) x = Some w \<longrightarrow> byte v' x = w) \<and>
    (\<forall>x. page x \<in> W \<and> elf_byte (byte v) raw (file_phdrs (byte v) raw) x = None \<longrightarrow> byte v' x = byte v x)"
proof -
  let ?b = "byte v" and ?R = "elf_reads (byte v) raw" and ?phs = "file_phdrs (byte v) raw" and ?pa = "raw + e_phoff (hdr_at (byte v) raw)"
  have h: "hdr_addrs raw 52 \<subseteq> ?R" "hdr_addrs ?pa (32 * unat (e_phnum (hdr_at ?b raw))) \<subseteq> ?R" by (auto simp: elf_reads_def)
  have R: "\<forall>x \<in> ?R. page x \<in> W \<and> byte v x = ?b x" using rd by blast
  have ok: "\<forall>ph \<in> set ?phs. seg_ok ph \<and> seg_addrs raw ph \<subseteq> ?R \<and> (\<forall>k \<in> seg_pages ph. k \<in> W \<or> free_page v k) \<and> (\<forall>x \<in> ?R. \<not> loads ph x)"
    using sg rd by (auto simp: elf_reads_def)
  obtain v' where v': "elf_segments sv raw ?pa 0 v = Some v'" "own (W \<union> prog_pages ?phs) v'" "\<forall>x \<in> ?R. byte v' x = ?b x"
    "\<forall>x w. elf_byte ?b raw ?phs x = Some w \<longrightarrow> byte v' x = w" "\<forall>x. page x \<in> W \<and> elf_byte ?b raw ?phs x = None \<longrightarrow> byte v' x = byte v x"
    "room v - seg_need ?phs \<le> room v'" "\<forall>k < 2 ^ 20. k \<notin> prog_pages ?phs \<longrightarrow> free_page v' k = free_page v k"
    using segments_loaded [OF sv h _ _ o R ok rm, of 0] by (auto simp: file_phdrs_def)
  obtain hs where hs: "peek raw 52 v = Some hs" "ehdr_of hs = hdr_at ?b raw" using peek_same [OF o, of raw 52 ?b] R h(1) unfolding hdr_at_def by blast
  have "\<forall>x \<in> hdr_addrs raw 52. page x \<in> W \<union> prog_pages ?phs \<and> byte v' x = ?b x" using R v'(3) h(1) by blast
  from peek_same [OF v'(2) this] obtain hs' where hs': "peek raw 52 v' = Some hs'" "ehdr_of hs' = hdr_at ?b raw" unfolding hdr_at_def by blast
  have "modit_elf_load sv fl v = Some (e_entry (hdr_at ?b raw), v')"
    using f hs hs' hd v'(1) sv(1) by (simp add: modit_elf_load_def Let_def elf_header_ok_def)
  then show ?thesis using v'(2,4-7) by blast
qed

end

subsection \<open>On the pager\<close>

text \<open>The memory of the kernel is what the pager maps, on the model of the frame allocator.\<close>

definition pager_memory :: "('h, pmm vmm) services \<Rightarrow> bool" where
  "pager_memory sv \<longleftrightarrow> sv_peek sv = vm_peek i386_layout \<and> sv_poke sv = vm_poke i386_layout \<and> sv_allocpgs sv = allocpgs i386_layout bm_getpg bm_freepg"

lemma vm_own_read: "vm_own P W v \<Longrightarrow> page x \<in> W \<Longrightarrow> vm_read P v x = Some (byte_at P v x)"
  using owns_read unfolding vm_own_def by blast

lemma elf_byte_page: "\<forall>ph \<in> set phs. seg_ok ph \<Longrightarrow> elf_byte b raw phs x = Some w \<Longrightarrow> page x \<in> prog_pages phs"
proof -
  assume ok: "\<forall>ph \<in> set phs. seg_ok ph" and "elf_byte b raw phs x = Some w"
  then obtain ph where "ph \<in> set phs" "loads ph x" using elf_byte_Some by blast
  then show "page x \<in> prog_pages phs" using seg_loads [of ph x] ok by (auto simp: prog_pages_def)
qed

end
