(* ===== verification/Start_Props.thy ===== *)
theory Start_Props
  imports Elf_Props User Tasking_Props
begin

text \<open>
  The start of a process: \<^verbatim>\<open>_user_spawn_second_half\<close>, the first code of its task, loads the program, makes the stack and copies the
  arguments onto it before it enters user mode.
\<close>

text \<open>The pages of the stack of a process.\<close>

definition stack_pages :: "nat set" where
  "stack_pages = {0xCFFFC..<0xD0000}"

text \<open>The bytes of arguments: none if the pointer or the size is 0.\<close>

definition args_size :: "addr \<Rightarrow> u32 \<Rightarrow> u32" where
  "args_size d n = (if d \<noteq> 0 \<and> n \<noteq> 0 then n else 0)"

lemma stack_pages_at: "pages_at 0xCFFFC000 0x4000 = stack_pages"
  by (simp add: pages_at_def pages_of_def stack_pages_def)

lemma stack_page:
  assumes "unat n \<le> 0x4000" and "i < unat n"
  shows "page (0xD0000000 - n + of_nat i) \<in> stack_pages"
proof -
  have "unat (0xD0000000 - n) = 0xD0000000 - unat n" using assms(1) by (subst unat_sub) (simp_all add: word_le_nat_alt)
  moreover have "unat (of_nat i :: u32) = i" using assms by (intro u32_of_nat) simp
  ultimately have u: "unat (0xD0000000 - n + of_nat i) = 0xD0000000 - unat n + i" using assms by (subst unat_add_lem [THEN iffD1]) simp_all
  have b: "0xCFFFC000 \<le> 0xD0000000 - unat n + i" "0xD0000000 - unat n + i < 0xD0000000" using assms by linarith+
  have "0xCFFFC000 div 4096 \<le> (0xD0000000 - unat n + i) div 4096" using b(1) by (rule div_le_mono)
  moreover have "(0xD0000000 - unat n + i) div 4096 < 0xD0000" using b(2) by (simp add: div_less_iff_less_mult)
  ultimately show ?thesis unfolding stack_pages_def u by simp
qed

lemma stack_range: "unat n \<le> 0x4000 \<Longrightarrow> unat (x - (0xD0000000 - n)) < unat n \<Longrightarrow> page x \<in> stack_pages"
  using stack_page [of n "unat (x - (0xD0000000 - n))"] by simp

context address_space
begin

lemma stack_made:
  assumes sv: "sv_peek sv = peek" "sv_poke sv = poke" "\<And>a n. sv_allocpgs sv a n 7 = alloc a n"
    and o: "own W v" and fr: "\<forall>k \<in> stack_pages. k \<notin> W \<and> free_page v k" and rm: "8 \<le> room v"
    and n: "unat (args_size d m) \<le> 0x4000" and src: "\<forall>i < unat (args_size d m). page (d + of_nat i) \<in> W"
  shows "\<exists>v1 v2. sv_allocpgs sv 0xCFFFC000 0x4000 7 v = Some (0xCFFFC000, v1) \<and>
    (if d \<noteq> 0 \<and> m \<noteq> 0 then k_copy sv (0xD0000000 - m) d m v1 = Some v2 else v2 = v1) \<and> own (W \<union> stack_pages) v2 \<and>
    (\<forall>i < unat (args_size d m). byte v2 (0xD0000000 - args_size d m + of_nat i) = byte v (d + of_nat i)) \<and> (\<forall>x. page x \<in> W \<longrightarrow> byte v2 x = byte v x)"
proof -
  have p4: "pages_of 0x4000 = 4" by (simp add: pages_of_def)
  have a: "page 0xCFFFC000 + pages_of 0x4000 \<le> 1023 * 1024" "2 * pages_of 0x4000 \<le> room v" using rm by (simp_all add: p4)
  obtain v1 where v1: "alloc 0xCFFFC000 0x4000 v = Some (0xCFFFC000, v1)" "own (W \<union> stack_pages) v1" "\<forall>x. page x \<in> W \<longrightarrow> byte v1 x = byte v x"
    using alloc_ok [OF o a(1) _ a(2)] fr unfolding stack_pages_at by blast
  show ?thesis
  proof (cases "d \<noteq> 0 \<and> m \<noteq> 0")
    case False
    then show ?thesis using v1 sv(3) by (intro exI [of _ v1]) (auto simp: args_size_def)
  next
    case True
    let ?ws = "map (\<lambda>i. byte v1 (d + of_nat i)) [0..<unat m]"
    have m: "args_size d m = m" "unat m \<le> 0x4000" using True n by (simp_all add: args_size_def)
    have W: "page (d + of_nat i) \<in> W" if "i < unat m" for i using src that m(1) by simp
    have pk: "peek d (unat m) v1 = Some ?ws" using W by (intro peek_ok [OF v1(2)]) simp
    have in_stk: "page (0xD0000000 - m + of_nat i) \<in> W \<union> stack_pages" if "i < length ?ws" for i using stack_page [OF m(2)] that by simp
    have ln: "length ?ws < 2 ^ 32" using m(2) by simp
    obtain v2 where v2: "poke (0xD0000000 - m) ?ws v1 = Some v2" "own (W \<union> stack_pages) v2"
      "\<forall>x. page x \<in> W \<union> stack_pages \<longrightarrow> byte v2 x = (if unat (x - (0xD0000000 - m)) < length ?ws then ?ws ! unat (x - (0xD0000000 - m)) else byte v1 x)"
      using poke_ok [OF v1(2) in_stk ln] by blast
    have new: "byte v2 (0xD0000000 - m + of_nat i) = byte v (d + of_nat i)" if i: "i < unat m" for i
    proof -
      have "unat (of_nat i :: u32) = i" using i m(2) by (intro u32_of_nat) simp
      moreover have "page (0xD0000000 - m + of_nat i) \<in> W \<union> stack_pages" using in_stk [of i] i by simp
      note v2(3) [rule_format, OF this]
      ultimately show ?thesis using i v1(3) W [OF i] by simp
    qed
    have old: "byte v2 x = byte v x" if x: "page x \<in> W" for x
      using v2(3) v1(3) x stack_range [OF m(2), of x] fr by auto
    have cp: "k_copy sv (0xD0000000 - m) d m v1 = Some v2" using pk v2(1) sv(1,2) by (simp add: k_copy_def)
    show ?thesis unfolding m(1) using True v1(1) sv(3) cp v2(2) new old by (intro exI [of _ v1] exI [of _ v2]) simp
  qed
qed

lemma process_started:
  assumes sv: "sv_peek sv = peek" "sv_poke sv = poke" "\<And>a n. sv_allocpgs sv a n 7 = alloc a n"
    and s: "load (k_files s) fp = Some fl" "k_vm s = v"
    and o: "own W v" and f: "f_data_start fl = raw" "raw \<noteq> 0" "f_size fl \<noteq> 0" and hd: "elf_header_ok (hdr_at (byte v) raw)"
    and rd: "\<forall>x \<in> elf_reads (byte v) raw. page x \<in> W \<and> (\<forall>ph \<in> set (file_phdrs (byte v) raw). \<not> loads ph x)"
    and sg: "\<forall>ph \<in> set (file_phdrs (byte v) raw). seg_ok ph \<and> (\<forall>k \<in> seg_pages ph. k \<in> W \<or> free_page v k)"
    and rm: "seg_need (file_phdrs (byte v) raw) + 8 \<le> room v"
    and fr: "\<forall>k \<in> stack_pages. k \<notin> W \<and> k \<notin> prog_pages (file_phdrs (byte v) raw) \<and> free_page v k"
    and ar: "unat (args_size d m) \<le> 0x4000"
      "\<forall>i < unat (args_size d m). page (d + of_nat i) \<in> W \<and> elf_byte (byte v) raw (file_phdrs (byte v) raw) (d + of_nat i) = None"
  shows "\<exists>v'. user_spawn_second_half sv fp d m s = Some ((e_entry (hdr_at (byte v) raw), 0xD0000000 - args_size d m), s\<lparr>k_vm := v'\<rparr>) \<and>
    own (W \<union> prog_pages (file_phdrs (byte v) raw) \<union> stack_pages) v' \<and>
    (\<forall>x w. elf_byte (byte v) raw (file_phdrs (byte v) raw) x = Some w \<longrightarrow> byte v' x = w) \<and>
    (\<forall>i < unat (args_size d m). byte v' (0xD0000000 - args_size d m + of_nat i) = byte v (d + of_nat i)) \<and>
    (\<forall>x. page x \<in> W \<and> elf_byte (byte v) raw (file_phdrs (byte v) raw) x = None \<longrightarrow> byte v' x = byte v x)"
proof -
  let ?phs = "file_phdrs (byte v) raw" and ?n = "args_size d m"
  have rm1: "seg_need ?phs \<le> room v" using rm by simp
  obtain v1 where v1: "modit_elf_load sv fl v = Some (e_entry (hdr_at (byte v) raw), v1)" "own (W \<union> prog_pages ?phs) v1" "room v - seg_need ?phs \<le> room v1"
    "\<forall>k < 2 ^ 20. k \<notin> prog_pages ?phs \<longrightarrow> free_page v1 k = free_page v k" "\<forall>x w. elf_byte (byte v) raw ?phs x = Some w \<longrightarrow> byte v1 x = w"
    "\<forall>x. page x \<in> W \<and> elf_byte (byte v) raw ?phs x = None \<longrightarrow> byte v1 x = byte v x"
    using program_loaded [OF sv o f hd rd sg rm1] by blast
  have fr1: "\<forall>k \<in> stack_pages. k \<notin> W \<union> prog_pages ?phs \<and> free_page v1 k"
  proof
    fix k assume k: "k \<in> stack_pages"
    then have "k < 2 ^ 20" by (simp add: stack_pages_def)
    then show "k \<notin> W \<union> prog_pages ?phs \<and> free_page v1 k" using fr k v1(4) by blast
  qed
  have rm2: "8 \<le> room v1" using rm v1(3) by simp
  have src: "\<forall>i < unat ?n. page (d + of_nat i) \<in> W \<union> prog_pages ?phs" using ar(2) by blast
  obtain v2 v3 where v3: "sv_allocpgs sv 0xCFFFC000 0x4000 7 v1 = Some (0xCFFFC000, v2)"
    "if d \<noteq> 0 \<and> m \<noteq> 0 then k_copy sv (0xD0000000 - m) d m v2 = Some v3 else v3 = v2" "own (W \<union> prog_pages ?phs \<union> stack_pages) v3"
    "\<forall>i < unat ?n. byte v3 (0xD0000000 - ?n + of_nat i) = byte v1 (d + of_nat i)" "\<forall>x. page x \<in> W \<union> prog_pages ?phs \<longrightarrow> byte v3 x = byte v1 x"
    using stack_made [OF sv v1(2) fr1 rm2 ar(1) src] by blast
  have run: "user_spawn_second_half sv fp d m s = Some ((e_entry (hdr_at (byte v) raw), 0xD0000000 - ?n), s\<lparr>k_vm := v3\<rparr>)"
    using s v1(1) v3(1,2) by (simp add: user_spawn_second_half_def Let_def args_size_def)
  have eb: "byte v3 x = w" if "elf_byte (byte v) raw ?phs x = Some w" for x w
  proof -
    have "page x \<in> prog_pages ?phs" using elf_byte_page [OF _ that] sg by blast
    then show ?thesis using v3(5) v1(5) that by blast
  qed
  have st: "byte v3 (0xD0000000 - ?n + of_nat i) = byte v (d + of_nat i)" if "i < unat ?n" for i using v3(4) v1(6) ar(2) that by simp
  have old: "byte v3 x = byte v x" if "page x \<in> W \<and> elf_byte (byte v) raw ?phs x = None" for x using v3(5) v1(6) that by simp
  show ?thesis using run v3(3) eb st old by blast
qed

end

subsection \<open>Property\<close>

text \<open>
  C12 (functional): the first code of a new process, on the pager and the frame allocator. If the file is an executable for this processor,
  what is read of it lies in pages \<open>W\<close> in use that no segment overwrites, the pages of the segments are free or in use and
  those of the stack are free and hold no segment, no segment ends behind the pages that are asked for it, and there are
  frames enough, then the process enters user mode at the entry point, with the arguments at the end of its
  stack: every address of a segment reads as the byte of the file that belongs there (the whole \<^verbatim>\<open>p_memsz\<close> bytes come from the file, also those
  behind \<^verbatim>\<open>p_filesz\<close> that should be 0), the stack pointer leads to a copy of the arguments, and the other bytes of \<open>W\<close> stay.
\<close>

theorem spawned_process_starts:
  assumes "pager_memory sv" and "load (k_files s) fp = Some fl" and "vm_own i386_layout W (k_vm s)" and "b = byte_at i386_layout (k_vm s)"
    and "f_data_start fl = raw" "raw \<noteq> 0" "f_size fl \<noteq> 0" "elf_header_ok (hdr_at b raw)" and "phs = file_phdrs b raw"
    and "\<forall>x \<in> elf_reads b raw. page x \<in> W \<and> (\<forall>ph \<in> set phs. \<not> loads ph x)"
    and "\<forall>ph \<in> set phs. seg_ok ph \<and> (\<forall>k \<in> seg_pages ph. k \<in> W \<or> vm_free i386_layout (k_vm s) k)"
    and "seg_need phs + 8 \<le> vm_room (k_vm s)"
    and "\<forall>k \<in> stack_pages. k \<notin> W \<and> k \<notin> prog_pages phs \<and> vm_free i386_layout (k_vm s) k"
    and "unat (args_size d m) \<le> 0x4000" "\<forall>i < unat (args_size d m). page (d + of_nat i) \<in> W \<and> elf_byte b raw phs (d + of_nat i) = None"
  shows "\<exists>v'. user_spawn_second_half sv fp d m s = Some ((e_entry (hdr_at b raw), 0xD0000000 - args_size d m), s\<lparr>k_vm := v'\<rparr>) \<and>
    vm_own i386_layout (W \<union> prog_pages phs \<union> stack_pages) v' \<and>
    (\<forall>x w. elf_byte b raw phs x = Some w \<longrightarrow> vm_read i386_layout v' x = Some w) \<and>
    (\<forall>i < unat (args_size d m). vm_read i386_layout v' (0xD0000000 - args_size d m + of_nat i) = vm_read i386_layout (k_vm s) (d + of_nat i)) \<and>
    (\<forall>x. page x \<in> W \<and> elf_byte b raw phs x = None \<longrightarrow> vm_read i386_layout v' x = vm_read i386_layout (k_vm s) x)"
proof -
  have sv: "sv_peek sv = vm_peek i386_layout" "sv_poke sv = vm_poke i386_layout" "\<And>a n. sv_allocpgs sv a n 7 = allocpgs i386_layout bm_getpg bm_freepg a n 7"
    using assms(1) by (simp_all add: pager_memory_def)
  from vm.process_started [OF sv assms(2) refl assms(3,5-7) assms(8,10-15) [unfolded assms(9) assms(4)], folded assms(4), folded assms(9)] obtain v' where
    v': "user_spawn_second_half sv fp d m s = Some ((e_entry (hdr_at b raw), 0xD0000000 - args_size d m), s\<lparr>k_vm := v'\<rparr>)"
    "vm_own i386_layout (W \<union> prog_pages phs \<union> stack_pages) v'" "\<forall>x w. elf_byte b raw phs x = Some w \<longrightarrow> byte_at i386_layout v' x = w"
    "\<forall>i < unat (args_size d m). byte_at i386_layout v' (0xD0000000 - args_size d m + of_nat i) = b (d + of_nat i)"
    "\<forall>x. page x \<in> W \<and> elf_byte b raw phs x = None \<longrightarrow> byte_at i386_layout v' x = b x" by blast
  note rd = vm_own_read [OF v'(2)] and rd0 = vm_own_read [OF assms(3)]
  have "vm_read i386_layout v' x = Some w" if "elf_byte b raw phs x = Some w" for x w
    using rd [of x] elf_byte_page [OF _ that] assms(11) v'(3) that by blast
  moreover have "vm_read i386_layout v' (0xD0000000 - args_size d m + of_nat i) = vm_read i386_layout (k_vm s) (d + of_nat i)"
    if i: "i < unat (args_size d m)" for i
    using rd stack_page [OF assms(14) i] rd0 assms(15) v'(4) i unfolding assms(4) by simp
  moreover have "vm_read i386_layout v' x = vm_read i386_layout (k_vm s) x" if "page x \<in> W \<and> elf_byte b raw phs x = None" for x
    using rd [of x] rd0 [of x] v'(5) that unfolding assms(4) by simp
  ultimately show ?thesis using v'(1,2) by blast
qed

text \<open>
  A program of four bytes, at 0x400000, in a file in the page 16; it is the only page mapped. The frames 5 to 23 are free.
\<close>

definition demo_elf :: "u8 list" where
  "demo_elf = [0x7F, 0x45, 0x4C, 0x46, 1, 1, 1, 0, 0, 0, 0, 0, 0, 0, 0, 0, 2, 0, 3, 0, 1, 0, 0, 0, 0, 0, 0x40, 0, 52, 0, 0, 0,
     0, 0, 0, 0, 0, 0, 0, 0, 52, 0, 32, 0, 1, 0, 0, 0, 0, 0, 0, 0,
     1, 0, 0, 0, 84, 0, 0, 0, 0, 0, 0x40, 0, 0, 0, 0, 0, 4, 0, 0, 0, 4, 0, 0, 0, 5, 0, 0, 0, 0, 0x10, 0, 0,
     0xEB, 0xFE, 0x90, 0x90] @ replicate 4008 0"

definition demo_elf_dir :: page_dir where
  "demo_elf_dir = \<lparr>pd_tables = (replicate 1024 0)[0 := 0xFFC00000], pd_entries = (replicate 1024 0)[0 := 0x1007], pd_phys = 0x4000\<rparr>"

definition demo_elf_pmm :: pmm where
  "demo_elf_pmm = \<lparr>bitmap = [mask 5 OR push_bit 24 (mask 8)], mapsize = 0x18000, pages_free = 19, pages_taken = 5, pages_total = 24, last_free = 0\<rparr>"

definition demo_elf_vm :: "pmm vmm" where
  "demo_elf_vm = \<lparr>vm_dirs = [0x100 \<mapsto> demo_elf_dir], vm_cur = 0x100, vm_tabs = [0x1000 \<mapsto> (replicate 1024 0)[16 := 0x3007]],
    vm_data = (\<lambda>fr. Some (if fr = 0x3000 then demo_elf else replicate 4096 0)), vm_frames = demo_elf_pmm\<rparr>"

definition demo_pager_sv :: "(kheap, pmm vmm) services" where
  "demo_pager_sv = \<lparr>sv_alloc = kalloc, sv_alloc_a = (\<lambda>a n. kalloc_a n a), sv_free = kfree, sv_curdir = vm_cur,
    sv_swpdir = (\<lambda>d s. Some (s\<lparr>vm_cur := d\<rparr>)), sv_clonedir = (\<lambda>d s. None), sv_remappg = remappg i386_layout bm_getpg,
    sv_mappg = mappg i386_layout bm_getpg, sv_allocpgs = allocpgs i386_layout bm_getpg bm_freepg, sv_freepgs = freepgs i386_layout bm_getpg bm_freepg,
    sv_getphys = (\<lambda>a s. 0), sv_resvpg = (\<lambda>a s. None), sv_peek = vm_peek i386_layout, sv_poke = vm_poke i386_layout, sv_str = (\<lambda>a s. None), sv_initrd = []\<rparr>"

lemma demo_elf_bits: "i < 32 \<Longrightarrow> bm_bit demo_elf_pmm i \<longleftrightarrow> i < 5 \<or> 24 \<le> i"
  by (auto simp: demo_elf_pmm_def bm_bit_def bit_simps)

lemma demo_elf_taken: "taken demo_elf_pmm = {..<5}"
proof -
  have "taken demo_elf_pmm = {i. i < 24 \<and> (i < 5 \<or> 24 \<le> i)}" using demo_elf_bits by (auto simp: taken_def) (auto simp: demo_elf_pmm_def)
  also have "\<dots> = {..<5}" by auto
  finally show ?thesis .
qed

lemma demo_elf_pmm_ok: "pmm_ok demo_elf_pmm"
proof -
  have "pmm_inv demo_elf_pmm" using demo_elf_taken by (simp add: pmm_inv_def demo_elf_pmm_def)
  moreover have "hint_ok demo_elf_pmm" using demo_elf_bits by (auto simp: hint_ok_def demo_elf_pmm_def)
  ultimately show ?thesis by (simp add: pmm_ok_def)
qed

lemma demo_elf_at: "table_at i386_layout demo_elf_dir i fr \<longleftrightarrow> i = 0 \<and> fr = 0x1000"
  by (auto simp: table_at_def i386_layout_def demo_elf_dir_def nth_list_update)

lemma demo_elf_ok: "vm_ok i386_layout demo_elf_vm demo_elf_dir"
  unfolding vm_ok_def demo_elf_at by (auto simp: demo_elf_vm_def demo_elf_dir_def)

lemma demo_elf_walk: "page x = 16 \<Longrightarrow> walk i386_layout demo_elf_vm x = Some 0x3007" "dindex x \<noteq> 0 \<Longrightarrow>  walk i386_layout demo_elf_vm x = Some 0"
proof -
  assume "page x = 16"
  then have d: "dindex x = 0" "tindex x = 16" using page_split [of x] by simp_all
  have "table_at i386_layout demo_elf_dir (dindex x) 0x1000" by (simp add: demo_elf_at d)
  from walk_present [OF demo_elf_ok this] show "walk i386_layout demo_elf_vm x = Some 0x3007" by (simp add: demo_elf_vm_def d)
next
  assume "dindex x \<noteq> 0"
  then have "\<not> pg_present i386_layout (pd_entries demo_elf_dir ! dindex x)" by (simp add: i386_layout_def demo_elf_dir_def dindex_less)
  then show "walk i386_layout demo_elf_vm x = Some 0" by (rule walk_absent [OF demo_elf_ok])
qed

lemma demo_elf_length: "length demo_elf = 4096"
  by (simp add: demo_elf_def)

lemma demo_elf_own: "vm_own i386_layout {16} demo_elf_vm"
proof -
  have fr: "vm_frames demo_elf_vm = demo_elf_pmm" by (simp add: demo_elf_vm_def)
  have "page (frame_addr 16) = 16" by (rule page_frame_addr) simp
  then have w: "walk i386_layout demo_elf_vm (frame_addr 16) = Some 0x3007" by (rule demo_elf_walk)
  have pg: "page_ok i386_layout {..<5} demo_elf_vm demo_elf_dir 16"
    unfolding page_ok_def w demo_elf_at
    by (intro exI [of _ "0x3007"] exI [of _ demo_elf]) (simp add: i386_layout_def demo_elf_vm_def demo_elf_length)
  have "owns i386_layout (taken demo_elf_pmm) (unat (pages_total demo_elf_pmm)) {16} demo_elf_vm demo_elf_dir"
    unfolding owns_def demo_elf_taken demo_elf_at using pg demo_elf_ok by (simp add: demo_elf_vm_def demo_elf_length)
  then show ?thesis using demo_elf_pmm_ok unfolding vm_own_def fr by blast
qed

lemma demo_elf_addr:
  assumes "j < 4096"
  shows "page (0x10000 + of_nat j) = 16" and "byte_at i386_layout demo_elf_vm (0x10000 + of_nat j) = demo_elf ! j"
proof -
  have "unat (of_nat j :: u32) = j" using assms by (intro u32_of_nat) simp
  then have u: "unat (0x10000 + of_nat j :: u32) = 0x10000 + j" using assms by (subst unat_add_lem [THEN iffD1]) simp_all
  show p: "page (0x10000 + of_nat j) = 16" unfolding u using assms by simp
  show "byte_at i386_layout demo_elf_vm (0x10000 + of_nat j) = demo_elf ! j"
  proof -
    have "0x10000 + j = j + 4096 * 16" by simp
    then have "(0x10000 + j) mod 4096 = j" using assms by (simp only: mod_mult_self2 mod_less)
    then show ?thesis unfolding byte_at_def demo_elf_walk(1) [OF p] u by (simp add: demo_elf_vm_def)
  qed
qed

lemma demo_elf_bytes: "m \<le> 4096 \<Longrightarrow> map (\<lambda>i. byte_at i386_layout demo_elf_vm (0x10000 + of_nat i)) [0..<m] = take m demo_elf"
  by (rule nth_equalityI) (simp_all add: demo_elf_addr demo_elf_length)

lemma demo_elf_hdr: "e_entry (hdr_at (byte_at i386_layout demo_elf_vm) 0x10000) = 0x400000"
  "e_phoff (hdr_at (byte_at i386_layout demo_elf_vm) 0x10000) = 52" "e_phnum (hdr_at (byte_at i386_layout demo_elf_vm) 0x10000) = 1"
  "elf_header_ok (hdr_at (byte_at i386_layout demo_elf_vm) 0x10000)"
  using demo_elf_bytes [of 52] by (simp_all add: hdr_at_def ehdr_of_def demo_elf_def le32_def le16_def elf_header_ok_def ELF_CHKHDR_def ET_EXEC_def EM_386_def
      EV_NONE_def ELFCLASS32_def)

lemma demo_elf_phdrs: "file_phdrs (byte_at i386_layout demo_elf_vm) 0x10000 =
    [\<lparr>p_type = PT_LOAD, p_offset = 84, p_vaddr = 0x400000, p_paddr = 0, p_filesz = 4, p_memsz = 4, p_flags = 5, p_align = 0x1000\<rparr>]"
proof -
  have e: "map (\<lambda>i. byte_at i386_layout demo_elf_vm (0x10034 + of_nat i)) [0..<32] = take 32 (drop 52 demo_elf)"
  proof (rule nth_equalityI)
    fix i assume "i < length (map (\<lambda>i. byte_at i386_layout demo_elf_vm (0x10034 + of_nat i)) [0..<32])"
    then have i: "52 + i < 4096" "i < 32" by simp_all
    have "(0x10034 + of_nat i :: u32) = 0x10000 + of_nat (52 + i)" by simp
    then show "map (\<lambda>i. byte_at i386_layout demo_elf_vm (0x10034 + of_nat i)) [0..<32] ! i = take 32 (drop 52 demo_elf) ! i"
      using i demo_elf_addr(2) [OF i(1)] by (simp add: demo_elf_length)
  qed (simp add: demo_elf_length)
  have "phdr_at (byte_at i386_layout demo_elf_vm) 0x10034 = phdr_of (take 32 (drop 52 demo_elf))" unfolding phdr_at_def e ..
  then show ?thesis unfolding file_phdrs_def demo_elf_hdr phdrs_at_def by (simp add: phdr_of_def demo_elf_def le32_def PT_LOAD_def)
qed

definition demo_file :: initrd_file where
  "demo_file = \<lparr>f_name = ''init'', f_data_start = 0x10000, f_size = 88\<rparr>"

definition demo_elf_kern :: "(kheap, pmm vmm) kern" where
  "demo_elf_kern = \<lparr>k_ls = no_lists (heap_init 0xD0000000), k_tasks = Map.empty, k_utasks = Map.empty, k_msgs = Map.empty,
     k_files = [0x500 \<mapsto> demo_file], k_iobms = Map.empty, k_vm = demo_elf_vm, k_task_order = 0, k_current = 0, k_enabled = True, k_utsk_list = 0,
     k_next_pid = 0, k_tss = demo_tss, k_intr = \<lparr>i_depth = 0, i_flag = True\<rparr>, k_out = []\<rparr>"

theorem spawned_process_starts_witness:
  "\<exists>v'. user_spawn_second_half demo_pager_sv 0x500 0x10054 4 demo_elf_kern = Some ((0x400000, 0xCFFFFFFC), demo_elf_kern\<lparr>k_vm := v'\<rparr>) \<and>
    vm_read i386_layout v' 0x400001 = Some 0xFE \<and> vm_read i386_layout v' 0xCFFFFFFD = Some 0xFE"
proof -
  let ?b = "byte_at i386_layout demo_elf_vm"
  let ?ph = "\<lparr>p_type = PT_LOAD, p_offset = 84, p_vaddr = 0x400000, p_paddr = 0, p_filesz = 4, p_memsz = 4, p_flags = 5, p_align = 0x1000\<rparr> :: elf_phdr"
  have vm: "k_vm demo_elf_kern = demo_elf_vm" "load (k_files demo_elf_kern) 0x500 = Some demo_file" by (simp_all add: demo_elf_kern_def load_def)
  have sv: "pager_memory demo_pager_sv" by (simp add: pager_memory_def demo_pager_sv_def)
  have sp: "seg_pages ?ph = {1024}" by (auto simp: seg_pages_def pages_at_def pages_of_def)
  have sok: "seg_ok ?ph" by (simp add: seg_ok_def pages_of_def)
  have fr: "vm_free i386_layout demo_elf_vm k" if "1024 \<le> k" "k < 2 ^ 20" for k
  proof -
    have "dindex (frame_addr k) = k div 1024" using page_split(1) [of "frame_addr k"] page_frame_addr [OF that(2)] by simp
    then show ?thesis unfolding vm_free_def using that(1) by (intro demo_elf_walk) simp
  qed
  have seg: "\<forall>ph \<in> set [?ph]. seg_ok ph \<and> (\<forall>k \<in> seg_pages ph. k \<in> {16} \<or> vm_free i386_layout demo_elf_vm k)" using sok sp fr by simp
  have pg: "page x = 16 \<and> (\<forall>ph \<in> set [?ph]. \<not> loads ph x)" if x: "x \<in> hdr_addrs 0x10000 88" for x
  proof -
    obtain j where "j < 88" "x = 0x10000 + of_nat j" using x unfolding hdr_addrs_def by blast
    then have "page x = 16" using demo_elf_addr(1) [of j] by simp
    then show ?thesis using seg_loads [OF sok, of x] sp by auto
  qed
  have rd: "\<forall>x \<in> elf_reads ?b 0x10000. page x \<in> {16} \<and> (\<forall>ph \<in> set [?ph]. \<not> loads ph x)"
  proof
    fix x assume "x \<in> elf_reads ?b 0x10000"
    then have "x \<in> hdr_addrs 0x10000 52 \<union> hdr_addrs 0x10034 32 \<union> hdr_addrs 0x10054 4"
      unfolding elf_reads_def demo_elf_hdr demo_elf_phdrs by (simp add: seg_addrs_def)
    then have "x \<in> hdr_addrs 0x10000 88"
      using hdr_addrs_sub [of 0 52 88 "0x10000"] hdr_addrs_sub [of 52 32 88 "0x10000"] hdr_addrs_sub [of 84 4 88 "0x10000"] by auto
    from pg [OF this] show "page x \<in> {16} \<and> (\<forall>ph \<in> set [?ph]. \<not> loads ph x)" by simp
  qed
  have rm: "seg_need [?ph] + 8 \<le> vm_room demo_elf_vm"
    by (simp add: seg_need_def pages_of_def vm_room_def demo_elf_vm_def demo_elf_taken) (simp add: demo_elf_pmm_def)
  have st: "\<forall>k \<in> stack_pages. k \<notin> {16} \<and> k \<notin> prog_pages [?ph] \<and> vm_free i386_layout demo_elf_vm k"
    using fr sp by (simp add: stack_pages_def prog_pages_def)
  have n: "args_size 0x10054 4 = 4" by (simp add: args_size_def)
  have ar: "\<forall>i < unat (args_size 0x10054 4). page (0x10054 + of_nat i) \<in> {16} \<and> elf_byte ?b 0x10000 [?ph] (0x10054 + of_nat i) = None"
  proof (intro allI impI)
    fix i assume "i < unat (args_size 0x10054 4)"
    then have "0x10054 + of_nat i \<in> hdr_addrs 0x10054 4" unfolding n hdr_addrs_def by simp
    then have "0x10054 + of_nat i \<in> hdr_addrs 0x10000 88" using hdr_addrs_sub [of 84 4 88 "0x10000"] by auto
    from pg [OF this] show "page (0x10054 + of_nat i) \<in> {16} \<and> elf_byte ?b 0x10000 [?ph] (0x10054 + of_nat i) = None" by simp
  qed
  have le: "unat (args_size 0x10054 4) \<le> 0x4000" by (simp add: n)
  have f: "f_data_start demo_file = 0x10000" "(0x10000 :: addr) \<noteq> 0" "f_size demo_file \<noteq> 0" by (simp_all add: demo_file_def)
  obtain v' where v': "user_spawn_second_half demo_pager_sv 0x500 0x10054 4 demo_elf_kern = Some ((0x400000, 0xD0000000 - args_size 0x10054 4), demo_elf_kern\<lparr>k_vm := v'\<rparr>)"
    "\<forall>x w. elf_byte ?b 0x10000 [?ph] x = Some w \<longrightarrow> vm_read i386_layout v' x = Some w"
    "\<forall>i < unat (args_size 0x10054 4). vm_read i386_layout v' (0xD0000000 - args_size 0x10054 4 + of_nat i) = vm_read i386_layout demo_elf_vm (0x10054 + of_nat i)"
    using spawned_process_starts [OF sv vm(2) _ _ f _ demo_elf_phdrs [symmetric], unfolded vm(1), OF demo_elf_own refl demo_elf_hdr(4) rd seg rm st le ar]
    unfolding demo_elf_hdr(1) by blast
  have b: "?b 0x10055 = 0xFE"
  proof -
    have "?b 0x10055 = demo_elf ! 85" using demo_elf_addr(2) [of 85] by simp
    then show ?thesis by (simp add: demo_elf_def)
  qed
  then have "elf_byte ?b 0x10000 [?ph] 0x400001 = Some 0xFE" by (simp add: loads_def)
  moreover have "vm_read i386_layout demo_elf_vm 0x10055 = Some 0xFE"
    using vm_own_read [OF demo_elf_own, of "0x10055"] demo_elf_addr(1) [of 85] b by simp
  then have "vm_read i386_layout v' 0xCFFFFFFD = Some 0xFE" using v'(3) [rule_format, of 1] unfolding n by simp
  ultimately show ?thesis using v'(1,2) unfolding n by (intro exI [of _ v']) simp
qed

end
