(* ===== verification/Module_Deps.thy ===== *)
theory Module_Deps
  imports Main
begin

text \<open>
  What the modules declare: the macros \<^verbatim>\<open>module_name\<close> and \<^verbatim>\<open>module_depends\<close> at the end of each \<^verbatim>\<open>main.c\<close> under \<^verbatim>\<open>src/module\<close>. The
  loader that reads them belongs to the kernel submodule; a module can be loaded when everything it depends on has been.
\<close>

record kmodule =
  md_name :: string
  md_depends :: "string list"

definition acpi_module :: kmodule where
  "acpi_module = \<lparr>md_name = ''acpi'', md_depends = [''paging'', ''heap'', ''dthelper'', ''idt'', ''isr'']\<rparr>"

definition apic_module :: kmodule where
  "apic_module = \<lparr>md_name = ''apic'', md_depends = [''acpi'', ''dthelper'', ''isr'', ''irq'', ''cpu'', ''heap'', ''paging'']\<rparr>"

definition bmpmm_module :: kmodule where
  "bmpmm_module = \<lparr>md_name = ''pmm'', md_depends = [''isr'']\<rparr>"

definition cpu_module :: kmodule where
  "cpu_module = \<lparr>md_name = ''cpu'', md_depends = [''paging'', ''heap'', ''dthelper'', ''idt'', ''isr'']\<rparr>"

definition dthelper_module :: kmodule where
  "dthelper_module = \<lparr>md_name = ''dthelper'', md_depends = [''heap'', ''logger'']\<rparr>"

definition gdt_module :: kmodule where
  "gdt_module = \<lparr>md_name = ''gdt'', md_depends = []\<rparr>"

definition heap_module :: kmodule where
  "heap_module = \<lparr>md_name = ''heap'', md_depends = [''pmm'', ''isr'']\<rparr>"

definition idt_module :: kmodule where
  "idt_module = \<lparr>md_name = ''idt'', md_depends = [''gdt'']\<rparr>"

definition init_module :: kmodule where
  "init_module = \<lparr>md_name = ''init'', md_depends = [''syscall'', ''user'', ''message'', ''signal'', ''panic'']\<rparr>"

definition irq_module :: kmodule where
  "irq_module = \<lparr>md_name = ''irq'', md_depends = [''idt'']\<rparr>"

definition isr_module :: kmodule where
  "isr_module = \<lparr>md_name = ''isr'', md_depends = [''idt'', ''panic'']\<rparr>"

definition logger_module :: kmodule where
  "logger_module = \<lparr>md_name = ''logger'', md_depends = [''heap'', ''paging'', ''interrupt'']\<rparr>"

definition message_module :: kmodule where
  "message_module = \<lparr>md_name = ''message'', md_depends = [''heap'', ''dthelper'', ''tasking'', ''user'']\<rparr>"

definition paging_module :: kmodule where
  "paging_module = \<lparr>md_name = ''pager'', md_depends = [''panic'', ''idt'', ''isr'', ''heap'']\<rparr>"

definition panic_module :: kmodule where
  "panic_module = \<lparr>md_name = ''panic'', md_depends = []\<rparr>"

definition pit_module :: kmodule where
  "pit_module = \<lparr>md_name = ''pit'', md_depends = [''irq'']\<rparr>"

definition signal_module :: kmodule where
  "signal_module = \<lparr>md_name = ''signal'', md_depends = [''tasking'']\<rparr>"

definition syscall_module :: kmodule where
  "syscall_module = \<lparr>md_name = ''syscall'', md_depends = [''tasking'', ''user'', ''heap'', ''message'', ''irq'', ''idt'']\<rparr>"

definition tasking_module :: kmodule where
  "tasking_module = \<lparr>md_name = ''tasking'', md_depends = [''gdt'', ''timer'', ''irq'', ''heap'', ''dthelper'']\<rparr>"

definition timer_module :: kmodule where
  "timer_module = \<lparr>md_name = ''timer'', md_depends = [''pit'', ''apic'', ''irq'', ''heap'', ''dthelper'']\<rparr>"

definition user_module :: kmodule where
  "user_module = \<lparr>md_name = ''user'', md_depends = [''tasking'', ''panic'', ''heap'', ''dthelper'', ''gdt'']\<rparr>"

definition all_modules :: "kmodule list" where
  "all_modules = [acpi_module, apic_module, bmpmm_module,
     cpu_module, dthelper_module, gdt_module, heap_module, idt_module, init_module, irq_module,
     isr_module, logger_module, message_module, paging_module, panic_module, pit_module,
     signal_module, syscall_module, tasking_module, timer_module, user_module]"

lemmas module_defs = acpi_module_def apic_module_def bmpmm_module_def cpu_module_def dthelper_module_def gdt_module_def heap_module_def idt_module_def init_module_def irq_module_def isr_module_def logger_module_def message_module_def paging_module_def panic_module_def pit_module_def signal_module_def syscall_module_def tasking_module_def timer_module_def user_module_def

inductive can_load :: "kmodule list \<Rightarrow> string \<Rightarrow> bool" for ms where
  load: "m \<in> set ms \<Longrightarrow> (\<And>d. d \<in> set (md_depends m) \<Longrightarrow> can_load ms d) \<Longrightarrow> can_load ms (md_name m)"

text \<open>A set of names that contains what can be loaded from it contains all that can be loaded.\<close>

lemma can_load_least:
  assumes "can_load ms n" and "\<forall>m \<in> set ms. set (md_depends m) \<subseteq> S \<longrightarrow> md_name m \<in> S"
  shows "n \<in> S"
  using assms(1) by induction (use assms(2) in auto)

text \<open>Loading in the order of a list.\<close>

fun load_order :: "kmodule list \<Rightarrow> string list \<Rightarrow> bool" where
  "load_order [] loaded = True"
| "load_order (m # ms) loaded \<longleftrightarrow> set (md_depends m) \<subseteq> set loaded \<and> load_order ms (md_name m # loaded)"

lemma load_order_can_load:
  "load_order ms loaded \<Longrightarrow> set ms \<subseteq> set all \<Longrightarrow> \<forall>d \<in> set loaded. can_load all d \<Longrightarrow> m \<in> set ms \<Longrightarrow> can_load all (md_name m)"
proof (induction ms arbitrary: loaded)
  case (Cons x ms)
  have x: "can_load all (md_name x)" using Cons.prems(1-3) by (intro load) auto
  then show ?case using Cons.IH [of "md_name x # loaded"] Cons.prems by auto
qed simp

text \<open>
  No module has the name \<^verbatim>\<open>paging\<close> or \<^verbatim>\<open>interrupt\<close>: the pager calls itself \<^verbatim>\<open>pager\<close>. By the names alone, only what needs neither of
  them can be loaded; with both mended, every module has a place in an order of loading.
\<close>

definition mend :: "kmodule \<Rightarrow> kmodule" where
  "mend m = m\<lparr>md_depends := map (\<lambda>d. if d = ''paging'' then ''pager'' else d) (filter (\<lambda>d. d \<noteq> ''interrupt'') (md_depends m))\<rparr>"

lemma loadable_by_name:
  "can_load all_modules n \<longleftrightarrow> n \<in> {''gdt'', ''panic'', ''idt'', ''isr'', ''irq'', ''pmm'', ''heap'', ''pager'', ''pit''}"
proof
  assume "can_load all_modules n"
  then show "n \<in> {''gdt'', ''panic'', ''idt'', ''isr'', ''irq'', ''pmm'', ''heap'', ''pager'', ''pit''}"
    by (rule can_load_least) (simp add: all_modules_def module_defs)
next
  let ?ms = "[gdt_module, panic_module, idt_module, isr_module, irq_module, bmpmm_module, heap_module, paging_module, pit_module]"
  have o: "load_order ?ms []" by (simp add: module_defs)
  have "set ?ms \<subseteq> set all_modules" by (simp add: all_modules_def)
  from load_order_can_load [OF o this] have "can_load all_modules (md_name m)" if "m \<in> set ?ms" for m using that by simp
  then show "n \<in> {''gdt'', ''panic'', ''idt'', ''isr'', ''irq'', ''pmm'', ''heap'', ''pager'', ''pit''} \<Longrightarrow> can_load all_modules n"
    by (fastforce simp: module_defs)
qed

lemma loadable_mended:
  assumes "m \<in> set all_modules"
  shows "can_load (map mend all_modules) (md_name m)"
proof -
  let ?ms = "map mend [gdt_module, panic_module, idt_module, isr_module, irq_module, bmpmm_module, heap_module, paging_module, pit_module, logger_module,
    dthelper_module, cpu_module, acpi_module, apic_module, timer_module, tasking_module, signal_module, user_module, message_module, syscall_module, init_module]"
  have o: "load_order ?ms []" by (simp add: module_defs mend_def)
  have "set ?ms \<subseteq> set (map mend all_modules)" by (simp add: all_modules_def)
  from load_order_can_load [OF o this] have "can_load (map mend all_modules) (md_name x)" if "x \<in> set ?ms" for x using that by simp
  moreover have "mend m \<in> set ?ms" using assms by (auto simp: all_modules_def)
  moreover have "md_name (mend m) = md_name m" by (simp add: mend_def)
  ultimately show ?thesis by metis
qed

end
