(* ===== verification/Spec2Isabelle.thy ===== *)
theory Spec2Isabelle
  imports Prelude Bmpmm Message KList_Props Paging_Props Descriptors_Props User_Props Msg_Props LibcHeap_Props Print_Props ProcSvr Args
    Server_Props InitMod Devices_Props Acpi_Tables Apic_Props Timer_Props Logger_Props Panic_Props Kernel_Types Stdio Clone_Dir Start_Props Module_Deps
begin

text \<open>
  Modit! Micro is a set of modules around the Modit! kernel for 32-bit x86, with a small C library and a few
  user programs. This development models the modules under \<^verbatim>\<open>src/module\<close>, the parts of
  \<^verbatim>\<open>src/lib\<close> and \<^verbatim>\<open>src/apps\<close> that hold the logic of user programs, and proves what makes them
  correct, or where they are not.

  \<^bold>\<open>How the parts work together.\<close> At boot \<^verbatim>\<open>module/bmpmm\<close> takes over the physical frames,
  \<^verbatim>\<open>module/paging\<close> the page tables and \<^verbatim>\<open>module/heap\<close> the kernel heap, which asks the pager for pages.
  \<^verbatim>\<open>module/dthelper\<close> builds linked lists on that heap. \<^verbatim>\<open>module/gdt\<close>, \<^verbatim>\<open>idt\<close>, \<^verbatim>\<open>isr\<close> and
  \<^verbatim>\<open>irq\<close> set up segments and interrupts. \<^verbatim>\<open>module/tasking\<close> keeps a round list of tasks and switches at each
  tick; \<^verbatim>\<open>module/user\<close> makes processes from tasks; \<^verbatim>\<open>module/message\<close> passes messages between them; and
  \<^verbatim>\<open>module/syscall\<close> is the entry from user mode to all of these. \<^verbatim>\<open>module/cpu\<close>, \<^verbatim>\<open>acpi\<close>,
  \<^verbatim>\<open>apic\<close>, \<^verbatim>\<open>pit\<close> and \<^verbatim>\<open>timer\<close> find the devices that give the tick; \<^verbatim>\<open>module/logger\<close> and
  \<^verbatim>\<open>panic\<close> report to the console; \<^verbatim>\<open>module/init\<close> starts the first process. A user program runs on the C library, whose
  heap (\<^verbatim>\<open>lib/libc/stdlib/heap.c\<close>) asks for pages with system calls, whose streams print with one, and whose messages and
  processes are those of the kernel, all through the wrappers of \<^verbatim>\<open>lib/libmicro\<close>.
  \<^verbatim>\<open>apps/init\<close> starts \<^verbatim>\<open>apps/procsvr\<close>, which keeps the tree of named processes and answers questions about it.

  \<^bold>\<open>Conventions.\<close> A function of the source that changes state is a function from the state to an
  optional pair of result and new state. \<open>None\<close> is an execution without a meaning: a fault, an access outside an
  array, a division by 0, or a loop that does not end (\<open>partial_function (option)\<close>, least fixed point). Error
  codes are ordinary results. Integers are words of their width and wrap; signed overflow is taken to wrap, as
  in the unoptimised build of the Makefiles. Pointers are 32-bit words into stores, one for each
  type of object, so that aliasing is equality of addresses. No loop uses fuel.

  \<^bold>\<open>Interfaces.\<close>
  \<^item> \<open>Frames\<close>: the locale \<open>frame_allocator\<close> is what clients rely on of \<^verbatim>\<open>physical_allocator\<close>;
    \<open>Bmpmm\<close> provides it.
  \<^item> \<open>Links\<close>: the locale \<open>linked\<close> is a type of node with a next and a previous field; the headers of the
    kernel heap and the nodes of lists provide it.
  \<^item> \<open>Heaps\<close>: the locale \<open>allocator\<close> promises disjoint blocks while there is room, \<open>heap_allocator\<close> that
    also freeing works; \<open>Kheap_Safe\<close> provides the latter by \<open>kalloc\<close> and \<open>kfree\<close>, \<open>LibcHeap_Props\<close> only
    the former, by \<open>malloc\<close>. Lists and processes are verified against these laws.
  \<^item> \<open>Vm_Memory\<close>: the locale \<open>address_space\<close> is what the loader of programs relies on: own pages, their bytes, asking for more. The
    pager provides it, on the frame allocator.
  \<^item> \<open>Fifo\<close>: the locale \<open>fifo\<close> is a bounded queue; \<open>Message\<close> provides it.

  \<^bold>\<open>The theories.\<close>
  \<^item> \<open>Bmpmm\<close> models \<^verbatim>\<open>module/bmpmm/main.c\<close>: the bitmap \<open>pmm\<close>, taking, reserving and freeing frames and
    blocks, and the boot routine. Its invariant counts the bits; frames handed out are distinct.
  \<^item> \<open>Kheap\<close> models \<^verbatim>\<open>module/heap/main.c\<close>. \<open>Kheap_Links\<close> keeps its two lists of headers intact,
    \<open>Kheap_Blocks\<close> abstracts the heap to blocks that tile its area and proves \<open>kalloc\<close> a refinement of best fit,
    \<open>Kheap_Safe\<close> adds freeing with the merging of neighbours, and runs of requests.
  \<^item> \<open>KList\<close> models \<^verbatim>\<open>module/dthelper/list.c\<close>; \<open>KList_Props\<close> abstracts plain and round lists to the
    lists of their data.
  \<^item> \<open>Paging\<close> models \<^verbatim>\<open>module/paging/main.c\<close> over page directories and tables found by their frames;
    \<open>Paging_Props\<close> sees it as a map from pages to entries. \<open>Clone_Table\<close> and \<open>Clone_Dir\<close> put it on the models of the frame allocator and
    of the kernel heap and show what \<^verbatim>\<open>clonedir\<close> copies. \<open>Vm_Memory\<close> is the memory that a processor sees through the tables, and
    how asking for pages changes it.
  \<^item> \<open>Descriptors\<close> models \<^verbatim>\<open>module/gdt\<close>, \<^verbatim>\<open>idt\<close>, \<^verbatim>\<open>isr\<close> and \<^verbatim>\<open>irq\<close>;
    \<open>Descriptors_Props\<close> shows that fields are written where the processor reads them, that every gate is
    installed, and how disabled sections nest.
  \<^item> \<open>Message\<close> models the queue of \<^verbatim>\<open>module/message/main.c\<close>, \<open>MsgAsync\<close> sending and receiving.
  \<^item> \<open>Tasking\<close> holds the record \<open>kern\<close> of the kernel state and the scheduler, \<^verbatim>\<open>module/tasking/main.c\<close>;
    \<open>User\<close> and \<open>Elf\<close> are \<^verbatim>\<open>module/user\<close>, \<open>Elf_Props\<close> shows where a program is loaded and
    \<open>Start_Props\<close> what a new process finds when it enters user mode; \<open>Syscall\<close> is \<^verbatim>\<open>module/syscall/main.c\<close>. \<open>Tasking_Props\<close> and
    \<open>User_Props\<close> treat one operation each on given lists.
  \<^item> \<open>Processes\<close> and \<open>Processes_Ops\<close> state the invariant of all kernel objects over any \<open>heap_allocator\<close>
    and show that the operations keep it; \<open>Kernel_Inv\<close>, \<open>Syscall_Inv\<close> and \<open>Kernel_Machine\<close> put the model of
    the kernel heap below it and prove it for every state that a step relation reaches, where the steps include
    every system call. \<open>Kernel_Frame\<close> collects the changes of the state that keep the invariant at once,
    \<open>Msg_Inv\<close> adds the messages between their sending and their receipt, whose blocks belong to the kernel.
    \<open>Syscall_Props\<close> has permissions, ports, the ramdisk and mapping, \<open>Msg_Props\<close> the way of a message from one
    process to another.
  \<^item> \<open>LibcHeap\<close> models \<^verbatim>\<open>lib/libc/stdlib/heap.c\<close>. \<open>LibcHeap_Props\<close>: allocating is safe, freeing is not.
  \<^item> \<open>Print\<close> models \<^verbatim>\<open>module/logger/print.c\<close>, \<^verbatim>\<open>lib/libc/stdio/print.c\<close>, \<^verbatim>\<open>lib/libc/stdio/stdio.c\<close>
    and \<^verbatim>\<open>micro_write\<close>; \<open>Print_Props\<close> relates both ways of printing a number to its digits.
  \<^item> \<open>ProcSvr\<close> models \<^verbatim>\<open>apps/procsvr/process_tree.c\<close>, \<^verbatim>\<open>apps/procsvr/process.c\<close> and
    \<^verbatim>\<open>lib/libc/string/string.c\<close>; searching the tree is finding in preorder.
  \<^item> \<open>Args\<close> models \<^verbatim>\<open>__construct_ustk\<close> of \<^verbatim>\<open>lib/libc/sys/argconst.c\<close>.
  \<^item> \<open>Micro\<close> models \<^verbatim>\<open>lib/libmicro\<close> over the interrupt 0x4D, \<open>LibcSys\<close> models \<^verbatim>\<open>lib/libc/sys\<close>,
    \<^verbatim>\<open>apps/init/main.c\<close> and \<^verbatim>\<open>apps/procsvr/main.c\<close> over the memory and the heap of a program. \<open>Micro_Props\<close> follows a
    message from one program through the kernel to another, \<open>Server_Props\<close> the answer of the server. \<open>FlatMem\<close> gives the
    laws of a memory without faults that some theorems use. \<open>Stdio\<close> starts a program: its heap and streams.
  \<^item> \<open>InitMod\<close> models \<^verbatim>\<open>module/init/main.c\<close> and composes the boot up to the first process. \<open>Kernel_Types\<close> reads the
    invariant of the kernel as a typing of its memory.
  \<^item> \<open>Devices\<close> models \<^verbatim>\<open>module/cpu\<close>, \<^verbatim>\<open>pit\<close> and the registers of \<^verbatim>\<open>apic\<close> over a record \<open>hw\<close> of ports,
    device memory and instructions; \<open>Acpi\<close> models \<^verbatim>\<open>module/acpi\<close> and the rest of \<^verbatim>\<open>module/apic/main.c\<close>. \<open>Devices_Props\<close>
    tells when starting ends, \<open>Acpi_Props\<close> finds the root pointer, \<open>Acpi_Tables\<close> maps the tables, over a memory of pages,
    and \<open>Apic_Props\<close> lists the interrupt controllers.
  \<^item> \<open>Timer\<close> models \<^verbatim>\<open>module/timer/main.c\<close>; in \<open>Timer_Props\<close>, adding clocks keeps the shortest, and an interrupt ticks every
    clock, for any rounding with the laws \<open>sound_fl\<close>.
  \<^item> \<open>Module_Deps\<close> holds the names and dependencies that the modules declare, and which of them can be loaded.
  \<^item> \<open>Logger\<close> models \<^verbatim>\<open>module/logger/main.c\<close>, \<open>Panic\<close> models \<^verbatim>\<open>module/panic/main.c\<close>. \<open>Logger_Props\<close> shows that the
    log grows by one message at a time, \<open>Panic_Props\<close> that a panic ends.

  \<^bold>\<open>Parameters.\<close> The kernel itself is a git submodule that is not part of the repository. What modules use of
  it is an argument: the layout of page table entries (\<open>pg_layout\<close>), the memory of the machine and the current
  address space (\<open>sv_peek\<close>, \<open>sv_poke\<close> and others of the record \<open>services\<close>), the map of physical memory and the
  files of the initial ramdisk. Locks make an operation atomic and have no counterpart. Memory that is not
  initialised is an argument called \<open>junk\<close>.

  \<^bold>\<open>Bounds.\<close> Sizes are as in the source: 128 messages in a queue, 256 gates, 1024 entries in a table,
  256 bytes in the buffer of a stream. Theorems about runs assume that address and header space last, in terms
  of \<open>kheap_bytes_left\<close>, \<open>kheap_allocs_left\<close> and their counterparts for \<open>malloc\<close>, which start near 496 MiB
  and 2 GiB.

  \<^bold>\<open>Devices and floating point.\<close> What a port, a register or an instruction of the processor does is an argument, with a state of its
  own that every access may change. A \<^verbatim>\<open>float\<close> is a rational number, and a function that is an argument rounds the result of every
  operation.

  \<^bold>\<open>Not modelled.\<close> The assembly routines (loading tables, entering user mode, interrupt stubs, \<^verbatim>\<open>inb\<close> and
  \<^verbatim>\<open>outb\<close> of a user program); the functions of \<^verbatim>\<open>module/signal\<close> and those that register and unload modules, which only return 0;
  the endless loops at the end of the two programs; text for the console where nothing depends on it; declarations without a definition and layouts that no code uses; and the build files.
\<close>

end
